(* ===== verification/Prelude.thy ===== *)
theory Prelude
  imports Main "HOL-Library.Word" "HOL-Library.Monad_Syntax" "HOL-Library.Tree"
begin

text \<open>
  Shared vocabulary of the development: the machine integers of the code, the fallible
  results, the two standard containers whose iteration order the code observes
  (\<open>std::map\<close> and \<open>std::set\<close>, both kept sorted), and the generic facts about words,
  options and lists that the component theories share.

  A value \<open>None\<close> of a pointer-level operation means that the code does not return
  normally: it dereferences a null or dangling pointer, reads \<open>back()\<close> of an empty
  vector, or runs forever.
\<close>

section \<open>Collections of facts\<close>

named_theorems heap_simps \<open>frame and update laws of heaps and trees\<close>
named_theorems op_simps \<open>unfoldings of straight-line operations\<close>

section \<open>Machine integers\<close>

type_synonym u64 = "64 word"

lemma unat_pred: "(x::u64) \<noteq> 0 \<Longrightarrow> unat (x - 1) = unat x - 1"
  by (rule unat_minus_one)

lemma unat_succ: "(x::u64) < y \<Longrightarrow> unat (x + 1) = Suc (unat x)"
proof -
  assume "x < y"
  then have "unat x < unat y"
    by (simp add: word_less_nat_alt)
  moreover have "unat y < 2 ^ 64"
    using unsigned_less [of y] by simp
  ultimately have "Suc (unat x) < 2 ^ 64"
    by simp
  then show ?thesis
    by (simp add: unat_word_ariths)
qed

lemma unat_less_64 [simp]: "unat (x::u64) < 18446744073709551616"
  using unsigned_less [of x] by simp

lemma le_pred_iff: "(y::u64) \<noteq> 0 \<Longrightarrow> x \<le> y - 1 \<longleftrightarrow> x < y"
proof -
  assume y: "y \<noteq> 0"
  then have "unat y > 0" by (simp add: unat_gt_0)
  with y show ?thesis unfolding word_le_nat_alt word_less_nat_alt unat_pred [OF y] by linarith
qed

lemma pred_neq: "(x::u64) - 1 \<noteq> x"
  by simp

section \<open>Options\<close>

lemma bind_eq_SomeI: "m = Some x \<Longrightarrow> f x = Some y \<Longrightarrow> Option.bind m f = Some y"
  by simp

lemma option_bind_weak_cong: "m = m' \<Longrightarrow> Option.bind m f = Option.bind m' f"
  by simp

section \<open>Lists\<close>

lemma distinct_split_unique:
  "distinct (us @ a # vs) \<Longrightarrow> us @ a # vs = us' @ a # vs' \<Longrightarrow> us = us' \<and> vs = vs'"
  by (metis append_Cons_eq_iff disjoint_iff distinct.simps(2) distinct_append list.set_intros(1))

section \<open>Vectors used as stacks\<close>

text \<open>
  \<open>locks.back(); locks.pop_back();\<close> on a \<open>std::vector\<close>: undefined on an empty vector.
\<close>

definition pop_back :: "'a list \<Rightarrow> ('a \<times> 'a list) option" where
  "pop_back xs = (if xs = [] then None else Some (last xs, butlast xs))"

lemma pop_back_Nil [simp]: "pop_back [] = None"
  by (simp add: pop_back_def)

lemma pop_back_snoc [simp]: "pop_back (xs @ [x]) = Some (x, xs)"
  by (simp add: pop_back_def)

section \<open>Sorted associative containers\<close>

text \<open>
  \<open>std::map\<close> as an association list in ascending key order: lookups are \<^const>\<open>map_of\<close>,
  iteration is the list itself.
\<close>

fun smap_put :: "'k::linorder \<Rightarrow> 'v \<Rightarrow> ('k \<times> 'v) list \<Rightarrow> ('k \<times> 'v) list" where
  "smap_put k v [] = [(k, v)]"
| "smap_put k v ((k', v') # m) =
     (if k < k' then (k, v) # (k', v') # m
      else if k = k' then (k, v) # m
      else (k', v') # smap_put k v m)"

definition smap_ok :: "('k::linorder \<times> 'v) list \<Rightarrow> bool" where
  "smap_ok m \<longleftrightarrow> sorted_wrt (<) (map fst m)"

lemma map_of_smap_put [simp]:
  "smap_ok m \<Longrightarrow> map_of (smap_put k v m) = (map_of m)(k \<mapsto> v)"
  by (induction m) (auto simp: smap_ok_def fun_eq_iff)

lemma fst_smap_put: "fst ` set (smap_put k v m) = insert k (fst ` set m)"
proof (induction m)
  case (Cons p m)
  then show ?case by (cases p) (simp add: insert_commute)
qed simp

lemma smap_ok_put [simp]: "smap_ok m \<Longrightarrow> smap_ok (smap_put k v m)"
proof (induction m)
  case Nil
  then show ?case by (simp add: smap_ok_def)
next
  case (Cons p m)
  have "\<forall>x\<in>fst ` set (smap_put k v m). x = k \<or> x \<in> fst ` set m"
    by (simp add: fst_smap_put)
  with Cons show ?case
    by (cases p) (force simp: smap_ok_def)
qed

lemma smap_ok_Nil [simp]: "smap_ok []"
  by (simp add: smap_ok_def)

lemma smap_ok_distinct: "smap_ok m \<Longrightarrow> distinct (map fst m)"
  by (simp add: smap_ok_def strict_sorted_iff)

section \<open>\<open>std::to_string\<close> and \<open>atoi\<close>\<close>

text \<open>
  The decimal text of a number, and the number at the beginning of a text: \<open>atoi\<close> skips white
  space, takes an optional sign and the digits that follow; a text without digits counts 0.
\<close>

fun show_nat :: "nat \<Rightarrow> string" where
  "show_nat n = (if n < 10 then [char_of (48 + n)] else show_nat (n div 10) @ [char_of (48 + n mod 10)])"

declare show_nat.simps [simp del]

definition show_int :: "int \<Rightarrow> string" where
  "show_int i = (if i < 0 then ''-'' @ show_nat (nat (- i)) else show_nat (nat i))"

definition is_digit :: "char \<Rightarrow> bool" where
  "is_digit c \<longleftrightarrow> 48 \<le> (of_char c :: nat) \<and> (of_char c :: nat) \<le> 57"

definition is_space :: "char \<Rightarrow> bool" where
  "is_space c \<longleftrightarrow> (of_char c :: nat) = 32 \<or> 9 \<le> (of_char c :: nat) \<and> (of_char c :: nat) \<le> 13"

definition digit_value :: "char \<Rightarrow> nat" where
  "digit_value c = of_char c - 48"

definition parse_digits :: "string \<Rightarrow> nat" where
  "parse_digits s = foldl (\<lambda>n c. 10 * n + digit_value c) 0 (takeWhile is_digit s)"

definition atoi :: "string \<Rightarrow> int" where
  "atoi s =
    (let t = dropWhile is_space s
     in if take 1 t = ''-'' then - int (parse_digits (drop 1 t))
        else if take 1 t = ''+'' then int (parse_digits (drop 1 t))
        else int (parse_digits t))"

lemma digit_char:
  assumes "d < 10"
  shows "is_digit (char_of (48 + d :: nat))" "digit_value (char_of (48 + d :: nat)) = d"
  using assms by (simp_all add: is_digit_def digit_value_def)

lemma digits_show_nat:
  "list_all is_digit (show_nat n) \<and> foldl (\<lambda>n c. 10 * n + digit_value c) 0 (show_nat n) = n \<and> show_nat n \<noteq> []"
proof (induction n rule: show_nat.induct)
  case (1 n)
  show ?case
  proof (cases "n < 10")
    case True
    then show ?thesis
      by (subst (1 2 3) show_nat.simps) (simp add: digit_char)
  next
    case False
    have "n mod 10 < 10" by simp
    with 1 False show ?thesis
      by (subst (1 2 3) show_nat.simps) (simp add: digit_char)
  qed
qed

lemma takeWhile_digits [simp]: "takeWhile is_digit (show_nat n) = show_nat n"
  using digits_show_nat [of n] by (simp add: takeWhile_eq_all_conv list_all_iff)

lemma parse_show_nat [simp]: "parse_digits (show_nat n) = n"
  using digits_show_nat [of n] by (simp add: parse_digits_def)

lemma atoi_show_int: "atoi (show_int i) = i"
proof (cases "i < 0")
  case True
  then show ?thesis by (simp add: show_int_def atoi_def is_space_def)
next
  case False
  obtain c cs where c: "show_nat (nat i) = c # cs" "is_digit c"
    using digits_show_nat [of "nat i"] by (cases "show_nat (nat i)") auto
  then have "\<not> is_space c" "c \<noteq> CHR ''-''" "c \<noteq> CHR ''+''"
    by (auto simp: is_digit_def is_space_def)
  with c(1) have "atoi (show_nat (nat i)) = int (parse_digits (show_nat (nat i)))"
    by (simp add: atoi_def)
  with False show ?thesis by (simp add: show_int_def)
qed

end
