(* ===== verification/Lock_Node.thy ===== *)
theory Lock_Node
  imports Prelude
begin

text \<open>
  The nodes of the per-key lock tree, translated from \<open>src/src/LockStatus.h\<close>,
  \<open>AVLTreeLockNode.h\<close> and \<open>AVLTreeLockNode.cc\<close>.  Nodes live in an explicit heap and
  refer to each other by address (parent, left and right pointers), because the lock
  manager keeps pointers into a tree while rotations move the nodes around.
\<close>

section \<open>Data\<close>

datatype lock_status =
  FREE | READ_LOCK | WRITE_LOCK | FREEZE_READ_LOCK | FREEZE_WRITE_LOCK

type_synonym addr = nat

text \<open>
  Heights are C \<open>int\<close>s; they are bounded by the number of live nodes, so they are
  modelled as unbounded \<^typ>\<open>int\<close>s.
\<close>

record lock_node =
  n_status :: lock_status
  n_start :: u64
  n_end :: u64
  n_tids :: "u64 set"
  n_left_height :: int
  n_right_height :: int
  n_parent :: "addr option"
  n_left :: "addr option"
  n_right :: "addr option"

type_synonym heap = "addr \<rightharpoonup> lock_node"

section \<open>Constructors\<close>

definition new_node :: lock_node where
  "new_node =
    \<lparr>n_status = FREE, n_start = 0, n_end = - 1, n_tids = {},
     n_left_height = 0, n_right_height = 0,
     n_parent = None, n_left = None, n_right = None\<rparr>"

definition copy_node :: "lock_node \<Rightarrow> lock_node" where
  "copy_node lock =
    \<lparr>n_status = n_status lock, n_start = n_start lock, n_end = n_end lock,
     n_tids = n_tids lock,
     n_left_height = 0, n_right_height = 0,
     n_parent = None, n_left = None, n_right = None\<rparr>"

section \<open>Heap access\<close>

definition upd :: "heap \<Rightarrow> addr \<Rightarrow> (lock_node \<Rightarrow> lock_node) \<Rightarrow> heap option" where
  "upd h p f = (case h p of None \<Rightarrow> None | Some n \<Rightarrow> Some (h(p \<mapsto> f n)))"

lemma upd_Some [op_simps]: "h p = Some n \<Longrightarrow> upd h p f = Some (h(p \<mapsto> f n))"
  by (simp add: upd_def)

section \<open>Operations\<close>

partial_function (option) getRoot :: "heap \<Rightarrow> addr \<Rightarrow> addr option" where
  "getRoot h this = do {
     n \<leftarrow> h this;
     (case n_parent n of
        Some p \<Rightarrow> getRoot h p
      | None \<Rightarrow> Some this)
   }"

text \<open>The height of the subtree below a child pointer, as \<open>updateHeight\<close> computes it.\<close>

definition child_height :: "heap \<Rightarrow> addr option \<Rightarrow> int option" where
  "child_height h c =
    (case c of
       None \<Rightarrow> Some 0
     | Some p \<Rightarrow> do {
         n \<leftarrow> h p;
         Some (if n_left_height n \<ge> n_right_height n
               then n_left_height n + 1 else n_right_height n + 1)
       })"

definition updateHeight :: "heap \<Rightarrow> addr \<Rightarrow> heap option" where
  "updateHeight h this = do {
     n \<leftarrow> h this;
     lh \<leftarrow> child_height h (n_left n);
     h \<leftarrow> upd h this (n_left_height_update (\<lambda>_. lh));
     rh \<leftarrow> child_height h (n_right n);
     upd h this (n_right_height_update (\<lambda>_. rh))
   }"

text \<open>
  \<open>if (_parent->_left == this) _parent->_left = c; else _parent->_right = c;\<close>: the block
  that \<open>swap\<close> and \<open>remove\<close> use to put another child in the place of this node.
\<close>

definition replace_child :: "heap \<Rightarrow> addr \<Rightarrow> addr \<Rightarrow> addr option \<Rightarrow> heap option" where
  "replace_child h p this c = do {
     pn \<leftarrow> h p;
     (if n_left pn = Some this
      then upd h p (n_left_update (\<lambda>_. c))
      else upd h p (n_right_update (\<lambda>_. c)))
   }"

text \<open>
  \<open>swap(is_left)\<close>: rotate the left (right) child above this node.  Without such a child
  the code prints an error and returns.
\<close>

definition node_swap :: "heap \<Rightarrow> addr \<Rightarrow> bool \<Rightarrow> heap option" where
  "node_swap h this is_left = do {
     n \<leftarrow> h this;
     (case (if is_left then n_left n else n_right n) of
        None \<Rightarrow> Some h
      | Some child \<Rightarrow> do {
          h \<leftarrow> upd h child (n_parent_update (\<lambda>_. n_parent n));
          h \<leftarrow> (case n_parent n of
                  None \<Rightarrow> Some h
                | Some p \<Rightarrow> replace_child h p this (Some child));
          h \<leftarrow> upd h this (n_parent_update (\<lambda>_. Some child));
          cn \<leftarrow> h child;
          h \<leftarrow> (if is_left then do {
                  h \<leftarrow> upd h this (n_left_update (\<lambda>_. n_right cn));
                  h \<leftarrow> (case n_right cn of
                          None \<Rightarrow> Some h
                        | Some x \<Rightarrow> upd h x (n_parent_update (\<lambda>_. Some this)));
                  upd h child (n_right_update (\<lambda>_. Some this))
                } else do {
                  h \<leftarrow> upd h this (n_right_update (\<lambda>_. n_left cn));
                  h \<leftarrow> (case n_left cn of
                          None \<Rightarrow> Some h
                        | Some x \<Rightarrow> upd h x (n_parent_update (\<lambda>_. Some this)));
                  upd h child (n_left_update (\<lambda>_. Some this))
                });
          h \<leftarrow> updateHeight h this;
          updateHeight h child
        })
   }"

text \<open>
  One level of \<open>balance()\<close>: update the heights of this node and rotate if it leans by
  more than one.  The flag says that the code took its error return (an unbalanced
  child), after which it does not go on to the parent.
\<close>

definition balance_node :: "heap \<Rightarrow> addr \<Rightarrow> (heap \<times> bool) option" where
  "balance_node h this = do {
     h \<leftarrow> updateHeight h this;
     n \<leftarrow> h this;
     (if n_right_height n - n_left_height n < - 1 then do {
        l \<leftarrow> n_left n;
        ln \<leftarrow> h l;
        (if n_right_height ln - n_left_height ln = 1 then do {
           h \<leftarrow> node_swap h l False;
           h \<leftarrow> node_swap h this True;
           Some (h, False)
         }
         else if n_right_height ln - n_left_height ln < - 1 then Some (h, True)
         else do {
           h \<leftarrow> node_swap h this True;
           Some (h, False)
         })
      }
      else if n_right_height n - n_left_height n > 1 then do {
        r \<leftarrow> n_right n;
        rn \<leftarrow> h r;
        (if n_right_height rn - n_left_height rn = - 1 then do {
           h \<leftarrow> node_swap h r True;
           h \<leftarrow> node_swap h this False;
           Some (h, False)
         }
         else if n_right_height rn - n_left_height rn > 1 then Some (h, True)
         else do {
           h \<leftarrow> node_swap h this False;
           Some (h, False)
         })
      }
      else Some (h, False))
   }"

partial_function (option) balance :: "heap \<Rightarrow> addr \<Rightarrow> heap option" where
  "balance h this = do {
     n \<leftarrow> h this;
     (h', failed) \<leftarrow> balance_node h this;
     (if failed then Some h'
      else (case n_parent n of
              None \<Rightarrow> Some h'
            | Some p \<Rightarrow> balance h' p))
   }"

text \<open>
  \<open>find(locks, ts)\<close>: push the nodes on the path to the node whose interval contains
  \<open>ts\<close> at which the path turns right, and that node itself.
\<close>

partial_function (option) node_find ::
    "heap \<Rightarrow> addr \<Rightarrow> addr list \<Rightarrow> u64 \<Rightarrow> addr list option" where
  "node_find h this locks ts = do {
     n \<leftarrow> h this;
     (if ts < n_start n then
        (case n_left n of
           Some l \<Rightarrow> node_find h l locks ts
         | None \<Rightarrow> Some locks)
      else if ts > n_end n then
        (case n_right n of
           Some r \<Rightarrow> node_find h r (locks @ [this]) ts
         | None \<Rightarrow> Some locks)
      else Some (locks @ [this]))
   }"

partial_function (option) node_insert ::
    "heap \<Rightarrow> addr \<Rightarrow> addr \<Rightarrow> (heap \<times> addr) option" where
  "node_insert h this new_lock = do {
     n \<leftarrow> h this;
     m \<leftarrow> h new_lock;
     (if n_start m < n_start n then
        (case n_left n of
           None \<Rightarrow> do {
             h \<leftarrow> upd h this (n_left_update (\<lambda>_. Some new_lock));
             h \<leftarrow> upd h new_lock (n_parent_update (\<lambda>_. Some this));
             h \<leftarrow> balance h this;
             root \<leftarrow> getRoot h this;
             Some (h, root)
           }
         | Some l \<Rightarrow> node_insert h l new_lock)
      else
        (case n_right n of
           None \<Rightarrow> do {
             h \<leftarrow> upd h this (n_right_update (\<lambda>_. Some new_lock));
             h \<leftarrow> upd h new_lock (n_parent_update (\<lambda>_. Some this));
             h \<leftarrow> balance h this;
             root \<leftarrow> getRoot h this;
             Some (h, root)
           }
         | Some r \<Rightarrow> node_insert h r new_lock))
   }"

section \<open>Removal and printing\<close>

text \<open>The rightmost node below a node: \<open>while (new_lock->_right != nullptr)\<close>.\<close>

partial_function (option) rightmost :: "heap \<Rightarrow> addr \<Rightarrow> addr option" where
  "rightmost h new_lock = do {
     n \<leftarrow> h new_lock;
     (case n_right n of None \<Rightarrow> Some new_lock | Some r \<Rightarrow> rightmost h r)
   }"

definition set_parent :: "heap \<Rightarrow> addr option \<Rightarrow> addr option \<Rightarrow> heap option" where
  "set_parent h c p =
    (case c of None \<Rightarrow> Some h | Some x \<Rightarrow> upd h x (n_parent_update (\<lambda>_. p)))"

text \<open>\<open>remove\<close>, which the program does not call; a null \<open>_parent\<close> that is dereferenced is \<open>None\<close>.\<close>

definition node_remove :: "heap \<Rightarrow> addr \<Rightarrow> (heap \<times> addr) option" where
  "node_remove h this = do {
     n \<leftarrow> h this;
     h \<leftarrow> (case n_left n of
         Some l \<Rightarrow> do {
           new_lock \<leftarrow> rightmost h l;
           m \<leftarrow> h new_lock;
           (if n_parent m = Some this then do {
              p \<leftarrow> n_parent n;
              h \<leftarrow> replace_child h p this (Some new_lock);
              h \<leftarrow> upd h new_lock (n_parent_update (\<lambda>_. n_parent n));
              h \<leftarrow> set_parent h (n_right n) (Some new_lock);
              h \<leftarrow> upd h new_lock (n_right_update (\<lambda>_. n_right n));
              balance h new_lock
            }
            else do {
              parent \<leftarrow> n_parent m;
              h \<leftarrow> set_parent h (n_left m) (Some parent);
              h \<leftarrow> upd h parent (n_right_update (\<lambda>_. n_left m));
              h \<leftarrow> balance h parent;
              n \<leftarrow> h this;
              h \<leftarrow> upd h new_lock (\<lambda>m. m\<lparr>n_parent := n_parent n, n_left := n_left n, n_right := n_right n,
                     n_left_height := n_left_height n, n_right_height := n_right_height n\<rparr>);
              h \<leftarrow> (case n_parent n of
                      None \<Rightarrow> Some h
                    | Some p \<Rightarrow> replace_child h p this (Some new_lock));
              h \<leftarrow> set_parent h (n_left n) (Some new_lock);
              set_parent h (n_right n) (Some new_lock)
            })
         }
       | None \<Rightarrow> (case n_right n of
           Some r \<Rightarrow> do {
             h \<leftarrow> (case n_parent n of
                     None \<Rightarrow> Some h
                   | Some p \<Rightarrow> do {
                       h \<leftarrow> replace_child h p this (Some r);
                       upd h r (n_parent_update (\<lambda>_. n_parent n))
                     });
             p \<leftarrow> n_parent n;
             balance h p
           }
         | None \<Rightarrow> do {
             h \<leftarrow> (case n_parent n of
                     None \<Rightarrow> Some h
                   | Some p \<Rightarrow> replace_child h p this None);
             p \<leftarrow> n_parent n;
             balance h p
           }));
     root \<leftarrow> getRoot h this;
     Some (h, root)
   }"

text \<open>\<open>std::to_string\<close> of the numbers, and \<open>toString\<close>.\<close>

fun show_status :: "lock_status \<Rightarrow> string" where
  "show_status FREE = ''FREE''"
| "show_status READ_LOCK = ''READ_LOCK''"
| "show_status WRITE_LOCK = ''WRITE_LOCK''"
| "show_status FREEZE_READ_LOCK = ''FREEZE_READ_LOCK''"
| "show_status FREEZE_WRITE_LOCK = ''FREEZE_WRITE_LOCK''"

definition newline :: string where
  "newline = [char_of (10::nat)]"

definition show_node :: "lock_node \<Rightarrow> string" where
  "show_node n =
    ''Interval: ['' @ show_nat (unat (n_start n)) @ '','' @ show_nat (unat (n_end n)) @ '']'' @ newline
    @ ''Status: '' @ show_status (n_status n) @ newline
    @ ''Height: ('' @ show_int (n_left_height n) @ '','' @ show_int (n_right_height n) @ '')'' @ newline"

partial_function (option) toString :: "heap \<Rightarrow> addr \<Rightarrow> string option" where
  "toString h this = do {
     n \<leftarrow> h this;
     l \<leftarrow> (case n_left n of None \<Rightarrow> Some [] | Some x \<Rightarrow> do { s \<leftarrow> toString h x; Some (newline @ s) });
     r \<leftarrow> (case n_right n of None \<Rightarrow> Some [] | Some x \<Rightarrow> do { s \<leftarrow> toString h x; Some (newline @ s) });
     Some (show_node n @ l @ r)
   }"

declare rightmost.simps [code] toString.simps [code]

declare getRoot.simps [code] balance.simps [code] node_find.simps [code] node_insert.simps [code]

end
