(* ===== verification/Lock_Tree.thy ===== *)
theory Lock_Tree
  imports Lock_Node
begin

text \<open>
  The abstraction of the pointer structure of \<open>Lock_Node\<close>: a heap holds a binary tree of
  addresses (type \<^typ>\<open>addr tree\<close>), seen from a node in the middle as a subtree in a
  context.  The operations of the node are shown to implement the pure operations
  \<open>rot\<close>, \<open>climb\<close> and \<open>ins\<close> on such trees.
\<close>

section \<open>Trees in a heap\<close>

fun root_of :: "'a tree \<Rightarrow> 'a option" where
  "root_of Leaf = None"
| "root_of (Node l a r) = Some a"

text \<open>
  \<open>tree_at h par p t\<close>: the pointer \<open>p\<close> leads to the tree \<open>t\<close>, whose root has the parent
  pointer \<open>par\<close>; the stored heights are the heights of the subtrees.
\<close>

fun tree_at :: "heap \<Rightarrow> addr option \<Rightarrow> addr option \<Rightarrow> addr tree \<Rightarrow> bool" where
  "tree_at h par p Leaf \<longleftrightarrow> p = None"
| "tree_at h par p (Node l a r) \<longleftrightarrow> p = Some a \<and>
     (case h a of
        None \<Rightarrow> False
      | Some n \<Rightarrow> n_parent n = par
          \<and> n_left_height n = int (height l) \<and> n_right_height n = int (height r)
          \<and> tree_at h (Some a) (n_left n) l \<and> tree_at h (Some a) (n_right n) r)"

text \<open>A context: the path from a subtree up to the root, with the other subtrees.\<close>

datatype frame = LeftOf addr "addr tree" | RightOf "addr tree" addr

fun top :: "frame list \<Rightarrow> addr option" where
  "top [] = None"
| "top (LeftOf a r # cs) = Some a"
| "top (RightOf l a # cs) = Some a"

fun plug :: "addr tree \<Rightarrow> frame list \<Rightarrow> addr tree" where
  "plug t [] = t"
| "plug t (LeftOf a r # cs) = plug (Node t a r) cs"
| "plug t (RightOf l a # cs) = plug (Node l a t) cs"

fun ctx_addrs :: "frame list \<Rightarrow> addr list" where
  "ctx_addrs [] = []"
| "ctx_addrs (LeftOf a r # cs) = a # inorder r @ ctx_addrs cs"
| "ctx_addrs (RightOf l a # cs) = inorder l @ a # ctx_addrs cs"

text \<open>
  \<open>ctx_at h p cs\<close>: the context is in the heap, with the pointer \<open>p\<close> at its hole.  The
  heights stored in the nodes of the path are not constrained: \<open>balance\<close> restores them.
\<close>

fun ctx_at :: "heap \<Rightarrow> addr option \<Rightarrow> frame list \<Rightarrow> bool" where
  "ctx_at h p [] \<longleftrightarrow> True"
| "ctx_at h p (LeftOf a r # cs) \<longleftrightarrow>
     (case h a of
        None \<Rightarrow> False
      | Some n \<Rightarrow> n_left n = p \<and> n_parent n = top cs
          \<and> tree_at h (Some a) (n_right n) r \<and> ctx_at h (Some a) cs)"
| "ctx_at h p (RightOf l a # cs) \<longleftrightarrow>
     (case h a of
        None \<Rightarrow> False
      | Some n \<Rightarrow> n_right n = p \<and> n_parent n = top cs
          \<and> tree_at h (Some a) (n_left n) l \<and> ctx_at h (Some a) cs)"

subsection \<open>Frame laws\<close>

text \<open>The part of a node that the tree operations never touch.\<close>

definition node_data :: "lock_node \<Rightarrow> lock_status \<times> u64 \<times> u64 \<times> u64 set" where
  "node_data n = (n_status n, n_start n, n_end n, n_tids n)"

text \<open>The pointers and heights of a node.\<close>

definition node_links ::
    "lock_node \<Rightarrow> int \<times> int \<times> addr option \<times> addr option \<times> addr option" where
  "node_links n = (n_left_height n, n_right_height n, n_parent n, n_left n, n_right n)"

text \<open>A structural change: only nodes in \<open>S\<close> change, and only in their links.\<close>

definition relinked :: "addr set \<Rightarrow> heap \<Rightarrow> heap \<Rightarrow> bool" where
  "relinked S h h' \<longleftrightarrow>
     (\<forall>x. x \<notin> S \<longrightarrow> h' x = h x) \<and>
     (\<forall>x. map_option node_data (h' x) = map_option node_data (h x))"

lemma relinked_refl: "relinked S h h"
  by (simp add: relinked_def)

lemma relinked_trans: "relinked S h h' \<Longrightarrow> relinked S h' h'' \<Longrightarrow> relinked S h h''"
  by (simp add: relinked_def)

lemma relinked_comp: "relinked S h h' \<Longrightarrow> relinked S' h' h'' \<Longrightarrow> relinked (S \<union> S') h h''"
  by (simp add: relinked_def)

lemma relinked_mono: "relinked S h h' \<Longrightarrow> S \<subseteq> S' \<Longrightarrow> relinked S' h h'"
  by (auto simp: relinked_def)

lemma relinked_upd:
  assumes "relinked S h h'" "a \<in> S" "h' a = Some n" "node_data n' = node_data n"
  shows "relinked S h (h'(a \<mapsto> n'))"
  using assms unfolding relinked_def by (metis fun_upd_apply option.map(2))

lemma relinked_other: "relinked S h h' \<Longrightarrow> x \<notin> S \<Longrightarrow> h' x = h x"
  by (simp add: relinked_def)

lemma relinked_data: "relinked S h h' \<Longrightarrow> map_option node_data (h' x) = map_option node_data (h x)"
  by (simp add: relinked_def)

lemma tree_at_root: "tree_at h par p t \<Longrightarrow> p = root_of t"
  by (cases t) auto

lemma root_of_in: "root_of t = Some a \<Longrightarrow> a \<in> set_tree t"
  by (cases t) auto

lemma tree_at_cong:
  assumes "\<And>x. x \<in> set_tree t \<Longrightarrow> h' x = h x"
  shows "tree_at h' par p t = tree_at h par p t"
  using assms
proof (induction t arbitrary: par p)
  case (Node l a r)
  then have "h' a = h a" by simp
  with Node show ?case by (auto split: option.split)
qed simp

lemma ctx_at_cong:
  assumes "\<And>x. x \<in> set (ctx_addrs cs) \<Longrightarrow> h' x = h x"
  shows "ctx_at h' p cs = ctx_at h p cs"
  using assms
proof (induction cs arbitrary: p rule: ctx_addrs.induct)
  case (2 a r cs)
  have "tree_at h' par q r = tree_at h par q r" for par q
    using 2 by (intro tree_at_cong) auto
  with 2 show ?case by (auto split: option.split)
next
  case (3 l a cs)
  have "tree_at h' par q l = tree_at h par q l" for par q
    using 3 by (intro tree_at_cong) auto
  with 3 show ?case by (auto split: option.split)
qed simp

lemma tree_at_upd [heap_simps]:
  "a \<notin> set_tree t \<Longrightarrow> tree_at (h(a := v)) par p t = tree_at h par p t"
  by (rule tree_at_cong) auto

lemma ctx_at_upd [heap_simps]:
  "a \<notin> set (ctx_addrs cs) \<Longrightarrow> ctx_at (h(a := v)) p cs = ctx_at h p cs"
  by (rule ctx_at_cong) auto

text \<open>Updating the data of a node does not disturb the structure.\<close>

lemma tree_at_data_upd:
  assumes "h a = Some n" "node_links n' = node_links n"
  shows "tree_at (h(a \<mapsto> n')) par p t = tree_at h par p t"
proof (induction t arbitrary: par p)
  case (Node l b r)
  with assms show ?case
    by (cases "b = a") (auto simp: node_links_def split: option.split)
qed simp

lemma tree_at_reparent:
  assumes "tree_at h par p t" "distinct (inorder t)" "root_of t = Some x" "h x = Some n"
  shows "tree_at (h(x \<mapsto> n\<lparr>n_parent := par'\<rparr>)) par' p t"
  using assms by (cases t) (auto simp: heap_simps)

lemma top_in_ctx: "top cs = Some p \<Longrightarrow> p \<in> set (ctx_addrs cs)"
  by (cases cs rule: ctx_addrs.cases) auto

lemma ctx_at_top: "ctx_at h q cs \<Longrightarrow> top cs = Some p \<Longrightarrow> \<exists>n. h p = Some n"
  by (cases cs rule: ctx_addrs.cases) (auto split: option.splits)

lemma inorder_plug:
  "\<exists>xs ys. \<forall>t. inorder (plug t cs) = xs @ inorder t @ ys"
proof (induction cs)
  case (Cons f cs)
  then obtain xs ys where "\<forall>t. inorder (plug t cs) = xs @ inorder t @ ys" by blast
  then have "\<forall>t. inorder (plug t (LeftOf a r # cs)) = xs @ inorder t @ (a # inorder r @ ys)"
    and "\<forall>t. inorder (plug t (RightOf l a # cs)) = (xs @ inorder l @ [a]) @ inorder t @ ys"
    for a r l by simp_all
  then show ?case by (cases f) blast+
qed (rule exI [of _ "[]"], rule exI [of _ "[]"], simp)

lemma set_plug: "set_tree (plug t cs) = set_tree t \<union> set (ctx_addrs cs)"
  by (induction t cs rule: plug.induct) auto

lemma distinct_plug:
  "distinct (inorder (plug t cs)) \<longleftrightarrow> distinct (inorder t @ ctx_addrs cs)"
  by (induction t cs rule: plug.induct) (auto simp: set_inorder)

end
