(* ===== verification/Lock_Balance.thy ===== *)
theory Lock_Balance
  imports Lock_Tree
begin

text \<open>
  The rotations and the rebalancing of \<open>Lock_Node\<close> implement pure operations on trees of
  addresses: \<open>swap\<close> is a rotation, one level of \<open>balance\<close> is \<open>rot\<close>, the recursion of
  \<open>balance\<close> up the parent pointers is \<open>climb\<close>, and \<open>insert\<close> is \<open>ins\<close>.
\<close>

section \<open>Heights and single rotations\<close>

lemma child_height_tree_at:
  "tree_at h par p t \<Longrightarrow> child_height h p = Some (int (height t))"
  by (cases t) (auto simp: child_height_def max_def split: option.splits)

lemma updateHeight_tree_at:
  assumes "h a = Some n" "tree_at h (Some a) (n_left n) l" "tree_at h (Some a) (n_right n) r"
    and "a \<notin> set_tree l" "a \<notin> set_tree r"
  shows "updateHeight h a =
    Some (h(a \<mapsto> n\<lparr>n_left_height := int (height l), n_right_height := int (height r)\<rparr>))"
proof -
  let ?h = "h(a \<mapsto> n\<lparr>n_left_height := int (height l)\<rparr>)"
  have "tree_at ?h (Some a) (n_right n) r"
    using assms by (simp add: heap_simps)
  then show ?thesis
    using assms by (simp add: updateHeight_def child_height_tree_at [OF assms(2)]
      child_height_tree_at [of ?h] upd_Some)
qed

lemma relinked_single:
  "h p = Some n \<Longrightarrow> node_data n' = node_data n \<Longrightarrow> relinked {p} h (h(p \<mapsto> n'))"
  by (simp add: relinked_def)

lemma replace_child_ctx:
  assumes "ctx_at h (Some a) cs" "top cs = Some p" "distinct (a # ctx_addrs cs)"
  shows "\<exists>h'. replace_child h p a q = Some h' \<and> relinked {p} h h' \<and> ctx_at h' q cs"
proof (cases cs rule: ctx_addrs.cases)
  case 1
  with assms show ?thesis by simp
next
  case (2 b r cs')
  with assms obtain n where "h p = Some n" "n_left n = Some a" "b = p"
    by (auto split: option.splits)
  with assms 2 show ?thesis
    by (auto simp: replace_child_def upd_Some heap_simps node_data_def intro!: relinked_single)
next
  case (3 l b cs')
  with assms obtain n where n: "h p = Some n" "n_right n = Some a" "b = p"
    and "tree_at h (Some p) (n_left n) l" "a \<notin> set_tree l"
    by (auto split: option.splits)
  then have "n_left n \<noteq> Some a"
    using tree_at_root root_of_in by metis
  with assms 3 n show ?thesis
    by (auto simp: replace_child_def upd_Some heap_simps node_data_def intro!: relinked_single)
qed

lemma relinked_tree:
  "relinked S h h' \<Longrightarrow> S \<inter> set_tree t = {} \<Longrightarrow> tree_at h' par p t = tree_at h par p t"
  by (rule tree_at_cong) (auto dest: relinked_other)

lemma relinked_ctx:
  "relinked S h h' \<Longrightarrow> S \<inter> set (ctx_addrs cs) = {} \<Longrightarrow> ctx_at h' p cs = ctx_at h p cs"
  by (rule ctx_at_cong) (auto dest: relinked_other)

lemma relink_parent:
  assumes "ctx_at h (Some a) cs" "distinct (a # ctx_addrs cs)"
  shows "\<exists>h'. (case top cs of None \<Rightarrow> Some h | Some p \<Rightarrow> replace_child h p a q) = Some h'
    \<and> ctx_at h' q cs \<and> relinked (set (ctx_addrs cs)) h h'"
proof (cases "top cs")
  case None
  then show ?thesis by (cases cs rule: ctx_addrs.cases) (auto intro: relinked_refl)
next
  case (Some p)
  with replace_child_ctx [OF assms(1) this assms(2), of q] top_in_ctx [OF Some]
  show ?thesis by (auto elim: relinked_mono)
qed

lemma relink_subtree:
  assumes "tree_at h par p t" "distinct (inorder t)"
  shows "\<exists>h'. (case p of None \<Rightarrow> Some h | Some x \<Rightarrow> upd h x (n_parent_update (\<lambda>_. q))) = Some h'
    \<and> tree_at h' q p t \<and> relinked (set_tree t) h h'"
proof (cases t)
  case Leaf
  with assms show ?thesis by (simp add: relinked_refl)
next
  case (Node l x r)
  with assms obtain n where n: "p = Some x" "h x = Some n" by (auto split: option.splits)
  have "relinked (set_tree t) h (h(x \<mapsto> n\<lparr>n_parent := q\<rparr>))"
    using Node n by (auto simp: node_data_def intro!: relinked_mono [OF relinked_single])
  with tree_at_reparent [OF assms(1,2) _ n(2), of q] Node n show ?thesis
    by (simp add: upd_Some)
qed

text \<open>The two directions of a rotation are mirror images: \<open>d\<close> is the side of the child.\<close>

definition kid :: "bool \<Rightarrow> lock_node \<Rightarrow> addr option" where
  "kid d n = (if d then n_left n else n_right n)"

definition set_kid :: "bool \<Rightarrow> addr option \<Rightarrow> lock_node \<Rightarrow> lock_node" where
  "set_kid d c n = (if d then n\<lparr>n_left := c\<rparr> else n\<lparr>n_right := c\<rparr>)"

definition branch :: "bool \<Rightarrow> addr tree \<Rightarrow> addr \<Rightarrow> addr tree \<Rightarrow> addr tree" where
  "branch d x a y = (if d then Node x a y else Node y a x)"

lemma kid_simps [simp]:
  "kid d (set_kid d c n) = c" "kid (\<not> d) (set_kid d c n) = kid (\<not> d) n"
  "kid d (set_kid (\<not> d) c n) = kid d n" "kid (\<not> d) (set_kid (\<not> d) c n) = c"
  "kid d (n\<lparr>n_parent := q\<rparr>) = kid d n" "n_parent (set_kid d c n) = n_parent n"
  "kid d (n\<lparr>n_left_height := i, n_right_height := j\<rparr>) = kid d n"
  "node_data (set_kid d c n) = node_data n" "node_data (n\<lparr>n_parent := q\<rparr>) = node_data n"
  "node_data (n\<lparr>n_left_height := i, n_right_height := j\<rparr>) = node_data n"
  by (auto simp: kid_def set_kid_def node_data_def)

lemma set_tree_branch [simp]: "set_tree (branch d x a y) = insert a (set_tree x \<union> set_tree y)"
  by (auto simp: branch_def)

lemma root_of_branch [simp]: "root_of (branch d x a y) = Some a"
  by (simp add: branch_def)

lemma node_swap_kid:
  "h this = Some n \<Longrightarrow> kid d n = Some child \<Longrightarrow>
   node_swap h this d = do {
     h \<leftarrow> upd h child (n_parent_update (\<lambda>_. n_parent n));
     h \<leftarrow> (case n_parent n of None \<Rightarrow> Some h | Some p \<Rightarrow> replace_child h p this (Some child));
     h \<leftarrow> upd h this (n_parent_update (\<lambda>_. Some child));
     cn \<leftarrow> h child;
     h \<leftarrow> upd h this (set_kid d (kid (\<not> d) cn));
     h \<leftarrow> (case kid (\<not> d) cn of None \<Rightarrow> Some h
        | Some x \<Rightarrow> upd h x (n_parent_update (\<lambda>_. Some this)));
     h \<leftarrow> upd h child (set_kid (\<not> d) (Some this));
     h \<leftarrow> updateHeight h this;
     updateHeight h child
   }"
  by (cases d) (simp_all add: node_swap_def kid_def set_kid_def [abs_def])

text \<open>Children in place make the node a tree once \<open>updateHeight\<close> has run on it.\<close>

lemma updateHeight_branch:
  assumes "h a = Some n" "tree_at h (Some a) (kid d n) x" "tree_at h (Some a) (kid (\<not> d) n) y"
    and "a \<notin> set_tree x" "a \<notin> set_tree y"
  shows "\<exists>h'. updateHeight h a = Some h' \<and> relinked {a} h h'
    \<and> tree_at h' (n_parent n) (Some a) (branch d x a y)"
  using assms updateHeight_tree_at [of h a n "if d then x else y" "if d then y else x"]
  by (auto simp: branch_def kid_def heap_simps node_data_def intro!: relinked_single split: if_splits)

lemma node_swap_tree_at:
  assumes a: "h a = Some n" and b: "kid d n = Some b" "h b = Some m"
    and A: "tree_at h (Some b) (kid d m) A" and B: "tree_at h (Some b) (kid (\<not> d) m) B"
    and C: "tree_at h (Some a) (kid (\<not> d) n) C"
    and cs: "ctx_at h (Some a) cs" "n_parent n = top cs"
    and dist: "distinct (a # b # inorder A @ inorder B @ inorder C @ ctx_addrs cs)"
  shows "\<exists>h'. node_swap h a d = Some h'
    \<and> tree_at h' (top cs) (Some b) (branch d A b (branch d B a C)) \<and> ctx_at h' (Some b) cs
    \<and> relinked ({a, b} \<union> set_tree B \<union> set (ctx_addrs cs)) h h'"
proof -
  have disj: "{b} \<inter> set_tree A = {}" "{b} \<inter> set_tree B = {}" "{b} \<inter> set_tree C = {}"
    "{a} \<inter> set_tree A = {}" "{a} \<inter> set_tree B = {}" "{a} \<inter> set_tree C = {}"
    "set_tree B \<inter> set_tree A = {}" "set_tree B \<inter> set_tree C = {}"
    "set (ctx_addrs cs) \<inter> set_tree A = {}" "set (ctx_addrs cs) \<inter> set_tree B = {}"
    "set (ctx_addrs cs) \<inter> set_tree C = {}" "{a} \<inter> set (ctx_addrs cs) = {}"
    "{b} \<inter> set (ctx_addrs cs) = {}" "set_tree B \<inter> set (ctx_addrs cs) = {}"
    using dist by auto
  define h1 where "h1 = h(b \<mapsto> m\<lparr>n_parent := n_parent n\<rparr>)"
  have h1: "relinked {b} h h1" "ctx_at h1 (Some a) cs"
    using b cs dist by (auto simp: h1_def heap_simps intro!: relinked_single)
  obtain h2 where h2: "(case top cs of None \<Rightarrow> Some h1 | Some p \<Rightarrow> replace_child h1 p a (Some b)) = Some h2"
    "ctx_at h2 (Some b) cs" "relinked (set (ctx_addrs cs)) h1 h2"
    using relink_parent [OF h1(2), of "Some b"] dist by auto
  have n2: "h2 a = Some n" "h2 b = Some (m\<lparr>n_parent := n_parent n\<rparr>)"
    using relinked_other [OF h2(3)] a b dist by (auto simp: h1_def)
  define h3 where "h3 = h2(a \<mapsto> set_kid d (kid (\<not> d) m) (n\<lparr>n_parent := Some b\<rparr>))"
  have h3: "relinked {a} h2 h3"
    using n2 by (auto simp: h3_def intro!: relinked_single)
  have "tree_at h3 (Some b) (kid (\<not> d) m) B"
    using B disj by (simp add: relinked_tree [OF h3] relinked_tree [OF h2(3)] relinked_tree [OF h1(1)])
  from relink_subtree [OF this, of "Some a"] dist obtain h4 where
    h4: "(case kid (\<not> d) m of None \<Rightarrow> Some h3
      | Some x \<Rightarrow> upd h3 x (n_parent_update (\<lambda>_. Some a))) = Some h4"
    "tree_at h4 (Some a) (kid (\<not> d) m) B" "relinked (set_tree B) h3 h4"
    by auto
  have n4: "h4 a = Some (set_kid d (kid (\<not> d) m) (n\<lparr>n_parent := Some b\<rparr>))"
    "h4 b = Some (m\<lparr>n_parent := n_parent n\<rparr>)"
    using relinked_other [OF h4(3)] n2 dist by (auto simp: h3_def)
  define h5 where "h5 = h4(b \<mapsto> set_kid (\<not> d) (Some a) (m\<lparr>n_parent := n_parent n\<rparr>))"
  have h5: "relinked {b} h4 h5"
    using n4 by (auto simp: h5_def intro!: relinked_single)
  note steps = relinked_tree [OF h5] relinked_tree [OF h4(3)] relinked_tree [OF h3]
    relinked_tree [OF h2(3)] relinked_tree [OF h1(1)]
  have n5: "h5 a = Some (set_kid d (kid (\<not> d) m) (n\<lparr>n_parent := Some b\<rparr>))"
    "h5 b = Some (set_kid (\<not> d) (Some a) (m\<lparr>n_parent := n_parent n\<rparr>))"
    using n4 dist by (auto simp: h5_def)
  have t5: "tree_at h5 (Some b) (kid d m) A" "tree_at h5 (Some a) (kid (\<not> d) m) B"
    "tree_at h5 (Some a) (kid (\<not> d) n) C"
    using A h4(2) C by (simp_all add: steps disj)
  obtain h6 where h6: "updateHeight h5 a = Some h6" "relinked {a} h5 h6"
    "tree_at h6 (Some b) (Some a) (branch d B a C)"
    using updateHeight_branch [of h5 a _ d B C] n5(1) t5 dist by auto
  have n6: "h6 b = h5 b" "tree_at h6 (Some b) (kid d m) A"
    using relinked_other [OF h6(2)] t5(1) dist by (auto simp: relinked_tree [OF h6(2)] disj)
  obtain h7 where h7: "updateHeight h6 b = Some h7" "relinked {b} h6 h7"
    "tree_at h7 (n_parent n) (Some b) (branch d A b (branch d B a C))"
    using updateHeight_branch [of h6 b _ d A "branch d B a C"] h6(3) n6 n5(2) dist by auto
  have "ctx_at h7 (Some b) cs"
    using h2(2) disj by (simp add: relinked_ctx [OF h7(2)] relinked_ctx [OF h6(2)] relinked_ctx [OF h5]
      relinked_ctx [OF h4(3)] relinked_ctx [OF h3])
  moreover have "node_swap h a d = Some h7"
  proof -
    have "upd h b (n_parent_update (\<lambda>_. top cs)) = Some h1"
      and "upd h2 a (n_parent_update (\<lambda>_. Some b)) = Some (h2(a \<mapsto> n\<lparr>n_parent := Some b\<rparr>))"
      and "upd (h2(a \<mapsto> n\<lparr>n_parent := Some b\<rparr>)) a (set_kid d (kid (\<not> d) m)) = Some h3"
      and "upd h4 b (set_kid (\<not> d) (Some a)) = Some h5"
      using a b cs(2) n2 n4 by (auto simp: upd_Some h1_def h3_def h5_def)
    then show ?thesis
      using a b n2 dist by (simp add: node_swap_kid cs(2) h2(1) h4(1) h6(1) h7(1))
  qed
  moreover have "relinked ({a, b} \<union> set_tree B \<union> set (ctx_addrs cs)) h h7"
    by (rule relinked_mono [OF relinked_comp [OF relinked_comp [OF relinked_comp [OF relinked_comp
      [OF relinked_comp [OF relinked_comp [OF h1(1) h2(3)] h3] h4(3)] h5] h6(2)] h7(2)]]) auto
  ultimately show ?thesis using h7(3) cs(2) by auto
qed

section \<open>One level of balancing\<close>

fun avl :: "'a tree \<Rightarrow> bool" where
  "avl Leaf \<longleftrightarrow> True"
| "avl (Node l a r) \<longleftrightarrow> avl l \<and> avl r \<and> \<bar>int (height r) - int (height l)\<bar> \<le> 1"

fun bal :: "'a tree \<Rightarrow> int" where
  "bal Leaf = 0"
| "bal (Node l a r) = int (height r) - int (height l)"

lemma avl_bal: "avl t \<Longrightarrow> \<bar>bal t\<bar> \<le> 1"
  by (cases t) auto

text \<open>The rotations at a node that leans to the left, and their mirror images.\<close>

fun lean_left :: "'a tree \<Rightarrow> 'a \<Rightarrow> 'a tree \<Rightarrow> 'a tree" where
  "lean_left (Node A b (Node X c Y)) a r =
     (if bal (Node A b (Node X c Y)) = 1 then Node (Node A b X) c (Node Y a r)
      else Node A b (Node (Node X c Y) a r))"
| "lean_left (Node A b Leaf) a r = Node A b (Node Leaf a r)"
| "lean_left Leaf a r = Node Leaf a r"

fun lean_right :: "'a tree \<Rightarrow> 'a \<Rightarrow> 'a tree \<Rightarrow> 'a tree" where
  "lean_right l a (Node (Node X b Y) c C) =
     (if bal (Node (Node X b Y) c C) = - 1 then Node (Node l a X) b (Node Y c C)
      else Node (Node l a (Node X b Y)) c C)"
| "lean_right l a (Node Leaf c C) = Node (Node l a Leaf) c C"
| "lean_right l a Leaf = Node l a Leaf"

definition rot :: "'a tree \<Rightarrow> 'a \<Rightarrow> 'a tree \<Rightarrow> 'a tree" where
  "rot l a r =
    (if int (height r) - int (height l) < - 1 then lean_left l a r
     else if int (height r) - int (height l) > 1 then lean_right l a r
     else Node l a r)"

lemma bal_mirror: "bal (mirror t) = - bal t"
  by (cases t) auto

lemma avl_mirror [simp]: "avl (mirror t) = avl t"
  by (induction t) auto

lemma lean_right_mirror: "lean_right l a r = mirror (lean_left (mirror r) a (mirror l))"
  by (cases "(l, a, r)" rule: lean_right.cases) auto

lemma inorder_lean_left [simp]: "inorder (lean_left l a r) = inorder l @ a # inorder r"
  by (cases "(l, a, r)" rule: lean_left.cases) auto

lemma inorder_lean_right [simp]: "inorder (lean_right l a r) = inorder l @ a # inorder r"
  by (cases "(l, a, r)" rule: lean_right.cases) auto

lemma inorder_rot [simp]: "inorder (rot l a r) = inorder l @ a # inorder r"
  by (simp add: rot_def)

lemma rot_not_Leaf [simp]: "rot l a r \<noteq> Leaf"
  using inorder_rot [of l a r] by (metis append_is_Nil_conv inorder.simps(1) list.distinct(1))

lemma set_tree_rot [simp]: "set_tree (rot l a r) = insert a (set_tree l \<union> set_tree r)"
  by (subst set_inorder [symmetric]) (simp del: set_inorder, simp)

text \<open>Children that differ in height by two give a balanced tree again.\<close>

lemma avl_lean_left:
  assumes "avl l" "avl r" "height l = height r + 2"
  shows "avl (lean_left l a r) \<and> height (lean_left l a r) \<in> {height l, height l + 1}"
proof (cases "(l, a, r)" rule: lean_left.cases)
  case (1 A b X c Y)
  show ?thesis
  proof (cases "bal l = 1")
    case True
    with 1 assms have "height A = height r" "max (height X) (height Y) = height r"
      "height X \<le> height r" "height r \<le> height X + 1" "height Y \<le> height r" "height r \<le> height Y + 1"
      by auto
    with 1 True assms show ?thesis
      by (simp add: max_absorb1 max_absorb2 max.commute)
  next
    case False
    define B where "B = Node X c Y"
    from False 1 assms have "height A = height r + 1" "height B \<in> {height r, height r + 1}"
      "avl A" "avl B" unfolding B_def by auto
    moreover from False 1 have "lean_left l a r = Node A b (Node B a r)" by (simp add: B_def)
    ultimately show ?thesis using assms by auto
  qed
qed (use assms in auto)

lemma avl_lean_right:
  assumes "avl l" "avl r" "height r = height l + 2"
  shows "avl (lean_right l a r) \<and> height (lean_right l a r) \<in> {height r, height r + 1}"
  using avl_lean_left [of "mirror r" "mirror l" a] assms by (simp add: lean_right_mirror)

subsection \<open>The two kinds of rotation in the heap\<close>

definition side_frame :: "bool \<Rightarrow> addr \<Rightarrow> addr tree \<Rightarrow> frame" where
  "side_frame d a C = (if d then LeftOf a C else RightOf C a)"

lemma tree_at_branch:
  "tree_at h par p (branch d x a y) \<longleftrightarrow> p = Some a \<and> (\<exists>n. h a = Some n \<and> n_parent n = par
     \<and> (n_left_height n, n_right_height n)
       = (if d then (int (height x), int (height y)) else (int (height y), int (height x)))
     \<and> tree_at h (Some a) (kid d n) x \<and> tree_at h (Some a) (kid (\<not> d) n) y)"
  by (auto simp: branch_def kid_def split: option.splits)

lemma ctx_at_side_frame:
  "ctx_at h p (side_frame d a C # cs) \<longleftrightarrow> (\<exists>n. h a = Some n \<and> kid d n = p \<and> n_parent n = top cs
     \<and> tree_at h (Some a) (kid (\<not> d) n) C \<and> ctx_at h (Some a) cs)"
  by (auto simp: side_frame_def kid_def split: option.splits)

lemma side_frame_simps [simp]:
  "set (ctx_addrs (side_frame d a C # cs)) = insert a (set_tree C \<union> set (ctx_addrs cs))"
  "top (side_frame d a C # cs) = Some a"
  "distinct (ctx_addrs (side_frame d a C # cs)) \<longleftrightarrow> distinct (a # inorder C @ ctx_addrs cs)"
  by (auto simp: side_frame_def)

text \<open>A node in a context with its two subtrees; its own heights may be out of date.\<close>

definition node_at :: "heap \<Rightarrow> bool \<Rightarrow> addr tree \<Rightarrow> addr \<Rightarrow> addr tree \<Rightarrow> frame list \<Rightarrow> bool" where
  "node_at h d x a y cs \<longleftrightarrow> (case h a of None \<Rightarrow> False | Some n \<Rightarrow>
     n_parent n = top cs \<and> tree_at h (Some a) (kid d n) x \<and> tree_at h (Some a) (kid (\<not> d) n) y)
   \<and> ctx_at h (Some a) cs \<and> distinct (a # inorder x @ inorder y @ ctx_addrs cs)"

lemma node_at_flip: "node_at h (\<not> d) x a y cs \<longleftrightarrow> node_at h d y a x cs"
  by (auto simp: node_at_def split: option.splits)

text \<open>A tree has taken the place of the node.\<close>

definition tree_in :: "heap \<Rightarrow> addr tree \<Rightarrow> frame list \<Rightarrow> bool" where
  "tree_in h t cs \<longleftrightarrow> tree_at h (top cs) (root_of t) t \<and> ctx_at h (root_of t) cs
     \<and> distinct (inorder t @ ctx_addrs cs)"

lemma tree_in_side_frame: "tree_in h t (side_frame d a C # cs) \<longleftrightarrow> node_at h d t a C cs"
proof -
  have "kid d n = root_of t" if "tree_at h par (kid d n) t" for n par
    using that by (rule tree_at_root)
  then show ?thesis
    by (auto simp: tree_in_def node_at_def ctx_at_side_frame split: option.splits)
qed

lemma branch_flip: "branch (\<not> d) x a y = branch d y a x"
  by (auto simp: branch_def)

lemma inorder_branch:
  "inorder (branch d x a y) = (if d then inorder x @ a # inorder y else inorder y @ a # inorder x)"
  by (simp add: branch_def)

lemma single_rotation:
  assumes "node_at h d (branch d A b B) a C cs"
  shows "\<exists>h'. node_swap h a d = Some h' \<and> tree_in h' (branch d A b (branch d B a C)) cs
    \<and> relinked ({a, b} \<union> set_tree B \<union> set (ctx_addrs cs)) h h'"
proof -
  from assms obtain n m where n: "h a = Some n" "kid d n = Some b" "h b = Some m"
    "tree_at h (Some b) (kid d m) A" "tree_at h (Some b) (kid (\<not> d) m) B"
    "tree_at h (Some a) (kid (\<not> d) n) C" "ctx_at h (Some a) cs" "n_parent n = top cs"
    by (auto simp: node_at_def tree_at_branch split: option.splits)
  have dist: "distinct (a # b # inorder A @ inorder B @ inorder C @ ctx_addrs cs)"
    using assms by (auto simp: node_at_def inorder_branch split: if_splits)
  then have "distinct (inorder (branch d A b (branch d B a C)) @ ctx_addrs cs)"
    by (auto simp: inorder_branch)
  with node_swap_tree_at [OF n dist] show ?thesis
    by (auto simp: tree_in_def)
qed

lemma double_rotation:
  assumes "node_at h d (branch d A b (branch d X c Y)) a C cs"
  shows "\<exists>h1 h'. node_swap h b (\<not> d) = Some h1 \<and> node_swap h1 a d = Some h'
    \<and> tree_in h' (branch d (branch d A b X) c (branch d Y a C)) cs
    \<and> relinked (insert a (insert b (insert c (set_tree X \<union> set_tree Y \<union> set_tree C \<union> set (ctx_addrs cs))))) h h'"
proof -
  from assms have "tree_in h (branch d A b (branch d X c Y)) (side_frame d a C # cs)"
    by (simp add: tree_in_side_frame)
  then have "node_at h (\<not> d) (branch (\<not> d) Y c X) b A (side_frame d a C # cs)"
    by (auto simp: tree_in_def node_at_def tree_at_branch branch_flip inorder_branch)
  from single_rotation [OF this] obtain h1 where h1: "node_swap h b (\<not> d) = Some h1"
    "node_at h1 d (branch d (branch d A b X) c Y) a C cs"
    "relinked ({b, c} \<union> set_tree X \<union> set (ctx_addrs (side_frame d a C # cs))) h h1"
    by (auto simp: tree_in_side_frame branch_flip)
  from single_rotation [OF h1(2)] obtain h' where h': "node_swap h1 a d = Some h'"
    "tree_in h' (branch d (branch d A b X) c (branch d Y a C)) cs"
    "relinked ({a, c} \<union> set_tree Y \<union> set (ctx_addrs cs)) h1 h'"
    by auto
  have "relinked (insert a (insert b (insert c (set_tree X \<union> set_tree Y \<union> set_tree C
      \<union> set (ctx_addrs cs))))) h h'"
    by (rule relinked_mono [OF relinked_comp [OF h1(3) h'(3)]]) auto
  with h1(1) h'(1,2) show ?thesis by blast
qed

section \<open>\<open>balance\<close> on one node\<close>

text \<open>After \<open>updateHeight\<close> the node is a tree, whatever heights it held before.\<close>

lemma updateHeight_node_at:
  assumes "node_at h d x a y cs"
  shows "\<exists>h'. updateHeight h a = Some h' \<and> tree_in h' (branch d x a y) cs
    \<and> relinked {a} h h' \<and> node_at h' d x a y cs"
proof -
  from assms obtain n where n: "h a = Some n" "n_parent n = top cs"
    "tree_at h (Some a) (kid d n) x" "tree_at h (Some a) (kid (\<not> d) n) y" "ctx_at h (Some a) cs"
    and dist: "distinct (a # inorder x @ inorder y @ ctx_addrs cs)"
    by (auto simp: node_at_def split: option.splits)
  then obtain h' where h': "updateHeight h a = Some h'" "relinked {a} h h'"
    "tree_at h' (n_parent n) (Some a) (branch d x a y)"
    using updateHeight_branch [of h a n d x y] by auto
  moreover have "ctx_at h' (Some a) cs"
    using n(5) dist by (simp add: relinked_ctx [OF h'(2)])
  ultimately show ?thesis
    using n(2) dist by (auto simp: tree_in_def node_at_def tree_at_branch inorder_branch)
qed

text \<open>One level of \<open>balance\<close> on a node whose children are balanced performs \<open>rot\<close>.\<close>

lemma tree_in_cells:
  assumes "tree_in h (Node l a r) cs"
  obtains n where "h a = Some n" "n_left n = root_of l" "n_right n = root_of r" "n_parent n = top cs"
    "n_left_height n = int (height l)" "n_right_height n = int (height r)"
    "tree_at h (Some a) (root_of l) l" "tree_at h (Some a) (root_of r) r"
proof -
  from assms obtain n where n: "h a = Some n" "n_parent n = top cs"
    "n_left_height n = int (height l)" "n_right_height n = int (height r)"
    "tree_at h (Some a) (n_left n) l" "tree_at h (Some a) (n_right n) r"
    by (auto simp: tree_in_def split: option.splits)
  from n tree_at_root [OF n(5)] tree_at_root [OF n(6)] show thesis
    by (auto intro!: that)
qed

lemma tree_at_cells:
  assumes "tree_at h par (Some b) (Node A b B)"
  obtains n where "h b = Some n" "n_right_height n - n_left_height n = bal (Node A b B)"
  using assms by (auto split: option.splits)

lemma balance_node_left:
  assumes "tree_in h (Node l a r) cs" "node_at h True l a r cs" "\<bar>bal l\<bar> \<le> 1"
    and "int (height r) - int (height l) < - 1"
  shows "\<exists>b ln. root_of l = Some b \<and> h b = Some ln \<and> n_right_height ln - n_left_height ln = bal l
    \<and> (\<exists>h1 h'. (if bal l = 1 then node_swap h b False else Some h) = Some h1
         \<and> node_swap h1 a True = Some h' \<and> tree_in h' (lean_left l a r) cs
         \<and> relinked (insert a (set_tree l \<union> set_tree r \<union> set (ctx_addrs cs))) h h')"
proof -
  from assms(4) obtain A b B where l: "l = Node A b B" by (cases l) auto
  from assms(1) obtain ln where ln: "h b = Some ln" "n_right_height ln - n_left_height ln = bal l"
    unfolding l by (elim tree_in_cells) (metis root_of.simps(2) tree_at_cells)
  have "\<exists>h1 h'. (if bal l = 1 then node_swap h b False else Some h) = Some h1
    \<and> node_swap h1 a True = Some h' \<and> tree_in h' (lean_left l a r) cs
    \<and> relinked (insert a (set_tree l \<union> set_tree r \<union> set (ctx_addrs cs))) h h'"
  proof (cases "bal l = 1")
    case True
    then obtain X c Y where B: "B = Node X c Y" using l by (cases B) auto
    from assms(2) l B have "node_at h True (branch True A b (branch True X c Y)) a r cs"
      by (simp add: branch_def)
    from double_rotation [OF this] l B True show ?thesis
      by (auto simp: branch_def elim!: relinked_mono)
  next
    case False
    from assms(2) l have "node_at h True (branch True A b B) a r cs" by (simp add: branch_def)
    from single_rotation [OF this] l False show ?thesis
      by (cases B) (auto simp: branch_def elim!: relinked_mono)
  qed
  with l ln show ?thesis by auto
qed

lemma balance_node_right:
  assumes "tree_in h (Node l a r) cs" "node_at h True l a r cs" "\<bar>bal r\<bar> \<le> 1"
    and "int (height r) - int (height l) > 1"
  shows "\<exists>b ln. root_of r = Some b \<and> h b = Some ln \<and> n_right_height ln - n_left_height ln = bal r
    \<and> (\<exists>h1 h'. (if bal r = - 1 then node_swap h b True else Some h) = Some h1
         \<and> node_swap h1 a False = Some h' \<and> tree_in h' (lean_right l a r) cs
         \<and> relinked (insert a (set_tree l \<union> set_tree r \<union> set (ctx_addrs cs))) h h')"
proof -
  from assms(4) obtain B c C where r: "r = Node B c C" by (cases r) auto
  from assms(1) obtain rn where rn: "h c = Some rn" "n_right_height rn - n_left_height rn = bal r"
    unfolding r by (elim tree_in_cells) (metis root_of.simps(2) tree_at_cells)
  have flip: "node_at h False r a l cs" using assms(2) node_at_flip [of h True r a l cs] by simp
  have "\<exists>h1 h'. (if bal r = - 1 then node_swap h c True else Some h) = Some h1
    \<and> node_swap h1 a False = Some h' \<and> tree_in h' (lean_right l a r) cs
    \<and> relinked (insert a (set_tree l \<union> set_tree r \<union> set (ctx_addrs cs))) h h'"
  proof (cases "bal r = - 1")
    case True
    then obtain X b Y where B: "B = Node X b Y" using r by (cases B) auto
    from flip r B have "node_at h False (branch False C c (branch False Y b X)) a l cs"
      by (simp add: branch_def)
    from double_rotation [OF this] r B True show ?thesis
      by (auto simp: branch_def elim!: relinked_mono)
  next
    case False
    from flip r have "node_at h False (branch False C c B) a l cs" by (simp add: branch_def)
    from single_rotation [OF this] r False show ?thesis
      by (cases B) (auto simp: branch_def elim!: relinked_mono)
  qed
  with r rn show ?thesis by auto
qed

theorem balance_node_rot:
  assumes "node_at h True l a r cs" "\<bar>bal l\<bar> \<le> 1" "\<bar>bal r\<bar> \<le> 1"
  shows "\<exists>h'. balance_node h a = Some (h', False) \<and> tree_in h' (rot l a r) cs
    \<and> relinked (insert a (set_tree l \<union> set_tree r \<union> set (ctx_addrs cs))) h h'"
proof -
  let ?S = "insert a (set_tree l \<union> set_tree r \<union> set (ctx_addrs cs))"
  from updateHeight_node_at [OF assms(1)] obtain h0 where h0: "updateHeight h a = Some h0"
    "tree_in h0 (Node l a r) cs" "relinked {a} h h0" "node_at h0 True l a r cs"
    by (auto simp: branch_def)
  have S: "relinked ?S h h0" by (rule relinked_mono [OF h0(3)]) simp
  from h0(2) obtain n where n: "h0 a = Some n" "n_left n = root_of l" "n_right n = root_of r"
    "n_left_height n = int (height l)" "n_right_height n = int (height r)"
    by (elim tree_in_cells)
  consider "int (height r) - int (height l) < - 1" | "int (height r) - int (height l) > 1"
    | "\<not> int (height r) - int (height l) < - 1" "\<not> int (height r) - int (height l) > 1" by blast
  then show ?thesis
  proof cases
    case 1
    from balance_node_left [OF h0(2,4) assms(2) 1] obtain b ln h1 h' where
      b: "root_of l = Some b" "h0 b = Some ln" "n_right_height ln - n_left_height ln = bal l"
      "(if bal l = 1 then node_swap h0 b False else Some h0) = Some h1"
      "node_swap h1 a True = Some h'" "tree_in h' (lean_left l a r) cs" "relinked ?S h0 h'"
      by blast
    with h0 n 1 assms(2) relinked_trans [OF S b(7)] show ?thesis
      by (cases "bal l = 1") (simp_all add: balance_node_def rot_def)
  next
    case 2
    from balance_node_right [OF h0(2,4) assms(3) 2] obtain b ln h1 h' where
      b: "root_of r = Some b" "h0 b = Some ln" "n_right_height ln - n_left_height ln = bal r"
      "(if bal r = - 1 then node_swap h0 b True else Some h0) = Some h1"
      "node_swap h1 a False = Some h'" "tree_in h' (lean_right l a r) cs" "relinked ?S h0 h'"
      by blast
    with h0 n 2 assms(3) relinked_trans [OF S b(7)] show ?thesis
      by (cases "bal r = - 1") (simp_all add: balance_node_def rot_def)
  next
    case 3
    with h0 n S show ?thesis by (simp add: balance_node_def rot_def)
  qed
qed

section \<open>\<open>balance\<close> up to the root\<close>

fun climb :: "addr tree \<Rightarrow> frame list \<Rightarrow> addr tree" where
  "climb t [] = t"
| "climb t (LeftOf a r # cs) = climb (rot t a r) cs"
| "climb t (RightOf l a # cs) = climb (rot l a t) cs"

lemma inorder_climb: "inorder (climb t cs) = inorder (plug t cs)"
proof (induction t cs rule: climb.induct)
  case (2 t a r cs)
  obtain xs ys where "\<forall>t. inorder (plug t cs) = xs @ inorder t @ ys"
    using inorder_plug by blast
  with 2 show ?case by simp
next
  case (3 t l a cs)
  obtain xs ys where "\<forall>t. inorder (plug t cs) = xs @ inorder t @ ys"
    using inorder_plug by blast
  with 3 show ?case by simp
qed simp

text \<open>A context whose hole takes a balanced tree of height \<open>k\<close> or \<open>k + 1\<close>.\<close>

fun avl_ctx :: "nat \<Rightarrow> frame list \<Rightarrow> bool" where
  "avl_ctx k [] \<longleftrightarrow> True"
| "avl_ctx k (LeftOf a r # cs) \<longleftrightarrow>
     avl r \<and> \<bar>int k - int (height r)\<bar> \<le> 1 \<and> avl_ctx (max k (height r) + 1) cs"
| "avl_ctx k (RightOf l a # cs) \<longleftrightarrow>
     avl l \<and> \<bar>int k - int (height l)\<bar> \<le> 1 \<and> avl_ctx (max k (height l) + 1) cs"

lemma avl_plug: "avl (plug t cs) \<longleftrightarrow> avl t \<and> avl_ctx (height t) cs"
  by (induction t cs rule: plug.induct) (auto simp: max.commute)

lemma rot_fits_left:
  assumes "avl t" "avl s" "height t \<in> {k, k + 1}" "\<bar>int k - int (height s)\<bar> \<le> 1"
  shows "avl (rot t a s) \<and> height (rot t a s) \<in> {max k (height s) + 1, max k (height s) + 1 + 1}"
proof (cases "height t = height s + 2")
  case True
  with assms have "height t = k + 1" "max k (height s) = k" by auto
  moreover have "rot t a s = lean_left t a s" using True by (simp add: rot_def)
  ultimately show ?thesis using avl_lean_left [OF assms(1,2) True, of a] by auto
next
  case False
  with assms have "\<bar>int (height s) - int (height t)\<bar> \<le> 1" by auto
  then have "rot t a s = Node t a s" by (auto simp: rot_def)
  with assms False show ?thesis by auto
qed

lemma rot_mirror: "rot (mirror s) a (mirror t) = mirror (rot t a s)"
proof -
  have "lean_left (mirror s) a (mirror t) = mirror (lean_right t a s)"
    by (simp add: lean_right_mirror)
  moreover have "lean_right (mirror s) a (mirror t) = mirror (lean_left t a s)"
    by (simp add: lean_right_mirror)
  ultimately show ?thesis by (auto simp: rot_def)
qed

lemma rot_fits_right:
  assumes "avl t" "avl s" "height t \<in> {k, k + 1}" "\<bar>int k - int (height s)\<bar> \<le> 1"
  shows "avl (rot s a t) \<and> height (rot s a t) \<in> {max k (height s) + 1, max k (height s) + 1 + 1}"
  using rot_fits_left [of "mirror t" "mirror s" k a] assms by (simp add: rot_mirror)

lemma avl_climb:
  "avl t \<Longrightarrow> height t \<in> {k, k + 1} \<Longrightarrow> avl_ctx k cs \<Longrightarrow> avl (climb t cs)"
proof (induction t cs arbitrary: k rule: climb.induct)
  case (2 t a r cs)
  then show ?case using rot_fits_left [of t r k a] by auto
next
  case (3 t l a cs)
  then show ?case using rot_fits_right [of t l k a] by auto
qed simp

lemma balance_node_avl:
  assumes "node_at h True l a r cs" "avl l" "avl r"
  shows "\<exists>h'. balance_node h a = Some (h', False) \<and> tree_in h' (rot l a r) cs
    \<and> relinked (set_tree (plug (Node l a r) cs)) h h'"
  using balance_node_rot [OF assms(1) avl_bal [OF assms(2)] avl_bal [OF assms(3)]]
  by (simp add: set_plug Un_assoc)

lemma balance_step:
  assumes "node_at h True l a r cs" "balance_node h a = Some (h', False)"
  shows "balance h a = (case top cs of None \<Rightarrow> Some h' | Some p \<Rightarrow> balance h' p)"
  using assms by (subst balance.simps) (auto simp: node_at_def split: option.splits)

lemma balance_climb:
  assumes "node_at h True l a r cs" "avl l" "avl r"
    and "avl (rot l a r)" "height (rot l a r) \<in> {k, k + 1}" "avl_ctx k cs"
  shows "\<exists>h'. balance h a = Some h' \<and> tree_in h' (climb (rot l a r) cs) []
    \<and> relinked (set_tree (plug (Node l a r) cs)) h h'"
  using assms
proof (induction cs arbitrary: h l a r k rule: ctx_addrs.induct)
  case 1
  with balance_node_avl [OF 1(1,2,3)] balance_step [OF 1(1)] show ?case by auto
next
  case (2 p s cs)
  obtain h1 where h1: "balance_node h a = Some (h1, False)" "tree_in h1 (rot l a r) (LeftOf p s # cs)"
    "relinked (set_tree (plug (Node l a r) (LeftOf p s # cs))) h h1"
    using balance_node_avl [OF 2(2,3,4)] by blast
  have n1: "node_at h1 True (rot l a r) p s cs"
    using h1(2) tree_in_side_frame [of h1 "rot l a r" True] by (simp add: side_frame_def)
  from 2(7) have s: "avl s" "\<bar>int k - int (height s)\<bar> \<le> 1" "avl_ctx (max k (height s) + 1) cs"
    by auto
  note fits = rot_fits_left [OF 2(5) s(1) 2(6) s(2), of p]
  obtain h' where h': "balance h1 p = Some h'" "tree_in h' (climb (rot (rot l a r) p s) cs) []"
    "relinked (set_tree (plug (Node (rot l a r) p s) cs)) h1 h'"
    using 2(1) [OF n1 2(5) s(1) conjunct1 [OF fits] conjunct2 [OF fits] s(3)] by blast
  have "relinked (set_tree (plug (Node l a r) (LeftOf p s # cs))) h h'"
    using relinked_trans [OF h1(3)] h'(3) by (simp add: set_plug)
  with h' balance_step [OF 2(2) h1(1)] show ?case by simp
next
  case (3 s p cs)
  obtain h1 where h1: "balance_node h a = Some (h1, False)" "tree_in h1 (rot l a r) (RightOf s p # cs)"
    "relinked (set_tree (plug (Node l a r) (RightOf s p # cs))) h h1"
    using balance_node_avl [OF 3(2,3,4)] by blast
  have n1: "node_at h1 True s p (rot l a r) cs"
    using h1(2) tree_in_side_frame [of h1 "rot l a r" False] node_at_flip [of h1 True]
    by (simp add: side_frame_def)
  from 3(7) have s: "avl s" "\<bar>int k - int (height s)\<bar> \<le> 1" "avl_ctx (max k (height s) + 1) cs"
    by auto
  note fits = rot_fits_right [OF 3(5) s(1) 3(6) s(2), of p]
  obtain h' where h': "balance h1 p = Some h'" "tree_in h' (climb (rot s p (rot l a r)) cs) []"
    "relinked (set_tree (plug (Node s p (rot l a r)) cs)) h1 h'"
    using 3(1) [OF n1 s(1) 3(5) conjunct1 [OF fits] conjunct2 [OF fits] s(3)] by blast
  have "relinked (set_tree (plug (Node l a r) (RightOf s p # cs))) h h'"
    using relinked_trans [OF h1(3)] h'(3) by (simp add: set_plug)
  with h' balance_step [OF 3(2) h1(1)] show ?case by simp
qed

end
