(* ===== verification/Lock_Insert.thy ===== *)
theory Lock_Insert
  imports Lock_Balance
begin

text \<open>
  \<open>insert\<close> and \<open>find\<close> of the lock node against trees of addresses: \<open>insert\<close>, started at any
  node, performs the ordered AVL insertion of that node's subtree and rebalances the whole
  tree; \<open>getRoot\<close> returns its root.
\<close>

section \<open>Moving the focus\<close>

lemma tree_in_children:
  assumes "tree_in h (Node l b r) cs"
  shows "tree_in h l (LeftOf b r # cs)" "tree_in h r (RightOf l b # cs)"
proof -
  from assms obtain n where n: "h b = Some n" "n_left n = root_of l" "n_right n = root_of r"
    "n_parent n = top cs" "tree_at h (Some b) (root_of l) l" "tree_at h (Some b) (root_of r) r"
    by (elim tree_in_cells)
  with assms show "tree_in h l (LeftOf b r # cs)" "tree_in h r (RightOf l b # cs)"
    by (auto simp: tree_in_def)
qed

lemmas tree_in_left = tree_in_children(1)
lemmas tree_in_right = tree_in_children(2)

lemma tree_in_focus:
  assumes "tree_in h t cs" "a \<in> set_tree t"
  shows "\<exists>l r cs'. plug t cs = plug (Node l a r) cs' \<and> tree_in h (Node l a r) cs'"
  using assms
proof (induction t arbitrary: cs)
  case (Node l b r)
  consider "a = b" | "a \<in> set_tree l" | "a \<in> set_tree r" using Node.prems(2) by auto
  then show ?case
  proof cases
    case 1
    with Node.prems(1) show ?thesis by blast
  next
    case 2
    with Node.IH(1) [OF tree_in_left [OF Node.prems(1)]] show ?thesis by simp
  next
    case 3
    with Node.IH(2) [OF tree_in_right [OF Node.prems(1)]] show ?thesis by simp
  qed
qed simp

lemma getRoot_ctx:
  "h a = Some n \<Longrightarrow> n_parent n = top cs \<Longrightarrow> ctx_at h (Some a) cs \<Longrightarrow>
   getRoot h a = root_of (plug (Node l a r) cs)"
proof (induction cs arbitrary: a n l r rule: ctx_addrs.induct)
  case 1
  then show ?case by (subst getRoot.simps) simp
next
  case (2 b s cs)
  then show ?case by (subst getRoot.simps) (auto split: option.splits)
next
  case (3 s b cs)
  then show ?case by (subst getRoot.simps) (auto split: option.splits)
qed

lemma getRoot_tree_in:
  assumes "tree_in h t []" "a \<in> set_tree t"
  shows "getRoot h a = root_of t"
proof -
  from tree_in_focus [OF assms] obtain l r cs where
    t: "t = plug (Node l a r) cs" "tree_in h (Node l a r) cs" by auto
  then obtain n where "h a = Some n" "n_parent n = top cs" "ctx_at h (Some a) cs"
    by (auto simp: tree_in_def split: option.splits)
  with t(1) show ?thesis by (simp add: getRoot_ctx)
qed

section \<open>The pure insertion\<close>

fun ins :: "(addr \<Rightarrow> 'k::linorder) \<Rightarrow> addr tree \<Rightarrow> addr \<Rightarrow> addr tree" where
  "ins k Leaf x = Node Leaf x Leaf"
| "ins k (Node l a r) x =
     (if k x < k a then rot (ins k l x) a r else rot l a (ins k r x))"

lemma ins_avl:
  "avl t \<Longrightarrow> avl (ins k t x) \<and> height (ins k t x) \<in> {height t, height t + 1}"
proof (induction t)
  case (Node l a r)
  then show ?case
    using rot_fits_left [of "ins k l x" r "height l" a] rot_fits_right [of "ins k r x" l "height r" a]
    by (auto simp: max.commute abs_minus_commute)
qed simp

lemma set_tree_ins [simp]: "set_tree (ins k t x) = insert x (set_tree t)"
  by (induction t) auto

text \<open>The new address goes to its place in the order of keys, after equal ones.\<close>

lemma inorder_ins:
  assumes "sorted (map k (inorder t))"
  shows "inorder (ins k t x) = takeWhile (\<lambda>a. k a \<le> k x) (inorder t) @ x
    # dropWhile (\<lambda>a. k a \<le> k x) (inorder t)"
  using assms
proof (induction t)
  case (Node l a r)
  then have s: "sorted (map k (inorder l))" "sorted (map k (inorder r))"
    "\<forall>y\<in>set_tree l. k y \<le> k a" "\<forall>y\<in>set_tree r. k a \<le> k y"
    by (auto simp: sorted_append)
  show ?case
  proof (cases "k x < k a")
    case True
    with Node.IH(1) [OF s(1)] show ?thesis
      by (cases "\<forall>y\<in>set_tree l. k y \<le> k x")
        (auto simp: takeWhile_append dropWhile_append takeWhile_eq_all_conv)
  next
    case False
    then have "\<forall>y\<in>set_tree l. k y \<le> k x" using s(3) by fastforce
    with False Node.IH(2) [OF s(2)] show ?thesis
      by (auto simp: takeWhile_append dropWhile_append)
  qed
qed simp

section \<open>\<open>insert\<close> in the heap\<close>

text \<open>A node fresh from its constructor has no links.\<close>

definition unlinked :: "lock_node \<Rightarrow> bool" where
  "unlinked n \<longleftrightarrow> n_left n = None \<and> n_right n = None \<and> n_left_height n = 0 \<and> n_right_height n = 0"

definition key_of :: "heap \<Rightarrow> addr \<Rightarrow> u64" where
  "key_of h a = (case h a of None \<Rightarrow> 0 | Some n \<Rightarrow> n_start n)"

lemma attach_leaf:
  assumes "tree_in h (branch d Leaf a y) cs" "h a = Some n"
    and "h x = Some m" "unlinked m" "x \<notin> set_tree (plug (branch d Leaf a y) cs)"
  shows "node_at (h(a \<mapsto> set_kid d (Some x) n, x \<mapsto> m\<lparr>n_parent := Some a\<rparr>)) d (Node Leaf x Leaf) a y cs"
    and "relinked {a, x} h (h(a \<mapsto> set_kid d (Some x) n, x \<mapsto> m\<lparr>n_parent := Some a\<rparr>))"
proof -
  let ?h = "h(a \<mapsto> set_kid d (Some x) n, x \<mapsto> m\<lparr>n_parent := Some a\<rparr>)"
  from assms have d: "x \<noteq> a" "x \<notin> set_tree y" "x \<notin> set (ctx_addrs cs)" "a \<notin> set_tree y"
    "a \<notin> set (ctx_addrs cs)"
    by (auto simp: set_plug tree_in_def inorder_branch split: if_splits)
  from assms(1,2) have "n_parent n = top cs" "tree_at h (Some a) (kid (\<not> d) n) y" "ctx_at h (Some a) cs"
    by (auto simp: tree_in_def tree_at_branch)
  with d assms show "node_at ?h d (Node Leaf x Leaf) a y cs"
    by (auto simp: node_at_def heap_simps unlinked_def tree_in_def inorder_branch split: if_splits)
  show "relinked {a, x} h ?h"
    using assms d by (auto simp: relinked_def)
qed

text \<open>After \<open>insert\<close> has hung the new leaf below a node, \<open>balance\<close> and \<open>getRoot\<close> finish.\<close>

lemma insert_finish:
  assumes "node_at h1 True l a r cs" "avl l" "avl r" "avl (rot l a r)"
    and "height (rot l a r) \<in> {k, k + 1}" "avl_ctx k cs"
    and "relinked S h h1" "set_tree (plug (Node l a r) cs) \<subseteq> S"
  shows "\<exists>h' root. do { h \<leftarrow> balance h1 a; root \<leftarrow> getRoot h a; Some (h, root) } = Some (h', root)
    \<and> tree_in h' (climb (rot l a r) cs) [] \<and> root_of (climb (rot l a r) cs) = Some root
    \<and> relinked S h h'"
proof -
  from balance_climb [OF assms(1-6)] obtain h' where h': "balance h1 a = Some h'"
    "tree_in h' (climb (rot l a r) cs) []" "relinked (set_tree (plug (Node l a r) cs)) h1 h'" by blast
  have "set_tree (climb (rot l a r) cs) = set_tree (plug (rot l a r) cs)"
    by (metis inorder_climb set_inorder)
  then have a: "a \<in> set_tree (climb (rot l a r) cs)" by (simp add: set_plug)
  then obtain root where "root_of (climb (rot l a r) cs) = Some root"
    by (cases "climb (rot l a r) cs") auto
  moreover have "relinked S h h'"
    by (rule relinked_trans [OF assms(7) relinked_mono [OF h'(3) assms(8)]])
  ultimately show ?thesis
    using h'(1,2) getRoot_tree_in [OF h'(2) a] by auto
qed

lemma insert_leaf:
  assumes "tree_in h (branch d Leaf a y) cs" "h a = Some n"
    and "h x = Some m" "unlinked m" "x \<notin> set_tree (plug (branch d Leaf a y) cs)"
    and "avl (plug (branch d Leaf a y) cs)"
    and "branch d (Node Leaf x Leaf) a y = Node l a r" "avl (rot l a r)"
    and "height (rot l a r) \<in> {height (branch d Leaf a y), height (branch d Leaf a y) + 1}"
  shows "\<exists>h' root. do { h \<leftarrow> upd h a (set_kid d (Some x)); h \<leftarrow> upd h x (n_parent_update (\<lambda>_. Some a));
      h \<leftarrow> balance h a; root \<leftarrow> getRoot h a; Some (h, root) } = Some (h', root)
    \<and> tree_in h' (climb (rot l a r) cs) [] \<and> root_of (climb (rot l a r) cs) = Some root
    \<and> relinked (insert x (set_tree (plug (branch d Leaf a y) cs))) h h'"
proof -
  let ?h = "h(a \<mapsto> set_kid d (Some x) n, x \<mapsto> m\<lparr>n_parent := Some a\<rparr>)"
  let ?S = "insert x (set_tree (plug (branch d Leaf a y) cs))"
  have "x \<noteq> a" using assms(5) by (auto simp: set_plug)
  with assms have run: "upd h a (set_kid d (Some x)) = Some (h(a \<mapsto> set_kid d (Some x) n))"
    "upd (h(a \<mapsto> set_kid d (Some x) n)) x (n_parent_update (\<lambda>_. Some a)) = Some ?h"
    by (simp_all add: upd_Some)
  note at = attach_leaf [OF assms(1-5)]
  have na: "node_at ?h True l a r cs"
    using at(1) node_at_flip [of ?h False l a r cs] assms(7) by (cases d) (auto simp: branch_def)
  have "relinked ?S h ?h"
    by (rule relinked_mono [OF at(2)]) (auto simp: set_plug)
  moreover have "avl l" "avl r" "avl_ctx (height (branch d Leaf a y)) cs"
    and "set_tree (plug (Node l a r) cs) \<subseteq> ?S"
    using assms(6,7) by (cases d; auto simp: branch_def avl_plug set_plug)+
  ultimately show ?thesis
    using insert_finish [OF na _ _ assms(8,9)] by (simp add: run)
qed

lemma node_insert_tree:
  assumes "tree_in h t cs" "root_of t = Some a" "avl (plug t cs)"
    and "h x = Some m" "unlinked m" "x \<notin> set_tree (plug t cs)"
  shows "\<exists>h' root. node_insert h a x = Some (h', root)
    \<and> tree_in h' (climb (ins (key_of h) t x) cs) []
    \<and> root_of (climb (ins (key_of h) t x) cs) = Some root
    \<and> relinked (insert x (set_tree (plug t cs))) h h'"
  using assms
proof (induction t arbitrary: cs a)
  case (Node l b r)
  have b: "b = a" using Node.prems(2) by simp
  from Node.prems(1) obtain n where n: "h a = Some n" "n_left n = root_of l" "n_right n = root_of r"
    unfolding b by (elim tree_in_cells)
  have key: "key_of h a = n_start n" "key_of h x = n_start m"
    using n Node.prems(4) by (simp_all add: key_of_def)
  have "avl (Node l a r)" using Node.prems(3) b by (auto simp: avl_plug)
  note fits = ins_avl [OF this, of "key_of h" x]
  note leaf = insert_leaf [OF _ n(1) Node.prems(4,5)]
  consider (l) "key_of h x < key_of h a" "l = Leaf" | (L) "key_of h x < key_of h a" "l \<noteq> Leaf"
    | (r) "\<not> key_of h x < key_of h a" "r = Leaf" | (R) "\<not> key_of h x < key_of h a" "r \<noteq> Leaf"
    by blast
  then show ?case
  proof cases
    case l
    with leaf [of True r cs "Node Leaf x Leaf" r] Node.prems b fits n key show ?thesis
      by (subst node_insert.simps) (simp add: branch_def set_kid_def [abs_def])
  next
    case L
    with Node.IH(1) [OF tree_in_left [OF Node.prems(1)] _ _ Node.prems(4,5)] Node.prems b n key
    show ?thesis
      by (subst node_insert.simps) (auto simp: neq_Leaf_iff)
  next
    case r
    with leaf [of False l cs l "Node Leaf x Leaf"] Node.prems b fits n key show ?thesis
      by (subst node_insert.simps) (simp add: branch_def set_kid_def [abs_def])
  next
    case R
    with Node.IH(2) [OF tree_in_right [OF Node.prems(1)] _ _ Node.prems(4,5)] Node.prems b n key
    show ?thesis
      by (subst node_insert.simps) (auto simp: neq_Leaf_iff)
  qed
qed simp

end
