(* ===== verification/Lock_Intervals.thy ===== *)
theory Lock_Intervals
  imports Lock_Insert
begin

text \<open>
  The in-order sequence of a lock tree as consecutive time intervals, and what the tree
  operations do to it: \<open>find\<close> collects the nodes from which the in-order prefix up to a
  time can be walked backwards, and inserting the upper or the lower part of a node that
  was cut puts it next to that node.
\<close>

section \<open>Whole trees\<close>

definition lock_tree :: "heap \<Rightarrow> addr \<Rightarrow> addr tree \<Rightarrow> bool" where
  "lock_tree h root t \<longleftrightarrow> tree_in h t [] \<and> root_of t = Some root \<and> avl t"

lemma lock_tree_insert:
  assumes "lock_tree h root t" "a \<in> set_tree t" "h x = Some m" "unlinked m" "x \<notin> set_tree t"
  shows "\<exists>h' root' l r cs. node_insert h a x = Some (h', root')
    \<and> t = plug (Node l a r) cs
    \<and> lock_tree h' root' (climb (ins (key_of h) (Node l a r) x) cs)
    \<and> relinked (insert x (set_tree t)) h h'"
proof -
  from assms obtain l r cs where t: "t = plug (Node l a r) cs" "tree_in h (Node l a r) cs"
    using tree_in_focus [of h t "[]" a] by (auto simp: lock_tree_def)
  then have avl: "avl (plug (Node l a r) cs)" "x \<notin> set_tree (plug (Node l a r) cs)"
    using assms by (auto simp: lock_tree_def)
  have ctx: "avl_ctx (height (Node l a r)) cs" "avl (Node l a r)"
    using avl(1) by (auto simp: avl_plug)
  from node_insert_tree [OF t(2) _ avl(1) assms(3,4) avl(2)] ins_avl [OF ctx(2)] avl_climb [OF _ _ ctx(1)]
  show ?thesis
    unfolding lock_tree_def t(1) by (metis root_of.simps(2))
qed

lemma ins_first: "\<forall>y\<in>set_tree t. k x < k y \<Longrightarrow> inorder (ins k t x) = x # inorder t"
  by (induction t) auto

lemma ins_last: "\<forall>y\<in>set_tree t. \<not> k x < k y \<Longrightarrow> inorder (ins k t x) = inorder t @ [x]"
  by (induction t) auto

text \<open>
  \<open>insert\<close> called on the node \<open>a\<close>: the new node lands among the descendants of \<open>a\<close>, so the
  in-order sequence only changes next to \<open>a\<close>.
\<close>

lemma lock_tree_insert_at:
  assumes "lock_tree h root t" "inorder t = us @ a # vs" "h x = Some m" "unlinked m" "x \<notin> set_tree t"
  shows "\<exists>h' root' t' us1 l r vs1. node_insert h a x = Some (h', root') \<and> lock_tree h' root' t'
    \<and> us = us1 @ inorder l \<and> vs = inorder r @ vs1
    \<and> inorder t' = us1 @ inorder (ins (key_of h) (Node l a r) x) @ vs1
    \<and> relinked (insert x (set_tree t)) h h'"
proof -
  have "a \<in> set_tree t" using assms(2) by (metis in_set_conv_decomp set_inorder)
  from lock_tree_insert [OF assms(1) this assms(3-5)] obtain h' root' l r cs where
    i: "node_insert h a x = Some (h', root')" "t = plug (Node l a r) cs"
    "lock_tree h' root' (climb (ins (key_of h) (Node l a r) x) cs)"
    "relinked (insert x (set_tree t)) h h'" by blast
  obtain xs ys where p: "\<forall>t. inorder (plug t cs) = xs @ inorder t @ ys"
    using inorder_plug by blast
  have "distinct (inorder t)" using assms(1) by (simp add: lock_tree_def tree_in_def)
  moreover have "inorder t = (xs @ inorder l) @ a # (inorder r @ ys)" using p i(2) by simp
  ultimately have "us = xs @ inorder l" "vs = inorder r @ ys"
    using distinct_split_unique assms(2) by metis+
  moreover have "inorder (climb (ins (key_of h) (Node l a r) x) cs)
      = xs @ inorder (ins (key_of h) (Node l a r) x) @ ys"
    by (metis inorder_climb p)
  ultimately show ?thesis using i by blast
qed

lemma insert_after:
  assumes "lock_tree h root t" "inorder t = us @ a # vs" "h x = Some m" "unlinked m" "x \<notin> set_tree t"
    and "\<not> key_of h x < key_of h a" "\<forall>y\<in>set vs. key_of h x < key_of h y"
  shows "\<exists>h' root' t'. node_insert h a x = Some (h', root') \<and> lock_tree h' root' t'
    \<and> inorder t' = us @ a # x # vs \<and> relinked (insert x (set_tree t)) h h'"
proof -
  from lock_tree_insert_at [OF assms(1-5)] obtain h' root' t' us1 l r vs1 where
    i: "node_insert h a x = Some (h', root')" "lock_tree h' root' t'"
    "us = us1 @ inorder l" "vs = inorder r @ vs1"
    "inorder t' = us1 @ inorder (ins (key_of h) (Node l a r) x) @ vs1"
    "relinked (insert x (set_tree t)) h h'" by blast
  then have "inorder (ins (key_of h) r x) = x # inorder r"
    using assms(7) by (intro ins_first) auto
  with i assms(6) show ?thesis by (auto simp: inorder_rot)
qed

lemma insert_before:
  assumes "lock_tree h root t" "inorder t = us @ a # vs" "h x = Some m" "unlinked m" "x \<notin> set_tree t"
    and "key_of h x < key_of h a" "\<forall>y\<in>set us. \<not> key_of h x < key_of h y"
  shows "\<exists>h' root' t'. node_insert h a x = Some (h', root') \<and> lock_tree h' root' t'
    \<and> inorder t' = us @ x # a # vs \<and> relinked (insert x (set_tree t)) h h'"
proof -
  from lock_tree_insert_at [OF assms(1-5)] obtain h' root' t' us1 l r vs1 where
    i: "node_insert h a x = Some (h', root')" "lock_tree h' root' t'"
    "us = us1 @ inorder l" "vs = inorder r @ vs1"
    "inorder t' = us1 @ inorder (ins (key_of h) (Node l a r) x) @ vs1"
    "relinked (insert x (set_tree t)) h h'" by blast
  then have "inorder (ins (key_of h) l x) = inorder l @ [x]"
    using assms(7) by (intro ins_last) auto
  with i assms(6) show ?thesis by (auto simp: inorder_rot)
qed

section \<open>Consecutive intervals\<close>

text \<open>
  \<open>seg h xs i j\<close>: the intervals of the nodes \<open>xs\<close> are non-empty, follow each other without
  gap, and together cover the times from \<open>i\<close> up to but excluding \<open>j\<close>.  Times are read as
  naturals, so that the end \<open>2 ^ 64\<close> of the last interval does not wrap.
\<close>

fun seg :: "heap \<Rightarrow> addr list \<Rightarrow> nat \<Rightarrow> nat \<Rightarrow> bool" where
  "seg h [] i j \<longleftrightarrow> i = j"
| "seg h (a # xs) i j \<longleftrightarrow>
     (case h a of
        None \<Rightarrow> False
      | Some n \<Rightarrow> unat (n_start n) = i \<and> n_start n \<le> n_end n
          \<and> seg h xs (Suc (unat (n_end n))) j)"

lemma seg_le: "seg h xs i j \<Longrightarrow> i \<le> j"
  by (induction xs arbitrary: i) (force simp: word_le_nat_alt split: option.splits)+

lemma seg_less: "seg h xs i j \<Longrightarrow> xs \<noteq> [] \<Longrightarrow> i < j"
  by (cases xs) (auto simp: word_le_nat_alt dest!: seg_le split: option.splits)

lemma seg_append: "seg h (xs @ ys) i j \<longleftrightarrow> (\<exists>k. seg h xs i k \<and> seg h ys k j)"
  by (induction xs arbitrary: i) (auto split: option.splits)

lemma seg_cong:
  "(\<And>x. x \<in> set xs \<Longrightarrow> map_option node_data (h' x) = map_option node_data (h x)) \<Longrightarrow>
   seg h' xs i j = seg h xs i j"
proof (induction xs arbitrary: i)
  case (Cons a xs)
  then have "map_option node_data (h' a) = map_option node_data (h a)" "\<And>i. seg h' xs i j = seg h xs i j"
    by auto
  then show ?case by (cases "h a"; cases "h' a") (auto simp: node_data_def)
qed simp

definition covers :: "heap \<Rightarrow> addr \<Rightarrow> u64 \<Rightarrow> bool" where
  "covers h a ts \<longleftrightarrow> (case h a of None \<Rightarrow> False | Some n \<Rightarrow> n_start n \<le> ts \<and> ts \<le> n_end n)"

lemma seg_covers:
  "seg h xs i j \<Longrightarrow> x \<in> set xs \<Longrightarrow> covers h x ts \<Longrightarrow> i \<le> unat ts \<and> unat ts < j"
proof (induction xs arbitrary: i)
  case (Cons a xs)
  then obtain n where n: "h a = Some n" "unat (n_start n) = i" "n_start n \<le> n_end n"
    "seg h xs (Suc (unat (n_end n))) j"
    by (auto split: option.splits)
  with Cons seg_le [OF n(4)] show ?case
    by (cases "x = a") (fastforce simp: covers_def word_le_nat_alt)+
qed simp

lemma seg_find:
  "seg h xs i j \<Longrightarrow> i \<le> unat ts \<Longrightarrow> unat ts < j \<Longrightarrow>
   \<exists>us a vs. xs = us @ a # vs \<and> covers h a ts"
proof (induction xs arbitrary: i)
  case (Cons a xs)
  then obtain n where n: "h a = Some n" "unat (n_start n) = i" "n_start n \<le> n_end n"
    "seg h xs (Suc (unat (n_end n))) j"
    by (auto split: option.splits)
  show ?case
  proof (cases "ts \<le> n_end n")
    case True
    with n Cons.prems have "covers h a ts" by (simp add: covers_def word_le_nat_alt)
    then show ?thesis by (intro exI [of _ "[]"]) auto
  next
    case False
    with Cons.IH [OF n(4)] Cons.prems obtain us b vs where "xs = us @ b # vs" "covers h b ts"
      by (auto simp: word_le_nat_alt)
    then show ?thesis by (intro exI [of _ "a # us"]) auto
  qed
qed simp

lemma seg_covers_unique:
  assumes "seg h (us @ a # vs) i j" "covers h a ts" "b \<in> set (us @ a # vs)" "covers h b ts"
  shows "b = a"
proof -
  from assms(1) obtain k n where n: "seg h us i k" "h a = Some n" "unat (n_start n) = k"
    "seg h vs (Suc (unat (n_end n))) j"
    by (auto simp: seg_append split: option.splits)
  from assms(2) n(2,3) have "k \<le> unat ts" "unat ts \<le> unat (n_end n)"
    by (auto simp: covers_def word_le_nat_alt)
  with assms(3,4) seg_covers [OF n(1), of b ts] seg_covers [OF n(4), of b ts] show ?thesis
    by fastforce
qed

section \<open>The stack of \<open>find\<close>\<close>

text \<open>
  \<open>stk h locks ys\<close>: popping \<open>locks\<close> and walking the left subtree of each popped node from
  right to left enumerates \<open>ys\<close> backwards.
\<close>

inductive stk :: "heap \<Rightarrow> addr list \<Rightarrow> addr list \<Rightarrow> bool" for h where
  stk_Nil: "stk h [] []"
| stk_snoc: "stk h locks ys \<Longrightarrow> h a = Some n \<Longrightarrow> tree_at h (Some a) (n_left n) l \<Longrightarrow>
    stk h (locks @ [a]) (ys @ inorder l @ [a])"

inductive_cases stk_NilE: "stk h [] ys"

lemma stk_NilD: "stk h [] ys \<Longrightarrow> ys = []"
  by (auto elim: stk_NilE)

lemma stk_snocD:
  "stk h (locks @ [a]) zs \<Longrightarrow>
   \<exists>ys n l. zs = ys @ inorder l @ [a] \<and> stk h locks ys \<and> h a = Some n
     \<and> tree_at h (Some a) (n_left n) l"
  by (cases rule: stk.cases) auto

lemma stk_last: "stk h locks (zs @ [a]) \<Longrightarrow> \<exists>locks'. locks = locks' @ [a]"
  by (cases rule: stk.cases) auto

lemma stk_data_upd:
  "stk h locks ys \<Longrightarrow> h a = Some n \<Longrightarrow> node_links n' = node_links n \<Longrightarrow>
   stk (h(a \<mapsto> n')) locks ys"
proof (induction rule: stk.induct)
  case stk_Nil
  show ?case by (rule stk.stk_Nil)
next
  case (stk_snoc locks ys b m l)
  have "\<exists>m'. (h(a \<mapsto> n')) b = Some m' \<and> n_left m' = n_left m"
    using stk_snoc by (auto simp: node_links_def)
  with stk_snoc show ?case
    by (metis stk.stk_snoc tree_at_data_upd)
qed

lemma find_stk:
  assumes "tree_at h par (Some b) t" "stk h locks ys" "seg h (inorder t) i j"
    "i \<le> unat ts" "unat ts < j"
  shows "\<exists>us a vs locks'. inorder t = us @ a # vs \<and> covers h a ts
    \<and> node_find h b locks ts = Some locks' \<and> stk h locks' (ys @ us @ [a])"
  using assms
proof (induction t arbitrary: par b locks ys i j)
  case (Node l c r)
  then obtain n where n: "b = c" "h c = Some n" "tree_at h (Some c) (n_left n) l"
    "tree_at h (Some c) (n_right n) r"
    by (auto split: option.splits)
  from Node.prems(3) n(2) have sg: "seg h (inorder l) i (unat (n_start n))"
    "n_start n \<le> n_end n" "seg h (inorder r) (Suc (unat (n_end n))) j"
    by (auto simp: seg_append)
  note find = node_find.simps [of h c]
  consider "ts < n_start n" | "n_end n < ts" | "n_start n \<le> ts" "ts \<le> n_end n" by fastforce
  then show ?case
  proof cases
    case 1
    with sg(1) Node.prems(4) obtain d where d: "n_left n = Some d"
      using n(3) by (cases l) (auto simp: word_less_nat_alt)
    from Node.IH(1) [OF n(3) [unfolded d] Node.prems(2) sg(1) Node.prems(4)] 1
    obtain us a vs locks' where "inorder l = us @ a # vs" "covers h a ts"
      "node_find h d locks ts = Some locks'" "stk h locks' (ys @ us @ [a])"
      by (auto simp: word_less_nat_alt)
    with 1 n d show ?thesis by (auto simp: find)
  next
    case 2
    with sg(3) Node.prems(5) obtain d where d: "n_right n = Some d"
      using n(4) by (cases r) (auto simp: word_less_nat_alt)
    from Node.IH(2) [OF n(4) [unfolded d] stk_snoc [OF Node.prems(2) n(2,3)] sg(3) _ Node.prems(5)] 2
    obtain us a vs locks' where "inorder r = us @ a # vs" "covers h a ts"
      "node_find h d (locks @ [c]) ts = Some locks'" "stk h locks' (ys @ (inorder l @ c # us) @ [a])"
      by (auto simp: word_less_nat_alt)
    moreover have "\<not> ts < n_start n" using 2 sg(2) by auto
    ultimately show ?thesis using 2 n d
      by (intro exI [of _ "inorder l @ c # us"] exI [of _ a] exI [of _ vs] exI [of _ locks'])
        (simp add: find)
  next
    case 3
    with n stk_snoc [OF Node.prems(2) n(2,3)] show ?thesis
      by (intro exI [of _ "inorder l"] exI [of _ c] exI [of _ "inorder r"] exI [of _ "locks @ [c]"])
        (auto simp: find covers_def)
  qed
qed simp

text \<open>
  One step back: after popping \<open>a\<close>, \<open>a->find(&locks, a->_start - 1)\<close> leaves a stack for the
  nodes before \<open>a\<close>.
\<close>

lemma find_back:
  assumes "stk h (locks @ [a]) (zs @ [a])" "seg h zs i (unat (n_start n))" "h a = Some n"
    "n_start n \<noteq> 0"
  shows "\<exists>locks'. node_find h a locks (n_start n - 1) = Some locks' \<and> stk h locks' zs"
proof -
  from stk_snocD [OF assms(1)] assms(3) obtain ys l where
    l: "zs = ys @ inorder l" "stk h locks ys" "tree_at h (Some a) (n_left n) l" by auto
  have less: "n_start n - 1 < n_start n"
    using assms(4) by (simp add: word_less_nat_alt unat_pred unat_gt_0)
  note find = node_find.simps [of h a]
  show ?thesis
  proof (cases l)
    case Leaf
    with l less assms(3) show ?thesis by (simp add: find)
  next
    case (Node l1 b r1)
    then have b: "n_left n = Some b" using l(3) by simp
    from assms(2) l(1) obtain k where k: "seg h (inorder l) k (unat (n_start n))"
      by (auto simp: seg_append)
    have "inorder l \<noteq> []" using Node by simp
    with seg_less [OF k] assms(4) have "k \<le> unat (n_start n - 1)" "unat (n_start n - 1) < unat (n_start n)"
      by (simp_all add: unat_pred unat_gt_0)
    from find_stk [OF l(3) [unfolded b] l(2) k this]
    obtain us c vs locks' where c: "inorder l = us @ c # vs" "covers h c (n_start n - 1)"
      "node_find h b locks (n_start n - 1) = Some locks'" "stk h locks' (ys @ us @ [c])"
      by blast
    have "vs = []"
    proof (rule ccontr)
      assume vs: "vs \<noteq> []"
      from k c(1) obtain m where "h c = Some m" "seg h vs (Suc (unat (n_end m))) (unat (n_start n))"
        by (auto simp: seg_append split: option.splits)
      with c(2) seg_less [OF this(2) vs] assms(4) show False
        by (auto simp: covers_def word_le_nat_alt unat_pred)
    qed
    with c l(1) b less assms(3) show ?thesis by (simp add: find)
  qed
qed

end
