(* ===== verification/Lock_Manager.thy ===== *)
theory Lock_Manager
  imports Lock_Node
begin

text \<open>
  \<open>AVLTreeLockManager\<close> (\<open>src/src/AVLTreeLockManager.h\<close> and \<open>.cc\<close>): for every key a tree of
  time intervals with a lock status each, and for every transaction the time intervals it
  has asked for on each key.

  An operation holds the key's and the transaction's mutex while it works on them; here it is
  one step on the state, without the mutexes and the reader-writer locks around the two maps.
  \<open>Lock_Threads\<close> has the operations with all of these, and relates the two.
  All nodes live in one heap with a bump allocator.  Events are identified by the address of
  the object; \<open>freeze\<close> and \<open>unlock\<close> return the events they go on to run, in the order in
  which the \<open>std::set<Event *>\<close> is iterated.
\<close>

section \<open>State\<close>

type_synonym event_id = nat

record key_info =
  ki_events :: "u64 \<rightharpoonup> event_id list"
  ki_root :: addr

type_synonym transaction_info = "(u64 \<times> (u64 \<times> u64)) list"

record lock_manager =
  lm_heap :: heap
  lm_next :: addr
  lm_keys :: "u64 \<rightharpoonup> key_info"
  lm_trans :: "u64 \<rightharpoonup> transaction_info"

definition lm_init :: lock_manager where
  "lm_init = \<lparr>lm_heap = Map.empty, lm_next = 0, lm_keys = Map.empty, lm_trans = Map.empty\<rparr>"

section \<open>Keys, events and transactions\<close>

definition createKeyInfo :: "lock_manager \<Rightarrow> u64 \<Rightarrow> lock_manager option" where
  "createKeyInfo m key =
    (case lm_keys m key of
       Some _ \<Rightarrow> Some m
     | None \<Rightarrow> do {
         let root = lm_next m;
         let temp_node = Suc root;
         let h = (lm_heap m)(root \<mapsto> new_node\<lparr>n_status := FREEZE_WRITE_LOCK, n_end := 0\<rparr>,
                             temp_node \<mapsto> new_node\<lparr>n_start := 1\<rparr>);
         (h, root) \<leftarrow> node_insert h root temp_node;
         Some (m\<lparr>lm_heap := h, lm_next := Suc temp_node,
                 lm_keys := (lm_keys m)(key \<mapsto> \<lparr>ki_events = Map.empty, ki_root = root\<rparr>)\<rparr>)
       })"

definition addEvent :: "lock_manager \<Rightarrow> u64 \<Rightarrow> u64 \<Rightarrow> event_id \<Rightarrow> lock_manager" where
  "addEvent m key ts_end event =
    (case lm_keys m key of
       None \<Rightarrow> m
     | Some ki \<Rightarrow>
         let evs = (case ki_events ki ts_end of None \<Rightarrow> [] | Some es \<Rightarrow> es)
         in m\<lparr>lm_keys := (lm_keys m)(key \<mapsto>
               ki\<lparr>ki_events := (ki_events ki)(ts_end \<mapsto> insort_insert event evs)\<rparr>)\<rparr>)"

definition createTransactionInfo :: "lock_manager \<Rightarrow> u64 \<Rightarrow> lock_manager" where
  "createTransactionInfo m tid =
    (case lm_trans m tid of
       Some _ \<Rightarrow> m
     | None \<Rightarrow> m\<lparr>lm_trans := (lm_trans m)(tid \<mapsto> [])\<rparr>)"

definition deleteTransactionInfo :: "lock_manager \<Rightarrow> u64 \<Rightarrow> lock_manager" where
  "deleteTransactionInfo m tid =
    (case lm_trans m tid of
       None \<Rightarrow> m
     | Some _ \<Rightarrow> m\<lparr>lm_trans := (lm_trans m)(tid := None)\<rparr>)"

definition addTransactionLock ::
    "lock_manager \<Rightarrow> u64 \<Rightarrow> u64 \<Rightarrow> u64 \<Rightarrow> u64 \<Rightarrow> lock_manager" where
  "addTransactionLock m0 tid key start end_ts =
    (let m = (case lm_trans m0 tid of None \<Rightarrow> createTransactionInfo m0 tid | Some _ \<Rightarrow> m0)
     in case lm_trans m tid of
          None \<Rightarrow> m
        | Some tr_info \<Rightarrow>
            let p = (case map_of tr_info key of
                       None \<Rightarrow> (start, end_ts)
                     | Some (s, e) \<Rightarrow>
                         (if start < s then start else s, if end_ts > e then end_ts else e))
            in m\<lparr>lm_trans := (lm_trans m)(tid \<mapsto> smap_put key p tr_info)\<rparr>)"

section \<open>Cutting a node\<close>

text \<open>
  Both lock operations cut a node that sticks out of the requested interval: the part after
  (before) \<open>ts\<close> moves to a copy, which is inserted below the node.  The result carries the
  root after the insertion.
\<close>

definition cut_after :: "heap \<times> addr \<Rightarrow> addr \<Rightarrow> u64 \<Rightarrow> ((heap \<times> addr) \<times> addr) option" where
  "cut_after hn a ts = do {
     let (h, new_lock) = hn;
     n \<leftarrow> h a;
     let h = h(new_lock \<mapsto> (copy_node n)\<lparr>n_start := ts + 1, n_end := n_end n\<rparr>);
     h \<leftarrow> upd h a (n_end_update (\<lambda>_. ts));
     (h, root) \<leftarrow> node_insert h a new_lock;
     Some ((h, Suc new_lock), root)
   }"

definition cut_before :: "heap \<times> addr \<Rightarrow> addr \<Rightarrow> u64 \<Rightarrow> ((heap \<times> addr) \<times> addr) option" where
  "cut_before hn a ts = do {
     let (h, new_lock) = hn;
     n \<leftarrow> h a;
     let h = h(new_lock \<mapsto> (copy_node n)\<lparr>n_end := ts - 1\<rparr>);
     h \<leftarrow> upd h a (n_start_update (\<lambda>_. ts));
     (h, root) \<leftarrow> node_insert h a new_lock;
     Some ((h, Suc new_lock), root)
   }"

section \<open>Locking backwards from a time\<close>

text \<open>
  The \<open>switch\<close> of \<open>tryBackwardLock\<close> on the node that contains \<open>cur_ts\<close>: the new node, the
  new \<open>cur_ts\<close>, and whether the request has to wait for the holder of this node.
\<close>

definition backward_visit :: "bool \<Rightarrow> u64 \<Rightarrow> u64 \<Rightarrow> lock_node \<Rightarrow> lock_node \<times> u64 \<times> bool" where
  "backward_visit is_read tid cur_ts n =
    (case n_status n of
       FREE \<Rightarrow>
         (n\<lparr>n_status := (if is_read then READ_LOCK else WRITE_LOCK), n_tids := insert tid (n_tids n)\<rparr>,
          n_start n - 1, False)
     | READ_LOCK \<Rightarrow>
         if is_read then (n\<lparr>n_tids := insert tid (n_tids n)\<rparr>, n_start n - 1, False)
         else (n, cur_ts, True)
     | WRITE_LOCK \<Rightarrow> (n, cur_ts, True)
     | FREEZE_READ_LOCK \<Rightarrow> if is_read then (n, n_start n - 1, False) else (n, cur_ts, False)
     | FREEZE_WRITE_LOCK \<Rightarrow> (n, cur_ts, False))"

text \<open>
  The \<open>while\<close> loop.  The last component of the result says that the code took the early
  error return for a node that does not contain \<open>cur_ts\<close>.
\<close>

partial_function (option) backward_loop ::
    "u64 \<Rightarrow> u64 \<Rightarrow> u64 \<Rightarrow> bool \<Rightarrow> event_id \<Rightarrow> lock_manager \<Rightarrow> addr list \<Rightarrow> u64 \<Rightarrow>
     (lock_manager \<times> u64 \<times> bool \<times> bool) option" where
  "backward_loop key tid ts_end is_read event m locks cur_ts =
    (if locks = [] then Some (m, cur_ts, True, False)
     else do {
       (a, locks) \<leftarrow> pop_back locks;
       n \<leftarrow> lm_heap m a;
       (if cur_ts < n_start n \<or> cur_ts > n_end n then Some (m, cur_ts, False, True)
        else do {
          let (n', cur_ts, blocked) = backward_visit is_read tid cur_ts n;
          let m = m\<lparr>lm_heap := (lm_heap m)(a \<mapsto> n')\<rparr>;
          let m = (if blocked then addEvent m key (n_end n) event else m);
          (if cur_ts \<noteq> n_start n - 1
           then Some (addTransactionLock m tid key (cur_ts + 1) ts_end, cur_ts, \<not> blocked, False)
           else do {
             locks \<leftarrow> node_find (lm_heap m) a locks cur_ts;
             backward_loop key tid ts_end is_read event m locks cur_ts
           })
        })
     })"

text \<open>
  The part before the loop: find the node of \<open>ts_end\<close>, and cut it there when the lock will
  change and the node goes on after \<open>ts_end\<close>.
\<close>

definition backward_start ::
    "heap \<Rightarrow> addr \<Rightarrow> addr \<Rightarrow> u64 \<Rightarrow> bool \<Rightarrow> (heap \<times> addr \<times> addr \<times> addr list) option" where
  "backward_start h next root ts_end is_read = do {
     locks \<leftarrow> node_find h root [] ts_end;
     (a, _) \<leftarrow> pop_back locks;
     n \<leftarrow> h a;
     (if (n_status n = FREE \<or> n_status n = READ_LOCK \<and> is_read) \<and> ts_end < n_end n
      then do {
        ((h, next), root) \<leftarrow> cut_after (h, next) a ts_end;
        locks \<leftarrow> node_find h root [] ts_end;
        Some (h, next, root, locks)
      }
      else Some (h, next, root, locks))
   }"

text \<open>
  The argument \<open>ts_start\<close> is the caller's variable, which the early error return leaves as it
  was; the result holds the new state, the returned value and that variable.
\<close>

definition set_root :: "lock_manager \<Rightarrow> u64 \<Rightarrow> addr \<Rightarrow> lock_manager option" where
  "set_root m key root = do {
     ki \<leftarrow> lm_keys m key;
     Some (m\<lparr>lm_keys := (lm_keys m)(key \<mapsto> ki\<lparr>ki_root := root\<rparr>)\<rparr>)
   }"

definition tryBackwardLock ::
    "lock_manager \<Rightarrow> u64 \<Rightarrow> u64 \<Rightarrow> u64 \<Rightarrow> bool \<Rightarrow> event_id \<Rightarrow> u64 \<Rightarrow>
     (lock_manager \<times> bool \<times> u64) option" where
  "tryBackwardLock m key tid ts_end is_read event ts_start = do {
     m \<leftarrow> createKeyInfo m key;
     ki \<leftarrow> lm_keys m key;
     (h, next, root, locks) \<leftarrow> backward_start (lm_heap m) (lm_next m) (ki_root ki) ts_end is_read;
     (m, cur_ts, res, failed) \<leftarrow>
       backward_loop key tid ts_end is_read event (m\<lparr>lm_heap := h, lm_next := next\<rparr>) locks ts_end;
     (if failed then Some (m, False, ts_start)
      else do {
        m \<leftarrow> set_root m key root;
        Some (m, res, cur_ts + 1)
      })
   }"

section \<open>Locking an interval\<close>

text \<open>
  The first loop of \<open>tryLock\<close>: \<open>None\<close> in the inner option is \<open>res = false\<close>, otherwise the
  nodes of \<open>pend_locks\<close>.
\<close>

definition lock_check :: "bool \<Rightarrow> lock_status \<Rightarrow> bool option" where
  "lock_check is_read s =
    (case s of
       FREE \<Rightarrow> Some True
     | READ_LOCK \<Rightarrow> if is_read then Some True else None
     | WRITE_LOCK \<Rightarrow> None
     | FREEZE_READ_LOCK \<Rightarrow> if is_read then Some False else None
     | FREEZE_WRITE_LOCK \<Rightarrow> None)"

partial_function (option) check_loop ::
    "heap \<Rightarrow> u64 \<Rightarrow> bool \<Rightarrow> addr list \<Rightarrow> addr list \<Rightarrow> addr list option option" where
  "check_loop h ts_start is_read locks pend =
    (if locks = [] then Some (Some pend)
     else do {
       (a, locks) \<leftarrow> pop_back locks;
       n \<leftarrow> h a;
       (case lock_check is_read (n_status n) of
          None \<Rightarrow> Some None
        | Some b \<Rightarrow>
            let pend = (if b then pend @ [a] else pend)
            in if n_start n > ts_start then do {
                 locks \<leftarrow> node_find h a locks (ts_start - 1);
                 check_loop h ts_start is_read locks pend
               }
               else Some (Some pend))
     })"

text \<open>The body of the second loop, for one pending node.\<close>

definition lock_pending ::
    "u64 \<Rightarrow> u64 \<Rightarrow> u64 \<Rightarrow> bool \<Rightarrow> (heap \<times> addr) \<times> addr \<Rightarrow> addr \<Rightarrow> ((heap \<times> addr) \<times> addr) option" where
  "lock_pending tid ts_start ts_end is_read st it = do {
     let (hn, root) = st;
     n \<leftarrow> fst hn it;
     (hn, root) \<leftarrow> (if n_start n < ts_start then cut_before hn it ts_start else Some (hn, root));
     n \<leftarrow> fst hn it;
     (hn, root) \<leftarrow> (if n_end n > ts_end then cut_after hn it ts_end else Some (hn, root));
     h \<leftarrow> upd (fst hn) it (\<lambda>n. n\<lparr>n_status := (if is_read then READ_LOCK else WRITE_LOCK),
                                 n_tids := insert tid (n_tids n)\<rparr>);
     Some ((h, snd hn), root)
   }"

fun lock_pendings ::
    "u64 \<Rightarrow> u64 \<Rightarrow> u64 \<Rightarrow> bool \<Rightarrow> (heap \<times> addr) \<times> addr \<Rightarrow> addr list \<Rightarrow> ((heap \<times> addr) \<times> addr) option" where
  "lock_pendings tid ts_start ts_end is_read st [] = Some st"
| "lock_pendings tid ts_start ts_end is_read st (it # pend) = do {
     st \<leftarrow> lock_pending tid ts_start ts_end is_read st it;
     lock_pendings tid ts_start ts_end is_read st pend
   }"

definition tryLock ::
    "lock_manager \<Rightarrow> u64 \<Rightarrow> u64 \<Rightarrow> u64 \<Rightarrow> u64 \<Rightarrow> bool \<Rightarrow> (lock_manager \<times> bool) option" where
  "tryLock m key tid ts_start ts_end is_read = do {
     m \<leftarrow> createKeyInfo m key;
     ki \<leftarrow> lm_keys m key;
     let root = ki_root ki;
     locks \<leftarrow> node_find (lm_heap m) root [] ts_end;
     pend \<leftarrow> check_loop (lm_heap m) ts_start is_read locks [];
     (case pend of
        None \<Rightarrow> do {
          m \<leftarrow> set_root m key root;
          Some (m, False)
        }
      | Some pend \<Rightarrow> do {
          ((h, next), root) \<leftarrow>
            lock_pendings tid ts_start ts_end is_read ((lm_heap m, lm_next m), root) pend;
          let m = addTransactionLock (m\<lparr>lm_heap := h, lm_next := next\<rparr>) tid key ts_start ts_end;
          m \<leftarrow> set_root m key root;
          Some (m, True)
        })
   }"

section \<open>Freezing and unlocking\<close>

definition events_at :: "(u64 \<rightharpoonup> event_id list) \<Rightarrow> u64 \<Rightarrow> event_id list" where
  "events_at es ts = (case es ts of None \<Rightarrow> [] | Some xs \<Rightarrow> xs)"

text \<open>The \<open>switch\<close> of \<open>freeze\<close>: the new node and the events collected.\<close>

definition freeze_visit ::
    "u64 \<Rightarrow> (u64 \<rightharpoonup> event_id list) \<Rightarrow> lock_node \<Rightarrow> lock_node \<times> event_id list" where
  "freeze_visit tid es n =
    (case n_status n of
       FREE \<Rightarrow> (n, [])
     | READ_LOCK \<Rightarrow>
         if tid \<in> n_tids n
         then (n\<lparr>n_status := FREEZE_READ_LOCK, n_tids := {}\<rparr>, events_at es (n_end n))
         else (n, [])
     | WRITE_LOCK \<Rightarrow>
         if tid \<in> n_tids n
         then (n\<lparr>n_status := FREEZE_WRITE_LOCK, n_tids := {}\<rparr>, events_at es (n_end n))
         else (n, [])
     | FREEZE_READ_LOCK \<Rightarrow> (n, [])
     | FREEZE_WRITE_LOCK \<Rightarrow> (n, []))"

text \<open>The \<open>switch\<close> of \<open>unlock\<close>.\<close>

definition unlock_visit ::
    "u64 \<Rightarrow> (u64 \<rightharpoonup> event_id list) \<Rightarrow> lock_node \<Rightarrow> lock_node \<times> event_id list" where
  "unlock_visit tid es n =
    (case n_status n of
       FREE \<Rightarrow> (n, [])
     | READ_LOCK \<Rightarrow>
         if tid \<in> n_tids n
         then (n\<lparr>n_status := FREE, n_tids := n_tids n - {tid}\<rparr>,
               if n_tids n - {tid} = {} then events_at es (n_end n) else [])
         else (n, [])
     | WRITE_LOCK \<Rightarrow>
         if tid \<in> n_tids n
         then (n\<lparr>n_status := FREE, n_tids := n_tids n - {tid}\<rparr>, events_at es (n_end n))
         else (n, [])
     | FREEZE_READ_LOCK \<Rightarrow> (n, [])
     | FREEZE_WRITE_LOCK \<Rightarrow> (n, []))"

text \<open>
  The loop both operations run over one interval of a transaction, from its end down to its
  start, with the \<open>switch\<close> as a parameter.
\<close>

type_synonym visitor = "(u64 \<rightharpoonup> event_id list) \<Rightarrow> lock_node \<Rightarrow> lock_node \<times> event_id list"

partial_function (option) interval_loop ::
    "(lock_node \<Rightarrow> lock_node \<times> event_id list) \<Rightarrow> u64 \<Rightarrow> heap \<Rightarrow> addr list \<Rightarrow> u64 \<Rightarrow> event_id list \<Rightarrow>
     (heap \<times> event_id list) option" where
  "interval_loop visit ts_start h locks ts_end events =
    (if ts_end < ts_start then Some (h, events)
     else do {
       (a, locks) \<leftarrow> pop_back locks;
       n \<leftarrow> h a;
       let (n', es) = visit n;
       let h = h(a \<mapsto> n');
       let ts_end = n_start n - 1;
       locks \<leftarrow> node_find h a locks ts_end;
       interval_loop visit ts_start h locks ts_end (fold insort_insert es events)
     })"

fun release_intervals ::
    "visitor \<Rightarrow> lock_manager \<Rightarrow> transaction_info \<Rightarrow> event_id list \<Rightarrow>
     (lock_manager \<times> event_id list) option" where
  "release_intervals visit m [] events = Some (m, events)"
| "release_intervals visit m ((key, (ts_start, ts_end)) # ivs) events =
     (case lm_keys m key of
        None \<Rightarrow> release_intervals visit m ivs events
      | Some ki \<Rightarrow> do {
          locks \<leftarrow> node_find (lm_heap m) (ki_root ki) [] ts_end;
          (h, events) \<leftarrow>
            interval_loop (visit (ki_events ki)) ts_start (lm_heap m) locks ts_end events;
          release_intervals visit (m\<lparr>lm_heap := h\<rparr>) ivs events
        })"

definition freeze :: "lock_manager \<Rightarrow> u64 \<Rightarrow> (lock_manager \<times> event_id list) option" where
  "freeze m tid =
    (case lm_trans m tid of
       None \<Rightarrow> Some (m, [])
     | Some tr_info \<Rightarrow> do {
         (m, events) \<leftarrow> release_intervals (freeze_visit tid) m tr_info [];
         let m = m\<lparr>lm_trans := (lm_trans m)(tid \<mapsto> [])\<rparr>;
         Some (deleteTransactionInfo m tid, events)
       })"

definition unlock :: "lock_manager \<Rightarrow> u64 \<Rightarrow> (lock_manager \<times> event_id list) option" where
  "unlock m tid =
    (case lm_trans m tid of
       None \<Rightarrow> Some (m, [])
     | Some tr_info \<Rightarrow> do {
         (m, events) \<leftarrow> release_intervals (unlock_visit tid) m tr_info [];
         let m = m\<lparr>lm_trans := (lm_trans m)(tid \<mapsto> [])\<rparr>;
         Some (deleteTransactionInfo m tid, events)
       })"

declare backward_loop.simps [code] check_loop.simps [code] interval_loop.simps [code]

end
