(* ===== verification/Lock_Table.thy ===== *)
theory Lock_Table
  imports Lock_Intervals Lock_Manager
begin

text \<open>
  What a lock tree means: the lock that holds at each time of the key.  Cutting a node at a
  time moves nodes around but leaves the meaning of the tree alone.
\<close>

section \<open>Interval trees\<close>

abbreviation data :: "heap \<Rightarrow> addr \<Rightarrow> (lock_status \<times> u64 \<times> u64 \<times> u64 set) option" where
  "data h a \<equiv> map_option node_data (h a)"

text \<open>The times below \<open>2 ^ 64\<close> are partitioned by the nodes of the tree, in order.\<close>

definition interval_tree :: "heap \<Rightarrow> addr \<Rightarrow> addr tree \<Rightarrow> bool" where
  "interval_tree h root t \<longleftrightarrow> lock_tree h root t \<and> seg h (inorder t) 0 18446744073709551616"

type_synonym cell = "lock_status \<times> u64 set"

definition cell_at :: "heap \<Rightarrow> addr \<Rightarrow> u64 \<Rightarrow> cell option" where
  "cell_at h root ts = do {
     locks \<leftarrow> node_find h root [] ts;
     (a, _) \<leftarrow> pop_back locks;
     n \<leftarrow> h a;
     Some (n_status n, n_tids n)
   }"

lemma seg_bounds:
  "seg h xs i j \<Longrightarrow> x \<in> set xs \<Longrightarrow>
   \<exists>n. h x = Some n \<and> i \<le> unat (n_start n) \<and> n_start n \<le> n_end n \<and> unat (n_end n) < j"
proof (induction xs arbitrary: i)
  case (Cons a xs)
  then obtain n where n: "h a = Some n" "unat (n_start n) = i" "n_start n \<le> n_end n"
    "seg h xs (Suc (unat (n_end n))) j"
    by (auto split: option.splits)
  with Cons seg_le [OF n(4)] show ?case
    by (cases "x = a") (fastforce simp: word_le_nat_alt)+
qed simp

lemma find_root:
  assumes "interval_tree h root t"
  shows "\<exists>us a vs locks. inorder t = us @ a # vs \<and> covers h a ts
    \<and> node_find h root [] ts = Some locks \<and> stk h locks (us @ [a])"
proof -
  from assms have t: "tree_at h None (Some root) t" "seg h (inorder t) 0 18446744073709551616"
    by (auto simp: interval_tree_def lock_tree_def tree_in_def)
  from find_stk [OF t(1) stk_Nil t(2), of ts] show ?thesis by auto
qed

lemma cell_at_covers:
  assumes "interval_tree h root t" "a \<in> set_tree t" "covers h a ts" "h a = Some n"
  shows "cell_at h root ts = Some (n_status n, n_tids n)"
proof -
  from find_root [OF assms(1)] obtain us b vs locks where b: "inorder t = us @ b # vs"
    "covers h b ts" "node_find h root [] ts = Some locks" "stk h locks (us @ [b])" by metis
  have "seg h (us @ b # vs) 0 18446744073709551616"
    using assms(1) b(1) by (simp add: interval_tree_def)
  moreover have "a \<in> set (us @ b # vs)"
    using assms(2) set_inorder [of t] by (simp only: b(1))
  ultimately have "a = b"
    by (rule seg_covers_unique [OF _ b(2) _ assms(3)])
  with stk_last [OF b(4)] b(3) assms(4) show ?thesis by (auto simp: cell_at_def)
qed

lemma covers_exists:
  assumes "interval_tree h root t"
  shows "\<exists>a n. a \<in> set_tree t \<and> h a = Some n \<and> covers h a ts"
proof -
  from find_root [OF assms] obtain us b vs where "inorder t = us @ b # vs" "covers h b ts" by metis
  then show ?thesis
    using set_inorder [of t] by (cases "h b") (auto simp: covers_def)
qed

lemma cell_at_total:
  assumes "interval_tree h root t" shows "\<exists>c. cell_at h root ts = Some c"
  using covers_exists [OF assms] cell_at_covers [OF assms] by blast

text \<open>Only the data of the nodes of the tree matters.\<close>

lemma node_data_eq_iff:
  "node_data n = node_data m \<longleftrightarrow>
   n_status n = n_status m \<and> n_start n = n_start m \<and> n_end n = n_end m \<and> n_tids n = n_tids m"
  by (simp add: node_data_def)

lemma covers_data: "data h' a = data h a \<Longrightarrow> covers h' a ts = covers h a ts"
  by (cases "h a"; cases "h' a") (auto simp: covers_def node_data_def)

text \<open>
  Two trees over the same times agree at a time when the covering node of one has a node of
  the other with the same lock around that time.
\<close>

lemma cell_at_eqI:
  assumes "interval_tree h root t" "interval_tree h' root' t'"
    and "\<And>a n. a \<in> set_tree t \<Longrightarrow> h a = Some n \<Longrightarrow> covers h a ts \<Longrightarrow>
      \<exists>b m. b \<in> set_tree t' \<and> h' b = Some m \<and> covers h' b ts \<and> (n_status m, n_tids m) = f (n_status n, n_tids n)"
  shows "cell_at h' root' ts = map_option f (cell_at h root ts)"
proof -
  from covers_exists [OF assms(1)] obtain a n where a: "a \<in> set_tree t" "h a = Some n" "covers h a ts"
    by blast
  with assms(3) obtain b m where "b \<in> set_tree t'" "h' b = Some m" "covers h' b ts"
    "(n_status m, n_tids m) = f (n_status n, n_tids n)" by blast
  with a show ?thesis
    by (simp add: cell_at_covers [OF assms(1) a(1,3)] cell_at_covers [OF assms(2)])
qed

section \<open>Changing the data of nodes\<close>

lemma lock_tree_data_upd:
  assumes "lock_tree h root t" "h a = Some n" "node_links n' = node_links n"
  shows "lock_tree (h(a \<mapsto> n')) root t"
  using assms by (auto simp: lock_tree_def tree_in_def tree_at_data_upd)

lemma lock_tree_fresh:
  "lock_tree h root t \<Longrightarrow> a \<notin> set_tree t \<Longrightarrow> lock_tree (h(a := v)) root t"
  by (auto simp: lock_tree_def tree_in_def heap_simps)

lemma lock_tree_other:
  assumes "lock_tree h root t" "\<And>x. x \<in> set_tree t \<Longrightarrow> h' x = h x"
  shows "lock_tree h' root t"
  using assms tree_at_cong [of t h' h] by (auto simp: lock_tree_def tree_in_def)

lemma interval_tree_other:
  assumes "interval_tree h root t" "\<And>x. x \<in> set_tree t \<Longrightarrow> h' x = h x"
  shows "interval_tree h' root t" "cell_at h' root ts = cell_at h root ts"
proof -
  have "seg h' (inorder t) 0 18446744073709551616 = seg h (inorder t) 0 18446744073709551616"
    using assms(2) by (intro seg_cong) simp
  with assms lock_tree_other show i: "interval_tree h' root t"
    unfolding interval_tree_def by blast
  have "cell_at h' root ts = map_option id (cell_at h root ts)"
    using assms(1) i
  proof (rule cell_at_eqI)
    fix a n assume a: "a \<in> set_tree t" "h a = Some n" "covers h a ts"
    with assms(2) show "\<exists>b m. b \<in> set_tree t \<and> h' b = Some m \<and> covers h' b ts
        \<and> (n_status m, n_tids m) = id (n_status n, n_tids n)"
      by (intro exI [of _ a] exI [of _ n]) (simp add: covers_def)
  qed
  then show "cell_at h' root ts = cell_at h root ts" by (simp add: option.map_id)
qed

text \<open>A node whose lock changes, but not its interval or its place.\<close>

lemma interval_tree_status:
  assumes "interval_tree h root t" "h a = Some n"
    and "node_links n' = node_links n" "n_start n' = n_start n" "n_end n' = n_end n"
  shows "interval_tree (h(a \<mapsto> n')) root t"
proof -
  have "seg (h(a \<mapsto> n')) xs i j = seg h xs i j" for xs i j
    using assms(2,4,5) by (induction xs arbitrary: i) (auto split: option.split)
  with assms show ?thesis
    by (simp add: interval_tree_def lock_tree_data_upd)
qed

lemma cell_at_status:
  assumes "interval_tree h root t" "a \<in> set_tree t" "h a = Some n"
    and "node_links n' = node_links n" "n_start n' = n_start n" "n_end n' = n_end n"
  shows "cell_at (h(a \<mapsto> n')) root ts =
    (if n_start n \<le> ts \<and> ts \<le> n_end n then Some (n_status n', n_tids n') else cell_at h root ts)"
proof (cases "n_start n \<le> ts \<and> ts \<le> n_end n")
  case True
  with assms(5,6) have "covers (h(a \<mapsto> n')) a ts" by (simp add: covers_def)
  from cell_at_covers [OF interval_tree_status [OF assms(1,3-6)] assms(2) this] True
  show ?thesis by simp
next
  case False
  have "cell_at (h(a \<mapsto> n')) root ts = map_option id (cell_at h root ts)"
    using assms(1) interval_tree_status [OF assms(1,3-6)]
  proof (rule cell_at_eqI)
    fix b m assume b: "b \<in> set_tree t" "h b = Some m" "covers h b ts"
    with False assms(3) have "b \<noteq> a" by (auto simp: covers_def)
    with b show "\<exists>b' m'. b' \<in> set_tree t \<and> (h(a \<mapsto> n')) b' = Some m' \<and> covers (h(a \<mapsto> n')) b' ts
      \<and> (n_status m', n_tids m') = id (n_status m, n_tids m)"
      by (intro exI [of _ b] exI [of _ m]) (auto simp: covers_def)
  qed
  with False show ?thesis by (simp only: option.map_id if_False id_apply)
qed

section \<open>Cutting a node\<close>

lemma seg_data:
  "data h a = Some (s, i', e, t) \<Longrightarrow>
   seg h (a # xs) i j \<longleftrightarrow> unat i' = i \<and> i' \<le> e \<and> seg h xs (Suc (unat e)) j"
  by (auto simp: node_data_def)

lemma covers_iff: "data h a = Some (s, i, e, t) \<Longrightarrow> covers h a ts \<longleftrightarrow> i \<le> ts \<and> ts \<le> e"
  by (auto simp: covers_def node_data_def)

lemma data_None_iff: "data h a = None \<longleftrightarrow> h a = None"
  by simp

text \<open>
  \<open>tree_split h t a new h' t'\<close>: the tree \<open>t'\<close> in \<open>h'\<close> has the nodes of \<open>t\<close> and the new node; \<open>a\<close>
  and the new node share what \<open>a\<close> was before, and all other nodes are as before.
\<close>

definition tree_split :: "heap \<Rightarrow> addr tree \<Rightarrow> addr \<Rightarrow> addr \<Rightarrow> heap \<Rightarrow> addr tree \<Rightarrow> bool" where
  "tree_split h t a new h' t' \<longleftrightarrow>
     set_tree t' = insert new (set_tree t)
     \<and> (\<forall>x. x \<noteq> a \<longrightarrow> x \<noteq> new \<longrightarrow> data h' x = data h x)
     \<and> (\<forall>x. x \<notin> insert new (set_tree t) \<longrightarrow> h' x = h x)"

lemma split_cell_at:
  assumes "interval_tree h root t" "interval_tree h' root' t'" "tree_split h t a new h' t'"
    and "new \<notin> set_tree t" "a \<in> set_tree t" "data h a = Some (s, i, e, ids)"
    and "data h' a = Some (s, i1, e1, ids)" "data h' new = Some (s, i2, e2, ids)"
    and "i \<le> ts \<and> ts \<le> e \<Longrightarrow> i1 \<le> ts \<and> ts \<le> e1 \<or> i2 \<le> ts \<and> ts \<le> e2"
  shows "cell_at h' root' ts = cell_at h root ts"
proof -
  have "cell_at h' root' ts = map_option id (cell_at h root ts)"
    using assms(1,2)
  proof (rule cell_at_eqI)
    fix b n assume b: "b \<in> set_tree t" "h b = Some n" "covers h b ts"
    have "\<exists>c\<in>set_tree t'. \<exists>s i e. covers h' c ts \<and> data h' c = Some (n_status n, i, e, n_tids n)"
    proof (cases "b = a")
      case True
      with b(2) assms(6) have "s = n_status n" "ids = n_tids n" "i = n_start n" "e = n_end n"
        by (auto simp: node_data_def)
      moreover from this b(2,3) True have "i \<le> ts \<and> ts \<le> e" by (simp add: covers_def)
      from assms(9) [OF this] have "covers h' a ts \<or> covers h' new ts"
        by (simp only: covers_iff [where h=h' and a=a, OF assms(7)]
          covers_iff [where h=h' and a=new, OF assms(8)])
      ultimately show ?thesis using assms(3,5,7,8) by (auto simp: tree_split_def)
    next
      case False
      with b(1) assms(3,4) have "data h' b = data h b" "b \<in> set_tree t'" by (auto simp: tree_split_def)
      with b(2,3) covers_data [where h=h and h'=h' and a=b, OF this(1)] show ?thesis
        by (intro bexI [of _ b]) (auto simp: node_data_def)
    qed
    then show "\<exists>c m. c \<in> set_tree t' \<and> h' c = Some m \<and> covers h' c ts
        \<and> (n_status m, n_tids m) = id (n_status n, n_tids n)"
      by (auto simp: node_data_def)
  qed
  then show ?thesis by (simp add: option.map_id)
qed

lemma seg_split_other:
  assumes "seg h (us @ a # vs) i j" "distinct (us @ a # vs)" "new \<notin> set (us @ a # vs)"
    and "\<forall>x. x \<noteq> a \<longrightarrow> x \<noteq> new \<longrightarrow> data h' x = data h x"
  shows "seg h' us = seg h us" "seg h' vs = seg h vs"
  using assms by (auto simp: fun_eq_iff intro!: seg_cong)

lemma cut_prepare:
  assumes "interval_tree h root t" "a \<in> set_tree t" "h a = Some n" "new \<notin> set_tree t"
    and "node_links n' = node_links n"
  shows "lock_tree (h(new \<mapsto> m, a \<mapsto> n')) root t" "(h(new \<mapsto> m)) a = Some n"
    "(h(new \<mapsto> m, a \<mapsto> n')) new = Some m"
proof -
  from assms have "lock_tree (h(new \<mapsto> m)) root t" "new \<noteq> a"
    by (auto simp: interval_tree_def lock_tree_fresh)
  with assms show "lock_tree (h(new \<mapsto> m, a \<mapsto> n')) root t" "(h(new \<mapsto> m)) a = Some n"
    "(h(new \<mapsto> m, a \<mapsto> n')) new = Some m"
    by (auto intro: lock_tree_data_upd)
qed

lemma cut_after:
  assumes "interval_tree h root t" "inorder t = us @ a # vs" "h a = Some n"
    and "n_start n \<le> ts" "ts < n_end n" "new \<notin> set_tree t"
  shows "\<exists>h' root' t'. cut_after (h, new) a ts = Some ((h', Suc new), root')
    \<and> interval_tree h' root' t' \<and> inorder t' = us @ a # new # vs \<and> tree_split h t a new h' t'
    \<and> data h' a = Some (n_status n, n_start n, ts, n_tids n)
    \<and> data h' new = Some (n_status n, ts + 1, n_end n, n_tids n)"
proof -
  define c where "c = (copy_node n)\<lparr>n_start := ts + 1, n_end := n_end n\<rparr>"
  define h2 where "h2 = h(new \<mapsto> c, a \<mapsto> n\<lparr>n_end := ts\<rparr>)"
  from assms(1) have sg: "seg h (us @ a # vs) 0 18446744073709551616" "distinct (us @ a # vs)"
    by (auto simp: interval_tree_def lock_tree_def tree_in_def assms(2))
  have a: "a \<in> set_tree t" "new \<notin> set (us @ a # vs)" "new \<noteq> a"
    using assms(2,6) by (auto simp flip: set_inorder)
  from cut_prepare [OF assms(1) a(1) assms(3,6), of "n\<lparr>n_end := ts\<rparr>" c]
  have h2: "lock_tree h2 root t" "(h(new \<mapsto> c)) a = Some n" "h2 new = Some c"
    by (simp_all add: h2_def node_links_def)
  have ks: "unat (ts + 1) = Suc (unat ts)" "ts < ts + 1"
    using unat_succ [OF assms(5)] by (simp_all add: word_less_nat_alt)
  have le: "\<not> key_of h2 new < key_of h2 a"
    using ks(2) assms(4) h2(3) by (simp add: key_of_def h2_def c_def a(3))
  from sg(1) assms(3) have vs: "seg h vs (Suc (unat (n_end n))) 18446744073709551616"
    by (auto simp: seg_append)
  have gt: "\<forall>y\<in>set vs. key_of h2 new < key_of h2 y"
  proof
    fix y assume y: "y \<in> set vs"
    with seg_bounds [OF vs y] a sg(2) ks(1) assms(5) h2(3) show "key_of h2 new < key_of h2 y"
      by (auto simp: key_of_def h2_def c_def word_less_nat_alt)
  qed
  have un: "unlinked c" by (simp add: c_def copy_node_def unlinked_def)
  from insert_after [OF h2(1) assms(2) h2(3) un assms(6) le gt] obtain h' root' t' where
    i: "node_insert h2 a new = Some (h', root')" "lock_tree h' root' t'"
    "inorder t' = us @ a # new # vs" "relinked (insert new (set_tree t)) h2 h'" by blast
  then have set: "set_tree t' = insert new (set_tree t)"
    using assms(2) by (auto simp flip: set_inorder)
  have d: "data h' x = data h2 x" for x using relinked_data [OF i(4)] .
  then have sp: "tree_split h t a new h' t'"
    using relinked_other [OF i(4)] a(1) set by (auto simp: tree_split_def h2_def)
  have da: "data h' a = Some (n_status n, n_start n, ts, n_tids n)"
    and dn: "data h' new = Some (n_status n, ts + 1, n_end n, n_tids n)"
    using d [of a] d [of new] h2(3) a(3) by (simp_all add: h2_def node_data_def c_def copy_node_def)
  have "seg h' (us @ a # new # vs) 0 18446744073709551616"
    using sg(1) assms(3-5) ks(1) seg_split_other [OF sg a(2), of h'] sp
    by (auto simp: seg_append seg_data [where h=h' and a=a, OF da] seg_data [where h=h' and a=new, OF dn] tree_split_def word_le_nat_alt word_less_nat_alt
      simp del: seg.simps(2) simp: seg.simps(2) [of h a])
  with i(2,3) have "interval_tree h' root' t'" by (simp add: interval_tree_def)
  moreover have "cut_after (h, new) a ts = Some ((h', Suc new), root')"
    using i(1) h2(2) assms(3) using a(3) by (simp add: cut_after_def upd_def h2_def [symmetric] c_def [symmetric] fun_upd_twist)
  ultimately show ?thesis using i(3) sp da dn by blast
qed

lemma cut_before:
  assumes "interval_tree h root t" "inorder t = us @ a # vs" "h a = Some n"
    and "n_start n < ts" "ts \<le> n_end n" "new \<notin> set_tree t"
  shows "\<exists>h' root' t'. cut_before (h, new) a ts = Some ((h', Suc new), root')
    \<and> interval_tree h' root' t' \<and> inorder t' = us @ new # a # vs \<and> tree_split h t a new h' t'
    \<and> data h' a = Some (n_status n, ts, n_end n, n_tids n)
    \<and> data h' new = Some (n_status n, n_start n, ts - 1, n_tids n)"
proof -
  define c where "c = (copy_node n)\<lparr>n_end := ts - 1\<rparr>"
  define h2 where "h2 = h(new \<mapsto> c, a \<mapsto> n\<lparr>n_start := ts\<rparr>)"
  from assms(1) have sg: "seg h (us @ a # vs) 0 18446744073709551616" "distinct (us @ a # vs)"
    by (auto simp: interval_tree_def lock_tree_def tree_in_def assms(2))
  have a: "a \<in> set_tree t" "new \<notin> set (us @ a # vs)" "new \<noteq> a"
    using assms(2,6) by (auto simp flip: set_inorder)
  from cut_prepare [OF assms(1) a(1) assms(3,6), of "n\<lparr>n_start := ts\<rparr>" c]
  have h2: "lock_tree h2 root t" "(h(new \<mapsto> c)) a = Some n" "h2 new = Some c"
    by (simp_all add: h2_def node_links_def)
  have ks: "unat (ts - 1) = unat ts - 1" "unat (n_start n) < unat ts"
    using assms(4) unat_pred [of ts] by (cases "ts = 0"; simp add: word_less_nat_alt)+
  have less: "key_of h2 new < key_of h2 a"
    using assms(4) h2(3) by (simp add: key_of_def h2_def c_def copy_node_def a(3))
  from sg(1) assms(3) have us: "seg h us 0 (unat (n_start n))"
    by (auto simp: seg_append)
  have le: "\<forall>y\<in>set us. \<not> key_of h2 new < key_of h2 y"
  proof
    fix y assume y: "y \<in> set us"
    with seg_bounds [OF us y] a sg(2) h2(3) show "\<not> key_of h2 new < key_of h2 y"
      by (auto simp: key_of_def h2_def c_def copy_node_def word_less_nat_alt word_le_nat_alt)
  qed
  have un: "unlinked c" by (simp add: c_def copy_node_def unlinked_def)
  from insert_before [OF h2(1) assms(2) h2(3) un assms(6) less le] obtain h' root' t' where
    i: "node_insert h2 a new = Some (h', root')" "lock_tree h' root' t'"
    "inorder t' = us @ new # a # vs" "relinked (insert new (set_tree t)) h2 h'" by blast
  then have set: "set_tree t' = insert new (set_tree t)"
    using assms(2) by (auto simp flip: set_inorder)
  have d: "data h' x = data h2 x" for x using relinked_data [OF i(4)] .
  then have sp: "tree_split h t a new h' t'"
    using relinked_other [OF i(4)] a(1) set by (auto simp: tree_split_def h2_def)
  have da: "data h' a = Some (n_status n, ts, n_end n, n_tids n)"
    and dn: "data h' new = Some (n_status n, n_start n, ts - 1, n_tids n)"
    using d [of a] d [of new] h2(3) a(3) by (simp_all add: h2_def node_data_def c_def copy_node_def)
  have "seg h' (us @ new # a # vs) 0 18446744073709551616"
    using sg(1) assms(3-5) ks seg_split_other [OF sg a(2), of h'] sp
    by (auto simp: seg_append seg_data [where h=h' and a=a, OF da] seg_data [where h=h' and a=new, OF dn]
      tree_split_def word_le_nat_alt word_less_nat_alt
      simp del: seg.simps(2) simp: seg.simps(2) [of h a])
  with i(2,3) have "interval_tree h' root' t'" by (simp add: interval_tree_def)
  moreover have "cut_before (h, new) a ts = Some ((h', Suc new), root')"
    using i(1) h2(2) assms(3) a(3)
    by (simp add: cut_before_def upd_def h2_def [symmetric] c_def [symmetric] fun_upd_twist)
  ultimately show ?thesis using i(3) sp da dn by blast
qed

end
