(* ===== verification/Lock_Backward.thy ===== *)
theory Lock_Backward
  imports Lock_Table
begin

text \<open>
  The walk of \<open>tryBackwardLock\<close> over the tree of one key: it acquires every time from
  \<open>ts_end\<close> down to the nearest time whose lock does not admit the request.
\<close>

section \<open>Trees of a key\<close>

text \<open>The first interval of a key is \<open>[0, 0]\<close> and frozen for writing: the initial version.\<close>

definition key_tree :: "heap \<Rightarrow> addr \<Rightarrow> addr tree \<Rightarrow> bool" where
  "key_tree h root t \<longleftrightarrow> interval_tree h root t
     \<and> (\<exists>a xs. inorder t = a # xs \<and> data h a = Some (FREEZE_WRITE_LOCK, 0, 0, {}))"

lemma key_tree_interval: "key_tree h root t \<Longrightarrow> interval_tree h root t"
  by (simp add: key_tree_def)

lemma key_tree_seg:
  "key_tree h root t \<Longrightarrow> inorder t = us @ vs \<Longrightarrow>
   \<exists>k. seg h us 0 k \<and> seg h vs k 18446744073709551616"
  by (auto simp: key_tree_def interval_tree_def seg_append)

lemma key_tree_distinct: "key_tree h root t \<Longrightarrow> distinct (inorder t)"
  by (auto simp: key_tree_def interval_tree_def lock_tree_def tree_in_def)

lemma key_tree_zero:
  assumes "key_tree h root t" "b \<in> set_tree t" "h b = Some n" "n_start n = 0"
  shows "data h b = Some (FREEZE_WRITE_LOCK, 0, 0, {})"
proof -
  from assms(1) obtain a xs where a: "inorder t = a # xs" "data h a = Some (FREEZE_WRITE_LOCK, 0, 0, {})"
    "seg h ([] @ a # xs) 0 18446744073709551616"
    by (auto simp: key_tree_def interval_tree_def)
  then have "covers h a 0" by (simp add: covers_iff [where h=h and a=a])
  moreover have "covers h b 0" using assms(3,4) by (simp add: covers_def)
  moreover have "b \<in> set ([] @ a # xs)" using assms(2) a(1) set_inorder [of t] by simp
  ultimately have "b = a" using seg_covers_unique [OF a(3)] by blast
  with a(2) show ?thesis by simp
qed

lemma key_tree_status:
  assumes "key_tree h root t" "h a = Some n" "n_status n \<noteq> FREEZE_WRITE_LOCK"
    and "node_links n' = node_links n" "n_start n' = n_start n" "n_end n' = n_end n"
  shows "key_tree (h(a \<mapsto> n')) root t"
proof -
  from assms(1) obtain c xs where c: "inorder t = c # xs" "data h c = Some (FREEZE_WRITE_LOCK, 0, 0, {})"
    by (auto simp: key_tree_def)
  with assms(2,3) have "c \<noteq> a" by (auto simp: node_data_def)
  with c interval_tree_status [OF key_tree_interval [OF assms(1)] assms(2,4-6)]
  show ?thesis by (auto simp: key_tree_def)
qed

lemma key_tree_other:
  assumes "key_tree h root t" "\<And>x. x \<in> set_tree t \<Longrightarrow> h' x = h x"
  shows "key_tree h' root t" "cell_at h' root ts = cell_at h root ts"
proof -
  from assms(1) obtain a xs where a: "inorder t = a # xs" "data h a = Some (FREEZE_WRITE_LOCK, 0, 0, {})"
    by (auto simp: key_tree_def)
  then have "h' a = h a" using assms(2) [of a] set_inorder [of t] by auto
  with a interval_tree_other [OF key_tree_interval [OF assms(1)] assms(2)]
  show "key_tree h' root t" "cell_at h' root ts = cell_at h root ts"
    by (auto simp: key_tree_def)
qed

lemma key_tree_cell_0: "key_tree h root t \<Longrightarrow> cell_at h root 0 = Some (FREEZE_WRITE_LOCK, {})"
proof -
  assume kt: "key_tree h root t"
  from covers_exists [OF key_tree_interval [OF kt], of 0] obtain a n where
    a: "a \<in> set_tree t" "h a = Some n" "covers h a 0" by blast
  then have "n_start n = 0" by (simp add: covers_def)
  from key_tree_zero [OF kt a(1,2) this] cell_at_covers [OF key_tree_interval [OF kt] a(1,3,2)] a(2)
  show ?thesis by (simp add: node_data_def)
qed

lemma key_tree_split:
  assumes "key_tree h root t" "interval_tree h' root' t'" "tree_split h t a new h' t'"
    and "h a = Some n" "n_status n \<noteq> FREEZE_WRITE_LOCK" "new \<notin> set_tree t" "a \<in> set_tree t"
    and "inorder t = us @ a # vs" "inorder t' = us @ a # new # vs \<or> inorder t' = us @ new # a # vs"
  shows "key_tree h' root' t'"
proof -
  from assms(1) obtain c xs where c: "inorder t = c # xs" "data h c = Some (FREEZE_WRITE_LOCK, 0, 0, {})"
    by (auto simp: key_tree_def)
  then have "c \<noteq> a" using assms(4,5) by (auto simp: node_data_def)
  moreover have "c \<noteq> new" using c(1) assms(6) set_inorder [of t] by auto
  ultimately have "data h' c = Some (FREEZE_WRITE_LOCK, 0, 0, {})"
    using assms(3) c(2) by (simp add: tree_split_def)
  moreover from c(1) \<open>c \<noteq> a\<close> assms(8) obtain us' where "us = c # us'" by (cases us) auto
  with assms(9) have "\<exists>ys. inorder t' = c # ys" by auto
  ultimately show ?thesis using assms(2) by (auto simp: key_tree_def)
qed

text \<open>
  One step back in a walk: after the node on top of the stack was visited, \<open>find\<close> leads to
  the node before it, which ends right before it starts.
\<close>

lemma step_back:
  assumes "key_tree h root t" "inorder t = (zs @ [z]) @ a # vs" "stk h (locks @ [a]) ((zs @ [z]) @ [a])"
    and "h a = Some n" "n_start n \<noteq> 0" "node_links n' = node_links n" "n_start n' = n_start n"
  shows "\<exists>locks'. node_find (h(a \<mapsto> n')) a locks (n_start n - 1) = Some locks'
    \<and> stk (h(a \<mapsto> n')) locks' (zs @ [z])
    \<and> covers (h(a \<mapsto> n')) z (n_start n - 1)
    \<and> (\<forall>m. (h(a \<mapsto> n')) z = Some m \<longrightarrow> n_end m = n_start n - 1)"
proof -
  let ?h = "h(a \<mapsto> n')"
  have stk': "stk ?h (locks @ [a]) ((zs @ [z]) @ [a])"
    using stk_data_upd [OF assms(3,4,6)] .
  from key_tree_seg [OF assms(1), of "zs @ [z]" "a # vs"] assms(2,4)
  have sg: "seg h (zs @ [z]) 0 (unat (n_start n))" by auto
  from key_tree_distinct [OF assms(1)] assms(2) have "a \<notin> set (zs @ [z])" by auto
  then have "seg ?h (zs @ [z]) 0 (unat (n_start n)) = seg h (zs @ [z]) 0 (unat (n_start n))"
    by (intro seg_cong) auto
  with find_back [OF stk', of 0 n'] sg assms(5,7) obtain locks' where
    f: "node_find ?h a locks (n_start n - 1) = Some locks'" "stk ?h locks' (zs @ [z])" by auto
  obtain mz where z: "h z = Some mz" "n_start mz \<le> n_end mz" "Suc (unat (n_end mz)) = unat (n_start n)"
    using sg by (auto simp: seg_append split: option.splits)
  have "n_end mz = n_start n - 1"
    using z(3) unat_pred [OF assms(5)] by (simp add: word_unat_eq_iff)
  with z f \<open>a \<notin> set (zs @ [z])\<close> show ?thesis by (auto simp: covers_def)
qed

section \<open>Admission\<close>

text \<open>A read passes over reads, a write only over free times.\<close>

definition passes :: "bool \<Rightarrow> lock_status \<Rightarrow> bool" where
  "passes is_read s \<longleftrightarrow> s = FREE \<or> is_read \<and> (s = READ_LOCK \<or> s = FREEZE_READ_LOCK)"

text \<open>A request that does not pass waits for an unfrozen holder.\<close>

definition waits :: "bool \<Rightarrow> lock_status \<Rightarrow> bool" where
  "waits is_read s \<longleftrightarrow> s = WRITE_LOCK \<or> \<not> is_read \<and> s = READ_LOCK"

definition acquire :: "bool \<Rightarrow> u64 \<Rightarrow> cell \<Rightarrow> cell" where
  "acquire is_read tid c =
    (case fst c of
       FREE \<Rightarrow> (if is_read then READ_LOCK else WRITE_LOCK, insert tid (snd c))
     | READ_LOCK \<Rightarrow> (READ_LOCK, insert tid (snd c))
     | s \<Rightarrow> c)"

lemma backward_visit_passes:
  assumes "passes is_read (n_status n)"
  shows "\<exists>n'. backward_visit is_read tid cur n = (n', n_start n - 1, False)
    \<and> (n_status n', n_tids n') = acquire is_read tid (n_status n, n_tids n)
    \<and> node_links n' = node_links n \<and> n_start n' = n_start n \<and> n_end n' = n_end n
    \<and> (n_status n = FREEZE_READ_LOCK \<longrightarrow> n' = n)"
  using assms
  by (cases "n_status n") (auto simp: backward_visit_def passes_def acquire_def node_links_def)

lemma backward_visit_stops:
  assumes "\<not> passes is_read (n_status n)"
  shows "backward_visit is_read tid cur n = (n, cur, waits is_read (n_status n))"
  using assms by (cases "n_status n") (auto simp: backward_visit_def passes_def waits_def)

section \<open>The loop\<close>

text \<open>
  What the walk from \<open>cur\<close> achieves: it stops at \<open>stop\<close>, in a node with the end \<open>e\<close> that does
  not admit the request, having acquired all later times up to \<open>cur\<close>.
\<close>

definition walked ::
    "bool \<Rightarrow> u64 \<Rightarrow> heap \<Rightarrow> addr \<Rightarrow> addr tree \<Rightarrow> u64 \<Rightarrow> heap \<Rightarrow> u64 \<Rightarrow> lock_node \<Rightarrow> bool" where
  "walked is_read tid h root t cur h' stop n \<longleftrightarrow>
     key_tree h' root t \<and> (\<forall>x. x \<notin> set_tree t \<longrightarrow> h' x = h x) \<and> stop \<le> cur
     \<and> (\<exists>b. b \<in> set_tree t \<and> h b = Some n \<and> h' b = Some n \<and> covers h b stop
           \<and> \<not> passes is_read (n_status n))
     \<and> (\<forall>ts. stop < ts \<and> ts \<le> cur \<longrightarrow>
           (\<exists>c. cell_at h root ts = Some c \<and> passes is_read (fst c)))
     \<and> (\<forall>ts. cell_at h' root ts =
           (if stop < ts \<and> ts \<le> cur then map_option (acquire is_read tid) (cell_at h root ts)
            else cell_at h root ts))"

lemma walked_stop:
  assumes "key_tree h root t" "a \<in> set_tree t" "h a = Some n" "covers h a cur"
    "\<not> passes is_read (n_status n)"
  shows "walked is_read tid h root t cur h cur n"
  using assms by (auto simp: walked_def)

lemma walked_step:
  assumes kt: "key_tree h root t" "a \<in> set_tree t" "h a = Some n" "covers h a cur"
    and p: "passes is_read (n_status n)" "n_status n = FREEZE_READ_LOCK \<or> n_end n = cur"
    and n': "(n_status n', n_tids n') = acquire is_read tid (n_status n, n_tids n)"
      "node_links n' = node_links n" "n_start n' = n_start n" "n_end n' = n_end n"
      "n_status n = FREEZE_READ_LOCK \<longrightarrow> n' = n"
    and w: "walked is_read tid (h(a \<mapsto> n')) root t (n_start n - 1) h' stop m"
  shows "walked is_read tid h root t cur h' stop m"
proof -
  have nz: "n_start n \<noteq> 0"
    using key_tree_zero [OF kt(1-3)] p(1) kt(3) by (auto simp: node_data_def passes_def)
  then have less: "x \<le> n_start n - 1 \<longleftrightarrow> x < n_start n" for x
    by (rule le_pred_iff)
  have c: "n_start n \<le> cur" "cur \<le> n_end n" using kt(3,4) by (auto simp: covers_def)
  from w have "stop < n_start n" by (simp add: walked_def less)
  have st: "cell_at (h(a \<mapsto> n')) root ts = (if n_start n \<le> ts \<and> ts \<le> n_end n
      then Some (n_status n', n_tids n') else cell_at h root ts)" for ts
    using cell_at_status [OF key_tree_interval [OF kt(1)] kt(2,3) n'(2-4)] .
  have own: "cell_at h root ts = Some (n_status n, n_tids n)" if "n_start n \<le> ts" "ts \<le> n_end n" for ts
    using cell_at_covers [OF key_tree_interval [OF kt(1)] kt(2) _ kt(3)] that kt(3) by (simp add: covers_def)
  from w obtain b where b: "b \<in> set_tree t" "(h(a \<mapsto> n')) b = Some m" "h' b = Some m"
    "covers (h(a \<mapsto> n')) b stop" "\<not> passes is_read (n_status m)"
    by (auto simp: walked_def)
  have "b \<noteq> a" using b(4) n'(3) \<open>stop < n_start n\<close> by (auto simp: covers_def)
  with b have b': "h b = Some m" "covers h b stop" by (auto simp: covers_def)
  have pass: "\<exists>c. cell_at h root ts = Some c \<and> passes is_read (fst c)" if "stop < ts" "ts \<le> cur" for ts
  proof (cases "n_start n \<le> ts")
    case True
    with own [OF this] that(2) c(2) p(1) show ?thesis by auto
  next
    case False
    with w that(1) obtain c where "cell_at (h(a \<mapsto> n')) root ts = Some c" "passes is_read (fst c)"
      by (auto simp: walked_def less)
    moreover from this st [of ts] False have "cell_at h root ts = Some c" by simp
    ultimately show ?thesis by blast
  qed
  have cells: "cell_at h' root ts = (if stop < ts \<and> ts \<le> cur
      then map_option (acquire is_read tid) (cell_at h root ts) else cell_at h root ts)" for ts
  proof -
    have hs: "cell_at h' root ts = (if stop < ts \<and> ts < n_start n
        then map_option (acquire is_read tid) (cell_at (h(a \<mapsto> n')) root ts)
        else cell_at (h(a \<mapsto> n')) root ts)"
      using w by (simp add: walked_def less)
    consider "ts < n_start n" | "n_start n \<le> ts" "ts \<le> n_end n" | "n_end n < ts" by fastforce
    then show ?thesis
    proof cases
      case 1
      then have "ts \<le> cur" using c(1) by simp
      with 1 hs st [of ts] show ?thesis by auto
    next
      case 2
      then have "stop < ts" using \<open>stop < n_start n\<close> by simp
      from p(2) show ?thesis
      proof
        assume "n_status n = FREEZE_READ_LOCK"
        with n'(5) kt(3) have "h(a \<mapsto> n') = h" by (simp add: fun_upd_idem)
        with hs 2 own [OF 2] \<open>n_status n = FREEZE_READ_LOCK\<close> show ?thesis by (simp add: acquire_def)
      next
        assume "n_end n = cur"
        with hs 2 own [OF 2] st [of ts] n'(1) \<open>stop < ts\<close> show ?thesis by auto
      qed
    next
      case 3
      then have "\<not> ts \<le> cur" "\<not> ts < n_start n" "\<not> ts \<le> n_end n" using c by auto
      with hs st [of ts] show ?thesis by simp
    qed
  qed
  show ?thesis
    using w b(1,3,5) b' pass cells kt(2) \<open>stop < n_start n\<close> c(1)
    by (auto simp: walked_def less_imp_le intro: order.trans)
qed

text \<open>The state and the result in which the loop ends when the walk stops in \<open>b\<close>.\<close>

definition backward_end ::
    "u64 \<Rightarrow> u64 \<Rightarrow> u64 \<Rightarrow> bool \<Rightarrow> event_id \<Rightarrow> lock_manager \<Rightarrow> heap \<Rightarrow> u64 \<Rightarrow> lock_node \<Rightarrow>
     lock_manager \<times> u64 \<times> bool \<times> bool" where
  "backward_end key tid ts_end is_read event m h' stop b =
     (let m' = m\<lparr>lm_heap := h'\<rparr>
      in (addTransactionLock
            (if waits is_read (n_status b) then addEvent m' key (n_end b) event else m')
            tid key (stop + 1) ts_end,
          stop, \<not> waits is_read (n_status b), False))"

lemma backward_loop_stop:
  assumes "lm_heap m a = Some n" "covers (lm_heap m) a cur" "\<not> passes is_read (n_status n)"
    and "n_start n = 0 \<Longrightarrow> n_end n = 0"
  shows "backward_loop key tid ts_end is_read event m (locks @ [a]) cur =
    Some (backward_end key tid ts_end is_read event m (lm_heap m) cur n)"
proof -
  have "cur \<noteq> n_start n - 1"
  proof
    assume cur: "cur = n_start n - 1"
    from assms(1,2) have c: "n_start n \<le> cur" "cur \<le> n_end n" by (auto simp: covers_def)
    show False
    proof (cases "n_start n = 0")
      case True
      with assms(4) c cur show False by auto
    next
      case False
      with c(1) cur le_pred_iff [OF False, of "n_start n - 1"] show False by simp
    qed
  qed
  with assms(1-3) show ?thesis
    by (subst backward_loop.simps)
      (auto simp: covers_def backward_visit_stops backward_end_def fun_upd_idem Let_def)
qed

text \<open>
  The loop started with a stack for the in-order prefix that ends in a node covering \<open>cur\<close>,
  which, when it admits the request, ends at \<open>cur\<close> or is frozen.
\<close>

lemma backward_loop_walk:
  assumes "key_tree (lm_heap m) root t" "inorder t = zs @ a # vs" "stk (lm_heap m) locks (zs @ [a])"
    and "lm_heap m a = Some n" "covers (lm_heap m) a cur"
    and "passes is_read (n_status n) \<Longrightarrow> n_status n = FREEZE_READ_LOCK \<or> n_end n = cur"
  shows "\<exists>h' stop b. walked is_read tid (lm_heap m) root t cur h' stop b
    \<and> backward_loop key tid ts_end is_read event m locks cur =
        Some (backward_end key tid ts_end is_read event m h' stop b)"
  using assms
proof (induction zs arbitrary: a vs m locks n cur rule: rev_induct)
  case Nil
  let ?h = "lm_heap m"
  from stk_last [OF Nil.prems(3)] obtain locks' where l: "locks = locks' @ [a]" by auto
  have a: "a \<in> set_tree t" using Nil.prems(2) set_inorder [of t] by auto
  from Nil.prems(1,2) have "data ?h a = Some (FREEZE_WRITE_LOCK, 0, 0, {})"
    by (auto simp: key_tree_def)
  with Nil.prems(4) have n: "n_status n = FREEZE_WRITE_LOCK" "n_end n = 0"
    by (auto simp: node_data_def)
  then have np: "\<not> passes is_read (n_status n)" by (simp add: passes_def)
  from walked_stop [OF Nil.prems(1) a Nil.prems(4,5) np]
    backward_loop_stop [OF Nil.prems(4,5) np n(2)] show ?case
    unfolding l by blast
next
  case (snoc z zs)
  let ?h = "lm_heap m"
  from stk_last [OF snoc.prems(3)] obtain locks' where l: "locks = locks' @ [a]" by auto
  have a: "a \<in> set_tree t" "z \<in> set_tree t" using snoc.prems(2) set_inorder [of t] by auto
  note zero = key_tree_zero [OF snoc.prems(1) a(1) snoc.prems(4)]
  show ?case
  proof (cases "passes is_read (n_status n)")
    case False
    have "n_start n = 0 \<Longrightarrow> n_end n = 0" using zero snoc.prems(4) by (auto simp: node_data_def)
    with walked_stop [OF snoc.prems(1) a(1) snoc.prems(4,5) False]
      backward_loop_stop [OF snoc.prems(4,5) False] show ?thesis
      unfolding l by blast
  next
    case True
    then have nz: "n_start n \<noteq> 0"
      using zero snoc.prems(4) by (auto simp: node_data_def passes_def)
    obtain n' where n': "backward_visit is_read tid cur n = (n', n_start n - 1, False)"
      "(n_status n', n_tids n') = acquire is_read tid (n_status n, n_tids n)"
      "node_links n' = node_links n" "n_start n' = n_start n" "n_end n' = n_end n"
      "n_status n = FREEZE_READ_LOCK \<longrightarrow> n' = n"
      using backward_visit_passes [OF True] by blast
    let ?m = "m\<lparr>lm_heap := ?h(a \<mapsto> n')\<rparr>"
    have nf: "n_status n \<noteq> FREEZE_WRITE_LOCK" using True by (auto simp: passes_def)
    have kt: "key_tree (lm_heap ?m) root t"
      using key_tree_status [OF snoc.prems(1,4) nf n'(3-5)] by simp
    from step_back [OF snoc.prems(1,2) _ snoc.prems(4) nz n'(3,4)] snoc.prems(3) obtain locks'' where
      f: "node_find (lm_heap ?m) a locks' (n_start n - 1) = Some locks''"
      "stk (lm_heap ?m) locks'' (zs @ [z])" "covers (lm_heap ?m) z (n_start n - 1)"
      "\<forall>m'. lm_heap ?m z = Some m' \<longrightarrow> n_end m' = n_start n - 1" unfolding l by auto
    from f(3) obtain mz where z: "lm_heap ?m z = Some mz" by (cases "lm_heap ?m z") (auto simp: covers_def)
    with f(4) have zend: "n_end mz = n_start n - 1" by blast
    have "inorder t = zs @ z # (a # vs)" using snoc.prems(2) by simp
    from snoc.IH [OF kt this f(2) z f(3)] zend obtain h' stop b where
      w: "walked is_read tid (lm_heap ?m) root t (n_start n - 1) h' stop b"
      "backward_loop key tid ts_end is_read event ?m locks'' (n_start n - 1) =
        Some (backward_end key tid ts_end is_read event ?m h' stop b)" by blast
    have "walked is_read tid ?h root t cur h' stop b"
      using walked_step [OF snoc.prems(1) a(1) snoc.prems(4,5) True snoc.prems(6) [OF True] n'(2-6)] w(1)
      by simp
    moreover have "backward_loop key tid ts_end is_read event m locks cur =
        Some (backward_end key tid ts_end is_read event m h' stop b)"
      using snoc.prems(4,5) n'(1) f(1) w(2)
      by (subst backward_loop.simps) (auto simp: l covers_def backward_end_def Let_def)
    ultimately show ?thesis by blast
  qed
qed

end
