(* ===== verification/Lock_State.thy ===== *)
theory Lock_State
  imports Lock_Backward
begin

text \<open>
  The state of the lock manager as a table of locks, one for every key and time, and the
  shape of the state that its operations keep: one tree of consecutive intervals per key,
  on disjoint nodes below the allocation pointer.
\<close>

section \<open>The lock table\<close>

definition initial_cell :: "u64 \<Rightarrow> cell" where
  "initial_cell ts = (if ts = 0 then FREEZE_WRITE_LOCK else FREE, {})"

text \<open>A key that has not been asked for yet counts as freshly created.\<close>

definition lock_at :: "lock_manager \<Rightarrow> u64 \<Rightarrow> u64 \<Rightarrow> cell" where
  "lock_at m key ts =
    (case lm_keys m key of
       None \<Rightarrow> initial_cell ts
     | Some ki \<Rightarrow> (case cell_at (lm_heap m) (ki_root ki) ts of None \<Rightarrow> (FREE, {}) | Some c \<Rightarrow> c))"

text \<open>The end of the interval around a time, and the events waiting for that interval.\<close>

definition end_at :: "heap \<Rightarrow> addr \<Rightarrow> u64 \<Rightarrow> u64 option" where
  "end_at h root ts = do {
     locks \<leftarrow> node_find h root [] ts;
     (a, _) \<leftarrow> pop_back locks;
     n \<leftarrow> h a;
     Some (n_end n)
   }"

definition interval_end :: "lock_manager \<Rightarrow> u64 \<Rightarrow> u64 \<Rightarrow> u64 option" where
  "interval_end m key ts =
    (case lm_keys m key of
       None \<Rightarrow> Some (if ts = 0 then 0 else - 1)
     | Some ki \<Rightarrow> end_at (lm_heap m) (ki_root ki) ts)"

definition waiters :: "lock_manager \<Rightarrow> u64 \<Rightarrow> u64 \<Rightarrow> event_id list" where
  "waiters m key ts =
    (case lm_keys m key of
       None \<Rightarrow> []
     | Some ki \<Rightarrow> (case end_at (lm_heap m) (ki_root ki) ts of
                     None \<Rightarrow> []
                   | Some e \<Rightarrow> events_at (ki_events ki) e))"

lemma end_at_covers:
  assumes "interval_tree h root t" "a \<in> set_tree t" "covers h a ts" "h a = Some n"
  shows "end_at h root ts = Some (n_end n)"
proof -
  from find_root [OF assms(1)] obtain us b vs locks where b: "inorder t = us @ b # vs"
    "covers h b ts" "node_find h root [] ts = Some locks" "stk h locks (us @ [b])" by metis
  have "seg h (us @ b # vs) 0 18446744073709551616"
    using assms(1) b(1) by (simp add: interval_tree_def)
  moreover have "a \<in> set (us @ b # vs)"
    using assms(2) set_inorder [of t] by (simp only: b(1))
  ultimately have "a = b"
    by (rule seg_covers_unique [OF _ b(2) _ assms(3)])
  with stk_last [OF b(4)] b(3) assms(4) show ?thesis by (auto simp: end_at_def)
qed

lemma end_at_other:
  assumes "interval_tree h root t" "\<And>x. x \<in> set_tree t \<Longrightarrow> h' x = h x"
  shows "end_at h' root ts = end_at h root ts"
proof -
  have it: "interval_tree h' root t" by (rule interval_tree_other(1) [OF assms])
  from covers_exists [OF assms(1), of ts] obtain b m where
    b: "b \<in> set_tree t" "h b = Some m" "covers h b ts" by blast
  with assms(2) [OF b(1)] have "h' b = Some m" "covers h' b ts" by (auto simp: covers_def)
  then show ?thesis
    using end_at_covers [OF assms(1) b(1,3,2)] end_at_covers [OF it b(1)] by auto
qed

section \<open>The shape of the state\<close>

text \<open>\<open>F\<close> names the tree of every key.\<close>

definition lm_shape :: "lock_manager \<Rightarrow> (u64 \<Rightarrow> addr tree) \<Rightarrow> bool" where
  "lm_shape m F \<longleftrightarrow>
     (\<forall>a. lm_heap m a \<noteq> None \<longrightarrow> a < lm_next m)
     \<and> (\<forall>k ki. lm_keys m k = Some ki \<longrightarrow> key_tree (lm_heap m) (ki_root ki) (F k))
     \<and> (\<forall>k k'. k \<noteq> k' \<longrightarrow> lm_keys m k \<noteq> None \<longrightarrow> lm_keys m k' \<noteq> None \<longrightarrow>
           set_tree (F k) \<inter> set_tree (F k') = {})"

lemma lm_shape_key: "lm_shape m F \<Longrightarrow> lm_keys m k = Some ki \<Longrightarrow> key_tree (lm_heap m) (ki_root ki) (F k)"
  by (simp add: lm_shape_def)

lemma lm_shape_fresh: "lm_shape m F \<Longrightarrow> lm_next m \<le> a \<Longrightarrow> lm_heap m a = None"
  by (metis lm_shape_def not_le option.exhaust)

lemma key_tree_heap: "key_tree h root t \<Longrightarrow> a \<in> set_tree t \<Longrightarrow> \<exists>n. h a = Some n"
  using seg_bounds [of h "inorder t"] by (fastforce simp: key_tree_def interval_tree_def)

lemma lm_shape_tree_below:
  "lm_shape m F \<Longrightarrow> lm_keys m k \<noteq> None \<Longrightarrow> a \<in> set_tree (F k) \<Longrightarrow> a < lm_next m"
proof -
  assume s: "lm_shape m F" "lm_keys m k \<noteq> None" "a \<in> set_tree (F k)"
  then obtain ki where "lm_keys m k = Some ki" by blast
  from key_tree_heap [OF lm_shape_key [OF s(1) this] s(3)] s(1) show ?thesis
    by (auto simp: lm_shape_def)
qed

lemma lm_shape_disjoint:
  "lm_shape m F \<Longrightarrow> k \<noteq> k' \<Longrightarrow> lm_keys m k \<noteq> None \<Longrightarrow> lm_keys m k' \<noteq> None \<Longrightarrow>
   x \<in> set_tree (F k) \<Longrightarrow> x \<notin> set_tree (F k')"
  unfolding lm_shape_def by blast

lemma lm_shape_init: "lm_shape lm_init F"
  by (simp add: lm_shape_def lm_init_def)

lemma lock_at_some:
  "lm_shape m F \<Longrightarrow> lm_keys m k = Some ki \<Longrightarrow>
   cell_at (lm_heap m) (ki_root ki) ts = Some (lock_at m k ts)"
  using cell_at_total [OF key_tree_interval [OF lm_shape_key], of m F k ki ts] by (auto simp: lock_at_def)

text \<open>
  The frame rule: an operation on one key that rebuilds its tree from its own nodes and
  fresh ones leaves the locks of all other keys alone.
\<close>

lemma lm_shape_update:
  assumes "lm_shape m F" "key_tree h' (ki_root ki) t'"
    and "\<forall>x. x \<notin> set_tree t' \<longrightarrow> h' x = lm_heap m x"
    and "set_tree t' \<subseteq> (if lm_keys m key = None then {} else set_tree (F key)) \<union> {lm_next m..<next'}"
    and "lm_next m \<le> next'"
    and m': "lm_heap m' = h'" "lm_next m' = next'" "lm_keys m' = (lm_keys m)(key \<mapsto> ki)"
  shows "lm_shape m' (F(key := t'))" "k \<noteq> key \<Longrightarrow> lock_at m' k = lock_at m k"
    "k \<noteq> key \<Longrightarrow> waiters m' k = waiters m k"
proof -
  have other: "x \<notin> set_tree t'" if "k \<noteq> key" "lm_keys m k \<noteq> None" "x \<in> set_tree (F k)" for k x
  proof
    assume "x \<in> set_tree t'"
    with assms(4) lm_shape_tree_below [OF assms(1) that(2,3)]
    have "lm_keys m key \<noteq> None" "x \<in> set_tree (F key)" by (auto split: if_splits)
    with lm_shape_disjoint [OF assms(1) that(1,2) _ that(3)] show False by blast
  qed
  have same: "key_tree h' (ki_root ki') (F k)" "cell_at h' (ki_root ki') ts = cell_at (lm_heap m) (ki_root ki') ts"
    "end_at h' (ki_root ki') ts = end_at (lm_heap m) (ki_root ki') ts"
    if "k \<noteq> key" "lm_keys m k = Some ki'" for k ki' ts
  proof -
    have "h' x = lm_heap m x" if "x \<in> set_tree (F k)" for x
      using other [OF \<open>k \<noteq> key\<close> _ that] \<open>lm_keys m k = Some ki'\<close> assms(3) by simp
    from key_tree_other [OF lm_shape_key [OF assms(1) that(2)] this]
      end_at_other [OF key_tree_interval [OF lm_shape_key [OF assms(1) that(2)]] this]
    show "key_tree h' (ki_root ki') (F k)" "cell_at h' (ki_root ki') ts = cell_at (lm_heap m) (ki_root ki') ts"
      "end_at h' (ki_root ki') ts = end_at (lm_heap m) (ki_root ki') ts"
      by blast+
  qed
  have "a < next'" if "h' a \<noteq> None" for a
  proof (cases "a \<in> set_tree t'")
    case True
    with assms(4) consider "lm_keys m key \<noteq> None" "a \<in> set_tree (F key)" | "a < next'"
      by (cases "lm_keys m key = None") (auto simp: subset_iff)
    then show ?thesis
    proof cases
      case 1
      from lm_shape_tree_below [OF assms(1) this] assms(5) show ?thesis by simp
    qed
  next
    case False
    with assms(1,3,5) that show ?thesis by (force simp: lm_shape_def)
  qed
  moreover have "key_tree h' (ki_root ki') ((F(key := t')) k)" if "lm_keys m' k = Some ki'" for k ki'
    using that m'(3) assms(2) same(1) by (cases "k = key") auto
  moreover have "set_tree ((F(key := t')) k) \<inter> set_tree ((F(key := t')) k') = {}"
    if "k \<noteq> k'" "lm_keys m' k \<noteq> None" "lm_keys m' k' \<noteq> None" for k k'
    using that m'(3) other lm_shape_disjoint [OF assms(1) that(1)]
    by (cases "k = key"; cases "k' = key") (auto simp: disjoint_iff)
  ultimately show "lm_shape m' (F(key := t'))"
    unfolding lm_shape_def m'(1,2) by blast
  show "lock_at m' k = lock_at m k" if "k \<noteq> key"
    using same(2) [OF that] that by (intro ext, cases "lm_keys m k") (simp_all add: lock_at_def m'(1,3))
  show "waiters m' k = waiters m k" if "k \<noteq> key"
    using same(3) [OF that] that by (intro ext, cases "lm_keys m k") (simp_all add: waiters_def m'(1,3))
qed

text \<open>Bookkeeping does not touch the trees.\<close>

definition same_trees :: "lock_manager \<Rightarrow> lock_manager \<Rightarrow> bool" where
  "same_trees m m' \<longleftrightarrow> lm_heap m' = lm_heap m \<and> lm_next m' = lm_next m
     \<and> (\<forall>k. map_option ki_root (lm_keys m' k) = map_option ki_root (lm_keys m k))"

lemma same_trees_shape: "same_trees m m' \<Longrightarrow> lm_shape m F \<Longrightarrow> lm_shape m' F"
proof -
  assume s: "same_trees m m'" "lm_shape m F"
  have k: "\<exists>ki'. lm_keys m k = Some ki' \<and> ki_root ki' = ki_root ki" if "lm_keys m' k = Some ki" for k ki
  proof -
    have "map_option ki_root (lm_keys m k) = Some (ki_root ki)"
      using s(1) that by (metis option.map(2) same_trees_def)
    then show ?thesis by auto
  qed
  show ?thesis
    unfolding lm_shape_def
  proof (intro conjI allI impI)
    fix a assume "lm_heap m' a \<noteq> None"
    with s show "a < lm_next m'" by (simp add: same_trees_def lm_shape_def)
  next
    fix k ki assume "lm_keys m' k = Some ki"
    with k [OF this] lm_shape_key [OF s(2), of k] s(1)
    show "key_tree (lm_heap m') (ki_root ki) (F k)" by (auto simp: same_trees_def)
  next
    fix k k' assume "k \<noteq> k'" "lm_keys m' k \<noteq> None" "lm_keys m' k' \<noteq> None"
    with k [of k] k [of k'] have "lm_keys m k \<noteq> None" "lm_keys m k' \<noteq> None" by auto
    with \<open>k \<noteq> k'\<close> s(2) show "set_tree (F k) \<inter> set_tree (F k') = {}" by (simp add: lm_shape_def)
  qed
qed

lemma same_trees_lock_at: "same_trees m m' \<Longrightarrow> lock_at m' k ts = lock_at m k ts"
proof -
  assume s: "same_trees m m'"
  then have "map_option ki_root (lm_keys m' k) = map_option ki_root (lm_keys m k)" "lm_heap m' = lm_heap m"
    by (auto simp: same_trees_def)
  then show ?thesis
    by (cases "lm_keys m k"; cases "lm_keys m' k") (auto simp: lock_at_def)
qed

lemma same_trees_trans: "same_trees m m' \<Longrightarrow> same_trees m' m'' \<Longrightarrow> same_trees m m''"
  by (simp add: same_trees_def)

lemma addTransactionLock_fields [simp]:
  "lm_heap (addTransactionLock m tid key s e) = lm_heap m"
  "lm_next (addTransactionLock m tid key s e) = lm_next m"
  "lm_keys (addTransactionLock m tid key s e) = lm_keys m"
  by (auto simp: addTransactionLock_def createTransactionInfo_def Let_def split: option.splits)

lemma addEvent_fields [simp]:
  "lm_heap (addEvent m key e ev) = lm_heap m"
  "lm_next (addEvent m key e ev) = lm_next m"
  "lm_trans (addEvent m key e ev) = lm_trans m"
  by (auto simp: addEvent_def Let_def split: option.splits)

lemma same_trees_bookkeeping [simp]:
  "same_trees m (addTransactionLock m tid key s e)"
  "same_trees m (addEvent m key e' ev)"
  by (auto simp: same_trees_def addEvent_def Let_def split: option.splits)

section \<open>Creating a key\<close>

lemma createKeyInfo_present: "lm_keys m key = Some ki \<Longrightarrow> createKeyInfo m key = Some m"
  by (simp add: createKeyInfo_def)

text \<open>The two nodes of a new key: \<open>[0, 0]\<close> frozen, everything else free.\<close>

lemma first_tree:
  fixes h :: heap
  defines "n0 \<equiv> new_node\<lparr>n_status := FREEZE_WRITE_LOCK, n_end := 0\<rparr>"
    and "n1 \<equiv> new_node\<lparr>n_start := 1\<rparr>"
  shows "\<exists>h' root t. node_insert (h(a \<mapsto> n0, Suc a \<mapsto> n1)) a (Suc a) = Some (h', root)
    \<and> key_tree h' root t \<and> set_tree t = {a, Suc a}
    \<and> (\<forall>x. x \<notin> {a, Suc a} \<longrightarrow> h' x = h x)
    \<and> (\<forall>ts. cell_at h' root ts = Some (initial_cell ts))
    \<and> (\<forall>ts. end_at h' root ts = Some (if ts = 0 then 0 else - 1))"
proof -
  let ?h = "h(a \<mapsto> n0, Suc a \<mapsto> n1)"
  have "lock_tree ?h a (Node Leaf a Leaf)"
    by (simp add: lock_tree_def tree_in_def n0_def new_node_def)
  moreover have "unlinked n1" "key_of ?h a = 0" "key_of ?h (Suc a) = 1" "?h (Suc a) = Some n1"
    by (simp_all add: unlinked_def n0_def n1_def new_node_def key_of_def)
  ultimately obtain h' root t where i: "node_insert ?h a (Suc a) = Some (h', root)"
    "lock_tree h' root t" "inorder t = [a, Suc a]" "relinked {a, Suc a} ?h h'"
    using insert_after [of ?h a "Node Leaf a Leaf" "[]" a "[]" "Suc a" n1]
    by (auto simp: insert_commute)
  have d: "data h' a = Some (FREEZE_WRITE_LOCK, 0, 0, {})" "data h' (Suc a) = Some (FREE, 1, - 1, {})"
    using relinked_data [OF i(4), of a] relinked_data [OF i(4), of "Suc a"]
    by (simp_all add: node_data_def n0_def n1_def new_node_def)
  have "seg h' [a, Suc a] 0 18446744073709551616"
    by (simp add: seg_data [where h=h' and a=a, OF d(1)] seg_data [where h=h' and a="Suc a", OF d(2)]
      unsigned_minus_1_eq_mask mask_eq_exp_minus_1 del: seg.simps(2))
  with i(2,3) have it: "interval_tree h' root t" by (simp add: interval_tree_def)
  have set: "set_tree t = {a, Suc a}" using set_inorder [of t] i(3) by simp
  have "cell_at h' root ts = Some (initial_cell ts) \<and> end_at h' root ts = Some (if ts = 0 then 0 else - 1)" for ts
  proof (cases "ts = 0")
    case True
    then have "covers h' a ts" by (simp add: covers_iff [where h=h' and a=a, OF d(1)])
    with cell_at_covers [OF it _ this] end_at_covers [OF it _ this] d(1) set True show ?thesis
      by (auto simp: initial_cell_def node_data_def)
  next
    case False
    then have "1 \<le> ts" by (simp add: word_le_nat_alt unat_gt_0 Suc_le_eq)
    then have "covers h' (Suc a) ts" by (simp add: covers_iff [where h=h' and a="Suc a", OF d(2)])
    with cell_at_covers [OF it _ this] end_at_covers [OF it _ this] d(2) set False show ?thesis
      by (auto simp: initial_cell_def node_data_def)
  qed
  moreover have "key_tree h' root t" using it i(3) d(1) by (simp add: key_tree_def)
  moreover have "\<forall>x. x \<notin> {a, Suc a} \<longrightarrow> h' x = h x" using relinked_other [OF i(4)] by auto
  ultimately show ?thesis using i(1) set by blast
qed

lemma createKeyInfo_ok:
  assumes "lm_shape m F"
  shows "\<exists>m' F' ki. createKeyInfo m key = Some m' \<and> lm_shape m' F' \<and> lm_keys m' key = Some ki
    \<and> lock_at m' = lock_at m \<and> lm_trans m' = lm_trans m
    \<and> interval_end m' key = interval_end m key \<and> waiters m' = waiters m
    \<and> (\<forall>k ki. lm_keys m k = Some ki \<longrightarrow> lm_keys m' k = Some ki)"
proof (cases "lm_keys m key")
  case (Some ki)
  with assms show ?thesis by (auto simp: createKeyInfo_present)
next
  case None
  from first_tree [of "lm_heap m" "lm_next m"] obtain h' root t where
    i: "node_insert ((lm_heap m)(lm_next m \<mapsto> new_node\<lparr>n_status := FREEZE_WRITE_LOCK, n_end := 0\<rparr>,
          Suc (lm_next m) \<mapsto> new_node\<lparr>n_start := 1\<rparr>)) (lm_next m) (Suc (lm_next m)) = Some (h', root)"
    "key_tree h' root t" "set_tree t = {lm_next m, Suc (lm_next m)}"
    "\<forall>x. x \<notin> {lm_next m, Suc (lm_next m)} \<longrightarrow> h' x = lm_heap m x"
    "\<forall>ts. cell_at h' root ts = Some (initial_cell ts)"
    "\<forall>ts. end_at h' root ts = Some (if ts = 0 then 0 else - 1)" by blast
  define ki where "ki = \<lparr>ki_events = Map.empty, ki_root = root\<rparr>"
  define m' where "m' = m\<lparr>lm_heap := h', lm_next := Suc (Suc (lm_next m)), lm_keys := (lm_keys m)(key \<mapsto> ki)\<rparr>"
  have c: "createKeyInfo m key = Some m'"
    using None i(1) by (simp add: createKeyInfo_def m'_def ki_def Let_def)
  have kt: "key_tree h' (ki_root ki) t" using i(2) by (simp add: ki_def)
  have sub: "set_tree t \<subseteq> (if lm_keys m key = None then {} else set_tree (F key)) \<union> {lm_next m..<Suc (Suc (lm_next m))}"
    using i(3) by auto
  have oth: "\<forall>x. x \<notin> set_tree t \<longrightarrow> h' x = lm_heap m x" using i(3,4) by simp
  note u = lm_shape_update [OF assms kt oth sub, of m']
  have "lm_shape m' (F(key := t))" by (rule u(1)) (simp_all add: m'_def)
  moreover have "lock_at m' k ts = lock_at m k ts" for k ts
  proof (cases "k = key")
    case True
    with None i(5) show ?thesis by (simp add: lock_at_def m'_def ki_def)
  next
    case False
    then have "lock_at m' k = lock_at m k" by (intro u(2)) (simp_all add: m'_def)
    then show ?thesis by simp
  qed
  moreover have "lm_trans m' = lm_trans m" "lm_keys m' key = Some ki"
    "\<forall>k ki. lm_keys m k = Some ki \<longrightarrow> lm_keys m' k = Some ki"
    using None by (simp_all add: m'_def)
  moreover have "interval_end m' key = interval_end m key"
    using None i(6) by (intro ext) (simp add: interval_end_def m'_def ki_def)
  moreover have "waiters m' = waiters m"
  proof (intro ext)
    fix k ts show "waiters m' k ts = waiters m k ts"
    proof (cases "k = key")
      case True
      with None i(6) show ?thesis by (simp add: waiters_def m'_def ki_def events_at_def)
    next
      case False
      then have "waiters m' k = waiters m k" by (intro u(3)) (simp_all add: m'_def)
      then show ?thesis by simp
    qed
  qed
  ultimately show ?thesis using c by (metis ext)
qed

end
