(* ===== verification/Lock_Events.thy ===== *)
theory Lock_Events
  imports Lock_Manager
begin

text \<open>
  Which events the lock manager can hand back: only those that were registered by a refused
  request.  The results say how the set of registered events changes in each operation.
\<close>

definition registered :: "lock_manager \<Rightarrow> event_id set" where
  "registered m = (\<Union>k. case lm_keys m k of None \<Rightarrow> {} | Some ki \<Rightarrow> (\<Union>t. set (events_at (ki_events ki) t)))"

lemma registered_init: "registered lm_init = {}"
  by (simp add: registered_def lm_init_def)

lemma registered_key:
  "lm_keys m k = Some ki \<Longrightarrow> set (events_at (ki_events ki) t) \<subseteq> registered m"
  unfolding registered_def by (rule subsetI, rule UN_I [of k]) auto

lemma registeredI:
  assumes "\<And>k ki t. lm_keys m' k = Some ki \<Longrightarrow> set (events_at (ki_events ki) t) \<subseteq> E"
  shows "registered m' \<subseteq> E"
  using assms by (fastforce simp: registered_def split: option.splits)

lemma registered_cong: "lm_keys m' = lm_keys m \<Longrightarrow> registered m' = registered m"
  by (simp add: registered_def)

section \<open>Releasing\<close>

lemma set_fold_insort: "set (fold insort_insert es evs) = set es \<union> set evs"
  by (induction es arbitrary: evs) (auto simp: set_insort_insert)

lemma interval_loop_events:
  assumes "interval_loop visit s h locks e evs = Some y" "\<forall>n. set (snd (visit n)) \<subseteq> E"
  shows "set (snd y) \<subseteq> set evs \<union> E"
proof -
  let ?P = "\<lambda>visit s h locks e evs y. (\<forall>n. set (snd (visit n)) \<subseteq> E) \<longrightarrow> set (snd y) \<subseteq> set evs \<union> E"
  have "?P visit s h locks e evs y"
  proof (rule interval_loop.raw_induct [where P = ?P, OF _ assms(1)])
    fix loop visit s h locks e evs y
    assume IH: "\<And>visit s h locks e evs y. loop visit s h locks e evs = Some y \<Longrightarrow> ?P visit s h locks e evs y"
      and body: "(if e < s then Some (h, evs)
        else pop_back locks \<bind> (\<lambda>(a, locks). h a \<bind> (\<lambda>n.
          let (n', es) = visit n; h = h(a \<mapsto> n'); ts_end = n_start n - 1
          in node_find h a locks ts_end \<bind> (\<lambda>locks.
             loop visit s h locks ts_end (fold insort_insert es evs))))) = Some y"
    show "?P visit s h locks e evs y"
    proof (cases "e < s")
      case True
      with body show ?thesis by auto
    next
      case False
      with body obtain a locks1 n where n: "(let (n', es) = visit n; h = h(a \<mapsto> n'); ts_end = n_start n - 1
          in node_find h a locks1 ts_end \<bind> (\<lambda>locks.
             loop visit s h locks ts_end (fold insort_insert es evs))) = Some y"
        by (auto simp: bind_eq_Some_conv)
      obtain n' es where v1: "visit n = (n', es)" by (cases "visit n")
      with n obtain locks2 where
        v: "visit n = (n', es)" "loop visit s (h(a \<mapsto> n')) locks2 (n_start n - 1) (fold insort_insert es evs) = Some y"
        by (auto simp: bind_eq_Some_conv Let_def)
      show ?thesis
      proof
        assume fair: "\<forall>n. set (snd (visit n)) \<subseteq> E"
        then have "set es \<subseteq> E" using v(1) by (metis snd_conv)
        with IH [OF v(2)] fair show "set (snd y) \<subseteq> set evs \<union> E" by (auto simp: set_fold_insort)
      qed
    qed
  qed
  with assms(2) show ?thesis by blast
qed

text \<open>The visitors hand out nothing but the events of the interval they visit.\<close>

definition fair_visitor :: "visitor \<Rightarrow> bool" where
  "fair_visitor visit \<longleftrightarrow> (\<forall>es n. \<exists>t. set (snd (visit es n)) \<subseteq> set (events_at es t))"

lemma fair_freeze: "fair_visitor (freeze_visit tid)"
  by (auto simp: fair_visitor_def freeze_visit_def split: lock_status.split)

lemma fair_unlock: "fair_visitor (unlock_visit tid)"
  by (auto simp: fair_visitor_def unlock_visit_def split: lock_status.split)

lemma release_intervals_events:
  "release_intervals visit m ivs evs = Some (m', evs') \<Longrightarrow> fair_visitor visit \<Longrightarrow>
   lm_keys m' = lm_keys m \<and> set evs' \<subseteq> set evs \<union> registered m"
proof (induction visit m ivs evs rule: release_intervals.induct)
  case (2 visit m key s e ivs evs)
  show ?case
  proof (cases "lm_keys m key")
    case None
    with 2 show ?thesis by simp
  next
    case (Some ki)
    with 2(3) obtain locks h es where l: "node_find (lm_heap m) (ki_root ki) [] e = Some locks"
      "interval_loop (visit (ki_events ki)) s (lm_heap m) locks e evs = Some (h, es)"
      "release_intervals visit (m\<lparr>lm_heap := h\<rparr>) ivs es = Some (m', evs')"
      by (auto simp: bind_eq_Some_conv)
    have "\<forall>n. set (snd (visit (ki_events ki) n)) \<subseteq> registered m"
      using 2(4) registered_key [OF Some] unfolding fair_visitor_def by blast
    from interval_loop_events [OF l(2) this] have "set es \<subseteq> set evs \<union> registered m" by simp
    moreover have "registered (m\<lparr>lm_heap := h\<rparr>) = registered m" by (rule registered_cong) simp
    ultimately show ?thesis using 2(2) [OF Some l(1,2) refl l(3) 2(4)] by auto
  qed
qed simp

lemma released_events:
  assumes "fair_visitor visit"
    and "(case lm_trans m tid of
       None \<Rightarrow> Some (m, [])
     | Some tr_info \<Rightarrow> do {
         (m, events) \<leftarrow> release_intervals visit m tr_info [];
         let m = m\<lparr>lm_trans := (lm_trans m)(tid \<mapsto> [])\<rparr>;
         Some (deleteTransactionInfo m tid, events)
       }) = Some (m', events)"
  shows "set events \<subseteq> registered m \<and> registered m' = registered m"
proof (cases "lm_trans m tid")
  case None
  with assms(2) show ?thesis by simp
next
  case (Some ivs)
  with assms(2) obtain m1 where r: "release_intervals visit m ivs [] = Some (m1, events)"
    "m' = deleteTransactionInfo (m1\<lparr>lm_trans := (lm_trans m1)(tid \<mapsto> [])\<rparr>) tid"
    by (auto simp: bind_eq_Some_conv)
  have "lm_keys m' = lm_keys m1" by (simp add: r(2) deleteTransactionInfo_def)
  with release_intervals_events [OF r(1) assms(1)] have "lm_keys m' = lm_keys m" "set events \<subseteq> registered m"
    by simp_all
  then show ?thesis using registered_cong by blast
qed

lemma freeze_events: "freeze m tid = Some (m', events) \<Longrightarrow> set events \<subseteq> registered m \<and> registered m' = registered m"
  unfolding freeze_def by (rule released_events [OF fair_freeze])

lemma unlock_events: "unlock m tid = Some (m', events) \<Longrightarrow> set events \<subseteq> registered m \<and> registered m' = registered m"
  unfolding unlock_def by (rule released_events [OF fair_unlock])

section \<open>Acquiring\<close>

lemma registered_eqI:
  assumes "\<And>k. (case lm_keys m' k of None \<Rightarrow> {} | Some ki \<Rightarrow> (\<Union>t. set (events_at (ki_events ki) t)))
    = (case lm_keys m k of None \<Rightarrow> {} | Some ki \<Rightarrow> (\<Union>t. set (events_at (ki_events ki) t)))"
  shows "registered m' = registered m"
  unfolding registered_def using assms by simp

lemma createKeyInfo_events:
  assumes "createKeyInfo m key = Some m'"
  shows "registered m' = registered m"
proof (cases "lm_keys m key")
  case None
  with assms obtain root where "lm_keys m' = (lm_keys m)(key \<mapsto> \<lparr>ki_events = Map.empty, ki_root = root\<rparr>)"
    by (auto simp: createKeyInfo_def bind_eq_Some_conv Let_def)
  with None show ?thesis by (intro registered_eqI) (simp add: events_at_def)
qed (use assms in \<open>simp add: createKeyInfo_def\<close>)

lemma set_root_events:
  assumes "set_root m key root = Some m'"
  shows "registered m' = registered m"
proof -
  from assms obtain ki where ki: "lm_keys m key = Some ki"
    "m' = m\<lparr>lm_keys := (lm_keys m)(key \<mapsto> ki\<lparr>ki_root := root\<rparr>)\<rparr>"
    by (auto simp: set_root_def bind_eq_Some_conv)
  then show ?thesis by (intro registered_eqI) simp
qed

lemma addEvent_events: "registered (addEvent m key t event) \<subseteq> insert event (registered m)"
proof (rule registeredI)
  fix k ki t' assume k: "lm_keys (addEvent m key t event) k = Some ki"
  show "set (events_at (ki_events ki) t') \<subseteq> insert event (registered m)"
  proof (cases "lm_keys m key")
    case None
    with k registered_key [of m k ki t'] show ?thesis by (auto simp: addEvent_def)
  next
    case (Some ki0)
    let ?es = "events_at (ki_events ki0) t"
    have m: "lm_keys (addEvent m key t event) = (lm_keys m)(key \<mapsto>
        ki0\<lparr>ki_events := (ki_events ki0)(t \<mapsto> insort_insert event ?es)\<rparr>)"
      using Some by (simp add: addEvent_def events_at_def Let_def)
    show ?thesis
    proof (cases "k = key")
      case True
      with k m have ki: "ki_events ki = (ki_events ki0)(t \<mapsto> insort_insert event ?es)" by auto
      have "set (events_at (ki_events ki) t') \<subseteq> insert event (set ?es) \<union> set (events_at (ki_events ki0) t')"
      proof -
        have "events_at (ki_events ki) t' = (if t' = t then insort_insert event ?es else events_at (ki_events ki0) t')"
          by (simp add: ki events_at_def)
        then show ?thesis by (auto simp: set_insort_insert)
      qed
      with registered_key [OF Some] show ?thesis by blast
    next
      case False
      with k m have "lm_keys m k = Some ki" by simp
      from registered_key [OF this] show ?thesis by blast
    qed
  qed
qed

lemma addTransactionLock_keys [simp]:
  "lm_keys (addTransactionLock m tid key s e) = lm_keys m"
  by (auto simp: addTransactionLock_def createTransactionInfo_def Let_def split: option.split)

lemma backward_loop_events:
  assumes "backward_loop key tid ts_end is_read event m locks cur_ts = Some y"
  shows "registered (fst y) \<subseteq> insert event (registered m)"
proof (rule backward_loop.raw_induct [where
    P = "\<lambda>key tid ts_end is_read event m locks cur_ts y. registered (fst y) \<subseteq> insert event (registered m)",
    OF _ assms])
  fix loop key tid ts_end is_read event m locks cur_ts and y :: "lock_manager \<times> u64 \<times> bool \<times> bool"
  assume IH: "\<And>key tid ts_end is_read event m locks cur_ts y.
      loop key tid ts_end is_read event m locks cur_ts = Some y \<Longrightarrow> registered (fst y) \<subseteq> insert event (registered m)"
    and body: "(if locks = [] then Some (m, cur_ts, True, False)
      else pop_back locks \<bind> (\<lambda>(a, locks). lm_heap m a \<bind> (\<lambda>n.
        if cur_ts < n_start n \<or> cur_ts > n_end n then Some (m, cur_ts, False, True)
        else let (n', cur_ts, blocked) = backward_visit is_read tid cur_ts n;
          m = m\<lparr>lm_heap := (lm_heap m)(a \<mapsto> n')\<rparr>;
          m = (if blocked then addEvent m key (n_end n) event else m)
          in if cur_ts \<noteq> n_start n - 1
           then Some (addTransactionLock m tid key (cur_ts + 1) ts_end, cur_ts, \<not> blocked, False)
           else node_find (lm_heap m) a locks cur_ts \<bind> (\<lambda>locks.
             loop key tid ts_end is_read event m locks cur_ts)))) = Some y"
  show "registered (fst y) \<subseteq> insert event (registered m)"
  proof (cases "locks = []")
    case True
    with body show ?thesis by auto
  next
    case False
    with body obtain a locks1 n where n: "lm_heap m a = Some n" and rest:
      "(if cur_ts < n_start n \<or> cur_ts > n_end n then Some (m, cur_ts, False, True)
        else let (n', cur_ts, blocked) = backward_visit is_read tid cur_ts n;
          m = m\<lparr>lm_heap := (lm_heap m)(a \<mapsto> n')\<rparr>;
          m = (if blocked then addEvent m key (n_end n) event else m)
          in if cur_ts \<noteq> n_start n - 1
           then Some (addTransactionLock m tid key (cur_ts + 1) ts_end, cur_ts, \<not> blocked, False)
           else node_find (lm_heap m) a locks1 cur_ts \<bind> (\<lambda>locks.
             loop key tid ts_end is_read event m locks cur_ts)) = Some y"
      by (auto simp: bind_eq_Some_conv)
    obtain n' ts' blocked where v: "backward_visit is_read tid cur_ts n = (n', ts', blocked)"
      by (cases "backward_visit is_read tid cur_ts n")
    define m0 where "m0 = m\<lparr>lm_heap := (lm_heap m)(a \<mapsto> n')\<rparr>"
    define m1 where "m1 = (if blocked then addEvent m0 key (n_end n) event else m0)"
    have "registered m0 = registered m" unfolding m0_def by (rule registered_cong) simp
    then have m1: "registered m1 \<subseteq> insert event (registered m)"
      using addEvent_events [of m0 key "n_end n" event] by (auto simp: m1_def)
    consider "y = (m, cur_ts, False, True)"
      | "y = (addTransactionLock m1 tid key (ts' + 1) ts_end, ts', \<not> blocked, False)"
      | locks2 where "loop key tid ts_end is_read event m1 locks2 ts' = Some y"
    proof (cases "cur_ts < n_start n \<or> cur_ts > n_end n")
      case True
      with rest that(1) show ?thesis by auto
    next
      case False
      have eq: "(if ts' \<noteq> n_start n - 1
         then Some (addTransactionLock m1 tid key (ts' + 1) ts_end, ts', \<not> blocked, False)
         else node_find (lm_heap m1) a locks1 ts' \<bind> (\<lambda>locks.
             loop key tid ts_end is_read event m1 locks ts')) = Some y"
        by (rule rest [unfolded if_not_P [OF False] v Let_def prod.case, folded m0_def, folded m1_def])
      show ?thesis
      proof (cases "ts' = n_start n - 1")
        case True
        with eq obtain locks2 where "loop key tid ts_end is_read event m1 locks2 ts' = Some y"
          by (simp add: bind_eq_Some_conv) blast
        then show ?thesis by (rule that(3))
      next
        case False
        with eq show ?thesis by (intro that(2)) simp
      qed
    qed
    then show ?thesis
    proof cases
      case 1
      then show ?thesis by auto
    next
      case 2
      have "registered (addTransactionLock m1 tid key (ts' + 1) ts_end) = registered m1"
        by (rule registered_cong) simp
      with 2 m1 show ?thesis by simp
    next
      case 3
      from IH [OF this] m1 show ?thesis by blast
    qed
  qed
qed

lemma tryBackwardLock_events:
  assumes "tryBackwardLock m key tid ts_end is_read event x = Some (m', b, ts)"
  shows "registered m' \<subseteq> insert event (registered m)"
proof -
  from assms obtain m1 h nxt locks m2 cur res failed where
    l: "createKeyInfo m key = Some m1"
    "backward_loop key tid ts_end is_read event (m1\<lparr>lm_heap := h, lm_next := nxt\<rparr>) locks ts_end
       = Some (m2, cur, res, failed)" "m' = m2 \<or> (\<exists>root. set_root m2 key root = Some m')"
    unfolding tryBackwardLock_def by (auto simp: bind_eq_Some_conv split: if_splits) blast+
  have "registered (m1\<lparr>lm_heap := h, lm_next := nxt\<rparr>) = registered m1" by (rule registered_cong) simp
  with createKeyInfo_events [OF l(1)] have "registered (m1\<lparr>lm_heap := h, lm_next := nxt\<rparr>) = registered m" by simp
  with backward_loop_events [OF l(2)] l(3) set_root_events show ?thesis by auto
qed

lemma tryLock_events:
  assumes "tryLock m key tid s e is_read = Some (m', b)"
  shows "registered m' = registered m"
proof -
  from assms obtain m1 root0 pend where c1: "createKeyInfo m key = Some m1" and
    rest: "(case pend of
        None \<Rightarrow> set_root m1 key root0 \<bind> (\<lambda>m. Some (m, False))
      | Some pend \<Rightarrow>
          lock_pendings tid s e is_read ((lm_heap m1, lm_next m1), root0) pend \<bind> (\<lambda>((h, nxt), root).
            set_root (addTransactionLock (m1\<lparr>lm_heap := h, lm_next := nxt\<rparr>) tid key s e) key root \<bind>
              (\<lambda>m. Some (m, True)))) = Some (m', b)"
    by (auto simp: tryLock_def bind_eq_Some_conv Let_def)
  have "\<exists>m2 root. lm_keys m2 = lm_keys m1 \<and> set_root m2 key root = Some m'"
  proof (cases pend)
    case None
    with rest show ?thesis by (auto simp: bind_eq_Some_conv)
  next
    case (Some ps)
    with rest obtain h nxt root where "set_root (addTransactionLock (m1\<lparr>lm_heap := h, lm_next := nxt\<rparr>) tid key s e) key root = Some m'"
      by (auto simp: bind_eq_Some_conv)
    then show ?thesis by (intro exI conjI) simp_all
  qed
  with c1 obtain m2 root where c: "createKeyInfo m key = Some m1"
    "lm_keys m2 = lm_keys m1" "set_root m2 key root = Some m'" by blast
  with createKeyInfo_events [OF c(1)] set_root_events [OF c(3)] registered_cong [OF c(2)]
  show ?thesis by simp
qed

end
