(* ===== verification/Lock_Acquire.thy ===== *)
theory Lock_Acquire
  imports Lock_State Lock_Events
begin

text \<open>
  \<open>tryBackwardLock\<close> and \<open>tryLock\<close> against the lock table.
\<close>

section \<open>Finding the node of a time\<close>

lemma find_top:
  assumes "key_tree h root t"
  shows "\<exists>us a vs locks n. inorder t = us @ a # vs \<and> node_find h root [] ts = Some (locks @ [a])
    \<and> stk h (locks @ [a]) (us @ [a]) \<and> h a = Some n \<and> covers h a ts"
proof -
  from find_root [OF key_tree_interval [OF assms]] obtain us a vs locks where
    a: "inorder t = us @ a # vs" "covers h a ts" "node_find h root [] ts = Some locks"
    "stk h locks (us @ [a])" by metis
  moreover from a(2) obtain n where "h a = Some n" by (cases "h a") (auto simp: covers_def)
  ultimately show ?thesis using stk_last [OF a(4)] by blast
qed

lemma find_top_at:
  assumes "key_tree h root t" "inorder t = us @ a # vs" "covers h a ts"
  shows "\<exists>locks. node_find h root [] ts = Some (locks @ [a]) \<and> stk h (locks @ [a]) (us @ [a])"
proof -
  from find_top [OF assms(1)] obtain us' b vs' locks where
    b: "inorder t = us' @ b # vs'" "node_find h root [] ts = Some (locks @ [b])"
    "stk h (locks @ [b]) (us' @ [b])" "covers h b ts" by metis
  have "seg h (us @ a # vs) 0 18446744073709551616"
    using key_tree_interval [OF assms(1)] by (simp add: interval_tree_def assms(2))
  moreover have "b \<in> set (us @ a # vs)" by (simp flip: assms(2) add: b(1))
  ultimately have "b = a" using seg_covers_unique assms(3) b(4) by blast
  with b key_tree_distinct [OF assms(1)] assms(2) distinct_split_unique [of us a vs us' vs']
  show ?thesis by auto
qed

lemma cut_after_key:
  assumes "key_tree h root t" "inorder t = us @ a # vs" "h a = Some n"
    and "n_start n \<le> ts" "ts < n_end n" "new \<notin> set_tree t" "n_status n \<noteq> FREEZE_WRITE_LOCK"
  shows "\<exists>h' root' t' n'. cut_after (h, new) a ts = Some ((h', Suc new), root')
    \<and> key_tree h' root' t' \<and> inorder t' = us @ a # new # vs
    \<and> (\<forall>x. x \<notin> set_tree t' \<longrightarrow> h' x = h x) \<and> (\<forall>ts. cell_at h' root' ts = cell_at h root ts)
    \<and> h' a = Some n' \<and> node_data n' = (n_status n, n_start n, ts, n_tids n)"
proof -
  from cut_after [OF key_tree_interval [OF assms(1)] assms(2-6)] obtain h' root' t' where
    c: "cut_after (h, new) a ts = Some ((h', Suc new), root')" "interval_tree h' root' t'"
    "inorder t' = us @ a # new # vs" "tree_split h t a new h' t'"
    "data h' a = Some (n_status n, n_start n, ts, n_tids n)"
    "data h' new = Some (n_status n, ts + 1, n_end n, n_tids n)" by blast
  have a: "a \<in> set_tree t" using assms(2) set_inorder [of t] by auto
  have "key_tree h' root' t'"
    using key_tree_split [OF assms(1) c(2,4) assms(3,7,6) a assms(2)] c(3) by blast
  moreover have "cell_at h' root' ts' = cell_at h root ts'" for ts'
  proof (rule split_cell_at [OF key_tree_interval [OF assms(1)] c(2,4) assms(6) a _ c(5,6)])
    show "data h a = Some (n_status n, n_start n, n_end n, n_tids n)"
      using assms(3) by (simp add: node_data_def)
    show "n_start n \<le> ts' \<and> ts' \<le> ts \<or> ts + 1 \<le> ts' \<and> ts' \<le> n_end n"
      if "n_start n \<le> ts' \<and> ts' \<le> n_end n"
      using that unat_succ [OF assms(5)] by (auto simp: word_le_nat_alt)
  qed
  moreover have "\<forall>x. x \<notin> set_tree t' \<longrightarrow> h' x = h x" using c(4) by (auto simp: tree_split_def)
  moreover obtain n' where "h' a = Some n'" "node_data n' = (n_status n, n_start n, ts, n_tids n)"
    using c(5) by auto
  ultimately show ?thesis using c(1,3) by blast
qed

lemma cut_before_key:
  assumes "key_tree h root t" "inorder t = us @ a # vs" "h a = Some n"
    and "n_start n < ts" "ts \<le> n_end n" "new \<notin> set_tree t" "n_status n \<noteq> FREEZE_WRITE_LOCK"
  shows "\<exists>h' root' t' n'. cut_before (h, new) a ts = Some ((h', Suc new), root')
    \<and> key_tree h' root' t' \<and> inorder t' = us @ new # a # vs
    \<and> (\<forall>x. x \<notin> set_tree t' \<longrightarrow> h' x = h x) \<and> (\<forall>ts. cell_at h' root' ts = cell_at h root ts)
    \<and> h' a = Some n' \<and> node_data n' = (n_status n, ts, n_end n, n_tids n)"
proof -
  from cut_before [OF key_tree_interval [OF assms(1)] assms(2-6)] obtain h' root' t' where
    c: "cut_before (h, new) a ts = Some ((h', Suc new), root')" "interval_tree h' root' t'"
    "inorder t' = us @ new # a # vs" "tree_split h t a new h' t'"
    "data h' a = Some (n_status n, ts, n_end n, n_tids n)"
    "data h' new = Some (n_status n, n_start n, ts - 1, n_tids n)" by blast
  have a: "a \<in> set_tree t" using assms(2) set_inorder [of t] by auto
  have "key_tree h' root' t'"
    using key_tree_split [OF assms(1) c(2,4) assms(3,7,6) a assms(2)] c(3) by blast
  moreover have "ts \<noteq> 0" using assms(4) by auto
  note pred = le_pred_iff [OF this]
  have "cell_at h' root' ts' = cell_at h root ts'" for ts'
  proof (intro split_cell_at [OF key_tree_interval [OF assms(1)] c(2,4) assms(6) a _ c(5,6)])
    show "data h a = Some (n_status n, n_start n, n_end n, n_tids n)"
      using assms(3) by (simp add: node_data_def)
  qed (auto simp: pred)
  moreover have "\<forall>x. x \<notin> set_tree t' \<longrightarrow> h' x = h x" using c(4) by (auto simp: tree_split_def)
  moreover obtain n' where "h' a = Some n'" "node_data n' = (n_status n, ts, n_end n, n_tids n)"
    using c(5) by auto
  ultimately show ?thesis using c(1,3) by blast
qed

section \<open>The first step of \<open>tryBackwardLock\<close>\<close>

lemma backward_start_ok:
  assumes "key_tree h root t" "next \<notin> set_tree t"
  shows "\<exists>h' next' root' t' locks us a vs n.
    backward_start h next root ts_end is_read = Some (h', next', root', locks)
    \<and> key_tree h' root' t' \<and> next \<le> next' \<and> set_tree t' \<subseteq> set_tree t \<union> {next..<next'}
    \<and> (\<forall>x. x \<notin> set_tree t' \<longrightarrow> h' x = h x) \<and> (\<forall>ts. cell_at h' root' ts = cell_at h root ts)
    \<and> inorder t' = us @ a # vs \<and> stk h' locks (us @ [a]) \<and> h' a = Some n \<and> covers h' a ts_end
    \<and> (passes is_read (n_status n) \<longrightarrow> n_status n = FREEZE_READ_LOCK \<or> n_end n = ts_end)"
proof -
  from find_top [OF assms(1)] obtain us a vs locks n where
    a: "inorder t = us @ a # vs" "node_find h root [] ts_end = Some (locks @ [a])"
    "stk h (locks @ [a]) (us @ [a])" "h a = Some n" "covers h a ts_end" by metis
  then have c: "n_start n \<le> ts_end" "ts_end \<le> n_end n" by (auto simp: covers_def)
  show ?thesis
  proof (cases "(n_status n = FREE \<or> n_status n = READ_LOCK \<and> is_read) \<and> ts_end < n_end n")
    case True
    then have "n_status n \<noteq> FREEZE_WRITE_LOCK" "ts_end < n_end n" by auto
    from cut_after_key [OF assms(1) a(1,4) c(1) this(2) assms(2) this(1)] obtain h' root' t' n' where
      k: "cut_after (h, next) a ts_end = Some ((h', Suc next), root')"
      "key_tree h' root' t'" "inorder t' = us @ a # next # vs"
      "\<forall>x. x \<notin> set_tree t' \<longrightarrow> h' x = h x" "\<forall>ts. cell_at h' root' ts = cell_at h root ts"
      "h' a = Some n'" "node_data n' = (n_status n, n_start n, ts_end, n_tids n)" by blast
    have cov: "covers h' a ts_end" using k(6,7) c by (simp add: covers_def node_data_def)
    from find_top_at [OF k(2,3) this] obtain locks' where
      f: "node_find h' root' [] ts_end = Some (locks' @ [a])" "stk h' (locks' @ [a]) (us @ [a])" by blast
    have "backward_start h next root ts_end is_read = Some (h', Suc next, root', locks' @ [a])"
      using True a(2,4) k(1) f(1) by (simp add: backward_start_def)
    moreover have "set_tree t' \<subseteq> set_tree t \<union> {next..<Suc next}"
      using a(1) k(3) set_inorder [of t] set_inorder [of t'] by auto
    moreover have "n_end n' = ts_end" using k(7) by (simp add: node_data_def)
    ultimately show ?thesis using k(2-6) f(2) cov by (metis le_SucI order_refl)
  next
    case False
    then have "backward_start h next root ts_end is_read = Some (h, next, root, locks @ [a])"
      using a(2,4) by (auto simp: backward_start_def)
    moreover have "passes is_read (n_status n) \<longrightarrow> n_status n = FREEZE_READ_LOCK \<or> n_end n = ts_end"
      using False c by (auto simp: passes_def)
    ultimately show ?thesis using assms(1) a by (metis Un_upper1 order_refl)
  qed
qed

section \<open>\<open>tryBackwardLock\<close>\<close>

text \<open>What \<open>addTransactionLock\<close> does to the transactions: the hull of the old and new interval.\<close>

definition hull :: "(u64 \<times> u64) option \<Rightarrow> u64 \<Rightarrow> u64 \<Rightarrow> u64 \<times> u64" where
  "hull p s e = (case p of None \<Rightarrow> (s, e) | Some (s', e') \<Rightarrow> (min s s', max e e'))"

definition note_lock ::
    "(u64 \<rightharpoonup> transaction_info) \<Rightarrow> u64 \<Rightarrow> u64 \<Rightarrow> u64 \<Rightarrow> u64 \<Rightarrow> (u64 \<rightharpoonup> transaction_info)" where
  "note_lock tr tid key s e =
     (let ivs = (case tr tid of None \<Rightarrow> [] | Some ivs \<Rightarrow> ivs)
      in tr(tid \<mapsto> smap_put key (hull (map_of ivs key) s e) ivs))"

lemma addTransactionLock_trans [simp]:
  "lm_trans (addTransactionLock m tid key s e) = note_lock (lm_trans m) tid key s e"
  by (auto simp: addTransactionLock_def createTransactionInfo_def note_lock_def hull_def Let_def
      min_def max_def not_le not_less split: option.split prod.split if_splits)

lemma backward_end_set_root:
  assumes "lm_keys m key = Some ki"
    and "backward_end key tid ts_end is_read event m h stop b = (m1, stop1, res, failed)"
  shows "stop1 = stop" "res = (\<not> waits is_read (n_status b))" "failed = False"
    "\<exists>m'. set_root m1 key root = Some m' \<and> lm_heap m' = h \<and> lm_next m' = lm_next m
      \<and> lm_trans m' = note_lock (lm_trans m) tid key (stop + 1) ts_end
      \<and> lm_keys m' = (lm_keys m)(key \<mapsto>
          \<lparr>ki_events = (if waits is_read (n_status b)
              then (ki_events ki)(n_end b \<mapsto> insort_insert event (events_at (ki_events ki) (n_end b)))
              else ki_events ki), ki_root = root\<rparr>)"
  using assms
  by ((cases ki; auto simp: backward_end_def set_root_def addEvent_def events_at_def Let_def split: if_splits)+)

lemma set_insort_insert [simp]: "set (insort_insert x xs) = insert x (set xs)"
  by (simp add: set_insort_insert)

lemma tryBackwardLock_ok:
  assumes "lm_shape m F"
  shows "\<exists>m' F' stop. tryBackwardLock m key tid ts_end is_read event ts_start
      = Some (m', \<not> waits is_read (fst (lock_at m key stop)), stop + 1)
    \<and> lm_shape m' F' \<and> stop \<le> ts_end \<and> \<not> passes is_read (fst (lock_at m key stop))
    \<and> (\<forall>ts. stop < ts \<and> ts \<le> ts_end \<longrightarrow> passes is_read (fst (lock_at m key ts)))
    \<and> (\<forall>k ts. lock_at m' k ts =
          (if k = key \<and> stop < ts \<and> ts \<le> ts_end then acquire is_read tid (lock_at m k ts)
           else lock_at m k ts))
    \<and> lm_trans m' = note_lock (lm_trans m) tid key (stop + 1) ts_end
    \<and> (waits is_read (fst (lock_at m key stop)) \<longrightarrow> event \<in> set (waiters m' key stop))
    \<and> (\<not> waits is_read (fst (lock_at m key stop)) \<longrightarrow> registered m' = registered m)"
proof -
  from createKeyInfo_ok [OF assms] obtain m1 F1 ki where
    c: "createKeyInfo m key = Some m1" "lm_shape m1 F1" "lm_keys m1 key = Some ki"
    "lock_at m1 = lock_at m" "lm_trans m1 = lm_trans m" by blast
  let ?h = "lm_heap m1" and ?root = "ki_root ki"
  have kt: "key_tree ?h ?root (F1 key)" using lm_shape_key [OF c(2,3)] .
  have "lm_next m1 \<notin> set_tree (F1 key)"
    using lm_shape_tree_below [OF c(2), of key] c(3) by blast
  from backward_start_ok [OF kt this, of ts_end is_read] obtain h1 next1 root1 t1 locks us a vs n where
    b: "backward_start ?h (lm_next m1) ?root ts_end is_read = Some (h1, next1, root1, locks)"
    "key_tree h1 root1 t1" "lm_next m1 \<le> next1" "set_tree t1 \<subseteq> set_tree (F1 key) \<union> {lm_next m1..<next1}"
    "\<forall>x. x \<notin> set_tree t1 \<longrightarrow> h1 x = ?h x" "\<forall>ts. cell_at h1 root1 ts = cell_at ?h ?root ts"
    "inorder t1 = us @ a # vs" "stk h1 locks (us @ [a])" "h1 a = Some n" "covers h1 a ts_end"
    "passes is_read (n_status n) \<longrightarrow> n_status n = FREEZE_READ_LOCK \<or> n_end n = ts_end" by blast
  define m2 where "m2 = m1\<lparr>lm_heap := h1, lm_next := next1\<rparr>"
  have "lm_heap m2 = h1" by (simp add: m2_def)
  with backward_loop_walk [of m2 root1 t1 us a vs locks n ts_end is_read tid key ts_end event] b
  obtain h2 stop d where w: "walked is_read tid h1 root1 t1 ts_end h2 stop d"
    "backward_loop key tid ts_end is_read event m2 locks ts_end =
      Some (backward_end key tid ts_end is_read event m2 h2 stop d)" by auto
  obtain m3 stop' res failed where e: "backward_end key tid ts_end is_read event m2 h2 stop d = (m3, stop', res, failed)"
    by (cases "backward_end key tid ts_end is_read event m2 h2 stop d") auto
  have k2: "lm_keys m2 key = Some ki" using c(3) by (simp add: m2_def)
  note es = backward_end_set_root [OF k2 e]
  define evs where "evs = (if waits is_read (n_status d)
      then (ki_events ki)(n_end d \<mapsto> insort_insert event (events_at (ki_events ki) (n_end d))) else ki_events ki)"
  obtain m4 where m4: "set_root m3 key root1 = Some m4" "lm_heap m4 = h2" "lm_next m4 = next1"
    "lm_trans m4 = note_lock (lm_trans m) tid key (stop + 1) ts_end"
    "lm_keys m4 = (lm_keys m1)(key \<mapsto> \<lparr>ki_events = evs, ki_root = root1\<rparr>)"
    using es(4) [of root1] c(5) by (auto simp: m2_def evs_def)
  have run: "tryBackwardLock m key tid ts_end is_read event ts_start = Some (m4, \<not> waits is_read (n_status d), stop + 1)"
    using c(1,3) b(1) w(2) e es(1-3) m4(1) by (simp add: tryBackwardLock_def m2_def [symmetric])
  have kt2: "key_tree h2 root1 t1" "\<forall>x. x \<notin> set_tree t1 \<longrightarrow> h2 x = ?h x"
    using w(1) b(5) by (auto simp: walked_def)
  have "set_tree t1 \<subseteq> (if lm_keys m1 key = None then {} else set_tree (F1 key)) \<union> {lm_next m1..<next1}"
    using b(4) c(3) by simp
  note u = lm_shape_update [OF c(2) _ kt2(2) this b(3) m4(2,3,5)]
  have shape: "lm_shape m4 (F1(key := t1))" by (rule u(1)) (simp add: kt2(1))
  have key4: "lm_keys m4 key = Some \<lparr>ki_events = evs, ki_root = root1\<rparr>" by (simp add: m4(5))
  have cells: "cell_at h1 root1 ts = Some (lock_at m key ts)" for ts
    using b(6) lock_at_some [OF c(2,3)] c(4) by simp
  from w(1) obtain x where x: "x \<in> set_tree t1" "h1 x = Some d" "h2 x = Some d" "covers h1 x stop"
    "\<not> passes is_read (n_status d)" by (auto simp: walked_def)
  have d: "n_status d = fst (lock_at m key stop)"
    using cell_at_covers [OF key_tree_interval [OF b(2)] x(1,4,2)] cells [of stop] by (metis fst_conv option.inject)
  have table: "lock_at m4 k ts = (if k = key \<and> stop < ts \<and> ts \<le> ts_end
      then acquire is_read tid (lock_at m k ts) else lock_at m k ts)" for k ts
  proof (cases "k = key")
    case True
    have "cell_at h2 root1 ts = (if stop < ts \<and> ts \<le> ts_end
      then map_option (acquire is_read tid) (cell_at h1 root1 ts) else cell_at h1 root1 ts)"
      using w(1) by (simp add: walked_def)
    moreover have "cell_at h2 root1 ts = Some (lock_at m4 key ts)"
      using lock_at_some [OF shape key4] m4(2) by simp
    ultimately show ?thesis using True cells [of ts] by (auto split: if_splits)
  next
    case False
    with u(2) [of k] kt2(1) c(4) show ?thesis by simp
  qed
  have "covers h2 x stop" using x by (simp add: covers_def)
  from end_at_covers [OF key_tree_interval [OF kt2(1)] x(1) this x(3)]
  have wait: "waits is_read (n_status d) \<longrightarrow> event \<in> set (waiters m4 key stop)"
    by (simp add: waiters_def key4 m4(2) evs_def events_at_def)
  have events: "\<not> waits is_read (n_status d) \<longrightarrow> registered m4 = registered m"
    using c(3) createKeyInfo_events [OF c(1)] registered_eqI [of m4 m1] by (simp add: m4(5) evs_def)
  have "stop \<le> ts_end" "\<forall>ts. stop < ts \<and> ts \<le> ts_end \<longrightarrow> passes is_read (fst (lock_at m key ts))"
    using w(1) by (auto simp: walked_def cells)
  with run shape table wait events m4(4) x(5) show ?thesis unfolding d by blast
qed

end
