(* ===== verification/Lock_Release.thy ===== *)
theory Lock_Release
  imports Lock_Acquire
begin

text \<open>
  \<open>freeze\<close> and \<open>unlock\<close> walk the intervals of a transaction in the same way and differ only in
  what they do to a node.  The locale states what the walk relies on; it is interpreted for
  the two \<open>switch\<close> statements.
\<close>

section \<open>Intervals do not move\<close>

lemma end_at_status:
  assumes "interval_tree h root t" "a \<in> set_tree t" "h a = Some n"
    and "node_links n' = node_links n" "n_start n' = n_start n" "n_end n' = n_end n"
  shows "end_at (h(a \<mapsto> n')) root ts = end_at h root ts"
proof -
  let ?h = "h(a \<mapsto> n')"
  have it: "interval_tree ?h root t" by (rule interval_tree_status [OF assms(1,3-6)])
  from covers_exists [OF assms(1), of ts] obtain b m where
    b: "b \<in> set_tree t" "h b = Some m" "covers h b ts" by blast
  have "\<exists>m'. ?h b = Some m' \<and> n_end m' = n_end m \<and> covers ?h b ts"
    using b assms(3,5,6) by (auto simp: covers_def)
  then show ?thesis
    using end_at_covers [OF assms(1) b(1,3,2)] end_at_covers [OF it b(1)] by auto
qed

section \<open>The interface of the walk\<close>

text \<open>
  \<open>effect\<close> is what a visit does to the lock, \<open>wakes\<close> tells whether it collects the events
  that wait for the end of the node.
\<close>

locale interval_visitor =
  fixes visit :: visitor
    and effect :: "cell \<Rightarrow> cell"
    and wakes :: "cell \<Rightarrow> bool"
  assumes visit_cell: "(n_status (fst (visit es n)), n_tids (fst (visit es n))) = effect (n_status n, n_tids n)"
    and visit_shape: "node_links (fst (visit es n)) = node_links n"
      "n_start (fst (visit es n)) = n_start n" "n_end (fst (visit es n)) = n_end n"
    and visit_frozen: "n_status n = FREEZE_WRITE_LOCK \<Longrightarrow> fst (visit es n) = n"
    and visit_events:
      "snd (visit es n) = (if wakes (n_status n, n_tids n) then events_at es (n_end n) else [])"
begin

text \<open>The outcome of a walk down to \<open>s\<close>: \<open>V\<close> are the times of the nodes visited.\<close>

definition released ::
    "(u64 \<rightharpoonup> event_id list) \<Rightarrow> heap \<Rightarrow> addr \<Rightarrow> addr tree \<Rightarrow> event_id list \<Rightarrow> (u64 \<Rightarrow> bool) \<Rightarrow>
     heap \<Rightarrow> event_id list \<Rightarrow> bool" where
  "released es h root t events V h' events' \<longleftrightarrow>
     key_tree h' root t \<and> (\<forall>x. x \<notin> set_tree t \<longrightarrow> h' x = h x)
     \<and> (\<forall>ts. end_at h' root ts = end_at h root ts)
     \<and> (\<forall>ts. cell_at h' root ts =
           (if V ts then map_option effect (cell_at h root ts) else cell_at h root ts))
     \<and> set events \<subseteq> set events'
     \<and> (\<forall>ts c e. V ts \<longrightarrow> cell_at h root ts = Some c \<longrightarrow> wakes c \<longrightarrow> end_at h root ts = Some e \<longrightarrow>
           set (events_at es e) \<subseteq> set events')"

lemma released_none: "key_tree h root t \<Longrightarrow> released es h root t events (\<lambda>_. False) h events"
  by (simp add: released_def)

lemma key_tree_visit:
  assumes "key_tree h root t" "h a = Some n"
  shows "key_tree (h(a \<mapsto> fst (visit es n))) root t"
proof (cases "n_status n = FREEZE_WRITE_LOCK")
  case True
  with visit_frozen [OF True] assms show ?thesis by (simp add: fun_upd_idem)
next
  case False
  show ?thesis by (rule key_tree_status [OF assms False visit_shape])
qed

lemma released_visit:
  assumes kt: "key_tree h root t" "a \<in> set_tree t" "h a = Some n"
    and r: "released es (h(a \<mapsto> fst (visit es n))) root t
      (fold insort_insert (snd (visit es n)) events) V h' events'"
    and V: "\<And>ts. V ts \<Longrightarrow> ts < n_start n"
  shows "released es h root t events (\<lambda>ts. V ts \<or> n_start n \<le> ts \<and> ts \<le> n_end n) h' events'"
proof -
  let ?n' = "fst (visit es n)"
  let ?h = "h(a \<mapsto> ?n')"
  have it: "interval_tree h root t" using key_tree_interval [OF kt(1)] .
  note cell = cell_at_status [OF it kt(2,3) visit_shape]
  note end' = end_at_status [OF it kt(2,3) visit_shape]
  have own: "cell_at h root ts = Some (n_status n, n_tids n)" "end_at h root ts = Some (n_end n)"
    if "n_start n \<le> ts \<and> ts \<le> n_end n" for ts
    using cell_at_covers [OF it kt(2) _ kt(3)] end_at_covers [OF it kt(2) _ kt(3)] that kt(3)
    by (simp_all add: covers_def)
  have ev: "set (fold insort_insert xs ys) = set xs \<union> set ys" for xs ys :: "event_id list"
    by (induction xs arbitrary: ys) auto
  have "cell_at h' root ts = (if V ts \<or> n_start n \<le> ts \<and> ts \<le> n_end n
      then map_option effect (cell_at h root ts) else cell_at h root ts)" for ts
  proof (cases "n_start n \<le> ts \<and> ts \<le> n_end n")
    case True
    then have "\<not> V ts" using V [of ts] by auto
    with r True cell [of es ts] own(1) [OF True] visit_cell [of es n] show ?thesis
      by (simp add: released_def)
  next
    case False
    with r cell [of es ts] show ?thesis by (auto simp: released_def)
  qed
  moreover have "set (events_at es e) \<subseteq> set events'"
    if "V ts \<or> n_start n \<le> ts \<and> ts \<le> n_end n" "cell_at h root ts = Some c" "wakes c"
      "end_at h root ts = Some e" for ts c e
  proof (cases "n_start n \<le> ts \<and> ts \<le> n_end n")
    case True
    with own [OF True] that have "c = (n_status n, n_tids n)" "e = n_end n" by auto
    with that(3) r visit_events [of es n] show ?thesis by (auto simp: released_def ev)
  next
    case False
    with that(1,2,4) cell [of es ts] end' [of es ts]
    have "V ts" "cell_at ?h root ts = Some c" "end_at ?h root ts = Some e" by auto
    with that(3) r show ?thesis unfolding released_def by blast
  qed
  moreover have "key_tree h' root t" "\<forall>x. x \<notin> set_tree t \<longrightarrow> h' x = h x" "set events \<subseteq> set events'"
    "\<forall>ts. end_at h' root ts = end_at h root ts"
    using r kt(2) end' by (auto simp: released_def ev)
  ultimately show ?thesis unfolding released_def by blast
qed

lemma interval_loop_ok:
  assumes "key_tree h root t" "inorder t = zs @ a # vs" "stk h locks (zs @ [a])"
    and "covers h a ts_end" "ts_start \<noteq> 0"
  shows "\<exists>h' events' V. interval_loop (visit es) ts_start h locks ts_end events = Some (h', events')
    \<and> released es h root t events V h' events'
    \<and> (\<forall>ts. ts_start \<le> ts \<and> ts \<le> ts_end \<longrightarrow> V ts)
    \<and> (\<forall>ts n. V ts \<longrightarrow> h a = Some n \<longrightarrow> ts \<le> n_end n)"
  using assms(1-4)
proof (induction zs arbitrary: a vs h locks ts_end events rule: rev_induct)
  case Nil
  show ?case
  proof (cases "ts_end < ts_start")
    case True
    with released_none [OF Nil.prems(1), of es events] show ?thesis
      by (subst interval_loop.simps) (auto intro!: exI [of _ "\<lambda>_. False"])
  next
    case False
    have "a \<in> set_tree t" using Nil.prems(2) set_inorder [of t] by auto
    from Nil.prems(1,2) have "data h a = Some (FREEZE_WRITE_LOCK, 0, 0, {})" by (auto simp: key_tree_def)
    with Nil.prems(4) have "ts_end = 0" by (auto simp: covers_def node_data_def split: option.splits)
    with False assms(5) show ?thesis by (simp add: word_greater_zero_iff)
  qed
next
  case (snoc z zs)
  from stk_last [OF snoc.prems(3)] obtain locks' where l: "locks = locks' @ [a]" by auto
  have a: "a \<in> set_tree t" using snoc.prems(2) set_inorder [of t] by auto
  obtain n where n: "h a = Some n" "n_start n \<le> ts_end" "ts_end \<le> n_end n"
    using snoc.prems(4) by (auto simp: covers_def split: option.splits)
  show ?case
  proof (cases "ts_end < ts_start")
    case True
    with released_none [OF snoc.prems(1), of es events] show ?thesis
      by (subst interval_loop.simps) (auto intro!: exI [of _ "\<lambda>_. False"])
  next
    case False
    have nz: "n_start n \<noteq> 0"
    proof
      assume "n_start n = 0"
      from key_tree_zero [OF snoc.prems(1) a n(1) this] n have "ts_end = 0"
        by (simp add: node_data_def)
      with False assms(5) show False by (simp add: word_greater_zero_iff)
    qed
    let ?h = "h(a \<mapsto> fst (visit es n))" and ?events = "fold insort_insert (snd (visit es n)) events"
    have kt: "key_tree ?h root t" by (rule key_tree_visit [OF snoc.prems(1) n(1)])
    from step_back [OF snoc.prems(1,2) snoc.prems(3) [unfolded l] n(1) nz visit_shape(1,2)]
    obtain locks'' where
      f: "node_find ?h a locks' (n_start n - 1) = Some locks''" "stk ?h locks'' (zs @ [z])"
      "covers ?h z (n_start n - 1)" "\<forall>m. ?h z = Some m \<longrightarrow> n_end m = n_start n - 1"
      by blast
    have "inorder t = zs @ z # (a # vs)" using snoc.prems(2) by simp
    from snoc.IH [OF kt this f(2,3)] obtain h' events' V where
      r: "interval_loop (visit es) ts_start ?h locks'' (n_start n - 1) ?events = Some (h', events')"
      "released es ?h root t ?events V h' events'"
      "\<forall>ts. ts_start \<le> ts \<and> ts \<le> n_start n - 1 \<longrightarrow> V ts"
      "\<forall>ts m. V ts \<longrightarrow> ?h z = Some m \<longrightarrow> ts \<le> n_end m" by blast
    from f(3,4) r(4) le_pred_iff [OF nz] have V: "V ts \<Longrightarrow> ts < n_start n" for ts
      by (auto simp: covers_def split: option.splits)
    let ?V = "\<lambda>ts. V ts \<or> n_start n \<le> ts \<and> ts \<le> n_end n"
    have "released es h root t events ?V h' events'"
      using released_visit [OF snoc.prems(1) a n(1) r(2) V] by simp
    moreover have "interval_loop (visit es) ts_start h locks ts_end events = Some (h', events')"
      using False n(1) f(1) r(1) by (subst interval_loop.simps) (simp add: l Let_def case_prod_beta)
    moreover have "\<forall>ts. ts_start \<le> ts \<and> ts \<le> ts_end \<longrightarrow> ?V ts"
      using r(3) n(3) by (auto simp: le_pred_iff [OF nz])
    moreover have "\<forall>ts m. ?V ts \<longrightarrow> h a = Some m \<longrightarrow> ts \<le> n_end m"
      using V n by fastforce
    ultimately show ?thesis by blast
  qed
qed

text \<open>All intervals of a transaction, on the keys that exist.\<close>

text \<open>The interval of one key: what becomes of the locks, and which events are handed over.\<close>

lemma release_key_ok:
  assumes "lm_shape m F" "lm_keys m key = Some ki" "s \<noteq> 0"
  shows "\<exists>ls h1 events1 V. node_find (lm_heap m) (ki_root ki) [] e = Some ls
    \<and> interval_loop (visit (ki_events ki)) s (lm_heap m) ls e events = Some (h1, events1)
    \<and> lm_shape (m\<lparr>lm_heap := h1\<rparr>) F \<and> waiters (m\<lparr>lm_heap := h1\<rparr>) = waiters m
    \<and> (\<forall>k ts. lock_at (m\<lparr>lm_heap := h1\<rparr>) k ts = (if k = key \<and> V ts then effect (lock_at m k ts) else lock_at m k ts))
    \<and> (\<forall>ts. s \<le> ts \<and> ts \<le> e \<longrightarrow> V ts) \<and> set events \<subseteq> set events1
    \<and> (\<forall>ts. V ts \<longrightarrow> wakes (lock_at m key ts) \<longrightarrow> set (waiters m key ts) \<subseteq> set events1)"
proof -
  let ?h = "lm_heap m"
  have kt: "key_tree ?h (ki_root ki) (F key)" using lm_shape_key [OF assms(1,2)] .
  from find_top [OF kt, of e] obtain us a vs locks n where
    a: "inorder (F key) = us @ a # vs" "node_find ?h (ki_root ki) [] e = Some (locks @ [a])"
    "stk ?h (locks @ [a]) (us @ [a])" "covers ?h a e" by metis
  from interval_loop_ok [OF kt a(1,3,4) assms(3), of "ki_events ki" events] obtain h1 events1 V where
    r: "interval_loop (visit (ki_events ki)) s ?h (locks @ [a]) e events = Some (h1, events1)"
    "released (ki_events ki) ?h (ki_root ki) (F key) events V h1 events1"
    "\<forall>ts. s \<le> ts \<and> ts \<le> e \<longrightarrow> V ts" by blast
  define m1 where "m1 = m\<lparr>lm_heap := h1\<rparr>"
  have m1: "lm_heap m1 = h1" "lm_next m1 = lm_next m" "lm_keys m1 = lm_keys m"
    by (simp_all add: m1_def)
  have upd: "lm_keys m1 = (lm_keys m)(key \<mapsto> ki)" using assms(2) m1(3) by (simp add: fun_upd_idem)
  have rel: "key_tree h1 (ki_root ki) (F key)" "\<forall>x. x \<notin> set_tree (F key) \<longrightarrow> h1 x = ?h x"
    using r(2) by (auto simp: released_def)
  have sub: "set_tree (F key) \<subseteq> (if lm_keys m key = None then {} else set_tree (F key)) \<union> {lm_next m..<lm_next m}"
    using assms(2) by simp
  note u = lm_shape_update [OF assms(1) rel sub order_refl m1(1,2) upd]
  have shape: "lm_shape m1 F" using u(1) by simp
  have cells: "cell_at ?h (ki_root ki) ts = Some (lock_at m key ts)"
    "cell_at h1 (ki_root ki) ts = Some (lock_at m1 key ts)" for ts
    using lock_at_some [OF assms(1,2)] lock_at_some [OF shape, of key ki] assms(2) m1 by auto
  have "waiters m1 k ts = waiters m k ts" for k ts
    using r(2) assms(2) m1 u(3) by (cases "k = key") (simp_all add: waiters_def released_def)
  then have "waiters m1 = waiters m" by (intro ext)
  moreover have "lock_at m1 k ts = (if k = key \<and> V ts then effect (lock_at m k ts) else lock_at m k ts)" for k ts
    using r(2) cells [of ts] u(2) by (cases "k = key") (auto simp: released_def split: if_splits)
  moreover have "set (waiters m key ts) \<subseteq> set events1" if "V ts" "wakes (lock_at m key ts)" for ts
  proof -
    have "\<exists>e. end_at ?h (ki_root ki) ts = Some e"
      using end_at_covers [OF key_tree_interval [OF kt]] covers_exists [OF key_tree_interval [OF kt]] by blast
    then obtain e' where "end_at ?h (ki_root ki) ts = Some e'" by blast
    moreover from r(2) have "V ts \<longrightarrow> cell_at ?h (ki_root ki) ts = Some (lock_at m key ts) \<longrightarrow>
        wakes (lock_at m key ts) \<longrightarrow> end_at ?h (ki_root ki) ts = Some e' \<longrightarrow>
        set (events_at (ki_events ki) e') \<subseteq> set events1"
      unfolding released_def by blast
    ultimately show ?thesis using that cells(1) [of ts] assms(2) by (simp add: waiters_def)
  qed
  moreover have "set events \<subseteq> set events1" using r(2) by (auto simp: released_def)
  ultimately show ?thesis using a(2) r(1,3) shape unfolding m1_def
    by (intro exI [of _ "locks @ [a]"] exI [of _ h1] exI [of _ events1] exI [of _ V]) simp
qed

lemma release_intervals_ok:
  assumes "lm_shape m F" "distinct (map fst ivs)" "\<forall>(k, (s, e)) \<in> set ivs. s \<noteq> 0"
  shows "\<exists>m' events' V. release_intervals visit m ivs events = Some (m', events')
    \<and> lm_shape m' F \<and> lm_keys m' = lm_keys m \<and> lm_trans m' = lm_trans m
    \<and> waiters m' = waiters m
    \<and> (\<forall>k ts. lock_at m' k ts = (if V k ts then effect (lock_at m k ts) else lock_at m k ts))
    \<and> (\<forall>k s e ts. map_of ivs k = Some (s, e) \<longrightarrow> lm_keys m k \<noteq> None \<longrightarrow> s \<le> ts \<longrightarrow> ts \<le> e \<longrightarrow> V k ts)
    \<and> (\<forall>k ts. V k ts \<longrightarrow> k \<in> fst ` set ivs)
    \<and> set events \<subseteq> set events'
    \<and> (\<forall>k ts. V k ts \<longrightarrow> wakes (lock_at m k ts) \<longrightarrow> set (waiters m k ts) \<subseteq> set events')"
  using assms
proof (induction ivs arbitrary: m events)
  case Nil
  then show ?case by (intro exI [of _ m] exI [of _ events] exI [of _ "\<lambda>_ _. False"]) simp
next
  case (Cons iv ivs)
  obtain key s e where iv: "iv = (key, (s, e))" by (cases iv) auto
  have IH: "distinct (map fst ivs)" "\<forall>(k, (s, e)) \<in> set ivs. s \<noteq> 0" and key: "key \<notin> fst ` set ivs" "s \<noteq> 0"
    using Cons.prems(2,3) iv by auto
  show ?case
  proof (cases "lm_keys m key")
    case None
    from Cons.IH [OF Cons.prems(1) IH, of events] obtain m' events' V where
      "release_intervals visit m ivs events = Some (m', events')
        \<and> lm_shape m' F \<and> lm_keys m' = lm_keys m \<and> lm_trans m' = lm_trans m
        \<and> waiters m' = waiters m
        \<and> (\<forall>k ts. lock_at m' k ts = (if V k ts then effect (lock_at m k ts) else lock_at m k ts))
        \<and> (\<forall>k s e ts. map_of ivs k = Some (s, e) \<longrightarrow> lm_keys m k \<noteq> None \<longrightarrow> s \<le> ts \<longrightarrow> ts \<le> e \<longrightarrow> V k ts)
        \<and> (\<forall>k ts. V k ts \<longrightarrow> k \<in> fst ` set ivs)
        \<and> set events \<subseteq> set events'
        \<and> (\<forall>k ts. V k ts \<longrightarrow> wakes (lock_at m k ts) \<longrightarrow> set (waiters m k ts) \<subseteq> set events')" by blast
    with None show ?thesis
      by (intro exI [of _ m'] exI [of _ events'] exI [of _ V]) (auto simp: iv)
  next
    case (Some ki)
    from release_key_ok [OF Cons.prems(1) Some key(2), of e events] obtain ls h1 events1 V1 where
      r: "node_find (lm_heap m) (ki_root ki) [] e = Some ls"
      "interval_loop (visit (ki_events ki)) s (lm_heap m) ls e events = Some (h1, events1)"
      and shape: "lm_shape (m\<lparr>lm_heap := h1\<rparr>) F" and w1: "waiters (m\<lparr>lm_heap := h1\<rparr>) = waiters m"
      and l1: "\<forall>k ts. lock_at (m\<lparr>lm_heap := h1\<rparr>) k ts =
        (if k = key \<and> V1 ts then effect (lock_at m k ts) else lock_at m k ts)"
      and v1: "\<forall>ts. s \<le> ts \<and> ts \<le> e \<longrightarrow> V1 ts" "set events \<subseteq> set events1"
      and e1: "\<forall>ts. V1 ts \<longrightarrow> wakes (lock_at m key ts) \<longrightarrow> set (waiters m key ts) \<subseteq> set events1"
      by (elim exE conjE)
    define m1 where "m1 = m\<lparr>lm_heap := h1\<rparr>"
    note shape = shape [folded m1_def] and w1 = w1 [folded m1_def] and l1 = l1 [folded m1_def, rule_format]
    have m1: "lm_keys m1 = lm_keys m" "lm_trans m1 = lm_trans m" by (simp_all add: m1_def)
    from Cons.IH [OF shape IH, of events1] obtain m' events' V where
      c: "release_intervals visit m1 ivs events1 = Some (m', events')"
      "lm_shape m' F" "lm_keys m' = lm_keys m1" "lm_trans m' = lm_trans m1" "waiters m' = waiters m1"
      "\<forall>k ts. lock_at m' k ts = (if V k ts then effect (lock_at m1 k ts) else lock_at m1 k ts)"
      "\<forall>k s e ts. map_of ivs k = Some (s, e) \<longrightarrow> lm_keys m1 k \<noteq> None \<longrightarrow> s \<le> ts \<longrightarrow> ts \<le> e \<longrightarrow> V k ts"
      "\<forall>k ts. V k ts \<longrightarrow> k \<in> fst ` set ivs" "set events1 \<subseteq> set events'"
      "\<forall>k ts. V k ts \<longrightarrow> wakes (lock_at m1 k ts) \<longrightarrow> set (waiters m1 k ts) \<subseteq> set events'" by blast
    have notkey: "\<not> V key ts" for ts using c(8) key(1) by blast
    let ?V = "\<lambda>k ts. V k ts \<or> k = key \<and> V1 ts"
    have f1: "release_intervals visit m (iv # ivs) events = Some (m', events')"
      using Some r c(1) by (simp add: iv m1_def)
    have f2: "lock_at m' k ts = (if ?V k ts then effect (lock_at m k ts) else lock_at m k ts)" for k ts
      using c(6) l1 [of k ts] notkey [of ts] by auto
    have f3: "?V k ts" if "map_of (iv # ivs) k = Some (s', e')" "lm_keys m k \<noteq> None" "s' \<le> ts" "ts \<le> e'" for k s' e' ts
      using that v1(1) c(7) m1(1) by (cases "k = key") (auto simp: iv)
    have f4: "k \<in> fst ` set (iv # ivs)" if "?V k ts" for k ts
      using that c(8) by (auto simp: iv)
    have f5: "set events \<subseteq> set events'" using v1(2) c(9) by blast
    have f6: "set (waiters m k ts) \<subseteq> set events'" if "?V k ts" "wakes (lock_at m k ts)" for k ts
    proof (cases "k = key")
      case True
      with that notkey e1 c(9) show ?thesis by blast
    next
      case False
      with that c(10) l1 [of k ts] w1 show ?thesis by auto
    qed
    show ?thesis
      by (intro exI [of _ m'] exI [of _ events'] exI [of _ ?V] conjI allI impI f1 c(2) f2 f4 f5)
        (simp_all add: c(3-5) m1 w1 f3 f6)
  qed
qed

end

end
