(* ===== verification/Lock_Spec.thy ===== *)
theory Lock_Spec
  imports Lock_Release
begin

text \<open>
  The contract of the lock manager on the lock table: the invariant of its state, and what
  \<open>freeze\<close>, \<open>unlock\<close>, \<open>tryBackwardLock\<close> and \<open>tryLock\<close> do to the locks of a transaction.
\<close>

section \<open>The invariant\<close>

text \<open>Which transactions a lock may carry in each status.\<close>

definition cell_wf :: "cell \<Rightarrow> bool" where
  "cell_wf c =
    (case fst c of
       READ_LOCK \<Rightarrow> snd c \<noteq> {}
     | WRITE_LOCK \<Rightarrow> (\<exists>tid. snd c = {tid})
     | _ \<Rightarrow> snd c = {})"

text \<open>The interval that the transaction has on record for the key contains the time.\<close>

definition noted :: "(u64 \<rightharpoonup> transaction_info) \<Rightarrow> u64 \<Rightarrow> u64 \<Rightarrow> u64 \<Rightarrow> bool" where
  "noted tr tid k ts \<longleftrightarrow>
     (\<exists>ivs s e. tr tid = Some ivs \<and> map_of ivs k = Some (s, e) \<and> s \<le> ts \<and> ts \<le> e)"

definition trans_ok :: "(u64 \<rightharpoonup> transaction_info) \<Rightarrow> bool" where
  "trans_ok tr \<longleftrightarrow>
     (\<forall>tid ivs. tr tid = Some ivs \<longrightarrow> smap_ok ivs \<and> (\<forall>(k, (s, e)) \<in> set ivs. s \<noteq> 0))"

definition lm_inv :: "lock_manager \<Rightarrow> bool" where
  "lm_inv m \<longleftrightarrow> (\<exists>F. lm_shape m F) \<and> trans_ok (lm_trans m)
     \<and> (\<forall>k ts. cell_wf (lock_at m k ts))
     \<and> (\<forall>k ts tid. tid \<in> snd (lock_at m k ts) \<longrightarrow> noted (lm_trans m) tid k ts)"

lemma lm_inv_shape: "lm_inv m \<Longrightarrow> \<exists>F. lm_shape m F"
  and lm_inv_trans: "lm_inv m \<Longrightarrow> trans_ok (lm_trans m)"
  and lm_inv_wf: "lm_inv m \<Longrightarrow> cell_wf (lock_at m k ts)"
  and lm_inv_noted: "lm_inv m \<Longrightarrow> tid \<in> snd (lock_at m k ts) \<Longrightarrow> noted (lm_trans m) tid k ts"
  by (simp_all add: lm_inv_def)

lemma lm_invI:
  assumes "lm_shape m F" "trans_ok (lm_trans m)" "\<And>k ts. cell_wf (lock_at m k ts)"
    and "\<And>k ts tid. tid \<in> snd (lock_at m k ts) \<Longrightarrow> noted (lm_trans m) tid k ts"
  shows "lm_inv m"
  using assms unfolding lm_inv_def by blast

lemma lm_inv_init: "lm_inv lm_init"
  by (rule lm_invI [OF lm_shape_init])
    (auto simp: trans_ok_def lm_init_def lock_at_def initial_cell_def cell_wf_def)

lemma held_status: "cell_wf c \<Longrightarrow> tid \<in> snd c \<Longrightarrow> fst c = READ_LOCK \<or> fst c = WRITE_LOCK"
  by (auto simp: cell_wf_def split: lock_status.splits)

text \<open>Taking a transaction out of the table and of the records keeps the invariant.\<close>

lemma release_inv:
  assumes "lm_inv m" "\<exists>F. lm_shape m' F" "lm_trans m' = (lm_trans m)(tid := None)"
    and "\<forall>k ts. lock_at m' k ts = f (lock_at m k ts)"
    and "\<And>k ts. cell_wf (f (lock_at m k ts))"
    and "\<And>k ts t. t \<in> snd (f (lock_at m k ts)) \<Longrightarrow> t \<in> snd (lock_at m k ts) \<and> t \<noteq> tid"
  shows "lm_inv m'"
proof -
  from assms(2) obtain F where "lm_shape m' F" by blast
  then show ?thesis
  proof (rule lm_invI)
    show "trans_ok (lm_trans m')"
      using lm_inv_trans [OF assms(1)] by (simp add: assms(3) trans_ok_def)
    show "cell_wf (lock_at m' k ts)" for k ts using assms(4,5) by simp
    show "noted (lm_trans m') t k ts" if "t \<in> snd (lock_at m' k ts)" for k ts t
      using that lm_inv_noted [OF assms(1), of t k ts] assms(6) [of t k ts]
      by (simp add: assms(3,4) noted_def)
  qed
qed

section \<open>Releasing the locks of a transaction\<close>

locale transaction_visitor = interval_visitor +
  fixes tid :: u64
  assumes effect_other: "tid \<notin> snd c \<Longrightarrow> effect c = c"
begin

lemma release_ok:
  assumes "lm_inv m"
  shows "\<exists>m' events. (case lm_trans m tid of
       None \<Rightarrow> Some (m, [])
     | Some tr_info \<Rightarrow> do {
         (m, events) \<leftarrow> release_intervals visit m tr_info [];
         let m = m\<lparr>lm_trans := (lm_trans m)(tid \<mapsto> [])\<rparr>;
         Some (deleteTransactionInfo m tid, events)
       }) = Some (m', events)
    \<and> (\<exists>F. lm_shape m' F) \<and> lm_trans m' = (lm_trans m)(tid := None)
    \<and> (\<forall>k ts. lock_at m' k ts = effect (lock_at m k ts))
    \<and> (\<forall>k ts. tid \<in> snd (lock_at m k ts) \<longrightarrow> wakes (lock_at m k ts) \<longrightarrow>
          set (waiters m k ts) \<subseteq> set events)"
proof (cases "lm_trans m tid")
  case None
  then have no: "tid \<notin> snd (lock_at m k ts)" for k ts
    using lm_inv_noted [OF assms, of tid k ts] by (auto simp: noted_def)
  with lm_inv_shape [OF assms] None effect_other show ?thesis
    by (intro exI [of _ m] exI [of _ "[]"]) (simp add: fun_upd_idem)
next
  case (Some ivs)
  from assms obtain F where F: "lm_shape m F" by (auto simp: lm_inv_def)
  from assms Some have iv: "distinct (map fst ivs)" "\<forall>(k, (s, e)) \<in> set ivs. s \<noteq> 0"
    by (auto simp: lm_inv_def trans_ok_def smap_ok_distinct)
  from release_intervals_ok [OF F iv, of "[]"] obtain m1 events V where
    r: "release_intervals visit m ivs [] = Some (m1, events)" "lm_shape m1 F"
    "lm_keys m1 = lm_keys m" "lm_trans m1 = lm_trans m"
    "\<forall>k ts. lock_at m1 k ts = (if V k ts then effect (lock_at m k ts) else lock_at m k ts)"
    "\<forall>k s e ts. map_of ivs k = Some (s, e) \<longrightarrow> lm_keys m k \<noteq> None \<longrightarrow> s \<le> ts \<longrightarrow> ts \<le> e \<longrightarrow> V k ts"
    "\<forall>k ts. V k ts \<longrightarrow> wakes (lock_at m k ts) \<longrightarrow> set (waiters m k ts) \<subseteq> set events" by blast
  have visited: "V k ts" if "tid \<in> snd (lock_at m k ts)" for k ts
  proof -
    from that have "lm_keys m k \<noteq> None" by (cases "lm_keys m k") (auto simp: lock_at_def initial_cell_def)
    moreover from lm_inv_noted [OF assms that] Some obtain s e where
      "map_of ivs k = Some (s, e)" "s \<le> ts" "ts \<le> e" by (auto simp: noted_def)
    ultimately show ?thesis using r(6) by blast
  qed
  define m' where "m' = m1\<lparr>lm_trans := (lm_trans m)(tid := None)\<rparr>"
  have "same_trees m1 m'" by (simp add: m'_def same_trees_def)
  note same = same_trees_shape [OF this r(2)] same_trees_lock_at [OF this]
  have eff: "lock_at m' k ts = effect (lock_at m k ts)" for k ts
  proof (cases "V k ts")
    case True
    with r(5) same(2) show ?thesis by simp
  next
    case False
    with visited have "tid \<notin> snd (lock_at m k ts)" by blast
    with r(5) same(2) False show ?thesis by (simp add: effect_other)
  qed
  have "deleteTransactionInfo (m1\<lparr>lm_trans := (lm_trans m1)(tid \<mapsto> [])\<rparr>) tid = m'"
    by (simp add: deleteTransactionInfo_def m'_def r(4))
  with Some r(1) have "(case lm_trans m tid of
       None \<Rightarrow> Some (m, [])
     | Some tr_info \<Rightarrow> do {
         (m, events) \<leftarrow> release_intervals visit m tr_info [];
         let m = m\<lparr>lm_trans := (lm_trans m)(tid \<mapsto> [])\<rparr>;
         Some (deleteTransactionInfo m tid, events)
       }) = Some (m', events)" by simp
  moreover have "lm_trans m' = (lm_trans m)(tid := None)" by (simp add: m'_def)
  ultimately show ?thesis using same(1) eff r(7) visited by blast
qed

end

definition freeze_cell :: "u64 \<Rightarrow> cell \<Rightarrow> cell" where
  "freeze_cell tid c =
    (if tid \<in> snd c \<and> fst c = READ_LOCK then (FREEZE_READ_LOCK, {})
     else if tid \<in> snd c \<and> fst c = WRITE_LOCK then (FREEZE_WRITE_LOCK, {})
     else c)"

definition unlock_cell :: "u64 \<Rightarrow> cell \<Rightarrow> cell" where
  "unlock_cell tid c =
    (if tid \<in> snd c \<and> (fst c = READ_LOCK \<or> fst c = WRITE_LOCK) then (FREE, snd c - {tid}) else c)"

interpretation freezing: transaction_visitor "freeze_visit tid" "freeze_cell tid"
  "\<lambda>c. tid \<in> snd c \<and> (fst c = READ_LOCK \<or> fst c = WRITE_LOCK)" tid for tid
  by unfold_locales
    (auto simp: freeze_visit_def freeze_cell_def node_links_def split: lock_status.split)

interpretation unlocking: transaction_visitor "unlock_visit tid" "unlock_cell tid"
  "\<lambda>c. tid \<in> snd c \<and> (fst c = WRITE_LOCK \<or> fst c = READ_LOCK \<and> snd c - {tid} = {})" tid for tid
  by unfold_locales
    (auto simp: unlock_visit_def unlock_cell_def node_links_def split: lock_status.split)

text \<open>
  \<open>freeze\<close> makes every lock of the transaction permanent, on all keys, and runs every event
  that waits for one of them.
\<close>

lemma freeze_ok:
  assumes "lm_inv m"
  shows "\<exists>m' events. freeze m tid = Some (m', events) \<and> lm_inv m'
    \<and> lm_trans m' = (lm_trans m)(tid := None)
    \<and> (\<forall>k ts. lock_at m' k ts = freeze_cell tid (lock_at m k ts))
    \<and> (\<forall>k ts. tid \<in> snd (lock_at m k ts) \<longrightarrow> set (waiters m k ts) \<subseteq> set events)"
proof -
  from freezing.release_ok [OF assms, of tid] obtain m' events where
    r: "freeze m tid = Some (m', events)" "\<exists>F. lm_shape m' F" "lm_trans m' = (lm_trans m)(tid := None)"
    "\<forall>k ts. lock_at m' k ts = freeze_cell tid (lock_at m k ts)"
    "\<forall>k ts. tid \<in> snd (lock_at m k ts) \<longrightarrow> tid \<in> snd (lock_at m k ts) \<and>
      (fst (lock_at m k ts) = READ_LOCK \<or> fst (lock_at m k ts) = WRITE_LOCK) \<longrightarrow>
      set (waiters m k ts) \<subseteq> set events"
    unfolding freeze_def by blast
  have "lm_inv m'"
  proof (rule release_inv [OF assms r(2-4)])
    show "cell_wf (freeze_cell tid (lock_at m k ts))" for k ts
      using lm_inv_wf [OF assms, of k ts] by (auto simp: freeze_cell_def cell_wf_def)
    show "t \<in> snd (lock_at m k ts) \<and> t \<noteq> tid" if "t \<in> snd (freeze_cell tid (lock_at m k ts))" for k ts t
      using that held_status [OF lm_inv_wf [OF assms], of tid k ts]
      by (auto simp: freeze_cell_def split: if_splits)
  qed
  moreover have "\<forall>k ts. tid \<in> snd (lock_at m k ts) \<longrightarrow> set (waiters m k ts) \<subseteq> set events"
    using r(5) held_status [OF lm_inv_wf [OF assms]] by blast
  ultimately show ?thesis using r(1,3,4) by blast
qed

text \<open>
  \<open>unlock\<close> removes every lock of a transaction that shares none of its read locks.
\<close>

definition shares_reads :: "lock_manager \<Rightarrow> u64 \<Rightarrow> bool" where
  "shares_reads m tid \<longleftrightarrow> (\<exists>k ts. tid \<in> snd (lock_at m k ts) \<and> snd (lock_at m k ts) \<noteq> {tid})"

lemma unlock_ok:
  assumes "lm_inv m" "\<not> shares_reads m tid"
  shows "\<exists>m' events. unlock m tid = Some (m', events) \<and> lm_inv m'
    \<and> lm_trans m' = (lm_trans m)(tid := None)
    \<and> (\<forall>k ts. lock_at m' k ts = (if tid \<in> snd (lock_at m k ts) then (FREE, {}) else lock_at m k ts))
    \<and> (\<forall>k ts. tid \<in> snd (lock_at m k ts) \<longrightarrow> set (waiters m k ts) \<subseteq> set events)"
proof -
  have sole: "snd (lock_at m k ts) = {tid}" if "tid \<in> snd (lock_at m k ts)" for k ts
    using assms(2) that by (auto simp: shares_reads_def)
  from unlocking.release_ok [OF assms(1), of tid] obtain m' events where
    r: "unlock m tid = Some (m', events)" "\<exists>F. lm_shape m' F" "lm_trans m' = (lm_trans m)(tid := None)"
    "\<forall>k ts. lock_at m' k ts = unlock_cell tid (lock_at m k ts)"
    "\<forall>k ts. tid \<in> snd (lock_at m k ts) \<longrightarrow> tid \<in> snd (lock_at m k ts) \<and>
      (fst (lock_at m k ts) = WRITE_LOCK \<or> fst (lock_at m k ts) = READ_LOCK \<and> snd (lock_at m k ts) - {tid} = {}) \<longrightarrow>
      set (waiters m k ts) \<subseteq> set events"
    unfolding unlock_def by blast
  have u: "unlock_cell tid (lock_at m k ts) = (if tid \<in> snd (lock_at m k ts) then (FREE, {}) else lock_at m k ts)" for k ts
    using held_status [OF lm_inv_wf [OF assms(1)], of tid k ts] sole [of k ts] by (simp add: unlock_cell_def)
  have "lm_inv m'"
  proof (rule release_inv [OF assms(1) r(2-4)])
    show "cell_wf (unlock_cell tid (lock_at m k ts))" for k ts
      using lm_inv_wf [OF assms(1), of k ts] by (simp add: u cell_wf_def)
    show "t \<in> snd (lock_at m k ts) \<and> t \<noteq> tid" if "t \<in> snd (unlock_cell tid (lock_at m k ts))" for k ts t
      using that by (auto simp: u split: if_splits)
  qed
  moreover have "\<forall>k ts. tid \<in> snd (lock_at m k ts) \<longrightarrow> set (waiters m k ts) \<subseteq> set events"
  proof (intro allI impI)
    fix k ts assume t: "tid \<in> snd (lock_at m k ts)"
    from held_status [OF lm_inv_wf [OF assms(1)] t] sole [OF t] t r(5)
    show "set (waiters m k ts) \<subseteq> set events" by auto
  qed
  ultimately show ?thesis using r(1,3,4) unfolding u by blast
qed

end
