(* ===== verification/Lock_Grant.thy ===== *)
theory Lock_Grant
  imports Lock_Spec
begin

text \<open>
  The lock operations against the lock table and the invariant: what a granted request has
  acquired, and that a refused \<open>tryLock\<close> changes nothing.
\<close>

section \<open>Recording an interval\<close>

lemma map_of_ok: "trans_ok tr \<Longrightarrow> tr tid = Some ivs \<Longrightarrow> map_of ivs k = Some (s, e) \<Longrightarrow> s \<noteq> 0"
  unfolding trans_ok_def by (metis (mono_tags, lifting) case_prod_conv map_of_SomeD)

lemma note_lock_other: "tid' \<noteq> tid \<Longrightarrow> note_lock tr tid key s e tid' = tr tid'"
  by (simp add: note_lock_def Let_def)

lemma note_lock_same:
  assumes "trans_ok tr"
  shows "\<exists>ivs. note_lock tr tid key s e tid = Some ivs \<and> smap_ok ivs
    \<and> map_of ivs key = Some (hull (case tr tid of None \<Rightarrow> None | Some old \<Rightarrow> map_of old key) s e)
    \<and> (\<forall>k. k \<noteq> key \<longrightarrow> map_of ivs k = (case tr tid of None \<Rightarrow> None | Some old \<Rightarrow> map_of old k))"
proof (cases "tr tid")
  case None
  then show ?thesis by (simp add: note_lock_def smap_ok_def)
next
  case (Some old)
  with assms have "smap_ok old" by (simp add: trans_ok_def)
  with Some show ?thesis by (simp add: note_lock_def)
qed

lemma note_lock_noted:
  assumes "trans_ok tr"
  shows "s \<le> ts \<Longrightarrow> ts \<le> e \<Longrightarrow> noted (note_lock tr tid key s e) tid key ts"
    and "noted tr tid' k ts \<Longrightarrow> noted (note_lock tr tid key s e) tid' k ts"
proof -
  from note_lock_same [OF assms, of tid key s e] obtain ivs where
    i: "note_lock tr tid key s e tid = Some ivs" "smap_ok ivs"
    "map_of ivs key = Some (hull (case tr tid of None \<Rightarrow> None | Some old \<Rightarrow> map_of old key) s e)"
    "\<forall>k. k \<noteq> key \<longrightarrow> map_of ivs k = (case tr tid of None \<Rightarrow> None | Some old \<Rightarrow> map_of old k)" by blast
  obtain s1 e1 where h: "hull (case tr tid of None \<Rightarrow> None | Some old \<Rightarrow> map_of old key) s e = (s1, e1)"
    by (cases "hull (case tr tid of None \<Rightarrow> None | Some old \<Rightarrow> map_of old key) s e")
  then have "s1 \<le> s" "e \<le> e1" by (auto simp: hull_def split: option.splits)
  with i(1,3) h show "noted (note_lock tr tid key s e) tid key ts" if "s \<le> ts" "ts \<le> e"
    using that by (auto simp: noted_def)
  show "noted (note_lock tr tid key s e) tid' k ts" if n: "noted tr tid' k ts"
  proof (cases "tid' = tid")
    case False
    with n show ?thesis by (simp add: noted_def note_lock_other)
  next
    case True
    from n True obtain old s2 e2 where o: "tr tid = Some old" "map_of old k = Some (s2, e2)" "s2 \<le> ts" "ts \<le> e2"
      by (auto simp: noted_def)
    show ?thesis
    proof (cases "k = key")
      case True
      with o h have "s1 \<le> s2" "e2 \<le> e1" by (auto simp: hull_def)
      with o i(1,3) h True \<open>tid' = tid\<close> show ?thesis
        by (auto simp: noted_def)
    next
      case False
      with i(1,4) o \<open>tid' = tid\<close> show ?thesis by (auto simp: noted_def)
    qed
  qed
qed

lemma note_lock_ok:
  assumes "trans_ok tr" "s \<noteq> 0"
  shows "trans_ok (note_lock tr tid key s e)"
  unfolding trans_ok_def
proof (intro allI impI)
  fix tid' ivs assume a: "note_lock tr tid key s e tid' = Some ivs"
  show "smap_ok ivs \<and> (\<forall>(k, (s, e)) \<in> set ivs. s \<noteq> 0)"
  proof (cases "tid' = tid")
    case False
    with a assms(1) show ?thesis by (simp add: note_lock_other trans_ok_def)
  next
    case True
    from note_lock_same [OF assms(1), of tid key s e] a True have
      i: "smap_ok ivs" "map_of ivs key = Some (hull (case tr tid of None \<Rightarrow> None | Some old \<Rightarrow> map_of old key) s e)"
      "\<forall>k. k \<noteq> key \<longrightarrow> map_of ivs k = (case tr tid of None \<Rightarrow> None | Some old \<Rightarrow> map_of old k)"
      by auto
    have "s' \<noteq> 0" if "(k, (s', e')) \<in> set ivs" for k s' e'
    proof -
      from that i(1) have m: "map_of ivs k = Some (s', e')"
        by (simp add: smap_ok_distinct)
      show ?thesis
      proof (cases "k = key")
        case True
        show ?thesis
        proof (cases "case tr tid of None \<Rightarrow> None | Some old \<Rightarrow> map_of old key")
          case None
          with m i(2) True assms(2) show ?thesis by (simp add: hull_def)
        next
          case (Some p)
          moreover obtain s2 e2 where "p = (s2, e2)" by (cases p)
          moreover from Some this have "s2 \<noteq> 0"
            using map_of_ok [OF assms(1), of tid _ key s2 e2] by (cases "tr tid") auto
          ultimately show ?thesis using m i(2) True assms(2) by (auto simp: hull_def min_def split: if_splits)
        qed
      next
        case False
        with m i(3) map_of_ok [OF assms(1), of tid] show ?thesis
          by (cases "tr tid") auto
      qed
    qed
    with i(1) show ?thesis by auto
  qed
qed

section \<open>Acquiring keeps the invariant\<close>

lemma acquire_wf:
  "cell_wf c \<Longrightarrow> passes is_read (fst c) \<Longrightarrow> cell_wf (acquire is_read tid c)"
  by (cases c; cases "fst c") (auto simp: cell_wf_def acquire_def passes_def)

lemma acquire_tids: "t \<in> snd (acquire is_read tid c) \<Longrightarrow> t = tid \<or> t \<in> snd c"
  by (auto simp: acquire_def split: lock_status.splits)

lemma acquire_inv:
  assumes "lm_inv m" "lm_shape m' F" "lm_trans m' = note_lock (lm_trans m) tid key s e" "s \<noteq> 0"
    and "\<And>k ts. lock_at m' k ts = (if k = key \<and> s \<le> ts \<and> ts \<le> e
      then acquire is_read tid (lock_at m k ts) else lock_at m k ts)"
    and "\<And>ts. s \<le> ts \<Longrightarrow> ts \<le> e \<Longrightarrow> passes is_read (fst (lock_at m key ts))"
  shows "lm_inv m'"
proof (rule lm_invI [OF assms(2)])
  note tr = lm_inv_trans [OF assms(1)]
  show "trans_ok (lm_trans m')" unfolding assms(3) using note_lock_ok [OF tr assms(4)] .
  show "cell_wf (lock_at m' k ts)" for k ts
    using lm_inv_wf [OF assms(1), of k ts] assms(6) [of ts] by (auto simp: assms(5) acquire_wf)
  show "noted (lm_trans m') t k ts" if "t \<in> snd (lock_at m' k ts)" for t k ts
    using that acquire_tids [of t is_read tid "lock_at m k ts"] lm_inv_noted [OF assms(1), of t k ts]
      note_lock_noted [OF tr] by (auto simp: assms(3,5) split: if_splits)
qed

text \<open>A granted request registers no event.\<close>

lemma granted_events:
  assumes "lm_inv m" "tryBackwardLock m key tid ts_end is_read event ts_start = Some (m', True, x)"
  shows "registered m' = registered m"
proof -
  from lm_inv_shape [OF assms(1)] obtain F where "lm_shape m F" by blast
  from tryBackwardLock_ok [OF this, of key tid ts_end is_read event ts_start] assms(2) show ?thesis by auto
qed

lemma tryBackwardLock_inv:
  assumes "lm_inv m" "ts_end \<noteq> - 1"
  shows "\<exists>m' stop. tryBackwardLock m key tid ts_end is_read event ts_start
      = Some (m', \<not> waits is_read (fst (lock_at m key stop)), stop + 1)
    \<and> lm_inv m' \<and> stop \<le> ts_end \<and> stop < stop + 1
    \<and> \<not> passes is_read (fst (lock_at m key stop))
    \<and> (\<forall>ts. stop < ts \<and> ts \<le> ts_end \<longrightarrow> passes is_read (fst (lock_at m key ts)))
    \<and> (\<forall>k ts. lock_at m' k ts =
          (if k = key \<and> stop < ts \<and> ts \<le> ts_end then acquire is_read tid (lock_at m k ts)
           else lock_at m k ts))
    \<and> (waits is_read (fst (lock_at m key stop)) \<longrightarrow> event \<in> set (waiters m' key stop))"
proof -
  from lm_inv_shape [OF assms(1)] obtain F where "lm_shape m F" by blast
  from tryBackwardLock_ok [OF this, of key tid ts_end is_read event ts_start] obtain m' F' stop where
    t: "tryBackwardLock m key tid ts_end is_read event ts_start
      = Some (m', \<not> waits is_read (fst (lock_at m key stop)), stop + 1)"
    "lm_shape m' F'" "stop \<le> ts_end" "\<not> passes is_read (fst (lock_at m key stop))"
    "\<forall>ts. stop < ts \<and> ts \<le> ts_end \<longrightarrow> passes is_read (fst (lock_at m key ts))"
    "\<forall>k ts. lock_at m' k ts = (if k = key \<and> stop < ts \<and> ts \<le> ts_end
      then acquire is_read tid (lock_at m k ts) else lock_at m k ts)"
    "lm_trans m' = note_lock (lm_trans m) tid key (stop + 1) ts_end"
    "waits is_read (fst (lock_at m key stop)) \<longrightarrow> event \<in> set (waiters m' key stop)" by blast
  have "stop < - 1"
    using t(3) assms(2) by (metis order.not_eq_order_implies_strict order.strict_trans1 word_order.extremum)
  from unat_succ [OF this] have s: "stop + 1 \<noteq> 0" "stop + 1 \<le> ts \<longleftrightarrow> stop < ts" "stop < stop + 1" for ts
    by (auto simp: word_le_nat_alt word_less_nat_alt)
  have "lm_inv m'"
    by (rule acquire_inv [OF assms(1) t(2,7) s(1), of is_read]) (use t(5,6) s(2) in auto)
  with t s(3) show ?thesis by blast
qed

section \<open>\<open>tryLock\<close> inside one interval\<close>

lemma same_interval:
  assumes "interval_tree h root t" "a \<in> set_tree t" "b \<in> set_tree t" "h a = Some n" "h b = Some m"
    and "covers h a ts" "covers h b ts'" "n_end n = n_end m"
  shows "a = b"
proof -
  have "a \<in> set (inorder t)" using assms(2) by simp
  then obtain us vs where i: "inorder t = us @ a # vs" by (meson split_list)
  have "covers h a (n_end n)" "covers h b (n_end n)" using assms(4-8) by (auto simp: covers_def)
  moreover have "seg h (us @ a # vs) 0 18446744073709551616" using assms(1) i by (simp add: interval_tree_def)
  moreover have "b \<in> set (us @ a # vs)" using assms(3) set_inorder [of t] by (simp only: i)
  ultimately show ?thesis using seg_covers_unique by metis
qed

text \<open>The body of the second loop: cut the node on both sides and take it.\<close>

lemma cut_lower:
  assumes "key_tree h root t" "inorder t = us @ a # vs" "h a = Some n" "n_start n \<le> s" "s \<le> n_end n"
    and "n_status n \<noteq> FREEZE_WRITE_LOCK" "next \<notin> set_tree t"
  shows "\<exists>h' next' root' t' us' n'.
      (if n_start n < s then cut_before (h, next) a s else Some ((h, next), root)) = Some ((h', next'), root')
    \<and> key_tree h' root' t' \<and> inorder t' = us' @ a # vs \<and> next \<le> next'
    \<and> set_tree t' \<subseteq> set_tree t \<union> {next..<next'} \<and> (\<forall>x. x \<notin> set_tree t' \<longrightarrow> h' x = h x)
    \<and> (\<forall>ts. cell_at h' root' ts = cell_at h root ts)
    \<and> h' a = Some n' \<and> node_data n' = (n_status n, s, n_end n, n_tids n)"
proof (cases "n_start n < s")
  case True
  from cut_before_key [OF assms(1-3) True assms(5,7,6)] obtain h' root' t' n' where
    c: "cut_before (h, next) a s = Some ((h', Suc next), root')" "key_tree h' root' t'"
    "inorder t' = us @ next # a # vs" "\<forall>x. x \<notin> set_tree t' \<longrightarrow> h' x = h x"
    "\<forall>ts. cell_at h' root' ts = cell_at h root ts" "h' a = Some n'"
    "node_data n' = (n_status n, s, n_end n, n_tids n)" by blast
  have "set_tree t' \<subseteq> set_tree t \<union> {next..<Suc next}"
    using assms(2) c(3) set_inorder [of t] set_inorder [of t'] by auto
  with True c show ?thesis
    by (intro exI [of _ h'] exI [of _ "Suc next"] exI [of _ root'] exI [of _ t'] exI [of _ "us @ [next]"] exI [of _ n']) simp
next
  case False
  with assms(4) have "n_start n = s" by simp
  with False assms show ?thesis
    by (intro exI [of _ h] exI [of _ "next"] exI [of _ root] exI [of _ t] exI [of _ us] exI [of _ n])
      (simp add: node_data_def)
qed

lemma cut_upper:
  assumes "key_tree h root t" "inorder t = us @ a # vs" "h a = Some n" "n_start n \<le> e" "e \<le> n_end n"
    and "n_status n \<noteq> FREEZE_WRITE_LOCK" "next \<notin> set_tree t"
  shows "\<exists>h' next' root' t' n'.
      (if n_end n > e then cut_after (h, next) a e else Some ((h, next), root)) = Some ((h', next'), root')
    \<and> key_tree h' root' t' \<and> set_tree t \<subseteq> set_tree t' \<and> next \<le> next'
    \<and> set_tree t' \<subseteq> set_tree t \<union> {next..<next'} \<and> (\<forall>x. x \<notin> set_tree t' \<longrightarrow> h' x = h x)
    \<and> (\<forall>ts. cell_at h' root' ts = cell_at h root ts)
    \<and> h' a = Some n' \<and> node_data n' = (n_status n, n_start n, e, n_tids n)"
proof (cases "e < n_end n")
  case True
  from cut_after_key [OF assms(1-4) True assms(7,6)] obtain h' root' t' n' where
    c: "cut_after (h, next) a e = Some ((h', Suc next), root')" "key_tree h' root' t'"
    "inorder t' = us @ a # next # vs" "\<forall>x. x \<notin> set_tree t' \<longrightarrow> h' x = h x"
    "\<forall>ts. cell_at h' root' ts = cell_at h root ts" "h' a = Some n'"
    "node_data n' = (n_status n, n_start n, e, n_tids n)" by blast
  have "set_tree t' \<subseteq> set_tree t \<union> {next..<Suc next}" "set_tree t \<subseteq> set_tree t'"
    using assms(2) c(3) set_inorder [of t] set_inorder [of t'] by auto
  with True c show ?thesis
    by (intro exI [of _ h'] exI [of _ "Suc next"] exI [of _ root'] exI [of _ t'] exI [of _ n']) simp
next
  case False
  with assms(5) have "n_end n = e" by simp
  with False assms show ?thesis
    by (intro exI [of _ h] exI [of _ "next"] exI [of _ root] exI [of _ t] exI [of _ n])
      (simp add: node_data_def)
qed

lemma lock_pending_ok:
  assumes "key_tree h root t" "inorder t = us @ a # vs" "h a = Some n" "n_start n \<le> s" "s \<le> e" "e \<le> n_end n"
    and "lock_check is_read (n_status n) = Some True" "\<forall>x \<in> set_tree t. x < next"
  shows "\<exists>h' next' root' t'. lock_pending tid s e is_read ((h, next), root) a = Some ((h', next'), root')
    \<and> key_tree h' root' t' \<and> next \<le> next' \<and> set_tree t' \<subseteq> set_tree t \<union> {next..<next'}
    \<and> (\<forall>x. x \<notin> set_tree t' \<longrightarrow> h' x = h x)
    \<and> (\<forall>ts. cell_at h' root' ts = (if s \<le> ts \<and> ts \<le> e
          then map_option (acquire is_read tid) (cell_at h root ts) else cell_at h root ts))"
proof -
  have st: "n_status n \<noteq> FREEZE_WRITE_LOCK" "next \<notin> set_tree t" "s \<le> n_end n"
    using assms(5-8) by (auto simp: lock_check_def)
  from cut_lower [OF assms(1-4) st(3,1,2)] obtain h1 next1 root1 t1 us1 n1 where
    l: "(if n_start n < s then cut_before (h, next) a s else Some ((h, next), root)) = Some ((h1, next1), root1)"
    "key_tree h1 root1 t1" "inorder t1 = us1 @ a # vs" "next \<le> next1"
    "set_tree t1 \<subseteq> set_tree t \<union> {next..<next1}" "\<forall>x. x \<notin> set_tree t1 \<longrightarrow> h1 x = h x"
    "\<forall>ts. cell_at h1 root1 ts = cell_at h root ts"
    "h1 a = Some n1" "node_data n1 = (n_status n, s, n_end n, n_tids n)" by metis
  have n1: "n_status n1 = n_status n" "n_start n1 = s" "n_end n1 = n_end n" "n_tids n1 = n_tids n"
    using l(9) by (simp_all add: node_data_def)
  have "next1 \<notin> set_tree t1" using l(4,5) assms(8) by fastforce
  with cut_upper [OF l(2,3,8), of e next1] n1 assms(5,6) st(1) obtain h2 next2 root2 t2 n2 where
    u: "(if n_end n1 > e then cut_after (h1, next1) a e else Some ((h1, next1), root1)) = Some ((h2, next2), root2)"
    "key_tree h2 root2 t2" "set_tree t1 \<subseteq> set_tree t2" "next1 \<le> next2"
    "set_tree t2 \<subseteq> set_tree t1 \<union> {next1..<next2}" "\<forall>x. x \<notin> set_tree t2 \<longrightarrow> h2 x = h1 x"
    "\<forall>ts. cell_at h2 root2 ts = cell_at h1 root1 ts"
    "h2 a = Some n2" "node_data n2 = (n_status n, s, e, n_tids n)" by metis
  have a: "a \<in> set_tree t2" using u(3) l(3) set_inorder [of t1] by auto
  have n2: "n_status n2 = n_status n" "n_start n2 = s" "n_end n2 = e" "n_tids n2 = n_tids n"
    using u(9) by (simp_all add: node_data_def)
  let ?n' = "n2\<lparr>n_status := (if is_read then READ_LOCK else WRITE_LOCK), n_tids := insert tid (n_tids n2)\<rparr>"
  have links: "node_links ?n' = node_links n2" by (simp add: node_links_def)
  have "lock_pending tid s e is_read ((h, next), root) a = Some ((h2(a \<mapsto> ?n'), next2), root2)"
    using assms(3) l(1,8) u(1,8) n1 by (simp add: lock_pending_def upd_Some)
  moreover have "key_tree (h2(a \<mapsto> ?n')) root2 t2"
    using key_tree_status [OF u(2,8) _ links] n2 st(1) by simp
  moreover have "cell_at (h2(a \<mapsto> ?n')) root2 ts = (if s \<le> ts \<and> ts \<le> e
      then map_option (acquire is_read tid) (cell_at h root ts) else cell_at h root ts)" for ts
  proof -
    have c: "cell_at h2 root2 ts = cell_at h root ts" using l(7) u(7) by simp
    have "cell_at h2 root2 ts = Some (n_status n2, n_tids n2)" if "s \<le> ts \<and> ts \<le> e"
      using cell_at_covers [OF key_tree_interval [OF u(2)] a _ u(8)] that n2 u(8) by (simp add: covers_def)
    with cell_at_status [OF key_tree_interval [OF u(2)] a u(8) links] c n2 assms(7) show ?thesis
      by (auto simp: acquire_def lock_check_def split: lock_status.splits if_splits)
  qed
  moreover have "next \<le> next2" "set_tree t2 \<subseteq> set_tree t \<union> {next..<next2}" using l(4,5) u(4,5) by fastforce+
  moreover have "\<forall>x. x \<notin> set_tree t2 \<longrightarrow> (h2(a \<mapsto> ?n')) x = h x"
  proof (intro allI impI)
    fix x assume x: "x \<notin> set_tree t2"
    with u(3) have "x \<notin> set_tree t1" by blast
    with x a u(6) l(6) show "(h2(a \<mapsto> ?n')) x = h x" by auto
  qed
  ultimately show ?thesis by blast
qed

lemma check_loop_one:
  assumes "h a = Some n" "n_start n \<le> ts_start"
  shows "check_loop h ts_start is_read (locks @ [a]) [] =
    (case lock_check is_read (n_status n) of
       None \<Rightarrow> Some None | Some b \<Rightarrow> Some (Some (if b then [a] else [])))"
  using assms by (subst check_loop.simps) (auto simp: Let_def split: option.split)

lemma lock_check_passes: "lock_check is_read s = None \<longleftrightarrow> \<not> passes is_read s"
  by (cases s) (auto simp: lock_check_def passes_def)

text \<open>
  The second loop on the nodes that the first one left pending, none or just \<open>a\<close>: the tree
  after it and the table it stands for.
\<close>

lemma lock_pendings_ok:
  assumes "key_tree h root t" "inorder t = us @ a # vs" "h a = Some n" "n_start n \<le> s" "s \<le> e" "e \<le> n_end n"
    and "lock_check is_read (n_status n) = Some b" "\<forall>x \<in> set_tree t. x < next"
  shows "\<exists>h' next' root' t'. lock_pendings tid s e is_read ((h, next), root) (if b then [a] else []) =
      Some ((h', next'), root')
    \<and> key_tree h' root' t' \<and> next \<le> next' \<and> set_tree t' \<subseteq> set_tree t \<union> {next..<next'}
    \<and> (\<forall>x. x \<notin> set_tree t' \<longrightarrow> h' x = h x)
    \<and> (\<forall>ts. cell_at h' root' ts = (if s \<le> ts \<and> ts \<le> e
          then map_option (acquire is_read tid) (cell_at h root ts) else cell_at h root ts))"
proof (cases b)
  case True
  with lock_pending_ok [OF assms(1-6) _ assms(8)] assms(7) show ?thesis by auto
next
  case False
  with assms(7) have st: "n_status n = FREEZE_READ_LOCK"
    by (cases "n_status n") (auto simp: lock_check_def split: if_splits)
  have a: "a \<in> set_tree t" using assms(2) set_inorder [of t] by auto
  have "cell_at h root ts = Some (n_status n, n_tids n)" if "s \<le> ts \<and> ts \<le> e" for ts
  proof -
    have "covers h a ts" using that assms(3) order.trans [OF assms(4), of ts] order.trans [OF _ assms(6), of ts]
      by (simp add: covers_def)
    with cell_at_covers [OF key_tree_interval [OF assms(1)] a _ assms(3)] show ?thesis by simp
  qed
  with st have "cell_at h root ts = (if s \<le> ts \<and> ts \<le> e
      then map_option (acquire is_read tid) (cell_at h root ts) else cell_at h root ts)" for ts
    by (simp add: acquire_def)
  with False assms(1) show ?thesis
    by (intro exI [of _ h] exI [of _ "next"] exI [of _ root] exI [of _ t]) simp
qed

text \<open>When both ends are in one interval, the node that is found is that interval.\<close>

lemma one_interval:
  assumes "key_tree h root t" "ts_start \<le> ts_end" "end_at h root ts_start = end_at h root ts_end"
  shows "\<exists>us a vs locks n. inorder t = us @ a # vs \<and> node_find h root [] ts_end = Some (locks @ [a]) \<and> h a = Some n
    \<and> n_start n \<le> ts_start \<and> ts_end \<le> n_end n
    \<and> (\<forall>ts. ts_start \<le> ts \<and> ts \<le> ts_end \<longrightarrow> cell_at h root ts = Some (n_status n, n_tids n))"
proof -
  note it = key_tree_interval [OF assms(1)]
  from find_top [OF assms(1), of ts_end] obtain us a vs locks n where
    a: "inorder t = us @ a # vs" "node_find h root [] ts_end = Some (locks @ [a])"
    "h a = Some n" "covers h a ts_end" by metis
  have at: "a \<in> set_tree t" using a(1) set_inorder [of t] by auto
  from covers_exists [OF it, of ts_start] obtain b m0 where
    b: "b \<in> set_tree t" "h b = Some m0" "covers h b ts_start" by blast
  have "n_end m0 = n_end n"
    using end_at_covers [OF it b(1,3,2)] end_at_covers [OF it at a(4,3)] assms(3) by simp
  with same_interval [OF it at b(1) a(3) b(2) a(4) b(3)] have "a = b" by simp
  with a(3,4) b(3) have iv: "n_start n \<le> ts_start" "ts_end \<le> n_end n" by (auto simp: covers_def)
  have "cell_at h root ts = Some (n_status n, n_tids n)" if "ts_start \<le> ts" "ts \<le> ts_end" for ts
  proof -
    have "n_start n \<le> ts" "ts \<le> n_end n" using iv that by auto
    with a(3) have "covers h a ts" by (simp add: covers_def)
    with cell_at_covers [OF it at _ a(3)] show ?thesis by simp
  qed
  with a(1-3) iv show ?thesis by blast
qed

text \<open>The updates of a granted lock.\<close>

lemma granted_ok:
  assumes "lm_inv m" "lm_shape m1 F" "lm_keys m1 key = Some ki" "lock_at m1 = lock_at m" "lm_trans m1 = lm_trans m"
    and "inorder (F key) = us @ a # vs" "lm_heap m1 a = Some n" "n_start n \<le> ts_start" "ts_start \<le> ts_end" "ts_end \<le> n_end n"
    and "lock_check is_read (n_status n) = Some p"
    and cov: "\<forall>ts. ts_start \<le> ts \<and> ts \<le> ts_end \<longrightarrow> lock_at m key ts = (n_status n, n_tids n)"
  shows "\<exists>h' next' root' m'. lock_pendings tid ts_start ts_end is_read ((lm_heap m1, lm_next m1), ki_root ki) (if p then [a] else []) =
        Some ((h', next'), root')
    \<and> m' = (addTransactionLock (m1\<lparr>lm_heap := h', lm_next := next'\<rparr>) tid key ts_start ts_end)
        \<lparr>lm_keys := (lm_keys m1)(key \<mapsto> ki\<lparr>ki_root := root'\<rparr>)\<rparr>
    \<and> lm_inv m' \<and> lm_trans m' = note_lock (lm_trans m) tid key ts_start ts_end
    \<and> (\<forall>k ts. lock_at m' k ts = (if k = key \<and> ts_start \<le> ts \<and> ts \<le> ts_end
        then acquire is_read tid (lock_at m k ts) else lock_at m k ts))"
proof -
  let ?h = "lm_heap m1" and ?root = "ki_root ki" and ?t = "F key"
  have kt: "key_tree ?h ?root ?t" using lm_shape_key [OF assms(2,3)] .
  have cells: "cell_at ?h ?root ts = Some (lock_at m key ts)" for ts
    using lock_at_some [OF assms(2,3)] assms(4) by simp
  have ps: "passes is_read (n_status n)" using lock_check_passes [of is_read "n_status n"] assms(11) by simp
  have below: "\<forall>x \<in> set_tree ?t. x < lm_next m1"
    using lm_shape_tree_below [OF assms(2), of key] assms(3) by blast
  from lock_pendings_ok [OF kt assms(6-11) below, of tid] obtain h' next' root' t' where
    l: "lock_pendings tid ts_start ts_end is_read ((?h, lm_next m1), ?root) (if p then [a] else []) =
      Some ((h', next'), root')"
    "key_tree h' root' t'" "lm_next m1 \<le> next'" "set_tree t' \<subseteq> set_tree ?t \<union> {lm_next m1..<next'}"
    "\<forall>x. x \<notin> set_tree t' \<longrightarrow> h' x = ?h x"
    "\<forall>ts. cell_at h' root' ts = (if ts_start \<le> ts \<and> ts \<le> ts_end
        then map_option (acquire is_read tid) (cell_at ?h ?root ts) else cell_at ?h ?root ts)" by blast
  define m' where "m' = (addTransactionLock (m1\<lparr>lm_heap := h', lm_next := next'\<rparr>) tid key ts_start ts_end)
    \<lparr>lm_keys := (lm_keys m1)(key \<mapsto> ki\<lparr>ki_root := root'\<rparr>)\<rparr>"
  have m': "lm_heap m' = h'" "lm_next m' = next'" "lm_keys m' = (lm_keys m1)(key \<mapsto> ki\<lparr>ki_root := root'\<rparr>)"
    "lm_trans m' = note_lock (lm_trans m) tid key ts_start ts_end"
    by (simp_all add: m'_def assms(5))
  have "key_tree h' (ki_root (ki\<lparr>ki_root := root'\<rparr>)) t'" using l(2) by simp
  moreover have "set_tree t' \<subseteq> (if lm_keys m1 key = None then {} else set_tree ?t) \<union> {lm_next m1..<next'}"
    using l(4) assms(3) by simp
  ultimately have shape: "lm_shape m' (F(key := t'))" and other: "k \<noteq> key \<Longrightarrow> lock_at m' k = lock_at m1 k" for k
    using lm_shape_update [OF assms(2) _ l(5) _ l(3) m'(1-3)] by blast+
  have table: "lock_at m' k ts = (if k = key \<and> ts_start \<le> ts \<and> ts \<le> ts_end
      then acquire is_read tid (lock_at m k ts) else lock_at m k ts)" for k ts
  proof (cases "k = key")
    case True
    have "cell_at h' root' ts = Some (lock_at m' key ts)"
      using lock_at_some [OF shape, of key "ki\<lparr>ki_root := root'\<rparr>" ts] m' by simp
    with l(6) cells [of ts] True show ?thesis by (auto split: if_splits)
  next
    case False
    with other assms(4) show ?thesis by simp
  qed
  have nz: "ts_start \<noteq> 0"
  proof
    assume "ts_start = 0"
    with cov assms(9) lock_at_some [OF assms(2,3), of 0] key_tree_cell_0 [OF kt] assms(4)
    have "n_status n = FREEZE_WRITE_LOCK" by simp
    with ps show False by (simp add: passes_def)
  qed
  have "lm_inv m'"
    by (rule acquire_inv [OF assms(1) shape m'(4) nz table]) (use cov ps in simp)
  with l(1) table m'(4) show ?thesis unfolding m'_def by blast
qed

lemma tryLock_ok:
  assumes inv: "lm_inv m" and le: "ts_start \<le> ts_end"
    and one: "interval_end m key ts_start = interval_end m key ts_end"
  shows "\<exists>m'. tryLock m key tid ts_start ts_end is_read = Some (m', passes is_read (fst (lock_at m key ts_end)))
    \<and> lm_inv m'
    \<and> (\<forall>k ts. lock_at m' k ts =
          (if passes is_read (fst (lock_at m key ts_end)) \<and> k = key \<and> ts_start \<le> ts \<and> ts \<le> ts_end
           then acquire is_read tid (lock_at m k ts) else lock_at m k ts))
    \<and> lm_trans m' = (if passes is_read (fst (lock_at m key ts_end))
          then note_lock (lm_trans m) tid key ts_start ts_end else lm_trans m)"
proof -
  from lm_inv_shape [OF inv] obtain F where "lm_shape m F" by blast
  from createKeyInfo_ok [OF this, of key] obtain m1 F1 ki where
    c: "createKeyInfo m key = Some m1" "lm_shape m1 F1" "lm_keys m1 key = Some ki"
    "lock_at m1 = lock_at m" "lm_trans m1 = lm_trans m" "interval_end m1 key = interval_end m key" by blast
  let ?h = "lm_heap m1" and ?root = "ki_root ki"
  have kt: "key_tree ?h ?root (F1 key)" using lm_shape_key [OF c(2,3)] .
  have "interval_end m1 key ts_start = interval_end m1 key ts_end" by (simp add: one c(6))
  with c(3) have "end_at ?h ?root ts_start = end_at ?h ?root ts_end" by (simp add: interval_end_def)
  from one_interval [OF kt le this] obtain us a vs locks n where
    a: "inorder (F1 key) = us @ a # vs" "node_find ?h ?root [] ts_end = Some (locks @ [a])" "?h a = Some n"
    "n_start n \<le> ts_start" "ts_end \<le> n_end n"
    and cells: "\<forall>ts. ts_start \<le> ts \<and> ts \<le> ts_end \<longrightarrow> cell_at ?h ?root ts = Some (n_status n, n_tids n)" by blast
  have cov: "\<forall>ts. ts_start \<le> ts \<and> ts \<le> ts_end \<longrightarrow> lock_at m key ts = (n_status n, n_tids n)"
    using cells lock_at_some [OF c(2,3)] c(4) by simp
  then have status: "fst (lock_at m key ts_end) = n_status n" using le by simp
  note check = check_loop_one [where h="?h" and a=a and n=n, OF a(3,4), of is_read locks]
  show ?thesis
  proof (cases "lock_check is_read (n_status n)")
    case None
    then have np: "\<not> passes is_read (n_status n)" by (simp add: lock_check_passes)
    have key1: "(lm_keys m1)(key \<mapsto> ki) = lm_keys m1" using c(3) by (rule fun_upd_idem)
    have "tryLock m key tid ts_start ts_end is_read = Some (m1, False)"
      using c(1,3) a(2) check None by (simp add: tryLock_def set_root_def key1)
    moreover have "lm_inv m1"
      using lm_invI [OF c(2)] lm_inv_trans [OF inv] lm_inv_wf [OF inv] lm_inv_noted [OF inv] c(4,5) by simp
    ultimately show ?thesis using np status c(4,5) by auto
  next
    case (Some p)
    then have ps: "passes is_read (n_status n)" using lock_check_passes [of is_read "n_status n"] by simp
    from granted_ok [OF inv c(2-5) a(1,3,4) le a(5) Some cov, of tid] obtain h' next' root' m' where
      l: "lock_pendings tid ts_start ts_end is_read ((?h, lm_next m1), ?root) (if p then [a] else []) =
        Some ((h', next'), root')"
      and m': "m' = (addTransactionLock (m1\<lparr>lm_heap := h', lm_next := next'\<rparr>) tid key ts_start ts_end)
        \<lparr>lm_keys := (lm_keys m1)(key \<mapsto> ki\<lparr>ki_root := root'\<rparr>)\<rparr>"
      "lm_inv m'" "lm_trans m' = note_lock (lm_trans m) tid key ts_start ts_end"
      "\<forall>k ts. lock_at m' k ts = (if k = key \<and> ts_start \<le> ts \<and> ts \<le> ts_end
        then acquire is_read tid (lock_at m k ts) else lock_at m k ts)" by (elim exE conjE)
    have "tryLock m key tid ts_start ts_end is_read = Some (m', True)"
      using c(1,3) a(2) check Some l by (simp add: tryLock_def set_root_def m'(1) Let_def)
    with m'(2-4) ps status show ?thesis by auto
  qed
qed

end
