(* ===== verification/Lock_Interface.thy ===== *)
theory Lock_Interface
  imports Lock_Grant
begin

text \<open>
  \<open>LockManager\<close> (\<open>src/src/LockManager.h\<close>) as an interface: what the transaction server may
  rely on, stated on the lock table only, what follows for its transactions, and the proof
  that the AVL tree lock manager provides it.  Operations interleave in any order, so the
  guarantees that matter to multiversion timestamp ordering are stated for every sequence of
  operations.
\<close>

section \<open>Operations\<close>

text \<open>The operations on a point, as the server issues them, without their results.\<close>

datatype lock_op =
    Backward u64 u64 u64 bool event_id
  | Point u64 u64 u64 bool
  | Freeze u64
  | Unlock u64

fun op_tid :: "lock_op \<Rightarrow> u64" where
  "op_tid (Backward key tid ts is_read event) = tid"
| "op_tid (Point key tid ts is_read) = tid"
| "op_tid (Freeze tid) = tid"
| "op_tid (Unlock tid) = tid"

text \<open>The cell of a lock that keeps its time free of new versions.\<close>

definition read_protected :: "u64 \<Rightarrow> cell \<Rightarrow> bool" where
  "read_protected tid c \<longleftrightarrow> fst c = READ_LOCK \<and> tid \<in> snd c \<or> fst c = FREEZE_READ_LOCK"

definition frozen :: "cell \<Rightarrow> bool" where
  "frozen c \<longleftrightarrow> fst c = FREEZE_READ_LOCK \<or> fst c = FREEZE_WRITE_LOCK"

text \<open>What an operation can do to a cell.\<close>

inductive touched :: "lock_op \<Rightarrow> cell \<Rightarrow> cell \<Rightarrow> bool" where
  kept: "touched op c c"
| taken: "passes is_read (fst c) \<Longrightarrow> touched op c (acquire is_read (op_tid op) c)"
| frozen_by: "touched (Freeze tid) c (freeze_cell tid c)"
| dropped: "snd c = {tid} \<Longrightarrow> touched (Unlock tid) c (FREE, {})"

lemma touched_frozen: "touched op c c' \<Longrightarrow> cell_wf c \<Longrightarrow> frozen c \<Longrightarrow> c' = c"
  by (induction rule: touched.induct)
    (auto simp: frozen_def acquire_def freeze_cell_def cell_wf_def)

lemma touched_protected:
  "touched op c c' \<Longrightarrow> cell_wf c \<Longrightarrow> op \<noteq> Unlock tid \<Longrightarrow> read_protected tid c \<Longrightarrow> read_protected tid c'"
  by (induction rule: touched.induct)
    (auto simp: read_protected_def acquire_def freeze_cell_def cell_wf_def)

lemma protected_no_write: "read_protected t c \<Longrightarrow> \<not> passes False (fst c)"
  by (auto simp: read_protected_def passes_def)

lemma frozen_no_write: "frozen c \<Longrightarrow> \<not> passes False (fst c)"
  by (auto simp: frozen_def passes_def)

section \<open>The interface\<close>

locale lock_service =
  fixes inv :: "'s \<Rightarrow> bool"
    and cell :: "'s \<Rightarrow> u64 \<Rightarrow> u64 \<Rightarrow> cell"
    and waiting :: "'s \<Rightarrow> u64 \<Rightarrow> u64 \<Rightarrow> event_id list"
    and backward :: "'s \<Rightarrow> u64 \<Rightarrow> u64 \<Rightarrow> u64 \<Rightarrow> bool \<Rightarrow> event_id \<Rightarrow> u64 \<Rightarrow> ('s \<times> bool \<times> u64) option"
    and interval :: "'s \<Rightarrow> u64 \<Rightarrow> u64 \<Rightarrow> u64 \<Rightarrow> u64 \<Rightarrow> bool \<Rightarrow> ('s \<times> bool) option"
    and freeze_op :: "'s \<Rightarrow> u64 \<Rightarrow> ('s \<times> event_id list) option"
    and unlock_op :: "'s \<Rightarrow> u64 \<Rightarrow> ('s \<times> event_id list) option"
  assumes cells: "inv m \<Longrightarrow> cell_wf (cell m key ts)"
    and backward_law: "inv m \<Longrightarrow> ts_end \<noteq> - 1 \<Longrightarrow>
      \<exists>m' stop. backward m key tid ts_end is_read event ts_start
          = Some (m', \<not> waits is_read (fst (cell m key stop)), stop + 1)
        \<and> inv m' \<and> stop \<le> ts_end \<and> stop < stop + 1
        \<and> \<not> passes is_read (fst (cell m key stop))
        \<and> (\<forall>ts. stop < ts \<and> ts \<le> ts_end \<longrightarrow> passes is_read (fst (cell m key ts)))
        \<and> (\<forall>k ts. cell m' k ts =
              (if k = key \<and> stop < ts \<and> ts \<le> ts_end then acquire is_read tid (cell m k ts)
               else cell m k ts))
        \<and> (waits is_read (fst (cell m key stop)) \<longrightarrow> event \<in> set (waiting m' key stop))"
    and point_law: "inv m \<Longrightarrow>
      \<exists>m'. interval m key tid ts ts is_read = Some (m', passes is_read (fst (cell m key ts)))
        \<and> inv m'
        \<and> (\<forall>k t. cell m' k t =
              (if passes is_read (fst (cell m key ts)) \<and> k = key \<and> t = ts
               then acquire is_read tid (cell m k t) else cell m k t))"
    and freeze_law: "inv m \<Longrightarrow>
      \<exists>m' events. freeze_op m tid = Some (m', events) \<and> inv m'
        \<and> (\<forall>k ts. cell m' k ts = freeze_cell tid (cell m k ts))
        \<and> (\<forall>k ts. tid \<in> snd (cell m k ts) \<longrightarrow> set (waiting m k ts) \<subseteq> set events)"
    and unlock_law: "inv m \<Longrightarrow> \<forall>k ts. tid \<in> snd (cell m k ts) \<longrightarrow> snd (cell m k ts) = {tid} \<Longrightarrow>
      \<exists>m' events. unlock_op m tid = Some (m', events) \<and> inv m'
        \<and> (\<forall>k ts. cell m' k ts = (if tid \<in> snd (cell m k ts) then (FREE, {}) else cell m k ts))
        \<and> (\<forall>k ts. tid \<in> snd (cell m k ts) \<longrightarrow> set (waiting m k ts) \<subseteq> set events)"
begin

text \<open>
  One operation.  An \<open>unlock\<close> may only be issued by a transaction that shares no read lock,
  and a backward lock not from the last time.
\<close>

fun exec :: "lock_op \<Rightarrow> 's \<Rightarrow> 's option" where
  "exec (Backward key tid ts is_read event) m = map_option fst (backward m key tid ts is_read event 0)"
| "exec (Point key tid ts is_read) m = map_option fst (interval m key tid ts ts is_read)"
| "exec (Freeze tid) m = map_option fst (freeze_op m tid)"
| "exec (Unlock tid) m = map_option fst (unlock_op m tid)"

fun allowed :: "lock_op \<Rightarrow> 's \<Rightarrow> bool" where
  "allowed (Backward key tid ts is_read event) m \<longleftrightarrow> ts \<noteq> - 1"
| "allowed (Unlock tid) m \<longleftrightarrow> (\<forall>k ts. tid \<in> snd (cell m k ts) \<longrightarrow> snd (cell m k ts) = {tid})"
| "allowed _ m \<longleftrightarrow> True"

inductive run :: "'s \<Rightarrow> lock_op list \<Rightarrow> 's \<Rightarrow> bool" where
  run_Nil: "run m [] m"
| run_Cons: "allowed op m \<Longrightarrow> exec op m = Some m' \<Longrightarrow> run m' ops m'' \<Longrightarrow> run m (op # ops) m''"

inductive_cases run_NilE: "run m [] m'"
inductive_cases run_ConsE: "run m (op # ops) m'"

text \<open>What one operation can do to a cell.\<close>

lemma exec_ok:
  assumes "inv m" "allowed op m"
  shows "\<exists>m'. exec op m = Some m' \<and> inv m'
    \<and> (\<forall>k ts. touched op (cell m k ts) (cell m' k ts))"
proof (cases op)
  case (Backward key tid ts is_read event)
  with assms(2) have "ts \<noteq> - 1" by simp
  from backward_law [OF assms(1) this, of key tid is_read event 0] obtain m' b stop where
    b: "backward m key tid ts is_read event 0 = Some (m', b, stop + 1)" "inv m'"
    "\<forall>t. stop < t \<and> t \<le> ts \<longrightarrow> passes is_read (fst (cell m key t))"
    "\<forall>k t. cell m' k t = (if k = key \<and> stop < t \<and> t \<le> ts then acquire is_read tid (cell m k t)
      else cell m k t)" by blast
  then have "touched op (cell m k t) (cell m' k t)" for k t
    using taken [of is_read "cell m k t" op] Backward by (auto simp: kept)
  with b(1,2) Backward show ?thesis by simp
next
  case (Point key tid ts is_read)
  from point_law [OF assms(1), of key tid ts is_read] obtain m' b where
    b: "interval m key tid ts ts is_read = Some (m', b)" "inv m'"
    "\<forall>k t. cell m' k t = (if passes is_read (fst (cell m key ts)) \<and> k = key \<and> t = ts
      then acquire is_read tid (cell m k t) else cell m k t)" by blast
  then have "touched op (cell m k t) (cell m' k t)" for k t
    using taken [of is_read "cell m k t" op] Point by (auto simp: kept)
  with b(1,2) Point show ?thesis by simp
next
  case (Freeze tid)
  with freeze_law [OF assms(1), of tid] show ?thesis by (auto intro: frozen_by)
next
  case (Unlock tid)
  with assms(2) have sole: "\<forall>k ts. tid \<in> snd (cell m k ts) \<longrightarrow> snd (cell m k ts) = {tid}" by simp
  from unlock_law [OF assms(1) sole] obtain m' events where
    u: "unlock_op m tid = Some (m', events)" "inv m'"
    "\<forall>k ts. cell m' k ts = (if tid \<in> snd (cell m k ts) then (FREE, {}) else cell m k ts)" by blast
  then have "touched op (cell m k t) (cell m' k t)" for k t
    using dropped [of "cell m k t" tid] kept [of op] sole Unlock by simp
  with u(1,2) Unlock show ?thesis by simp
qed

lemma run_inv: "run m ops m' \<Longrightarrow> inv m \<Longrightarrow> inv m'"
proof (induction rule: run.induct)
  case (run_Cons op m m' ops m'')
  with exec_ok [OF run_Cons.prems run_Cons.hyps(1)] show ?case by auto
qed

text \<open>A frozen lock never changes.\<close>

lemma run_frozen: "run m ops m' \<Longrightarrow> inv m \<Longrightarrow> frozen (cell m k ts) \<Longrightarrow> cell m' k ts = cell m k ts"
proof (induction rule: run.induct)
  case (run_Cons op m m' ops m'')
  from exec_ok [OF run_Cons.prems(1) run_Cons.hyps(1)] run_Cons.hyps(2)
  have "inv m'" "touched op (cell m k ts) (cell m' k ts)" by auto
  moreover from touched_frozen [OF this(2) cells [OF run_Cons.prems(1)] run_Cons.prems(2)]
  have "cell m' k ts = cell m k ts" .
  ultimately show ?case using run_Cons.IH run_Cons.prems(2) by simp
qed simp

text \<open>
  A read lock protects its time until its transaction unlocks: other transactions may freeze
  it, but nobody can write there.
\<close>

lemma run_protected:
  "run m ops m' \<Longrightarrow> inv m \<Longrightarrow> read_protected tid (cell m k ts) \<Longrightarrow> Unlock tid \<notin> set ops \<Longrightarrow>
   read_protected tid (cell m' k ts)"
proof (induction rule: run.induct)
  case (run_Cons op m m' ops m'')
  from exec_ok [OF run_Cons.prems(1) run_Cons.hyps(1)] run_Cons.hyps(2)
  have "inv m'" "touched op (cell m k ts) (cell m' k ts)" by auto
  moreover have "op \<noteq> Unlock tid" using run_Cons.prems(3) by auto
  with touched_protected [OF calculation(2) cells [OF run_Cons.prems(1)]] run_Cons.prems(2)
  have "read_protected tid (cell m' k ts)" by blast
  ultimately show ?case using run_Cons.IH run_Cons.prems(3) by simp
qed simp

end

interpretation avl: lock_service lm_inv lock_at waiters tryBackwardLock tryLock freeze unlock
proof unfold_locales
  fix m key ts show "lm_inv m \<Longrightarrow> cell_wf (lock_at m key ts)" by (rule lm_inv_wf)
next
  fix m and key tid ts :: u64 and is_read assume inv: "lm_inv m"
  have pt: "ts \<le> t \<and> t \<le> ts \<longleftrightarrow> t = ts" for t by auto
  from tryLock_ok [OF inv order_refl [of ts] refl, of key tid is_read, unfolded pt]
  show "\<exists>m'. tryLock m key tid ts ts is_read = Some (m', passes is_read (fst (lock_at m key ts)))
        \<and> lm_inv m'
        \<and> (\<forall>k t. lock_at m' k t =
              (if passes is_read (fst (lock_at m key ts)) \<and> k = key \<and> t = ts
               then acquire is_read tid (lock_at m k t) else lock_at m k t))"
    by blast
next
  fix m and key tid ts_end :: u64 and is_read event ts_start assume "lm_inv m" "ts_end \<noteq> - 1"
  from tryBackwardLock_inv [OF this, of key tid is_read event ts_start]
  show "\<exists>m' stop. tryBackwardLock m key tid ts_end is_read event ts_start
          = Some (m', \<not> waits is_read (fst (lock_at m key stop)), stop + 1)
        \<and> lm_inv m' \<and> stop \<le> ts_end \<and> stop < stop + 1
        \<and> \<not> passes is_read (fst (lock_at m key stop))
        \<and> (\<forall>ts. stop < ts \<and> ts \<le> ts_end \<longrightarrow> passes is_read (fst (lock_at m key ts)))
        \<and> (\<forall>k ts. lock_at m' k ts =
              (if k = key \<and> stop < ts \<and> ts \<le> ts_end then acquire is_read tid (lock_at m k ts)
               else lock_at m k ts))
        \<and> (waits is_read (fst (lock_at m key stop)) \<longrightarrow> event \<in> set (waiters m' key stop))" .
next
  fix m tid assume "lm_inv m"
  from freeze_ok [OF this, of tid]
  show "\<exists>m' events. freeze m tid = Some (m', events) \<and> lm_inv m'
        \<and> (\<forall>k ts. lock_at m' k ts = freeze_cell tid (lock_at m k ts))
        \<and> (\<forall>k ts. tid \<in> snd (lock_at m k ts) \<longrightarrow> set (waiters m k ts) \<subseteq> set events)" by blast
next
  fix m tid assume "lm_inv m" "\<forall>k ts. tid \<in> snd (lock_at m k ts) \<longrightarrow> snd (lock_at m k ts) = {tid}"
  then have "lm_inv m" "\<not> shares_reads m tid" by (auto simp: shares_reads_def)
  from unlock_ok [OF this]
  show "\<exists>m' events. unlock m tid = Some (m', events) \<and> lm_inv m'
        \<and> (\<forall>k ts. lock_at m' k ts = (if tid \<in> snd (lock_at m k ts) then (FREE, {}) else lock_at m k ts))
        \<and> (\<forall>k ts. tid \<in> snd (lock_at m k ts) \<longrightarrow> set (waiters m k ts) \<subseteq> set events)" by blast
qed

end
