(* ===== verification/Lock_Theorems.thy ===== *)
theory Lock_Theorems
  imports Lock_Interface
begin

text \<open>
  The properties of the lock manager, on its operations as modelled in \<open>Lock_Manager\<close> and
  \<open>Lock_Node\<close>.  They follow from the interface \<open>lock_service\<close> and its interpretation, or from
  the refinement of the tree operations.
\<close>

lemma lock_at_init: "lock_at lm_init k ts = initial_cell ts"
  by (simp add: lock_at_def lm_init_def)

lemma init_trans: "lm_trans lm_init = Map.empty"
  by (simp add: lm_init_def)

text \<open>A state in which one transaction holds one time of one key.\<close>

lemma first_lock:
  "\<exists>m. tryLock lm_init 5 1 3 3 is_read = Some (m, True) \<and> lm_inv m
    \<and> (\<forall>k t. lock_at m k t =
          (if k = 5 \<and> t = 3 then (if is_read then READ_LOCK else WRITE_LOCK, {1}) else initial_cell t))"
  using avl.point_law [OF lm_inv_init, of 5 1 3 is_read]
  by (auto simp: lock_at_init initial_cell_def passes_def acquire_def)

section \<open>Requests\<close>

text \<open>
  C22: \<open>tryBackwardLock\<close> from \<open>ts_end\<close>, which is not the last time, returns for every well-formed state.  It stops at the
  latest time \<open>stop\<close> up to \<open>ts_end\<close> whose lock does not admit the request, acquires every
  time between \<open>stop\<close> and \<open>ts_end\<close> for the transaction, changes no other time of any key,
  stores \<open>stop + 1\<close> and returns false exactly when \<open>stop\<close> is held by an unfrozen lock, with
  the event then waiting there.
\<close>
theorem tryBackwardLock_acquires:
  assumes "lm_inv m" "ts_end \<noteq> - 1"
  shows "\<exists>m' stop. tryBackwardLock m key tid ts_end is_read event ts_start
      = Some (m', \<not> waits is_read (fst (lock_at m key stop)), stop + 1)
    \<and> lm_inv m' \<and> stop \<le> ts_end
    \<and> \<not> passes is_read (fst (lock_at m key stop))
    \<and> (\<forall>ts. stop < ts \<and> ts \<le> ts_end \<longrightarrow> passes is_read (fst (lock_at m key ts)))
    \<and> (\<forall>k ts. lock_at m' k ts =
          (if k = key \<and> stop < ts \<and> ts \<le> ts_end then acquire is_read tid (lock_at m k ts)
           else lock_at m k ts))
    \<and> (waits is_read (fst (lock_at m key stop)) \<longrightarrow> event \<in> set (waiters m' key stop))"
  using tryBackwardLock_inv [OF assms] by blast

theorem tryBackwardLock_acquires_witness:
  "\<exists>m' stop. tryBackwardLock lm_init 5 1 10 True 0 0 = Some (m', True, stop + 1)
    \<and> stop = 0 \<and> lm_inv m' \<and> lock_at m' 5 7 = (READ_LOCK, {1})"
proof -
  from tryBackwardLock_acquires [OF lm_inv_init, of 10 5 1 True 0 0] obtain m' stop where
    t: "tryBackwardLock lm_init 5 1 10 True 0 0
      = Some (m', \<not> waits True (fst (lock_at lm_init 5 stop)), stop + 1)" "lm_inv m'" by auto
  have "map_option (\<lambda>(m, b, s). (b, s, lock_at m 5 7)) (tryBackwardLock lm_init 5 1 10 True 0 0)
      = Some (True, 1, (READ_LOCK, {1}))" by code_simp
  with t show ?thesis by auto
qed

text \<open>
  C23: \<open>tryLock\<close> on an interval that lies in one interval of the key (on a single time in
  particular) returns whether the lock there admits the request; if it does, exactly the
  times of the interval are acquired and recorded for the transaction, otherwise neither the
  locks nor the records change.
\<close>
theorem tryLock_acquires:
  assumes "lm_inv m" "ts_start \<le> ts_end" "interval_end m key ts_start = interval_end m key ts_end"
  shows "\<exists>m'. tryLock m key tid ts_start ts_end is_read = Some (m', passes is_read (fst (lock_at m key ts_end)))
    \<and> lm_inv m'
    \<and> (\<forall>k ts. lock_at m' k ts =
          (if passes is_read (fst (lock_at m key ts_end)) \<and> k = key \<and> ts_start \<le> ts \<and> ts \<le> ts_end
           then acquire is_read tid (lock_at m k ts) else lock_at m k ts))
    \<and> lm_trans m' = (if passes is_read (fst (lock_at m key ts_end))
          then note_lock (lm_trans m) tid key ts_start ts_end else lm_trans m)"
  by (rule tryLock_ok [OF assms])

theorem tryLock_acquires_witness:
  "\<exists>m'. tryLock lm_init 5 1 3 8 False = Some (m', True) \<and> lm_inv m'
    \<and> lm_trans m' = note_lock Map.empty 1 5 3 8 \<and> lock_at m' 5 8 = (WRITE_LOCK, {1})"
proof -
  have "interval_end lm_init 5 3 = interval_end lm_init 5 8"
    by (simp add: interval_end_def lm_init_def)
  from tryLock_acquires [OF lm_inv_init _ this, of 1 False] show ?thesis
    by (auto simp: lock_at_init initial_cell_def passes_def acquire_def init_trans)
qed

section \<open>Releasing\<close>

text \<open>
  C24: \<open>freeze\<close> returns, turns every lock the transaction holds on any key into a permanent
  one and no other, forgets the transaction, and hands over every event waiting for one of
  these locks.
\<close>
theorem freeze_makes_permanent:
  assumes "lm_inv m"
  shows "\<exists>m' events. freeze m tid = Some (m', events) \<and> lm_inv m'
    \<and> lm_trans m' = (lm_trans m)(tid := None)
    \<and> (\<forall>k ts. lock_at m' k ts = freeze_cell tid (lock_at m k ts))
    \<and> (\<forall>k ts. tid \<in> snd (lock_at m k ts) \<longrightarrow> set (waiters m k ts) \<subseteq> set events)"
  by (rule freeze_ok [OF assms])

theorem freeze_makes_permanent_witness:
  "\<exists>m m' events. tryLock lm_init 5 1 3 3 False = Some (m, True) \<and> freeze m 1 = Some (m', events)
    \<and> lock_at m' 5 3 = (FREEZE_WRITE_LOCK, {})"
proof -
  from first_lock [of False] obtain m where
    m: "tryLock lm_init 5 1 3 3 False = Some (m, True)" "lm_inv m" "lock_at m 5 3 = (WRITE_LOCK, {1})"
    by auto
  from freeze_makes_permanent [OF m(2), of 1] m(1,3) show ?thesis by (auto simp: freeze_cell_def)
qed

text \<open>
  C25: \<open>unlock\<close> by a transaction that shares none of its read locks returns, frees exactly the
  times the transaction holds, forgets the transaction, and hands over every event waiting
  for one of these locks.
\<close>
theorem unlock_frees:
  assumes "lm_inv m" "\<not> shares_reads m tid"
  shows "\<exists>m' events. unlock m tid = Some (m', events) \<and> lm_inv m'
    \<and> lm_trans m' = (lm_trans m)(tid := None)
    \<and> (\<forall>k ts. lock_at m' k ts = (if tid \<in> snd (lock_at m k ts) then (FREE, {}) else lock_at m k ts))
    \<and> (\<forall>k ts. tid \<in> snd (lock_at m k ts) \<longrightarrow> set (waiters m k ts) \<subseteq> set events)"
  by (rule unlock_ok [OF assms])

theorem unlock_frees_witness:
  "\<exists>m m' events. tryLock lm_init 5 1 3 3 True = Some (m, True) \<and> unlock m 1 = Some (m', events)
    \<and> lock_at m' 5 3 = (FREE, {})"
proof -
  from first_lock [of True] obtain m where
    m: "tryLock lm_init 5 1 3 3 True = Some (m, True)" "lm_inv m"
    "\<forall>k ts. lock_at m k ts = (if k = 5 \<and> ts = 3 then (READ_LOCK, {1}) else initial_cell ts)"
    by auto
  then have "\<not> shares_reads m 1" by (auto simp: shares_reads_def initial_cell_def)
  from unlock_frees [OF m(2) this] m(1,3) show ?thesis by auto
qed

text \<open>
  Acquiring a free time and unlocking it again is a round trip: when the transaction
  holds nothing else, all locks are as before.
\<close>
lemma lock_unlock_roundtrip:
  assumes "lm_inv m" "fst (lock_at m key ts) = FREE" "\<forall>k t. tid \<notin> snd (lock_at m k t)"
  shows "\<exists>m1 m2 events. tryLock m key tid ts ts is_read = Some (m1, True)
    \<and> unlock m1 tid = Some (m2, events) \<and> lm_inv m2 \<and> (\<forall>k t. lock_at m2 k t = lock_at m k t)"
proof -
  have free: "lock_at m key ts = (FREE, {})"
    using lm_inv_wf [OF assms(1), of key ts] assms(2) by (cases "lock_at m key ts") (simp add: cell_wf_def)
  from avl.point_law [OF assms(1), of key tid ts is_read] free obtain m1 where
    m1: "tryLock m key tid ts ts is_read = Some (m1, True)" "lm_inv m1"
    "\<forall>k t. lock_at m1 k t = (if k = key \<and> t = ts then acquire is_read tid (FREE, {}) else lock_at m k t)"
    by (auto simp: passes_def)
  then have "\<not> shares_reads m1 tid"
    using assms(3) by (auto simp: shares_reads_def acquire_def split: if_splits)
  from unlock_ok [OF m1(2) this] m1(3) assms(3) free obtain m2 events where
    "unlock m1 tid = Some (m2, events)" "lm_inv m2" "\<forall>k t. lock_at m2 k t = lock_at m k t"
    by (auto simp: acquire_def)
  with m1(1) show ?thesis by blast
qed

lemma lock_unlock_roundtrip_witness:
  "\<exists>m1 m2 events. tryLock lm_init 5 1 3 3 False = Some (m1, True) \<and> unlock m1 1 = Some (m2, events)
    \<and> lm_inv m2 \<and> (\<forall>k t. lock_at m2 k t = lock_at lm_init k t)"
  by (rule lock_unlock_roundtrip [OF lm_inv_init])
    (simp_all add: lock_at_init initial_cell_def)

section \<open>Interleavings\<close>

text \<open>
  C26: whatever operations transactions issue in whatever order (an \<open>unlock\<close> only without
  shared read locks, no backward lock from the last time), each of them returns, and in every
  reachable state a write lock has exactly one holder, a read lock at least one, and free and
  frozen times have none.
\<close>
theorem reachable_locks_well_formed:
  assumes "avl.run lm_init ops m"
  shows "lm_inv m \<and> cell_wf (lock_at m key ts) \<and> (avl.allowed op m \<longrightarrow> (\<exists>m'. avl.exec op m = Some m'))"
  using avl.run_inv [OF assms lm_inv_init] lm_inv_wf avl.exec_ok by blast

theorem reachable_locks_well_formed_witness:
  "\<exists>m. avl.run lm_init [Point 5 1 3 False, Freeze 1] m \<and> lm_inv m \<and> cell_wf (lock_at m 5 3)
    \<and> (\<exists>m'. avl.exec (Backward 5 2 9 True 0) m = Some m')"
proof -
  from avl.exec_ok [OF lm_inv_init, of "Point 5 1 3 False"] obtain m1 where
    m1: "avl.exec (Point 5 1 3 False) lm_init = Some m1" "lm_inv m1" by auto
  from avl.exec_ok [OF m1(2), of "Freeze 1"] obtain m2 where m2: "avl.exec (Freeze 1) m1 = Some m2" by auto
  from avl.run_Cons [OF _ m1(1) avl.run_Cons [OF _ m2 avl.run_Nil]]
  have r: "avl.run lm_init [Point 5 1 3 False, Freeze 1] m2" by simp
  from reachable_locks_well_formed [OF r, of 5 3 "Backward 5 2 9 True 0"] r show ?thesis by auto
qed

text \<open>
  C27: a frozen lock is permanent: whatever transactions lock single times, lock backwards (not
  from the last time), freeze, and unlock while they share no read lock, in whatever order
  (these are the steps of \<open>avl.run\<close>), it stays as it is.  Requests for several times at once, and
  an unlock of a shared read lock, are not among these operations.
\<close>
theorem frozen_locks_never_change:
  assumes "lm_inv m" "frozen (lock_at m key ts)" "avl.run m ops m'"
  shows "lock_at m' key ts = lock_at m key ts"
  by (rule avl.run_frozen [OF assms(3,1,2)])

theorem frozen_locks_never_change_witness:
  "\<exists>m'. avl.run lm_init [Backward 5 2 9 True 0] m' \<and> lock_at m' 5 0 = (FREEZE_WRITE_LOCK, {})"
proof -
  from avl.exec_ok [OF lm_inv_init, of "Backward 5 2 9 True 0"] obtain m' where
    m': "avl.exec (Backward 5 2 9 True 0) lm_init = Some m'" by auto
  from avl.run_Cons [OF _ m' avl.run_Nil] have r: "avl.run lm_init [Backward 5 2 9 True 0] m'" by simp
  have "lock_at lm_init 5 0 = (FREEZE_WRITE_LOCK, {})"
    by (simp add: lock_at_init initial_cell_def)
  with frozen_locks_never_change [OF lm_inv_init _ r, of 5 0] r show ?thesis by (auto simp: frozen_def)
qed

text \<open>
  C9: reads see a snapshot.  When \<open>tryBackwardLock\<close> grants a read up to \<open>ts_end\<close> and returns
  \<open>ts_start\<close>, the version it names, \<open>ts_start - 1\<close>, is the latest committed write up to
  \<open>ts_end\<close>.  After any further operations of any transactions that lock single times, lock
  backwards (not from the last time), freeze, or unlock while they share no read lock, none of
  them an unlock of the reader, it still is: the write at \<open>ts_start - 1\<close> is still committed, no time from \<open>ts_start\<close> to \<open>ts_end\<close> is
  write-locked or a committed write, and no transaction can lock any of them for writing.
  An unlock by a transaction that shares a read lock is left out, since it takes the protection
  away from the other readers: see \<open>unlock_drops_shared_read_lock\<close>.
\<close>
theorem granted_read_sees_latest_version:
  assumes "lm_inv m" "ts_end \<noteq> - 1"
    and "tryBackwardLock m key tid ts_end True event x = Some (m1, True, ts_start)"
    and "avl.run m1 ops m2" "Unlock tid \<notin> set ops"
  shows "fst (lock_at m2 key (ts_start - 1)) = FREEZE_WRITE_LOCK
    \<and> (\<forall>ts. ts_start \<le> ts \<and> ts \<le> ts_end \<longrightarrow>
          fst (lock_at m2 key ts) \<in> {READ_LOCK, FREEZE_READ_LOCK}
          \<and> (\<forall>w. \<exists>m3. tryLock m2 key w ts ts False = Some (m3, False)))"
proof -
  from avl.backward_law [OF assms(1,2), of key tid True event x] assms(3) obtain stop where
    b: "ts_start = stop + 1" "\<not> waits True (fst (lock_at m key stop))" "lm_inv m1" "stop < stop + 1"
    "stop \<le> ts_end" "\<not> passes True (fst (lock_at m key stop))"
    "\<forall>ts. stop < ts \<and> ts \<le> ts_end \<longrightarrow> passes True (fst (lock_at m key ts))"
    "\<forall>k ts. lock_at m1 k ts = (if k = key \<and> stop < ts \<and> ts \<le> ts_end
      then acquire True tid (lock_at m k ts) else lock_at m k ts)" by auto
  from b(2,6) have fw: "fst (lock_at m1 key stop) = FREEZE_WRITE_LOCK"
    using b(8) by (cases "fst (lock_at m key stop)") (auto simp: waits_def passes_def)
  then have "frozen (lock_at m1 key stop)" by (simp add: frozen_def)
  from avl.run_frozen [OF assms(4) b(3) this] fw have v: "fst (lock_at m2 key stop) = FREEZE_WRITE_LOCK" by simp
  have inv2: "lm_inv m2" by (rule avl.run_inv [OF assms(4) b(3)])
  have p: "read_protected tid (lock_at m2 key ts)" if "stop < ts" "ts \<le> ts_end" for ts
  proof (rule avl.run_protected [OF assms(4) b(3) _ assms(5)])
    have "passes True (fst (lock_at m key ts))" using b(7) that by blast
    with that b(8) show "read_protected tid (lock_at m1 key ts)"
      by (cases "fst (lock_at m key ts)") (auto simp: read_protected_def acquire_def passes_def)
  qed
  have le: "ts_start \<le> ts \<longleftrightarrow> stop < ts" for ts
    using unat_succ [OF b(4)] by (simp add: b(1) word_le_nat_alt word_less_nat_alt Suc_le_eq)
  have "\<exists>m3. tryLock m2 key w ts ts False = Some (m3, False)" if "stop < ts" "ts \<le> ts_end" for ts w
    using avl.point_law [OF inv2, of key w ts False] protected_no_write [OF p [OF that]] by auto
  with v p show ?thesis by (auto simp: b(1) le [unfolded b(1)] read_protected_def)
qed

theorem granted_read_sees_latest_version_witness:
  "\<exists>m1 m2. tryBackwardLock lm_init 5 1 9 True 0 0 = Some (m1, True, 1)
    \<and> avl.run m1 [Freeze 1] m2 \<and> fst (lock_at m2 5 4) \<in> {READ_LOCK, FREEZE_READ_LOCK}
    \<and> (\<exists>m3. tryLock m2 5 7 4 4 False = Some (m3, False))"
proof -
  have "map_option snd (tryBackwardLock lm_init 5 1 9 True 0 0) = Some (True, 1)" by code_simp
  then obtain m1 where t: "tryBackwardLock lm_init 5 1 9 True 0 0 = Some (m1, True, 1)" by auto
  from avl.backward_law [OF lm_inv_init, of 9 5 1 True 0 0] t have "lm_inv m1" by auto
  from avl.exec_ok [OF this, of "Freeze 1"] obtain m2 where m2: "avl.exec (Freeze 1) m1 = Some m2" by auto
  from avl.run_Cons [OF _ m2 avl.run_Nil] have r: "avl.run m1 [Freeze 1] m2" by simp
  have "(1::u64) \<le> 4 \<and> (4::u64) \<le> 9" by simp
  have "(9::u64) \<noteq> - 1" "Unlock 1 \<notin> set [Freeze 1]" by simp_all
  note g = granted_read_sees_latest_version [OF lm_inv_init this(1) t r this(2), THEN conjunct2, rule_format]
  from g [OF \<open>(1::u64) \<le> 4 \<and> (4::u64) \<le> 9\<close>] r t show ?thesis by blast
qed

text \<open>
  C28: a wakeup: when a request is refused because of an unfrozen lock, its event is among
  those that are run when, as the next operation, a holder of that lock freezes, and also when
  it unlocks, provided that it shares no read lock.  Without the last condition the event can be
  lost: see \<open>shared_unlock_loses_wakeup\<close>.
\<close>
theorem refused_request_is_woken:
  assumes "lm_inv m" "ts_end \<noteq> - 1"
    and "tryBackwardLock m key tid ts_end is_read event x = Some (m1, False, ts_start)"
    and "holder \<in> snd (lock_at m key (ts_start - 1))"
  shows "(\<exists>m2 events. freeze m1 holder = Some (m2, events) \<and> event \<in> set events)
    \<and> (\<not> shares_reads m1 holder \<longrightarrow> (\<exists>m2 events. unlock m1 holder = Some (m2, events) \<and> event \<in> set events))"
proof -
  from avl.backward_law [OF assms(1,2), of key tid is_read event x] assms(3) obtain stop where
    b: "ts_start = stop + 1" "waits is_read (fst (lock_at m key stop))" "lm_inv m1"
    "\<forall>k ts. lock_at m1 k ts = (if k = key \<and> stop < ts \<and> ts \<le> ts_end
      then acquire is_read tid (lock_at m k ts) else lock_at m k ts)"
    "event \<in> set (waiters m1 key stop)" by auto
  have h: "holder \<in> snd (lock_at m1 key stop)" using assms(4) b(1,4) by simp
  with freeze_ok [OF b(3), of holder] unlock_ok [OF b(3), of holder] b(5) show ?thesis by blast
qed

theorem refused_request_is_woken_witness:
  "\<exists>m m1 m2 events. tryLock lm_init 5 1 3 3 False = Some (m, True)
    \<and> tryBackwardLock m 5 2 9 True 77 0 = Some (m1, False, 4)
    \<and> freeze m1 1 = Some (m2, events) \<and> 77 \<in> set events"
proof -
  from first_lock [of False] obtain m where
    m: "tryLock lm_init 5 1 3 3 False = Some (m, True)" "lm_inv m" "lock_at m 5 3 = (WRITE_LOCK, {1})"
    by auto
  have "map_option (\<lambda>(m, _). map_option snd (tryBackwardLock m 5 2 9 True 77 0)) (tryLock lm_init 5 1 3 3 False)
    = Some (Some (False, 4))" by code_simp
  with m(1) obtain m1 where t: "tryBackwardLock m 5 2 9 True 77 0 = Some (m1, False, 4)" by auto
  from refused_request_is_woken [OF m(2) _ t, of 1] m(1,3) t show ?thesis by auto
qed

section \<open>Where the code does not keep its promises\<close>

text \<open>
  \<open>unlock\<close> sets the status of a read lock to free even if other transactions hold it
  too: whenever a transaction that shares a read lock unlocks, the other readers lose their
  protection, and any transaction can then lock that time for writing.
\<close>
lemma unlock_drops_shared_read_lock:
  assumes "lm_inv m" "fst (lock_at m key ts) = READ_LOCK" "tid \<in> snd (lock_at m key ts)"
    and "reader \<in> snd (lock_at m key ts)" "reader \<noteq> tid"
  shows "\<exists>m' events. unlock m tid = Some (m', events)
    \<and> fst (lock_at m' key ts) = FREE \<and> reader \<in> snd (lock_at m' key ts)
    \<and> \<not> cell_wf (lock_at m' key ts)"
proof -
  from unlocking.release_ok [OF assms(1), of tid] obtain m' events where
    "unlock m tid = Some (m', events)" "\<forall>k ts. lock_at m' k ts = unlock_cell tid (lock_at m k ts)"
    unfolding unlock_def by blast
  with assms(2-5) show ?thesis by (auto simp: unlock_cell_def cell_wf_def)
qed

lemma unlock_drops_shared_read_lock_witness:
  "\<exists>m m' events. tryLock lm_init 5 1 3 3 True = Some (m, True)
    \<and> (\<exists>m2. tryLock m 5 2 3 3 True = Some (m2, True) \<and> unlock m2 2 = Some (m', events)
    \<and> fst (lock_at m' 5 3) = FREE \<and> 1 \<in> snd (lock_at m' 5 3))"
proof -
  from first_lock [of True] obtain m where
    m: "tryLock lm_init 5 1 3 3 True = Some (m, True)" "lm_inv m" "lock_at m 5 3 = (READ_LOCK, {1})"
    by auto
  from avl.point_law [OF m(2), of 5 2 3 True] m(3) obtain m2 where
    m2: "tryLock m 5 2 3 3 True = Some (m2, True)" "lm_inv m2" "lock_at m2 5 3 = (READ_LOCK, {1, 2})"
    by (auto simp: passes_def acquire_def insert_commute)
  from unlock_drops_shared_read_lock [OF m2(2), of 5 3 2 1] m2(1,3) m(1) show ?thesis by auto
qed

text \<open>
  When a write waits for a read lock of two transactions, the unlock of neither runs its
  event: the first finds the other still there, and sets the lock free, so that the second
  finds nothing to unlock.
\<close>
lemma shared_unlock_loses_wakeup:
  "do {
     (m, _) \<leftarrow> tryLock lm_init 5 1 3 3 True;
     (m, _) \<leftarrow> tryLock m 5 2 3 3 True;
     (m, granted, _) \<leftarrow> tryBackwardLock m 5 7 3 False 77 0;
     (m, events1) \<leftarrow> unlock m 1;
     (m, events2) \<leftarrow> unlock m 2;
     Some (granted, events1, events2, fst (lock_at m 5 3))
   } = Some (False, [], [], FREE)"
  by code_simp

text \<open>Transaction 1 locks the times 4, 10, 20 and 30 of key 5 for writing.\<close>

definition write_locks :: "lock_manager option" where
  "write_locks = do {
     (m, _) \<leftarrow> tryLock lm_init 5 1 4 4 False;
     (m, _) \<leftarrow> tryLock m 5 1 10 10 False;
     (m, _) \<leftarrow> tryLock m 5 1 20 20 False;
     (m, _) \<leftarrow> tryLock m 5 1 30 30 False;
     Some m
   }"

text \<open>
  \<open>tryLock\<close> over several intervals can skip some of them, since it looks up
  \<open>ts_start - 1\<close> instead of the time before the node it just checked.  After transaction 1
  locked the times 4, 10, 20 and 30 of key 5 for writing, transaction 2 is granted a write
  lock on the times from 2 to 7, although time 4 still belongs to transaction 1.
\<close>
lemma tryLock_skips_held_interval:
  "do {
     m \<leftarrow> write_locks;
     (m', granted) \<leftarrow> tryLock m 5 2 2 7 False;
     Some (granted, lock_at m 5 4, lock_at m' 5 3, lock_at m' 5 4, lock_at m' 5 5)
   } = Some (True, (WRITE_LOCK, {1}), (WRITE_LOCK, {2}), (WRITE_LOCK, {1}), (WRITE_LOCK, {2}))"
  by code_simp

text \<open>
  A backward lock from the last time, \<open>UINT64_MAX\<close>, that is refused right there records
  the interval from 0 on (\<open>cur_ts + 1\<close> wraps), and the \<open>freeze\<close> and the \<open>unlock\<close> of that
  transaction then run below time 0 and off their stack: neither returns normally.
\<close>
lemma refused_lock_at_last_time_breaks_release:
  "do {
     (m, _) \<leftarrow> tryLock lm_init 5 1 (- 1) (- 1) False;
     (m', granted, ts_start) \<leftarrow> tryBackwardLock m 5 2 (- 1) True 9 0;
     Some (granted, ts_start, map_option snd (freeze m' 2), map_option snd (unlock m' 2))
   } = Some (False, 0, None, None)"
  by code_simp

section \<open>The tree\<close>

text \<open>
  C29: \<open>insert\<close>, called on any node of a balanced tree in the heap, with a fresh node,
  returns the root of a balanced tree in the heap that holds the old nodes and the new one:
  the new node stands in the order of start times among the descendants of the node, all
  other nodes keep their order, and only links and heights of these nodes change.
\<close>
theorem node_insert_balanced:
  assumes "lock_tree h root t" "inorder t = us @ a # vs" "h x = Some m" "unlinked m" "x \<notin> set_tree t"
  shows "\<exists>h' root' t' us1 l r vs1. node_insert h a x = Some (h', root') \<and> lock_tree h' root' t'
    \<and> avl t' \<and> set_tree t' = insert x (set_tree t)
    \<and> us = us1 @ inorder l \<and> vs = inorder r @ vs1
    \<and> inorder t' = us1 @ inorder (ins (key_of h) (Node l a r) x) @ vs1
    \<and> relinked (insert x (set_tree t)) h h'"
proof -
  from lock_tree_insert_at [OF assms] obtain h' root' t' us1 l r vs1 where
    i: "node_insert h a x = Some (h', root')" "lock_tree h' root' t'"
    "us = us1 @ inorder l" "vs = inorder r @ vs1"
    "inorder t' = us1 @ inorder (ins (key_of h) (Node l a r) x) @ vs1"
    "relinked (insert x (set_tree t)) h h'" by blast
  have "set_tree t' = insert x (set_tree t)"
  proof -
    have "set (inorder t') = set us1 \<union> (set_tree (ins (key_of h) (Node l a r) x) \<union> set vs1)"
      unfolding i(5) by (simp only: set_append set_inorder)
    moreover have "set (inorder t) = set us1 \<union> (set_tree (Node l a r) \<union> set vs1)"
      unfolding assms(2) i(3,4) by auto
    ultimately show ?thesis by (simp only: set_inorder set_tree_ins) simp
  qed
  with i show ?thesis by (metis lock_tree_def)
qed

theorem node_insert_balanced_witness:
  "\<exists>h' root' t'. node_insert [0 \<mapsto> new_node, 1 \<mapsto> new_node\<lparr>n_start := 1\<rparr>] 0 1 = Some (h', root')
    \<and> lock_tree h' root' t' \<and> inorder t' = [0, 1]"
proof -
  let ?h = "[0 \<mapsto> new_node, 1 \<mapsto> new_node\<lparr>n_start := 1\<rparr>] :: heap"
  have "lock_tree ?h 0 (Node Leaf 0 Leaf)" "unlinked (new_node\<lparr>n_start := 1\<rparr>)"
    by (simp_all add: lock_tree_def tree_in_def new_node_def unlinked_def)
  from node_insert_balanced [OF this(1) _ _ this(2), of "[]" 0 "[]" 1] show ?thesis
    by (auto simp: key_of_def new_node_def)
qed

text \<open>
  \<open>find\<close> on the tree of a key finds the node whose interval contains the time and
  leaves it on top of the stack; the stack enumerates all earlier intervals backwards, so the
  walks of the lock manager meet every one of them.
\<close>
lemma node_find_locates:
  assumes "key_tree h root t"
  shows "\<exists>us a vs locks. inorder t = us @ a # vs \<and> covers h a ts
    \<and> node_find h root [] ts = Some (locks @ [a]) \<and> stk h (locks @ [a]) (us @ [a])"
  using find_top [OF assms] by blast

lemma node_find_locates_witness:
  "\<exists>h root t a locks. key_tree h root t \<and> node_find h root [] 7 = Some (locks @ [a]) \<and> covers h a 7"
proof -
  have "\<exists>h root t. key_tree h root t" using first_tree [of Map.empty 0] by metis
  then obtain h root t where "key_tree h root t" by (elim exE)
  moreover from node_find_locates [OF this, of 7] obtain a locks where
    "covers h a 7" "node_find h root [] 7 = Some (locks @ [a])" by metis
  ultimately show ?thesis
    by (intro exI [of _ h] exI [of _ root] exI [of _ t] exI [of _ a] exI [of _ locks] conjI)
qed

fun show_tree :: "heap \<Rightarrow> addr tree \<Rightarrow> string" where
  "show_tree h Leaf = []"
| "show_tree h (Node l a r) =
     newline @ (case h a of None \<Rightarrow> [] | Some n \<Rightarrow> show_node n) @ show_tree h l @ show_tree h r"

lemma toString_tree_at:
  "tree_at h par (Some a) t \<Longrightarrow> \<exists>s. toString h a = Some s \<and> newline @ s = show_tree h t"
proof (induction t arbitrary: par a)
  case (Node l b r)
  then obtain n where n: "a = b" "h b = Some n" "tree_at h (Some b) (n_left n) l"
    "tree_at h (Some b) (n_right n) r"
    by (auto split: option.splits)
  have "\<exists>s. (case n_left n of None \<Rightarrow> Some [] | Some x \<Rightarrow> do { s \<leftarrow> toString h x; Some (newline @ s) }) = Some s
      \<and> s = show_tree h l"
    using n(3) Node.IH(1) by (cases l) (fastforce split: option.splits)+
  moreover have "\<exists>s. (case n_right n of None \<Rightarrow> Some [] | Some x \<Rightarrow> do { s \<leftarrow> toString h x; Some (newline @ s) }) = Some s
      \<and> s = show_tree h r"
    using n(4) Node.IH(2) by (cases r) (fastforce split: option.splits)+
  ultimately show ?case using n(1,2) by (subst toString.simps) auto
qed simp

text \<open>
  \<open>toString\<close> of the root of a tree in the heap returns, and lists the nodes in
  preorder, each with its interval, status and heights.
\<close>
lemma toString_lists_tree:
  assumes "lock_tree h root t"
  shows "\<exists>s. toString h root = Some s \<and> newline @ s = show_tree h t"
  using assms toString_tree_at [of h None root t] by (auto simp: lock_tree_def tree_in_def)

lemma toString_lists_tree_witness:
  "toString [0 \<mapsto> new_node] 0 = Some (show_node new_node)"
proof -
  have "lock_tree [0 \<mapsto> new_node] 0 (Node Leaf 0 Leaf)"
    by (simp add: lock_tree_def tree_in_def new_node_def)
  from toString_lists_tree [OF this] show ?thesis by (auto simp: newline_def)
qed

text \<open>
  \<open>remove\<close> on a root without a left child dereferences the null parent pointer, also
  for the last node of a tree, and on a root whose left child has no right child.
\<close>
lemma remove_root_crashes:
  assumes "h a = Some n" "n_parent n = None"
    and "n_left n = None \<or> (\<exists>l m. n_left n = Some l \<and> h l = Some m \<and> n_right m = None \<and> n_parent m = Some a)"
  shows "node_remove h a = None"
  using assms(3)
proof
  assume "n_left n = None"
  with assms show ?thesis by (simp add: node_remove_def split: option.split)
next
  assume "\<exists>l m. n_left n = Some l \<and> h l = Some m \<and> n_right m = None \<and> n_parent m = Some a"
  then obtain l m where l: "n_left n = Some l" "h l = Some m" "n_right m = None" "n_parent m = Some a" by blast
  then have "rightmost h l = Some l" by (subst rightmost.simps) simp
  with assms(1,2) l show ?thesis by (simp add: node_remove_def)
qed

lemma remove_root_crashes_witness: "node_remove [0 \<mapsto> new_node] 0 = None"
  by (rule remove_root_crashes [of _ _ new_node]) (simp_all add: new_node_def)

end
