(* ===== verification/Request.thy ===== *)
theory Request
  imports Prelude
begin

text \<open>
  The argument structures of the requests (\<open>src/src/Request.h\<close>), the messages on the wire
  (\<open>src/src/protos/MvtkvsService.proto\<close>), and the results of fallible server and client code.

  A pointer or a flag that the code may read before it is set is an option, with \<^const>\<open>None\<close>
  for a null or uninitialised field.  A pointer to a structure that is always allocated by
  the owner is the structure itself.
\<close>

section \<open>Failures\<close>

datatype failure =
    NullPointer        \<comment> \<open>dereference of a null or dangling pointer\<close>
  | Uninitialised      \<comment> \<open>read of a field that was never set\<close>
  | BadStatus          \<comment> \<open>\<open>exit(1)\<close>: a request handler is not in the expected status\<close>
  | BadPhase           \<comment> \<open>\<open>exit(1)\<close>: an event has no such phase\<close>
  | BadCast            \<comment> \<open>an untyped pointer is used as one to another structure\<close>
  | AssertFailed       \<comment> \<open>a failed \<open>assert\<close>\<close>
  | Deadlock           \<comment> \<open>a mutex is locked that is never unlocked again\<close>
  | Blocked            \<comment> \<open>the call waits for an event that has not come\<close>
  | LockFailure        \<comment> \<open>an operation of the lock manager does not return normally\<close>
  | OutOfFuel          \<comment> \<open>the bound on nested events is used up\<close>

type_synonym 'a res = "failure + 'a"

text \<open>Go on with the value of a step that did not fail.\<close>

definition and_then :: "'a res \<Rightarrow> ('a \<Rightarrow> 'b res) \<Rightarrow> 'b res" where
  "and_then r f = (case r of Inl e \<Rightarrow> Inl e | Inr x \<Rightarrow> f x)"

lemma and_then_Inl [simp]: "and_then (Inl e) f = Inl e"
  and and_then_Inr [simp]: "and_then (Inr x) f = f x"
  by (simp_all add: and_then_def)

lemma and_then_eq_Inr_iff: "and_then r f = Inr y \<longleftrightarrow> (\<exists>x. r = Inr x \<and> f x = Inr y)"
  by (cases r) simp_all

definition need :: "failure \<Rightarrow> 'a option \<Rightarrow> 'a res" where
  "need e x = (case x of None \<Rightarrow> Inl e | Some y \<Rightarrow> Inr y)"

lemma need_Some [simp]: "need e (Some y) = Inr y"
  and need_None [simp]: "need e None = Inl e"
  by (simp_all add: need_def)

text \<open>
  A step that may also never end: \<^const>\<open>None\<close> stands for a loop without end.
\<close>

type_synonym 'a run = "'a res option"

definition and_run :: "'a run \<Rightarrow> ('a \<Rightarrow> 'b run) \<Rightarrow> 'b run" where
  "and_run r f = (case r of None \<Rightarrow> None | Some (Inl e) \<Rightarrow> Some (Inl e) | Some (Inr x) \<Rightarrow> f x)"

lemma and_run_simps [simp]:
  "and_run None f = None" "and_run (Some (Inl e)) f = Some (Inl e)" "and_run (Some (Inr x)) f = f x"
  by (simp_all add: and_run_def)

lemma and_run_eq_Inr_iff: "and_run r f = Some (Inr y) \<longleftrightarrow> (\<exists>x. r = Some (Inr x) \<and> f x = Some (Inr y))"
  by (auto simp: and_run_def split: option.splits sum.splits)

section \<open>Request types and arguments\<close>

datatype request_t = TREAD | TWRITE | TP1C | TP2C

record read_args_t =
  ra_tid :: u64
  ra_start_ts :: u64
  ra_key :: u64

record write_args_t =
  wa_tid :: u64
  wa_key :: u64
  wa_value :: string

record p1c_args_t =
  p1_tid :: u64
  p1_start_ts :: u64
  p1_commit_ts :: u64
  p1_read_nodes :: "u64 list"
  p1_write_nodes :: "u64 list"

record p2c_args_t =
  p2_tid :: u64
  p2_vote :: bool

text \<open>The arguments at the resolution client.\<close>

record rsl_read_args_t =
  rsl_read_args :: read_args_t
  rsl_value :: "string option"

record rsl_write_args_t =
  rsl_write_args :: write_args_t

record rsl_p1c_args_t =
  rsl_p1c_args :: p1c_args_t
  rsl_vote :: "bool option"

record rsl_p2c_args_t =
  rsl_p2c_args :: p2c_args_t

text \<open>The arguments at the RPC layer.\<close>

record rpc_read_args_t =
  rr_args :: read_args_t
  rr_value :: "string option"
  rr_status :: "bool option"

record rpc_write_args_t =
  rw_args :: write_args_t
  rw_status :: "bool option"

record rpc_p1c_args_t =
  rp1_args :: p1c_args_t
  rp1_nodes :: "u64 list"
  rp1_vote :: "bool option"

record rpc_p2c_args_t =
  rp2_args :: p2c_args_t
  rp2_nodes :: "u64 list"

section \<open>Messages\<close>

record ReadRequest =
  rq_tid :: u64
  rq_start_ts :: u64
  rq_key :: u64

record ReadReply =
  rp_value :: string
  rp_status :: bool

record WriteRequest =
  wq_tid :: u64
  wq_key :: u64
  wq_value :: string

record WriteReply =
  wp_status :: bool

record PhaseOneCommitRequest =
  p1q_tid :: u64
  p1q_start_ts :: u64
  p1q_commit_ts :: u64
  p1q_read_node :: "u64 list"
  p1q_write_node :: "u64 list"

record PhaseOneCommitReply =
  p1p_node :: "u64 list"
  p1p_vote :: bool

record PhaseTwoCommitRequest =
  p2q_tid :: u64
  p2q_vote :: bool

record PhaseTwoCommitReply =
  p2p_node :: "u64 list"

datatype request_msg =
    MRead ReadRequest
  | MWrite WriteRequest
  | MP1C PhaseOneCommitRequest
  | MP2C PhaseTwoCommitRequest

datatype reply_msg =
    RRead ReadReply
  | RWrite WriteReply
  | RP1C PhaseOneCommitReply
  | RP2C PhaseTwoCommitReply

section \<open>\<open>std::set<uint64_t>\<close>\<close>

text \<open>A set is the list of its elements in ascending order, the order of iteration.\<close>

definition set_insert :: "u64 \<Rightarrow> u64 list \<Rightarrow> u64 list" where
  "set_insert x s = insort_insert x s"

definition set_ok :: "u64 list \<Rightarrow> bool" where
  "set_ok s \<longleftrightarrow> sorted_wrt (<) s"

text \<open>\<open>for (it ...) s->insert(*it)\<close>\<close>

definition insert_all :: "u64 list \<Rightarrow> u64 list \<Rightarrow> u64 list" where
  "insert_all xs s = fold set_insert xs s"

lemma set_ok_sorted: "set_ok s \<longleftrightarrow> sorted s \<and> distinct s"
  by (auto simp: set_ok_def strict_sorted_iff)

lemma set_ok_insert [simp]: "set_ok s \<Longrightarrow> set_ok (set_insert x s)"
  by (simp add: set_ok_sorted set_insert_def sorted_insort_insert distinct_insort_insert)

lemma set_set_insert [simp]: "set (set_insert x s) = insert x (set s)"
  by (simp add: set_insert_def set_insort_insert)

lemma set_ok_insert_all [simp]: "set_ok s \<Longrightarrow> set_ok (insert_all xs s)"
  unfolding insert_all_def by (induction xs arbitrary: s) auto

lemma set_insert_all [simp]: "set (insert_all xs s) = set xs \<union> set s"
  unfolding insert_all_def by (induction xs arbitrary: s) auto

lemma set_ok_unique: "set_ok s \<Longrightarrow> set_ok s' \<Longrightarrow> set s = set s' \<Longrightarrow> s = s'"
  by (simp add: set_ok_sorted sorted_distinct_set_unique)

lemma insert_all_Nil: "set_ok xs \<Longrightarrow> insert_all xs [] = xs"
proof -
  assume xs: "set_ok xs"
  have "set_ok (insert_all xs [])" by (rule set_ok_insert_all) (simp add: set_ok_def)
  then show ?thesis by (rule set_ok_unique) (simp_all add: xs)
qed

end
