(* ===== verification/RPC_Server.thy ===== *)
theory RPC_Server
  imports Request
begin

text \<open>
  The RPC layer of the server: \<open>RPCServer.h\<close>, \<open>GRPCServer.h\<close> and \<open>GRPCServer.cc\<close> under
  \<open>src/src\<close>.  A request handler is an object that waits for one request, hands out its
  arguments, and is replied to and deleted; the request ID is its address.

  The gRPC runtime is not part of the program.  What it does enters the operations as an
  argument: the tags it delivers from the completion queue, each with the message it has
  stored in the handler when the tag announces a request.
\<close>

section \<open>Request handlers\<close>

datatype request_status = CREATE | PROCESS | FINISH

datatype handler_args =
    ARead rpc_read_args_t
  | AWrite rpc_write_args_t
  | AP1C rpc_p1c_args_t
  | AP2C rpc_p2c_args_t

text \<open>
  \<open>hd_request\<close> is the message the runtime fills in, \<open>hd_args\<close> the argument structure that the
  server events share with the handler, \<open>hd_reply\<close> the message given to \<open>Finish\<close>.
\<close>

record handler =
  hd_status :: request_status
  hd_request :: "request_msg option"
  hd_args :: handler_args
  hd_reply :: "reply_msg option"

text \<open>
  The constructors.  The structures allocated with \<open>malloc\<close> are read only after \<open>getArgs\<close> has
  filled them; they start with zeros here.
\<close>

definition handler_for :: "handler_args \<Rightarrow> handler" where
  "handler_for args = \<lparr>hd_status = PROCESS, hd_request = None, hd_args = args, hd_reply = None\<rparr>"

definition new_read_handler :: handler where
  "new_read_handler =
     handler_for (ARead \<lparr>rr_args = \<lparr>ra_tid = 0, ra_start_ts = 0, ra_key = 0\<rparr>,
                         rr_value = None, rr_status = None\<rparr>)"

definition new_write_handler :: handler where
  "new_write_handler =
     handler_for (AWrite \<lparr>rw_args = \<lparr>wa_tid = 0, wa_key = 0, wa_value = []\<rparr>, rw_status = None\<rparr>)"

definition new_p1c_handler :: handler where
  "new_p1c_handler =
     handler_for (AP1C \<lparr>rp1_args = \<lparr>p1_tid = 0, p1_start_ts = 0, p1_commit_ts = 0,
                                     p1_read_nodes = [], p1_write_nodes = []\<rparr>,
                        rp1_nodes = [], rp1_vote = None\<rparr>)"

definition new_p2c_handler :: handler where
  "new_p2c_handler = handler_for (AP2C \<lparr>rp2_args = \<lparr>p2_tid = 0, p2_vote = False\<rparr>, rp2_nodes = []\<rparr>)"

definition new_handler :: "request_t \<Rightarrow> handler" where
  "new_handler r =
     (case r of TREAD \<Rightarrow> new_read_handler | TWRITE \<Rightarrow> new_write_handler
      | TP1C \<Rightarrow> new_p1c_handler | TP2C \<Rightarrow> new_p2c_handler)"

text \<open>
  \<open>setReply\<close> of the four classes: the reply message is built from the argument structure and
  handed to the runtime.
\<close>

definition finish_reply :: "handler \<Rightarrow> reply_msg \<Rightarrow> handler" where
  "finish_reply h m = h\<lparr>hd_status := FINISH, hd_reply := Some m\<rparr>"

definition setReply_read :: "handler \<Rightarrow> rpc_read_args_t \<Rightarrow> handler res" where
  "setReply_read h a =
    (if hd_status h \<noteq> PROCESS then Inl BadStatus
     else and_then (need NullPointer (rr_value a)) (\<lambda>value.
          and_then (need Uninitialised (rr_status a)) (\<lambda>status.
            Inr (finish_reply h (RRead \<lparr>rp_value = value, rp_status = status\<rparr>)))))"

definition setReply_write :: "handler \<Rightarrow> rpc_write_args_t \<Rightarrow> handler res" where
  "setReply_write h a =
    (if hd_status h \<noteq> PROCESS then Inl BadStatus
     else and_then (need Uninitialised (rw_status a)) (\<lambda>status.
            Inr (finish_reply h (RWrite \<lparr>wp_status = status\<rparr>))))"

definition setReply_p1c :: "handler \<Rightarrow> rpc_p1c_args_t \<Rightarrow> handler res" where
  "setReply_p1c h a =
    (if hd_status h \<noteq> PROCESS then Inl BadStatus
     else and_then (need Uninitialised (rp1_vote a)) (\<lambda>vote.
            Inr (finish_reply h (RP1C \<lparr>p1p_node = rp1_nodes a, p1p_vote = vote\<rparr>))))"

definition setReply_p2c :: "handler \<Rightarrow> rpc_p2c_args_t \<Rightarrow> handler res" where
  "setReply_p2c h a =
    (if hd_status h \<noteq> PROCESS then Inl BadStatus
     else Inr (finish_reply h (RP2C \<lparr>p2p_node = rp2_nodes a\<rparr>)))"

definition setReply :: "handler \<Rightarrow> handler res" where
  "setReply h =
    (case hd_args h of
       ARead a \<Rightarrow> setReply_read h a
     | AWrite a \<Rightarrow> setReply_write h a
     | AP1C a \<Rightarrow> setReply_p1c h a
     | AP2C a \<Rightarrow> setReply_p2c h a)"

text \<open>\<open>getRequest\<close> of the four classes, each of which returns its own constant.\<close>

definition request_of :: "handler_args \<Rightarrow> request_t" where
  "request_of args =
    (case args of ARead _ \<Rightarrow> TREAD | AWrite _ \<Rightarrow> TWRITE | AP1C _ \<Rightarrow> TP1C | AP2C _ \<Rightarrow> TP2C)"

definition getRequest :: "handler \<Rightarrow> request_t res" where
  "getRequest h = (if hd_status h \<noteq> PROCESS then Inl BadStatus else Inr (request_of (hd_args h)))"

text \<open>
  \<open>getArgs\<close> of the four classes copies the message into the argument structure.  A handler only
  receives messages of its own type.
\<close>

definition getArgs_read :: "ReadRequest \<Rightarrow> rpc_read_args_t \<Rightarrow> rpc_read_args_t" where
  "getArgs_read m a =
     a\<lparr>rr_args := \<lparr>ra_tid = rq_tid m, ra_start_ts = rq_start_ts m, ra_key = rq_key m\<rparr>\<rparr>"

definition getArgs_write :: "WriteRequest \<Rightarrow> rpc_write_args_t \<Rightarrow> rpc_write_args_t" where
  "getArgs_write m a =
     a\<lparr>rw_args := \<lparr>wa_tid = wq_tid m, wa_key = wq_key m, wa_value = wq_value m\<rparr>\<rparr>"

definition getArgs_p1c :: "PhaseOneCommitRequest \<Rightarrow> rpc_p1c_args_t \<Rightarrow> rpc_p1c_args_t" where
  "getArgs_p1c m a =
     a\<lparr>rp1_args := \<lparr>p1_tid = p1q_tid m, p1_start_ts = p1q_start_ts m, p1_commit_ts = p1q_commit_ts m,
                    p1_read_nodes = insert_all (p1q_read_node m) (p1_read_nodes (rp1_args a)),
                    p1_write_nodes = insert_all (p1q_write_node m) (p1_write_nodes (rp1_args a))\<rparr>\<rparr>"

definition getArgs_p2c :: "PhaseTwoCommitRequest \<Rightarrow> rpc_p2c_args_t \<Rightarrow> rpc_p2c_args_t" where
  "getArgs_p2c m a = a\<lparr>rp2_args := \<lparr>p2_tid = p2q_tid m, p2_vote = p2q_vote m\<rparr>\<rparr>"

definition getArgs :: "handler \<Rightarrow> handler res" where
  "getArgs h =
    (if hd_status h \<noteq> PROCESS then Inl BadStatus
     else case (hd_args h, hd_request h) of
       (ARead a, Some (MRead m)) \<Rightarrow> Inr (h\<lparr>hd_args := ARead (getArgs_read m a)\<rparr>)
     | (AWrite a, Some (MWrite m)) \<Rightarrow> Inr (h\<lparr>hd_args := AWrite (getArgs_write m a)\<rparr>)
     | (AP1C a, Some (MP1C m)) \<Rightarrow> Inr (h\<lparr>hd_args := AP1C (getArgs_p1c m a)\<rparr>)
     | (AP2C a, Some (MP2C m)) \<Rightarrow> Inr (h\<lparr>hd_args := AP2C (getArgs_p2c m a)\<rparr>)
     | _ \<Rightarrow> Inl Uninitialised)"

lemmas new_handler_defs =
  new_handler_def new_read_handler_def new_write_handler_def new_p1c_handler_def
  new_p2c_handler_def handler_for_def

lemmas setReply_defs =
  setReply_def setReply_read_def setReply_write_def setReply_p1c_def setReply_p2c_def finish_reply_def

lemmas getArgs_defs =
  getArgs_def getArgs_read_def getArgs_write_def getArgs_p1c_def getArgs_p2c_def

text \<open>The destructor of the base class.\<close>

definition destroy_handler :: "handler \<Rightarrow> unit res" where
  "destroy_handler h = (if hd_status h \<noteq> FINISH then Inl BadStatus else Inr ())"

section \<open>The server\<close>

type_synonym rid = nat

record rpc_server =
  rs_handlers :: "rid \<rightharpoonup> handler"
  rs_next :: rid
  rs_request_queue :: "rid list"
  rs_reply_queue :: "rid list"

definition prepareNextRequest :: "rpc_server \<Rightarrow> request_t \<Rightarrow> rpc_server" where
  "prepareNextRequest rs r =
     rs\<lparr>rs_handlers := (rs_handlers rs)(rs_next rs \<mapsto> new_handler r), rs_next := Suc (rs_next rs)\<rparr>"

text \<open>The constructor: one handler waits for each type of request.  Addresses are not 0.\<close>

definition new_rpc_server :: rpc_server where
  "new_rpc_server =
     fold (\<lambda>r rs. prepareNextRequest rs r) [TREAD, TWRITE, TP1C, TP2C]
       \<lparr>rs_handlers = Map.empty, rs_next = 1, rs_request_queue = [], rs_reply_queue = []\<rparr>"

text \<open>A tag from the completion queue, with the message of an arriving request.\<close>

type_synonym arrival = "rid \<times> request_msg option"

definition receive :: "handler \<Rightarrow> request_msg option \<Rightarrow> handler" where
  "receive h m = (case m of None \<Rightarrow> h | Some _ \<Rightarrow> h\<lparr>hd_request := m\<rparr>)"

definition process_tag :: "rpc_server \<Rightarrow> arrival \<Rightarrow> rpc_server res" where
  "process_tag rs arr =
    (case rs_handlers rs (fst arr) of
       None \<Rightarrow> Inl NullPointer
     | Some h0 \<Rightarrow>
         let h = receive h0 (snd arr);
             rs = rs\<lparr>rs_handlers := (rs_handlers rs)(fst arr \<mapsto> h)\<rparr>
         in if hd_status h = PROCESS then
              and_then (getRequest h) (\<lambda>r.
                Inr (prepareNextRequest
                      (rs\<lparr>rs_request_queue := rs_request_queue rs @ [fst arr]\<rparr>) r))
            else if hd_status h = FINISH then
              Inr (rs\<lparr>rs_reply_queue := rs_reply_queue rs @ [fst arr]\<rparr>)
            else Inr rs)"

definition processSyncQueue :: "rpc_server \<Rightarrow> arrival \<Rightarrow> rpc_server res" where
  "processSyncQueue rs arr = process_tag rs arr"

fun processAsyncQueue :: "rpc_server \<Rightarrow> arrival list \<Rightarrow> rpc_server res" where
  "processAsyncQueue rs [] = Inr rs"
| "processAsyncQueue rs (arr # arrs) =
     and_then (process_tag rs arr) (\<lambda>rs. processAsyncQueue rs arrs)"

text \<open>The front of the request queue, its type, and its arguments filled in.\<close>

definition take_request :: "rpc_server \<Rightarrow> (rpc_server \<times> rid \<times> request_t) res" where
  "take_request rs =
    (case rs_request_queue rs of
       [] \<Rightarrow> Inl NullPointer
     | r # q \<Rightarrow>
         and_then (need NullPointer (rs_handlers rs r)) (\<lambda>h.
         and_then (getRequest h) (\<lambda>req.
         and_then (getArgs h) (\<lambda>h.
           Inr (rs\<lparr>rs_request_queue := q, rs_handlers := (rs_handlers rs)(r \<mapsto> h)\<rparr>, r, req)))))"

fun nextRequest :: "rpc_server \<Rightarrow> arrival list \<Rightarrow> (rpc_server \<times> rid \<times> request_t) res" where
  "nextRequest rs arrs =
    (if rs_request_queue rs \<noteq> [] then take_request rs
     else case arrs of
       [] \<Rightarrow> Inl Blocked
     | arr # arrs' \<Rightarrow> and_then (processSyncQueue rs arr) (\<lambda>rs. nextRequest rs arrs'))"

declare nextRequest.simps [simp del]

definition asyncNextRequest ::
    "rpc_server \<Rightarrow> arrival list \<Rightarrow> (rpc_server \<times> (rid \<times> request_t) option) res" where
  "asyncNextRequest rs arrs =
     and_then (processAsyncQueue rs arrs) (\<lambda>rs.
       if rs_request_queue rs = [] then Inr (rs, None)
       else and_then (take_request rs) (\<lambda>(rs, r, req). Inr (rs, Some (r, req))))"

definition sendReply :: "rpc_server \<Rightarrow> rid \<Rightarrow> rpc_server res" where
  "sendReply rs r =
     and_then (need NullPointer (rs_handlers rs r)) (\<lambda>h.
     and_then (setReply h) (\<lambda>h. Inr (rs\<lparr>rs_handlers := (rs_handlers rs)(r \<mapsto> h)\<rparr>)))"

definition take_reply :: "rpc_server \<Rightarrow> (rpc_server \<times> rid) res" where
  "take_reply rs =
    (case rs_reply_queue rs of
       [] \<Rightarrow> Inl NullPointer
     | r # q \<Rightarrow> Inr (rs\<lparr>rs_reply_queue := q\<rparr>, r))"

definition nextCompletedReply :: "rpc_server \<Rightarrow> arrival list \<Rightarrow> (rpc_server \<times> rid) res" where
  "nextCompletedReply rs arrs =
    (case arrs of
       [] \<Rightarrow> Inl Blocked
     | arr # _ \<Rightarrow> and_then (processSyncQueue rs arr) take_reply)"

definition asyncNextCompletedReply :: "rpc_server \<Rightarrow> arrival list \<Rightarrow> (rpc_server \<times> rid option) res" where
  "asyncNextCompletedReply rs arrs =
     and_then (processAsyncQueue rs arrs) (\<lambda>rs.
       if rs_reply_queue rs = [] then Inr (rs, None)
       else and_then (take_reply rs) (\<lambda>(rs, r). Inr (rs, Some r)))"

definition deleteRequest :: "rpc_server \<Rightarrow> rid \<Rightarrow> rpc_server res" where
  "deleteRequest rs r =
     and_then (need NullPointer (rs_handlers rs r)) (\<lambda>h.
     and_then (destroy_handler h) (\<lambda>_. Inr (rs\<lparr>rs_handlers := (rs_handlers rs)(r := None)\<rparr>)))"

section \<open>The life of a request\<close>

text \<open>A handler of the given type that waits for its request.\<close>

definition listening :: "rpc_server \<Rightarrow> rid \<Rightarrow> request_t \<Rightarrow> bool" where
  "listening rs r req \<longleftrightarrow> rs_handlers rs r = Some (new_handler req) \<and> r \<notin> set (rs_request_queue rs)"

fun msg_type :: "request_msg \<Rightarrow> request_t" where
  "msg_type (MRead _) = TREAD"
| "msg_type (MWrite _) = TWRITE"
| "msg_type (MP1C _) = TP1C"
| "msg_type (MP2C _) = TP2C"

text \<open>Request IDs in use are below the allocation pointer, and the queued ones exist.\<close>

definition rpc_inv :: "rpc_server \<Rightarrow> bool" where
  "rpc_inv rs \<longleftrightarrow> (\<forall>r. rs_handlers rs r \<noteq> None \<longrightarrow> 0 < r \<and> r < rs_next rs)
     \<and> 0 < rs_next rs \<and> set (rs_request_queue rs) \<subseteq> dom (rs_handlers rs)
     \<and> (\<forall>req. \<exists>r. listening rs r req)"

lemma new_handler_simps [simp]:
  "hd_status (new_handler r) = PROCESS" "hd_request (new_handler r) = None"
  "hd_reply (new_handler r) = None"
  by (cases r; simp add: new_handler_defs)+

lemma getRequest_new: "getRequest (receive (new_handler req) m) = Inr req"
  by (cases req; cases m) (simp_all add: getRequest_def request_of_def receive_def new_handler_defs)

lemma getRequest_status: "hd_status h = PROCESS \<Longrightarrow> \<exists>r. getRequest h = Inr r"
  by (simp add: getRequest_def)

text \<open>After a request has arrived, a fresh handler of its type is listening.\<close>

lemma process_request:
  assumes "rpc_inv rs" "listening rs r req"
  shows "\<exists>rs'. process_tag rs (r, Some m) = Inr rs' \<and> rpc_inv rs'
    \<and> rs_request_queue rs' = rs_request_queue rs @ [r]
    \<and> rs_handlers rs' r = Some ((new_handler req)\<lparr>hd_request := Some m\<rparr>)
    \<and> listening rs' (rs_next rs) req"
proof -
  let ?h = "(new_handler req)\<lparr>hd_request := Some m\<rparr>"
  from assms have r: "rs_handlers rs r = Some (new_handler req)" "0 < r" "r < rs_next rs"
    by (auto simp: listening_def rpc_inv_def)
  have fresh: "rs_next rs \<notin> set (rs_request_queue rs)"
    using assms(1) unfolding rpc_inv_def by (meson domIff order_less_irrefl subsetD)
  define rs' where "rs' = rs\<lparr>rs_handlers := (rs_handlers rs)(r \<mapsto> ?h, rs_next rs \<mapsto> new_handler req),
      rs_next := Suc (rs_next rs), rs_request_queue := rs_request_queue rs @ [r]\<rparr>"
  have "getRequest ?h = Inr req" using getRequest_new [of req "Some m"] by (simp add: receive_def)
  then have run: "process_tag rs (r, Some m) = Inr rs'"
    using r(1) by (simp add: process_tag_def receive_def prepareNextRequest_def rs'_def Let_def)
  have new: "listening rs' (rs_next rs) req"
    using r fresh by (simp add: listening_def rs'_def)
  have other: "\<exists>r'. listening rs' r' req'" for req'
  proof (cases "req' = req")
    case True
    with new show ?thesis by blast
  next
    case False
    from assms(1) obtain r' where r': "listening rs r' req'" unfolding rpc_inv_def by blast
    have "new_handler req' \<noteq> new_handler req"
      using False by (cases req; cases req') (simp_all add: new_handler_defs)
    then have "r' \<noteq> r" "r' \<noteq> rs_next rs"
      using r' r(1) assms(1) by (auto simp: listening_def rpc_inv_def)
    with r' show ?thesis by (auto simp: listening_def rs'_def)
  qed
  have "rpc_inv rs'"
    using assms(1) r other by (auto simp: rpc_inv_def rs'_def less_Suc_eq)
  with run new r show ?thesis by (auto simp: rs'_def)
qed

lemma rpc_inv_new: "rpc_inv new_rpc_server"
proof -
  have "listening new_rpc_server 1 TREAD" "listening new_rpc_server 2 TWRITE"
    "listening new_rpc_server 3 TP1C" "listening new_rpc_server 4 TP2C"
    by (simp_all add: listening_def new_rpc_server_def prepareNextRequest_def numeral_eq_Suc)
  then have "\<exists>r. listening new_rpc_server r req" for req by (cases req) blast+
  then show ?thesis
    by (auto simp: rpc_inv_def new_rpc_server_def prepareNextRequest_def numeral_eq_Suc split: if_splits)
qed

end
