(* ===== verification/Safe_Queue.thy ===== *)
theory Safe_Queue
  imports Prelude
begin

text \<open>
  \<open>SafeQueue\<close> (\<open>src/src/SafeQueue.h\<close> and \<open>.cc\<close>), the bounded queue of events of the server.
  An operation that waits on a condition variable is not enabled in the current state; this
  is the result \<^const>\<open>None\<close>.
\<close>

section \<open>The queue\<close>

record 'a safe_queue =
  q_max_size :: nat
  q_queue :: "'a list"

definition new_queue :: "nat \<Rightarrow> 'a safe_queue" where
  "new_queue max_size = \<lparr>q_max_size = max_size, q_queue = []\<rparr>"

definition enqueue :: "'a safe_queue \<Rightarrow> 'a \<Rightarrow> 'a safe_queue option" where
  "enqueue q t =
    (if length (q_queue q) = q_max_size q then None
     else Some (q\<lparr>q_queue := q_queue q @ [t]\<rparr>))"

definition dequeue :: "'a safe_queue \<Rightarrow> ('a \<times> 'a safe_queue) option" where
  "dequeue q =
    (case q_queue q of
       [] \<Rightarrow> None
     | x # xs \<Rightarrow> Some (x, q\<lparr>q_queue := xs\<rparr>))"

text \<open>\<open>tryDequeue\<close> does not wait; \<open>elem\<close> is the caller's variable.\<close>

definition tryDequeue :: "'a safe_queue \<Rightarrow> 'a \<Rightarrow> bool \<times> 'a \<times> 'a safe_queue" where
  "tryDequeue q elem =
    (case q_queue q of
       [] \<Rightarrow> (False, elem, q)
     | x # xs \<Rightarrow> (True, x, q\<lparr>q_queue := xs\<rparr>))"

section \<open>A bounded FIFO\<close>

text \<open>
  The interface: the elements in order, and the bound.  Every sequence of operations that
  goes through delivers the elements in the order in which they came.
\<close>

locale bounded_fifo =
  fixes elems :: "'q \<Rightarrow> 'a list"
    and bound :: "'q \<Rightarrow> nat"
    and put :: "'q \<Rightarrow> 'a \<Rightarrow> 'q option"
    and take_out :: "'q \<Rightarrow> ('a \<times> 'q) option"
  assumes put_full: "length (elems q) = bound q \<Longrightarrow> put q x = None"
    and put_ok: "length (elems q) \<noteq> bound q \<Longrightarrow>
      \<exists>q'. put q x = Some q' \<and> elems q' = elems q @ [x] \<and> bound q' = bound q"
    and take_empty: "elems q = [] \<Longrightarrow> take_out q = None"
    and take_ok: "elems q \<noteq> [] \<Longrightarrow>
      \<exists>q'. take_out q = Some (hd (elems q), q') \<and> elems q' = tl (elems q) \<and> bound q' = bound q"
begin

text \<open>\<open>Some x\<close> puts \<open>x\<close>, \<^const>\<open>None\<close> takes; the result lists what was taken.\<close>

fun steps :: "'q \<Rightarrow> 'a option list \<Rightarrow> ('a list \<times> 'q) option" where
  "steps q [] = Some ([], q)"
| "steps q (Some x # ops) = Option.bind (put q x) (\<lambda>q'. steps q' ops)"
| "steps q (None # ops) =
     Option.bind (take_out q) (\<lambda>(x, q'). map_option (\<lambda>(out, q''). (x # out, q'')) (steps q' ops))"

lemma steps_fifo:
  "steps q ops = Some (out, q') \<Longrightarrow>
   elems q @ List.map_filter (\<lambda>x. x) ops = out @ elems q' \<and> bound q' = bound q"
proof (induction q ops arbitrary: out q' rule: steps.induct)
  case (1 q)
  then show ?case by (simp add: map_filter_simps)
next
  case (2 q x ops)
  then obtain q1 where q1: "put q x = Some q1" "steps q1 ops = Some (out, q')"
    by (auto simp: bind_eq_Some_conv)
  then have "length (elems q) \<noteq> bound q" using put_full [of q x] by auto
  with put_ok [OF this, of x] q1(1) have "elems q1 = elems q @ [x]" "bound q1 = bound q" by auto
  with "2.IH" [OF q1] show ?case by (simp add: map_filter_simps)
next
  case (3 q ops)
  then obtain x q1 out1 where q1: "take_out q = Some (x, q1)" "steps q1 ops = Some (out1, q')" "out = x # out1"
    by (auto simp: bind_eq_Some_conv split: prod.splits)
  then have ne: "elems q \<noteq> []" using take_empty [of q] by auto
  with take_ok [OF ne] q1(1) have "x = hd (elems q)" "elems q1 = tl (elems q)" "bound q1 = bound q" by auto
  with 3(1) [OF q1(1) refl q1(2)] q1(3) ne show ?case
    by (cases "elems q") (simp_all add: map_filter_simps)
qed

lemma steps_bounded:
  "steps q ops = Some (out, q') \<Longrightarrow> length (elems q) \<le> bound q \<Longrightarrow> length (elems q') \<le> bound q'"
proof (induction q ops arbitrary: out q' rule: steps.induct)
  case (2 q x ops)
  then obtain q1 where q1: "put q x = Some q1" "steps q1 ops = Some (out, q')"
    by (auto simp: bind_eq_Some_conv)
  then have "length (elems q) \<noteq> bound q" using put_full [of q x] by auto
  with put_ok [OF this, of x] 2 q1 show ?case by auto
next
  case (3 q ops)
  then obtain x q1 out1 where q1: "take_out q = Some (x, q1)" "steps q1 ops = Some (out1, q')"
    by (auto simp: bind_eq_Some_conv split: prod.splits)
  then have ne: "elems q \<noteq> []" using take_empty [of q] by auto
  with take_ok [OF ne] 3(1) [OF q1(1) refl q1(2)] 3(3) q1(1) show ?case by auto
qed simp

end

interpretation sq: bounded_fifo q_queue q_max_size enqueue dequeue
  by unfold_locales (auto simp: enqueue_def dequeue_def split: list.splits)

text \<open>
  C39: the queue is a bounded FIFO: in every sequence of enqueues and dequeues that goes
  through on a queue of the given size, what was taken out, followed by what is left, is what
  was put in, in order, and the queue never holds more than its maximum.
\<close>
theorem queue_is_bounded_fifo:
  assumes "sq.steps (new_queue n) ops = Some (out, q)"
  shows "List.map_filter (\<lambda>x. x) ops = out @ q_queue q \<and> length (q_queue q) \<le> n"
  using sq.steps_fifo [OF assms] sq.steps_bounded [OF assms] by (simp add: new_queue_def)

theorem queue_is_bounded_fifo_witness:
  "\<exists>q. sq.steps (new_queue 2) [Some (1::nat), Some 2, None, Some 3] = Some ([1], q) \<and> q_queue q = [2, 3]"
proof -
  have s: "sq.steps (new_queue 2) [Some (1::nat), Some 2, None, Some 3] =
      Some ([1], \<lparr>q_max_size = 2, q_queue = [2, 3]\<rparr>)"
    by (simp add: new_queue_def enqueue_def dequeue_def)
  from queue_is_bounded_fifo [OF s] s show ?thesis by (simp add: map_filter_simps)
qed

end
