(* ===== verification/TServer.thy ===== *)
theory TServer
  imports RPC_Server Safe_Queue Lock_Manager
begin

text \<open>
  The transaction server: \<open>TServer.h\<close>, \<open>SimpleTServer.h\<close>, \<open>SimpleTServer.cc\<close>,
  \<open>ServerEvent.h\<close>, \<open>ServerEvent.cc\<close> and \<open>ServerMain.cc\<close> under \<open>src/src\<close>.  It turns requests into events,
  runs the events against the lock manager, and keeps the committed versions and the pending
  writes.

  An event shares its argument structure with the request handler: both refer to it through
  the request ID.  An event is identified by its address, which is what the lock manager
  keeps of a waiting read.
\<close>

section \<open>State\<close>

record server_event =
  se_kind :: request_t
  se_rid :: rid
  se_phase :: nat

text \<open>
  \<open>ts_tid_locked\<close> and \<open>ts_tid_write_locked\<close> say whether \<open>_tid_mutex\<close> and \<open>_tid_write_mutex\<close>
  are held between two operations.
\<close>

record tserver =
  ts_nodes :: "u64 list"
  ts_rpc :: rpc_server
  ts_locks :: lock_manager
  ts_queue :: "event_id safe_queue"
  ts_events :: "event_id \<rightharpoonup> server_event"
  ts_next_event :: event_id
  ts_tid_locked :: bool
  ts_tid_to_nodes :: "u64 \<rightharpoonup> u64 list"
  ts_tid_write_locked :: bool
  ts_tid_to_write_nodes :: "u64 \<rightharpoonup> u64 list"
  ts_store :: "u64 \<rightharpoonup> (u64 \<rightharpoonup> string)"
  ts_pend_writes :: "u64 \<rightharpoonup> (u64 \<times> string) list"
  ts_rdy_to_commit :: "u64 \<rightharpoonup> u64"

definition new_tserver :: "rpc_server \<Rightarrow> lock_manager \<Rightarrow> nat \<Rightarrow> tserver" where
  "new_tserver rpc locks queue_size =
     \<lparr>ts_nodes = set_insert 0 [], ts_rpc = rpc, ts_locks = locks, ts_queue = new_queue queue_size,
      ts_events = Map.empty, ts_next_event = 0,
      ts_tid_locked = False, ts_tid_to_nodes = Map.empty,
      ts_tid_write_locked = False, ts_tid_to_write_nodes = Map.empty,
      ts_store = Map.empty, ts_pend_writes = Map.empty, ts_rdy_to_commit = Map.empty\<rparr>"

section \<open>The store and the pending writes\<close>

text \<open>\<open>get\<close> returns a null pointer for a version that is not stored.\<close>

definition get :: "tserver \<Rightarrow> u64 \<Rightarrow> u64 \<Rightarrow> string option" where
  "get s key ts =
    (if ts = 0 then Some ''0''
     else case ts_store s key of
       None \<Rightarrow> None
     | Some versions \<Rightarrow> versions ts)"

definition set_version :: "tserver \<Rightarrow> u64 \<Rightarrow> u64 \<Rightarrow> string \<Rightarrow> tserver" where
  "set_version s key ts val =
    (let versions = (case ts_store s key of None \<Rightarrow> Map.empty | Some v \<Rightarrow> v)
     in s\<lparr>ts_store := (ts_store s)(key \<mapsto> versions(ts \<mapsto> val))\<rparr>)"

definition add :: "tserver \<Rightarrow> u64 \<Rightarrow> u64 \<Rightarrow> string \<Rightarrow> tserver" where
  "add s tid key val =
    (let ws = (case ts_pend_writes s tid of None \<Rightarrow> [] | Some ws \<Rightarrow> ws)
     in s\<lparr>ts_pend_writes := (ts_pend_writes s)(tid \<mapsto> ws @ [(key, val)])\<rparr>)"

definition getKeys :: "tserver \<Rightarrow> u64 \<Rightarrow> u64 list" where
  "getKeys s tid =
    (case ts_pend_writes s tid of None \<Rightarrow> [] | Some ws \<Rightarrow> map fst ws)"

definition prepare :: "tserver \<Rightarrow> u64 \<Rightarrow> u64 \<Rightarrow> tserver" where
  "prepare s tid ts = s\<lparr>ts_rdy_to_commit := (ts_rdy_to_commit s)(tid \<mapsto> ts)\<rparr>"

fun set_all :: "tserver \<Rightarrow> u64 \<Rightarrow> (u64 \<times> string) list \<Rightarrow> tserver" where
  "set_all s ts [] = s"
| "set_all s ts ((key, val) # ws) = set_all (set_version s key ts val) ts ws"

definition finalize :: "tserver \<Rightarrow> u64 \<Rightarrow> bool \<Rightarrow> tserver" where
  "finalize s tid success =
    (case ts_rdy_to_commit s tid of
       None \<Rightarrow> s
     | Some ts \<Rightarrow>
         (case ts_pend_writes s tid of
            None \<Rightarrow> s\<lparr>ts_rdy_to_commit := (ts_rdy_to_commit s)(tid := None)\<rparr>
          | Some ws \<Rightarrow>
              let s = (if success then set_all s ts ws else s)
              in s\<lparr>ts_pend_writes := (ts_pend_writes s)(tid := None),
                   ts_rdy_to_commit := (ts_rdy_to_commit s)(tid := None)\<rparr>))"

section \<open>Replies and argument structures\<close>

definition server_sendReply :: "tserver \<Rightarrow> rid \<Rightarrow> tserver res" where
  "server_sendReply s r =
     and_then (sendReply (ts_rpc s) r) (\<lambda>rpc. Inr (s\<lparr>ts_rpc := rpc\<rparr>))"

definition args_of :: "tserver \<Rightarrow> rid \<Rightarrow> handler_args res" where
  "args_of s r = and_then (need NullPointer (rs_handlers (ts_rpc s) r)) (\<lambda>h. Inr (hd_args h))"

definition set_args :: "tserver \<Rightarrow> rid \<Rightarrow> handler_args \<Rightarrow> tserver" where
  "set_args s r a =
    (case rs_handlers (ts_rpc s) r of
       None \<Rightarrow> s
     | Some h \<Rightarrow> s\<lparr>ts_rpc := (ts_rpc s)\<lparr>rs_handlers :=
                      (rs_handlers (ts_rpc s))(r \<mapsto> h\<lparr>hd_args := a\<rparr>)\<rparr>\<rparr>)"

definition set_phase :: "tserver \<Rightarrow> event_id \<Rightarrow> nat \<Rightarrow> tserver" where
  "set_phase s ev p =
    (case ts_events s ev of
       None \<Rightarrow> s
     | Some e \<Rightarrow> s\<lparr>ts_events := (ts_events s)(ev \<mapsto> e\<lparr>se_phase := p\<rparr>)\<rparr>)"

section \<open>Running events\<close>

definition read_phase_1 :: "tserver \<Rightarrow> event_id \<Rightarrow> server_event \<Rightarrow> rpc_read_args_t \<Rightarrow> tserver res" where
  "read_phase_1 s ev e a =
    (let s = set_phase s ev 2;
         val = get s (ra_key (rr_args a)) (ra_start_ts (rr_args a) - 1);
         s = set_args s (se_rid e) (ARead (a\<lparr>rr_value := val\<rparr>))
     in and_then (need NullPointer val) (\<lambda>_. server_sendReply s (se_rid e)))"

definition run_read :: "tserver \<Rightarrow> event_id \<Rightarrow> server_event \<Rightarrow> rpc_read_args_t \<Rightarrow> tserver res" where
  "run_read s ev e a =
    (if se_phase e = 0 then
       and_then (need LockFailure
         (tryBackwardLock (ts_locks s) (ra_key (rr_args a)) (ra_tid (rr_args a))
            (ra_start_ts (rr_args a) - 1) True ev (ra_start_ts (rr_args a))))
         (\<lambda>(locks, granted, start).
            let a = a\<lparr>rr_args := (rr_args a)\<lparr>ra_start_ts := start\<rparr>\<rparr>;
                s = set_args (s\<lparr>ts_locks := locks\<rparr>) (se_rid e) (ARead a)
            in if granted then read_phase_1 (set_phase s ev 1) ev e a else Inr s)
     else if se_phase e = 1 then read_phase_1 s ev e a
     else Inl BadPhase)"

definition run_write :: "tserver \<Rightarrow> event_id \<Rightarrow> server_event \<Rightarrow> rpc_write_args_t \<Rightarrow> tserver res" where
  "run_write s ev e a =
    (if se_phase e = 0 then
       let s = set_phase s ev 1;
           s = add s (wa_tid (rw_args a)) (wa_key (rw_args a)) (wa_value (rw_args a))
       in server_sendReply s (se_rid e)
     else Inl BadPhase)"

text \<open>The loop of the first commit phase: lock the keys until one is refused.\<close>

fun lock_keys ::
    "lock_manager \<Rightarrow> u64 \<Rightarrow> u64 \<Rightarrow> u64 \<Rightarrow> u64 list \<Rightarrow> (lock_manager \<times> bool) option" where
  "lock_keys m tid start_ts commit_ts [] = Some (m, True)"
| "lock_keys m tid start_ts commit_ts (key # keys) = do {
     (m, granted) \<leftarrow> tryLock m key tid start_ts commit_ts False;
     (if granted then lock_keys m tid start_ts commit_ts keys else Some (m, False))
   }"

definition run_p1c :: "tserver \<Rightarrow> event_id \<Rightarrow> server_event \<Rightarrow> rpc_p1c_args_t \<Rightarrow> tserver res" where
  "run_p1c s ev e a =
    (if se_phase e = 0 then
       let tid = p1_tid (rp1_args a);
           keys = getKeys s tid;
           s = set_phase s ev 1
       in and_then (need LockFailure
            (lock_keys (ts_locks s) tid (p1_start_ts (rp1_args a)) (p1_commit_ts (rp1_args a)) keys))
            (\<lambda>(locks, res).
               let nodes = insert_all (p1_read_nodes (rp1_args a)) (rp1_nodes a);
                   nodes = insert_all (p1_write_nodes (rp1_args a)) nodes;
                   a = a\<lparr>rp1_nodes := nodes, rp1_vote := Some res\<rparr>;
                   s = set_args (s\<lparr>ts_locks := locks\<rparr>) (se_rid e) (AP1C a);
                   s = prepare s tid (p1_commit_ts (rp1_args a))
               in server_sendReply s (se_rid e))
     else Inl BadPhase)"

text \<open>
  \<open>freeze\<close> and \<open>unlock\<close> run the events they collected before they return; \<open>run\<close> is what they
  call for each of them.
\<close>

fun run_list :: "(tserver \<Rightarrow> event_id \<Rightarrow> tserver res) \<Rightarrow> tserver \<Rightarrow> event_id list \<Rightarrow> tserver res" where
  "run_list run s [] = Inr s"
| "run_list run s (ev # evs) = and_then (run s ev) (\<lambda>s. run_list run s evs)"

definition run_p2c ::
    "(tserver \<Rightarrow> event_id \<Rightarrow> tserver res) \<Rightarrow> tserver \<Rightarrow> event_id \<Rightarrow> server_event \<Rightarrow> rpc_p2c_args_t \<Rightarrow>
     tserver res" where
  "run_p2c run s ev e a =
    (if se_phase e = 0 then
       let tid = p2_tid (rp2_args a);
           vote = p2_vote (rp2_args a);
           s = set_phase s ev 1
       in and_then (need LockFailure (if vote then freeze (ts_locks s) tid else unlock (ts_locks s) tid))
            (\<lambda>(locks, events).
               and_then (run_list run (s\<lparr>ts_locks := locks\<rparr>) events) (\<lambda>s.
                 server_sendReply (finalize s tid vote) (se_rid e)))
     else if se_phase e = 1 then Inl BadPhase
     else Inr s)"

text \<open>
  \<open>run\<close> of an event.  The first argument bounds how deep events may run other events; a
  second commit phase runs waiting reads, which run nothing, so that 2 is enough.
\<close>

primrec run_event :: "nat \<Rightarrow> tserver \<Rightarrow> event_id \<Rightarrow> tserver res" where
  "run_event 0 = (\<lambda>s ev. Inl OutOfFuel)"
| "run_event (Suc d) = (\<lambda>s ev.
     and_then (need NullPointer (ts_events s ev)) (\<lambda>e.
     and_then (args_of s (se_rid e)) (\<lambda>args.
       case (se_kind e, args) of
         (TREAD, ARead a) \<Rightarrow> run_read s ev e a
       | (TWRITE, AWrite a) \<Rightarrow> run_write s ev e a
       | (TP1C, AP1C a) \<Rightarrow> run_p1c s ev e a
       | (TP2C, AP2C a) \<Rightarrow> run_p2c (run_event d) s ev e a
       | _ \<Rightarrow> Inl BadCast)))"

section \<open>From requests to events\<close>

definition new_event :: "tserver \<Rightarrow> request_t \<Rightarrow> rid \<Rightarrow> tserver \<times> event_id" where
  "new_event s kind r =
    (s\<lparr>ts_events := (ts_events s)(ts_next_event s \<mapsto> \<lparr>se_kind = kind, se_rid = r, se_phase = 0\<rparr>),
       ts_next_event := Suc (ts_next_event s)\<rparr>, ts_next_event s)"

definition note_node :: "(u64 \<rightharpoonup> u64 list) \<Rightarrow> u64 \<Rightarrow> u64 \<Rightarrow> (u64 \<rightharpoonup> u64 list)" where
  "note_node m tid node =
    m(tid \<mapsto> set_insert node (case m tid of None \<Rightarrow> [] | Some ns \<Rightarrow> ns))"

definition lock_tid :: "tserver \<Rightarrow> tserver res" where
  "lock_tid s = (if ts_tid_locked s then Inl Deadlock else Inr (s\<lparr>ts_tid_locked := True\<rparr>))"

definition lock_tid_write :: "tserver \<Rightarrow> tserver res" where
  "lock_tid_write s =
    (if ts_tid_write_locked s then Inl Deadlock else Inr (s\<lparr>ts_tid_write_locked := True\<rparr>))"

text \<open>The node of a read or write is noted for its transaction, under the mutex of the table.\<close>

definition note_tid :: "tserver \<Rightarrow> u64 \<Rightarrow> u64 \<Rightarrow> tserver res" where
  "note_tid s tid node = and_then (lock_tid s) (\<lambda>s.
     Inr (s\<lparr>ts_tid_to_nodes := note_node (ts_tid_to_nodes s) tid node, ts_tid_locked := False\<rparr>))"

definition note_write_tid :: "tserver \<Rightarrow> u64 \<Rightarrow> u64 \<Rightarrow> tserver res" where
  "note_write_tid s tid node = and_then (lock_tid_write s) (\<lambda>s.
     Inr (s\<lparr>ts_tid_to_write_nodes := note_node (ts_tid_to_write_nodes s) tid node,
            ts_tid_write_locked := False\<rparr>))"

text \<open>
  The nodes of a transaction are handed over to the request and forgotten.  When there are
  none the code goes on without unlocking the mutex.
\<close>

definition take_write_nodes :: "tserver \<Rightarrow> u64 \<Rightarrow> (tserver \<times> u64 list option) res" where
  "take_write_nodes s tid = and_then (lock_tid_write s) (\<lambda>s.
     case ts_tid_to_write_nodes s tid of
       None \<Rightarrow> Inr (s, None)
     | Some nodes \<Rightarrow>
         Inr (s\<lparr>ts_tid_to_write_nodes := (ts_tid_to_write_nodes s)(tid := None),
                ts_tid_write_locked := False\<rparr>, Some nodes))"

definition take_nodes :: "tserver \<Rightarrow> u64 \<Rightarrow> (tserver \<times> u64 list option) res" where
  "take_nodes s tid = and_then (lock_tid s) (\<lambda>s.
     case ts_tid_to_nodes s tid of
       None \<Rightarrow> Inr (s, None)
     | Some nodes \<Rightarrow>
         Inr (s\<lparr>ts_tid_to_nodes := (ts_tid_to_nodes s)(tid := None), ts_tid_locked := False\<rparr>,
              Some nodes))"

text \<open>
  The four cases of the \<open>switch\<close> of \<open>getEvent\<close>.  The result has the new event; \<^const>\<open>None\<close>
  means that the request was replied to at once and the loop continues.
\<close>

definition reply_only :: "tserver \<Rightarrow> rid \<Rightarrow> (tserver \<times> event_id option) res" where
  "reply_only s r = and_then (server_sendReply s r) (\<lambda>s. Inr (s, None))"

definition make_event :: "tserver \<Rightarrow> request_t \<Rightarrow> rid \<Rightarrow> tserver \<times> event_id option" where
  "make_event s kind r = (let (s, ev) = new_event s kind r in (s, Some ev))"

definition dispatch_read ::
    "(u64 \<Rightarrow> u64) \<Rightarrow> tserver \<Rightarrow> rid \<Rightarrow> rpc_read_args_t \<Rightarrow> (tserver \<times> event_id option) res" where
  "dispatch_read mapper s r a =
    (let node = mapper (ra_key (rr_args a)); tid = ra_tid (rr_args a)
     in if node \<notin> set (ts_nodes s) then
          reply_only (set_args s r (ARead (a\<lparr>rr_status := Some False\<rparr>))) r
        else
          and_then (note_tid (set_args s r (ARead (a\<lparr>rr_status := Some True\<rparr>))) tid node) (\<lambda>s.
            Inr (make_event s TREAD r)))"

definition dispatch_write ::
    "(u64 \<Rightarrow> u64) \<Rightarrow> tserver \<Rightarrow> rid \<Rightarrow> rpc_write_args_t \<Rightarrow> (tserver \<times> event_id option) res" where
  "dispatch_write mapper s r a =
    (let node = mapper (wa_key (rw_args a)); tid = wa_tid (rw_args a)
     in if node \<notin> set (ts_nodes s) then
          reply_only (set_args s r (AWrite (a\<lparr>rw_status := Some False\<rparr>))) r
        else
          and_then (note_tid (set_args s r (AWrite (a\<lparr>rw_status := Some True\<rparr>))) tid node) (\<lambda>s.
          and_then (note_write_tid s tid node) (\<lambda>s.
            Inr (make_event s TWRITE r))))"

definition dispatch_p1c :: "tserver \<Rightarrow> rid \<Rightarrow> rpc_p1c_args_t \<Rightarrow> (tserver \<times> event_id option) res" where
  "dispatch_p1c s r a =
     and_then (take_write_nodes s (p1_tid (rp1_args a))) (\<lambda>(s, nodes).
       case nodes of
         None \<Rightarrow> reply_only s r
       | Some nodes \<Rightarrow> Inr (make_event (set_args s r (AP1C (a\<lparr>rp1_nodes := nodes\<rparr>))) TP1C r))"

definition dispatch_p2c :: "tserver \<Rightarrow> rid \<Rightarrow> rpc_p2c_args_t \<Rightarrow> (tserver \<times> event_id option) res" where
  "dispatch_p2c s r a =
     and_then (take_nodes s (p2_tid (rp2_args a))) (\<lambda>(s, nodes).
       case nodes of
         None \<Rightarrow> reply_only s r
       | Some nodes \<Rightarrow> Inr (make_event (set_args s r (AP2C (a\<lparr>rp2_nodes := nodes\<rparr>))) TP2C r))"

text \<open>
  The \<open>switch\<close> is on the type of the request that \<open>asyncNextRequest\<close> returns; its cases cast the
  \<open>void *\<close> of the arguments.
\<close>

definition dispatch :: "(u64 \<Rightarrow> u64) \<Rightarrow> tserver \<Rightarrow> request_t \<Rightarrow> rid \<Rightarrow> (tserver \<times> event_id option) res" where
  "dispatch mapper s req r = and_then (args_of s r) (\<lambda>args.
     case (req, args) of
       (TREAD, ARead a) \<Rightarrow> dispatch_read mapper s r a
     | (TWRITE, AWrite a) \<Rightarrow> dispatch_write mapper s r a
     | (TP1C, AP1C a) \<Rightarrow> dispatch_p1c s r a
     | (TP2C, AP2C a) \<Rightarrow> dispatch_p2c s r a
     | _ \<Rightarrow> Inl BadCast)"

text \<open>An event is made from arguments of the requested type.\<close>

lemma dispatch_typed: "dispatch mapper s req r = Inr x \<Longrightarrow> \<exists>args. args_of s r = Inr args \<and> request_of args = req"
  by (cases "args_of s r") (auto simp: dispatch_def request_of_def split: request_t.splits handler_args.splits)

text \<open>
  One round of the loop of \<open>getEvent\<close>: an event from the queue, else a request, else a
  completed reply to clean up.  The arguments are the arrivals at the two polls of the
  completion queue; the result \<^const>\<open>None\<close> means that the loop goes on.
\<close>

definition getEvent_round ::
    "(u64 \<Rightarrow> u64) \<Rightarrow> tserver \<Rightarrow> arrival list \<times> arrival list \<Rightarrow> (tserver \<times> event_id option) res" where
  "getEvent_round mapper s arrs =
    (let (got, ev, q) = tryDequeue (ts_queue s) 0
     in if got then Inr (s\<lparr>ts_queue := q\<rparr>, Some ev)
        else and_then (asyncNextRequest (ts_rpc s) (fst arrs)) (\<lambda>(rpc, req).
          case req of
            Some (r, req) \<Rightarrow> dispatch mapper (s\<lparr>ts_rpc := rpc\<rparr>) req r
          | None \<Rightarrow>
              and_then (asyncNextCompletedReply rpc (snd arrs)) (\<lambda>(rpc, replied).
                case replied of
                  None \<Rightarrow> Inr (s\<lparr>ts_rpc := rpc\<rparr>, None)
                | Some r \<Rightarrow>
                    and_then (deleteRequest rpc r) (\<lambda>rpc. Inr (s\<lparr>ts_rpc := rpc\<rparr>, None)))))"

text \<open>\<open>getEvent\<close> against a list of rounds; \<^const>\<open>None\<close>: no event came up in these rounds.\<close>

fun getEvent ::
    "(u64 \<Rightarrow> u64) \<Rightarrow> tserver \<Rightarrow> (arrival list \<times> arrival list) list \<Rightarrow>
     (tserver \<times> event_id option) res" where
  "getEvent mapper s [] = Inr (s, None)"
| "getEvent mapper s (arrs # rounds) =
     and_then (getEvent_round mapper s arrs) (\<lambda>(s, ev).
       case ev of Some ev \<Rightarrow> Inr (s, Some ev) | None \<Rightarrow> getEvent mapper s rounds)"

definition server_addEvent :: "tserver \<Rightarrow> event_id \<Rightarrow> tserver res" where
  "server_addEvent s ev =
     and_then (need Blocked (enqueue (ts_queue s) ev)) (\<lambda>q. Inr (s\<lparr>ts_queue := q\<rparr>))"

section \<open>The server program\<close>

text \<open>
  \<open>main\<close> of \<open>ServerMain.cc\<close> makes a server with an empty lock manager and a queue of 1000
  places; its threads all execute \<open>run\<close>, whose loop takes an event and runs it.  A turn of the
  loop is given the rounds of \<open>getEvent\<close> up to the event; without an event the thread is still
  polling.
\<close>

definition main_server :: tserver where
  "main_server = new_tserver new_rpc_server lm_init 1000"

definition thread_turn ::
    "(u64 \<Rightarrow> u64) \<Rightarrow> tserver \<Rightarrow> (arrival list \<times> arrival list) list \<Rightarrow> tserver res" where
  "thread_turn mapper s rounds =
     and_then (getEvent mapper s rounds) (\<lambda>(s, ev).
       case ev of Some ev \<Rightarrow> run_event 2 s ev | None \<Rightarrow> Inr s)"

end
