(* ===== verification/Server_Data.thy ===== *)
theory Server_Data
  imports TServer Lock_Interface
begin

text \<open>
  What the operations of the server do to its data: the lock table, the stored versions, the
  pending writes and the prepared transactions.  The rest of the state (handlers, events,
  nodes, mutexes) does not interfere with them.
\<close>

section \<open>Which operations leave the data alone\<close>

definition same_data :: "tserver \<Rightarrow> tserver \<Rightarrow> bool" where
  "same_data s s' \<longleftrightarrow> ts_locks s' = ts_locks s \<and> ts_store s' = ts_store s
     \<and> ts_pend_writes s' = ts_pend_writes s \<and> ts_rdy_to_commit s' = ts_rdy_to_commit s"

lemma same_data_refl [simp]: "same_data s s"
  by (simp add: same_data_def)

lemma same_data_trans: "same_data s s1 \<Longrightarrow> same_data s1 s2 \<Longrightarrow> same_data s s2"
  by (simp add: same_data_def)

lemma same_data_set_args [simp]: "same_data s (set_args s r a)"
  by (simp add: same_data_def set_args_def split: option.split)

lemma same_data_set_phase [simp]: "same_data s (set_phase s ev p)"
  by (simp add: same_data_def set_phase_def split: option.split)

lemma same_data_sendReply: "server_sendReply s r = Inr s' \<Longrightarrow> same_data s s'"
  by (auto simp: server_sendReply_def and_then_eq_Inr_iff same_data_def)

lemma same_data_get: "same_data s s' \<Longrightarrow> get s' = get s"
  by (simp add: same_data_def get_def fun_eq_iff)

lemma same_data_getKeys: "same_data s s' \<Longrightarrow> getKeys s' = getKeys s"
  by (simp add: same_data_def getKeys_def fun_eq_iff)

section \<open>The store\<close>

lemma get_set_version:
  "get (set_version s key ts val) k t =
     (if k = key \<and> t = ts \<and> t \<noteq> 0 then Some val else get s k t)"
  by (auto simp: get_def set_version_def Let_def split: option.split)

lemma set_version_simps [simp]:
  "ts_locks (set_version s key ts val) = ts_locks s"
  "ts_pend_writes (set_version s key ts val) = ts_pend_writes s"
  "ts_rdy_to_commit (set_version s key ts val) = ts_rdy_to_commit s"
  "ts_rpc (set_version s key ts val) = ts_rpc s"
  "ts_events (set_version s key ts val) = ts_events s"
  by (simp_all add: set_version_def Let_def)

lemma set_all_simps [simp]:
  "ts_locks (set_all s ts ws) = ts_locks s"
  "ts_pend_writes (set_all s ts ws) = ts_pend_writes s"
  "ts_rdy_to_commit (set_all s ts ws) = ts_rdy_to_commit s"
  "ts_rpc (set_all s ts ws) = ts_rpc s"
  "ts_events (set_all s ts ws) = ts_events s"
  by (induction s ts ws rule: set_all.induct) simp_all

text \<open>The last pending write of a key is the one that is stored.\<close>

lemma get_set_all:
  "get (set_all s ts ws) k t =
     (if t = ts \<and> t \<noteq> 0 \<and> k \<in> fst ` set ws then map_of (rev ws) k else get s k t)"
proof (induction s ts ws rule: set_all.induct)
  case (2 s ts key val ws)
  have "map_of (rev ws) k = None \<longleftrightarrow> k \<notin> fst ` set ws"
    by (simp add: map_of_eq_None_iff)
  with 2 show ?case
    by (auto simp: get_set_version map_add_def split: option.split)
qed simp

lemma finalize_simps [simp]:
  "ts_locks (finalize s tid vote) = ts_locks s"
  "ts_rpc (finalize s tid vote) = ts_rpc s"
  "ts_events (finalize s tid vote) = ts_events s"
  by (simp_all add: finalize_def Let_def split: option.split)

lemma get_finalize_abort: "get (finalize s tid False) = get s"
  by (auto simp: finalize_def get_def fun_eq_iff Let_def split: option.split)

lemma get_drop [simp]:
  "get (s\<lparr>ts_pend_writes := p, ts_rdy_to_commit := r\<rparr>) = get s"
  "get (s\<lparr>ts_rdy_to_commit := r\<rparr>) = get s"
  "get (s\<lparr>ts_pend_writes := p\<rparr>) = get s"
  "get (s\<lparr>ts_locks := l\<rparr>) = get s"
  by (simp_all add: get_def fun_eq_iff)

lemma get_finalize_commit:
  "get (finalize s tid True) k t =
     (if ts_rdy_to_commit s tid = Some t \<and> t \<noteq> 0 \<and> k \<in> set (getKeys s tid)
      then map_of (rev (the (ts_pend_writes s tid))) k else get s k t)"
  by (auto simp: finalize_def getKeys_def get_set_all Let_def split: option.split)

lemma map_of_pending:
  assumes "k \<in> set (getKeys s tid)"
  shows "\<exists>v. map_of (rev (the (ts_pend_writes s tid))) k = Some v"
proof -
  from assms obtain ws where ws: "ts_pend_writes s tid = Some ws" "k \<in> fst ` set ws"
    by (cases "ts_pend_writes s tid") (auto simp: getKeys_def)
  then have "map_of (rev ws) k \<noteq> None" by (simp add: map_of_eq_None_iff)
  with ws(1) show ?thesis by auto
qed

lemma finalize_prepared:
  "ts_rdy_to_commit (finalize s tid vote) t = (if t = tid then None else ts_rdy_to_commit s t)"
  by (auto simp: finalize_def Let_def split: option.split)

lemma finalize_getKeys:
  "t \<noteq> tid \<Longrightarrow> getKeys (finalize s tid vote) t = getKeys s t"
  by (auto simp: finalize_def getKeys_def Let_def split: option.split)

lemma getKeys_add:
  "getKeys (add s tid key val) t = (if t = tid then getKeys s t @ [key] else getKeys s t)"
  by (auto simp: add_def getKeys_def Let_def split: option.split)

lemma add_simps [simp]:
  "ts_locks (add s tid key val) = ts_locks s"
  "ts_rdy_to_commit (add s tid key val) = ts_rdy_to_commit s"
  "ts_rpc (add s tid key val) = ts_rpc s"
  "ts_events (add s tid key val) = ts_events s"
  "get (add s tid key val) = get s"
  by (simp_all add: add_def get_def fun_eq_iff Let_def)

lemma prepare_simps [simp]:
  "ts_locks (prepare s tid ts) = ts_locks s"
  "ts_rdy_to_commit (prepare s tid ts) = (ts_rdy_to_commit s)(tid \<mapsto> ts)"
  "ts_rpc (prepare s tid ts) = ts_rpc s"
  "ts_events (prepare s tid ts) = ts_events s"
  "get (prepare s tid ts) = get s"
  "getKeys (prepare s tid ts) = getKeys s"
  by (simp_all add: prepare_def get_def getKeys_def fun_eq_iff)

section \<open>Locking the keys of a transaction\<close>

text \<open>
  The first commit phase locks keys in order until one is refused; a key that comes a second
  time is refused because it is locked already.
\<close>

lemma lock_keys_ok:
  "lm_inv m \<Longrightarrow>
   \<exists>m' b L. lock_keys m tid ts ts keys = Some (m', b) \<and> lm_inv m' \<and> L \<subseteq> set keys
     \<and> (\<forall>k. k \<in> L \<longrightarrow> fst (lock_at m k ts) = FREE)
     \<and> (\<forall>k t. lock_at m' k t = (if k \<in> L \<and> t = ts then (WRITE_LOCK, {tid}) else lock_at m k t))
     \<and> (b \<longrightarrow> L = set keys)
     \<and> (b \<longleftrightarrow> distinct keys \<and> (\<forall>k\<in>set keys. fst (lock_at m k ts) = FREE))"
proof (induction keys arbitrary: m)
  case Nil
  then show ?case by (intro exI [of _ m] exI [of _ True] exI [of _ "{}"]) simp
next
  case (Cons key keys)
  from avl.point_law [OF Cons.prems, of key tid ts False] obtain m1 where
    m1: "tryLock m key tid ts ts False = Some (m1, passes False (fst (lock_at m key ts)))" "lm_inv m1"
    "\<forall>k t. lock_at m1 k t = (if passes False (fst (lock_at m key ts)) \<and> k = key \<and> t = ts
       then acquire False tid (lock_at m k t) else lock_at m k t)" by blast
  show ?case
  proof (cases "fst (lock_at m key ts) = FREE")
    case False
    then have "\<not> passes False (fst (lock_at m key ts))" by (simp add: passes_def)
    with m1 False show ?thesis
      by (intro exI [of _ m1] exI [of _ False] exI [of _ "{}"]) auto
  next
    case True
    with lm_inv_wf [OF Cons.prems, of key ts] have c: "lock_at m key ts = (FREE, {})"
      by (cases "lock_at m key ts") (simp add: cell_wf_def)
    have p: "passes False FREE" by (simp add: passes_def)
    have cells: "lock_at m1 k t = (if k = key \<and> t = ts then (WRITE_LOCK, {tid}) else lock_at m k t)" for k t
      using m1(3) p c by (auto simp: acquire_def)
    from Cons.IH [OF m1(2)] obtain m' b L where
      i: "lock_keys m1 tid ts ts keys = Some (m', b)" "lm_inv m'" "L \<subseteq> set keys"
      "\<forall>k. k \<in> L \<longrightarrow> fst (lock_at m1 k ts) = FREE"
      "\<forall>k t. lock_at m' k t = (if k \<in> L \<and> t = ts then (WRITE_LOCK, {tid}) else lock_at m1 k t)"
      "b \<longrightarrow> L = set keys" "b \<longleftrightarrow> distinct keys \<and> (\<forall>k\<in>set keys. fst (lock_at m1 k ts) = FREE)" by blast
    have run: "lock_keys m tid ts ts (key # keys) = Some (m', b)"
      using m1(1) True p i(1) by simp
    have "\<forall>k. k \<in> insert key L \<longrightarrow> fst (lock_at m k ts) = FREE"
      using i(4) cells True by (auto split: if_splits)
    moreover have "\<forall>k t. lock_at m' k t = (if k \<in> insert key L \<and> t = ts then (WRITE_LOCK, {tid}) else lock_at m k t)"
      using i(5) cells by auto
    moreover have "b \<longleftrightarrow> distinct (key # keys) \<and> (\<forall>k\<in>set (key # keys). fst (lock_at m k ts) = FREE)"
    proof -
      have "(\<forall>k\<in>set keys. fst (lock_at m1 k ts) = FREE)
          \<longleftrightarrow> key \<notin> set keys \<and> (\<forall>k\<in>set keys. fst (lock_at m k ts) = FREE)"
        using cells by auto
      with i(7) True show ?thesis by auto
    qed
    moreover have "insert key L \<subseteq> set (key # keys)" "b \<longrightarrow> insert key L = set (key # keys)"
      using i(3,6) by auto
    ultimately show ?thesis using run i(2) by (intro exI conjI) assumption+
  qed
qed

end
