(* ===== verification/Server_Handlers.thy ===== *)
theory Server_Handlers
  imports TServer
begin

text \<open>
  The bookkeeping of handlers and events: request IDs in use lie below the allocation
  pointer, and the start time of a read request is never 0, neither in the message nor in the
  arguments that its event reads.  (\<open>ReadEvent::run\<close> subtracts 1 from the start time.)
\<close>

section \<open>At the RPC layer\<close>

definition message_ok :: "request_msg option \<Rightarrow> bool" where
  "message_ok m \<longleftrightarrow> (\<forall>q. m = Some (MRead q) \<longrightarrow> rq_start_ts q \<noteq> 0)"

definition arrivals_ok :: "arrival list \<Rightarrow> bool" where
  "arrivals_ok arrs \<longleftrightarrow> (\<forall>arr\<in>set arrs. message_ok (snd arr))"

definition start_ok :: "rpc_server \<Rightarrow> rid \<Rightarrow> bool" where
  "start_ok rs r \<longleftrightarrow> (\<forall>h a. rs_handlers rs r = Some h \<longrightarrow> hd_args h = ARead a \<longrightarrow> ra_start_ts (rr_args a) \<noteq> 0)"

definition rpc_ok :: "rpc_server \<Rightarrow> bool" where
  "rpc_ok rs \<longleftrightarrow> (\<forall>r h. rs_handlers rs r = Some h \<longrightarrow> r < rs_next rs \<and> message_ok (hd_request h))"

definition rpc_step :: "rpc_server \<Rightarrow> rpc_server \<Rightarrow> bool" where
  "rpc_step rs rs' \<longleftrightarrow> (rpc_ok rs \<longrightarrow> rpc_ok rs') \<and> rs_next rs \<le> rs_next rs'
     \<and> (rpc_ok rs \<longrightarrow> (\<forall>r. r < rs_next rs \<longrightarrow> start_ok rs r \<longrightarrow> start_ok rs' r))"

lemma rpc_step_refl [simp]: "rpc_step rs rs"
  by (simp add: rpc_step_def)

lemma rpc_step_trans: "rpc_step rs rs1 \<Longrightarrow> rpc_step rs1 rs2 \<Longrightarrow> rpc_step rs rs2"
  unfolding rpc_step_def by (meson order_less_le_trans order_trans)

lemma rpc_step_handler:
  assumes "rs_handlers rs r = Some h" "message_ok (hd_request h')"
    and "hd_args h' = hd_args h \<or> (\<forall>a. hd_args h' = ARead a \<longrightarrow> ra_start_ts (rr_args a) \<noteq> 0)"
  shows "rpc_step rs (rs\<lparr>rs_handlers := (rs_handlers rs)(r \<mapsto> h')\<rparr>)"
  using assms by (fastforce simp: rpc_step_def rpc_ok_def start_ok_def)

lemma rpc_step_queue [simp]:
  "rpc_step rs (rs\<lparr>rs_request_queue := q\<rparr>)" "rpc_step rs (rs\<lparr>rs_reply_queue := q\<rparr>)"
  by (simp_all add: rpc_step_def rpc_ok_def start_ok_def)

lemma rpc_step_prepare: "rpc_step rs (prepareNextRequest rs r)"
  by (auto simp: rpc_step_def rpc_ok_def start_ok_def prepareNextRequest_def message_ok_def
      intro: less_SucI)

lemma rpc_step_process_tag:
  assumes "process_tag rs arr = Inr rs'" "message_ok (snd arr)"
  shows "rpc_step rs rs'"
proof (cases "rpc_ok rs")
  case ok: True
  from assms(1) obtain h0 where h0: "rs_handlers rs (fst arr) = Some h0"
    by (auto simp: process_tag_def split: option.splits)
  define h where "h = receive h0 (snd arr)"
  define rs1 where "rs1 = rs\<lparr>rs_handlers := (rs_handlers rs)(fst arr \<mapsto> h)\<rparr>"
  have "message_ok (hd_request h)"
    using assms(2) ok h0 by (auto simp: h_def receive_def rpc_ok_def split: option.split)
  moreover have "hd_args h = hd_args h0"
    by (simp add: h_def receive_def split: option.split)
  ultimately have s1: "rpc_step rs rs1"
    unfolding rs1_def by (intro rpc_step_handler [OF h0]) auto
  have "rpc_step rs1 rs'"
    using assms(1) h0
    by (auto simp: process_tag_def Let_def and_then_eq_Inr_iff simp flip: h_def rs1_def
        intro: rpc_step_trans [OF rpc_step_queue(1) rpc_step_prepare] split: if_splits)
  with s1 show ?thesis by (rule rpc_step_trans)
next
  case False
  from assms(1) have "rs_next rs \<le> rs_next rs'"
    by (auto simp: process_tag_def Let_def and_then_eq_Inr_iff prepareNextRequest_def
        split: option.splits if_splits)
  with False show ?thesis by (simp add: rpc_step_def)
qed

lemma rpc_step_async:
  "processAsyncQueue rs arrs = Inr rs' \<Longrightarrow> arrivals_ok arrs \<Longrightarrow> rpc_step rs rs'"
proof (induction rs arrs rule: processAsyncQueue.induct)
  case (2 rs arr arrs)
  then obtain rs1 where rs1: "process_tag rs arr = Inr rs1" "processAsyncQueue rs1 arrs = Inr rs'"
    by (auto simp: and_then_eq_Inr_iff)
  with 2 show ?case
    by (auto simp: arrivals_ok_def intro: rpc_step_trans rpc_step_process_tag)
qed simp

lemma rpc_step_take_request:
  assumes "take_request rs = Inr (rs', r, req)" "rpc_ok rs"
  shows "rpc_step rs rs'" "r < rs_next rs'" "start_ok rs' r"
proof -
  from assms(1) obtain q h h' where h: "rs_handlers rs r = Some h" "getArgs h = Inr h'"
    "rs' = rs\<lparr>rs_request_queue := q, rs_handlers := (rs_handlers rs)(r \<mapsto> h')\<rparr>"
    by (auto simp: take_request_def and_then_eq_Inr_iff need_def split: list.splits option.splits)
  have m: "message_ok (hd_request h)" "r < rs_next rs" using assms(2) h(1) by (auto simp: rpc_ok_def)
  have a: "hd_request h' = hd_request h" "hd_args h' = ARead a \<Longrightarrow> ra_start_ts (rr_args a) \<noteq> 0" for a
    using h(2) m(1) by (auto simp: getArgs_defs message_ok_def split: if_splits handler_args.splits
        option.splits request_msg.splits)
  have "rpc_step (rs\<lparr>rs_request_queue := q\<rparr>) rs'"
    unfolding h(3) using rpc_step_handler [of "rs\<lparr>rs_request_queue := q\<rparr>" r h h'] h(1) m(1) a by simp
  then show "rpc_step rs rs'" by (rule rpc_step_trans [OF rpc_step_queue(1)])
  show "r < rs_next rs'" using m(2) h(3) by simp
  show "start_ok rs' r" using a(2) by (simp add: start_ok_def h(3))
qed

lemma setReply_keeps: "setReply h = Inr h' \<Longrightarrow> hd_args h' = hd_args h \<and> hd_request h' = hd_request h"
  by (auto simp: setReply_defs and_then_eq_Inr_iff split: if_splits handler_args.splits)

lemma rpc_step_sendReply:
  assumes "sendReply rs r = Inr rs'"
  shows "rpc_step rs rs'"
proof (cases "rpc_ok rs")
  case True
  from assms obtain h h' where h: "rs_handlers rs r = Some h" "setReply h = Inr h'"
    "rs' = rs\<lparr>rs_handlers := (rs_handlers rs)(r \<mapsto> h')\<rparr>"
    by (auto simp: sendReply_def and_then_eq_Inr_iff need_def split: option.splits)
  with setReply_keeps [OF h(2)] True show ?thesis
    unfolding h(3) by (intro rpc_step_handler [OF h(1)]) (auto simp: rpc_ok_def)
next
  case False
  with assms show ?thesis
    by (auto simp: rpc_step_def sendReply_def and_then_eq_Inr_iff)
qed

lemma rpc_step_take_reply: "take_reply rs = Inr (rs', r) \<Longrightarrow> rpc_step rs rs'"
  by (auto simp: take_reply_def split: list.splits)

lemma rpc_step_delete: "deleteRequest rs r = Inr rs' \<Longrightarrow> rpc_step rs rs'"
  by (auto simp: deleteRequest_def and_then_eq_Inr_iff rpc_step_def rpc_ok_def start_ok_def
      split: if_splits)

section \<open>At the server\<close>

definition events_ok :: "tserver \<Rightarrow> bool" where
  "events_ok s \<longleftrightarrow> rpc_ok (ts_rpc s)
     \<and> (\<forall>ev e. ts_events s ev = Some e \<longrightarrow> se_rid e < rs_next (ts_rpc s) \<and> start_ok (ts_rpc s) (se_rid e))"

lemma events_ok_rpc:
  "events_ok s \<Longrightarrow> rpc_step (ts_rpc s) rpc \<Longrightarrow> events_ok (s\<lparr>ts_rpc := rpc\<rparr>)"
  unfolding events_ok_def rpc_step_def by (fastforce intro: order_less_le_trans)

lemma events_ok_cong:
  "ts_rpc s' = ts_rpc s \<Longrightarrow> ts_events s' = ts_events s \<Longrightarrow> events_ok s' = events_ok s"
  by (simp add: events_ok_def)

lemma events_ok_sendReply:
  "events_ok s \<Longrightarrow> server_sendReply s r = Inr s' \<Longrightarrow> events_ok s'"
  by (auto simp: server_sendReply_def and_then_eq_Inr_iff intro: events_ok_rpc rpc_step_sendReply)

lemma events_ok_set_phase: "events_ok s \<Longrightarrow> events_ok (set_phase s ev p)"
  by (auto simp: events_ok_def set_phase_def split: option.split)

text \<open>New arguments of a handler: a read must keep a start time other than 0.\<close>

lemma events_ok_set_args:
  assumes "events_ok s"
    and "\<And>a. args = ARead a \<Longrightarrow> ra_start_ts (rr_args a) \<noteq> 0"
  shows "events_ok (set_args s r args)"
proof (cases "rs_handlers (ts_rpc s) r")
  case (Some h)
  with assms(1) have "message_ok (hd_request h)" by (auto simp: events_ok_def rpc_ok_def)
  with Some assms(2) have "rpc_step (ts_rpc s)
      ((ts_rpc s)\<lparr>rs_handlers := (rs_handlers (ts_rpc s))(r \<mapsto> h\<lparr>hd_args := args\<rparr>)\<rparr>)"
    by (intro rpc_step_handler) auto
  from events_ok_rpc [OF assms(1) this] Some show ?thesis by (simp add: set_args_def)
qed (use assms(1) in \<open>simp add: set_args_def\<close>)

lemma events_ok_new_event:
  assumes "events_ok s" "r < rs_next (ts_rpc s)" "start_ok (ts_rpc s) r"
  shows "events_ok (fst (new_event s kind r))"
  using assms by (auto simp: events_ok_def new_event_def)

lemma read_start:
  "events_ok s \<Longrightarrow> ts_events s ev = Some e \<Longrightarrow> args_of s (se_rid e) = Inr (ARead a) \<Longrightarrow>
   ra_start_ts (rr_args a) \<noteq> 0"
  by (fastforce simp: events_ok_def start_ok_def args_of_def and_then_eq_Inr_iff need_def
      split: option.splits)

section \<open>A round of the event loop\<close>

lemma args_of_start:
  "args_of s r = Inr (ARead a) \<Longrightarrow> start_ok (ts_rpc s) r \<Longrightarrow> ra_start_ts (rr_args a) \<noteq> 0"
  by (auto simp: args_of_def and_then_eq_Inr_iff need_def start_ok_def split: option.splits)

lemma set_args_rpc:
  assumes "\<And>a. args = ARead a \<Longrightarrow> ra_start_ts (rr_args a) \<noteq> 0"
  shows "start_ok (ts_rpc (set_args s r args)) r"
  using assms by (auto simp: set_args_def start_ok_def split: option.split)

lemma set_args_next [simp]: "rs_next (ts_rpc (set_args s r args)) = rs_next (ts_rpc s)"
  by (simp add: set_args_def split: option.split)

text \<open>The tables of nodes and their mutexes are apart from the handlers and the events.\<close>

definition same_handlers :: "tserver \<Rightarrow> tserver \<Rightarrow> bool" where
  "same_handlers s s' \<longleftrightarrow> ts_rpc s' = ts_rpc s \<and> ts_events s' = ts_events s"

lemma note_tid_same: "note_tid s tid node = Inr s' \<Longrightarrow> same_handlers s s'"
  by (auto simp: note_tid_def lock_tid_def same_handlers_def split: if_splits)

lemma note_write_tid_same: "note_write_tid s tid node = Inr s' \<Longrightarrow> same_handlers s s'"
  by (auto simp: note_write_tid_def lock_tid_write_def same_handlers_def split: if_splits)

lemma take_nodes_same: "take_nodes s tid = Inr (s', nodes) \<Longrightarrow> same_handlers s s'"
  by (auto simp: take_nodes_def lock_tid_def same_handlers_def split: if_splits option.splits)

lemma take_write_nodes_same: "take_write_nodes s tid = Inr (s', nodes) \<Longrightarrow> same_handlers s s'"
  by (auto simp: take_write_nodes_def lock_tid_write_def same_handlers_def split: if_splits option.splits)

lemma same_handlers_ok: "same_handlers s s' \<Longrightarrow> events_ok s' = events_ok s"
  by (simp add: same_handlers_def events_ok_def)

lemma reply_only_ok: "reply_only s r = Inr (s', ev) \<Longrightarrow> events_ok s \<Longrightarrow> events_ok s'"
  by (auto simp: reply_only_def and_then_eq_Inr_iff intro: events_ok_sendReply)

lemma make_event_ok:
  assumes "make_event s kind r = (s', ev)" "events_ok s" "r < rs_next (ts_rpc s)" "start_ok (ts_rpc s) r"
  shows "events_ok s'"
  using events_ok_new_event [OF assms(2-4), of kind] assms(1)
  by (simp add: make_event_def case_prod_unfold Let_def)

lemma dispatch_read_ok:
  assumes d: "dispatch_read mapper s r a = Inr (s', ev)" and ok: "events_ok s"
    and r: "r < rs_next (ts_rpc s)" "start_ok (ts_rpc s) r"
    and st: "ra_start_ts (rr_args a) \<noteq> 0"
  shows "events_ok s'"
proof -
  have set: "events_ok (set_args s r (ARead (a\<lparr>rr_status := x\<rparr>)))"
    "start_ok (ts_rpc (set_args s r (ARead (a\<lparr>rr_status := x\<rparr>)))) r" for x
    using st by (auto intro!: events_ok_set_args [OF ok] set_args_rpc)
  from d consider "reply_only (set_args s r (ARead (a\<lparr>rr_status := Some False\<rparr>))) r = Inr (s', ev)"
    | s1 where "same_handlers (set_args s r (ARead (a\<lparr>rr_status := Some True\<rparr>))) s1"
        "make_event s1 TREAD r = (s', ev)"
    by (auto simp: dispatch_read_def Let_def and_then_eq_Inr_iff split: if_splits dest: note_tid_same)
  then show ?thesis
  proof cases
    case 1
    then show ?thesis using set(1) by (rule reply_only_ok)
  next
    case 2
    with set r(1) show ?thesis
      by (intro make_event_ok [OF 2(2)]) (simp_all add: same_handlers_def events_ok_def)
  qed
qed

lemma dispatch_write_ok:
  assumes d: "dispatch_write mapper s r a = Inr (s', ev)" and ok: "events_ok s"
    and r: "r < rs_next (ts_rpc s)" "start_ok (ts_rpc s) r"
  shows "events_ok s'"
proof -
  have set: "events_ok (set_args s r (AWrite b))" "start_ok (ts_rpc (set_args s r (AWrite b))) r" for b
    by (auto intro!: events_ok_set_args [OF ok] set_args_rpc)
  from d consider "reply_only (set_args s r (AWrite (a\<lparr>rw_status := Some False\<rparr>))) r = Inr (s', ev)"
    | s1 s2 where "same_handlers (set_args s r (AWrite (a\<lparr>rw_status := Some True\<rparr>))) s1"
        "same_handlers s1 s2" "make_event s2 TWRITE r = (s', ev)"
    by (auto simp: dispatch_write_def Let_def and_then_eq_Inr_iff split: if_splits
        dest: note_tid_same note_write_tid_same)
  then show ?thesis
  proof cases
    case 1
    then show ?thesis using set(1) by (rule reply_only_ok)
  next
    case 2
    with set r(1) show ?thesis
      by (intro make_event_ok [OF 2(3)]) (simp_all add: same_handlers_def events_ok_def)
  qed
qed

lemma dispatch_p1c_ok:
  assumes d: "dispatch_p1c s r a = Inr (s', ev)" and ok: "events_ok s"
    and r: "r < rs_next (ts_rpc s)" "start_ok (ts_rpc s) r"
  shows "events_ok s'"
proof -
  from d obtain s1 nodes where t: "take_write_nodes s (p1_tid (rp1_args a)) = Inr (s1, nodes)"
    and rest: "(case nodes of None \<Rightarrow> reply_only s1 r
      | Some nodes \<Rightarrow> Inr (make_event (set_args s1 r (AP1C (a\<lparr>rp1_nodes := nodes\<rparr>))) TP1C r)) = Inr (s', ev)"
    by (auto simp: dispatch_p1c_def and_then_eq_Inr_iff)
  from take_write_nodes_same [OF t] ok r have s1: "events_ok s1" "r < rs_next (ts_rpc s1)"
    by (simp_all add: same_handlers_def events_ok_def)
  show ?thesis
  proof (cases nodes)
    case None
    with rest s1(1) show ?thesis by (auto intro: reply_only_ok)
  next
    case (Some ns)
    with rest have "make_event (set_args s1 r (AP1C (a\<lparr>rp1_nodes := ns\<rparr>))) TP1C r = (s', ev)" by simp
    then show ?thesis
      by (rule make_event_ok) (auto intro!: events_ok_set_args set_args_rpc s1(1) simp: s1(2))
  qed
qed

lemma dispatch_p2c_ok:
  assumes d: "dispatch_p2c s r a = Inr (s', ev)" and ok: "events_ok s"
    and r: "r < rs_next (ts_rpc s)" "start_ok (ts_rpc s) r"
  shows "events_ok s'"
proof -
  from d obtain s1 nodes where t: "take_nodes s (p2_tid (rp2_args a)) = Inr (s1, nodes)"
    and rest: "(case nodes of None \<Rightarrow> reply_only s1 r
      | Some nodes \<Rightarrow> Inr (make_event (set_args s1 r (AP2C (a\<lparr>rp2_nodes := nodes\<rparr>))) TP2C r)) = Inr (s', ev)"
    by (auto simp: dispatch_p2c_def and_then_eq_Inr_iff)
  from take_nodes_same [OF t] ok r have s1: "events_ok s1" "r < rs_next (ts_rpc s1)"
    by (simp_all add: same_handlers_def events_ok_def)
  show ?thesis
  proof (cases nodes)
    case None
    with rest s1(1) show ?thesis by (auto intro: reply_only_ok)
  next
    case (Some ns)
    with rest have "make_event (set_args s1 r (AP2C (a\<lparr>rp2_nodes := ns\<rparr>))) TP2C r = (s', ev)" by simp
    then show ?thesis
      by (rule make_event_ok) (auto intro!: events_ok_set_args set_args_rpc s1(1) simp: s1(2))
  qed
qed

lemma dispatch_ok:
  assumes d: "dispatch mapper s req r = Inr (s', ev)" and ok: "events_ok s"
    and r: "r < rs_next (ts_rpc s)" "start_ok (ts_rpc s) r"
  shows "events_ok s'"
proof -
  from d obtain args where args: "args_of s r = Inr args"
    by (auto simp: dispatch_def and_then_eq_Inr_iff)
  with d dispatch_read_ok [OF _ ok r] dispatch_write_ok [OF _ ok r] dispatch_p1c_ok [OF _ ok r] dispatch_p2c_ok [OF _ ok r]
    args_of_start [OF _ r(2)] show ?thesis
    by (cases args; cases req) (simp_all add: dispatch_def)
qed

lemma getEvent_round_ok:
  assumes g: "getEvent_round mapper s arrs = Inr (s', ev)" and ok: "events_ok s"
    and arrs: "arrivals_ok (fst arrs)" "arrivals_ok (snd arrs)"
  shows "events_ok s'"
proof -
  obtain got ev0 q where q: "tryDequeue (ts_queue s) 0 = (got, ev0, q)" by (cases "tryDequeue (ts_queue s) 0") auto
  show ?thesis
  proof (cases got)
    case True
    with g q ok show ?thesis by (auto simp: getEvent_round_def intro: events_ok_cong [THEN iffD2])
  next
    case False
    with g q obtain rpc1 req where n: "asyncNextRequest (ts_rpc s) (fst arrs) = Inr (rpc1, req)"
      and rest: "(case req of Some (r, req) \<Rightarrow> dispatch mapper (s\<lparr>ts_rpc := rpc1\<rparr>) req r
          | None \<Rightarrow> and_then (asyncNextCompletedReply rpc1 (snd arrs)) (\<lambda>(rpc, replied).
              case replied of None \<Rightarrow> Inr (s\<lparr>ts_rpc := rpc\<rparr>, None)
              | Some r \<Rightarrow> and_then (deleteRequest rpc r) (\<lambda>rpc. Inr (s\<lparr>ts_rpc := rpc\<rparr>, None)))) = Inr (s', ev)"
      by (auto simp: getEvent_round_def and_then_eq_Inr_iff)
    from n obtain rpc0 where p: "processAsyncQueue (ts_rpc s) (fst arrs) = Inr rpc0"
      by (auto simp: asyncNextRequest_def and_then_eq_Inr_iff)
    have s0: "rpc_step (ts_rpc s) rpc0" by (rule rpc_step_async [OF p arrs(1)])
    have rpc0: "rpc_ok rpc0" using s0 ok by (simp add: rpc_step_def events_ok_def)
    show ?thesis
    proof (cases req)
      case (Some rr)
      obtain r k where rr: "rr = (r, k)" by (cases rr)
      with Some n p have t: "take_request rpc0 = Inr (rpc1, r, k)"
        by (auto simp: asyncNextRequest_def and_then_eq_Inr_iff split: if_splits)
      note tk = rpc_step_take_request [OF t rpc0]
      from events_ok_rpc [OF ok rpc_step_trans [OF s0 tk(1)]] rest Some rr tk(2,3)
      show ?thesis by (auto intro: dispatch_ok)
    next
      case None
      with n p have "rpc1 = rpc0" by (auto simp: asyncNextRequest_def and_then_eq_Inr_iff split: if_splits)
      with rest None obtain rpc2 replied where c: "asyncNextCompletedReply rpc0 (snd arrs) = Inr (rpc2, replied)"
        and rest2: "(case replied of None \<Rightarrow> Inr (s\<lparr>ts_rpc := rpc2\<rparr>, None)
          | Some r \<Rightarrow> and_then (deleteRequest rpc2 r) (\<lambda>rpc. Inr (s\<lparr>ts_rpc := rpc\<rparr>, None))) = Inr (s', ev)"
        by (auto simp: and_then_eq_Inr_iff)
      have "rpc_step rpc0 rpc2"
        using c by (auto simp: asyncNextCompletedReply_def and_then_eq_Inr_iff split: if_splits
            intro: rpc_step_async [OF _ arrs(2)] rpc_step_trans [OF rpc_step_async [OF _ arrs(2)] rpc_step_take_reply])
      then have s2: "rpc_step (ts_rpc s) rpc2" by (rule rpc_step_trans [OF s0])
      show ?thesis
      proof (cases replied)
        case None
        with rest2 events_ok_rpc [OF ok s2] show ?thesis by simp
      next
        case (Some r)
        with rest2 obtain rpc3 where "deleteRequest rpc2 r = Inr rpc3" "s' = s\<lparr>ts_rpc := rpc3\<rparr>"
          by (auto simp: and_then_eq_Inr_iff)
        with events_ok_rpc [OF ok rpc_step_trans [OF s2 rpc_step_delete]] show ?thesis by simp
      qed
    qed
  qed
qed

end
