(* ===== verification/Server_Spec.thy ===== *)
theory Server_Spec
  imports Server_Data Server_Handlers Lock_Events
begin

text \<open>
  The contract of the transaction server: the invariant that ties the lock table to the
  stored versions and the pending writes, and that every event keeps it.
\<close>

section \<open>The invariant\<close>

text \<open>A version is committed when its time is frozen for writing.\<close>

definition committed :: "tserver \<Rightarrow> u64 \<Rightarrow> u64 \<Rightarrow> bool" where
  "committed s k t \<longleftrightarrow> fst (lock_at (ts_locks s) k t) = FREEZE_WRITE_LOCK"

text \<open>
  The locks are well formed, every committed version is stored, and every write lock belongs
  to a prepared transaction that has a pending write for the key and commits at that time.
\<close>

definition data_inv :: "tserver \<Rightarrow> bool" where
  "data_inv s \<longleftrightarrow> lm_inv (ts_locks s)
     \<and> (\<forall>k t. committed s k t \<longrightarrow> get s k t \<noteq> None)
     \<and> (\<forall>k t tid. lock_at (ts_locks s) k t = (WRITE_LOCK, {tid}) \<longrightarrow>
           ts_rdy_to_commit s tid = Some t \<and> k \<in> set (getKeys s tid))"

lemma data_invI:
  assumes "lm_inv (ts_locks s)" "\<And>k t. committed s k t \<Longrightarrow> get s k t \<noteq> None"
    and "\<And>k t tid. lock_at (ts_locks s) k t = (WRITE_LOCK, {tid}) \<Longrightarrow>
      ts_rdy_to_commit s tid = Some t \<and> k \<in> set (getKeys s tid)"
  shows "data_inv s"
  using assms unfolding data_inv_def by blast

lemma data_inv_locks: "data_inv s \<Longrightarrow> lm_inv (ts_locks s)"
  and data_inv_stored: "data_inv s \<Longrightarrow> committed s k t \<Longrightarrow> \<exists>v. get s k t = Some v"
  and data_inv_prepared: "data_inv s \<Longrightarrow> lock_at (ts_locks s) k t = (WRITE_LOCK, {tid}) \<Longrightarrow>
    ts_rdy_to_commit s tid = Some t \<and> k \<in> set (getKeys s tid)"
  unfolding data_inv_def by blast+

lemma write_lock_holder:
  assumes "data_inv s" "fst (lock_at (ts_locks s) k t) = WRITE_LOCK"
  shows "\<exists>tid. lock_at (ts_locks s) k t = (WRITE_LOCK, {tid})"
  using lm_inv_wf [OF data_inv_locks [OF assms(1)], of k t] assms(2)
  by (cases "lock_at (ts_locks s) k t") (simp add: cell_wf_def)

lemma same_data_inv: "same_data s s' \<Longrightarrow> data_inv s' = data_inv s"
  using same_data_get [of s s'] same_data_getKeys [of s s']
  by (simp add: data_inv_def committed_def same_data_def)

lemma same_data_committed: "same_data s s' \<Longrightarrow> committed s' = committed s"
  by (simp add: committed_def same_data_def fun_eq_iff)

text \<open>
  A step keeps the invariant, and a committed version stays committed with its value.
\<close>

definition good_step :: "tserver \<Rightarrow> tserver \<Rightarrow> bool" where
  "good_step s s' \<longleftrightarrow> data_inv s'
     \<and> (\<forall>k t. committed s k t \<longrightarrow> committed s' k t \<and> get s' k t = get s k t)"

lemma good_step_same: "data_inv s \<Longrightarrow> same_data s s' \<Longrightarrow> good_step s s'"
  by (simp add: good_step_def same_data_inv same_data_committed same_data_get)

lemma good_step_trans: "good_step s s1 \<Longrightarrow> good_step s1 s2 \<Longrightarrow> good_step s s2"
  by (simp add: good_step_def)

lemma good_step_inv: "good_step s s' \<Longrightarrow> data_inv s'"
  by (simp add: good_step_def)

section \<open>Reads\<close>

lemma acquire_read_write:
  "fst (acquire True tid c) = WRITE_LOCK \<or> fst (acquire True tid c) = FREEZE_WRITE_LOCK \<Longrightarrow> acquire True tid c = c"
  by (auto simp: acquire_def split: lock_status.splits)

lemma read_locks:
  assumes "data_inv s" "ts \<noteq> 0"
  shows "\<exists>m' stop. tryBackwardLock (ts_locks s) key tid (ts - 1) True ev x
      = Some (m', fst (lock_at (ts_locks s) key stop) \<noteq> WRITE_LOCK, stop + 1)
    \<and> good_step s (s\<lparr>ts_locks := m'\<rparr>) \<and> stop < ts \<and> stop + 1 \<noteq> 0
    \<and> fst (lock_at (ts_locks s) key stop) \<in> {WRITE_LOCK, FREEZE_WRITE_LOCK}
    \<and> (\<forall>t. stop < t \<and> t < ts \<longrightarrow>
          passes True (fst (lock_at (ts_locks s) key t)) \<and> read_protected tid (lock_at m' key t))
    \<and> lock_at m' key stop = lock_at (ts_locks s) key stop
    \<and> (\<forall>k t. fst (lock_at m' k t) = WRITE_LOCK \<longrightarrow> lock_at m' k t = lock_at (ts_locks s) k t)
    \<and> (fst (lock_at (ts_locks s) key stop) = WRITE_LOCK \<longrightarrow> ev \<in> set (waiters m' key stop))
    \<and> registered m' \<subseteq> insert ev (registered (ts_locks s))
    \<and> (fst (lock_at (ts_locks s) key stop) \<noteq> WRITE_LOCK \<longrightarrow> registered m' = registered (ts_locks s))
    \<and> (\<forall>k t. lock_at m' k t = (if k = key \<and> stop < t \<and> t < ts
          then acquire True tid (lock_at (ts_locks s) k t) else lock_at (ts_locks s) k t))"
proof -
  have "ts - 1 \<noteq> - 1" using assms(2) by simp
  from avl.backward_law [OF data_inv_locks [OF assms(1)] this, of key tid True ev x] obtain m' stop where
    t: "tryBackwardLock (ts_locks s) key tid (ts - 1) True ev x
      = Some (m', \<not> waits True (fst (lock_at (ts_locks s) key stop)), stop + 1)"
    "lm_inv m'" "stop \<le> ts - 1" "stop < stop + 1"
    "\<not> passes True (fst (lock_at (ts_locks s) key stop))"
    "\<forall>t. stop < t \<and> t \<le> ts - 1 \<longrightarrow> passes True (fst (lock_at (ts_locks s) key t))"
    "\<forall>k t. lock_at m' k t = (if k = key \<and> stop < t \<and> t \<le> ts - 1
       then acquire True tid (lock_at (ts_locks s) k t) else lock_at (ts_locks s) k t)"
    "waits True (fst (lock_at (ts_locks s) key stop)) \<longrightarrow> ev \<in> set (waiters m' key stop)" by blast
  note le = le_pred_iff [OF assms(2)]
  have w: "waits True st \<longleftrightarrow> st = WRITE_LOCK" for st by (simp add: waits_def)
  have p: "\<not> passes True st \<longleftrightarrow> st \<in> {WRITE_LOCK, FREEZE_WRITE_LOCK}" for st
    by (cases st) (simp_all add: passes_def)
  have same: "fst (lock_at m' k t') = st \<Longrightarrow> st \<in> {WRITE_LOCK, FREEZE_WRITE_LOCK} \<Longrightarrow>
      lock_at m' k t' = lock_at (ts_locks s) k t'" for k t' st
    using t(7) acquire_read_write [of tid "lock_at (ts_locks s) k t'"] by (auto split: if_splits)
  have kept: "fst (lock_at (ts_locks s) k t') = FREEZE_WRITE_LOCK \<Longrightarrow> lock_at m' k t' = lock_at (ts_locks s) k t'" for k t'
    using t(7) by (auto simp: acquire_def)
  let ?s = "s\<lparr>ts_locks := m'\<rparr>"
  have "data_inv ?s"
  proof (rule data_invI)
    show "lm_inv (ts_locks ?s)" using t(2) by simp
    show "get ?s k t' \<noteq> None" if "committed ?s k t'" for k t'
    proof -
      from that same [of k t' FREEZE_WRITE_LOCK] have "committed s k t'" by (simp add: committed_def)
      from data_inv_stored [OF assms(1) this] show ?thesis by simp
    qed
    show "ts_rdy_to_commit ?s tid' = Some t' \<and> k \<in> set (getKeys ?s tid')"
      if "lock_at (ts_locks ?s) k t' = (WRITE_LOCK, {tid'})" for k t' tid'
    proof -
      from that same [of k t' WRITE_LOCK] have "lock_at (ts_locks s) k t' = (WRITE_LOCK, {tid'})" by simp
      from data_inv_prepared [OF assms(1) this] show ?thesis by (simp add: getKeys_def)
    qed
  qed
  then have good: "good_step s ?s" using kept by (simp add: good_step_def committed_def)
  have prot: "read_protected tid (acquire True tid c)" if "passes True (fst c)" for c
    using that by (cases "fst c") (auto simp: read_protected_def acquire_def passes_def)
  have nz: "stop + 1 \<noteq> 0" using t(4) by (metis not_less_iff_gr_or_eq word_coorder.extremum_strict)
  have "\<forall>t'. stop < t' \<and> t' < ts \<longrightarrow> passes True (fst (lock_at (ts_locks s) key t')) \<and> read_protected tid (lock_at m' key t')"
    using t(6,7) prot by (simp add: le)
  moreover have "lock_at m' key stop = lock_at (ts_locks s) key stop" using t(7) by simp
  moreover have "\<forall>k t'. fst (lock_at m' k t') = WRITE_LOCK \<longrightarrow> lock_at m' k t' = lock_at (ts_locks s) k t'"
    using same by blast
  moreover have "fst (lock_at (ts_locks s) key stop) \<noteq> WRITE_LOCK \<longrightarrow> registered m' = registered (ts_locks s)"
  proof
    assume "fst (lock_at (ts_locks s) key stop) \<noteq> WRITE_LOCK"
    with t(1) have "tryBackwardLock (ts_locks s) key tid (ts - 1) True ev x = Some (m', True, stop + 1)"
      unfolding w by simp
    then show "registered m' = registered (ts_locks s)" by (rule granted_events [OF data_inv_locks [OF assms(1)]])
  qed
  ultimately show ?thesis
    using t(1,3,5,7,8) good nz tryBackwardLock_events [OF t(1)] unfolding w p le
    by (intro exI [of _ m'] exI [of _ stop]) blast
qed

section \<open>Writes\<close>

lemma add_good:
  assumes "data_inv s"
  shows "good_step s (add s tid key val)"
proof -
  have "data_inv (add s tid key val)"
  proof (rule data_invI)
    show "lm_inv (ts_locks (add s tid key val))" using data_inv_locks [OF assms] by simp
    show "get (add s tid key val) k t \<noteq> None" if "committed (add s tid key val) k t" for k t
      using that data_inv_stored [OF assms, of k t] by (simp add: committed_def)
    show "ts_rdy_to_commit (add s tid key val) tid' = Some t \<and> k \<in> set (getKeys (add s tid key val) tid')"
      if "lock_at (ts_locks (add s tid key val)) k t = (WRITE_LOCK, {tid'})" for k t tid'
      using that data_inv_prepared [OF assms, of k t tid'] by (auto simp: getKeys_add)
  qed
  then show ?thesis by (simp add: good_step_def committed_def)
qed

section \<open>The first commit phase\<close>

text \<open>A transaction that is prepared already must not be prepared again for another time.\<close>

definition preparable :: "tserver \<Rightarrow> u64 \<Rightarrow> u64 \<Rightarrow> bool" where
  "preparable s tid ts \<longleftrightarrow> ts_rdy_to_commit s tid = None \<or> ts_rdy_to_commit s tid = Some ts"

lemma prepare_good:
  assumes "data_inv s" "preparable s tid ts"
  shows "\<exists>m' b. lock_keys (ts_locks s) tid ts ts (getKeys s tid) = Some (m', b)
    \<and> good_step s (prepare (s\<lparr>ts_locks := m'\<rparr>) tid ts)
    \<and> (b \<longleftrightarrow> distinct (getKeys s tid) \<and> (\<forall>k\<in>set (getKeys s tid). fst (lock_at (ts_locks s) k ts) = FREE))
    \<and> (b \<longrightarrow> (\<forall>k\<in>set (getKeys s tid). lock_at m' k ts = (WRITE_LOCK, {tid})))"
proof -
  from lock_keys_ok [OF data_inv_locks [OF assms(1)], of tid ts "getKeys s tid"] obtain m' b L where
    l: "lock_keys (ts_locks s) tid ts ts (getKeys s tid) = Some (m', b)" "lm_inv m'" "L \<subseteq> set (getKeys s tid)"
    "\<forall>k. k \<in> L \<longrightarrow> fst (lock_at (ts_locks s) k ts) = FREE"
    "\<forall>k t. lock_at m' k t = (if k \<in> L \<and> t = ts then (WRITE_LOCK, {tid}) else lock_at (ts_locks s) k t)"
    "b \<longrightarrow> L = set (getKeys s tid)"
    "b \<longleftrightarrow> distinct (getKeys s tid) \<and> (\<forall>k\<in>set (getKeys s tid). fst (lock_at (ts_locks s) k ts) = FREE)" by blast
  let ?s = "prepare (s\<lparr>ts_locks := m'\<rparr>) tid ts"
  have "data_inv ?s"
  proof (rule data_invI)
    show "lm_inv (ts_locks ?s)" using l(2) by simp
    show "get ?s k t \<noteq> None" if "committed ?s k t" for k t
      using that data_inv_stored [OF assms(1), of k t] l(5) by (auto simp: committed_def split: if_splits)
    show "ts_rdy_to_commit ?s tid' = Some t \<and> k \<in> set (getKeys ?s tid')"
      if "lock_at (ts_locks ?s) k t = (WRITE_LOCK, {tid'})" for k t tid'
    proof (cases "k \<in> L \<and> t = ts")
      case True
      with that l(3,5) have "tid' = tid" by auto
      with True l(3) show ?thesis by (auto simp: getKeys_def)
    next
      case False
      with that l(5) have "lock_at (ts_locks s) k t = (WRITE_LOCK, {tid'})" by auto
      from data_inv_prepared [OF assms(1) this] assms(2) show ?thesis
        by (auto simp: preparable_def getKeys_def)
    qed
  qed
  moreover have "fst (lock_at (ts_locks s) k t) = FREEZE_WRITE_LOCK \<Longrightarrow> lock_at m' k t = lock_at (ts_locks s) k t" for k t
    using l(4,5) by auto
  ultimately have "good_step s ?s" by (simp add: good_step_def committed_def)
  moreover have "b \<longrightarrow> (\<forall>k\<in>set (getKeys s tid). lock_at m' k ts = (WRITE_LOCK, {tid}))"
    using l(5,6) by simp
  ultimately show ?thesis using l(1,7) by blast
qed

section \<open>The second commit phase\<close>

text \<open>Every pending write of the transaction is locked at the time of its commit.\<close>

definition fully_locked :: "tserver \<Rightarrow> u64 \<Rightarrow> bool" where
  "fully_locked s tid \<longleftrightarrow>
     (case ts_rdy_to_commit s tid of
        None \<Rightarrow> True
      | Some ts \<Rightarrow> list_all (\<lambda>k. lock_at (ts_locks s) k ts = (WRITE_LOCK, {tid})) (getKeys s tid))"

lemma fully_lockedD:
  "fully_locked s tid \<Longrightarrow> ts_rdy_to_commit s tid = Some ts \<Longrightarrow> k \<in> set (getKeys s tid) \<Longrightarrow>
   lock_at (ts_locks s) k ts = (WRITE_LOCK, {tid})"
  by (simp add: fully_locked_def list_all_iff)

lemma freeze_cell_committed:
  "fst (freeze_cell tid c) = FREEZE_WRITE_LOCK \<longleftrightarrow>
     fst c = FREEZE_WRITE_LOCK \<or> tid \<in> snd c \<and> fst c = WRITE_LOCK"
  by (cases "fst c") (auto simp: freeze_cell_def)

lemma freeze_cell_write:
  "freeze_cell tid c = (WRITE_LOCK, {t}) \<longleftrightarrow> c = (WRITE_LOCK, {t}) \<and> t \<noteq> tid"
  by (cases c; cases "fst c") (auto simp: freeze_cell_def)

lemma commit_good:
  assumes inv: "data_inv s" and locked: "fully_locked s tid"
  shows "\<exists>m' events. freeze (ts_locks s) tid = Some (m', events)
    \<and> set events \<subseteq> registered (ts_locks s) \<and> registered m' = registered (ts_locks s)
    \<and> good_step s (finalize (s\<lparr>ts_locks := m'\<rparr>) tid True)
    \<and> (\<forall>k t. lock_at m' k t = freeze_cell tid (lock_at (ts_locks s) k t))
    \<and> (\<forall>k t. tid \<in> snd (lock_at (ts_locks s) k t) \<longrightarrow> set (waiters (ts_locks s) k t) \<subseteq> set events)"
proof -
  from freeze_ok [OF data_inv_locks [OF inv], of tid] obtain m' events where
    f: "freeze (ts_locks s) tid = Some (m', events)" "lm_inv m'"
    "\<forall>k t. lock_at m' k t = freeze_cell tid (lock_at (ts_locks s) k t)"
    "\<forall>k t. tid \<in> snd (lock_at (ts_locks s) k t) \<longrightarrow> set (waiters (ts_locks s) k t) \<subseteq> set events" by blast
  let ?m = "s\<lparr>ts_locks := m'\<rparr>"
  let ?s = "finalize ?m tid True"
  have gk: "getKeys ?m = getKeys s" by (simp add: getKeys_def fun_eq_iff)
  have pend: "k \<in> set (getKeys s tid) \<Longrightarrow> \<exists>v. map_of (rev (the (ts_pend_writes s tid))) k = Some v" for k
    by (rule map_of_pending)
  have get: "get ?s k t = (if ts_rdy_to_commit s tid = Some t \<and> t \<noteq> 0 \<and> k \<in> set (getKeys s tid)
      then map_of (rev (the (ts_pend_writes s tid))) k else get s k t)" for k t
    by (simp add: get_finalize_commit gk)
  have mine: "tid \<in> snd c \<Longrightarrow> fst c = WRITE_LOCK \<Longrightarrow> c = (WRITE_LOCK, {tid})"
    if "cell_wf c" for c :: cell using that by (cases c) (auto simp: cell_wf_def)
  note wf = lm_inv_wf [OF data_inv_locks [OF inv]]
  have "data_inv ?s"
  proof (rule data_invI)
    show "lm_inv (ts_locks ?s)" using f(2) by simp
    show "get ?s k t \<noteq> None" if "committed ?s k t" for k t
    proof (cases "committed s k t")
      case True
      from data_inv_stored [OF inv this] pend [of k] show ?thesis by (auto simp: get)
    next
      case False
      with that f(3) have "lock_at (ts_locks s) k t = (WRITE_LOCK, {tid})"
        using mine [OF wf [of k t]] by (auto simp: committed_def freeze_cell_committed)
      from data_inv_prepared [OF inv this] pend [of k] show ?thesis
        by (cases "t = 0") (auto simp: get get_def [of s k 0])
    qed
    show "ts_rdy_to_commit ?s tid' = Some t \<and> k \<in> set (getKeys ?s tid')"
      if "lock_at (ts_locks ?s) k t = (WRITE_LOCK, {tid'})" for k t tid'
    proof -
      from that f(3) have "lock_at (ts_locks s) k t = (WRITE_LOCK, {tid'})" "tid' \<noteq> tid"
        by (simp_all add: freeze_cell_write)
      with data_inv_prepared [OF inv this(1)] show ?thesis
        by (simp add: finalize_prepared finalize_getKeys gk)
    qed
  qed
  moreover have "committed ?s k t \<and> get ?s k t = get s k t" if "committed s k t" for k t
  proof -
    have "committed ?s k t" using that f(3) by (simp add: committed_def freeze_cell_committed)
    moreover have "\<not> (ts_rdy_to_commit s tid = Some t \<and> k \<in> set (getKeys s tid))"
      using that fully_lockedD [OF locked, of t k] by (auto simp: committed_def)
    ultimately show ?thesis by (auto simp: get)
  qed
  ultimately have "good_step s ?s" by (simp add: good_step_def)
  with f(1,3,4) freeze_events [OF f(1)] show ?thesis by blast
qed

lemma abort_good:
  assumes inv: "data_inv s" and sole: "\<not> shares_reads (ts_locks s) tid"
  shows "\<exists>m' events. unlock (ts_locks s) tid = Some (m', events)
    \<and> set events \<subseteq> registered (ts_locks s) \<and> registered m' = registered (ts_locks s)
    \<and> good_step s (s\<lparr>ts_locks := m'\<rparr>)
    \<and> (\<forall>k t. lock_at m' k t = (if tid \<in> snd (lock_at (ts_locks s) k t) then (FREE, {}) else lock_at (ts_locks s) k t))
    \<and> (\<forall>k t. tid \<in> snd (lock_at (ts_locks s) k t) \<longrightarrow> set (waiters (ts_locks s) k t) \<subseteq> set events)"
proof -
  from unlock_ok [OF data_inv_locks [OF inv] sole] obtain m' events where
    u: "unlock (ts_locks s) tid = Some (m', events)" "lm_inv m'"
    "\<forall>k t. lock_at m' k t = (if tid \<in> snd (lock_at (ts_locks s) k t) then (FREE, {}) else lock_at (ts_locks s) k t)"
    "\<forall>k t. tid \<in> snd (lock_at (ts_locks s) k t) \<longrightarrow> set (waiters (ts_locks s) k t) \<subseteq> set events" by blast
  let ?s = "s\<lparr>ts_locks := m'\<rparr>"
  have "data_inv ?s"
  proof (rule data_invI)
    show "lm_inv (ts_locks ?s)" using u(2) by simp
    show "get ?s k t \<noteq> None" if "committed ?s k t" for k t
      using that u(3) data_inv_stored [OF inv, of k t] by (auto simp: committed_def split: if_splits)
    show "ts_rdy_to_commit ?s tid' = Some t \<and> k \<in> set (getKeys ?s tid')"
      if "lock_at (ts_locks ?s) k t = (WRITE_LOCK, {tid'})" for k t tid'
      using that u(3) data_inv_prepared [OF inv, of k t tid'] by (auto simp: getKeys_def split: if_splits)
  qed
  moreover have "committed ?s k t" if "committed s k t" for k t
    using that u(3) held_status [OF lm_inv_wf [OF data_inv_locks [OF inv]], of tid k t]
    by (auto simp: committed_def)
  ultimately have "good_step s ?s" by (simp add: good_step_def)
  with u(1,3,4) unlock_events [OF u(1)] show ?thesis by blast
qed

text \<open>Forgetting an aborted transaction, once it holds no write lock any more.\<close>

lemma finalize_abort_good:
  assumes "data_inv s" "\<forall>k t. lock_at (ts_locks s) k t \<noteq> (WRITE_LOCK, {tid})"
  shows "good_step s (finalize s tid False)"
proof -
  have "data_inv (finalize s tid False)"
  proof (rule data_invI)
    show "lm_inv (ts_locks (finalize s tid False))" using data_inv_locks [OF assms(1)] by simp
    show "get (finalize s tid False) k t \<noteq> None" if "committed (finalize s tid False) k t" for k t
      using that data_inv_stored [OF assms(1), of k t] by (simp add: committed_def get_finalize_abort)
    show "ts_rdy_to_commit (finalize s tid False) tid' = Some t \<and> k \<in> set (getKeys (finalize s tid False) tid')"
      if "lock_at (ts_locks (finalize s tid False)) k t = (WRITE_LOCK, {tid'})" for k t tid'
    proof -
      from that have l: "lock_at (ts_locks s) k t = (WRITE_LOCK, {tid'})" by simp
      with assms(2) have "tid' \<noteq> tid" by blast
      with data_inv_prepared [OF assms(1) l] show ?thesis by (simp add: finalize_prepared finalize_getKeys)
    qed
  qed
  then show ?thesis by (simp add: good_step_def committed_def get_finalize_abort)
qed

end
