(* ===== verification/Server_Events.thy ===== *)
theory Server_Events
  imports Server_Spec
begin

text \<open>
  Running events: every event that the server may run keeps the invariant of the whole
  server, on every way through its code that returns.
\<close>

section \<open>The invariant of the server\<close>

text \<open>
  Besides the data and the handlers: events in use lie below the allocation pointer, and only
  reads are registered with the lock manager.
\<close>

definition server_inv :: "tserver \<Rightarrow> bool" where
  "server_inv s \<longleftrightarrow> data_inv s \<and> events_ok s
     \<and> (\<forall>ev e. ts_events s ev = Some e \<longrightarrow> ev < ts_next_event s)
     \<and> (\<forall>ev\<in>registered (ts_locks s). \<exists>e. ts_events s ev = Some e \<and> se_kind e = TREAD)"

lemma server_inv_data: "server_inv s \<Longrightarrow> data_inv s"
  and server_inv_events: "server_inv s \<Longrightarrow> events_ok s"
  and server_inv_registered: "server_inv s \<Longrightarrow> ev \<in> registered (ts_locks s) \<Longrightarrow>
    \<exists>e. ts_events s ev = Some e \<and> se_kind e = TREAD"
  unfolding server_inv_def by blast+

text \<open>Steps that only touch handlers and phases.\<close>

definition same_events :: "tserver \<Rightarrow> tserver \<Rightarrow> bool" where
  "same_events s s' \<longleftrightarrow> ts_next_event s' = ts_next_event s
     \<and> (\<forall>ev. map_option (\<lambda>e. (se_kind e, se_rid e)) (ts_events s' ev)
           = map_option (\<lambda>e. (se_kind e, se_rid e)) (ts_events s ev))"

definition frame :: "tserver \<Rightarrow> tserver \<Rightarrow> bool" where
  "frame s s' \<longleftrightarrow> same_data s s' \<and> same_events s s' \<and> (events_ok s \<longrightarrow> events_ok s')"

lemma same_events_refl [simp]: "same_events s s"
  by (simp add: same_events_def)

lemma same_events_trans: "same_events s s1 \<Longrightarrow> same_events s1 s2 \<Longrightarrow> same_events s s2"
  by (simp add: same_events_def)

lemma frame_refl [simp]: "frame s s"
  by (simp add: frame_def)

lemma frame_trans: "frame s s1 \<Longrightarrow> frame s1 s2 \<Longrightarrow> frame s s2"
  unfolding frame_def using same_data_trans same_events_trans by blast

lemma frame_set_phase [simp]: "frame s (set_phase s ev p)"
  by (auto simp: frame_def same_events_def events_ok_set_phase) (auto simp: set_phase_def split: option.split)

lemma frame_sendReply: "server_sendReply s r = Inr s' \<Longrightarrow> frame s s'"
  by (auto simp: frame_def same_data_sendReply events_ok_sendReply)
    (auto simp: same_events_def server_sendReply_def and_then_eq_Inr_iff)

lemma frame_set_args:
  "(\<And>a. args = ARead a \<Longrightarrow> ra_start_ts (rr_args a) \<noteq> 0) \<Longrightarrow> frame s (set_args s r args)"
  by (auto simp: frame_def events_ok_set_args) (auto simp: same_events_def set_args_def split: option.split)

lemma frame_kind:
  assumes "same_events s s'" "ts_events s ev = Some e"
  shows "\<exists>e'. ts_events s' ev = Some e' \<and> se_kind e' = se_kind e \<and> se_rid e' = se_rid e"
  using assms by (auto simp: same_events_def dest!: spec [of _ ev])

text \<open>
  A change of the data that keeps handlers and events, and registers no event but a read.
\<close>

lemma server_inv_step:
  assumes "server_inv s" "data_inv s'" "events_ok s \<longrightarrow> events_ok s'" "same_events s s'"
    and "\<And>ev. ev \<in> registered (ts_locks s') \<Longrightarrow> ev \<notin> registered (ts_locks s) \<Longrightarrow>
      \<exists>e. ts_events s ev = Some e \<and> se_kind e = TREAD"
  shows "server_inv s'"
  unfolding server_inv_def
proof (intro conjI allI impI ballI)
  show "data_inv s'" "events_ok s'" using assms(1-3) by (simp_all add: server_inv_def)
  fix ev
  { fix e' assume "ts_events s' ev = Some e'"
    moreover have "map_option (\<lambda>e. (se_kind e, se_rid e)) (ts_events s' ev)
        = map_option (\<lambda>e. (se_kind e, se_rid e)) (ts_events s ev)"
      using assms(4) by (simp add: same_events_def)
    ultimately obtain e where "ts_events s ev = Some e" by (cases "ts_events s ev") simp_all
    with assms(1,4) show "ev < ts_next_event s'" by (auto simp: server_inv_def same_events_def) }
  { assume "ev \<in> registered (ts_locks s')"
    with assms(5) [of ev] server_inv_registered [OF assms(1), of ev]
    obtain e where "ts_events s ev = Some e" "se_kind e = TREAD" by blast
    with frame_kind [OF assms(4)] show "\<exists>e. ts_events s' ev = Some e \<and> se_kind e = TREAD" by fastforce }
qed

lemma server_inv_frame: "server_inv s \<Longrightarrow> frame s s' \<Longrightarrow> server_inv s' \<and> good_step s s'"
proof -
  assume s: "server_inv s" and f: "frame s s'"
  note d = server_inv_data [OF s]
  from f have sd: "same_data s s'" "same_events s s'" "events_ok s \<longrightarrow> events_ok s'" by (simp_all add: frame_def)
  have "data_inv s'" using same_data_inv [OF sd(1)] d by simp
  moreover have "ts_locks s' = ts_locks s" using sd(1) by (simp add: same_data_def)
  ultimately have "server_inv s'"
    by (intro server_inv_step [OF s _ sd(3,2)]) simp_all
  with f d good_step_same show ?thesis by (auto simp: frame_def)
qed

text \<open>What every run of an event is shown to do.\<close>

definition safe_step :: "tserver \<Rightarrow> tserver \<Rightarrow> bool" where
  "safe_step s s' \<longleftrightarrow> server_inv s' \<and> good_step s s' \<and> same_events s s'"

lemma safe_step_trans: "safe_step s s1 \<Longrightarrow> safe_step s1 s2 \<Longrightarrow> safe_step s s2"
  unfolding safe_step_def using good_step_trans same_events_trans by blast

lemma safe_step_frame: "server_inv s \<Longrightarrow> frame s s' \<Longrightarrow> safe_step s s'"
  using server_inv_frame by (simp add: safe_step_def frame_def)

lemma safe_step_refl: "server_inv s \<Longrightarrow> safe_step s s"
  by (rule safe_step_frame) simp_all

lemma safe_step_event:
  "safe_step s s' \<Longrightarrow> ts_events s ev = Some e \<Longrightarrow>
   \<exists>e'. ts_events s' ev = Some e' \<and> se_kind e' = se_kind e \<and> se_rid e' = se_rid e"
  unfolding safe_step_def using frame_kind by blast

section \<open>Reads\<close>

text \<open>No read makes a write lock.\<close>

definition no_new_writes :: "tserver \<Rightarrow> tserver \<Rightarrow> bool" where
  "no_new_writes s s' \<longleftrightarrow> (\<forall>k t. fst (lock_at (ts_locks s') k t) = WRITE_LOCK \<longrightarrow>
     lock_at (ts_locks s') k t = lock_at (ts_locks s) k t)"

lemma no_new_writes_trans: "no_new_writes s s1 \<Longrightarrow> no_new_writes s1 s2 \<Longrightarrow> no_new_writes s s2"
  by (simp add: no_new_writes_def)

lemma no_new_writes_same: "same_data s s' \<Longrightarrow> no_new_writes s s'"
  by (simp add: no_new_writes_def same_data_def)

lemma same_events_locks: "same_events s (s\<lparr>ts_locks := m\<rparr>)"
  by (simp add: same_events_def)

lemma events_ok_locks [simp]: "events_ok (s\<lparr>ts_locks := m\<rparr>) = events_ok s"
  by (simp add: events_ok_def)

lemma read_phase_1_frame:
  assumes "read_phase_1 s ev e a = Inr s'" "ra_start_ts (rr_args a) \<noteq> 0"
  shows "frame s s'"
proof -
  obtain val where "server_sendReply (set_args (set_phase s ev 2) (se_rid e) (ARead (a\<lparr>rr_value := val\<rparr>))) (se_rid e) = Inr s'"
    using assms(1) by (auto simp: read_phase_1_def Let_def and_then_eq_Inr_iff)
  from frame_sendReply [OF this] show ?thesis
    by (rule frame_trans [rotated]) (rule frame_trans [OF frame_set_phase], rule frame_set_args, use assms(2) in auto)
qed

text \<open>Acquiring the locks of a read, and storing the new start time in its arguments.\<close>

lemma read_locks_safe:
  assumes inv: "server_inv s" and ev: "ts_events s ev = Some e" "se_kind e = TREAD"
    and t: "good_step s (s\<lparr>ts_locks := m'\<rparr>)" "registered m' \<subseteq> insert ev (registered (ts_locks s))"
    and a: "ra_start_ts (rr_args a) \<noteq> 0"
  shows "safe_step s (set_args (s\<lparr>ts_locks := m'\<rparr>) (se_rid e) (ARead a))"
proof -
  have inv1: "server_inv (s\<lparr>ts_locks := m'\<rparr>)"
    by (rule server_inv_step [OF inv good_step_inv [OF t(1)]]) (use t(2) ev in \<open>auto simp: same_events_locks\<close>)
  with t(1) have "safe_step s (s\<lparr>ts_locks := m'\<rparr>)" by (simp add: safe_step_def same_events_locks)
  moreover have "safe_step (s\<lparr>ts_locks := m'\<rparr>) (set_args (s\<lparr>ts_locks := m'\<rparr>) (se_rid e) (ARead a))"
    by (rule safe_step_frame [OF inv1 frame_set_args]) (use a in auto)
  ultimately show ?thesis by (rule safe_step_trans)
qed

lemma run_read_safe:
  assumes run: "run_read s ev e a = Inr s'" and inv: "server_inv s"
    and ev: "ts_events s ev = Some e" "se_kind e = TREAD" and a: "ra_start_ts (rr_args a) \<noteq> 0"
  shows "safe_step s s' \<and> no_new_writes s s'"
proof (cases "se_phase e = 0")
  case True
  from read_locks [OF server_inv_data [OF inv] a, of "ra_key (rr_args a)" "ra_tid (rr_args a)" ev "ra_start_ts (rr_args a)"]
  obtain m' stop where t: "tryBackwardLock (ts_locks s) (ra_key (rr_args a)) (ra_tid (rr_args a))
      (ra_start_ts (rr_args a) - 1) True ev (ra_start_ts (rr_args a))
      = Some (m', fst (lock_at (ts_locks s) (ra_key (rr_args a)) stop) \<noteq> WRITE_LOCK, stop + 1)"
    "good_step s (s\<lparr>ts_locks := m'\<rparr>)" "stop + 1 \<noteq> 0"
    "\<forall>k t. fst (lock_at m' k t) = WRITE_LOCK \<longrightarrow> lock_at m' k t = lock_at (ts_locks s) k t"
    "registered m' \<subseteq> insert ev (registered (ts_locks s))" by blast
  define a1 where "a1 = a\<lparr>rr_args := (rr_args a)\<lparr>ra_start_ts := stop + 1\<rparr>\<rparr>"
  define s1 where "s1 = set_args (s\<lparr>ts_locks := m'\<rparr>) (se_rid e) (ARead a1)"
  have a1: "ra_start_ts (rr_args a1) \<noteq> 0" using t(3) by (simp add: a1_def)
  have s1: "safe_step s s1" unfolding s1_def by (rule read_locks_safe [OF inv ev t(2,5) a1])
  have w1: "no_new_writes s s1"
    using t(4) same_data_set_args [of "s\<lparr>ts_locks := m'\<rparr>" "se_rid e" "ARead a1"]
    by (simp add: no_new_writes_def s1_def same_data_def)
  from run True t(1) have "s' = s1 \<or> read_phase_1 (set_phase s1 ev 1) ev e a1 = Inr s'"
    by (auto simp: run_read_def Let_def a1_def s1_def split: if_splits)
  then show ?thesis
  proof
    assume "read_phase_1 (set_phase s1 ev 1) ev e a1 = Inr s'"
    from frame_trans [OF frame_set_phase read_phase_1_frame [OF this a1]] have f: "frame s1 s'" .
    from s1 have "server_inv s1" by (simp add: safe_step_def)
    from safe_step_trans [OF s1 safe_step_frame [OF this f]] f w1 no_new_writes_same [of s1 s'] show ?thesis
      by (auto simp: frame_def intro: no_new_writes_trans)
  qed (use s1 w1 in simp)
next
  case False
  with run have "read_phase_1 s ev e a = Inr s'" by (auto simp: run_read_def split: if_splits)
  from read_phase_1_frame [OF this a] show ?thesis
    using safe_step_frame [OF inv] no_new_writes_same by (auto simp: frame_def)
qed

lemma run_event_read:
  assumes "run_event (Suc d) s ev = Inr s'" "server_inv s" "ts_events s ev = Some e" "se_kind e = TREAD"
  shows "safe_step s s' \<and> no_new_writes s s'"
proof -
  from assms(1,3,4) obtain args where args: "args_of s (se_rid e) = Inr args"
    "(case args of ARead a \<Rightarrow> run_read s ev e a | _ \<Rightarrow> Inl BadCast) = Inr s'"
    by (auto simp: and_then_eq_Inr_iff)
  then obtain a where a: "args_of s (se_rid e) = Inr (ARead a)" "run_read s ev e a = Inr s'"
    by (cases args) simp_all
  from run_read_safe [OF a(2) assms(2-4) read_start [OF server_inv_events [OF assms(2)] assms(3) a(1)]]
  show ?thesis .
qed

lemma run_list_reads:
  "run_list (run_event (Suc d)) s evs = Inr s' \<Longrightarrow> server_inv s \<Longrightarrow>
   (\<forall>ev\<in>set evs. \<exists>e. ts_events s ev = Some e \<and> se_kind e = TREAD) \<Longrightarrow>
   safe_step s s' \<and> no_new_writes s s'"
proof (induction "run_event (Suc d)" s evs rule: run_list.induct)
  case (1 s)
  then show ?case using safe_step_refl by (simp add: no_new_writes_def)
next
  case (2 s ev evs)
  from 2(2) obtain s1 where s1: "run_event (Suc d) s ev = Inr s1" "run_list (run_event (Suc d)) s1 evs = Inr s'"
    by (auto simp: and_then_eq_Inr_iff simp del: run_event.simps)
  from 2(4) obtain e where e: "ts_events s ev = Some e" "se_kind e = TREAD" by auto
  note r1 = run_event_read [OF s1(1) 2(3) e]
  then have "server_inv s1" by (simp add: safe_step_def)
  moreover have "\<forall>ev\<in>set evs. \<exists>e. ts_events s1 ev = Some e \<and> se_kind e = TREAD"
    using 2(4) safe_step_event [of s s1] r1 by fastforce
  ultimately have "safe_step s1 s' \<and> no_new_writes s1 s'" using 2(1) s1 by blast
  with r1 show ?case using safe_step_trans no_new_writes_trans by blast
qed

section \<open>Writes and the first commit phase\<close>

text \<open>A change of the data only, with the locks registered as before.\<close>

lemma safe_step_data:
  assumes "server_inv s" "good_step s s'" "ts_rpc s' = ts_rpc s" "ts_events s' = ts_events s"
    and "ts_next_event s' = ts_next_event s" "registered (ts_locks s') = registered (ts_locks s)"
  shows "safe_step s s'"
proof -
  have se: "same_events s s'" using assms(4,5) by (simp add: same_events_def)
  have "server_inv s'"
    by (rule server_inv_step [OF assms(1) good_step_inv [OF assms(2)] _ se])
      (use assms(3,4,6) in \<open>auto simp: events_ok_def\<close>)
  with assms(2) se show ?thesis by (simp add: safe_step_def)
qed

lemma run_write_safe:
  assumes "run_write s ev e a = Inr s'" "server_inv s"
  shows "safe_step s s'"
proof -
  let ?s1 = "set_phase s ev 1"
  let ?s2 = "add ?s1 (wa_tid (rw_args a)) (wa_key (rw_args a)) (wa_value (rw_args a))"
  from assms(1) have r: "server_sendReply ?s2 (se_rid e) = Inr s'"
    by (auto simp: run_write_def Let_def split: if_splits)
  have s1: "safe_step s ?s1" using assms(2) by (rule safe_step_frame) simp
  then have i1: "server_inv ?s1" by (simp add: safe_step_def)
  have "ts_next_event ?s2 = ts_next_event ?s1" by (simp add: add_def Let_def)
  with i1 have s2: "safe_step ?s1 ?s2"
    by (intro safe_step_data add_good server_inv_data) simp_all
  then have "server_inv ?s2" by (simp add: safe_step_def)
  from safe_step_frame [OF this frame_sendReply [OF r]] show ?thesis
    using s1 s2 safe_step_trans by blast
qed

lemma lock_keys_events:
  "lock_keys m tid s e keys = Some (m', b) \<Longrightarrow> registered m' = registered m"
proof (induction m tid s e keys rule: lock_keys.induct)
  case (2 m tid s e key keys)
  then obtain m1 g where "tryLock m key tid s e False = Some (m1, g)"
    "(if g then lock_keys m1 tid s e keys else Some (m1, False)) = Some (m', b)"
    by (auto simp: bind_eq_Some_conv)
  with 2 tryLock_events show ?case by (fastforce split: if_splits)
qed simp

lemma getKeys_set_phase [simp]: "getKeys (set_phase s ev p) = getKeys s"
  by (rule same_data_getKeys) simp

lemma set_phase_simps [simp]:
  "ts_locks (set_phase s ev p) = ts_locks s"
  "ts_rdy_to_commit (set_phase s ev p) = ts_rdy_to_commit s"
  using same_data_set_phase [of s ev p] by (simp_all add: same_data_def)

lemma run_p1c_safe:
  assumes run: "run_p1c s ev e a = Inr s'" and inv: "server_inv s"
    and ts: "p1_start_ts (rp1_args a) = p1_commit_ts (rp1_args a)"
    and prep: "preparable s (p1_tid (rp1_args a)) (p1_commit_ts (rp1_args a))"
  shows "safe_step s s'"
proof -
  let ?tid = "p1_tid (rp1_args a)" and ?ts = "p1_commit_ts (rp1_args a)"
  let ?s1 = "set_phase s ev 1"
  have s1: "safe_step s ?s1" using inv by (rule safe_step_frame) simp
  then have i1: "server_inv ?s1" by (simp add: safe_step_def)
  have "preparable ?s1 ?tid ?ts" using prep by (simp add: preparable_def)
  from prepare_good [OF server_inv_data [OF i1] this] obtain m' b where
    l: "lock_keys (ts_locks s) ?tid ?ts ?ts (getKeys s ?tid) = Some (m', b)"
    "good_step ?s1 (prepare (?s1\<lparr>ts_locks := m'\<rparr>) ?tid ?ts)" by auto
  let ?s2 = "prepare (?s1\<lparr>ts_locks := m'\<rparr>) ?tid ?ts"
  from run l(1) ts obtain b where
    r: "server_sendReply (prepare (set_args (?s1\<lparr>ts_locks := m'\<rparr>) (se_rid e) (AP1C b)) ?tid ?ts) (se_rid e) = Inr s'"
    by (auto simp: run_p1c_def Let_def split: if_splits)
  have "prepare (set_args (?s1\<lparr>ts_locks := m'\<rparr>) (se_rid e) (AP1C b)) ?tid ?ts = set_args ?s2 (se_rid e) (AP1C b)"
    by (simp add: prepare_def set_args_def split: option.split)
  with r have r': "server_sendReply (set_args ?s2 (se_rid e) (AP1C b)) (se_rid e) = Inr s'" by simp
  have "ts_next_event ?s2 = ts_next_event ?s1" by (simp add: prepare_def)
  with i1 l(2) lock_keys_events [OF l(1)] have s2: "safe_step ?s1 ?s2"
    by (intro safe_step_data) simp_all
  then have i2: "server_inv ?s2" by (simp add: safe_step_def)
  have "frame ?s2 (set_args ?s2 (se_rid e) (AP1C b))" by (rule frame_set_args) simp
  from safe_step_frame [OF i2 frame_trans [OF this frame_sendReply [OF r']]] show ?thesis
    using s1 s2 safe_step_trans by blast
qed

section \<open>The second commit phase\<close>

text \<open>No event waits for a lock that the transaction is about to freeze.\<close>

definition unawaited :: "tserver \<Rightarrow> u64 \<Rightarrow> bool" where
  "unawaited s tid \<longleftrightarrow> (case freeze (ts_locks s) tid of Some (_, events) \<Rightarrow> events = [] | None \<Rightarrow> True)"

lemma fully_locked_set_phase [simp]: "fully_locked (set_phase s ev p) tid = fully_locked s tid"
  by (simp add: fully_locked_def cong: option.case_cong)

lemma finalize_next [simp]: "ts_next_event (finalize s tid vote) = ts_next_event s"
proof -
  have "ts_next_event (set_all s ts ws) = ts_next_event s" for ts ws
    by (induction s ts ws rule: set_all.induct) (simp_all add: set_version_def Let_def)
  then show ?thesis by (simp add: finalize_def Let_def split: option.split)
qed

lemma run_commit_safe:
  assumes run: "run_p2c run s ev e a = Inr s'" and phase: "se_phase e = 0" and vote: "p2_vote (rp2_args a)"
    and inv: "server_inv s" and locked: "fully_locked s (p2_tid (rp2_args a))"
    and unawaited: "unawaited s (p2_tid (rp2_args a))"
  shows "safe_step s s'"
proof -
  let ?tid = "p2_tid (rp2_args a)" and ?s1 = "set_phase s ev 1"
  have s1: "safe_step s ?s1" using inv by (rule safe_step_frame) simp
  then have i1: "server_inv ?s1" by (simp add: safe_step_def)
  have "fully_locked ?s1 ?tid" using locked by simp
  from commit_good [OF server_inv_data [OF i1] this] obtain m' events where
    f: "freeze (ts_locks s) ?tid = Some (m', events)" "registered m' = registered (ts_locks s)"
    "good_step ?s1 (finalize (?s1\<lparr>ts_locks := m'\<rparr>) ?tid True)" by auto
  with unawaited have "events = []" by (simp add: unawaited_def)
  with run phase vote f(1) have r: "server_sendReply (finalize (?s1\<lparr>ts_locks := m'\<rparr>) ?tid True) (se_rid e) = Inr s'"
    by (simp add: run_p2c_def Let_def)
  have s2: "safe_step ?s1 (finalize (?s1\<lparr>ts_locks := m'\<rparr>) ?tid True)"
    by (rule safe_step_data [OF i1 f(3)]) (simp_all add: f(2))
  then have "server_inv (finalize (?s1\<lparr>ts_locks := m'\<rparr>) ?tid True)" by (simp add: safe_step_def)
  from safe_step_frame [OF this frame_sendReply [OF r]] show ?thesis
    using s1 s2 safe_step_trans by blast
qed

lemma run_abort_safe:
  assumes run: "run_p2c (run_event (Suc d)) s ev e a = Inr s'" and phase: "se_phase e = 0"
    and vote: "\<not> p2_vote (rp2_args a)" and inv: "server_inv s"
    and sole: "\<not> shares_reads (ts_locks s) (p2_tid (rp2_args a))"
  shows "safe_step s s'"
proof -
  let ?tid = "p2_tid (rp2_args a)" and ?s1 = "set_phase s ev 1"
  have s1: "safe_step s ?s1" using inv by (rule safe_step_frame) simp
  then have i1: "server_inv ?s1" by (simp add: safe_step_def)
  have "\<not> shares_reads (ts_locks ?s1) ?tid" using sole by simp
  from abort_good [OF server_inv_data [OF i1] this] obtain m' events where
    u: "unlock (ts_locks s) ?tid = Some (m', events)" "set events \<subseteq> registered (ts_locks s)"
    "registered m' = registered (ts_locks s)" "good_step ?s1 (?s1\<lparr>ts_locks := m'\<rparr>)"
    "\<forall>k t. lock_at m' k t = (if ?tid \<in> snd (lock_at (ts_locks s) k t) then (FREE, {}) else lock_at (ts_locks s) k t)"
    by (auto simp del: run_event.simps)
  let ?s2 = "?s1\<lparr>ts_locks := m'\<rparr>"
  have s2: "safe_step ?s1 ?s2" by (rule safe_step_data [OF i1 u(4)]) (simp_all add: u(3))
  then have i2: "server_inv ?s2" by (simp add: safe_step_def)
  from run phase vote u(1) obtain s3 where
    r: "run_list (run_event (Suc d)) ?s2 events = Inr s3"
    "server_sendReply (finalize s3 ?tid False) (se_rid e) = Inr s'"
    by (auto simp: run_p2c_def Let_def and_then_eq_Inr_iff simp del: run_event.simps)
  have "\<forall>ev\<in>set events. \<exists>e. ts_events ?s2 ev = Some e \<and> se_kind e = TREAD"
    using server_inv_registered [OF i2] u(2,3) by auto
  from run_list_reads [OF r(1) i2 this] have s3: "safe_step ?s2 s3" "no_new_writes ?s2 s3" by auto
  then have i3: "server_inv s3" by (simp add: safe_step_def)
  have "lock_at m' k t \<noteq> (WRITE_LOCK, {?tid})" for k t using u(5) by auto
  moreover have "lock_at (ts_locks s3) k t = lock_at m' k t" if "fst (lock_at (ts_locks s3) k t) = WRITE_LOCK" for k t
    using s3(2) that by (simp add: no_new_writes_def)
  ultimately have "lock_at (ts_locks s3) k t \<noteq> (WRITE_LOCK, {?tid})" for k t
    by (metis fst_conv)
  then have "good_step s3 (finalize s3 ?tid False)"
    by (intro finalize_abort_good server_inv_data [OF i3]) blast
  then have s4: "safe_step s3 (finalize s3 ?tid False)" by (rule safe_step_data [OF i3]) simp_all
  then have "server_inv (finalize s3 ?tid False)" by (simp add: safe_step_def)
  from safe_step_frame [OF this frame_sendReply [OF r(2)]] show ?thesis
    using s1 s2 s3(1) s4 safe_step_trans by blast
qed

section \<open>Any event\<close>

text \<open>
  What a well-behaved client keeps to: it prepares a transaction for one time, commits only if
  all its pending writes are locked; and the two situations that the server does not handle:
  requests waiting for the locks of a committing transaction, and shared reads of an aborting
  one.
\<close>

definition args_allowed :: "tserver \<Rightarrow> handler_args \<Rightarrow> bool" where
  "args_allowed s args \<longleftrightarrow>
    (case args of
       AP1C a \<Rightarrow> p1_start_ts (rp1_args a) = p1_commit_ts (rp1_args a)
                 \<and> preparable s (p1_tid (rp1_args a)) (p1_commit_ts (rp1_args a))
     | AP2C a \<Rightarrow> if p2_vote (rp2_args a)
                 then fully_locked s (p2_tid (rp2_args a)) \<and> unawaited s (p2_tid (rp2_args a))
                 else \<not> shares_reads (ts_locks s) (p2_tid (rp2_args a))
     | _ \<Rightarrow> True)"

definition event_allowed :: "tserver \<Rightarrow> event_id \<Rightarrow> bool" where
  "event_allowed s ev \<longleftrightarrow>
     (\<forall>e args. ts_events s ev = Some e \<longrightarrow> args_of s (se_rid e) = Inr args \<longrightarrow> args_allowed s args)"

lemma run_event_safe:
  assumes run: "run_event 2 s ev = Inr s'" and inv: "server_inv s" and ok: "event_allowed s ev"
  shows "safe_step s s'"
proof -
  have two: "2 = Suc (Suc 0)" by simp
  from run obtain e args where e: "ts_events s ev = Some e" "args_of s (se_rid e) = Inr args"
    and r: "(case (se_kind e, args) of
         (TREAD, ARead a) \<Rightarrow> run_read s ev e a
       | (TWRITE, AWrite a) \<Rightarrow> run_write s ev e a
       | (TP1C, AP1C a) \<Rightarrow> run_p1c s ev e a
       | (TP2C, AP2C a) \<Rightarrow> run_p2c (run_event (Suc 0)) s ev e a
       | _ \<Rightarrow> Inl BadCast) = Inr s'"
    by (auto simp: two and_then_eq_Inr_iff need_def split: option.splits)
  from ok e have al: "args_allowed s args" by (simp add: event_allowed_def)
  show ?thesis
  proof (cases args)
    case (ARead a)
    with r have "run_read s ev e a = Inr s'" "se_kind e = TREAD" by (auto split: request_t.splits)
    with run_read_safe [OF this(1) inv e(1) this(2)] read_start [OF server_inv_events [OF inv] e(1)] e(2) ARead
    show ?thesis by blast
  next
    case (AWrite a)
    with r have "run_write s ev e a = Inr s'" by (auto split: request_t.splits)
    then show ?thesis using inv by (rule run_write_safe)
  next
    case (AP1C a)
    with r have "run_p1c s ev e a = Inr s'" by (auto split: request_t.splits)
    with inv al AP1C show ?thesis by (auto simp: args_allowed_def intro: run_p1c_safe)
  next
    case (AP2C a)
    with r have p: "run_p2c (run_event (Suc 0)) s ev e a = Inr s'"
      by (auto split: request_t.splits simp del: run_event.simps)
    show ?thesis
    proof (cases "se_phase e = 0")
      case True
      with p inv al AP2C show ?thesis
        by (cases "p2_vote (rp2_args a)")
          (auto simp: args_allowed_def simp del: run_event.simps intro: run_commit_safe run_abort_safe)
    next
      case False
      with p have "s' = s" by (auto simp: run_p2c_def split: if_splits)
      with inv show ?thesis by (simp add: safe_step_refl)
    qed
  qed
qed

end
