(* ===== verification/Server_Runs.thy ===== *)
theory Server_Runs
  imports Server_Events
begin

text \<open>
  Runs of the server: rounds of its event loop, each with what the network delivers, and
  events that threads run, in any order.
\<close>

section \<open>A round of the event loop leaves the data alone\<close>

definition quiet :: "tserver \<Rightarrow> tserver \<Rightarrow> bool" where
  "quiet s s' \<longleftrightarrow> same_data s s' \<and> ts_events s' = ts_events s \<and> ts_next_event s' = ts_next_event s"

lemma quiet_trans: "quiet s s1 \<Longrightarrow> quiet s1 s2 \<Longrightarrow> quiet s s2"
  by (simp add: quiet_def same_data_def)

lemma quiet_set_args [simp]: "quiet s (set_args s r args)"
  by (simp add: quiet_def) (simp add: set_args_def split: option.split)

lemma quiet_sendReply: "server_sendReply s r = Inr s' \<Longrightarrow> quiet s s'"
  by (simp add: quiet_def same_data_sendReply) (auto simp: server_sendReply_def and_then_eq_Inr_iff)

lemma quiet_note_tid: "note_tid s tid node = Inr s' \<Longrightarrow> quiet s s'"
  by (auto simp: note_tid_def lock_tid_def quiet_def same_data_def split: if_splits)

lemma quiet_note_write_tid: "note_write_tid s tid node = Inr s' \<Longrightarrow> quiet s s'"
  by (auto simp: note_write_tid_def lock_tid_write_def quiet_def same_data_def split: if_splits)

lemma quiet_take_nodes: "take_nodes s tid = Inr (s', nodes) \<Longrightarrow> quiet s s'"
  by (auto simp: take_nodes_def lock_tid_def quiet_def same_data_def split: if_splits option.splits)

lemma quiet_take_write_nodes: "take_write_nodes s tid = Inr (s', nodes) \<Longrightarrow> quiet s s'"
  by (auto simp: take_write_nodes_def lock_tid_write_def quiet_def same_data_def
      split: if_splits option.splits)

lemmas quiet_steps =
  quiet_sendReply quiet_note_tid quiet_note_write_tid quiet_take_nodes quiet_take_write_nodes

text \<open>A round makes at most one event, with a new address.\<close>

definition polled :: "tserver \<Rightarrow> tserver \<Rightarrow> bool" where
  "polled s s' \<longleftrightarrow> same_data s s' \<and> (ts_events s' = ts_events s \<and> ts_next_event s' = ts_next_event s
     \<or> ts_next_event s' = Suc (ts_next_event s) \<and> (\<exists>e. ts_events s' = (ts_events s)(ts_next_event s \<mapsto> e)))"

lemma polled_quiet: "quiet s s' \<Longrightarrow> polled s s'"
  by (simp add: polled_def quiet_def)

lemma polled_reply: "reply_only s1 r = Inr (s', ev) \<Longrightarrow> quiet s s1 \<Longrightarrow> polled s s'"
  by (auto simp: reply_only_def and_then_eq_Inr_iff
      intro: polled_quiet [OF quiet_trans [OF _ quiet_sendReply]])

lemma polled_event: "make_event s1 kind r = (s', ev) \<Longrightarrow> quiet s s1 \<Longrightarrow> polled s s'"
  by (auto simp: make_event_def new_event_def polled_def quiet_def same_data_def)

lemma polled_dispatch:
  assumes "dispatch mapper s req r = Inr (s', ev)"
  shows "polled s s'"
proof -
  from assms obtain args where args: "args_of s r = Inr args"
    by (auto simp: dispatch_def and_then_eq_Inr_iff)
  show ?thesis
  proof (cases args)
    case (ARead a)
    with assms args have d: "dispatch_read mapper s r a = Inr (s', ev)"
      by (cases req) (simp_all add: dispatch_def)
    show ?thesis
    proof (cases "mapper (ra_key (rr_args a)) \<in> set (ts_nodes s)")
      case True
      with d obtain s1 where "note_tid (set_args s r (ARead (a\<lparr>rr_status := Some True\<rparr>)))
          (ra_tid (rr_args a)) (mapper (ra_key (rr_args a))) = Inr s1" "make_event s1 TREAD r = (s', ev)"
        by (auto simp: dispatch_read_def Let_def and_then_eq_Inr_iff)
      then show ?thesis
        using polled_event quiet_trans [OF quiet_set_args quiet_note_tid] by blast
    next
      case False
      with d show ?thesis by (auto simp: dispatch_read_def Let_def intro: polled_reply)
    qed
  next
    case (AWrite a)
    with assms args have d: "dispatch_write mapper s r a = Inr (s', ev)"
      by (cases req) (simp_all add: dispatch_def)
    show ?thesis
    proof (cases "mapper (wa_key (rw_args a)) \<in> set (ts_nodes s)")
      case True
      with d obtain s1 s2 where "note_tid (set_args s r (AWrite (a\<lparr>rw_status := Some True\<rparr>)))
          (wa_tid (rw_args a)) (mapper (wa_key (rw_args a))) = Inr s1"
        "note_write_tid s1 (wa_tid (rw_args a)) (mapper (wa_key (rw_args a))) = Inr s2"
        "make_event s2 TWRITE r = (s', ev)"
        by (auto simp: dispatch_write_def Let_def and_then_eq_Inr_iff)
      then show ?thesis
        using polled_event quiet_trans [OF quiet_trans [OF quiet_set_args quiet_note_tid] quiet_note_write_tid]
        by blast
    next
      case False
      with d show ?thesis by (auto simp: dispatch_write_def Let_def intro: polled_reply)
    qed
  next
    case (AP1C a)
    with assms args obtain s1 nodes where t: "take_write_nodes s (p1_tid (rp1_args a)) = Inr (s1, nodes)"
      "(case nodes of None \<Rightarrow> reply_only s1 r
        | Some nodes \<Rightarrow> Inr (make_event (set_args s1 r (AP1C (a\<lparr>rp1_nodes := nodes\<rparr>))) TP1C r)) = Inr (s', ev)"
      by (cases req) (auto simp: dispatch_def dispatch_p1c_def and_then_eq_Inr_iff)
    with quiet_take_write_nodes [OF t(1)] quiet_trans [OF quiet_take_write_nodes [OF t(1)] quiet_set_args]
    show ?thesis by (cases nodes) (auto intro: polled_reply polled_event)
  next
    case (AP2C a)
    with assms args obtain s1 nodes where t: "take_nodes s (p2_tid (rp2_args a)) = Inr (s1, nodes)"
      "(case nodes of None \<Rightarrow> reply_only s1 r
        | Some nodes \<Rightarrow> Inr (make_event (set_args s1 r (AP2C (a\<lparr>rp2_nodes := nodes\<rparr>))) TP2C r)) = Inr (s', ev)"
      by (cases req) (auto simp: dispatch_def dispatch_p2c_def and_then_eq_Inr_iff)
    with quiet_take_nodes [OF t(1)] quiet_trans [OF quiet_take_nodes [OF t(1)] quiet_set_args]
    show ?thesis by (cases nodes) (auto intro: polled_reply polled_event)
  qed
qed

lemma polled_rpc: "polled (s\<lparr>ts_rpc := rpc\<rparr>) s' = polled s s'"
  by (simp add: polled_def same_data_def)

lemma polled_round:
  assumes "getEvent_round mapper s arrs = Inr (s', ev)"
  shows "polled s s'"
proof -
  have q: "polled s (s\<lparr>ts_queue := x\<rparr>)" "polled s (s\<lparr>ts_rpc := rpc\<rparr>)" for x rpc
    by (simp_all add: polled_def same_data_def)
  obtain got ev0 x where "tryDequeue (ts_queue s) 0 = (got, ev0, x)" by (cases "tryDequeue (ts_queue s) 0")
  with assms show ?thesis
    by (auto simp: getEvent_round_def and_then_eq_Inr_iff polled_rpc q split: if_splits option.split_asm
        dest!: polled_dispatch)
qed

lemma polled_safe:
  assumes inv: "server_inv s" and p: "polled s s'" and ok: "events_ok s'"
  shows "server_inv s' \<and> good_step s s'"
proof -
  have sd: "same_data s s'" using p by (simp add: polled_def)
  have fresh: "ts_events s (ts_next_event s) = None"
    using inv by (metis server_inv_def not_None_eq order_less_irrefl)
  have kept: "ts_events s ev = Some e \<Longrightarrow> ts_events s' ev = Some e" for ev e
    using p fresh by (auto simp: polled_def)
  have "ts_events s' ev = Some e \<Longrightarrow> ev < ts_next_event s'" for ev e
    using inv p by (fastforce simp: polled_def server_inv_def less_Suc_eq split: if_splits)
  moreover have "ts_locks s' = ts_locks s" using sd by (simp add: same_data_def)
  ultimately have "server_inv s'"
    using inv ok kept same_data_inv [OF sd] unfolding server_inv_def by metis
  with good_step_same [OF server_inv_data [OF inv] sd] show ?thesis by simp
qed

section \<open>Runs\<close>

inductive server_run :: "(u64 \<Rightarrow> u64) \<Rightarrow> tserver \<Rightarrow> tserver \<Rightarrow> bool" for mapper where
  run_done: "server_run mapper s s"
| run_poll: "arrivals_ok (fst arrs) \<Longrightarrow> arrivals_ok (snd arrs) \<Longrightarrow>
    getEvent_round mapper s arrs = Inr (s1, ev) \<Longrightarrow> server_run mapper s1 s2 \<Longrightarrow> server_run mapper s s2"
| run_one: "event_allowed s ev \<Longrightarrow> run_event 2 s ev = Inr s1 \<Longrightarrow> server_run mapper s1 s2 \<Longrightarrow>
    server_run mapper s s2"

lemma server_run_inv: "server_run mapper s s' \<Longrightarrow> server_inv s \<Longrightarrow> server_inv s' \<and> good_step s s'"
proof (induction rule: server_run.induct)
  case (run_done s)
  then show ?case by (simp add: good_step_same server_inv_data)
next
  case (run_poll arrs s s1 ev s2)
  have "events_ok s1"
    by (rule getEvent_round_ok [OF run_poll.hyps(3) server_inv_events [OF run_poll.prems] run_poll.hyps(1,2)])
  from polled_safe [OF run_poll.prems polled_round [OF run_poll.hyps(3)] this] run_poll.IH
  show ?case using good_step_trans by blast
next
  case (run_one s ev s1 s2)
  from run_event_safe [OF run_one.hyps(2) run_one.prems run_one.hyps(1)] run_one.IH
  show ?case using good_step_trans by (auto simp: safe_step_def)
qed

lemma server_run_trans: "server_run mapper s s1 \<Longrightarrow> server_run mapper s1 s2 \<Longrightarrow> server_run mapper s s2"
  by (induction rule: server_run.induct) (auto intro: server_run.intros)

lemma getEvent_run:
  assumes "getEvent mapper s rounds = Inr (s', ev)"
    and "\<And>arrs. arrs \<in> set rounds \<Longrightarrow> arrivals_ok (fst arrs) \<and> arrivals_ok (snd arrs)"
  shows "server_run mapper s s'"
  using assms
proof (induction mapper s rounds arbitrary: s' ev rule: getEvent.induct)
  case (2 mapper s arrs rounds)
  then obtain s1 ev1 where r: "getEvent_round mapper s arrs = Inr (s1, ev1)"
    and c: "(case ev1 of Some ev \<Rightarrow> Inr (s1, Some ev) | None \<Rightarrow> getEvent mapper s1 rounds) = Inr (s', ev)"
    by (auto simp: and_then_eq_Inr_iff)
  have ok: "arrivals_ok (fst arrs)" "arrivals_ok (snd arrs)" using 2(3) [of arrs] by simp_all
  have "server_run mapper s1 s'"
    using c 2(1) 2(3) by (cases ev1) (auto intro: run_done)
  then show ?case by (rule run_poll [OF ok r])
qed (simp add: run_done)

section \<open>The initial state\<close>

lemma rpc_ok_new: "rpc_ok new_rpc_server"
  by (auto simp: rpc_ok_def new_rpc_server_def prepareNextRequest_def message_ok_def split: if_splits)

lemma server_inv_new: "server_inv (new_tserver new_rpc_server lm_init n)"
proof -
  have "data_inv (new_tserver new_rpc_server lm_init n)"
    by (rule data_invI)
      (auto simp: new_tserver_def committed_def lock_at_def lm_init_def initial_cell_def get_def
        lm_inv_init [unfolded lm_init_def] split: if_splits)
  then show ?thesis
    by (simp add: server_inv_def events_ok_def new_tserver_def rpc_ok_new registered_init)
qed

end
