(* ===== verification/Generators.thy ===== *)
theory Generators
  imports Prelude
begin

text \<open>
  The small services under \<open>src/src\<close> that coordinators and servers share: \<open>KeyMapper.h\<close>
  with \<open>SimpleKeyMapper\<close>, \<open>TransactionIDGenerator.h\<close> with \<open>SimpleTransactionIDGenerator\<close>, and
  \<open>TimestampGenerator.h\<close> with \<open>SimpleTimestampGenerator\<close>.
\<close>

section \<open>Keys and nodes\<close>

definition getNode :: "u64 \<Rightarrow> u64" where
  "getNode key = 0"

section \<open>Transaction IDs\<close>

record id_generator =
  ig_cur_id :: u64

definition new_id_generator :: id_generator where
  "new_id_generator = \<lparr>ig_cur_id = 0\<rparr>"

definition genTransactionID :: "id_generator \<Rightarrow> u64 \<times> id_generator" where
  "genTransactionID g = (ig_cur_id g, g\<lparr>ig_cur_id := ig_cur_id g + 1\<rparr>)"

section \<open>Timestamps\<close>

text \<open>
  The clock of the operating system is the argument: the signed number of seconds that
  \<open>time\<close> stores, which the cast takes modulo $2^{64}$.
\<close>

definition getCurrentTime :: "int \<Rightarrow> u64" where
  "getCurrentTime timev = word_of_int timev"

definition genStartTimestamp :: "int \<Rightarrow> u64" where
  "genStartTimestamp timev = getCurrentTime timev"

definition genCommitTimestamp :: "int \<Rightarrow> u64" where
  "genCommitTimestamp timev = getCurrentTime timev"

section \<open>The IDs of a process\<close>

text \<open>The IDs that a generator hands out in its next calls, in order.\<close>

fun take_ids :: "nat \<Rightarrow> id_generator \<Rightarrow> u64 list \<times> id_generator" where
  "take_ids 0 g = ([], g)"
| "take_ids (Suc n) g =
     (let (tid, g) = genTransactionID g; (tids, g) = take_ids n g in (tid # tids, g))"

lemma take_ids_eq: "fst (take_ids n g) = map (\<lambda>i. ig_cur_id g + of_nat i) [0..<n]"
proof (induction n arbitrary: g)
  case (Suc n)
  have "fst (take_ids (Suc n) g) = ig_cur_id g # map (\<lambda>i. ig_cur_id g + 1 + of_nat i) [0..<n]"
    using Suc [of "snd (genTransactionID g)"] by (simp add: genTransactionID_def case_prod_unfold Let_def)
  also have "\<dots> = map (\<lambda>i. ig_cur_id g + of_nat i) (0 # map Suc [0..<n])"
    by (simp add: ac_simps)
  also have "0 # map Suc [0..<n] = [0..<Suc n]"
    by (simp add: map_Suc_upt upt_conv_Cons del: upt_Suc)
  finally show ?case .
qed simp

text \<open>
  The IDs that one process draws are pairwise different until all $2^{64}$ of them are
  used up.
\<close>
lemma transaction_ids_distinct:
  assumes "n \<le> 18446744073709551616"
  shows "distinct (fst (take_ids n g))"
proof -
  have "inj_on (\<lambda>i. ig_cur_id g + of_nat i) {0..<n}"
  proof (rule inj_onI)
    fix i j assume "i \<in> {0..<n}" "j \<in> {0..<n}" "ig_cur_id g + of_nat i = ig_cur_id g + (of_nat j :: u64)"
    then show "i = j" using assms by (simp add: word_of_nat_eq_iff take_bit_nat_eq_self)
  qed
  then show ?thesis by (simp add: take_ids_eq distinct_map)
qed

lemma transaction_ids_distinct_witness: "distinct [0, 1, 2 :: u64]"
proof -
  have "fst (take_ids 3 new_id_generator) = [0, 1, 2]" by code_simp
  with transaction_ids_distinct [of 3 new_id_generator] show ?thesis by simp
qed

end
