(* ===== verification/Server_Scenario.thy ===== *)
theory Server_Scenario
  imports Server_Runs Generators
begin

text \<open>
  Concrete runs of the server, one request after the other, each run to its end by one thread.
  They supply the states at which the properties of the server are applied.
\<close>

section \<open>Playing requests\<close>

text \<open>One request arrives and becomes an event.\<close>

definition arrive :: "tserver \<Rightarrow> arrival \<Rightarrow> (tserver \<times> event_id option) res" where
  "arrive s arr = getEvent_round getNode s ([arr], [])"

text \<open>A check on the event that came up, which can be computed.\<close>

definition on_event ::
    "(tserver \<times> event_id option) res \<Rightarrow> (tserver \<Rightarrow> event_id \<Rightarrow> server_event \<Rightarrow> bool) \<Rightarrow> bool" where
  "on_event r P =
    (case r of
       Inr (s, Some ev) \<Rightarrow> (case ts_events s ev of Some e \<Rightarrow> P s ev e | None \<Rightarrow> False)
     | _ \<Rightarrow> False)"

lemma on_eventE:
  assumes "on_event r P"
  obtains s ev e where "r = Inr (s, Some ev)" "ts_events s ev = Some e" "P s ev e"
  using assms by (auto simp: on_event_def split: sum.splits option.splits)

text \<open>The conditions of \<^const>\<open>args_allowed\<close> that can be computed; aborts are not played.\<close>

definition args_ok :: "tserver \<Rightarrow> handler_args \<Rightarrow> bool" where
  "args_ok s args =
    (case args of
       AP1C a \<Rightarrow> p1_start_ts (rp1_args a) = p1_commit_ts (rp1_args a)
                 \<and> preparable s (p1_tid (rp1_args a)) (p1_commit_ts (rp1_args a))
     | AP2C a \<Rightarrow> p2_vote (rp2_args a) \<and> fully_locked s (p2_tid (rp2_args a)) \<and> unawaited s (p2_tid (rp2_args a))
     | _ \<Rightarrow> True)"

definition run_ok :: "tserver \<Rightarrow> event_id \<Rightarrow> bool" where
  "run_ok s ev =
    (case ts_events s ev of
       None \<Rightarrow> True
     | Some e \<Rightarrow> (case args_of s (se_rid e) of Inl _ \<Rightarrow> True | Inr args \<Rightarrow> args_ok s args))"

definition arrival_ok :: "arrival \<Rightarrow> bool" where
  "arrival_ok arr = (case snd arr of Some (MRead q) \<Rightarrow> rq_start_ts q \<noteq> 0 | _ \<Rightarrow> True)"

fun play :: "tserver \<Rightarrow> arrival list \<Rightarrow> tserver option" where
  "play s [] = Some s"
| "play s (arr # arrs) =
    (if \<not> arrival_ok arr then None
     else case arrive s arr of
       Inr (s, Some ev) \<Rightarrow>
         (if \<not> run_ok s ev then None
          else case run_event 2 s ev of Inl _ \<Rightarrow> None | Inr s \<Rightarrow> play s arrs)
     | _ \<Rightarrow> None)"

lemma run_ok_allowed: "run_ok s ev \<Longrightarrow> event_allowed s ev"
  by (auto simp: run_ok_def event_allowed_def args_ok_def args_allowed_def split: handler_args.splits)

lemma arrival_ok_arrivals: "arrival_ok arr \<Longrightarrow> arrivals_ok [arr]"
  by (auto simp: arrival_ok_def arrivals_ok_def message_ok_def)

lemma arrive_inv:
  assumes "arrive s arr = Inr (s', ev)" "arrival_ok arr" "server_inv s"
  shows "server_inv s'"
proof -
  have "arrivals_ok (fst ([arr], []))" "arrivals_ok (snd ([arr], []))"
    using arrival_ok_arrivals [OF assms(2)] by (simp_all add: arrivals_ok_def)
  from server_run_inv [OF run_poll [OF this assms(1) [unfolded arrive_def] run_done] assms(3)]
  show ?thesis by simp
qed

lemma play_run: "play s arrs = Some s' \<Longrightarrow> server_run getNode s s'"
proof (induction s arrs rule: play.induct)
  case (2 s arr arrs)
  from 2(2) obtain s1 ev s2 where
    p: "arrival_ok arr" "arrive s arr = Inr (s1, Some ev)" "run_ok s1 ev" "run_event 2 s1 ev = Inr s2"
      "play s2 arrs = Some s'"
    by (auto split: sum.splits option.splits prod.splits if_splits simp del: run_event.simps)
  then have "server_run getNode s2 s'" using 2(1) by simp
  then have "server_run getNode s1 s'" by (rule run_one [OF run_ok_allowed [OF p(3)] p(4)])
  then show ?case
    using run_poll [of "([arr], [])" getNode s s1] p(1,2) arrival_ok_arrivals
    by (auto simp: arrive_def arrivals_ok_def)
qed (simp add: run_done)

lemma play_inv: "play s arrs = Some s' \<Longrightarrow> server_inv s \<Longrightarrow> server_inv s'"
  using play_run server_run_inv by blast

section \<open>A transaction\<close>

text \<open>
  Transaction 1 writes \<open>7\<close> to key 5 and prepares to commit at time 3; the handlers with the
  IDs 1 to 4 wait for the first request of each type.
\<close>

definition write_7 :: arrival where
  "write_7 = (2, Some (MWrite \<lparr>wq_tid = 1, wq_key = 5, wq_value = ''7''\<rparr>))"

definition prepare_3 :: arrival where
  "prepare_3 = (3, Some (MP1C \<lparr>p1q_tid = 1, p1q_start_ts = 3, p1q_commit_ts = 3,
                               p1q_read_node = [], p1q_write_node = [0]\<rparr>))"

definition decide :: "bool \<Rightarrow> arrival" where
  "decide vote = (4, Some (MP2C \<lparr>p2q_tid = 1, p2q_vote = vote\<rparr>))"

definition read_at :: "rid \<Rightarrow> u64 \<Rightarrow> arrival" where
  "read_at r ts = (r, Some (MRead \<lparr>rq_tid = 2, rq_start_ts = ts, rq_key = 5\<rparr>))"

lemma start_inv: "server_inv main_server"
  unfolding main_server_def by (rule server_inv_new)


text \<open>The arguments of the requests when they have become events.\<close>

definition prepare_args :: rpc_p1c_args_t where
  "prepare_args =
     \<lparr>rp1_args = \<lparr>p1_tid = 1, p1_start_ts = 3, p1_commit_ts = 3, p1_read_nodes = [], p1_write_nodes = [0]\<rparr>,
      rp1_nodes = [0], rp1_vote = None\<rparr>"

definition decide_args :: "bool \<Rightarrow> rpc_p2c_args_t" where
  "decide_args vote = \<lparr>rp2_args = \<lparr>p2_tid = 1, p2_vote = vote\<rparr>, rp2_nodes = [0]\<rparr>"

definition read_args :: "u64 \<Rightarrow> rpc_read_args_t" where
  "read_args ts =
     \<lparr>rr_args = \<lparr>ra_tid = 2, ra_start_ts = ts, ra_key = 5\<rparr>, rr_value = None, rr_status = Some True\<rparr>"

definition ready :: "tserver \<Rightarrow> event_id \<Rightarrow> server_event \<Rightarrow> handler_args \<Rightarrow> bool" where
  "ready s ev e args \<longleftrightarrow> ts_events s ev = Some e \<and> se_phase e = 0 \<and> se_kind e = request_of args
     \<and> (case rs_handlers (ts_rpc s) (se_rid e) of
          None \<Rightarrow> False
        | Some h \<Rightarrow> hd_status h = PROCESS \<and> hd_args h = args)"

lemma registered_from_kinds:
  assumes "server_inv s" "\<And>ev. ev < ts_next_event s \<Longrightarrow> map_option se_kind (ts_events s ev) \<noteq> Some TREAD"
  shows "registered (ts_locks s) = {}"
proof -
  have "False" if r: "ev \<in> registered (ts_locks s)" for ev
  proof -
    from server_inv_registered [OF assms(1) r] obtain e where e: "ts_events s ev = Some e" "se_kind e = TREAD" by blast
    then have "ev < ts_next_event s" using assms(1) by (simp add: server_inv_def)
    from assms(2) [OF this] e show False by simp
  qed
  then show ?thesis by blast
qed

text \<open>
  Transaction 1 is prepared and its decision has arrived; then transaction 2 asks for the same
  key at time 5.
\<close>

definition prepared_state :: "tserver \<Rightarrow> bool" where
  "prepared_state s \<longleftrightarrow>
     ts_rdy_to_commit s 1 = Some 3 \<and> ts_pend_writes s 1 = Some [(5, ''7'')]
     \<and> fully_locked s 1 \<and> unawaited s 1 \<and> lock_at (ts_locks s) 5 3 = (WRITE_LOCK, {1})
     \<and> passes True (fst (lock_at (ts_locks s) 5 4)) \<and> get s 5 3 = None
     \<and> lm_trans (ts_locks s) 1 = Some [(5, (3, 3))]"

definition no_reads :: "tserver \<Rightarrow> bool" where
  "no_reads s \<longleftrightarrow> list_all (\<lambda>i. map_option se_kind (ts_events s i) \<noteq> Some TREAD) [0..<ts_next_event s]"

lemma registered_no_reads: "server_inv s \<Longrightarrow> no_reads s \<Longrightarrow> registered (ts_locks s) = {}"
  by (rule registered_from_kinds) (auto simp: no_reads_def list_all_iff)

text \<open>
  A read that arrives at a server with nothing else to do becomes an event at once, with the
  arguments of the message; the events that are ready stay so.
\<close>

definition listens :: "tserver \<Rightarrow> rid \<Rightarrow> bool" where
  "listens s r \<longleftrightarrow> rs_handlers (ts_rpc s) r = Some new_read_handler
     \<and> rs_request_queue (ts_rpc s) = [] \<and> q_queue (ts_queue s) = []
     \<and> rs_handlers (ts_rpc s) (rs_next (ts_rpc s)) = None \<and> \<not> ts_tid_locked s"

lemma arrive_read:
  assumes l: "listens s r" and n: "getNode key \<in> set (ts_nodes s)"
  shows "\<exists>s' e. arrive s (r, Some (MRead \<lparr>rq_tid = tid, rq_start_ts = ts, rq_key = key\<rparr>))
      = Inr (s', Some (ts_next_event s))
    \<and> ready s' (ts_next_event s) e (ARead \<lparr>rr_args = \<lparr>ra_tid = tid, ra_start_ts = ts, ra_key = key\<rparr>,
        rr_value = None, rr_status = Some True\<rparr>) \<and> se_rid e = r
    \<and> (\<forall>ev2 e2 args. ev2 \<noteq> ts_next_event s \<longrightarrow> se_rid e2 \<noteq> r \<longrightarrow> ready s ev2 e2 args \<longrightarrow> ready s' ev2 e2 args)"
proof -
  have ne: "r \<noteq> rs_next (ts_rpc s)" using l by (auto simp: listens_def)
  let ?a = "\<lparr>rr_args = \<lparr>ra_tid = tid, ra_start_ts = ts, ra_key = key\<rparr>, rr_value = None, rr_status = Some True\<rparr>"
  let ?h = "new_read_handler\<lparr>hd_request := Some (MRead \<lparr>rq_tid = tid, rq_start_ts = ts, rq_key = key\<rparr>), hd_args := ARead ?a\<rparr>"
  define s' where "s' = s\<lparr>ts_rpc := (ts_rpc s)\<lparr>
      rs_handlers := (rs_handlers (ts_rpc s))(rs_next (ts_rpc s) \<mapsto> new_read_handler, r \<mapsto> ?h),
      rs_next := Suc (rs_next (ts_rpc s))\<rparr>,
    ts_tid_to_nodes := note_node (ts_tid_to_nodes s) tid (getNode key),
    ts_events := (ts_events s)(ts_next_event s \<mapsto> \<lparr>se_kind = TREAD, se_rid = r, se_phase = 0\<rparr>),
    ts_next_event := Suc (ts_next_event s)\<rparr>"
  have "arrive s (r, Some (MRead \<lparr>rq_tid = tid, rq_start_ts = ts, rq_key = key\<rparr>)) = Inr (s', Some (ts_next_event s))"
    using l n ne
    by (simp add: arrive_def listens_def getEvent_round_def tryDequeue_def asyncNextRequest_def process_tag_def
        receive_def getRequest_def request_of_def prepareNextRequest_def take_request_def getArgs_defs
        new_handler_defs dispatch_def dispatch_read_def args_of_def set_args_def note_tid_def lock_tid_def
        make_event_def new_event_def Let_def fun_upd_twist s'_def)
  moreover have "ready s' (ts_next_event s) \<lparr>se_kind = TREAD, se_rid = r, se_phase = 0\<rparr> (ARead ?a)"
    by (simp add: ready_def s'_def request_of_def new_handler_defs)
  moreover have "ready s' ev2 e2 args" if "ev2 \<noteq> ts_next_event s" "se_rid e2 \<noteq> r" "ready s ev2 e2 args" for ev2 e2 args
  proof -
    have "se_rid e2 \<noteq> rs_next (ts_rpc s)" using that(3) l by (auto simp: ready_def listens_def)
    with that show ?thesis by (simp add: ready_def s'_def)
  qed
  ultimately show ?thesis by fastforce
qed

lemma prepared_state_same: "same_data s s' \<Longrightarrow> prepared_state s' = prepared_state s"
  using same_data_get [of s s'] same_data_getKeys [of s s']
  by (simp add: prepared_state_def fully_locked_def unawaited_def same_data_def cong: option.case_cong)

lemma contended:
  "\<exists>s e e2. server_inv s \<and> registered (ts_locks s) = {} \<and> prepared_state s
    \<and> ready s 2 e (AP2C (decide_args vote)) \<and> ready s 3 e2 (ARead (read_args 5)) \<and> se_rid e2 \<noteq> se_rid e"
proof -
  have "case play main_server [write_7, prepare_3] of
      Some s0 \<Rightarrow> on_event (arrive s0 (decide v)) (\<lambda>s ev e. ev = 2 \<and> no_reads s \<and> prepared_state s
        \<and> ready s 2 e (AP2C (decide_args v)) \<and> listens s 1 \<and> getNode 5 \<in> set (ts_nodes s)
        \<and> ts_next_event s = 3 \<and> se_rid e \<noteq> 1)
    | None \<Rightarrow> False" if "v = True \<or> v = False" for v
    using that by (elim disjE; hypsubst) code_simp+
  from this [of vote] obtain s0 where s0: "play main_server [write_7, prepare_3] = Some s0"
    "on_event (arrive s0 (decide vote)) (\<lambda>s ev e. ev = 2 \<and> no_reads s \<and> prepared_state s
        \<and> ready s 2 e (AP2C (decide_args vote)) \<and> listens s 1 \<and> getNode 5 \<in> set (ts_nodes s)
        \<and> ts_next_event s = 3 \<and> se_rid e \<noteq> 1)"
    by (auto split: option.splits simp del: play.simps)
  from s0(2) obtain s1 e where s1: "arrive s0 (decide vote) = Inr (s1, Some 2)" "no_reads s1"
    "prepared_state s1" "ready s1 2 e (AP2C (decide_args vote))" "listens s1 1" "getNode 5 \<in> set (ts_nodes s1)"
    "ts_next_event s1 = 3" "se_rid e \<noteq> 1"
    by (elim on_eventE) auto
  from arrive_read [OF s1(5,6), of 2 5] s1(4,7,8) obtain s e2 where
    s: "arrive s1 (read_at 1 5) = Inr (s, Some 3)" "ready s 3 e2 (ARead (read_args 5))" "se_rid e2 = 1"
      "ready s 2 e (AP2C (decide_args vote))"
    by (auto simp: read_at_def read_args_def)
  have "server_inv s0" by (rule play_inv [OF s0(1) start_inv])
  then have inv1: "server_inv s1" by (rule arrive_inv [OF s1(1), rotated]) (simp add: arrival_ok_def decide_def)
  then have inv: "server_inv s" by (rule arrive_inv [OF s(1), rotated]) (simp add: arrival_ok_def read_at_def)
  have "polled s1 s" using s(1) unfolding arrive_def by (rule polled_round)
  then have sd: "same_data s1 s" by (simp add: polled_def)
  then have "ts_locks s = ts_locks s1" by (simp add: same_data_def)
  with registered_no_reads [OF inv1 s1(2)] have "registered (ts_locks s) = {}" by simp
  with s inv s1(3,8) prepared_state_same [OF sd] show ?thesis by metis
qed

text \<open>Transaction 1 is about to prepare.\<close>

lemma preparing:
  "\<exists>s e. server_inv s \<and> ready s 1 e (AP1C prepare_args) \<and> preparable s 1 3 \<and> getKeys s 1 = [5]
    \<and> fst (lock_at (ts_locks s) 5 3) = FREE"
proof -
  have "case play main_server [write_7] of
      Some s0 \<Rightarrow> on_event (arrive s0 prepare_3) (\<lambda>s ev e. ev = 1 \<and> ready s 1 e (AP1C prepare_args)
        \<and> preparable s 1 3 \<and> getKeys s 1 = [5] \<and> fst (lock_at (ts_locks s) 5 3) = FREE)
    | None \<Rightarrow> False"
    by code_simp
  then obtain s0 where s0: "play main_server [write_7] = Some s0"
    "on_event (arrive s0 prepare_3) (\<lambda>s ev e. ev = 1 \<and> ready s 1 e (AP1C prepare_args)
        \<and> preparable s 1 3 \<and> getKeys s 1 = [5] \<and> fst (lock_at (ts_locks s) 5 3) = FREE)"
    by (auto split: option.splits simp del: play.simps)
  have inv0: "server_inv s0" by (rule play_inv [OF s0(1) start_inv])
  from s0(2) obtain s e where s: "arrive s0 prepare_3 = Inr (s, Some 1)"
    "ready s 1 e (AP1C prepare_args)" "preparable s 1 3" "getKeys s 1 = [5]" "fst (lock_at (ts_locks s) 5 3) = FREE"
    by (elim on_eventE) blast
  have "server_inv s" by (rule arrive_inv [OF s(1) _ inv0]) (simp add: arrival_ok_def prepare_3_def)
  with s show ?thesis by blast
qed

text \<open>Transaction 1 is prepared; \<^const>\<open>play\<close> is a run.\<close>

lemma prepared_run:
  "\<exists>s. server_run getNode main_server s \<and> lock_at (ts_locks s) 5 3 = (WRITE_LOCK, {1})"
proof -
  have "case play main_server [write_7, prepare_3] of
      Some s \<Rightarrow> lock_at (ts_locks s) 5 3 = (WRITE_LOCK, {1}) | None \<Rightarrow> False"
    by code_simp
  then show ?thesis using play_run by (auto split: option.splits simp del: play.simps)
qed

end
