(* ===== verification/Server_Theorems.thy ===== *)
theory Server_Theorems
  imports Server_Scenario
begin

text \<open>
  The properties of the transaction server: what each event does to the data and which reply
  it sends, what holds in every reachable state, and where the server breaks down.
\<close>

section \<open>Events that are about to run, and replies\<close>

definition replied :: "tserver \<Rightarrow> rid \<Rightarrow> reply_msg \<Rightarrow> bool" where
  "replied s r m \<longleftrightarrow>
     (case rs_handlers (ts_rpc s) r of
        None \<Rightarrow> False
      | Some h \<Rightarrow> hd_status h = FINISH \<and> hd_reply h = Some m)"

text \<open>A handler that is being processed, with given arguments.\<close>

definition processing :: "tserver \<Rightarrow> rid \<Rightarrow> handler_args \<Rightarrow> bool" where
  "processing s r args \<longleftrightarrow>
     (case rs_handlers (ts_rpc s) r of
        None \<Rightarrow> False
      | Some h \<Rightarrow> hd_status h = PROCESS \<and> hd_args h = args)"

lemma processing_set_args: "processing s r args \<Longrightarrow> processing (set_args s r args') r args'"
  by (auto simp: processing_def set_args_def split: option.splits)

lemma processing_cong: "ts_rpc s' = ts_rpc s \<Longrightarrow> processing s' r args = processing s r args"
  by (simp add: processing_def)

lemma set_phase_rpc [simp]: "ts_rpc (set_phase s ev p) = ts_rpc s"
  by (simp add: set_phase_def split: option.split)

lemma processing_set_phase [simp]: "processing (set_phase s ev p) r args = processing s r args"
  by (rule processing_cong) simp

lemma processing_simps [simp]:
  "processing (finalize s tid vote) r args = processing s r args"
  "processing (prepare s tid ts) r args = processing s r args"
  "processing (s\<lparr>ts_locks := m\<rparr>) r args = processing s r args"
  by (simp_all add: processing_def)

text \<open>Sending a reply from complete arguments works.\<close>

fun reply_for :: "handler_args \<Rightarrow> reply_msg option" where
  "reply_for (ARead a) = Option.bind (rr_value a) (\<lambda>v. map_option (\<lambda>st. RRead \<lparr>rp_value = v, rp_status = st\<rparr>) (rr_status a))"
| "reply_for (AWrite a) = map_option (\<lambda>st. RWrite \<lparr>wp_status = st\<rparr>) (rw_status a)"
| "reply_for (AP1C a) = map_option (\<lambda>vote. RP1C \<lparr>p1p_node = rp1_nodes a, p1p_vote = vote\<rparr>) (rp1_vote a)"
| "reply_for (AP2C a) = Some (RP2C \<lparr>p2p_node = rp2_nodes a\<rparr>)"

lemma setReply_complete:
  "hd_status h = PROCESS \<Longrightarrow> reply_for (hd_args h) = Some m \<Longrightarrow> setReply h = Inr (finish_reply h m)"
  by (cases "hd_args h") (auto simp: setReply_defs bind_eq_Some_conv)

lemma sendReply_complete:
  assumes "processing s r args" "reply_for args = Some m"
  shows "\<exists>s'. server_sendReply s r = Inr s' \<and> replied s' r m \<and> same_data s s' \<and> ts_events s' = ts_events s
    \<and> (\<forall>r'. r' \<noteq> r \<longrightarrow> rs_handlers (ts_rpc s') r' = rs_handlers (ts_rpc s) r')"
proof -
  from assms(1) obtain h where h: "rs_handlers (ts_rpc s) r = Some h" "hd_status h = PROCESS" "hd_args h = args"
    by (auto simp: processing_def split: option.splits)
  with setReply_complete [of h m] assms(2) have "server_sendReply s r
      = Inr (s\<lparr>ts_rpc := (ts_rpc s)\<lparr>rs_handlers := (rs_handlers (ts_rpc s))(r \<mapsto> finish_reply h m)\<rparr>\<rparr>)"
    by (simp add: server_sendReply_def sendReply_def)
  then show ?thesis by (simp add: replied_def same_data_def finish_reply_def)
qed

lemma run_event_ready:
  assumes "ready s ev e args"
  shows "run_event (Suc d) s ev =
    (case args of
       ARead a \<Rightarrow> run_read s ev e a
     | AWrite a \<Rightarrow> run_write s ev e a
     | AP1C a \<Rightarrow> run_p1c s ev e a
     | AP2C a \<Rightarrow> run_p2c (run_event d) s ev e a)"
  using assms by (auto simp: ready_def args_of_def request_of_def split: handler_args.splits option.splits)

lemma ready_processing: "ready s ev e args \<Longrightarrow> processing s (se_rid e) args"
  by (auto simp: ready_def processing_def split: option.splits)

lemma ready_allowed: "ready s ev e args \<Longrightarrow> event_allowed s ev = args_allowed s args"
  by (auto simp: ready_def event_allowed_def args_of_def split: option.splits)

lemma ready_phase: "ready s ev e args \<Longrightarrow> se_phase e = 0"
  by (simp add: ready_def)

text \<open>An event stays ready while other events run with other handlers.\<close>

lemma ready_other:
  assumes "ready s ev e args" "ev \<noteq> ev'" "se_rid e \<noteq> r"
    and "ts_events s' = ts_events (set_phase s ev' p)"
    and "\<forall>r'. r' \<noteq> r \<longrightarrow> rs_handlers (ts_rpc s') r' = rs_handlers (ts_rpc s) r'"
  shows "ready s' ev e args"
proof -
  have "ts_events s' ev = ts_events s ev"
    using assms(2,4) by (simp add: set_phase_def split: option.split)
  with assms(1,3,5) show ?thesis by (simp add: ready_def)
qed

section \<open>Reads\<close>

text \<open>The last time before \<open>ts\<close> that is locked for writing or committed.\<close>

definition latest_write :: "tserver \<Rightarrow> u64 \<Rightarrow> u64 \<Rightarrow> u64 \<Rightarrow> bool" where
  "latest_write s key ts stop \<longleftrightarrow> stop < ts
     \<and> fst (lock_at (ts_locks s) key stop) \<in> {WRITE_LOCK, FREEZE_WRITE_LOCK}
     \<and> (\<forall>t. stop < t \<and> t < ts \<longrightarrow> passes True (fst (lock_at (ts_locks s) key t)))"

lemma latest_write_unique:
  assumes "latest_write s key ts t1" "latest_write s key ts t2"
  shows "t1 = t2"
proof -
  have "\<not> passes True st" if "st \<in> {WRITE_LOCK, FREEZE_WRITE_LOCK}" for st
    using that by (auto simp: passes_def)
  with assms show ?thesis unfolding latest_write_def by (metis linorder_neqE)
qed

text \<open>Running a read up to the point where it has its locks.\<close>

lemma read_acquires:
  assumes inv: "server_inv s" and rd: "ready s ev e (ARead a)"
    and lw: "latest_write s (ra_key (rr_args a)) (ra_start_ts (rr_args a)) stop"
  shows "\<exists>m'. run_event 2 s ev =
      (let s1 = set_args (s\<lparr>ts_locks := m'\<rparr>) (se_rid e)
                  (ARead (a\<lparr>rr_args := (rr_args a)\<lparr>ra_start_ts := stop + 1\<rparr>\<rparr>))
       in if committed s (ra_key (rr_args a)) stop
          then read_phase_1 (set_phase s1 ev 1) ev e (a\<lparr>rr_args := (rr_args a)\<lparr>ra_start_ts := stop + 1\<rparr>\<rparr>)
          else Inr s1)
    \<and> (\<forall>t. stop < t \<and> t < ra_start_ts (rr_args a) \<longrightarrow>
         read_protected (ra_tid (rr_args a)) (lock_at m' (ra_key (rr_args a)) t))
    \<and> (fst (lock_at (ts_locks s) (ra_key (rr_args a)) stop) = WRITE_LOCK \<longrightarrow>
         ev \<in> set (waiters m' (ra_key (rr_args a)) stop))
    \<and> lock_at m' (ra_key (rr_args a)) stop = lock_at (ts_locks s) (ra_key (rr_args a)) stop
    \<and> registered m' \<subseteq> insert ev (registered (ts_locks s))
    \<and> (committed s (ra_key (rr_args a)) stop \<longrightarrow> registered m' = registered (ts_locks s))
    \<and> (\<forall>k t. lock_at m' k t = (if k = ra_key (rr_args a) \<and> stop < t \<and> t < ra_start_ts (rr_args a)
          then acquire True (ra_tid (rr_args a)) (lock_at (ts_locks s) k t) else lock_at (ts_locks s) k t))"
proof -
  let ?key = "ra_key (rr_args a)" and ?ts = "ra_start_ts (rr_args a)" and ?tid = "ra_tid (rr_args a)"
  have nz: "?ts \<noteq> 0" using lw by (auto simp: latest_write_def)
  from read_locks [OF server_inv_data [OF inv] nz, of ?key ?tid ev ?ts] obtain m' stop' where
    t: "tryBackwardLock (ts_locks s) ?key ?tid (?ts - 1) True ev ?ts
      = Some (m', fst (lock_at (ts_locks s) ?key stop') \<noteq> WRITE_LOCK, stop' + 1)"
    "stop' < ?ts" "fst (lock_at (ts_locks s) ?key stop') \<in> {WRITE_LOCK, FREEZE_WRITE_LOCK}"
    "\<forall>t. stop' < t \<and> t < ?ts \<longrightarrow>
      passes True (fst (lock_at (ts_locks s) ?key t)) \<and> read_protected ?tid (lock_at m' ?key t)"
    "lock_at m' ?key stop' = lock_at (ts_locks s) ?key stop'"
    "fst (lock_at (ts_locks s) ?key stop') = WRITE_LOCK \<longrightarrow> ev \<in> set (waiters m' ?key stop')"
    "registered m' \<subseteq> insert ev (registered (ts_locks s))"
    "fst (lock_at (ts_locks s) ?key stop') \<noteq> WRITE_LOCK \<longrightarrow> registered m' = registered (ts_locks s)"
    "\<forall>k t. lock_at m' k t = (if k = ?key \<and> stop' < t \<and> t < ?ts
          then acquire True ?tid (lock_at (ts_locks s) k t) else lock_at (ts_locks s) k t)" by blast
  from t(2-4) have "latest_write s ?key ?ts stop'" by (simp add: latest_write_def)
  with lw have [simp]: "stop' = stop" by (rule latest_write_unique [rotated])
  have c: "fst (lock_at (ts_locks s) ?key stop) \<noteq> WRITE_LOCK \<longleftrightarrow> committed s ?key stop"
    using t(3) by (auto simp: committed_def)
  have "run_event 2 s ev = run_read s ev e a"
    using run_event_ready [OF rd, of "Suc 0"] by (simp add: numeral_2_eq_2)
  with t(1) ready_phase [OF rd] c show ?thesis
    using t(4-9) by (intro exI [of _ m']) (simp add: run_read_def Let_def)
qed

lemma read_event_ok:
  assumes "server_inv s" "ready s ev e (ARead a)" "rr_status a = Some st"
    and "latest_write s (ra_key (rr_args a)) (ra_start_ts (rr_args a)) stop"
    and "committed s (ra_key (rr_args a)) stop"
  shows "\<exists>s' v. run_event 2 s ev = Inr s' \<and> get s (ra_key (rr_args a)) stop = Some v
    \<and> replied s' (se_rid e) (RRead \<lparr>rp_value = v, rp_status = st\<rparr>)
    \<and> server_inv s' \<and> get s' = get s
    \<and> (\<forall>t. stop < t \<and> t < ra_start_ts (rr_args a) \<longrightarrow>
         read_protected (ra_tid (rr_args a)) (lock_at (ts_locks s') (ra_key (rr_args a)) t))
    \<and> same_data (s\<lparr>ts_locks := ts_locks s'\<rparr>) s' \<and> registered (ts_locks s') = registered (ts_locks s)
    \<and> (\<forall>k t. lock_at (ts_locks s') k t = (if k = ra_key (rr_args a) \<and> stop < t \<and> t < ra_start_ts (rr_args a)
          then acquire True (ra_tid (rr_args a)) (lock_at (ts_locks s) k t) else lock_at (ts_locks s) k t))"
proof -
  let ?key = "ra_key (rr_args a)"
  define a1 where "a1 = a\<lparr>rr_args := (rr_args a)\<lparr>ra_start_ts := stop + 1\<rparr>\<rparr>"
  from read_acquires [OF assms(1,2,4)] assms(5) obtain m' where
    run: "run_event 2 s ev = read_phase_1 (set_phase (set_args (s\<lparr>ts_locks := m'\<rparr>) (se_rid e) (ARead a1)) ev 1) ev e a1"
    and prot: "\<forall>t. stop < t \<and> t < ra_start_ts (rr_args a) \<longrightarrow>
         read_protected (ra_tid (rr_args a)) (lock_at m' ?key t)"
    and table: "registered m' = registered (ts_locks s)"
      "\<forall>k t. lock_at m' k t = (if k = ?key \<and> stop < t \<and> t < ra_start_ts (rr_args a)
          then acquire True (ra_tid (rr_args a)) (lock_at (ts_locks s) k t) else lock_at (ts_locks s) k t)"
    by (auto simp: a1_def Let_def simp del: run_event.simps)
  from data_inv_stored [OF server_inv_data [OF assms(1)] assms(5)] obtain v where v: "get s ?key stop = Some v" by blast
  define s1 where "s1 = set_phase (set_phase (set_args (s\<lparr>ts_locks := m'\<rparr>) (se_rid e) (ARead a1)) ev 1) ev 2"
  define s2 where "s2 = set_args s1 (se_rid e) (ARead (a1\<lparr>rr_value := Some v\<rparr>))"
  have d1: "same_data (s\<lparr>ts_locks := m'\<rparr>) s1"
    unfolding s1_def by (meson same_data_set_args same_data_set_phase same_data_trans)
  have g1: "get s1 = get s" using same_data_get [OF d1] by simp
  have d2: "same_data (s\<lparr>ts_locks := m'\<rparr>) s2"
    unfolding s2_def using d1 same_data_set_args same_data_trans by blast
  have "processing (s\<lparr>ts_locks := m'\<rparr>) (se_rid e) (ARead a)"
    using ready_processing [OF assms(2)] by (simp add: processing_def)
  then have "processing s1 (se_rid e) (ARead a1)" by (simp add: s1_def processing_set_args)
  then have p2: "processing s2 (se_rid e) (ARead (a1\<lparr>rr_value := Some v\<rparr>))"
    unfolding s2_def by (rule processing_set_args)
  have "reply_for (ARead (a1\<lparr>rr_value := Some v\<rparr>)) = Some (RRead \<lparr>rp_value = v, rp_status = st\<rparr>)"
    using assms(3) by (simp add: a1_def)
  from sendReply_complete [OF p2 this] obtain s' where
    s': "server_sendReply s2 (se_rid e) = Inr s'" "replied s' (se_rid e) (RRead \<lparr>rp_value = v, rp_status = st\<rparr>)"
    "same_data s2 s'" by blast
  have "run_event 2 s ev = Inr s'"
    using run s'(1) v g1 by (simp add: read_phase_1_def Let_def s1_def s2_def a1_def del: run_event.simps)
  moreover have "server_inv s'"
  proof -
    have "event_allowed s ev" using ready_allowed [OF assms(2)] by (simp add: args_allowed_def)
    from run_event_safe [OF \<open>run_event 2 s ev = Inr s'\<close> assms(1) this] show ?thesis by (simp add: safe_step_def)
  qed
  moreover have "get s' = get s" using same_data_get [OF same_data_trans [OF d2 s'(3)]] by simp
  moreover have m': "ts_locks s' = m'" using same_data_trans [OF d2 s'(3)] by (simp add: same_data_def)
  moreover have "same_data (s\<lparr>ts_locks := m'\<rparr>) s'" by (rule same_data_trans [OF d2 s'(3)])
  ultimately show ?thesis using v s'(2) prot table by blast
qed

text \<open>
  C7: a read returns the latest committed version before its start time: when no time in
  between is locked for writing, the event of the read runs to its end, replies with the value
  stored for that version, and leaves every later time up to its start protected against
  writes.  The stored versions do not change.
\<close>
theorem read_returns_latest_version:
  assumes "server_inv s" "ready s ev e (ARead a)" "rr_status a = Some st"
    and "latest_write s (ra_key (rr_args a)) (ra_start_ts (rr_args a)) stop"
    and "committed s (ra_key (rr_args a)) stop"
  shows "\<exists>s' v. run_event 2 s ev = Inr s' \<and> get s (ra_key (rr_args a)) stop = Some v
    \<and> replied s' (se_rid e) (RRead \<lparr>rp_value = v, rp_status = st\<rparr>)
    \<and> server_inv s' \<and> get s' = get s
    \<and> (\<forall>t. stop < t \<and> t < ra_start_ts (rr_args a) \<longrightarrow>
         read_protected (ra_tid (rr_args a)) (lock_at (ts_locks s') (ra_key (rr_args a)) t))"
  using read_event_ok [OF assms] by blast

text \<open>The first read of a new server.\<close>

lemma first_read:
  "\<exists>s ev e. server_inv s \<and> ready s ev e (ARead (read_args 9)) \<and> same_data main_server s"
proof -
  have "on_event (arrive main_server (read_at 1 9)) (\<lambda>s ev e. ready s ev e (ARead (read_args 9)))"
    by code_simp
  then obtain s ev e where s: "arrive main_server (read_at 1 9) = Inr (s, Some ev)"
    "ready s ev e (ARead (read_args 9))" by (elim on_eventE)
  from s(1) have "polled main_server s" unfolding arrive_def by (rule polled_round)
  moreover have "server_inv s" by (rule arrive_inv [OF s(1) _ start_inv]) (simp add: arrival_ok_def read_at_def)
  ultimately show ?thesis using s(2) by (auto simp: polled_def)
qed

lemma start_locks: "same_data main_server s \<Longrightarrow> lock_at (ts_locks s) k t = initial_cell t"
  by (simp add: same_data_def main_server_def new_tserver_def lock_at_def lm_init_def)

theorem read_returns_latest_version_witness:
  "\<exists>s s' ev r. run_event 2 s ev = Inr s'
    \<and> replied s' r (RRead \<lparr>rp_value = ''0'', rp_status = True\<rparr>)
    \<and> read_protected 2 (lock_at (ts_locks s') 5 8)"
proof -
  from first_read obtain s ev e where s: "server_inv s" "ready s ev e (ARead (read_args 9))" "same_data main_server s"
    by blast
  note l = start_locks [OF s(3)]
  have a: "rr_status (read_args 9) = Some True" "ra_key (rr_args (read_args 9)) = 5"
    "ra_start_ts (rr_args (read_args 9)) = 9" "ra_tid (rr_args (read_args 9)) = 2"
    by (simp_all add: read_args_def)
  have "latest_write s 5 9 0" "committed s 5 0"
    by (auto simp: latest_write_def committed_def l initial_cell_def passes_def)
  with read_returns_latest_version [OF s(1,2) a(1), of 0] a obtain s' v where
    r: "run_event 2 s ev = Inr s'" "get s 5 0 = Some v"
    "replied s' (se_rid e) (RRead \<lparr>rp_value = v, rp_status = True\<rparr>)"
    "\<forall>t. 0 < t \<and> t < 9 \<longrightarrow> read_protected 2 (lock_at (ts_locks s') 5 t)"
    by (auto simp del: run_event.simps)
  have "v = ''0''" using r(2) by (simp add: get_def)
  have "read_protected 2 (lock_at (ts_locks s') 5 8)" using r(4) [rule_format, of 8] by simp
  moreover from r(3) have "replied s' (se_rid e) (RRead \<lparr>rp_value = ''0'', rp_status = True\<rparr>)"
    unfolding \<open>v = ''0''\<close> .
  ultimately show ?thesis using r(1) by blast
qed

lemma contended_latest: "prepared_state s \<Longrightarrow> latest_write s 5 5 3"
proof -
  assume p: "prepared_state s"
  have "t = 4" if "3 < t" "t < 5" for t :: u64
  proof -
    have "unat t = 4" using that by (simp add: word_less_nat_alt)
    then show ?thesis by (simp add: word_unat_eq_iff)
  qed
  with p show ?thesis by (auto simp: latest_write_def prepared_state_def)
qed

text \<open>
  C14: a read that meets a write lock waits: its event goes back to phase 0 with the start time
  just after the lock, sends no reply, and is registered with that lock.
\<close>
theorem read_waits_for_writer:
  assumes "server_inv s" "ready s ev e (ARead a)"
    and "latest_write s (ra_key (rr_args a)) (ra_start_ts (rr_args a)) stop"
    and "\<not> committed s (ra_key (rr_args a)) stop"
  shows "\<exists>s'. run_event 2 s ev = Inr s' \<and> server_inv s' \<and> get s' = get s
    \<and> ready s' ev e (ARead (a\<lparr>rr_args := (rr_args a)\<lparr>ra_start_ts := stop + 1\<rparr>\<rparr>))
    \<and> ev \<in> set (waiters (ts_locks s') (ra_key (rr_args a)) stop)
    \<and> (\<exists>writer. lock_at (ts_locks s') (ra_key (rr_args a)) stop = (WRITE_LOCK, {writer}))"
proof -
  let ?key = "ra_key (rr_args a)"
  let ?a1 = "a\<lparr>rr_args := (rr_args a)\<lparr>ra_start_ts := stop + 1\<rparr>\<rparr>"
  from assms(3,4) have w: "fst (lock_at (ts_locks s) ?key stop) = WRITE_LOCK"
    by (auto simp: latest_write_def committed_def)
  from read_acquires [OF assms(1-3)] assms(4) w obtain m' where
    run: "run_event 2 s ev = Inr (set_args (s\<lparr>ts_locks := m'\<rparr>) (se_rid e) (ARead ?a1))"
    and m': "ev \<in> set (waiters m' ?key stop)" "lock_at m' ?key stop = lock_at (ts_locks s) ?key stop"
    by (auto simp: Let_def simp del: run_event.simps)
  let ?s' = "set_args (s\<lparr>ts_locks := m'\<rparr>) (se_rid e) (ARead ?a1)"
  have d: "same_data (s\<lparr>ts_locks := m'\<rparr>) ?s'" by simp
  have "event_allowed s ev" using ready_allowed [OF assms(2)] by (simp add: args_allowed_def)
  from run_event_safe [OF run assms(1) this] have "server_inv ?s'" by (simp add: safe_step_def)
  moreover have "get ?s' = get s" using same_data_get [OF d] by simp
  moreover have "ready ?s' ev e (ARead ?a1)"
    using assms(2) by (auto simp: ready_def set_args_def request_of_def split: option.splits)
  moreover have "ts_locks ?s' = m'" using d by (simp add: same_data_def)
  ultimately show ?thesis
    using run m' write_lock_holder [OF server_inv_data [OF assms(1)] w] by auto
qed

theorem read_waits_for_writer_witness:
  "\<exists>s s' e. run_event 2 s 3 = Inr s' \<and> ready s' 3 e (ARead ((read_args 5)\<lparr>rr_args := \<lparr>ra_tid = 2, ra_start_ts = 4, ra_key = 5\<rparr>\<rparr>))
    \<and> 3 \<in> set (waiters (ts_locks s') 5 3)"
proof -
  from contended [of True] obtain s e2 where s: "server_inv s" "prepared_state s" "ready s 3 e2 (ARead (read_args 5))"
    by blast
  have a: "ra_key (rr_args (read_args 5)) = 5" "ra_start_ts (rr_args (read_args 5)) = 5" by (simp_all add: read_args_def)
  have "\<not> committed s 5 3" using s(2) by (simp add: prepared_state_def committed_def)
  with read_waits_for_writer [OF s(1,3), of 3] contended_latest [OF s(2)] a obtain s' where
    "run_event 2 s 3 = Inr s'" "3 \<in> set (waiters (ts_locks s') 5 3)"
    "ready s' 3 e2 (ARead ((read_args 5)\<lparr>rr_args := (rr_args (read_args 5))\<lparr>ra_start_ts := 4\<rparr>\<rparr>))"
    by (auto simp del: run_event.simps)
  moreover have "(rr_args (read_args 5))\<lparr>ra_start_ts := 4\<rparr> = \<lparr>ra_tid = 2, ra_start_ts = 4, ra_key = 5\<rparr>"
    by (simp add: read_args_def)
  ultimately show ?thesis by metis
qed

section \<open>Committing\<close>

lemma prepare_event_ok:
  assumes "server_inv s" "ready s ev e (AP1C a)"
    and "p1_start_ts (rp1_args a) = ts" "p1_commit_ts (rp1_args a) = ts" "p1_tid (rp1_args a) = tid"
    and "preparable s tid ts"
  shows "\<exists>s' vote. run_event 2 s ev = Inr s' \<and> server_inv s'
    \<and> replied s' (se_rid e) (RP1C \<lparr>p1p_node = insert_all (p1_write_nodes (rp1_args a))
          (insert_all (p1_read_nodes (rp1_args a)) (rp1_nodes a)), p1p_vote = vote\<rparr>)
    \<and> (vote \<longleftrightarrow> distinct (getKeys s tid) \<and> (\<forall>k\<in>set (getKeys s tid). fst (lock_at (ts_locks s) k ts) = FREE))
    \<and> ts_rdy_to_commit s' tid = Some ts \<and> getKeys s' tid = getKeys s tid \<and> (vote \<longrightarrow> fully_locked s' tid)
    \<and> (\<exists>m'. same_data (prepare (s\<lparr>ts_locks := m'\<rparr>) tid ts) s'
          \<and> lock_keys (ts_locks s) tid ts ts (getKeys s tid) = Some (m', vote))"
proof -
  let ?s1 = "set_phase s ev 1"
  have i1: "server_inv ?s1" using server_inv_frame [OF assms(1) frame_set_phase] by simp
  have "preparable ?s1 tid ts" using assms(6) by (simp add: preparable_def)
  from prepare_good [OF server_inv_data [OF i1] this] obtain m' vote where
    l: "lock_keys (ts_locks s) tid ts ts (getKeys s tid) = Some (m', vote)"
    "vote \<longleftrightarrow> distinct (getKeys s tid) \<and> (\<forall>k\<in>set (getKeys s tid). fst (lock_at (ts_locks s) k ts) = FREE)"
    "vote \<longrightarrow> (\<forall>k\<in>set (getKeys s tid). lock_at m' k ts = (WRITE_LOCK, {tid}))" by auto
  let ?nodes = "insert_all (p1_write_nodes (rp1_args a)) (insert_all (p1_read_nodes (rp1_args a)) (rp1_nodes a))"
  let ?a1 = "a\<lparr>rp1_nodes := ?nodes, rp1_vote := Some vote\<rparr>"
  let ?s2 = "prepare (set_args (?s1\<lparr>ts_locks := m'\<rparr>) (se_rid e) (AP1C ?a1)) tid ts"
  have "processing (?s1\<lparr>ts_locks := m'\<rparr>) (se_rid e) (AP1C a)"
    using ready_processing [OF assms(2)] by (simp add: processing_def)
  then have "processing ?s2 (se_rid e) (AP1C ?a1)"
    by (simp add: processing_set_args)
  from sendReply_complete [OF this, of "RP1C \<lparr>p1p_node = ?nodes, p1p_vote = vote\<rparr>"] obtain s' where
    s': "server_sendReply ?s2 (se_rid e) = Inr s'"
    "replied s' (se_rid e) (RP1C \<lparr>p1p_node = ?nodes, p1p_vote = vote\<rparr>)" "same_data ?s2 s'" by auto
  have "run_event 2 s ev = run_p1c s ev e a"
    using run_event_ready [OF assms(2), of "Suc 0"] by (simp add: numeral_2_eq_2)
  with l(1) s'(1) ready_phase [OF assms(2)] assms(3-5) have run: "run_event 2 s ev = Inr s'"
    by (simp add: run_p1c_def Let_def)
  have "event_allowed s ev" using ready_allowed [OF assms(2)] assms(3-6) by (simp add: args_allowed_def)
  from run_event_safe [OF run assms(1) this] have inv': "server_inv s'" by (simp add: safe_step_def)
  have "same_data (prepare (?s1\<lparr>ts_locks := m'\<rparr>) tid ts) ?s2"
    by (simp add: same_data_def prepare_def set_args_def split: option.split)
  from same_data_trans [OF this s'(3)] have d: "same_data (prepare (?s1\<lparr>ts_locks := m'\<rparr>) tid ts) s'" .
  have keys: "getKeys s' = getKeys s"
    using same_data_getKeys [OF d] by (simp add: getKeys_def fun_eq_iff) (simp add: set_phase_def split: option.split)
  from d have "ts_rdy_to_commit s' tid = Some ts" "ts_locks s' = m'" by (simp_all add: same_data_def)
  moreover have "same_data (prepare (s\<lparr>ts_locks := m'\<rparr>) tid ts) s'"
    using d by (simp add: same_data_def prepare_def set_phase_def split: option.splits)
  ultimately show ?thesis using l run inv' s'(2) keys
    by (intro exI [of _ s'] exI [of _ vote] conjI exI [of _ m']) (simp_all add: fully_locked_def list_all_iff del: run_event.simps)
qed

text \<open>
  C11: the first commit phase votes for the transaction exactly when its pending writes are to
  different keys and none of them is locked or read at the commit time; in any case the
  transaction is prepared, and a vote for it leaves all its writes locked.
\<close>
theorem first_phase_votes:
  assumes "server_inv s" "ready s ev e (AP1C a)"
    and "p1_start_ts (rp1_args a) = ts" "p1_commit_ts (rp1_args a) = ts" "p1_tid (rp1_args a) = tid"
    and "preparable s tid ts"
  shows "\<exists>s' vote. run_event 2 s ev = Inr s' \<and> server_inv s'
    \<and> replied s' (se_rid e) (RP1C \<lparr>p1p_node = insert_all (p1_write_nodes (rp1_args a))
          (insert_all (p1_read_nodes (rp1_args a)) (rp1_nodes a)), p1p_vote = vote\<rparr>)
    \<and> (vote \<longleftrightarrow> distinct (getKeys s tid) \<and> (\<forall>k\<in>set (getKeys s tid). fst (lock_at (ts_locks s) k ts) = FREE))
    \<and> ts_rdy_to_commit s' tid = Some ts \<and> getKeys s' tid = getKeys s tid \<and> (vote \<longrightarrow> fully_locked s' tid)"
  using prepare_event_ok [OF assms] by blast

theorem first_phase_votes_witness:
  "\<exists>s s' r. run_event 2 s 1 = Inr s' \<and> fully_locked s' 1
    \<and> replied s' r (RP1C \<lparr>p1p_node = [0], p1p_vote = True\<rparr>)"
proof -
  from preparing obtain s e where s: "server_inv s" "ready s 1 e (AP1C prepare_args)" "preparable s 1 3"
    "getKeys s 1 = [5]" "fst (lock_at (ts_locks s) 5 3) = FREE" by blast
  have n: "insert_all (p1_write_nodes (rp1_args prepare_args))
          (insert_all (p1_read_nodes (rp1_args prepare_args)) (rp1_nodes prepare_args)) = [0]"
    by (simp add: prepare_args_def insert_all_def set_insert_def insort_insert_key_def)
  have "p1_start_ts (rp1_args prepare_args) = 3" "p1_commit_ts (rp1_args prepare_args) = 3"
    "p1_tid (rp1_args prepare_args) = 1" by (simp_all add: prepare_args_def)
  from first_phase_votes [OF s(1,2) this s(3), unfolded n] obtain s' vote where
    r: "run_event 2 s 1 = Inr s'" "replied s' (se_rid e) (RP1C \<lparr>p1p_node = [0], p1p_vote = vote\<rparr>)"
    "vote \<longleftrightarrow> distinct (getKeys s 1) \<and> (\<forall>k\<in>set (getKeys s 1). fst (lock_at (ts_locks s) k 3) = FREE)"
    "vote \<longrightarrow> fully_locked s' 1" by blast
  have "vote = True" using r(3) s(4,5) by simp
  with r(1,2,4) show ?thesis by blast
qed

lemma commit_event_ok:
  assumes "server_inv s" "ready s ev e (AP2C a)" "p2_vote (rp2_args a)" "p2_tid (rp2_args a) = tid"
    and "ts_rdy_to_commit s tid = Some ts" "fully_locked s tid" "unawaited s tid"
  shows "\<exists>s'. run_event 2 s ev = Inr s' \<and> server_inv s'
    \<and> replied s' (se_rid e) (RP2C \<lparr>p2p_node = rp2_nodes a\<rparr>)
    \<and> (\<forall>k t. get s' k t = (if t = ts \<and> t \<noteq> 0 \<and> k \<in> set (getKeys s tid)
          then map_of (rev (the (ts_pend_writes s tid))) k else get s k t))
    \<and> (\<forall>k\<in>set (getKeys s tid). committed s' k ts)
    \<and> ts_rdy_to_commit s' tid = None \<and> getKeys s' tid = []
    \<and> (\<forall>k t. lock_at (ts_locks s') k t = freeze_cell tid (lock_at (ts_locks s) k t))
    \<and> (\<forall>ev2 e2 args. ready s ev2 e2 args \<longrightarrow> ev2 \<noteq> ev \<longrightarrow> se_rid e2 \<noteq> se_rid e \<longrightarrow> ready s' ev2 e2 args)"
proof -
  let ?s1 = "set_phase s ev 1"
  have i1: "server_inv ?s1" using server_inv_frame [OF assms(1) frame_set_phase] by simp
  have "fully_locked ?s1 tid" using assms(6) by simp
  from commit_good [OF server_inv_data [OF i1] this] obtain m' events where
    f: "freeze (ts_locks s) tid = Some (m', events)"
    "\<forall>k t. lock_at m' k t = freeze_cell tid (lock_at (ts_locks s) k t)" by auto
  with assms(7) have "events = []" by (simp add: unawaited_def)
  let ?m = "?s1\<lparr>ts_locks := m'\<rparr>"
  let ?s2 = "finalize ?m tid True"
  have "processing ?s2 (se_rid e) (AP2C a)"
    using ready_processing [OF assms(2)] by simp
  from sendReply_complete [OF this, of "RP2C \<lparr>p2p_node = rp2_nodes a\<rparr>"] obtain s' where
    s': "server_sendReply ?s2 (se_rid e) = Inr s'" "replied s' (se_rid e) (RP2C \<lparr>p2p_node = rp2_nodes a\<rparr>)"
    "same_data ?s2 s'" "ts_events s' = ts_events ?s1"
    "\<forall>r'. r' \<noteq> se_rid e \<longrightarrow> rs_handlers (ts_rpc s') r' = rs_handlers (ts_rpc s) r'" by auto
  have "run_event 2 s ev = run_p2c (run_event (Suc 0)) s ev e a"
    using run_event_ready [OF assms(2), of "Suc 0"] by (simp add: numeral_2_eq_2)
  with f(1) \<open>events = []\<close> s'(1) ready_phase [OF assms(2)] assms(3,4)
  have run: "run_event 2 s ev = Inr s'" by (simp add: run_p2c_def Let_def del: run_event.simps)
  have "event_allowed s ev" using ready_allowed [OF assms(2)] assms(3,4,6,7) by (simp add: args_allowed_def)
  from run_event_safe [OF run assms(1) this] have inv': "server_inv s'" by (simp add: safe_step_def)
  have sm: "same_data (s\<lparr>ts_locks := m'\<rparr>) ?m" by (simp add: same_data_def set_phase_def split: option.split)
  have keys: "getKeys ?m = getKeys s" "ts_rdy_to_commit ?m = ts_rdy_to_commit s" "get ?m = get s"
      "ts_pend_writes ?m = ts_pend_writes s"
    using same_data_getKeys [OF sm] same_data_get [OF sm] sm
    by (simp_all add: same_data_def) (simp add: getKeys_def fun_eq_iff)
  have "get s' k t = (if t = ts \<and> t \<noteq> 0 \<and> k \<in> set (getKeys s tid)
          then map_of (rev (the (ts_pend_writes s tid))) k else get s k t)" for k t
    unfolding same_data_get [OF s'(3)] get_finalize_commit keys using assms(5) by auto
  moreover have locks: "ts_locks s' = m'" using s'(3) by (simp add: same_data_def)
  moreover have "committed s' k ts" if "k \<in> set (getKeys s tid)" for k
    using fully_lockedD [OF assms(6,5) that] f(2) locks by (simp add: committed_def freeze_cell_def)
  moreover have "ts_rdy_to_commit s' tid = None"
    using s'(3) by (simp add: same_data_def finalize_prepared)
  moreover have "getKeys s' tid = []"
    unfolding same_data_getKeys [OF s'(3)] using assms(5)
    by (auto simp: finalize_def getKeys_def keys Let_def split: option.split)
  ultimately show ?thesis using run inv' s'(2) f(2) ready_other [OF _ _ _ s'(4,5)] by blast
qed

text \<open>
  C12: the second commit phase with a vote to commit, on a transaction whose writes are all
  locked and awaited by nobody: exactly its pending writes become stored versions at its
  commit time, all of them committed; the transaction is forgotten and the reply names the
  nodes it had touched.
\<close>
theorem commit_stores_pending_writes:
  assumes "server_inv s" "ready s ev e (AP2C a)" "p2_vote (rp2_args a)" "p2_tid (rp2_args a) = tid"
    and "ts_rdy_to_commit s tid = Some ts" "fully_locked s tid" "unawaited s tid"
  shows "\<exists>s'. run_event 2 s ev = Inr s' \<and> server_inv s'
    \<and> replied s' (se_rid e) (RP2C \<lparr>p2p_node = rp2_nodes a\<rparr>)
    \<and> (\<forall>k t. get s' k t = (if t = ts \<and> t \<noteq> 0 \<and> k \<in> set (getKeys s tid)
          then map_of (rev (the (ts_pend_writes s tid))) k else get s k t))
    \<and> (\<forall>k\<in>set (getKeys s tid). committed s' k ts)
    \<and> ts_rdy_to_commit s' tid = None \<and> getKeys s' tid = []
    \<and> (\<forall>k t. lock_at (ts_locks s') k t = freeze_cell tid (lock_at (ts_locks s) k t))"
  using commit_event_ok [OF assms] by blast

lemma prepared_stateD:
  assumes "prepared_state s"
  shows "ts_rdy_to_commit s 1 = Some 3" "fully_locked s 1" "unawaited s 1" "getKeys s 1 = [5]"
    "map_of (rev (the (ts_pend_writes s 1))) 5 = Some ''7''"
  using assms by (simp_all add: prepared_state_def getKeys_def)

lemma decide_simps [simp]:
  "p2_vote (rp2_args (decide_args vote)) = vote" "p2_tid (rp2_args (decide_args vote)) = 1"
  by (simp_all add: decide_args_def)

theorem commit_stores_pending_writes_witness:
  "\<exists>s s'. run_event 2 s 2 = Inr s' \<and> get s 5 3 = None \<and> get s' 5 3 = Some ''7'' \<and> committed s' 5 3"
proof -
  from contended [of True] obtain s e where s: "server_inv s" "prepared_state s" "ready s 2 e (AP2C (decide_args True))"
    by blast
  note p = prepared_stateD [OF s(2)]
  from commit_stores_pending_writes [OF s(1,3) decide_simps(1) [of True, THEN iffD2, OF TrueI] decide_simps(2) p(1-3)]
  obtain s' where r: "run_event 2 s 2 = Inr s'"
    "\<forall>k t. get s' k t = (if t = 3 \<and> t \<noteq> 0 \<and> k \<in> set (getKeys s 1)
          then map_of (rev (the (ts_pend_writes s 1))) k else get s k t)"
    "\<forall>k\<in>set (getKeys s 1). committed s' k 3" by blast
  have "get s' 5 3 = Some ''7''" "committed s' 5 3" using r(2,3) p(4,5) by simp_all
  moreover have "get s 5 3 = None" using s(2) by (simp add: prepared_state_def)
  ultimately show ?thesis using r(1) by (intro exI conjI) assumption+
qed

lemma abort_event_ok:
  assumes "server_inv s" "ready s ev e (AP2C a)" "\<not> p2_vote (rp2_args a)" "p2_tid (rp2_args a) = tid"
    and "\<not> shares_reads (ts_locks s) tid" "registered (ts_locks s) = {}"
  shows "\<exists>s'. run_event 2 s ev = Inr s' \<and> server_inv s'
    \<and> replied s' (se_rid e) (RP2C \<lparr>p2p_node = rp2_nodes a\<rparr>)
    \<and> get s' = get s \<and> ts_rdy_to_commit s' tid = None
    \<and> (\<forall>k t. lock_at (ts_locks s') k t =
          (if tid \<in> snd (lock_at (ts_locks s) k t) then (FREE, {}) else lock_at (ts_locks s) k t))"
proof -
  let ?s1 = "set_phase s ev 1"
  have i1: "server_inv ?s1" using server_inv_frame [OF assms(1) frame_set_phase] by simp
  have "\<not> shares_reads (ts_locks ?s1) tid" using assms(5) by simp
  from abort_good [OF server_inv_data [OF i1] this] obtain m' events where
    u: "unlock (ts_locks s) tid = Some (m', events)" "set events \<subseteq> registered (ts_locks s)"
    "\<forall>k t. lock_at m' k t = (if tid \<in> snd (lock_at (ts_locks s) k t) then (FREE, {}) else lock_at (ts_locks s) k t)"
    by auto
  with assms(6) have ev: "events = []" by simp
  let ?m = "?s1\<lparr>ts_locks := m'\<rparr>"
  let ?s2 = "finalize ?m tid False"
  have "processing ?s2 (se_rid e) (AP2C a)"
    using ready_processing [OF assms(2)] by simp
  from sendReply_complete [OF this, of "RP2C \<lparr>p2p_node = rp2_nodes a\<rparr>"] obtain s' where
    s': "server_sendReply ?s2 (se_rid e) = Inr s'" "replied s' (se_rid e) (RP2C \<lparr>p2p_node = rp2_nodes a\<rparr>)"
    "same_data ?s2 s'" by auto
  have "run_event 2 s ev = run_p2c (run_event (Suc 0)) s ev e a"
    using run_event_ready [OF assms(2), of "Suc 0"] by (simp add: numeral_2_eq_2)
  with u(1) ev s'(1) ready_phase [OF assms(2)] assms(3,4)
  have run: "run_event 2 s ev = Inr s'" by (simp add: run_p2c_def Let_def del: run_event.simps)
  have "event_allowed s ev" using ready_allowed [OF assms(2)] assms(3-5) by (simp add: args_allowed_def)
  from run_event_safe [OF run assms(1) this] have inv': "server_inv s'" by (simp add: safe_step_def)
  have "same_data (s\<lparr>ts_locks := m'\<rparr>) ?m" by (simp add: same_data_def set_phase_def split: option.split)
  from same_data_get [OF this] have "get ?m = get s" by simp
  then have "get s' = get s" using same_data_get [OF s'(3)] by (simp add: get_finalize_abort)
  moreover have "ts_rdy_to_commit s' tid = None" "ts_locks s' = m'"
    using s'(3) by (simp_all add: same_data_def finalize_prepared)
  ultimately show ?thesis using run inv' s'(2) u(3) by blast
qed


lemma prepared_sole:
  assumes "server_inv s" "prepared_state s"
  shows "\<not> shares_reads (ts_locks s) 1"
proof -
  have "k = 5 \<and> t = 3" if "1 \<in> snd (lock_at (ts_locks s) k t)" for k t
    using lm_inv_noted [OF data_inv_locks [OF server_inv_data [OF assms(1)]] that] assms(2)
    by (auto simp: noted_def prepared_state_def split: if_splits)
  with assms(2) show ?thesis by (force simp: shares_reads_def prepared_state_def)
qed


text \<open>
  A committed write is what the next reader gets: after the event of the second phase has
  run, a read of one of the written keys, with a later start time and no write lock or commit
  in between, replies with the last value that the transaction had written to that key.
\<close>
lemma commit_then_read:
  assumes "server_inv s" "ready s ev e (AP2C a)" "p2_vote (rp2_args a)" "p2_tid (rp2_args a) = tid"
    and "ts_rdy_to_commit s tid = Some ts" "fully_locked s tid" "unawaited s tid"
    and "run_event 2 s ev = Inr s1" "ready s1 ev2 e2 (ARead b)" "rr_status b = Some st"
    and "ra_key (rr_args b) = k" "k \<in> set (getKeys s tid)" "ts \<noteq> 0" "ts < ra_start_ts (rr_args b)"
    and "\<forall>t. ts < t \<and> t < ra_start_ts (rr_args b) \<longrightarrow> passes True (fst (lock_at (ts_locks s) k t))"
  shows "\<exists>s2 v. run_event 2 s1 ev2 = Inr s2 \<and> map_of (rev (the (ts_pend_writes s tid))) k = Some v
    \<and> replied s2 (se_rid e2) (RRead \<lparr>rp_value = v, rp_status = st\<rparr>)"
proof -
  from commit_event_ok [OF assms(1-7)] assms(8,12,13) have
    s1: "server_inv s1" "get s1 k ts = map_of (rev (the (ts_pend_writes s tid))) k" "committed s1 k ts"
    "\<forall>k t. lock_at (ts_locks s1) k t = freeze_cell tid (lock_at (ts_locks s) k t)"
    by (auto simp del: run_event.simps)
  have p: "passes True (fst (freeze_cell tid c))" if "passes True (fst c)" for c
    using that by (cases "fst c") (auto simp: freeze_cell_def passes_def)
  have "latest_write s1 (ra_key (rr_args b)) (ra_start_ts (rr_args b)) ts"
    using assms(11,14,15) s1(3,4) p by (simp add: latest_write_def committed_def)
  from read_event_ok [OF s1(1) assms(9,10) this] s1(2,3) assms(11) show ?thesis
    by (auto simp del: run_event.simps)
qed

lemma commit_then_read_witness:
  "\<exists>s1 s2 r. run_event 2 s1 3 = Inr s2 \<and> replied s2 r (RRead \<lparr>rp_value = ''7'', rp_status = True\<rparr>)"
proof -
  from contended [of True] obtain s e e2 where s: "server_inv s" "prepared_state s"
    "ready s 2 e (AP2C (decide_args True))" "ready s 3 e2 (ARead (read_args 5))" "se_rid e2 \<noteq> se_rid e" by blast
  note p = prepared_stateD [OF s(2)]
  from commit_event_ok [OF s(1,3) _ _ p(1-3)] s(4,5) obtain s1 where
    s1: "run_event 2 s 2 = Inr s1" "ready s1 3 e2 (ARead (read_args 5))"
    by (auto simp del: run_event.simps)
  have a: "rr_status (read_args 5) = Some True" "ra_key (rr_args (read_args 5)) = 5"
    "ra_start_ts (rr_args (read_args 5)) = 5" by (simp_all add: read_args_def)
  have "\<forall>t. 3 < t \<and> t < ra_start_ts (rr_args (read_args 5)) \<longrightarrow> passes True (fst (lock_at (ts_locks s) 5 t))"
    using contended_latest [OF s(2)] a(3) by (simp add: latest_write_def)
  from commit_then_read [OF s(1,3) _ _ p(1-3) s1 a(1,2) _ _ _ this] p(4,5) a(3) show ?thesis
    by (auto simp del: run_event.simps)
qed

section \<open>Where the server breaks down\<close>

text \<open>A read that is run when its version is frozen but not stored yet.\<close>

lemma read_before_store:
  assumes "lm_inv (ts_locks s)" "fst (lock_at (ts_locks s) (ra_key (rr_args a)) stop) = FREEZE_WRITE_LOCK"
    and "ra_start_ts (rr_args a) = stop + 1" "stop \<noteq> - 1" "se_phase e = 0"
    and "get s (ra_key (rr_args a)) stop = None"
  shows "run_read s ev e a = Inl NullPointer"
proof -
  let ?key = "ra_key (rr_args a)"
  from avl.backward_law [OF assms(1,4), of ?key "ra_tid (rr_args a)" True ev "stop + 1"] obtain m' stop' where
    t: "tryBackwardLock (ts_locks s) ?key (ra_tid (rr_args a)) stop True ev (stop + 1)
      = Some (m', \<not> waits True (fst (lock_at (ts_locks s) ?key stop')), stop' + 1)" "stop' \<le> stop"
    "\<forall>t. stop' < t \<and> t \<le> stop \<longrightarrow> passes True (fst (lock_at (ts_locks s) ?key t))" by blast
  have "stop' = stop"
    using t(2,3) assms(2) by (auto simp: passes_def order.order_iff_strict)
  moreover have "get (set_phase (set_phase (set_args (s\<lparr>ts_locks := m'\<rparr>) r x) ev 1) ev 2) = get s" for r x
    using same_data_get [of "s\<lparr>ts_locks := m'\<rparr>"]
    by (metis get_drop(4) same_data_set_args same_data_set_phase same_data_trans)
  ultimately show ?thesis
    using t(1) assms(2,3,5,6) by (simp add: run_read_def read_phase_1_def Let_def waits_def)
qed

text \<open>A commit that hands over a waiting read.\<close>

lemma commit_runs_waiting_read:
  assumes "server_inv s1" "ready s1 ev e (ARead a1)" "ready s1 ev2 e2 (AP2C b)" "p2_vote (rp2_args b)" "p2_tid (rp2_args b) = tid"
    and "lock_at (ts_locks s1) (ra_key (rr_args a1)) stop = (WRITE_LOCK, {tid})" "get s1 (ra_key (rr_args a1)) stop = None"
    and "ev \<in> set (waiters (ts_locks s1) (ra_key (rr_args a1)) stop)" "registered (ts_locks s1) \<subseteq> {ev}"
    and "ra_start_ts (rr_args a1) = stop + 1" "stop \<noteq> - 1"
  shows "run_event 2 s1 ev2 = Inl NullPointer"
proof -
  let ?key = "ra_key (rr_args a1)"
  from freeze_ok [OF data_inv_locks [OF server_inv_data [OF assms(1)]], of tid] obtain m'' events where
    f: "freeze (ts_locks s1) tid = Some (m'', events)" "lm_inv m''"
    "\<forall>k t. lock_at m'' k t = freeze_cell tid (lock_at (ts_locks s1) k t)"
    "\<forall>k t. tid \<in> snd (lock_at (ts_locks s1) k t) \<longrightarrow> set (waiters (ts_locks s1) k t) \<subseteq> set events" by blast
  have "tid \<in> snd (lock_at (ts_locks s1) ?key stop)" using assms(6) by simp
  with f(4) assms(8) have "ev \<in> set events" by blast
  with freeze_events [OF f(1)] assms(9) obtain rest where ev: "events = ev # rest"
    by (cases events) auto
  have ne: "ev2 \<noteq> ev" using assms(2,3) by (auto simp: ready_def request_of_def split: option.splits)
  let ?s2 = "(set_phase s1 ev2 1)\<lparr>ts_locks := m''\<rparr>"
  have rd: "ready ?s2 ev e (ARead a1)"
    using assms(2) ne by (auto simp: ready_def set_phase_def split: option.splits)
  have fz: "fst (lock_at m'' ?key stop) = FREEZE_WRITE_LOCK" using f(3) assms(6) by (simp add: freeze_cell_def)
  have "get ?s2 = get s1" using same_data_get [OF same_data_set_phase [of s1 ev2 1]] by simp
  then have "run_read ?s2 ev e a1 = Inl NullPointer"
    using f(2) fz assms(7,10,11) ready_phase [OF rd] by (intro read_before_store [of _ _ stop]) simp_all
  with run_event_ready [OF rd, of 0] have "run_event (Suc 0) ?s2 ev = Inl NullPointer" by simp
  then have "run_list (run_event (Suc 0)) ?s2 events = Inl NullPointer" by (simp add: ev del: run_event.simps)
  moreover have "run_event 2 s1 ev2 = run_p2c (run_event (Suc 0)) s1 ev2 e2 b"
    using run_event_ready [OF assms(3), of "Suc 0"] by (simp add: numeral_2_eq_2)
  ultimately show ?thesis
    using ready_phase [OF assms(3)] assms(4,5) f(1) by (simp add: run_p2c_def Let_def del: run_event.simps)
qed

text \<open>
  C15: a commit that somebody waits for brings the server down.  When a read has been refused
  because of a write lock and the holder of the lock commits, the second phase wakes the read
  inside \<open>freeze\<close>, before \<open>finalize\<close> has stored the version: the read finds the version
  committed but not stored and dereferences a null pointer.
\<close>
theorem awaited_commit_crashes:
  assumes "server_inv s" "registered (ts_locks s) = {}"
    and "ready s ev e (ARead a)" "latest_write s (ra_key (rr_args a)) (ra_start_ts (rr_args a)) stop"
    and "lock_at (ts_locks s) (ra_key (rr_args a)) stop = (WRITE_LOCK, {tid})"
    and "get s (ra_key (rr_args a)) stop = None"
    and "ready s ev2 e2 (AP2C b)" "p2_vote (rp2_args b)" "p2_tid (rp2_args b) = tid"
  shows "\<exists>s1. run_event 2 s ev = Inr s1 \<and> run_event 2 s1 ev2 = Inl NullPointer"
proof -
  let ?key = "ra_key (rr_args a)"
  let ?a1 = "a\<lparr>rr_args := (rr_args a)\<lparr>ra_start_ts := stop + 1\<rparr>\<rparr>"
  have nc: "\<not> committed s ?key stop" using assms(5) by (simp add: committed_def)
  from read_acquires [OF assms(1,3,4)] nc assms(2,5) obtain m' where
    run: "run_event 2 s ev = Inr (set_args (s\<lparr>ts_locks := m'\<rparr>) (se_rid e) (ARead ?a1))"
    and m': "ev \<in> set (waiters m' ?key stop)" "lock_at m' ?key stop = (WRITE_LOCK, {tid})" "registered m' \<subseteq> {ev}"
    by (auto simp: Let_def simp del: run_event.simps)
  define s1 where "s1 = set_args (s\<lparr>ts_locks := m'\<rparr>) (se_rid e) (ARead ?a1)"
  have locks1: "ts_locks s1 = m'" and get1: "get s1 = get s"
    using same_data_set_args [of "s\<lparr>ts_locks := m'\<rparr>" "se_rid e" "ARead ?a1"]
      same_data_get [OF same_data_set_args [of "s\<lparr>ts_locks := m'\<rparr>" "se_rid e" "ARead ?a1"]]
    by (simp_all add: s1_def same_data_def)
  have "event_allowed s ev" using ready_allowed [OF assms(3)] by (simp add: args_allowed_def)
  from run_event_safe [OF run [folded s1_def] assms(1) this] have inv1: "server_inv s1" by (simp add: safe_step_def)
  have ne: "se_rid e2 \<noteq> se_rid e" "ev2 \<noteq> ev" using assms(3,7) by (auto simp: ready_def request_of_def split: option.splits)
  have rd2: "ready s1 ev2 e2 (AP2C b)"
    using assms(3,7) ne by (auto simp: ready_def s1_def set_args_def split: option.splits)
  have rd1: "ready s1 ev e (ARead ?a1)"
    using assms(3) by (auto simp: ready_def s1_def set_args_def request_of_def split: option.splits)
  have "stop \<noteq> - 1" using assms(4) by (auto simp: latest_write_def)
  with commit_runs_waiting_read [OF inv1 rd1 rd2 assms(8,9), of stop] m' assms(6) locks1 get1
  have "run_event 2 s1 ev2 = Inl NullPointer" by (simp del: run_event.simps)
  with run show ?thesis by (auto simp: s1_def simp del: run_event.simps)
qed

theorem awaited_commit_crashes_witness:
  "\<exists>s s1. server_inv s \<and> run_event 2 s 3 = Inr s1 \<and> run_event 2 s1 2 = Inl NullPointer"
proof -
  from contended [of True] obtain s e e2 where s: "server_inv s" "registered (ts_locks s) = {}" "prepared_state s"
    "ready s 2 e (AP2C (decide_args True))" "ready s 3 e2 (ARead (read_args 5))" by blast
  have a: "ra_key (rr_args (read_args 5)) = 5" "ra_start_ts (rr_args (read_args 5)) = 5" by (simp_all add: read_args_def)
  from awaited_commit_crashes [OF s(1,2,5) _ _ _ s(4), of 3 1] contended_latest [OF s(3)] s(1,3) a show ?thesis
    by (auto simp: prepared_state_def simp del: run_event.simps)
qed

text \<open>
  What the threads of the server can do without any restriction: polls with whatever arrives,
  events run in any order at any depth, events added to the queue.  A thread that takes a request
  and then waits for a mutex leaves the request taken, with arguments it may have written to.
\<close>

inductive any_run :: "(u64 \<Rightarrow> u64) \<Rightarrow> tserver \<Rightarrow> tserver \<Rightarrow> bool" for mapper where
  any_done: "any_run mapper s s"
| any_poll: "any_run mapper s s1 \<Longrightarrow> getEvent_round mapper s1 arrs = Inr (s2, ev) \<Longrightarrow> any_run mapper s s2"
| any_event: "any_run mapper s s1 \<Longrightarrow> run_event d s1 ev = Inr s2 \<Longrightarrow> any_run mapper s s2"
| any_add: "any_run mapper s s1 \<Longrightarrow> server_addEvent s1 ev = Inr s2 \<Longrightarrow> any_run mapper s s2"
| any_wait: "any_run mapper s s1 \<Longrightarrow> asyncNextRequest (ts_rpc s1) arrs = Inr (rpc, Some (r, req)) \<Longrightarrow>
    dispatch mapper (s1\<lparr>ts_rpc := rpc\<rparr>) req r = Inl Deadlock \<Longrightarrow> request_of args = req \<Longrightarrow>
    any_run mapper s (set_args (s1\<lparr>ts_rpc := rpc\<rparr>) r args)"

lemma server_run_any: "server_run mapper s1 s2 \<Longrightarrow> any_run mapper s s1 \<Longrightarrow> any_run mapper s s2"
  by (induction rule: server_run.induct) (auto intro: any_poll any_event simp del: run_event.simps)

text \<open>Events do not touch the mutex.\<close>

definition tid_mutex :: "tserver \<Rightarrow> bool \<times> u64 list" where
  "tid_mutex s = (ts_tid_locked s, ts_nodes s)"

lemma tid_mutex_set_all [simp]: "tid_mutex (set_all s ts ws) = tid_mutex s"
  by (induction s ts ws rule: set_all.induct) (simp_all add: tid_mutex_def set_version_def Let_def)

lemma tid_mutex_simps [simp]:
  "tid_mutex (s\<lparr>ts_rpc := rpc\<rparr>) = tid_mutex s" "tid_mutex (s\<lparr>ts_locks := m\<rparr>) = tid_mutex s"
  "tid_mutex (s\<lparr>ts_queue := q\<rparr>) = tid_mutex s"
  "tid_mutex (s\<lparr>ts_pend_writes := w\<rparr>) = tid_mutex s" "tid_mutex (s\<lparr>ts_rdy_to_commit := c\<rparr>) = tid_mutex s"
  by (simp_all add: tid_mutex_def)

lemma tid_mutex_ops [simp]:
  "tid_mutex (set_args s r a) = tid_mutex s" "tid_mutex (set_phase s ev p) = tid_mutex s"
  "tid_mutex (add s tid key val) = tid_mutex s" "tid_mutex (prepare s tid ts) = tid_mutex s"
  "tid_mutex (fst (new_event s kind r)) = tid_mutex s"
  by (simp_all add: tid_mutex_def set_args_def set_phase_def add_def prepare_def new_event_def Let_def split: option.split)

lemma tid_mutex_finalize [simp]: "tid_mutex (finalize s tid vote) = tid_mutex s"
  by (simp add: finalize_def Let_def split: option.split)

lemma tid_mutex_reply: "server_sendReply s r = Inr s' \<Longrightarrow> tid_mutex s' = tid_mutex s"
  by (auto simp: server_sendReply_def and_then_eq_Inr_iff)

lemma tid_mutex_list:
  "(\<And>s ev s'. run s ev = Inr s' \<Longrightarrow> tid_mutex s' = tid_mutex s) \<Longrightarrow> run_list run s evs = Inr s' \<Longrightarrow>
   tid_mutex s' = tid_mutex s"
  by (induction evs arbitrary: s) (auto simp: and_then_eq_Inr_iff)

lemma tid_mutex_read_phase_1: "read_phase_1 s ev e a = Inr s' \<Longrightarrow> tid_mutex s' = tid_mutex s"
  by (auto simp: read_phase_1_def Let_def and_then_eq_Inr_iff dest!: tid_mutex_reply)

lemma tid_mutex_run:
  "run_read s ev e a = Inr s' \<Longrightarrow> tid_mutex s' = tid_mutex s"
  "run_write s ev e b = Inr s' \<Longrightarrow> tid_mutex s' = tid_mutex s"
  "run_p1c s ev e c = Inr s' \<Longrightarrow> tid_mutex s' = tid_mutex s"
  by (auto simp: run_read_def run_write_def run_p1c_def Let_def and_then_eq_Inr_iff
      split: if_splits dest!: tid_mutex_reply tid_mutex_read_phase_1)

lemma tid_mutex_p2c:
  assumes "\<And>s ev s'. run s ev = Inr s' \<Longrightarrow> tid_mutex s' = tid_mutex s" "run_p2c run s ev e a = Inr s'"
  shows "tid_mutex s' = tid_mutex s"
  using assms(2)
  by (auto simp: run_p2c_def Let_def and_then_eq_Inr_iff split: if_splits
      dest!: tid_mutex_reply tid_mutex_list [where run = run, rotated] intro: assms(1))

lemma tid_mutex_event: "run_event d s ev = Inr s' \<Longrightarrow> tid_mutex s' = tid_mutex s"
proof (induction d arbitrary: s ev s')
  case (Suc d)
  then obtain e args where r: "(case (se_kind e, args) of
         (TREAD, ARead a) \<Rightarrow> run_read s ev e a
       | (TWRITE, AWrite a) \<Rightarrow> run_write s ev e a
       | (TP1C, AP1C a) \<Rightarrow> run_p1c s ev e a
       | (TP2C, AP2C a) \<Rightarrow> run_p2c (run_event d) s ev e a
       | _ \<Rightarrow> Inl BadCast) = Inr s'"
    by (auto simp: and_then_eq_Inr_iff)
  note p2c = tid_mutex_p2c [where run = "run_event d", OF Suc.IH]
  from r show ?case
    by (cases args; cases "se_kind e") (simp_all add: tid_mutex_run p2c)
qed simp

text \<open>A request that needs the mutex waits while it is locked; the others leave it locked.\<close>

definition needs_tid_mutex :: "(u64 \<Rightarrow> u64) \<Rightarrow> u64 list \<Rightarrow> handler_args \<Rightarrow> bool" where
  "needs_tid_mutex mapper nodes args =
    (case args of
       ARead b \<Rightarrow> mapper (ra_key (rr_args b)) \<in> set nodes
     | AWrite b \<Rightarrow> mapper (wa_key (rw_args b)) \<in> set nodes
     | AP1C b \<Rightarrow> False
     | AP2C b \<Rightarrow> True)"

lemma dispatch_waits:
  assumes "ts_tid_locked s" "args_of s r = Inr args" "request_of args = req"
    and "needs_tid_mutex mapper (ts_nodes s) args"
  shows "dispatch mapper s req r = Inl Deadlock"
proof -
  have "ts_tid_locked (set_args s r x)" for x
    using assms(1) tid_mutex_ops(1) [of s r x] by (simp add: tid_mutex_def)
  with assms show ?thesis
    by (cases args) (auto simp: dispatch_def request_of_def dispatch_read_def dispatch_write_def dispatch_p2c_def
        note_tid_def take_nodes_def lock_tid_def Let_def needs_tid_mutex_def)
qed

lemma dispatch_keeps_locked:
  assumes "dispatch mapper s req r = Inr (s', ev)" "ts_tid_locked s"
  shows "tid_mutex s' = tid_mutex s"
proof -
  have l: "ts_tid_locked (set_args s r x)" for x
    using assms(2) tid_mutex_ops(1) [of s r x] by (simp add: tid_mutex_def)
  have w: "tid_mutex s1 = tid_mutex s" if "take_write_nodes s tid = Inr (s1, ns)" for s1 tid ns
    using that by (auto simp: take_write_nodes_def lock_tid_write_def tid_mutex_def split: if_splits option.splits)
  from assms(1) obtain args where "args_of s r = Inr args" by (auto simp: dispatch_def and_then_eq_Inr_iff)
  with assms l w show ?thesis
    by (cases args; cases req)
      (auto simp: dispatch_def dispatch_read_def dispatch_write_def dispatch_p1c_def dispatch_p2c_def reply_only_def
        note_tid_def take_nodes_def lock_tid_def Let_def and_then_eq_Inr_iff make_event_def split_beta
        split: if_splits option.splits dest!: tid_mutex_reply)
qed

lemma round_keeps_locked:
  assumes "getEvent_round mapper s arrs = Inr (s', ev)" "ts_tid_locked s"
  shows "tid_mutex s' = tid_mutex s"
proof -
  have l: "ts_tid_locked (s\<lparr>ts_rpc := rpc\<rparr>)" for rpc using assms(2) by simp
  from assms(1) show ?thesis
    by (auto simp: getEvent_round_def Let_def split_beta and_then_eq_Inr_iff split: if_splits option.splits
        dest!: dispatch_keeps_locked [OF _ l])
qed

lemma any_run_locked: "any_run mapper s s' \<Longrightarrow> ts_tid_locked s \<Longrightarrow> tid_mutex s' = tid_mutex s"
proof (induction rule: any_run.induct)
  case (any_poll s s1 arrs s2 ev)
  then have "ts_tid_locked s1" by (simp add: tid_mutex_def)
  with round_keeps_locked [OF any_poll.hyps(2)] any_poll show ?case by simp
next
  case (any_add s s1 ev s2)
  then show ?case by (auto simp: server_addEvent_def and_then_eq_Inr_iff)
qed (auto dest: tid_mutex_event)

lemma asyncNextRequest_typed:
  assumes "asyncNextRequest rs arrs = Inr (rs', Some (r, req))"
  shows "\<exists>h. rs_handlers rs' r = Some h \<and> request_of (hd_args h) = req"
proof -
  from assms obtain rs1 where "take_request rs1 = Inr (rs', r, req)"
    by (auto simp: asyncNextRequest_def and_then_eq_Inr_iff split: if_splits)
  then obtain h h' q where h: "getRequest h = Inr req" "getArgs h = Inr h'"
    "rs' = rs1\<lparr>rs_request_queue := q, rs_handlers := (rs_handlers rs1)(r \<mapsto> h')\<rparr>"
    by (auto simp: take_request_def and_then_eq_Inr_iff split: list.splits)
  have "request_of (hd_args h') = request_of (hd_args h)"
    using h(2) by (auto simp: getArgs_def request_of_def split: if_splits handler_args.splits option.splits request_msg.splits)
  with h show ?thesis by (auto simp: getRequest_def split: if_splits)
qed

lemma round_waits:
  assumes "ts_tid_locked s" "\<not> fst (tryDequeue (ts_queue s) 0)"
    and "asyncNextRequest (ts_rpc s) arrs = Inr (rpc, Some (r, req))" "rs_handlers rpc r = Some h"
    and "needs_tid_mutex mapper (ts_nodes s) (hd_args h)"
  shows "getEvent_round mapper s (arrs, arrs') = Inl Deadlock"
proof -
  from asyncNextRequest_typed [OF assms(3)] assms(4) have "request_of (hd_args h) = req" by simp
  with assms dispatch_waits [of "s\<lparr>ts_rpc := rpc\<rparr>" r "hd_args h" req mapper] show ?thesis
    by (simp add: getEvent_round_def Let_def split_beta args_of_def)
qed

text \<open>
  C38: the request of a transaction that the server does not know leaves a mutex locked for
  good: the second phase of an unknown transaction is answered, but \<open>_tid_mutex\<close> stays locked.
  Whatever the threads of the server do afterwards, and whatever arrives, it is never unlocked,
  and the nodes that are served stay the same; so every thread that then polls, finds no event
  queued and takes a second phase, or a read or write of a key on a served node, blocks for
  ever.
\<close>
theorem unknown_transaction_locks_server:
  assumes "processing s r (AP2C a)" "ts_tid_to_nodes s (p2_tid (rp2_args a)) = None" "\<not> ts_tid_locked s"
  shows "\<exists>s'. dispatch mapper s TP2C r = Inr (s', None) \<and> replied s' r (RP2C \<lparr>p2p_node = rp2_nodes a\<rparr>)
    \<and> (\<forall>s''. any_run mapper s' s'' \<longrightarrow> ts_tid_locked s'' \<and> ts_nodes s'' = ts_nodes s
        \<and> (\<forall>arrs arrs' rpc r' req h. \<not> fst (tryDequeue (ts_queue s'') 0) \<longrightarrow>
             asyncNextRequest (ts_rpc s'') arrs = Inr (rpc, Some (r', req)) \<longrightarrow> rs_handlers rpc r' = Some h \<longrightarrow>
             needs_tid_mutex mapper (ts_nodes s) (hd_args h) \<longrightarrow>
             getEvent_round mapper s'' (arrs, arrs') = Inl Deadlock))"
proof -
  let ?s1 = "s\<lparr>ts_tid_locked := True\<rparr>"
  have "processing ?s1 r (AP2C a)" using assms(1) by (simp add: processing_def)
  from sendReply_complete [OF this, of "RP2C \<lparr>p2p_node = rp2_nodes a\<rparr>"] obtain s' where
    s': "server_sendReply ?s1 r = Inr s'" "replied s' r (RP2C \<lparr>p2p_node = rp2_nodes a\<rparr>)" by auto
  have locked: "ts_tid_locked s'" "ts_nodes s' = ts_nodes s"
    using tid_mutex_reply [OF s'(1)] by (simp_all add: tid_mutex_def)
  have "args_of s r = Inr (AP2C a)"
    using assms(1) by (auto simp: processing_def args_of_def split: option.splits)
  then have "dispatch mapper s TP2C r = Inr (s', None)"
    using assms(2,3) s'(1) by (simp add: dispatch_def dispatch_p2c_def take_nodes_def lock_tid_def reply_only_def)
  moreover have "ts_tid_locked s'' \<and> ts_nodes s'' = ts_nodes s" if "any_run mapper s' s''" for s''
    using any_run_locked [OF that locked(1)] locked by (simp add: tid_mutex_def)
  ultimately show ?thesis
    using s'(2) round_waits by metis
qed

theorem unknown_transaction_locks_server_witness:
  "\<exists>s s'. dispatch getNode s TP2C 4 = Inr (s', None) \<and> replied s' 4 (RP2C \<lparr>p2p_node = []\<rparr>)
    \<and> (\<forall>s''. any_run getNode s' s'' \<longrightarrow> ts_tid_locked s'')"
proof -
  let ?a = "AP2C \<lparr>rp2_args = \<lparr>p2_tid = 1, p2_vote = True\<rparr>, rp2_nodes = []\<rparr>"
  have "case asyncNextRequest (ts_rpc main_server) [decide True] of
      Inr (rpc, Some (r, _)) \<Rightarrow> r = 4 \<and> processing (main_server\<lparr>ts_rpc := rpc\<rparr>) 4 ?a
        \<and> ts_tid_to_nodes (main_server\<lparr>ts_rpc := rpc\<rparr>) 1 = None \<and> \<not> ts_tid_locked (main_server\<lparr>ts_rpc := rpc\<rparr>)
    | _ \<Rightarrow> False"
    by code_simp
  then obtain s where s: "processing s 4 ?a" "ts_tid_to_nodes s 1 = None" "\<not> ts_tid_locked s"
    by (auto split: sum.splits option.splits)
  have "ts_tid_to_nodes s (p2_tid (rp2_args \<lparr>rp2_args = \<lparr>p2_tid = 1, p2_vote = True\<rparr>, rp2_nodes = []\<rparr>)) = None"
    using s(2) by simp
  from unknown_transaction_locks_server [OF s(1) this s(3), of getNode] obtain s' where
    "dispatch getNode s TP2C 4 = Inr (s', None)" "replied s' 4 (RP2C \<lparr>p2p_node = []\<rparr>)"
    "\<forall>s''. any_run getNode s' s'' \<longrightarrow> ts_tid_locked s''"
    unfolding rpc_p2c_args_t.simps by blast
  then show ?thesis by (intro exI [of _ s] exI [of _ s'] conjI)
qed

section \<open>Runs\<close>

text \<open>
  C10: in every state that the server reaches from its start, whatever arrives and whatever
  allowed events run in which order, the locks are well formed, every committed version is
  stored, every write lock belongs to a transaction that is prepared for that time with a
  pending write to that key, and only reads wait.
\<close>
theorem reachable_server_invariant:
  assumes "server_run mapper main_server s"
  shows "lm_inv (ts_locks s) \<and> (committed s k t \<longrightarrow> (\<exists>v. get s k t = Some v))
    \<and> (lock_at (ts_locks s) k t = (WRITE_LOCK, {tid}) \<longrightarrow>
         ts_rdy_to_commit s tid = Some t \<and> k \<in> set (getKeys s tid))
    \<and> (ev \<in> registered (ts_locks s) \<longrightarrow> (\<exists>e. ts_events s ev = Some e \<and> se_kind e = TREAD))"
proof -
  have inv: "server_inv s" using server_run_inv [OF assms start_inv] by simp
  note d = server_inv_data [OF inv]
  show ?thesis
    using data_inv_locks [OF d] data_inv_stored [OF d] data_inv_prepared [OF d] server_inv_registered [OF inv]
    by blast
qed

theorem reachable_server_invariant_witness:
  "\<exists>s. server_run getNode main_server s \<and> ts_rdy_to_commit s 1 = Some 3"
proof -
  from prepared_run obtain s where s: "server_run getNode main_server s" "lock_at (ts_locks s) 5 3 = (WRITE_LOCK, {1})"
    by blast
  from reachable_server_invariant [OF s(1), of 5 3 1] s show ?thesis by blast
qed



end
