(* ===== verification/RPC_Client.thy ===== *)
theory RPC_Client
  imports RPC_Server
begin

text \<open>
  The RPC layer of the client: \<open>RPCClient.h\<close>, \<open>GRPCClient.h\<close> and \<open>GRPCClient.cc\<close> under
  \<open>src/src\<close>.  The stub that carries a call to a server is not part of the program; it is the
  argument \<open>net\<close>, which takes the state of the world, an address and a message to the next
  state and to the reply, \<^const>\<open>None\<close> standing for a call that ends with an error status.
\<close>

section \<open>Messages\<close>

definition makeReadRequest :: "read_args_t \<Rightarrow> ReadRequest" where
  "makeReadRequest a = \<lparr>rq_tid = ra_tid a, rq_start_ts = ra_start_ts a, rq_key = ra_key a\<rparr>"

definition makeWriteRequest :: "write_args_t \<Rightarrow> WriteRequest" where
  "makeWriteRequest a = \<lparr>wq_tid = wa_tid a, wq_key = wa_key a, wq_value = wa_value a\<rparr>"

definition makePhaseOneCommitRequest :: "p1c_args_t \<Rightarrow> PhaseOneCommitRequest" where
  "makePhaseOneCommitRequest a =
     \<lparr>p1q_tid = p1_tid a, p1q_start_ts = p1_start_ts a, p1q_commit_ts = p1_commit_ts a,
      p1q_read_node = p1_read_nodes a, p1q_write_node = p1_write_nodes a\<rparr>"

definition makePhaseTwoCommitRequest :: "p2c_args_t \<Rightarrow> PhaseTwoCommitRequest" where
  "makePhaseTwoCommitRequest a = \<lparr>p2q_tid = p2_tid a, p2q_vote = p2_vote a\<rparr>"

text \<open>The message for the arguments of any request.\<close>

definition make_request :: "handler_args \<Rightarrow> request_msg" where
  "make_request args =
    (case args of
       ARead a \<Rightarrow> MRead (makeReadRequest (rr_args a))
     | AWrite a \<Rightarrow> MWrite (makeWriteRequest (rw_args a))
     | AP1C a \<Rightarrow> MP1C (makePhaseOneCommitRequest (rp1_args a))
     | AP2C a \<Rightarrow> MP2C (makePhaseTwoCommitRequest (rp2_args a)))"

section \<open>State\<close>

text \<open>
  A handler of an asynchronous call: the argument structure it shares with the caller, the
  outcome the runtime has for it, whether that outcome still waits in its completion queue,
  and the status after \<open>proceed\<close>.  A tag can be mapped to a null pointer.
\<close>

record client_handler =
  ch_args :: handler_args
  ch_outcome :: "reply_msg option"
  ch_pending :: bool
  ch_ok :: bool

record rpc_client =
  rc_address_to_stub :: "string \<Rightarrow> bool"
  rc_tag_to_handler :: "u64 \<rightharpoonup> client_handler option"

definition new_rpc_client :: rpc_client where
  "new_rpc_client = \<lparr>rc_address_to_stub = (\<lambda>_. False), rc_tag_to_handler = Map.empty\<rparr>"

definition makeStub :: "rpc_client \<Rightarrow> string \<Rightarrow> rpc_client" where
  "makeStub rc addr =
    (if rc_address_to_stub rc addr then rc
     else rc\<lparr>rc_address_to_stub := (rc_address_to_stub rc)(addr := True)\<rparr>)"

text \<open>\<open>getStub\<close> returns a null pointer for an unknown address; every caller dereferences it.\<close>

definition getStub :: "rpc_client \<Rightarrow> string \<Rightarrow> unit res" where
  "getStub rc addr = (if rc_address_to_stub rc addr then Inr () else Inl NullPointer)"

section \<open>Synchronous calls\<close>

text \<open>
  The result of \<open>syncRPC\<close> is the new world, whether the status is OK, and the argument
  structure.  \<open>value->assign\<close> needs a string to assign to.
\<close>

definition syncRPC ::
    "('w \<Rightarrow> string \<Rightarrow> request_msg \<Rightarrow> 'w \<times> reply_msg option) \<Rightarrow>
     rpc_client \<times> 'w \<Rightarrow> string \<Rightarrow> handler_args \<Rightarrow> ((rpc_client \<times> 'w) \<times> bool \<times> handler_args) res" where
  "syncRPC net cw addr args =
    (let rc = makeStub (fst cw) addr
     in and_then (getStub rc addr) (\<lambda>_.
        let (w, reply) = net (snd cw) addr (make_request args)
        in case (args, reply) of
          (ARead a, Some (RRead m)) \<Rightarrow>
            (if rp_status m then
               and_then (need NullPointer (rr_value a)) (\<lambda>_.
                 Inr ((rc, w), True, ARead (a\<lparr>rr_status := Some True, rr_value := Some (rp_value m)\<rparr>)))
             else Inr ((rc, w), True, ARead (a\<lparr>rr_status := Some False\<rparr>)))
        | (ARead a, _) \<Rightarrow> Inr ((rc, w), False, ARead (a\<lparr>rr_status := Some False\<rparr>))
        | (AWrite a, Some (RWrite m)) \<Rightarrow>
            Inr ((rc, w), True, AWrite (a\<lparr>rw_status := Some (wp_status m)\<rparr>))
        | (AWrite a, _) \<Rightarrow> Inr ((rc, w), False, AWrite (a\<lparr>rw_status := Some False\<rparr>))
        | (AP1C a, Some (RP1C m)) \<Rightarrow>
            Inr ((rc, w), True, AP1C (a\<lparr>rp1_nodes := insert_all (p1p_node m) (rp1_nodes a),
                                        rp1_vote := Some (p1p_vote m)\<rparr>))
        | (AP2C a, Some (RP2C m)) \<Rightarrow>
            Inr ((rc, w), True, AP2C (a\<lparr>rp2_nodes := insert_all (p2p_node m) (rp2_nodes a)\<rparr>))
        | _ \<Rightarrow> Inr ((rc, w), False, args)))"

section \<open>Asynchronous calls\<close>

definition new_client_handler :: "handler_args \<Rightarrow> reply_msg option \<Rightarrow> client_handler" where
  "new_client_handler args outcome =
     \<lparr>ch_args = args, ch_outcome = outcome, ch_pending = True, ch_ok = True\<rparr>"

text \<open>\<open>asyncRPC\<close>: the runtime starts the call when the handler is constructed.\<close>

definition asyncRPC ::
    "('w \<Rightarrow> string \<Rightarrow> request_msg \<Rightarrow> 'w \<times> reply_msg option) \<Rightarrow>
     rpc_client \<times> 'w \<Rightarrow> string \<Rightarrow> u64 \<Rightarrow> handler_args \<Rightarrow> (rpc_client \<times> 'w) res" where
  "asyncRPC net cw addr tag args =
    (let rc = makeStub (fst cw) addr
     in and_then (getStub rc addr) (\<lambda>_.
        let (w, reply) = net (snd cw) addr (make_request args)
        in Inr (rc\<lparr>rc_tag_to_handler :=
                  (rc_tag_to_handler rc)(tag \<mapsto> Some (new_client_handler args reply))\<rparr>, w)))"

text \<open>
  \<open>proceed\<close> of the four classes: wait for the outcome and copy the reply into the argument
  structure.  After an error status the reply message is still empty.
\<close>

definition proceed_read :: "ReadReply option \<Rightarrow> rpc_read_args_t \<Rightarrow> rpc_read_args_t" where
  "proceed_read reply a =
    (case reply of
       None \<Rightarrow> a\<lparr>rr_status := Some False\<rparr>
     | Some m \<Rightarrow> if rp_status m then a\<lparr>rr_status := Some True, rr_value := Some (rp_value m)\<rparr>
                 else a\<lparr>rr_status := Some False\<rparr>)"

definition proceed_write :: "WriteReply option \<Rightarrow> rpc_write_args_t \<Rightarrow> rpc_write_args_t" where
  "proceed_write reply a =
    (case reply of None \<Rightarrow> a\<lparr>rw_status := Some False\<rparr> | Some m \<Rightarrow> a\<lparr>rw_status := Some (wp_status m)\<rparr>)"

definition proceed_p1c :: "PhaseOneCommitReply option \<Rightarrow> rpc_p1c_args_t \<Rightarrow> rpc_p1c_args_t" where
  "proceed_p1c reply a =
    (case reply of
       None \<Rightarrow> a\<lparr>rp1_vote := Some False\<rparr>
     | Some m \<Rightarrow> a\<lparr>rp1_nodes := insert_all (p1p_node m) (rp1_nodes a), rp1_vote := Some (p1p_vote m)\<rparr>)"

definition proceed_p2c :: "PhaseTwoCommitReply option \<Rightarrow> rpc_p2c_args_t \<Rightarrow> rpc_p2c_args_t" where
  "proceed_p2c reply a =
    (case reply of
       None \<Rightarrow> a
     | Some m \<Rightarrow> a\<lparr>rp2_nodes := insert_all (p2p_node m) (rp2_nodes a)\<rparr>)"

definition proceed_args :: "handler_args \<Rightarrow> reply_msg option \<Rightarrow> handler_args" where
  "proceed_args args reply =
    (case args of
       ARead a \<Rightarrow> ARead (proceed_read (case reply of Some (RRead m) \<Rightarrow> Some m | _ \<Rightarrow> None) a)
     | AWrite a \<Rightarrow> AWrite (proceed_write (case reply of Some (RWrite m) \<Rightarrow> Some m | _ \<Rightarrow> None) a)
     | AP1C a \<Rightarrow> AP1C (proceed_p1c (case reply of Some (RP1C m) \<Rightarrow> Some m | _ \<Rightarrow> None) a)
     | AP2C a \<Rightarrow> AP2C (proceed_p2c (case reply of Some (RP2C m) \<Rightarrow> Some m | _ \<Rightarrow> None) a))"

definition proceed :: "client_handler \<Rightarrow> client_handler res" where
  "proceed h =
    (if \<not> ch_pending h then Inl Blocked
     else Inr (h\<lparr>ch_pending := False, ch_ok := (ch_outcome h \<noteq> None),
                 ch_args := proceed_args (ch_args h) (ch_outcome h)\<rparr>))"

lemmas proceed_defs =
  proceed_def proceed_args_def proceed_read_def proceed_write_def proceed_p1c_def proceed_p2c_def

text \<open>
  \<open>waitAsyncReply\<close>.  The result holds the argument structure of the call.  On success the tag
  is erased first, so that \<open>delete _tag_to_handler[tag]\<close> enters a null pointer for it again.
\<close>

definition waitAsyncReply :: "rpc_client \<Rightarrow> u64 \<Rightarrow> (rpc_client \<times> bool \<times> handler_args) res" where
  "waitAsyncReply rc tag =
    (case rc_tag_to_handler rc tag of
       Some (Some h) \<Rightarrow>
         and_then (proceed h) (\<lambda>h.
           if ch_ok h then
             Inr (rc\<lparr>rc_tag_to_handler := (rc_tag_to_handler rc)(tag \<mapsto> None)\<rparr>, True, ch_args h)
           else
             Inr (rc\<lparr>rc_tag_to_handler := (rc_tag_to_handler rc)(tag \<mapsto> Some h)\<rparr>, False, ch_args h))
     | _ \<Rightarrow> Inl NullPointer)"

text \<open>\<open>while (!waitAsyncReply(tag));\<close> runs at most twice: the second time it can only wait.\<close>

fun wait_reply :: "nat \<Rightarrow> rpc_client \<Rightarrow> u64 \<Rightarrow> (rpc_client \<times> handler_args) res" where
  "wait_reply 0 rc tag = Inl OutOfFuel"
| "wait_reply (Suc n) rc tag =
     and_then (waitAsyncReply rc tag) (\<lambda>(rc, ok, args).
       if ok then Inr (rc, args) else wait_reply n rc tag)"

end
