(* ===== verification/RPC_Theorems.thy ===== *)
theory RPC_Theorems
  imports RPC_Client
begin

text \<open>
  The properties of the RPC layer: what a client sends is what the server is asked, what the
  server replies is what the client gets, the server listens at all times, and a handler
  serves one request.
\<close>

section \<open>Requests\<close>

text \<open>Two argument structures ask for the same.\<close>

fun same_call :: "handler_args \<Rightarrow> handler_args \<Rightarrow> bool" where
  "same_call (ARead a) (ARead b) = (rr_args a = rr_args b)"
| "same_call (AWrite a) (AWrite b) = (rw_args a = rw_args b)"
| "same_call (AP1C a) (AP1C b) = (rp1_args a = rp1_args b)"
| "same_call (AP2C a) (AP2C b) = (rp2_args a = rp2_args b)"
| "same_call _ _ = False"

text \<open>The sets of nodes in a first commit phase are sets.\<close>

definition call_ok :: "handler_args \<Rightarrow> bool" where
  "call_ok args =
    (case args of
       AP1C a \<Rightarrow> set_ok (p1_read_nodes (rp1_args a)) \<and> set_ok (p1_write_nodes (rp1_args a))
     | _ \<Rightarrow> True)"

lemma getArgs_make_request:
  assumes "call_ok args"
  shows "\<exists>h. getArgs ((new_handler (request_of args))\<lparr>hd_request := Some (make_request args)\<rparr>) = Inr h
    \<and> hd_status h = PROCESS \<and> hd_reply h = None \<and> same_call args (hd_args h)"
  using assms
  by (cases args)
    (auto simp: getArgs_defs make_request_def request_of_def new_handler_defs makeReadRequest_def
      makeWriteRequest_def makePhaseOneCommitRequest_def makePhaseTwoCommitRequest_def call_ok_def insert_all_Nil)

text \<open>
  C33: a request goes over the wire unchanged: the message that a client makes of its
  arguments, delivered to a handler that listens for this type of request while no other request is
  queued, is what the server is asked next, with the same arguments; and a new handler listens
  in its place.
\<close>
theorem request_roundtrip:
  assumes "rpc_inv rs" "listening rs r (request_of args)" "rs_request_queue rs = []" "call_ok args"
  shows "\<exists>rs' h. asyncNextRequest rs [(r, Some (make_request args))] = Inr (rs', Some (r, request_of args))
    \<and> rs_handlers rs' r = Some h \<and> hd_status h = PROCESS \<and> same_call args (hd_args h)
    \<and> listening rs' (rs_next rs) (request_of args)"
proof -
  from process_request [OF assms(1,2)] assms(3) obtain rs1 where
    p: "process_tag rs (r, Some (make_request args)) = Inr rs1" "rs_request_queue rs1 = [r]"
    "rs_handlers rs1 r = Some ((new_handler (request_of args))\<lparr>hd_request := Some (make_request args)\<rparr>)"
    "listening rs1 (rs_next rs) (request_of args)" by auto
  from getArgs_make_request [OF assms(4)] obtain h where
    h: "getArgs ((new_handler (request_of args))\<lparr>hd_request := Some (make_request args)\<rparr>) = Inr h"
    "hd_status h = PROCESS" "same_call args (hd_args h)" by blast
  have q: "getRequest ((new_handler (request_of args))\<lparr>hd_request := Some (make_request args)\<rparr>) = Inr (request_of args)"
    using getRequest_new [of "request_of args" "Some (make_request args)"] by (simp add: receive_def)
  have "r \<noteq> rs_next rs" using p(2,4) by (auto simp: listening_def)
  with p h q show ?thesis
    by (simp add: asyncNextRequest_def take_request_def listening_def)
qed

theorem request_roundtrip_witness:
  "\<exists>rs h. asyncNextRequest new_rpc_server
      [(3, Some (MP1C \<lparr>p1q_tid = 1, p1q_start_ts = 2, p1q_commit_ts = 2, p1q_read_node = [0, 4], p1q_write_node = [7]\<rparr>))]
      = Inr (rs, Some (3, TP1C))
    \<and> rs_handlers rs 3 = Some h \<and> p1_read_nodes (case hd_args h of AP1C a \<Rightarrow> rp1_args a) = [0, 4]"
proof -
  let ?args = "AP1C \<lparr>rp1_args = \<lparr>p1_tid = 1, p1_start_ts = 2, p1_commit_ts = 2, p1_read_nodes = [0, 4],
      p1_write_nodes = [7]\<rparr>, rp1_nodes = [], rp1_vote = None\<rparr>"
  have "request_of ?args = TP1C" "call_ok ?args"
    by (simp_all add: request_of_def call_ok_def set_ok_def)
  moreover have "listening new_rpc_server 3 TP1C" "rs_request_queue new_rpc_server = []"
    by (simp_all add: listening_def new_rpc_server_def prepareNextRequest_def numeral_eq_Suc)
  ultimately obtain rs h where
    r: "asyncNextRequest new_rpc_server [(3, Some (make_request ?args))] = Inr (rs, Some (3, TP1C))"
      "rs_handlers rs 3 = Some h" "same_call ?args (hd_args h)"
    using request_roundtrip [OF rpc_inv_new, of 3 ?args] by auto
  from r(3) have "p1_read_nodes (case hd_args h of AP1C a \<Rightarrow> rp1_args a) = [0, 4]"
    by (cases "hd_args h") (auto dest: arg_cong [where f = p1_read_nodes])
  with r(1,2) show ?thesis
    by (auto simp: make_request_def makePhaseOneCommitRequest_def)
qed

section \<open>Replies\<close>

text \<open>The client has what the server answered, on top of what it had.\<close>

fun delivered :: "handler_args \<Rightarrow> handler_args \<Rightarrow> handler_args \<Rightarrow> bool" where
  "delivered (ARead s) (ARead a) (ARead a') \<longleftrightarrow>
     rr_args a' = rr_args a \<and> rr_status a' = rr_status s \<and> (rr_status s = Some True \<longrightarrow> rr_value a' = rr_value s)"
| "delivered (AWrite s) (AWrite a) (AWrite a') \<longleftrightarrow> rw_args a' = rw_args a \<and> rw_status a' = rw_status s"
| "delivered (AP1C s) (AP1C a) (AP1C a') \<longleftrightarrow>
     rp1_args a' = rp1_args a \<and> rp1_vote a' = rp1_vote s \<and> set (rp1_nodes a') = set (rp1_nodes s) \<union> set (rp1_nodes a)"
| "delivered (AP2C s) (AP2C a) (AP2C a') \<longleftrightarrow>
     rp2_args a' = rp2_args a \<and> set (rp2_nodes a') = set (rp2_nodes s) \<union> set (rp2_nodes a)"
| "delivered _ _ _ \<longleftrightarrow> False"

lemma proceed_args_delivers:
  assumes "setReply h = Inr h'" "request_of (hd_args h) = request_of args"
  shows "delivered (hd_args h) args (proceed_args args (hd_reply h'))"
proof (cases "hd_args h")
  case (ARead s)
  with assms obtain a where "args = ARead a" by (auto simp: request_of_def split: handler_args.splits)
  with assms ARead show ?thesis
    by (auto simp: setReply_defs proceed_defs need_def and_then_eq_Inr_iff split: if_splits option.splits)
next
  case (AWrite s)
  with assms obtain a where "args = AWrite a" by (auto simp: request_of_def split: handler_args.splits)
  with assms AWrite show ?thesis
    by (auto simp: setReply_defs proceed_defs need_def and_then_eq_Inr_iff split: if_splits option.splits)
next
  case (AP1C s)
  with assms obtain a where "args = AP1C a" by (auto simp: request_of_def split: handler_args.splits)
  with assms AP1C show ?thesis
    by (auto simp: setReply_defs proceed_defs need_def and_then_eq_Inr_iff split: if_splits option.splits)
next
  case (AP2C s)
  with assms obtain a where "args = AP2C a" by (auto simp: request_of_def split: handler_args.splits)
  with assms AP2C show ?thesis
    by (auto simp: setReply_defs proceed_defs need_def and_then_eq_Inr_iff split: if_splits option.splits)
qed

lemma makeStub_getStub [simp]: "getStub (makeStub rc addr) addr = Inr ()"
  by (simp add: makeStub_def getStub_def)

lemma makeStub_tags [simp]: "rc_tag_to_handler (makeStub rc addr) = rc_tag_to_handler rc"
  by (simp add: makeStub_def)

text \<open>An asynchronous call that the network answers, and the wait for it.\<close>

lemma async_wait:
  assumes "net w addr (make_request args) = (w', Some m)"
  shows "\<exists>rc1 rc2. asyncRPC net (rc, w) addr tag args = Inr (rc1, w')
    \<and> waitAsyncReply rc1 tag = Inr (rc2, True, proceed_args args (Some m))
    \<and> rc_tag_to_handler rc2 = (rc_tag_to_handler rc)(tag \<mapsto> None)"
  using assms by (simp add: asyncRPC_def waitAsyncReply_def proceed_def new_client_handler_def)

text \<open>
  C34: a reply goes over the wire unchanged: when the network answers an asynchronous call with
  the reply that the handler of the server made of its results, the wait for the call succeeds
  and the client's argument structure holds these results.
\<close>
theorem reply_roundtrip:
  assumes "setReply h = Inr h'" "request_of (hd_args h) = request_of args"
    and "net w addr (make_request args) = (w', hd_reply h')"
  shows "hd_status h' = FINISH \<and> (\<exists>rc1 rc2 args'. asyncRPC net (rc, w) addr tag args = Inr (rc1, w')
    \<and> waitAsyncReply rc1 tag = Inr (rc2, True, args') \<and> delivered (hd_args h) args args')"
proof -
  from assms(1) obtain m where m: "hd_reply h' = Some m" "hd_status h' = FINISH"
    by (cases "hd_args h") (auto simp: setReply_defs and_then_eq_Inr_iff split: if_splits)
  from async_wait [of net w addr args w' m rc tag] assms(3) m(1) obtain rc1 rc2 where
    "asyncRPC net (rc, w) addr tag args = Inr (rc1, w')"
    "waitAsyncReply rc1 tag = Inr (rc2, True, proceed_args args (Some m))" by auto
  with m proceed_args_delivers [OF assms(1,2)] show ?thesis by auto
qed

theorem reply_roundtrip_witness:
  "\<exists>rc1 rc2 args'. asyncRPC (\<lambda>w addr m. (w, Some (RP2C \<lparr>p2p_node = [3]\<rparr>))) (new_rpc_client, ()) ''a'' 4
       (AP2C \<lparr>rp2_args = \<lparr>p2_tid = 0, p2_vote = True\<rparr>, rp2_nodes = []\<rparr>) = Inr (rc1, ())
    \<and> waitAsyncReply rc1 4 = Inr (rc2, True, args') \<and> (\<exists>a. args' = AP2C a \<and> set (rp2_nodes a) = {3})"
proof -
  let ?args = "AP2C \<lparr>rp2_args = \<lparr>p2_tid = 0, p2_vote = True\<rparr>, rp2_nodes = []\<rparr>"
  let ?h = "handler_for (AP2C \<lparr>rp2_args = \<lparr>p2_tid = 0, p2_vote = True\<rparr>, rp2_nodes = [3]\<rparr>)"
  have "setReply ?h = Inr (finish_reply ?h (RP2C \<lparr>p2p_node = [3]\<rparr>))"
    by (simp add: setReply_defs handler_for_def)
  from reply_roundtrip [OF this, of ?args "\<lambda>w addr m. (w, Some (RP2C \<lparr>p2p_node = [3]\<rparr>))" "()" "''a''" "()" new_rpc_client 4]
  obtain rc1 rc2 args' where "asyncRPC (\<lambda>w addr m. (w, Some (RP2C \<lparr>p2p_node = [3]\<rparr>))) (new_rpc_client, ()) ''a'' 4 ?args = Inr (rc1, ())"
    "waitAsyncReply rc1 4 = Inr (rc2, True, args')" "delivered (hd_args ?h) ?args args'"
    by (auto simp: request_of_def handler_for_def finish_reply_def)
  moreover from this(3) have "\<exists>a. args' = AP2C a \<and> set (rp2_nodes a) = {3}"
    by (cases args') (auto simp: handler_for_def)
  ultimately show ?thesis by blast
qed

section \<open>Two ways to call\<close>

text \<open>A reply of the right type, and a place for the value of a successful synchronous read.\<close>

fun reply_fits :: "handler_args \<Rightarrow> reply_msg \<Rightarrow> bool" where
  "reply_fits (ARead a) (RRead m) = (rp_status m \<longrightarrow> rr_value a \<noteq> None)"
| "reply_fits (AWrite a) (RWrite m) = True"
| "reply_fits (AP1C a) (RP1C m) = True"
| "reply_fits (AP2C a) (RP2C m) = True"
| "reply_fits _ _ = False"

text \<open>
  C35: the two ways to call a server are equivalent when the server answers: the synchronous
  call and the asynchronous call followed by the wait succeed with the same argument
  structure, provided that a synchronous read has a string to assign the value to.
\<close>
theorem sync_async_agree:
  assumes "net w addr (make_request args) = (w', Some m)" "reply_fits args m"
  shows "\<exists>rc1 rc2 rc3 args'. syncRPC net (rc, w) addr args = Inr ((rc1, w'), True, args')
    \<and> asyncRPC net (rc, w) addr tag args = Inr (rc2, w') \<and> waitAsyncReply rc2 tag = Inr (rc3, True, args')"
proof -
  have "syncRPC net (rc, w) addr args = Inr ((makeStub rc addr, w'), True, proceed_args args (Some m))"
    using assms by (cases args; cases m) (auto simp: syncRPC_def proceed_defs)
  with async_wait [of net w addr args w' m rc tag] assms(1) show ?thesis by auto
qed

theorem sync_async_agree_witness:
  "\<exists>rc1 args'. syncRPC (\<lambda>w addr m. (w, Some (RP1C \<lparr>p1p_node = [0], p1p_vote = True\<rparr>))) (new_rpc_client, ()) ''a''
      (AP1C \<lparr>rp1_args = \<lparr>p1_tid = 1, p1_start_ts = 2, p1_commit_ts = 2, p1_read_nodes = [], p1_write_nodes = []\<rparr>,
             rp1_nodes = [], rp1_vote = None\<rparr>) = Inr (rc1, True, args')"
  using sync_async_agree [of "\<lambda>w addr m. (w, Some (RP1C \<lparr>p1p_node = [0], p1p_vote = True\<rparr>))" "()" "''a''"
      "AP1C \<lparr>rp1_args = \<lparr>p1_tid = 1, p1_start_ts = 2, p1_commit_ts = 2, p1_read_nodes = [], p1_write_nodes = []\<rparr>,
             rp1_nodes = [], rp1_vote = None\<rparr>" "()" _ new_rpc_client 0]
  by auto

text \<open>
  A failed asynchronous call hangs its caller: the first wait reports the failure, and the
  caller, who waits again, waits for an outcome that never comes.
\<close>
lemma failed_call_blocks:
  assumes "net w addr (make_request args) = (w', None)"
  shows "\<exists>rc1 rc2. asyncRPC net (rc, w) addr tag args = Inr (rc1, w')
    \<and> waitAsyncReply rc1 tag = Inr (rc2, False, proceed_args args None)
    \<and> waitAsyncReply rc2 tag = Inl Blocked \<and> wait_reply (Suc (Suc n)) rc1 tag = Inl Blocked"
  using assms by (simp add: asyncRPC_def waitAsyncReply_def proceed_def new_client_handler_def)

lemma failed_call_example:
  "\<exists>rc1. asyncRPC (\<lambda>w addr m. (w, None)) (new_rpc_client, ()) ''a'' 7
      (AWrite \<lparr>rw_args = \<lparr>wa_tid = 1, wa_key = 2, wa_value = ''x''\<rparr>, rw_status = None\<rparr>) = Inr (rc1, ())
    \<and> wait_reply 2 rc1 7 = Inl Blocked"
  using failed_call_blocks [of "\<lambda>w addr m. (w, None)" "()" "''a''"
      "AWrite \<lparr>rw_args = \<lparr>wa_tid = 1, wa_key = 2, wa_value = ''x''\<rparr>, rw_status = None\<rparr>" "()" new_rpc_client 7 0]
  by (simp only: numeral_2_eq_2) blast

section \<open>The handlers of the server\<close>

text \<open>
  What happens to the server's handlers: a request arrives at a listening handler, a
  completion arrives for one that was replied to, the front request is taken, a request that
  was taken is replied to, a completed one is taken and deleted.
\<close>

definition taken :: "rpc_server \<Rightarrow> rid \<Rightarrow> bool" where
  "taken rs r \<longleftrightarrow> r \<notin> set (rs_request_queue rs)
     \<and> (\<exists>h. rs_handlers rs r = Some h \<and> hd_status h = PROCESS \<and> hd_request h \<noteq> None)"

definition finished :: "rpc_server \<Rightarrow> rid \<Rightarrow> bool" where
  "finished rs r \<longleftrightarrow> (\<exists>h. rs_handlers rs r = Some h \<and> hd_status h = FINISH)"

inductive rpc_run :: "rpc_server \<Rightarrow> rpc_server \<Rightarrow> bool" where
  rpc_start: "rpc_run rs rs"
| rpc_arrive: "rpc_run rs rs1 \<Longrightarrow> listening rs1 r (msg_type m) \<Longrightarrow> process_tag rs1 (r, Some m) = Inr rs2 \<Longrightarrow> rpc_run rs rs2"
| rpc_complete: "rpc_run rs rs1 \<Longrightarrow> finished rs1 r \<Longrightarrow> process_tag rs1 (r, None) = Inr rs2 \<Longrightarrow> rpc_run rs rs2"
| rpc_take: "rpc_run rs rs1 \<Longrightarrow> take_request rs1 = Inr (rs2, r, req) \<Longrightarrow> rpc_run rs rs2"
| rpc_reply: "rpc_run rs rs1 \<Longrightarrow> taken rs1 r \<Longrightarrow> sendReply rs1 r = Inr rs2 \<Longrightarrow> rpc_run rs rs2"
| rpc_take_reply: "rpc_run rs rs1 \<Longrightarrow> take_reply rs1 = Inr (rs2, r) \<Longrightarrow> rpc_run rs rs2"
| rpc_delete: "rpc_run rs rs1 \<Longrightarrow> deleteRequest rs1 r = Inr rs2 \<Longrightarrow> rpc_run rs rs2"

text \<open>A handler whose request has arrived: it can hand out its arguments.\<close>

definition takeable :: "handler \<Rightarrow> bool" where
  "takeable h \<longleftrightarrow> hd_status h = PROCESS \<and> (\<exists>m. hd_request h = Some m \<and> msg_type m = request_of (hd_args h))"

lemma takeable_args: "takeable h \<Longrightarrow> \<exists>h'. getRequest h = Inr (request_of (hd_args h)) \<and> getArgs h = Inr h'"
  by (auto simp: takeable_def getRequest_def getArgs_def request_of_def split: handler_args.splits request_msg.splits
      elim!: msg_type.elims)

lemma takeable_new: "msg_type m = req \<Longrightarrow> takeable ((new_handler req)\<lparr>hd_request := Some m\<rparr>)"
  by (cases req) (simp_all add: takeable_def request_of_def new_handler_defs)

definition rpc_live :: "rpc_server \<Rightarrow> bool" where
  "rpc_live rs \<longleftrightarrow> rpc_inv rs
     \<and> (\<forall>r\<in>set (rs_request_queue rs). \<exists>h. rs_handlers rs r = Some h \<and> takeable h)"

lemma rpc_live_inv: "rpc_live rs \<Longrightarrow> rpc_inv rs"
  by (simp add: rpc_live_def)

lemma rpc_live_queued:
  "rpc_live rs \<Longrightarrow> r \<in> set (rs_request_queue rs) \<Longrightarrow>
   \<exists>h. rs_handlers rs r = Some h \<and> takeable h"
  by (simp add: rpc_live_def)

lemma rpc_inv_listening: "rpc_inv rs \<Longrightarrow> \<exists>r. listening rs r req"
  by (simp add: rpc_inv_def)

text \<open>A change of one handler that does not listen.\<close>

lemma rpc_live_change:
  assumes "rpc_live rs" "rs_handlers rs r = Some h" "hd_request h \<noteq> None \<or> hd_status h = FINISH"
    and "r \<in> set q \<longrightarrow> (\<exists>h'. new = Some h' \<and> takeable h')"
    and "set q \<subseteq> set (rs_request_queue rs)"
  shows "rpc_live (rs\<lparr>rs_handlers := (rs_handlers rs)(r := new), rs_request_queue := q, rs_reply_queue := q2\<rparr>)"
proof -
  let ?rs' = "rs\<lparr>rs_handlers := (rs_handlers rs)(r := new), rs_request_queue := q, rs_reply_queue := q2\<rparr>"
  have l: "listening ?rs' r' req" if "listening rs r' req" for r' req
  proof -
    have "r' \<noteq> r" using that assms(2,3) by (auto simp: listening_def)
    with that assms(5) show ?thesis by (auto simp: listening_def)
  qed
  have "\<exists>r. listening ?rs' r req" for req
    using rpc_inv_listening [OF rpc_live_inv [OF assms(1)]] l by blast
  moreover have "\<exists>h. rs_handlers ?rs' r' = Some h \<and> takeable h"
    if "r' \<in> set q" for r'
    using that assms(4,5) rpc_live_queued [OF assms(1)] by (cases "r' = r") auto
  moreover have "rs_handlers ?rs' r' \<noteq> None \<Longrightarrow> 0 < r' \<and> r' < rs_next rs" for r'
    using rpc_live_inv [OF assms(1)] assms(2) by (auto simp: rpc_inv_def split: if_splits)
  moreover have "0 < rs_next rs" using rpc_live_inv [OF assms(1)] by (simp add: rpc_inv_def)
  ultimately show ?thesis unfolding rpc_live_def rpc_inv_def by (fastforce simp: subset_iff)
qed

lemma getArgs_keeps:
  "getArgs h = Inr h' \<Longrightarrow> hd_status h' = PROCESS \<and> hd_request h' = hd_request h \<and> hd_request h \<noteq> None
    \<and> request_of (hd_args h') = request_of (hd_args h)"
  by (auto simp: getArgs_defs request_of_def split: if_splits handler_args.splits option.splits request_msg.splits)

lemma setReply_finishes:
  "setReply h = Inr h' \<Longrightarrow> hd_status h = PROCESS \<and> hd_status h' = FINISH \<and> hd_request h' = hd_request h
    \<and> hd_args h' = hd_args h"
  by (cases "hd_args h") (auto simp: setReply_defs and_then_eq_Inr_iff split: if_splits)

lemma rpc_live_take:
  assumes "rpc_live rs" "take_request rs = Inr (rs', r, req)"
  shows "rpc_live rs'"
proof -
  from assms(2) obtain q h h' where h: "rs_request_queue rs = r # q" "rs_handlers rs r = Some h" "getArgs h = Inr h'"
    and rs': "rs' = rs\<lparr>rs_handlers := (rs_handlers rs)(r := Some h'), rs_request_queue := q, rs_reply_queue := rs_reply_queue rs\<rparr>"
    by (auto simp: take_request_def and_then_eq_Inr_iff need_def split: list.splits option.splits)
  show ?thesis unfolding rs'
    by (rule rpc_live_change [OF assms(1) h(2)])
      (use h getArgs_keeps [OF h(3)] rpc_live_queued [OF assms(1), of r] in \<open>auto simp: takeable_def\<close>)
qed

lemma rpc_live_reply:
  assumes "rpc_live rs" "taken rs r" "sendReply rs r = Inr rs'"
  shows "rpc_live rs'"
proof -
  from assms(3) obtain h h' where h: "rs_handlers rs r = Some h" "setReply h = Inr h'"
    and rs': "rs' = rs\<lparr>rs_handlers := (rs_handlers rs)(r := Some h'), rs_request_queue := rs_request_queue rs,
      rs_reply_queue := rs_reply_queue rs\<rparr>"
    by (auto simp: sendReply_def and_then_eq_Inr_iff need_def split: option.splits)
  show ?thesis unfolding rs'
    by (rule rpc_live_change [OF assms(1) h(1)]) (use h assms(2) in \<open>auto simp: taken_def\<close>)
qed

lemma rpc_live_delete:
  assumes "rpc_live rs" "deleteRequest rs r = Inr rs'"
  shows "rpc_live rs'"
proof -
  from assms(2) obtain h where h: "rs_handlers rs r = Some h" "hd_status h = FINISH"
    and rs': "rs' = rs\<lparr>rs_handlers := (rs_handlers rs)(r := None), rs_request_queue := rs_request_queue rs,
      rs_reply_queue := rs_reply_queue rs\<rparr>"
    by (auto simp: deleteRequest_def destroy_handler_def and_then_eq_Inr_iff need_def split: option.splits if_splits)
  show ?thesis unfolding rs'
    by (rule rpc_live_change [OF assms(1) h(1)]) (use h rpc_live_queued [OF assms(1), of r] in \<open>auto simp: takeable_def\<close>)
qed

lemma rpc_live_complete:
  assumes "rpc_live rs" "finished rs r" "process_tag rs (r, None) = Inr rs'"
  shows "rpc_live rs'"
proof -
  from assms(2) obtain h where h: "rs_handlers rs r = Some h" "hd_status h = FINISH" by (auto simp: finished_def)
  with assms(3) have rs': "rs' = rs\<lparr>rs_handlers := (rs_handlers rs)(r := Some h), rs_request_queue := rs_request_queue rs,
      rs_reply_queue := rs_reply_queue rs @ [r]\<rparr>"
    by (auto simp: process_tag_def receive_def Let_def)
  show ?thesis unfolding rs'
    by (rule rpc_live_change [OF assms(1) h(1)]) (use h rpc_live_queued [OF assms(1), of r] in \<open>auto simp: takeable_def\<close>)
qed

lemma rpc_live_arrive:
  assumes "rpc_live rs" "listening rs r (msg_type m)" "process_tag rs (r, Some m) = Inr rs'"
  shows "rpc_live rs'"
proof -
  from process_request [OF rpc_live_inv [OF assms(1)] assms(2), of m] assms(3) have
    p: "rpc_inv rs'" "rs_request_queue rs' = rs_request_queue rs @ [r]"
    "rs_handlers rs' r = Some ((new_handler (msg_type m))\<lparr>hd_request := Some m\<rparr>)" by auto
  have other: "rs_handlers rs' r' = rs_handlers rs r'" if "r' \<noteq> r" "r' \<in> set (rs_request_queue rs)" for r'
  proof -
    have "r' < rs_next rs"
      using that(2) rpc_live_queued [OF assms(1) that(2)] rpc_live_inv [OF assms(1)] by (auto simp: rpc_inv_def)
    with that(1) assms(3) show ?thesis
      by (auto simp: process_tag_def Let_def and_then_eq_Inr_iff prepareNextRequest_def split: option.splits if_splits)
  qed
  have "\<exists>h. rs_handlers rs' r' = Some h \<and> takeable h"
    if "r' \<in> set (rs_request_queue rs')" for r'
  proof (cases "r' = r")
    case True
    with p(3) takeable_new show ?thesis by simp
  next
    case False
    with that p(2) have "r' \<in> set (rs_request_queue rs)" by simp
    with rpc_live_queued [OF assms(1) this] other [OF False this] show ?thesis by simp
  qed
  with p(1) show ?thesis by (simp add: rpc_live_def)
qed

lemma rpc_live_take_reply: "rpc_live rs \<Longrightarrow> take_reply rs = Inr (rs', r) \<Longrightarrow> rpc_live rs'"
  by (auto simp: take_reply_def rpc_live_def rpc_inv_def listening_def split: list.splits)

lemma rpc_live_new: "rpc_live new_rpc_server"
  using rpc_inv_new by (simp add: rpc_live_def) (simp add: new_rpc_server_def prepareNextRequest_def)

lemma rpc_live_takes:
  assumes "rpc_live rs" "rs_request_queue rs = r # q"
  shows "\<exists>rs' h. nextRequest rs arrs = Inr (rs', r, request_of (hd_args h)) \<and> rs_handlers rs r = Some h \<and> rs_request_queue rs' = q"
proof -
  from rpc_live_queued [OF assms(1), of r] assms(2) obtain h where h: "rs_handlers rs r = Some h" "takeable h" by auto
  from takeable_args [OF h(2)] obtain h' where "getRequest h = Inr (request_of (hd_args h))" "getArgs h = Inr h'" by blast
  with h(1) assms(2) show ?thesis by (simp add: nextRequest.simps [of rs arrs] take_request_def)
qed

text \<open>
  C36: the server never stops listening: after any sequence of arrivals, requests taken, replies
  to requests that were taken, completions and deletions, there is a handler for each of the
  four types of request that waits for the next one; and when a request is queued, the next call
  of \<open>nextRequest\<close> returns it, with its type, and takes it off the queue.
\<close>
theorem server_always_listens:
  assumes "rpc_run new_rpc_server rs"
  shows "(\<exists>r. listening rs r req)
    \<and> (rs_request_queue rs \<noteq> [] \<longrightarrow> (\<exists>rs' h. nextRequest rs arrs
          = Inr (rs', hd (rs_request_queue rs), request_of (hd_args h))
        \<and> rs_handlers rs (hd (rs_request_queue rs)) = Some h \<and> rs_request_queue rs' = tl (rs_request_queue rs)))"
proof -
  have live: "rpc_live rs"
    using assms
  proof (induction new_rpc_server rs rule: rpc_run.induct)
    case rpc_start
    show ?case by (rule rpc_live_new)
  qed (blast intro: rpc_live_arrive rpc_live_complete rpc_live_take rpc_live_reply rpc_live_take_reply rpc_live_delete)+
  show ?thesis
  proof (intro conjI impI)
    show "\<exists>r. listening rs r req" by (rule rpc_inv_listening [OF rpc_live_inv [OF live]])
    assume "rs_request_queue rs \<noteq> []"
    then obtain r q where q: "rs_request_queue rs = r # q" by (cases "rs_request_queue rs") auto
    with rpc_live_takes [OF live q, of arrs] show "\<exists>rs' h. nextRequest rs arrs
          = Inr (rs', hd (rs_request_queue rs), request_of (hd_args h))
        \<and> rs_handlers rs (hd (rs_request_queue rs)) = Some h \<and> rs_request_queue rs' = tl (rs_request_queue rs)"
      by auto
  qed
qed

theorem server_always_listens_witness:
  "\<exists>rs r rs' req. rpc_run new_rpc_server rs \<and> listening rs r TWRITE
    \<and> nextRequest rs [] = Inr (rs', 2, req) \<and> rs_request_queue rs' = []"
proof -
  have l: "listening new_rpc_server 2 TWRITE" "rs_request_queue new_rpc_server = []"
    by (simp_all add: listening_def new_rpc_server_def prepareNextRequest_def numeral_eq_Suc)
  let ?m = "MWrite \<lparr>wq_tid = 1, wq_key = 2, wq_value = ''x''\<rparr>"
  from process_request [OF rpc_inv_new l(1), of ?m] l(2) obtain rs where
    rs: "process_tag new_rpc_server (2, Some ?m) = Inr rs" "rs_request_queue rs = [2]" by auto
  have "rpc_run new_rpc_server rs" by (rule rpc_arrive [OF rpc_start _ rs(1)]) (simp add: l(1))
  moreover obtain r where "listening rs r TWRITE"
    using server_always_listens [OF calculation, of TWRITE "[]"] by (elim conjE exE)
  moreover obtain rs' req where "nextRequest rs [] = Inr (rs', hd (rs_request_queue rs), req)"
    "rs_request_queue rs' = tl (rs_request_queue rs)"
    using server_always_listens [OF calculation(1), of TWRITE "[]"] rs(2) by (elim conjE impE exE) simp_all
  ultimately show ?thesis using rs(2) by (intro exI conjI) simp_all
qed

text \<open>
  A handler serves one request: until it is replied to it cannot be deleted; the reply
  finishes it, after which a second reply, and asking it for its type or its arguments, end
  the process, and it can be deleted.
\<close>
lemma handler_serves_once:
  assumes "rs_handlers rs r = Some h" "hd_status h = PROCESS" "setReply h = Inr h'"
  shows "deleteRequest rs r = Inl BadStatus
    \<and> (\<exists>rs'. sendReply rs r = Inr rs' \<and> sendReply rs' r = Inl BadStatus
        \<and> rs_handlers rs' r = Some h' \<and> getRequest h' = Inl BadStatus \<and> getArgs h' = Inl BadStatus
        \<and> (\<exists>rs''. deleteRequest rs' r = Inr rs'' \<and> rs_handlers rs'' r = None))"
proof -
  have f: "hd_status h' = FINISH" using setReply_finishes [OF assms(3)] by simp
  then have "setReply h' = Inl BadStatus"
    by (cases "hd_args h'") (simp_all add: setReply_defs)
  with assms f show ?thesis
    by (simp add: deleteRequest_def destroy_handler_def sendReply_def getRequest_def getArgs_def)
qed

lemma handler_serves_once_witness:
  "\<exists>rs. sendReply new_rpc_server 4 = Inr rs \<and> sendReply rs 4 = Inl BadStatus"
proof -
  have "rs_handlers new_rpc_server 4 = Some new_p2c_handler"
    by (simp add: new_rpc_server_def prepareNextRequest_def numeral_eq_Suc new_handler_def)
  moreover have "hd_status new_p2c_handler = PROCESS"
    "setReply new_p2c_handler = Inr (finish_reply new_p2c_handler (RP2C \<lparr>p2p_node = []\<rparr>))"
    by (simp_all add: setReply_defs new_handler_defs)
  ultimately show ?thesis using handler_serves_once by blast
qed

text \<open>
  \<open>nextCompletedReply\<close> processes one tag only: when that is a request, and no reply has been
  completed before, it takes the front of an empty queue.
\<close>

lemma completed_reply_takes_request:
  assumes "listening rs r (msg_type m)" "rs_reply_queue rs = []"
  shows "nextCompletedReply rs ((r, Some m) # arrs) = Inl NullPointer"
proof -
  obtain h where h: "rs_handlers rs r = Some h" "hd_status h = PROCESS" "\<exists>req. getRequest (receive h (Some m)) = Inr req"
    using assms(1) by (cases m) (auto simp: listening_def new_handler_defs getRequest_def receive_def)
  then show ?thesis using assms(2)
    by (auto simp: nextCompletedReply_def processSyncQueue_def process_tag_def receive_def prepareNextRequest_def take_reply_def Let_def)
qed

end
