(* ===== verification/Server_Types.thy ===== *)
theory Server_Types
  imports Server_Theorems RPC_Theorems
begin

text \<open>
  The casts of the server.  A request hands out its arguments as an untyped pointer, and an
  event keeps the pointer under the type of its class; here is why the types always agree.
\<close>

section \<open>Handlers keep their type\<close>

definition rpc_kinds :: "rpc_server \<Rightarrow> rpc_server \<Rightarrow> bool" where
  "rpc_kinds rs rs' \<longleftrightarrow> rs_next rs \<le> rs_next rs'
     \<and> ((\<forall>r h. rs_handlers rs r = Some h \<longrightarrow> r < rs_next rs) \<longrightarrow> (\<forall>r h. rs_handlers rs' r = Some h \<longrightarrow> r < rs_next rs'))
     \<and> (\<forall>r h'. r < rs_next rs \<longrightarrow> rs_handlers rs' r = Some h' \<longrightarrow>
          (\<exists>h. rs_handlers rs r = Some h \<and> request_of (hd_args h') = request_of (hd_args h)))"

lemma rpc_kinds_refl [simp]: "rpc_kinds rs rs"
  by (simp add: rpc_kinds_def)

lemma rpc_kinds_trans [trans]:
  assumes "rpc_kinds rs rs1" "rpc_kinds rs1 rs2"
  shows "rpc_kinds rs rs2"
proof -
  have "\<exists>h. rs_handlers rs r = Some h \<and> request_of (hd_args h2) = request_of (hd_args h)"
    if r: "r < rs_next rs" "rs_handlers rs2 r = Some h2" for r h2
  proof -
    have "r < rs_next rs1" using r(1) assms(1) by (simp add: rpc_kinds_def)
    with r(2) assms(2) obtain h1 where h1: "rs_handlers rs1 r = Some h1" "request_of (hd_args h2) = request_of (hd_args h1)"
      unfolding rpc_kinds_def by blast
    from r(1) h1(1) assms(1) obtain h where "rs_handlers rs r = Some h" "request_of (hd_args h1) = request_of (hd_args h)"
      unfolding rpc_kinds_def by blast
    with h1(2) show ?thesis by simp
  qed
  then show ?thesis using assms unfolding rpc_kinds_def by (meson order_trans)
qed

lemma rpc_kinds_queues [simp]:
  "rpc_kinds rs (rs\<lparr>rs_request_queue := q\<rparr>)" "rpc_kinds rs (rs\<lparr>rs_reply_queue := q\<rparr>)"
  by (simp_all add: rpc_kinds_def)

lemma rpc_kinds_handler:
  "rs_handlers rs r = Some h \<Longrightarrow> request_of (hd_args h') = request_of (hd_args h) \<Longrightarrow>
   rpc_kinds rs (rs\<lparr>rs_handlers := (rs_handlers rs)(r \<mapsto> h')\<rparr>)"
  by (auto simp: rpc_kinds_def)

lemma rpc_kinds_prepare [simp]: "rpc_kinds rs (prepareNextRequest rs req)"
  by (auto simp: rpc_kinds_def prepareNextRequest_def less_Suc_eq)

lemma receive_args [simp]: "hd_args (receive h m) = hd_args h"
  by (simp add: receive_def split: option.split)

lemma rpc_kinds_tag:
  assumes "process_tag rs arr = Inr rs'"
  shows "rpc_kinds rs rs'"
proof -
  from assms obtain h where h: "rs_handlers rs (fst arr) = Some h"
    by (auto simp: process_tag_def split: option.splits)
  let ?rs1 = "rs\<lparr>rs_handlers := (rs_handlers rs)(fst arr \<mapsto> receive h (snd arr))\<rparr>"
  have k: "rpc_kinds rs ?rs1" by (rule rpc_kinds_handler [OF h]) simp
  have "rpc_kinds ?rs1 rs'"
    using assms h
    by (auto simp: process_tag_def Let_def and_then_eq_Inr_iff split: if_splits
        intro: rpc_kinds_trans [OF rpc_kinds_queues(1) rpc_kinds_prepare])
  with k show ?thesis by (rule rpc_kinds_trans)
qed

lemma rpc_kinds_async: "processAsyncQueue rs arrs = Inr rs' \<Longrightarrow> rpc_kinds rs rs'"
  by (induction rs arrs rule: processAsyncQueue.induct)
    (auto simp: and_then_eq_Inr_iff intro: rpc_kinds_trans [OF rpc_kinds_tag])

lemma rpc_kinds_take:
  assumes "take_request rs = Inr (rs', r, req)"
  shows "rpc_kinds rs rs'" "\<exists>h. rs_handlers rs' r = Some h"
proof -
  from assms obtain q h h' where h: "rs_handlers rs r = Some h" "getArgs h = Inr h'"
    "rs' = rs\<lparr>rs_request_queue := q, rs_handlers := (rs_handlers rs)(r \<mapsto> h')\<rparr>"
    by (auto simp: take_request_def and_then_eq_Inr_iff need_def split: list.splits option.splits)
  have "rpc_kinds (rs\<lparr>rs_request_queue := q\<rparr>) rs'"
    unfolding h(3) using rpc_kinds_handler [of "rs\<lparr>rs_request_queue := q\<rparr>" r h h'] h(1) getArgs_keeps [OF h(2)] by simp
  then show "rpc_kinds rs rs'" by (rule rpc_kinds_trans [OF rpc_kinds_queues(1)])
  show "\<exists>h. rs_handlers rs' r = Some h" using h(3) by simp
qed

lemma rpc_kinds_next:
  assumes "asyncNextRequest rs arrs = Inr (rs', req)"
  shows "rpc_kinds rs rs'" "req = Some (r, k) \<Longrightarrow> \<exists>h. rs_handlers rs' r = Some h"
proof -
  from assms obtain rs1 where p: "processAsyncQueue rs arrs = Inr rs1"
    and n: "(if rs_request_queue rs1 = [] then Inr (rs1, None)
       else and_then (take_request rs1) (\<lambda>(rs, r, req). Inr (rs, Some (r, req)))) = Inr (rs', req)"
    by (auto simp: asyncNextRequest_def and_then_eq_Inr_iff)
  show "rpc_kinds rs rs'"
    using n rpc_kinds_async [OF p]
    by (auto simp: and_then_eq_Inr_iff split: if_splits intro: rpc_kinds_trans [OF _ rpc_kinds_take(1)])
  show "req = Some (r, k) \<Longrightarrow> \<exists>h. rs_handlers rs' r = Some h"
    using n by (auto simp: and_then_eq_Inr_iff split: if_splits dest: rpc_kinds_take(2))
qed

lemma rpc_kinds_completed: "asyncNextCompletedReply rs arrs = Inr (rs', r) \<Longrightarrow> rpc_kinds rs rs'"
  by (auto simp: asyncNextCompletedReply_def take_reply_def and_then_eq_Inr_iff split: if_splits list.splits
      dest!: rpc_kinds_async intro: rpc_kinds_trans [OF _ rpc_kinds_queues(2)])

lemma rpc_kinds_reply:
  assumes "sendReply rs r = Inr rs'"
  shows "rpc_kinds rs rs'"
proof -
  from assms obtain h h' where h: "rs_handlers rs r = Some h" "setReply h = Inr h'"
    "rs' = rs\<lparr>rs_handlers := (rs_handlers rs)(r \<mapsto> h')\<rparr>"
    by (auto simp: sendReply_def and_then_eq_Inr_iff need_def split: option.splits)
  show ?thesis
    unfolding h(3) by (rule rpc_kinds_handler [OF h(1)]) (simp add: setReply_finishes [OF h(2)])
qed

lemma rpc_kinds_delete: "deleteRequest rs r = Inr rs' \<Longrightarrow> rpc_kinds rs rs'"
  by (auto simp: deleteRequest_def and_then_eq_Inr_iff rpc_kinds_def split: if_splits)

section \<open>Events keep the type of their arguments\<close>

definition serves :: "tserver \<Rightarrow> rid \<Rightarrow> request_t \<Rightarrow> bool" where
  "serves s r kind \<longleftrightarrow> (\<forall>h. rs_handlers (ts_rpc s) r = Some h \<longrightarrow> request_of (hd_args h) = kind)"

definition typed :: "tserver \<Rightarrow> bool" where
  "typed s \<longleftrightarrow> (\<forall>r h. rs_handlers (ts_rpc s) r = Some h \<longrightarrow> r < rs_next (ts_rpc s))
     \<and> (\<forall>ev e. ts_events s ev = Some e \<longrightarrow> se_rid e < rs_next (ts_rpc s) \<and> serves s (se_rid e) (se_kind e))"

lemma typed_rpc:
  assumes "typed s" "rpc_kinds (ts_rpc s) (ts_rpc s')" "ts_events s' = ts_events s"
  shows "typed s'"
proof -
  have "se_rid e < rs_next (ts_rpc s') \<and> serves s' (se_rid e) (se_kind e)" if "ts_events s' ev = Some e" for ev e
  proof -
    from that assms(1,3) have e: "se_rid e < rs_next (ts_rpc s)" "serves s (se_rid e) (se_kind e)"
      by (auto simp: typed_def)
    with assms(2) show ?thesis unfolding rpc_kinds_def serves_def by fastforce
  qed
  with assms(1,2) show ?thesis unfolding typed_def rpc_kinds_def by blast
qed

lemma typed_cong: "ts_rpc s' = ts_rpc s \<Longrightarrow> ts_events s' = ts_events s \<Longrightarrow> typed s' = typed s"
  by (simp add: typed_def serves_def)

lemma serves_cong: "ts_rpc s' = ts_rpc s \<Longrightarrow> serves s' r kind = serves s r kind"
  by (simp add: serves_def)

lemma serves_set_args: "request_of args = kind \<Longrightarrow> serves s r kind \<Longrightarrow> serves (set_args s r args) r kind"
  by (auto simp: serves_def set_args_def split: option.splits)

lemma typed_set_args:
  assumes "typed s" "serves s r (request_of args)"
  shows "typed (set_args s r args)"
proof (cases "rs_handlers (ts_rpc s) r")
  case None
  with assms show ?thesis by (simp add: set_args_def)
next
  case (Some h)
  with assms(2) rpc_kinds_handler [OF Some, of "h\<lparr>hd_args := args\<rparr>"]
  have "rpc_kinds (ts_rpc s) (ts_rpc (set_args s r args))" by (simp add: set_args_def serves_def)
  from typed_rpc [OF assms(1) this] show ?thesis by (simp add: set_args_def split: option.split)
qed

lemma typed_sendReply: "typed s \<Longrightarrow> server_sendReply s r = Inr s' \<Longrightarrow> typed s'"
  by (auto simp: server_sendReply_def and_then_eq_Inr_iff intro: typed_rpc [OF _ rpc_kinds_reply])

lemma typed_set_phase:
  assumes "typed s"
  shows "typed (set_phase s ev p)"
proof (cases "ts_events s ev")
  case None
  with assms show ?thesis by (simp add: set_phase_def)
next
  case (Some e)
  with assms have "se_rid e < rs_next (ts_rpc s) \<and> serves s (se_rid e) (se_kind e)" by (auto simp: typed_def)
  with assms Some show ?thesis by (auto simp: typed_def set_phase_def serves_def)
qed

lemma typed_event:
  assumes "typed s" "serves s r kind" "rs_handlers (ts_rpc s) r = Some h" "make_event s kind r = (s', ev)"
  shows "typed s'"
proof -
  have "r < rs_next (ts_rpc s)" using assms(1,3) by (auto simp: typed_def)
  with assms show ?thesis by (auto simp: make_event_def new_event_def typed_def serves_def split: if_splits)
qed

lemma set_args_handler:
  "rs_handlers (ts_rpc s) r = Some h \<Longrightarrow> rs_handlers (ts_rpc (set_args s r args)) r = Some (h\<lparr>hd_args := args\<rparr>)"
  by (simp add: set_args_def)

text \<open>A request becomes an event of its own type.\<close>

lemma typed_reply_only: "typed s \<Longrightarrow> reply_only s r = Inr (s', ev) \<Longrightarrow> typed s'"
  by (auto simp: reply_only_def and_then_eq_Inr_iff intro: typed_sendReply)

lemmas nodes_keep_handlers =
  note_tid_same [unfolded same_handlers_def] note_write_tid_same [unfolded same_handlers_def]
  take_nodes_same [unfolded same_handlers_def] take_write_nodes_same [unfolded same_handlers_def]

text \<open>The state in which an event is made: a reply-worthy handler with arguments of the type.\<close>

lemma typed_make:
  assumes "typed s" "rs_handlers (ts_rpc s) r = Some h" "request_of (hd_args h) = request_of args"
    and "ts_rpc s1 = ts_rpc (set_args s r args)" "ts_events s1 = ts_events s"
    and "make_event s1 (request_of args) r = (s', ev)"
  shows "typed s'"
proof -
  have t: "typed (set_args s r args)" using assms(1-3) by (intro typed_set_args) (simp_all add: serves_def)
  moreover have "ts_events (set_args s r args) = ts_events s" by (simp add: set_args_def split: option.split)
  ultimately have "typed s1" using typed_cong [OF assms(4)] assms(5) by simp
  then show ?thesis
    using assms(4) set_args_handler [OF assms(2), of args]
    by (intro typed_event [OF _ _ _ assms(6)]) (simp_all add: serves_def)
qed

lemma set_args_events [simp]: "ts_events (set_args s r x) = ts_events s"
  by (simp add: set_args_def split: option.split)

lemma typed_dispatch_read:
  assumes "typed s" "rs_handlers (ts_rpc s) r = Some h" "hd_args h = ARead a"
    and d: "dispatch_read mapper s r a = Inr (s', ev)"
  shows "typed s'"
proof (cases "mapper (ra_key (rr_args a)) \<in> set (ts_nodes s)")
  case True
  let ?x = "ARead (a\<lparr>rr_status := Some True\<rparr>)"
  from d True obtain s1 where n: "note_tid (set_args s r ?x) (ra_tid (rr_args a)) (mapper (ra_key (rr_args a))) = Inr s1"
      and m: "make_event s1 (request_of ?x) r = (s', ev)"
    by (auto simp: dispatch_read_def Let_def and_then_eq_Inr_iff request_of_def)
  show ?thesis
    by (rule typed_make [OF assms(1,2), of ?x, OF _ _ _ m])
      (use nodes_keep_handlers(1) [OF n] assms(3) in \<open>simp_all add: request_of_def\<close>)
next
  case False
  let ?x = "ARead (a\<lparr>rr_status := Some False\<rparr>)"
  from d False have "reply_only (set_args s r ?x) r = Inr (s', ev)"
    by (simp add: dispatch_read_def Let_def)
  moreover have "typed (set_args s r ?x)"
    using assms(1-3) by (intro typed_set_args) (simp_all add: serves_def request_of_def)
  ultimately show ?thesis by (rule typed_reply_only [rotated])
qed

lemma typed_dispatch_write:
  assumes "typed s" "rs_handlers (ts_rpc s) r = Some h" "hd_args h = AWrite a"
    and d: "dispatch_write mapper s r a = Inr (s', ev)"
  shows "typed s'"
proof (cases "mapper (wa_key (rw_args a)) \<in> set (ts_nodes s)")
  case True
  let ?x = "AWrite (a\<lparr>rw_status := Some True\<rparr>)"
  from d True obtain s1 s2 where n: "note_tid (set_args s r ?x) (wa_tid (rw_args a)) (mapper (wa_key (rw_args a))) = Inr s1"
      "note_write_tid s1 (wa_tid (rw_args a)) (mapper (wa_key (rw_args a))) = Inr s2"
      and m: "make_event s2 (request_of ?x) r = (s', ev)"
    by (auto simp: dispatch_write_def Let_def and_then_eq_Inr_iff request_of_def)
  show ?thesis
    by (rule typed_make [OF assms(1,2), of ?x, OF _ _ _ m])
      (use nodes_keep_handlers(1) [OF n(1)] nodes_keep_handlers(2) [OF n(2)] assms(3) in \<open>simp_all add: request_of_def\<close>)
next
  case False
  let ?x = "AWrite (a\<lparr>rw_status := Some False\<rparr>)"
  from d False have "reply_only (set_args s r ?x) r = Inr (s', ev)"
    by (simp add: dispatch_write_def Let_def)
  moreover have "typed (set_args s r ?x)"
    using assms(1-3) by (intro typed_set_args) (simp_all add: serves_def request_of_def)
  ultimately show ?thesis by (rule typed_reply_only [rotated])
qed

text \<open>The two commit phases differ in the table that the nodes come from.\<close>

lemma typed_dispatch_commit:
  assumes "typed s" "rs_handlers (ts_rpc s) r = Some h"
    and same: "ts_rpc s1 = ts_rpc s \<and> ts_events s1 = ts_events s"
    and kind: "\<And>nodes. request_of (f nodes) = request_of (hd_args h)"
    and d: "(case ns of None \<Rightarrow> reply_only s1 r
      | Some nodes \<Rightarrow> Inr (make_event (set_args s1 r (f nodes)) (request_of (hd_args h)) r)) = Inr (s', ev)"
  shows "typed s'"
proof (cases ns)
  case None
  have "typed s1" using typed_cong [of s1 s] same assms(1) by simp
  with d None show ?thesis by (auto intro: typed_reply_only)
next
  case (Some nodes)
  with d kind have m: "make_event (set_args s1 r (f nodes)) (request_of (f nodes)) r = (s', ev)" by simp
  show ?thesis
    by (rule typed_make [OF assms(1,2) _ _ _ m]) (use same kind in \<open>simp_all add: set_args_def split: option.split\<close>)
qed

lemma typed_dispatch:
  assumes "typed s" "dispatch mapper s req r = Inr (s', ev)"
  shows "typed s'"
proof -
  from assms(2) obtain h where h: "rs_handlers (ts_rpc s) r = Some h"
    by (auto simp: dispatch_def args_of_def and_then_eq_Inr_iff need_def split: option.splits)
  note d0 = assms(2) [unfolded dispatch_def args_of_def h]
  from dispatch_typed [OF assms(2)] h have req: "req = request_of (hd_args h)" by (auto simp: args_of_def)
  note d = d0 [unfolded req]
  show ?thesis
  proof (cases "hd_args h")
    case (ARead a)
    with d typed_dispatch_read [OF assms(1) h] show ?thesis by (simp add: request_of_def)
  next
    case (AWrite a)
    with d typed_dispatch_write [OF assms(1) h] show ?thesis by (simp add: request_of_def)
  next
    case (AP1C a)
    with d obtain s1 ns where t: "take_write_nodes s (p1_tid (rp1_args a)) = Inr (s1, ns)"
      and c: "(case ns of None \<Rightarrow> reply_only s1 r
        | Some nodes \<Rightarrow> Inr (make_event (set_args s1 r (AP1C (a\<lparr>rp1_nodes := nodes\<rparr>))) TP1C r)) = Inr (s', ev)"
      by (auto simp: dispatch_p1c_def request_of_def and_then_eq_Inr_iff)
    show ?thesis
      by (rule typed_dispatch_commit [OF assms(1) h nodes_keep_handlers(4) [OF t],
            where f = "\<lambda>ns. AP1C (a\<lparr>rp1_nodes := ns\<rparr>)" and ns = ns and ev = ev])
        (use c in \<open>simp_all add: AP1C request_of_def cong: option.case_cong\<close>)
  next
    case (AP2C a)
    with d obtain s1 ns where t: "take_nodes s (p2_tid (rp2_args a)) = Inr (s1, ns)"
      and c: "(case ns of None \<Rightarrow> reply_only s1 r
        | Some nodes \<Rightarrow> Inr (make_event (set_args s1 r (AP2C (a\<lparr>rp2_nodes := nodes\<rparr>))) TP2C r)) = Inr (s', ev)"
      by (auto simp: dispatch_p2c_def request_of_def and_then_eq_Inr_iff)
    show ?thesis
      by (rule typed_dispatch_commit [OF assms(1) h nodes_keep_handlers(3) [OF t],
            where f = "\<lambda>ns. AP2C (a\<lparr>rp2_nodes := ns\<rparr>)" and ns = ns and ev = ev])
        (use c in \<open>simp_all add: AP2C request_of_def cong: option.case_cong\<close>)
  qed
qed

lemma typed_round:
  assumes "typed s" "getEvent_round mapper s arrs = Inr (s', ev)"
  shows "typed s'"
proof -
  obtain got ev0 q where q: "tryDequeue (ts_queue s) 0 = (got, ev0, q)" by (cases "tryDequeue (ts_queue s) 0")
  show ?thesis
  proof (cases got)
    case True
    with assms q have "s' = s\<lparr>ts_queue := q\<rparr>" by (simp add: getEvent_round_def)
    with assms(1) show ?thesis by (simp add: typed_def serves_def)
  next
    case False
    with assms(2) q obtain rpc req where n: "asyncNextRequest (ts_rpc s) (fst arrs) = Inr (rpc, req)"
      and c: "(case req of Some (r, req) \<Rightarrow> dispatch mapper (s\<lparr>ts_rpc := rpc\<rparr>) req r
        | None \<Rightarrow> and_then (asyncNextCompletedReply rpc (snd arrs)) (\<lambda>(rpc, replied).
            case replied of None \<Rightarrow> Inr (s\<lparr>ts_rpc := rpc\<rparr>, None)
            | Some r \<Rightarrow> and_then (deleteRequest rpc r) (\<lambda>rpc. Inr (s\<lparr>ts_rpc := rpc\<rparr>, None)))) = Inr (s', ev)"
      by (auto simp: getEvent_round_def and_then_eq_Inr_iff)
    have k: "rpc_kinds (ts_rpc s) rpc" by (rule rpc_kinds_next(1) [OF n])
    then have t: "typed (s\<lparr>ts_rpc := rpc\<rparr>)" using typed_rpc [OF assms(1)] by simp
    show ?thesis
    proof (cases req)
      case (Some p)
      with c t show ?thesis by (auto simp: split_beta intro: typed_dispatch)
    next
      case None
      with c obtain rpc1 rep where r: "asyncNextCompletedReply rpc (snd arrs) = Inr (rpc1, rep)"
        and c1: "(case rep of None \<Rightarrow> Inr (s\<lparr>ts_rpc := rpc1\<rparr>, None)
            | Some r \<Rightarrow> and_then (deleteRequest rpc1 r) (\<lambda>rpc. Inr (s\<lparr>ts_rpc := rpc\<rparr>, None))) = Inr (s', ev)"
        by (auto simp: and_then_eq_Inr_iff)
      have k1: "rpc_kinds (ts_rpc s) rpc1" by (rule rpc_kinds_trans [OF k rpc_kinds_completed [OF r]])
      show ?thesis
      proof (cases rep)
        case None
        with c1 k1 show ?thesis using typed_rpc [OF assms(1)] by auto
      next
        case (Some r)
        with c1 obtain rpc2 where "deleteRequest rpc1 r = Inr rpc2" "s' = s\<lparr>ts_rpc := rpc2\<rparr>"
          by (auto simp: and_then_eq_Inr_iff)
        with typed_rpc [OF assms(1)] rpc_kinds_trans [OF k1 rpc_kinds_delete] show ?thesis by simp
      qed
    qed
  qed
qed

section \<open>Running events keeps the types\<close>

lemma typed_serves: "typed s \<Longrightarrow> ts_events s ev = Some e \<Longrightarrow> serves s (se_rid e) (se_kind e)"
  by (simp add: typed_def)

text \<open>Updates that touch neither handlers nor events, and phases.\<close>

lemma finalize_kinds [simp]: "ts_events (finalize s tid vote) = ts_events s"
proof -
  have "ts_events (set_all s ts ws) = ts_events s" for ts ws
    by (induction s ts ws rule: set_all.induct) (simp_all add: set_version_def Let_def)
  then show ?thesis by (simp add: finalize_def Let_def split: option.split)
qed

lemma finalize_rpc [simp]: "ts_rpc (finalize s tid vote) = ts_rpc s"
proof -
  have "ts_rpc (set_all s ts ws) = ts_rpc s" for ts ws
    by (induction s ts ws rule: set_all.induct) (simp_all add: set_version_def Let_def)
  then show ?thesis by (simp add: finalize_def Let_def split: option.split)
qed

lemma typed_simps [simp]:
  "typed (s\<lparr>ts_locks := m\<rparr>) = typed s" "typed (finalize s tid vote) = typed s"
  "typed (prepare s tid ts) = typed s" "typed (add s tid key val) = typed s"
  by (rule typed_cong; simp add: prepare_def add_def Let_def)+

lemma serves_simps [simp]:
  "serves (s\<lparr>ts_locks := m\<rparr>) r k = serves s r k" "serves (set_phase s ev p) r k = serves s r k"
  by (rule serves_cong; simp add: set_phase_def split: option.split)+

lemma typed_read_phase_1:
  assumes "typed s" "serves s (se_rid e) TREAD" "read_phase_1 s ev e a = Inr s'"
  shows "typed s'"
proof -
  let ?x = "ARead (a\<lparr>rr_value := get (set_phase s ev 2) (ra_key (rr_args a)) (ra_start_ts (rr_args a) - 1)\<rparr>)"
  have "typed (set_args (set_phase s ev 2) (se_rid e) ?x)"
    using assms(1,2) by (intro typed_set_args typed_set_phase) (simp_all add: request_of_def)
  with assms(3) show ?thesis
    by (auto simp: read_phase_1_def Let_def and_then_eq_Inr_iff intro: typed_sendReply)
qed

lemma typed_read:
  assumes "typed s" "serves s (se_rid e) TREAD" "run_read s ev e a = Inr s'"
  shows "typed s'"
proof (cases "se_phase e = 0")
  case True
  from assms(3) True obtain m granted start where
    r: "(let a = a\<lparr>rr_args := (rr_args a)\<lparr>ra_start_ts := start\<rparr>\<rparr>;
             s = set_args (s\<lparr>ts_locks := m\<rparr>) (se_rid e) (ARead a)
         in if granted then read_phase_1 (set_phase s ev 1) ev e a else Inr s) = Inr s'"
    by (auto simp: run_read_def and_then_eq_Inr_iff)
  let ?a = "a\<lparr>rr_args := (rr_args a)\<lparr>ra_start_ts := start\<rparr>\<rparr>"
  let ?s = "set_args (s\<lparr>ts_locks := m\<rparr>) (se_rid e) (ARead ?a)"
  have t: "typed ?s" using assms(1,2) by (intro typed_set_args) (simp_all add: request_of_def)
  have "serves ?s (se_rid e) TREAD" using assms(2) by (intro serves_set_args) (simp_all add: request_of_def)
  with r t show ?thesis
    by (auto simp: Let_def intro: typed_set_phase typed_read_phase_1 [of "set_phase ?s ev 1"] split: if_splits)
next
  case False
  with assms show ?thesis by (auto simp: run_read_def intro: typed_read_phase_1 split: if_splits)
qed

lemma typed_write:
  assumes "typed s" "run_write s ev e a = Inr s'"
  shows "typed s'"
proof -
  let ?s = "add (set_phase s ev 1) (wa_tid (rw_args a)) (wa_key (rw_args a)) (wa_value (rw_args a))"
  have "server_sendReply ?s (se_rid e) = Inr s'"
    using assms(2) by (simp add: run_write_def Let_def split: if_splits)
  moreover have "typed ?s" using typed_set_phase [OF assms(1)] by simp
  ultimately show ?thesis by (rule typed_sendReply [rotated])
qed

lemma typed_p1c:
  assumes "typed s" "serves s (se_rid e) TP1C" "run_p1c s ev e a = Inr s'"
  shows "typed s'"
proof -
  from assms(3) obtain m a1 where
    "server_sendReply (prepare (set_args ((set_phase s ev 1)\<lparr>ts_locks := m\<rparr>) (se_rid e) (AP1C a1))
      (p1_tid (rp1_args a)) (p1_commit_ts (rp1_args a))) (se_rid e) = Inr s'"
    by (auto simp: run_p1c_def Let_def and_then_eq_Inr_iff split: if_splits)
  moreover have "typed (set_args ((set_phase s ev 1)\<lparr>ts_locks := m\<rparr>) (se_rid e) (AP1C a1))"
    using assms(1,2) by (intro typed_set_args) (simp_all add: typed_set_phase request_of_def)
  then have "typed (prepare (set_args ((set_phase s ev 1)\<lparr>ts_locks := m\<rparr>) (se_rid e) (AP1C a1))
      (p1_tid (rp1_args a)) (p1_commit_ts (rp1_args a)))" by simp
  ultimately show ?thesis by (rule typed_sendReply [rotated])
qed

lemma typed_run_list:
  "(\<forall>s ev s'. typed s \<longrightarrow> run s ev = Inr s' \<longrightarrow> typed s') \<Longrightarrow> typed s \<Longrightarrow> run_list run s evs = Inr s' \<Longrightarrow> typed s'"
  by (induction evs arbitrary: s) (auto simp: and_then_eq_Inr_iff)

lemma typed_p2c:
  assumes "\<And>s ev s'. typed s \<Longrightarrow> run s ev = Inr s' \<Longrightarrow> typed s'" "typed s" "run_p2c run s ev e a = Inr s'"
  shows "typed s'"
proof (cases "se_phase e = 0")
  case True
  with assms(3) obtain m events s1 where
    "run_list run ((set_phase s ev 1)\<lparr>ts_locks := m\<rparr>) events = Inr s1"
    and r: "server_sendReply (finalize s1 (p2_tid (rp2_args a)) (p2_vote (rp2_args a))) (se_rid e) = Inr s'"
    by (auto simp: run_p2c_def Let_def and_then_eq_Inr_iff)
  moreover have "typed ((set_phase s ev 1)\<lparr>ts_locks := m\<rparr>)" using assms(2) by (simp add: typed_set_phase)
  ultimately have "typed s1" using typed_run_list [of run] assms(1) by blast
  then have "typed (finalize s1 (p2_tid (rp2_args a)) (p2_vote (rp2_args a)))" by simp
  then show ?thesis using typed_sendReply r by blast
next
  case False
  with assms(2,3) show ?thesis by (auto simp: run_p2c_def split: if_splits)
qed

lemma typed_run_event: "typed s \<Longrightarrow> run_event d s ev = Inr s' \<Longrightarrow> typed s'"
proof (induction d arbitrary: s ev s')
  case (Suc d)
  from Suc.prems(2) obtain e args where e: "ts_events s ev = Some e"
    and r: "(case (se_kind e, args) of
         (TREAD, ARead a) \<Rightarrow> run_read s ev e a
       | (TWRITE, AWrite a) \<Rightarrow> run_write s ev e a
       | (TP1C, AP1C a) \<Rightarrow> run_p1c s ev e a
       | (TP2C, AP2C a) \<Rightarrow> run_p2c (run_event d) s ev e a
       | _ \<Rightarrow> Inl BadCast) = Inr s'"
    by (auto simp: and_then_eq_Inr_iff need_def split: option.splits)
  note s = typed_serves [OF Suc.prems(1) e]
  show ?case
  proof (cases args)
    case (ARead a)
    with r s show ?thesis by (cases "se_kind e") (simp_all add: typed_read [OF Suc.prems(1)])
  next
    case (AWrite a)
    with r show ?thesis by (cases "se_kind e") (simp_all add: typed_write [OF Suc.prems(1)])
  next
    case (AP1C a)
    with r s show ?thesis by (cases "se_kind e") (simp_all add: typed_p1c [OF Suc.prems(1)])
  next
    case (AP2C a)
    with r have "run_p2c (run_event d) s ev e a = Inr s'" by (cases "se_kind e") simp_all
    with Suc.IH Suc.prems(1) show ?thesis using typed_p2c [of "run_event d" s ev e a s'] by blast
  qed
qed simp

lemma typed_any_run:
  assumes "any_run mapper s s'" "typed s"
  shows "typed s'"
  using assms
proof (induction rule: any_run.induct)
  case (any_add s s1 ev s2)
  then show ?case by (auto simp: server_addEvent_def and_then_eq_Inr_iff typed_def serves_def)
next
  case (any_wait s s1 arrs rpc r req args)
  have "typed (s1\<lparr>ts_rpc := rpc\<rparr>)"
    using rpc_kinds_next(1) [OF any_wait.hyps(2)] by (intro typed_rpc [OF any_wait.IH [OF any_wait.prems]]) simp_all
  then show ?case
    using asyncNextRequest_typed [OF any_wait.hyps(2)] any_wait.hyps(4)
    by (intro typed_set_args) (auto simp: serves_def)
next
  case (any_poll s s1 arrs s2 ev)
  then show ?case using typed_round by blast
next
  case (any_event s s1 d ev s2)
  then show ?case using typed_run_event by blast
qed

section \<open>Casts\<close>

lemma and_then_cast: "and_then x f = Inl BadCast \<longleftrightarrow> x = Inl BadCast \<or> (\<exists>y. x = Inr y \<and> f y = Inl BadCast)"
  by (cases x) simp_all

lemma need_cast [simp]: "need err x = Inl BadCast \<longleftrightarrow> x = None \<and> err = BadCast"
  by (cases x) (auto simp: need_def)

text \<open>The completion queue and the handlers do not fail that way.\<close>

lemma handler_casts [simp]:
  "getRequest h \<noteq> Inl BadCast" "getArgs h \<noteq> Inl BadCast" "setReply h \<noteq> Inl BadCast" "destroy_handler h \<noteq> Inl BadCast"
  by (auto simp: getRequest_def getArgs_def setReply_defs destroy_handler_def Let_def and_then_cast
      split: if_splits handler_args.splits option.splits request_msg.splits)

lemma process_tag_cast [simp]: "process_tag rs arr \<noteq> Inl BadCast"
  by (simp add: process_tag_def Let_def and_then_cast split: option.split)

lemma queue_casts [simp]: "processAsyncQueue rs arrs \<noteq> Inl BadCast"
  by (induction rs arrs rule: processAsyncQueue.induct) (simp_all add: and_then_cast)

lemma rpc_casts [simp]:
  "asyncNextRequest rs arrs \<noteq> Inl BadCast" "asyncNextCompletedReply rs arrs \<noteq> Inl BadCast"
  "deleteRequest rs r \<noteq> Inl BadCast" "sendReply rs r \<noteq> Inl BadCast"
  by (auto simp: asyncNextRequest_def take_request_def asyncNextCompletedReply_def take_reply_def deleteRequest_def
      sendReply_def and_then_cast split: list.splits if_splits)

lemma reply_casts [simp]: "server_sendReply s r \<noteq> Inl BadCast" "reply_only s r \<noteq> Inl BadCast"
  by (simp_all add: server_sendReply_def reply_only_def and_then_cast)

lemma node_casts [simp]:
  "note_tid s tid node \<noteq> Inl BadCast" "note_write_tid s tid node \<noteq> Inl BadCast"
  "take_nodes s tid \<noteq> Inl BadCast" "take_write_nodes s tid \<noteq> Inl BadCast"
  by (simp_all add: note_tid_def note_write_tid_def take_nodes_def take_write_nodes_def lock_tid_def
      lock_tid_write_def and_then_cast split: option.split)

lemma dispatch_casts [simp]:
  "dispatch_read mapper s r a \<noteq> Inl BadCast" "dispatch_write mapper s r b \<noteq> Inl BadCast"
  "dispatch_p1c s r c \<noteq> Inl BadCast" "dispatch_p2c s r d \<noteq> Inl BadCast"
  by (auto simp: dispatch_read_def dispatch_write_def dispatch_p1c_def dispatch_p2c_def Let_def and_then_cast
      split: option.splits)

text \<open>The type that a request is returned with is the one of its arguments.\<close>

lemma dispatch_cast:
  "rs_handlers (ts_rpc s) r = Some h \<Longrightarrow> request_of (hd_args h) = req \<Longrightarrow> dispatch mapper s req r \<noteq> Inl BadCast"
  by (cases "hd_args h") (auto simp: dispatch_def args_of_def request_of_def)

lemma round_cast: "getEvent_round mapper s arrs \<noteq> Inl BadCast"
  by (auto simp: getEvent_round_def Let_def split_beta and_then_cast dispatch_cast split: option.splits
      dest!: asyncNextRequest_typed)

text \<open>An event of the class of its arguments.\<close>

lemma run_casts [simp]:
  "read_phase_1 s ev e a \<noteq> Inl BadCast" "run_read s ev e a \<noteq> Inl BadCast" "run_write s ev e b \<noteq> Inl BadCast"
  "run_p1c s ev e c \<noteq> Inl BadCast"
  by (auto simp: read_phase_1_def run_read_def run_write_def run_p1c_def Let_def and_then_cast split: if_splits)

lemma run_list_cast:
  "(\<And>s ev. typed s \<Longrightarrow> run s ev \<noteq> Inl BadCast) \<Longrightarrow> (\<And>s ev s'. typed s \<Longrightarrow> run s ev = Inr s' \<Longrightarrow> typed s') \<Longrightarrow>
   typed s \<Longrightarrow> run_list run s evs \<noteq> Inl BadCast"
  by (induction evs arbitrary: s) (auto simp: and_then_cast)

lemma run_event_cast: "typed s \<Longrightarrow> run_event d s ev \<noteq> Inl BadCast"
proof (induction d arbitrary: s ev)
  case (Suc d)
  have p2c: "run_p2c (run_event d) s ev e a \<noteq> Inl BadCast" for e a
  proof -
    have "run_list (run_event d) ((set_phase s ev 1)\<lparr>ts_locks := m\<rparr>) evs \<noteq> Inl BadCast" for m evs
      by (rule run_list_cast) (use Suc typed_set_phase [OF Suc.prems] typed_run_event in \<open>auto simp del: run_event.simps\<close>)
    then show ?thesis by (auto simp: run_p2c_def Let_def and_then_cast split: if_splits)
  qed
  have "request_of (hd_args h) = se_kind e"
    if "ts_events s ev = Some e" "rs_handlers (ts_rpc s) (se_rid e) = Some h" for e h
    using typed_serves [OF Suc.prems that(1)] that(2) by (simp add: serves_def)
  note kind = this
  show ?case
  proof (cases "ts_events s ev")
    case (Some e)
    show ?thesis
    proof (cases "rs_handlers (ts_rpc s) (se_rid e)")
      case (Some h)
      with \<open>ts_events s ev = Some e\<close> kind [OF \<open>ts_events s ev = Some e\<close> Some] p2c show ?thesis
        by (cases "hd_args h") (simp_all add: args_of_def request_of_def)
    qed (simp add: \<open>ts_events s ev = Some e\<close> args_of_def)
  qed simp
qed simp

text \<open>
  C32: the casts of the server are right: whatever arrives and whatever the threads do, a round
  of \<open>getEvent\<close> never casts the untyped arguments of a request to those of another type of
  request, and no event that is run, at whatever depth, finds the arguments of another class:
  while the request of an event exists, its arguments have the class of the event.
\<close>
theorem event_casts_agree:
  assumes "any_run mapper main_server s"
  shows "getEvent_round mapper s arrs \<noteq> Inl BadCast \<and> run_event d s ev \<noteq> Inl BadCast
    \<and> (ts_events s ev = Some e \<longrightarrow> rs_handlers (ts_rpc s) (se_rid e) = Some h \<longrightarrow> request_of (hd_args h) = se_kind e)"
proof -
  have "typed main_server"
    by (auto simp: typed_def serves_def main_server_def new_tserver_def new_rpc_server_def prepareNextRequest_def
        split: if_splits)
  with typed_any_run [OF assms] have t: "typed s" by blast
  then have "ts_events s ev = Some e \<longrightarrow> rs_handlers (ts_rpc s) (se_rid e) = Some h \<longrightarrow> request_of (hd_args h) = se_kind e"
    by (auto simp: typed_def serves_def)
  with t round_cast run_event_cast show ?thesis by blast
qed

theorem event_casts_agree_witness:
  "\<exists>s e h. any_run getNode main_server s \<and> ts_events s 0 = Some e \<and> rs_handlers (ts_rpc s) (se_rid e) = Some h
    \<and> se_kind e = TWRITE \<and> request_of (hd_args h) = TWRITE
    \<and> getEvent_round getNode s ([write_7], []) \<noteq> Inl BadCast \<and> run_event 2 s 0 \<noteq> Inl BadCast"
proof -
  have "case play main_server [write_7] of
      Some s \<Rightarrow> (case ts_events s 0 of Some e \<Rightarrow> se_kind e = TWRITE \<and> rs_handlers (ts_rpc s) (se_rid e) \<noteq> None | None \<Rightarrow> False)
    | None \<Rightarrow> False"
    by code_simp
  then obtain s e h where s: "play main_server [write_7] = Some s" "ts_events s 0 = Some e" "se_kind e = TWRITE"
    "rs_handlers (ts_rpc s) (se_rid e) = Some h"
    by (auto split: option.splits simp del: play.simps)
  have r: "any_run getNode main_server s" by (rule server_run_any [OF play_run [OF s(1)] any_done])
  from event_casts_agree [OF r, of "([write_7], [])" 2 0 e h] s r show ?thesis by auto
qed

end
