(* ===== verification/Resolution.thy ===== *)
theory Resolution
  imports RPC_Client "HOL-Library.List_Lexorder" "HOL-Library.Char_ord"
begin

text \<open>
  The layer that maps nodes to addresses and forwards requests: \<open>ResolutionClient.h\<close>,
  \<open>SimpleResolutionClient.h\<close> and \<open>SimpleResolutionClient.cc\<close> under \<open>src/src\<close>.
\<close>

section \<open>State\<close>

record rsl_client =
  rl_node_to_address :: "u64 \<rightharpoonup> string"
  rl_tag :: u64
  rl_rpc :: rpc_client

definition new_rsl_client :: "rpc_client \<Rightarrow> rsl_client" where
  "new_rsl_client rpc = \<lparr>rl_node_to_address = Map.empty, rl_tag = 135643, rl_rpc = rpc\<rparr>"

text \<open>The argument structures that \<open>request\<close> takes as an untyped pointer.\<close>

datatype rsl_args =
    RslRead rsl_read_args_t
  | RslWrite rsl_write_args_t
  | RslP1C rsl_p1c_args_t
  | RslP2C rsl_p2c_args_t

section \<open>Addresses\<close>

definition default_address :: string where
  "default_address = ''0.0.0.0:10000''"

text \<open>Both loops run over the nodes in order; the addresses are a \<open>std::set<std::string>\<close>.\<close>

fun findAddresses :: "rsl_client \<Rightarrow> u64 list \<Rightarrow> string list \<Rightarrow> rsl_client \<times> string list" where
  "findAddresses rl [] addresses = (rl, addresses)"
| "findAddresses rl (node # nodes) addresses =
     (case rl_node_to_address rl node of
        None \<Rightarrow>
          findAddresses (rl\<lparr>rl_node_to_address := (rl_node_to_address rl)(node \<mapsto> default_address)\<rparr>)
            nodes (insort_insert default_address addresses)
      | Some addr \<Rightarrow> findAddresses rl nodes (insort_insert addr addresses))"

fun invalidateAddresses :: "rsl_client \<Rightarrow> u64 list \<Rightarrow> rsl_client" where
  "invalidateAddresses rl [] = rl"
| "invalidateAddresses rl (node # nodes) =
     invalidateAddresses (rl\<lparr>rl_node_to_address := (rl_node_to_address rl)(node := None)\<rparr>) nodes"

section \<open>Requests\<close>

type_synonym 'w network = "'w \<Rightarrow> string \<Rightarrow> request_msg \<Rightarrow> 'w \<times> reply_msg option"

text \<open>
  The single address of a read or write, with the two assertions.
\<close>

definition single_address :: "rsl_client \<Rightarrow> u64 list \<Rightarrow> (rsl_client \<times> string list \<times> string) res" where
  "single_address rl nodes =
    (if length nodes \<noteq> 1 then Inl AssertFailed
     else
       let (rl, addresses) = findAddresses rl nodes []
       in case addresses of
            [a] \<Rightarrow> Inr (rl, addresses, a)
          | _ \<Rightarrow> Inl AssertFailed)"

text \<open>
  A failed call of a read or write: the body of the \<open>while\<close> loop, which returns to the caller
  instead of trying again.
\<close>

definition give_up :: "rsl_client \<Rightarrow> u64 list \<Rightarrow> string list \<Rightarrow> rsl_client" where
  "give_up rl nodes addresses = fst (findAddresses (invalidateAddresses rl nodes) nodes addresses)"

definition request_read ::
    "'w network \<Rightarrow> rsl_client \<times> 'w \<Rightarrow> u64 list \<Rightarrow> rsl_read_args_t \<Rightarrow> ((rsl_client \<times> 'w) \<times> rsl_args) res" where
  "request_read net cw nodes a =
     and_then (single_address (fst cw) nodes) (\<lambda>(rl, addresses, addr).
     and_then (syncRPC net (rl_rpc rl, snd cw) addr
                (ARead \<lparr>rr_args = rsl_read_args a, rr_value = None, rr_status = None\<rparr>))
       (\<lambda>((rpc, w), ok, args).
          let rl = rl\<lparr>rl_rpc := rpc\<rparr>
          in case args of
            ARead r \<Rightarrow>
              (if ok \<and> rr_status r = Some True then
                 and_then (need NullPointer (rr_value r)) (\<lambda>v.
                   Inr ((rl, w), RslRead (a\<lparr>rsl_value := Some v\<rparr>)))
               else Inr ((give_up rl nodes addresses, w), RslRead a))
          | _ \<Rightarrow> Inl Uninitialised))"

definition request_write ::
    "'w network \<Rightarrow> rsl_client \<times> 'w \<Rightarrow> u64 list \<Rightarrow> rsl_write_args_t \<Rightarrow> ((rsl_client \<times> 'w) \<times> rsl_args) res" where
  "request_write net cw nodes a =
     and_then (single_address (fst cw) nodes) (\<lambda>(rl, addresses, addr).
     and_then (syncRPC net (rl_rpc rl, snd cw) addr
                (AWrite \<lparr>rw_args = rsl_write_args a, rw_status = None\<rparr>))
       (\<lambda>((rpc, w), ok, args).
          let rl = rl\<lparr>rl_rpc := rpc\<rparr>
          in case args of
            AWrite r \<Rightarrow>
              (if ok \<and> rw_status r = Some True then Inr ((rl, w), RslWrite a)
               else Inr ((give_up rl nodes addresses, w), RslWrite a))
          | _ \<Rightarrow> Inl Uninitialised))"

text \<open>
  Step two: one call per address, each with the next tag and a fresh argument structure.
\<close>

fun send_all ::
    "'w network \<Rightarrow> rsl_client \<times> 'w \<Rightarrow> string list \<Rightarrow> handler_args \<Rightarrow> (rsl_client \<times> 'w) res" where
  "send_all net cw [] args = Inr cw"
| "send_all net cw (addr # addresses) args =
     and_then (asyncRPC net (rl_rpc (fst cw), snd cw) addr (rl_tag (fst cw)) args) (\<lambda>(rpc, w).
       send_all net ((fst cw)\<lparr>rl_rpc := rpc, rl_tag := rl_tag (fst cw) + 1\<rparr>, w) addresses args)"

text \<open>
  Step three: collect the replies.  \<open>tag\<close> is an \<open>int\<close>, so that it is sign-extended to the tag
  of the RPC client.  The result lists the argument structures after the calls.
\<close>

fun collect_all :: "rsl_client \<Rightarrow> 32 word \<Rightarrow> string list \<Rightarrow> (rsl_client \<times> handler_args list) res" where
  "collect_all rl tag [] = Inr (rl, [])"
| "collect_all rl tag (addr # addresses) =
     and_then (wait_reply 2 (rl_rpc rl) (scast tag)) (\<lambda>(rpc, args).
     and_then (collect_all (rl\<lparr>rl_rpc := rpc\<rparr>) (tag + 1) addresses) (\<lambda>(rl, argss).
       Inr (rl, args # argss)))"

definition reply_nodes :: "handler_args \<Rightarrow> u64 list" where
  "reply_nodes args =
    (case args of AP1C a \<Rightarrow> rp1_nodes a | AP2C a \<Rightarrow> rp2_nodes a | _ \<Rightarrow> [])"

text \<open>One round over the remaining nodes, shared by the two commit phases.\<close>

definition commit_round ::
    "'w network \<Rightarrow> rsl_client \<times> 'w \<Rightarrow> string list \<Rightarrow> u64 list \<Rightarrow> handler_args \<Rightarrow>
     ((rsl_client \<times> 'w) \<times> string list \<times> u64 list \<times> handler_args list) res" where
  "commit_round net cw addresses rem_nodes args =
    (let (rl, addresses) = findAddresses (fst cw) rem_nodes addresses;
         tag = ucast (rl_tag rl)
     in and_then (send_all net (rl, snd cw) addresses args) (\<lambda>(rl, w).
        and_then (collect_all rl tag addresses) (\<lambda>(rl, argss).
          let rem_nodes = filter (\<lambda>n. n \<notin> set (concat (map reply_nodes argss))) rem_nodes
          in Inr ((invalidateAddresses rl rem_nodes, w), addresses, rem_nodes, argss))))"

fun merge_votes :: "bool \<Rightarrow> handler_args list \<Rightarrow> bool res" where
  "merge_votes vote [] = Inr vote"
| "merge_votes vote (args # argss) =
     (if \<not> vote then merge_votes False argss
      else case args of
        AP1C a \<Rightarrow> and_then (need Uninitialised (rp1_vote a)) (\<lambda>v. merge_votes v argss)
      | _ \<Rightarrow> Inl Uninitialised)"

text \<open>The \<open>while\<close> loops; \<^const>\<open>None\<close> if they never end.\<close>

partial_function (option) p1c_loop ::
    "'w network \<Rightarrow> rsl_client \<times> 'w \<Rightarrow> string list \<Rightarrow> u64 list \<Rightarrow> p1c_args_t \<Rightarrow> bool \<Rightarrow>
     ((rsl_client \<times> 'w) \<times> bool) res option" where
  "p1c_loop net cw addresses rem_nodes a vote =
    (if rem_nodes = [] then Some (Inr (cw, vote))
     else case commit_round net cw addresses rem_nodes
                 (AP1C \<lparr>rp1_args = a, rp1_nodes = [], rp1_vote = None\<rparr>) of
       Inl e \<Rightarrow> Some (Inl e)
     | Inr (cw, addresses, rem_nodes, argss) \<Rightarrow>
         (case merge_votes vote argss of
            Inl e \<Rightarrow> Some (Inl e)
          | Inr vote \<Rightarrow> p1c_loop net cw addresses rem_nodes a vote))"

partial_function (option) p2c_loop ::
    "'w network \<Rightarrow> rsl_client \<times> 'w \<Rightarrow> string list \<Rightarrow> u64 list \<Rightarrow> p2c_args_t \<Rightarrow>
     (rsl_client \<times> 'w) res option" where
  "p2c_loop net cw addresses rem_nodes a =
    (if rem_nodes = [] then Some (Inr cw)
     else case commit_round net cw addresses rem_nodes (AP2C \<lparr>rp2_args = a, rp2_nodes = []\<rparr>) of
       Inl e \<Rightarrow> Some (Inl e)
     | Inr (cw, addresses, rem_nodes, _) \<Rightarrow> p2c_loop net cw addresses rem_nodes a)"

definition request ::
    "'w network \<Rightarrow> rsl_client \<times> 'w \<Rightarrow> u64 list \<Rightarrow> rsl_args \<Rightarrow> ((rsl_client \<times> 'w) \<times> rsl_args) res option" where
  "request net cw nodes args =
    (case args of
       RslRead a \<Rightarrow> Some (request_read net cw nodes a)
     | RslWrite a \<Rightarrow> Some (request_write net cw nodes a)
     | RslP1C a \<Rightarrow>
         (case p1c_loop net cw [] nodes (rsl_p1c_args a) True of
            None \<Rightarrow> None
          | Some r \<Rightarrow> Some (and_then r (\<lambda>(cw, vote). Inr (cw, RslP1C (a\<lparr>rsl_vote := Some vote\<rparr>)))))
     | RslP2C a \<Rightarrow>
         (case p2c_loop net cw [] nodes (rsl_p2c_args a) of
            None \<Rightarrow> None
          | Some r \<Rightarrow> Some (and_then r (\<lambda>cw. Inr (cw, RslP2C a)))))"

declare p1c_loop.simps [code] p2c_loop.simps [code]

end
