(* ===== verification/Coordinator.thy ===== *)
theory Coordinator
  imports Resolution Generators Safe_Queue
begin

text \<open>
  The client side of a transaction: \<open>Coordinator.h\<close>, \<open>Coordinator.cc\<close>,
  \<open>WithdrawCoordinator.h\<close>, \<open>WithdrawCoordinator.cc\<close> and \<open>WithdrawCoordinatorMain.cc\<close> under
  \<open>src/src\<close>.

  A coordinator works with any resolution client and key mapper; they are the arguments
  \<open>req\<close> and \<open>mapper\<close>.  \<open>'s\<close> is the state of the layers below.
\<close>

section \<open>State\<close>

text \<open>A sub-class of the coordinator extends the record.\<close>

record coordinator =
  co_tid :: u64
  co_start_ts :: u64
  co_read_nodes :: "u64 list"
  co_write_nodes :: "u64 list"
  co_pend_writes :: "u64 \<rightharpoonup> string"

type_synonym 's resolution = "'s \<Rightarrow> u64 list \<Rightarrow> rsl_args \<Rightarrow> ('s \<times> rsl_args) run"

definition new_coordinator :: "id_generator \<Rightarrow> int \<Rightarrow> coordinator \<times> id_generator" where
  "new_coordinator id_gen timev =
    (let (tid, id_gen) = genTransactionID id_gen
     in (\<lparr>co_tid = tid, co_start_ts = genStartTimestamp timev, co_read_nodes = [],
          co_write_nodes = [], co_pend_writes = Map.empty\<rparr>, id_gen))"

section \<open>Operations\<close>

text \<open>\<open>read\<close> returns a pointer that is not set when the request was given up.\<close>

definition coord_read ::
    "'s resolution \<Rightarrow> (u64 \<Rightarrow> u64) \<Rightarrow> 's \<times> 'm coordinator_scheme \<Rightarrow> u64 \<Rightarrow>
     (('s \<times> 'm coordinator_scheme) \<times> string option) run" where
  "coord_read req mapper sc key =
    (let (s, co) = sc
     in case co_pend_writes co key of
       Some v \<Rightarrow> Some (Inr ((s, co), Some v))
     | None \<Rightarrow>
         let node = mapper key;
             args = \<lparr>ra_tid = co_tid co, ra_start_ts = co_start_ts co, ra_key = key\<rparr>
         in and_run (req s (set_insert node []) (RslRead \<lparr>rsl_read_args = args, rsl_value = None\<rparr>))
              (\<lambda>(s, args).
                 let co = co\<lparr>co_read_nodes := set_insert node (co_read_nodes co)\<rparr>
                 in case args of
                      RslRead a \<Rightarrow> Some (Inr ((s, co), rsl_value a))
                    | _ \<Rightarrow> Some (Inl Uninitialised)))"

definition coord_write ::
    "'s resolution \<Rightarrow> (u64 \<Rightarrow> u64) \<Rightarrow> 's \<times> 'm coordinator_scheme \<Rightarrow> u64 \<Rightarrow> string \<Rightarrow>
     ('s \<times> 'm coordinator_scheme) run" where
  "coord_write req mapper sc key val =
    (let (s, co) = sc;
         node = mapper key;
         co = co\<lparr>co_pend_writes := (co_pend_writes co)(key \<mapsto> val)\<rparr>;
         args = \<lparr>wa_tid = co_tid co, wa_key = key, wa_value = val\<rparr>
     in and_run (req s (set_insert node []) (RslWrite \<lparr>rsl_write_args = args\<rparr>)) (\<lambda>(s, _).
          Some (Inr (s, co\<lparr>co_write_nodes := set_insert node (co_write_nodes co)\<rparr>))))"

text \<open>The arguments of the two commit phases, the same in \<open>commit\<close> and \<open>abort\<close>.\<close>

definition p1c_arguments :: "'m coordinator_scheme \<Rightarrow> rsl_p1c_args_t" where
  "p1c_arguments co =
     \<lparr>rsl_p1c_args =
        \<lparr>p1_tid = co_tid co, p1_start_ts = co_start_ts co, p1_commit_ts = co_start_ts co,
         p1_read_nodes = co_read_nodes co, p1_write_nodes = co_write_nodes co\<rparr>,
      rsl_vote = None\<rparr>"

definition p2c_arguments :: "'m coordinator_scheme \<Rightarrow> bool \<Rightarrow> rsl_p2c_args_t" where
  "p2c_arguments co vote = \<lparr>rsl_p2c_args = \<lparr>p2_tid = co_tid co, p2_vote = vote\<rparr>\<rparr>"

definition commit ::
    "'s resolution \<Rightarrow> 's \<times> 'm coordinator_scheme \<Rightarrow> (('s \<times> 'm coordinator_scheme) \<times> bool) run" where
  "commit req sc =
    (let (s, co) = sc; nodes = co_write_nodes co
     in and_run (req s nodes (RslP1C (p1c_arguments co))) (\<lambda>(s, args).
        case args of
          RslP1C a \<Rightarrow>
            (case rsl_vote a of
               None \<Rightarrow> Some (Inl Uninitialised)
             | Some vote \<Rightarrow>
                 and_run (req s (insert_all (co_read_nodes co) nodes) (RslP2C (p2c_arguments co vote)))
                   (\<lambda>(s, _). Some (Inr ((s, co), vote))))
        | _ \<Rightarrow> Some (Inl Uninitialised)))"

definition abort ::
    "'s resolution \<Rightarrow> 's \<times> 'm coordinator_scheme \<Rightarrow> ('s \<times> 'm coordinator_scheme) run" where
  "abort req sc =
    (let (s, co) = sc; nodes = co_write_nodes co
     in and_run (req s nodes (RslP1C (p1c_arguments co))) (\<lambda>(s, _).
        and_run (req s (insert_all (co_read_nodes co) nodes) (RslP2C (p2c_arguments co False)))
          (\<lambda>(s, _). Some (Inr (s, co)))))"

text \<open>\<open>Coordinator::run\<close>, which is not virtual, issues nothing.\<close>

definition coordinator_run :: "'s \<times> 'm coordinator_scheme \<Rightarrow> (('s \<times> 'm coordinator_scheme) \<times> bool) run" where
  "coordinator_run sc = Some (Inr (sc, False))"

section \<open>Withdrawals\<close>

record withdraw_coordinator = coordinator +
  wc_amount :: u64

definition new_withdraw_coordinator ::
    "id_generator \<Rightarrow> int \<Rightarrow> u64 \<Rightarrow> withdraw_coordinator \<times> id_generator" where
  "new_withdraw_coordinator id_gen timev amount =
    (let (co, id_gen) = new_coordinator id_gen timev
     in (coordinator.extend co (withdraw_coordinator.fields amount), id_gen))"

text \<open>
  An \<open>int\<close> of 32 bits.  \<open>atoi\<close> of a larger number and an overflow of the sum have no defined
  result in C++; they wrap around here.
\<close>

type_synonym int32 = "32 word"

definition balance_of :: "string option \<Rightarrow> int32 res" where
  "balance_of text = and_then (need NullPointer text) (\<lambda>s. Inr (word_of_int (atoi s)))"

text \<open>The condition of the withdrawal, and the new balance.\<close>

definition covered :: "int32 \<Rightarrow> int32 \<Rightarrow> u64 \<Rightarrow> bool" where
  "covered balance1 balance2 amount \<longleftrightarrow> sint (ucast amount :: int32) \<le> sint (balance1 + balance2)"

definition withdraw_from :: "int32 \<Rightarrow> u64 \<Rightarrow> int32" where
  "withdraw_from balance amount = ucast (scast balance - amount :: u64)"

definition withdraw_run ::
    "'s resolution \<Rightarrow> (u64 \<Rightarrow> u64) \<Rightarrow> 's \<times> withdraw_coordinator \<Rightarrow> (('s \<times> withdraw_coordinator) \<times> bool) run" where
  "withdraw_run req mapper sc =
     and_run (coord_read req mapper sc 1) (\<lambda>(sc, text1).
     and_run (Some (balance_of text1)) (\<lambda>balance1.
     and_run (coord_read req mapper sc 2) (\<lambda>(sc, text2).
     and_run (Some (balance_of text2)) (\<lambda>balance2.
       if covered balance1 balance2 (wc_amount (snd sc)) then
         let balance1 = withdraw_from balance1 (wc_amount (snd sc))
         in and_run (coord_write req mapper sc 1 (show_int (sint balance1))) (\<lambda>sc. commit req sc)
       else commit req sc))))"

section \<open>The client program\<close>

text \<open>
  One turn of the loop of \<open>run\<close>: it takes a coordinator from the queue, calls
  \<open>Coordinator::run\<close> on it, and prints the number of turns in each second that has passed.
  The state of a thread is the second it is in, the count, and what it has printed.
\<close>

function report :: "int \<Rightarrow> int \<Rightarrow> u64 \<Rightarrow> (int \<times> u64) list \<Rightarrow> int \<times> u64 \<times> (int \<times> u64) list" where
  "report new_time old_time count out =
    (if new_time > old_time then report new_time (old_time + 1) 0 (out @ [(old_time, count)])
     else (old_time, count, out))"
  by pat_completeness auto
termination by (relation "measure (\<lambda>(new_time, old_time, _). nat (new_time - old_time))") auto

declare report.simps [simp del]

record worker =
  wk_old_time :: int
  wk_count :: u64
  wk_out :: "(int \<times> u64) list"

definition worker_step ::
    "'s \<Rightarrow> withdraw_coordinator safe_queue \<Rightarrow> worker \<Rightarrow> int \<Rightarrow>
     ('s \<times> bool \<times> withdraw_coordinator safe_queue \<times> worker) run" where
  "worker_step s q wk new_time =
    (case dequeue q of
       None \<Rightarrow> Some (Inl Blocked)
     | Some (co, q) \<Rightarrow>
         and_run (coordinator_run (s, co)) (\<lambda>((s, _), res).
           let (old_time, count, out) = report new_time (wk_old_time wk) (wk_count wk) (wk_out wk)
           in Some (Inr (s, res, q, \<lparr>wk_old_time = old_time, wk_count = count + 1, wk_out = out\<rparr>))))"

text \<open>
  The loop of \<open>main\<close> that fills the queue of 100000 places, before any thread takes from it.
\<close>

fun fill_queue ::
    "nat \<Rightarrow> id_generator \<Rightarrow> int \<Rightarrow> withdraw_coordinator safe_queue \<Rightarrow>
     (withdraw_coordinator safe_queue \<times> id_generator) res" where
  "fill_queue 0 id_gen timev q = Inr (q, id_gen)"
| "fill_queue (Suc n) id_gen timev q =
    (let (co, id_gen) = new_withdraw_coordinator id_gen timev 10
     in and_then (need Blocked (enqueue q co)) (\<lambda>q. fill_queue n id_gen timev q))"

end
