(* ===== verification/Client_Theorems.thy ===== *)
theory Client_Theorems
  imports Coordinator RPC_Theorems
begin

text \<open>
  The properties of the client side: how requests are resolved and retried, what a coordinator
  reads, writes and commits, and what a withdrawal does.
\<close>

section \<open>Addresses\<close>

text \<open>All cached addresses are the default one, the only address the code enters.\<close>

definition default_only :: "rsl_client \<Rightarrow> bool" where
  "default_only rl \<longleftrightarrow> (\<forall>node addr. rl_node_to_address rl node = Some addr \<longrightarrow> addr = default_address)"

lemma default_only_new [simp]: "default_only (new_rsl_client rpc)"
  by (simp add: default_only_def new_rsl_client_def)

lemma default_only_rpc [simp]:
  "default_only (rl\<lparr>rl_rpc := rpc\<rparr>) = default_only rl"
  "default_only (rl\<lparr>rl_tag := tag\<rparr>) = default_only rl"
  by (simp_all add: default_only_def)

lemma insort_default: "addresses = [] \<or> addresses = [default_address] \<Longrightarrow>
    insort_insert default_address addresses = [default_address]"
  by (auto simp: insort_insert_insort insort_insert_triv)

lemma findAddresses_default:
  assumes "default_only rl" "addresses = [] \<or> addresses = [default_address]"
  shows "default_only (fst (findAddresses rl nodes addresses))
    \<and> snd (findAddresses rl nodes addresses) = (if nodes = [] then addresses else [default_address])
    \<and> rl_rpc (fst (findAddresses rl nodes addresses)) = rl_rpc rl
    \<and> rl_tag (fst (findAddresses rl nodes addresses)) = rl_tag rl"
  using assms
proof (induction nodes arbitrary: rl addresses)
  case (Cons node nodes)
  let ?rl = "rl\<lparr>rl_node_to_address := (rl_node_to_address rl)(node \<mapsto> default_address)\<rparr>"
  have d: "default_only ?rl" using Cons.prems(1) by (simp add: default_only_def)
  have i: "insort_insert default_address addresses = [default_address]" by (rule insort_default [OF Cons.prems(2)])
  show ?case
  proof (cases "rl_node_to_address rl node")
    case None
    with Cons.IH [OF d, of "[default_address]"] i show ?thesis by simp
  next
    case (Some addr)
    with Cons.prems(1) have "addr = default_address" by (simp add: default_only_def)
    with Some Cons.IH [OF Cons.prems(1), of "[default_address]"] i show ?thesis by simp
  qed
qed simp

lemma invalidate_default:
  "default_only rl \<Longrightarrow> default_only (invalidateAddresses rl nodes)
    \<and> rl_tag (invalidateAddresses rl nodes) = rl_tag rl \<and> rl_rpc (invalidateAddresses rl nodes) = rl_rpc rl"
proof (induction nodes arbitrary: rl)
  case (Cons node nodes)
  have "default_only (rl\<lparr>rl_node_to_address := (rl_node_to_address rl)(node := None)\<rparr>)"
    using Cons.prems by (simp add: default_only_def)
  with Cons.IH show ?case by simp
qed simp

lemma single_default:
  assumes "default_only rl"
  shows "\<exists>rl'. single_address rl [node] = Inr (rl', [default_address], default_address)
    \<and> default_only rl' \<and> rl_rpc rl' = rl_rpc rl \<and> rl_tag rl' = rl_tag rl"
proof -
  obtain rl' as where f: "findAddresses rl [node] [] = (rl', as)" by (cases "findAddresses rl [node] []")
  with findAddresses_default [OF assms, of "[]" "[node]"] have "as = [default_address]" "default_only rl'"
    "rl_rpc rl' = rl_rpc rl" "rl_tag rl' = rl_tag rl" by auto
  with f show ?thesis by (simp add: single_address_def del: findAddresses.simps)
qed

section \<open>Reads and writes are not retried\<close>

lemma request_read_fails:
  assumes "default_only rl" "rsl_value a = None"
  shows "request_read net (rl, w) [node] a = Inl NullPointer
    \<or> (\<exists>cw. request_read net (rl, w) [node] a = Inr (cw, RslRead a))"
proof -
  from single_default [OF assms(1), of node] obtain rl' where
    s: "single_address rl [node] = Inr (rl', [default_address], default_address)" by blast
  show ?thesis
    by (cases "net w default_address (MRead (makeReadRequest (rsl_read_args a)))")
      (auto simp: request_read_def s syncRPC_def make_request_def Let_def split: option.split reply_msg.split)
qed

lemma request_read_answered:
  assumes "default_only rl"
    and "net w default_address (MRead (makeReadRequest (rsl_read_args a))) = (w', Some (RRead m))" "rp_status m"
  shows "request_read net (rl, w) [node] a = Inl NullPointer"
proof -
  from single_default [OF assms(1), of node] obtain rl' where
    s: "single_address rl [node] = Inr (rl', [default_address], default_address)" by blast
  with assms(2,3) show ?thesis by (simp add: request_read_def syncRPC_def make_request_def)
qed

lemma write_once:
  assumes "default_only rl" "net w default_address (MWrite (makeWriteRequest (rsl_write_args a))) = (w', reply)"
  shows "\<exists>rl'. request net (rl, w) [node] (RslWrite a) = Some (Inr ((rl', w'), RslWrite a))
    \<and> default_only rl' \<and> rl_tag rl' = rl_tag rl"
proof -
  from single_default [OF assms(1), of node] obtain rl1 where
    s: "single_address rl [node] = Inr (rl1, [default_address], default_address)" "default_only rl1"
      "rl_tag rl1 = rl_tag rl" by blast
  let ?g = "give_up (rl1\<lparr>rl_rpc := makeStub (rl_rpc rl1) default_address\<rparr>) [node] [default_address]"
  have g: "default_only ?g" "rl_tag ?g = rl_tag rl"
  proof -
    have i: "default_only (invalidateAddresses (rl1\<lparr>rl_rpc := makeStub (rl_rpc rl1) default_address\<rparr>) [node])"
      "rl_tag (invalidateAddresses (rl1\<lparr>rl_rpc := makeStub (rl_rpc rl1) default_address\<rparr>) [node]) = rl_tag rl"
      using invalidate_default [of "rl1\<lparr>rl_rpc := makeStub (rl_rpc rl1) default_address\<rparr>" "[node]"] s by simp_all
    show "default_only ?g" "rl_tag ?g = rl_tag rl"
      using findAddresses_default [OF i(1), of "[default_address]" "[node]"] i(2) unfolding give_up_def by auto
  qed
  show ?thesis
  proof (cases "\<exists>m. reply = Some (RWrite m) \<and> wp_status m")
    case True
    with s assms(2) show ?thesis
      by (auto simp: request_def request_write_def syncRPC_def make_request_def)
  next
    case False
    with s assms(2) have "request net (rl, w) [node] (RslWrite a) = Some (Inr ((?g, w'), RslWrite a))"
      by (auto simp: request_def request_write_def syncRPC_def make_request_def Let_def split: option.split reply_msg.split)
    with g show ?thesis by blast
  qed
qed

lemma lost_write_example:
  "\<exists>rl. request (\<lambda>w addr m. (Suc w, None)) (new_rsl_client new_rpc_client, 0) [0]
      (RslWrite \<lparr>rsl_write_args = \<lparr>wa_tid = 1, wa_key = 2, wa_value = ''x''\<rparr>\<rparr>)
    = Some (Inr ((rl, 1), RslWrite \<lparr>rsl_write_args = \<lparr>wa_tid = 1, wa_key = 2, wa_value = ''x''\<rparr>\<rparr>))"
  using write_once [OF default_only_new, of "\<lambda>w addr m. (Suc w, None)" 0
      "\<lparr>rsl_write_args = \<lparr>wa_tid = 1, wa_key = 2, wa_value = ''x''\<rparr>\<rparr>" 1 None new_rpc_client 0]
  by auto

section \<open>The commit phases\<close>

text \<open>The tag that the loop keeps in an \<open>int\<close> is the tag of the call.\<close>

definition small_tag :: "u64 \<Rightarrow> bool" where
  "small_tag tag \<longleftrightarrow> (scast (ucast tag :: 32 word) :: u64) = tag"

text \<open>A round with the one server.\<close>

lemma commit_round_default:
  assumes "default_only rl" "addresses = [] \<or> addresses = [default_address]" "nodes \<noteq> []" "small_tag (rl_tag rl)"
    and "net w default_address (make_request args) = (w', Some m)"
  shows "\<exists>rl'. commit_round net (rl, w) addresses nodes args = Inr ((rl', w'), [default_address],
      filter (\<lambda>n. n \<notin> set (reply_nodes (proceed_args args (Some m)))) nodes, [proceed_args args (Some m)])
    \<and> default_only rl' \<and> rl_tag rl' = rl_tag rl + 1"
proof -
  obtain rl1 where rl1: "findAddresses rl nodes addresses = (rl1, [default_address])"
    "default_only rl1" "rl_rpc rl1 = rl_rpc rl" "rl_tag rl1 = rl_tag rl"
    using findAddresses_default [OF assms(1,2), of nodes] assms(3)
    by (cases "findAddresses rl nodes addresses") auto
  from async_wait [of net w default_address args w' m "rl_rpc rl" "rl_tag rl"] assms(5) obtain rc1 rc2 where
    rc: "asyncRPC net (rl_rpc rl, w) default_address (rl_tag rl) args = Inr (rc1, w')"
    "waitAsyncReply rc1 (rl_tag rl) = Inr (rc2, True, proceed_args args (Some m))" by auto
  let ?rl2 = "rl1\<lparr>rl_tag := rl_tag rl + 1, rl_rpc := rc2\<rparr>"
  let ?rem = "filter (\<lambda>n. n \<notin> set (reply_nodes (proceed_args args (Some m)))) nodes"
  have "wait_reply 2 rc1 (rl_tag rl) = Inr (rc2, proceed_args args (Some m))"
    using rc(2) by (simp add: numeral_2_eq_2)
  with rc(1) rl1 assms(4) have "commit_round net (rl, w) addresses nodes args =
      Inr ((invalidateAddresses (rl1\<lparr>rl_tag := rl_tag rl + 1, rl_rpc := rc2\<rparr>) ?rem, w'), [default_address], ?rem,
        [proceed_args args (Some m)])"
    by (simp add: commit_round_def small_tag_def Let_def)
  moreover have "default_only ?rl2" using rl1(2) by simp
  ultimately show ?thesis using invalidate_default [of ?rl2 ?rem] by simp
qed

lemma p1c_answered:
  assumes "default_only rl" "small_tag (rl_tag rl)"
    and "net w default_address (MP1C (makePhaseOneCommitRequest a)) = (w', Some (RP1C m))" "set nodes \<subseteq> set (p1p_node m)"
  shows "\<exists>rl'. p1c_loop net (rl, w) [] nodes a True =
      Some (Inr (if nodes = [] then ((rl, w), True) else ((rl', w'), p1p_vote m)))
    \<and> default_only rl' \<and> rl_tag rl' = rl_tag rl + 1"
proof (cases "nodes = []")
  case True
  have "default_only (rl\<lparr>rl_tag := rl_tag rl + 1\<rparr>)" using assms(1) by (simp add: default_only_def)
  with True show ?thesis
    by (subst p1c_loop.simps) (auto intro: exI [of _ "rl\<lparr>rl_tag := rl_tag rl + 1\<rparr>"])
next
  case False
  let ?args = "AP1C \<lparr>rp1_args = a, rp1_nodes = [], rp1_vote = None\<rparr>"
  have net: "net w default_address (make_request ?args) = (w', Some (RP1C m))"
    using assms(3) by (simp add: make_request_def)
  have p: "proceed_args ?args (Some (RP1C m)) =
      AP1C \<lparr>rp1_args = a, rp1_nodes = insert_all (p1p_node m) [], rp1_vote = Some (p1p_vote m)\<rparr>"
    by (simp add: proceed_defs)
  from commit_round_default [of rl "[]" nodes net w ?args w' "RP1C m"] assms(1,2) False net obtain rl' where
    r: "commit_round net (rl, w) [] nodes ?args = Inr ((rl', w'), [default_address],
      filter (\<lambda>n. n \<notin> set (p1p_node m)) nodes,
      [AP1C \<lparr>rp1_args = a, rp1_nodes = insert_all (p1p_node m) [], rp1_vote = Some (p1p_vote m)\<rparr>])"
    "default_only rl'" "rl_tag rl' = rl_tag rl + 1"
    unfolding p by (auto simp: reply_nodes_def)
  have "filter (\<lambda>n. n \<notin> set (p1p_node m)) nodes = []" using assms(4) by (auto simp: filter_empty_conv)
  with r have "p1c_loop net (rl, w) [] nodes a True = Some (Inr ((rl', w'), p1p_vote m))"
    using False by (subst p1c_loop.simps) (simp add: p1c_loop.simps)
  with r False show ?thesis by auto
qed

lemma p2c_answered:
  assumes "default_only rl" "small_tag (rl_tag rl)" "nodes \<noteq> []"
    and "net w default_address (MP2C (makePhaseTwoCommitRequest a)) = (w', Some (RP2C m))" "set nodes \<subseteq> set (p2p_node m)"
  shows "\<exists>rl'. p2c_loop net (rl, w) [] nodes a = Some (Inr (rl', w')) \<and> default_only rl' \<and> rl_tag rl' = rl_tag rl + 1"
proof -
  let ?args = "AP2C \<lparr>rp2_args = a, rp2_nodes = []\<rparr>"
  have net: "net w default_address (make_request ?args) = (w', Some (RP2C m))"
    using assms(4) by (simp add: make_request_def)
  have p: "proceed_args ?args (Some (RP2C m)) = AP2C \<lparr>rp2_args = a, rp2_nodes = insert_all (p2p_node m) []\<rparr>"
    by (simp add: proceed_defs)
  from commit_round_default [of rl "[]" nodes net w ?args w' "RP2C m"] assms(1-3) net obtain rl' where
    r: "commit_round net (rl, w) [] nodes ?args = Inr ((rl', w'), [default_address],
      filter (\<lambda>n. n \<notin> set (p2p_node m)) nodes, [AP2C \<lparr>rp2_args = a, rp2_nodes = insert_all (p2p_node m) []\<rparr>])"
    "default_only rl'" "rl_tag rl' = rl_tag rl + 1"
    unfolding p by (auto simp: reply_nodes_def)
  have "filter (\<lambda>n. n \<notin> set (p2p_node m)) nodes = []" using assms(5) by (auto simp: filter_empty_conv)
  with r(1) have "p2c_loop net (rl, w) [] nodes a = Some (Inr (rl', w'))"
    using assms(3) by (subst p2c_loop.simps) (simp add: p2c_loop.simps)
  with r(2,3) show ?thesis by blast
qed

lemma commit_answered:
  assumes "default_only rl" "small_tag (rl_tag rl)" "small_tag (rl_tag rl + 1)" "co_write_nodes co \<noteq> []"
    and "net w default_address (MP1C (makePhaseOneCommitRequest (rsl_p1c_args (p1c_arguments co)))) = (w1, Some (RP1C m1))"
    and "set (co_write_nodes co) \<subseteq> set (p1p_node m1)"
    and "net w1 default_address (MP2C (makePhaseTwoCommitRequest \<lparr>p2_tid = co_tid co, p2_vote = p1p_vote m1\<rparr>)) = (w2, Some (RP2C m2))"
    and "set (co_read_nodes co) \<union> set (co_write_nodes co) \<subseteq> set (p2p_node m2)"
  shows "\<exists>rl'. commit (request net) ((rl, w), co) = Some (Inr (((rl', w2), co), p1p_vote m1))
    \<and> default_only rl' \<and> rl_tag rl' = rl_tag rl + 2"
proof -
  from p1c_answered [of rl net w "rsl_p1c_args (p1c_arguments co)" w1 m1 "co_write_nodes co"] assms(1,2,4-6)
  obtain rl1 where
    r1: "request net (rl, w) (co_write_nodes co) (RslP1C (p1c_arguments co)) =
        Some (Inr ((rl1, w1), RslP1C ((p1c_arguments co)\<lparr>rsl_vote := Some (p1p_vote m1)\<rparr>)))"
      "default_only rl1" "rl_tag rl1 = rl_tag rl + 1"
    by (auto simp: request_def)
  let ?nodes = "insert_all (co_read_nodes co) (co_write_nodes co)"
  have nodes: "set ?nodes \<subseteq> set (p2p_node m2)" using assms(8) by simp
  have "set ?nodes \<noteq> {}" using assms(4) by simp
  then have "?nodes \<noteq> []" by force
  with p2c_answered [of rl1 ?nodes net w1 "\<lparr>p2_tid = co_tid co, p2_vote = p1p_vote m1\<rparr>" w2 m2] r1(2,3) assms(3,7) nodes
  obtain rl2 where
    "request net (rl1, w1) ?nodes (RslP2C (p2c_arguments co (p1p_vote m1))) =
        Some (Inr ((rl2, w2), RslP2C (p2c_arguments co (p1p_vote m1))))" "default_only rl2" "rl_tag rl2 = rl_tag rl1 + 1"
    by (auto simp: request_def p2c_arguments_def)
  with r1(1,3) show ?thesis by (simp add: commit_def p1c_arguments_def)
qed

text \<open>
  C30: a commit ends, with the vote of the server: when the server answers the first phase and
  names every node that was written, and answers the second phase, which carries the vote,
  and names every node that was read or written, then \<open>commit\<close> returns the vote after one
  message for each phase.
\<close>
theorem commit_terminates:
  assumes "default_only rl" "small_tag (rl_tag rl)" "small_tag (rl_tag rl + 1)" "co_write_nodes co \<noteq> []"
    and "net w default_address (MP1C (makePhaseOneCommitRequest (rsl_p1c_args (p1c_arguments co)))) = (w1, Some (RP1C m1))"
    and "set (co_write_nodes co) \<subseteq> set (p1p_node m1)"
    and "net w1 default_address (MP2C (makePhaseTwoCommitRequest \<lparr>p2_tid = co_tid co, p2_vote = p1p_vote m1\<rparr>)) = (w2, Some (RP2C m2))"
    and "set (co_read_nodes co) \<union> set (co_write_nodes co) \<subseteq> set (p2p_node m2)"
  shows "\<exists>rl'. commit (request net) ((rl, w), co) = Some (Inr (((rl', w2), co), p1p_vote m1))"
  using commit_answered [of rl co net w w1 m1 w2 m2] assms by blast

theorem commit_terminates_witness:
  "\<exists>rl. commit (request (\<lambda>w addr q. (q # w, Some (case q of
          MP1C _ \<Rightarrow> RP1C \<lparr>p1p_node = [0], p1p_vote = False\<rparr> | _ \<Rightarrow> RP2C \<lparr>p2p_node = [0]\<rparr>))))
      ((new_rsl_client new_rpc_client, []),
       \<lparr>co_tid = 4, co_start_ts = 9, co_read_nodes = [], co_write_nodes = [0], co_pend_writes = Map.empty\<rparr>)
    = Some (Inr (((rl, [MP2C \<lparr>p2q_tid = 4, p2q_vote = False\<rparr>,
         MP1C \<lparr>p1q_tid = 4, p1q_start_ts = 9, p1q_commit_ts = 9, p1q_read_node = [], p1q_write_node = [0]\<rparr>]),
       \<lparr>co_tid = 4, co_start_ts = 9, co_read_nodes = [], co_write_nodes = [0], co_pend_writes = Map.empty\<rparr>), False))"
proof -
  let ?co = "\<lparr>co_tid = 4, co_start_ts = 9, co_read_nodes = [], co_write_nodes = [0], co_pend_writes = Map.empty\<rparr> :: coordinator"
  let ?net = "\<lambda>w addr q. (q # w, Some (case q of
      MP1C _ \<Rightarrow> RP1C \<lparr>p1p_node = [0], p1p_vote = False\<rparr> | _ \<Rightarrow> RP2C \<lparr>p2p_node = [0]\<rparr>))"
  have t: "small_tag (rl_tag (new_rsl_client new_rpc_client))" "small_tag (rl_tag (new_rsl_client new_rpc_client) + 1)"
    by (simp_all add: small_tag_def new_rsl_client_def)
  show ?thesis
    using commit_terminates [OF default_only_new t, of ?co ?net "[]" _ "\<lparr>p1p_node = [0], p1p_vote = False\<rparr>" _ "\<lparr>p2p_node = [0]\<rparr>"]
    by (simp add: p1c_arguments_def makePhaseOneCommitRequest_def makePhaseTwoCommitRequest_def)
qed

section \<open>Coordinators\<close>

text \<open>
  What a coordinator relies on in the layer below: a read leaves the request as it is and may
  set the value, and the first commit phase sets the vote.
\<close>

locale resolution_layer =
  fixes req :: "'s resolution"
  assumes read_law: "req s nodes (RslRead a) = Some (Inr (s', r)) \<Longrightarrow> \<exists>v. r = RslRead (a\<lparr>rsl_value := v\<rparr>)"
    and p1c_law: "req s nodes (RslP1C b) = Some (Inr (s', r)) \<Longrightarrow> \<exists>vote. r = RslP1C (b\<lparr>rsl_vote := Some vote\<rparr>)"
begin

text \<open>A read keeps everything of the coordinator but the nodes it has read from.\<close>

lemma read_keeps:
  assumes "coord_read req mapper (s, co) key = Some (Inr ((s', co'), v))"
  shows "co_pend_writes co' = co_pend_writes co \<and> co_tid co' = co_tid co \<and> co_start_ts co' = co_start_ts co
    \<and> co_write_nodes co' = co_write_nodes co \<and> set (co_read_nodes co) \<subseteq> set (co_read_nodes co')"
proof (cases "co_pend_writes co key")
  case None
  with assms obtain s1 r where "(case r of
      RslRead a \<Rightarrow> Some (Inr ((s1, co\<lparr>co_read_nodes := set_insert (mapper key) (co_read_nodes co)\<rparr>), rsl_value a))
    | _ \<Rightarrow> Some (Inl Uninitialised)) = Some (Inr ((s', co'), v))"
    by (auto simp: coord_read_def and_run_eq_Inr_iff Let_def split_beta)
  then show ?thesis by (cases r) auto
next
  case (Some v)
  with assms show ?thesis by (simp add: coord_read_def)
qed

text \<open>When \<open>commit\<close> fails, one of its two requests has failed.\<close>

lemma commit_fails:
  assumes "commit req (s, co) = Some (Inl e)"
  shows "req s (co_write_nodes co) (RslP1C (p1c_arguments co)) = Some (Inl e)
    \<or> (\<exists>s1 vote. req s (co_write_nodes co) (RslP1C (p1c_arguments co)) =
            Some (Inr (s1, RslP1C ((p1c_arguments co)\<lparr>rsl_vote := Some vote\<rparr>)))
        \<and> req s1 (insert_all (co_read_nodes co) (co_write_nodes co)) (RslP2C (p2c_arguments co vote)) = Some (Inl e))"
proof (cases "req s (co_write_nodes co) (RslP1C (p1c_arguments co))")
  case None
  with assms show ?thesis by (simp add: commit_def Let_def)
next
  case (Some res)
  show ?thesis
  proof (cases res)
    case (Inl e')
    with Some assms show ?thesis by (simp add: commit_def Let_def)
  next
    case (Inr p)
    obtain s1 r where p: "p = (s1, r)" by (cases p)
    with p1c_law Some Inr obtain vote where r: "r = RslP1C ((p1c_arguments co)\<lparr>rsl_vote := Some vote\<rparr>)" by blast
    with Some Inr p assms show ?thesis
      by (auto simp: commit_def Let_def and_run_def split: option.splits sum.splits)
  qed
qed

text \<open>When it succeeds, both phases were carried out, the second one with the vote of the first.\<close>

lemma commit_succeeds:
  assumes "commit req (s, co) = Some (Inr ((s', co'), vote))"
  shows "co' = co \<and> (\<exists>s1. req s (co_write_nodes co) (RslP1C (p1c_arguments co)) =
            Some (Inr (s1, RslP1C ((p1c_arguments co)\<lparr>rsl_vote := Some vote\<rparr>)))
        \<and> (\<exists>r. req s1 (insert_all (co_read_nodes co) (co_write_nodes co)) (RslP2C (p2c_arguments co vote)) = Some (Inr (s', r))))"
proof -
  from assms obtain s1 r where r: "req s (co_write_nodes co) (RslP1C (p1c_arguments co)) = Some (Inr (s1, r))"
    by (auto simp: commit_def Let_def and_run_eq_Inr_iff)
  with p1c_law obtain vote' where "r = RslP1C ((p1c_arguments co)\<lparr>rsl_vote := Some vote'\<rparr>)" by blast
  with r assms show ?thesis by (auto simp: commit_def Let_def and_run_eq_Inr_iff)
qed

end

lemma request_read_kind: "request_read net cw nodes a = Inr (cw', r) \<Longrightarrow> \<exists>v. r = RslRead (a\<lparr>rsl_value := v\<rparr>)"
proof -
  assume "request_read net cw nodes a = Inr (cw', r)"
  then obtain rl addresses addr rpc w ok args where
    c: "(case args of
       ARead rr \<Rightarrow>
         (if ok \<and> rr_status rr = Some True then
            and_then (need NullPointer (rr_value rr)) (\<lambda>v.
              Inr ((rl\<lparr>rl_rpc := rpc\<rparr>, w), RslRead (a\<lparr>rsl_value := Some v\<rparr>)))
          else Inr ((give_up (rl\<lparr>rl_rpc := rpc\<rparr>) nodes addresses, w), RslRead a))
     | _ \<Rightarrow> Inl Uninitialised) = Inr (cw', r)"
    unfolding request_read_def and_then_eq_Inr_iff Let_def split_beta by blast
  then have "r = RslRead a \<or> (\<exists>v. r = RslRead (a\<lparr>rsl_value := Some v\<rparr>))"
    by (cases args) (auto simp: and_then_eq_Inr_iff split: if_splits)
  moreover have "a = a\<lparr>rsl_value := rsl_value a\<rparr>" by simp
  ultimately show ?thesis by metis
qed

interpretation rsl: resolution_layer "request net" for net
  by unfold_locales
    (auto simp: request_def and_then_eq_Inr_iff intro: request_read_kind split: option.splits)

text \<open>
  A coordinator reads its own writes: after a write, a read of the key returns the written
  value without a request to the server, the node of the key takes part in the commit, and the
  values written to other keys are as before.
\<close>
lemma coordinator_reads_own_writes:
  assumes "coord_write (request net) mapper (cw, co) key val = Some (Inr (cw1, co1))"
  shows "coord_read (request net) mapper (cw1, co1) key = Some (Inr ((cw1, co1), Some val))
    \<and> mapper key \<in> set (co_write_nodes co1) \<and> (\<forall>k. k \<noteq> key \<longrightarrow> co_pend_writes co1 k = co_pend_writes co k)"
proof -
  from assms have "co1 = co\<lparr>co_pend_writes := (co_pend_writes co)(key \<mapsto> val),
      co_write_nodes := set_insert (mapper key) (co_write_nodes co)\<rparr>"
    by (auto simp: coord_write_def Let_def and_run_eq_Inr_iff)
  then show ?thesis by (simp add: coord_read_def)
qed

lemma coordinator_reads_own_writes_witness:
  "\<exists>cw co. coord_write (request (\<lambda>w addr m. (w, None))) getNode ((new_rsl_client new_rpc_client, ()), fst (new_coordinator new_id_generator 9))
      5 ''7'' = Some (Inr (cw, co))
    \<and> coord_read (request (\<lambda>w addr m. (w, None))) getNode (cw, co) 5 = Some (Inr ((cw, co), Some ''7''))"
proof -
  have n: "set_insert (getNode 5) [] = [0]" by (simp add: getNode_def set_insert_def insort_insert_key_def)
  from single_default [OF default_only_new, of new_rpc_client 0] obtain rl where
    s: "single_address (new_rsl_client new_rpc_client) [0] = Inr (rl, [default_address], default_address)" by blast
  obtain cw co where w: "coord_write (request (\<lambda>w addr m. (w, None))) getNode
      ((new_rsl_client new_rpc_client, ()), fst (new_coordinator new_id_generator 9)) 5 ''7'' = Some (Inr (cw, co))"
    by (simp add: coord_write_def n request_def request_write_def s syncRPC_def make_request_def Let_def)
  from coordinator_reads_own_writes [OF w] w show ?thesis by blast
qed

text \<open>What a read of a key that was not written comes to.\<close>

lemma coord_read_fails:
  assumes "default_only rl" "co_pend_writes co key = None"
  shows "coord_read (request net) mapper ((rl, w), co) key = Some (Inl NullPointer)
    \<or> (\<exists>sc. coord_read (request net) mapper ((rl, w), co) key = Some (Inr (sc, None)))"
proof -
  let ?a = "\<lparr>rsl_read_args = \<lparr>ra_tid = co_tid co, ra_start_ts = co_start_ts co, ra_key = key\<rparr>, rsl_value = None\<rparr>"
  have n: "set_insert (mapper key) [] = [mapper key]" by (simp add: set_insert_def insort_insert_key_def)
  from request_read_fails [OF assms(1), of ?a net w "mapper key"] show ?thesis
    using assms(2) by (auto simp: coord_read_def n request_def)
qed

text \<open>
  C37: a withdrawal over the resolution client brings the client down, whatever the network
  does: its first read of an account either succeeds, and the value is assigned to a string
  that does not exist, or is given up, and the number is taken from a null pointer.
\<close>
theorem withdrawal_crashes:
  assumes "default_only rl" "co_pend_writes co 1 = None"
  shows "withdraw_run (request net) mapper ((rl, w), co) = Some (Inl NullPointer)"
  using coord_read_fails [OF assms, of net mapper w]
  by (auto simp: withdraw_run_def balance_of_def)

theorem withdrawal_crashes_witness:
  "withdraw_run (request (\<lambda>w addr m. (w, Some (RRead \<lparr>rp_value = ''50'', rp_status = True\<rparr>)))) getNode
     ((new_rsl_client new_rpc_client, ()), fst (new_withdraw_coordinator new_id_generator 9 10)) = Some (Inl NullPointer)"
  by (rule withdrawal_crashes)
    (simp_all add: new_withdraw_coordinator_def new_coordinator_def genTransactionID_def coordinator.defs withdraw_coordinator.defs)

section \<open>Withdrawals\<close>

lemma sint_of_small: "- (2 ^ 31) \<le> i \<Longrightarrow> i < 2 ^ 31 \<Longrightarrow> sint (word_of_int i :: int32) = i"
  by (simp add: signed_of_int signed_take_bit_int_eq_self)

lemma small_amount:
  assumes "uint (amount :: u64) < 2 ^ 31"
  shows "sint (ucast amount :: int32) = uint amount"
proof -
  have "(ucast amount :: int32) = word_of_int (uint amount)" by simp
  moreover have "- (2 ^ 31) \<le> uint amount" by (rule order_trans [OF _ uint_ge_0]) simp
  ultimately show ?thesis using assms sint_of_small [of "uint amount"] by simp
qed

lemma covered_iff:
  assumes "- (2 ^ 30) \<le> b1" "b1 < 2 ^ 30" "- (2 ^ 30) \<le> b2" "b2 < 2 ^ 30" "uint amount < 2 ^ 31"
  shows "covered (word_of_int b1) (word_of_int b2) amount \<longleftrightarrow> uint amount \<le> b1 + b2"
proof -
  have "(word_of_int b1 + word_of_int b2 :: int32) = word_of_int (b1 + b2)" by simp
  then show ?thesis using assms sint_of_small [of "b1 + b2"] small_amount [OF assms(5)] by (simp add: covered_def)
qed

lemma withdraw_from_eq:
  assumes "- (2 ^ 31) \<le> b" "b < 2 ^ 31" "- (2 ^ 31) \<le> b - uint amount" "b - uint amount < 2 ^ 31"
  shows "sint (withdraw_from (word_of_int b) amount) = b - uint amount"
proof -
  have s: "(scast (word_of_int b :: int32) :: u64) = word_of_int b"
    using sint_of_small [OF assms(1,2)] by (simp add: scast_eq)
  have "withdraw_from (word_of_int b) amount = (ucast (word_of_int (b - uint amount) :: u64) :: int32)"
    by (simp add: withdraw_from_def s)
  also have "\<dots> = word_of_int (b - uint amount)"
    by (rule ucast_down_wi) (simp add: is_down)
  finally show ?thesis using sint_of_small [OF assms(3,4)] by simp
qed

lemma commit_coordinator: "commit req (s, co) = Some (Inr ((s', co'), vote)) \<Longrightarrow> co' = co"
proof -
  assume "commit req (s, co) = Some (Inr ((s', co'), vote))"
  then obtain s1 r where c: "(case r of
      RslP1C a \<Rightarrow> (case rsl_vote a of
           None \<Rightarrow> Some (Inl Uninitialised)
         | Some vote \<Rightarrow> and_run (req s1 (insert_all (co_read_nodes co) (co_write_nodes co)) (RslP2C (p2c_arguments co vote)))
             (\<lambda>(s, _). Some (Inr ((s, co), vote))))
    | _ \<Rightarrow> Some (Inl Uninitialised)) = Some (Inr ((s', co'), vote))"
    by (auto simp: commit_def Let_def and_run_eq_Inr_iff)
  show ?thesis
  proof (cases r)
    case (RslP1C a)
    with c show ?thesis by (cases "rsl_vote a") (auto simp: and_run_eq_Inr_iff)
  qed (use c in auto)
qed

lemma coord_write_coordinator:
  "coord_write req mapper (s, co) key val = Some (Inr ((s', co'))) \<Longrightarrow>
   co_pend_writes co' = (co_pend_writes co)(key \<mapsto> val)"
  by (auto simp: coord_write_def Let_def and_run_eq_Inr_iff)

text \<open>
  C31: a withdrawal never overdraws the accounts: over any resolution client, when the reads of
  the two accounts bring the balances in their decimal form, a withdrawal that the sum covers
  writes the first balance less the amount, so that the new sum is not negative, and any other
  withdrawal writes nothing; no arithmetic in the two widths overflows within these bounds.
\<close>
theorem withdrawal_never_overdraws:
  assumes "coord_read req mapper (s, co) 1 = Some (Inr ((s1, co1), Some (show_int b1)))"
    and "coord_read req mapper (s1, co1) 2 = Some (Inr ((s2, co2), Some (show_int b2)))"
    and "- (2 ^ 30) \<le> b1" "b1 < 2 ^ 30" "- (2 ^ 30) \<le> b2" "b2 < 2 ^ 30" "uint (wc_amount co2) < 2 ^ 31"
    and "withdraw_run req mapper (s, co) = Some (Inr ((s', co'), vote))"
  shows "if uint (wc_amount co2) \<le> b1 + b2
    then co_pend_writes co' = (co_pend_writes co2)(1 \<mapsto> show_int (b1 - uint (wc_amount co2)))
      \<and> 0 \<le> (b1 - uint (wc_amount co2)) + b2
    else co_pend_writes co' = co_pend_writes co2"
proof -
  note cov = covered_iff [OF assms(3-7)]
  have b: "balance_of (Some (show_int b)) = Inr (word_of_int b)" for b
    by (simp add: balance_of_def atoi_show_int)
  show ?thesis
  proof (cases "uint (wc_amount co2) \<le> b1 + b2")
    case True
    obtain a where a: "a = uint (wc_amount co2)" "0 \<le> a" by simp
    have "sint (withdraw_from (word_of_int b1) (wc_amount co2)) = b1 - uint (wc_amount co2)"
      by (rule withdraw_from_eq)
        (use assms(3-7) True a(2) in \<open>simp_all add: a(1) [symmetric]\<close>)
    with assms(1,2,8) cov True have "and_run (coord_write req mapper (s2, co2) 1 (show_int (b1 - uint (wc_amount co2))))
        (commit req) = Some (Inr ((s', co'), vote))"
      by (simp add: withdraw_run_def b Let_def)
    then obtain s3 co3 where "coord_write req mapper (s2, co2) 1 (show_int (b1 - uint (wc_amount co2))) = Some (Inr (s3, co3))"
      "commit req (s3, co3) = Some (Inr ((s', co'), vote))"
      by (auto simp: and_run_eq_Inr_iff)
    with True show ?thesis using coord_write_coordinator commit_coordinator by fastforce
  next
    case False
    with assms(1,2,8) cov have "commit req (s2, co2) = Some (Inr ((s', co'), vote))"
      by (simp add: withdraw_run_def b)
    with False show ?thesis using commit_coordinator by fastforce
  qed
qed

text \<open>A resolution client that knows the accounts and votes for every transaction.\<close>

definition bank :: "int \<Rightarrow> int \<Rightarrow> unit resolution" where
  "bank b1 b2 = (\<lambda>s nodes args. case args of
     RslRead a \<Rightarrow> Some (Inr (s, RslRead (a\<lparr>rsl_value := Some (show_int (if ra_key (rsl_read_args a) = 1 then b1 else b2))\<rparr>)))
   | RslP1C a \<Rightarrow> Some (Inr (s, RslP1C (a\<lparr>rsl_vote := Some True\<rparr>)))
   | _ \<Rightarrow> Some (Inr (s, args)))"

theorem withdrawal_never_overdraws_witness:
  "\<exists>s co. withdraw_run (bank 6 5) getNode ((), fst (new_withdraw_coordinator new_id_generator 9 10)) = Some (Inr ((s, co), True))
    \<and> co_pend_writes co 1 = Some (show_int (- 4))"
proof -
  let ?co = "fst (new_withdraw_coordinator new_id_generator 9 10)"
  have co: "co_pend_writes ?co = Map.empty" "wc_amount ?co = 10"
    by (simp_all add: new_withdraw_coordinator_def new_coordinator_def genTransactionID_def coordinator.defs withdraw_coordinator.defs)
  let ?co1 = "?co\<lparr>co_read_nodes := set_insert 0 (co_read_nodes ?co)\<rparr>"
  have r1: "coord_read (bank 6 5) getNode ((), ?co) 1 = Some (Inr (((), ?co1), Some (show_int 6)))"
    by (simp add: coord_read_def co bank_def getNode_def)
  let ?co2 = "?co1\<lparr>co_read_nodes := set_insert 0 (co_read_nodes ?co1)\<rparr>"
  have r2: "coord_read (bank 6 5) getNode ((), ?co1) 2 = Some (Inr (((), ?co2), Some (show_int 5)))"
    by (simp add: coord_read_def co bank_def getNode_def)
  have amount: "wc_amount ?co2 = 10" using co(2) by simp
  obtain co' where w: "withdraw_run (bank 6 5) getNode ((), ?co) = Some (Inr (((), co'), True))"
    using r1 r2 covered_iff [of 6 5 10] amount
    by (simp add: withdraw_run_def balance_of_def atoi_show_int Let_def coord_write_def commit_def bank_def p1c_arguments_def)
  from withdrawal_never_overdraws [OF r1 r2 _ _ _ _ _ w] amount have "co_pend_writes co' 1 = Some (show_int (- 4))" by simp
  with w show ?thesis by blast
qed

end
