(* ===== verification/Server_Calls.thy ===== *)
theory Server_Calls
  imports Server_Theorems RPC_Theorems
begin

text \<open>
  Whole calls to the server: a request arrives, one thread makes it an event and runs it, and
  the reply goes back.  A server that has nothing else to do answers every such call of a
  transaction and is idle again.
\<close>

section \<open>Calls\<close>

text \<open>The handler that the runtime fills with the next request of a type.\<close>

definition free_handler :: "rpc_server \<Rightarrow> request_t \<Rightarrow> rid option" where
  "free_handler rs req =
     find (\<lambda>r. rs_handlers rs r = Some (new_handler req) \<and> r \<notin> set (rs_request_queue rs)) [0..<rs_next rs]"

text \<open>A server that is down does not reply.\<close>

definition deliver :: "tserver \<Rightarrow> request_msg \<Rightarrow> tserver \<times> reply_msg option" where
  "deliver s m =
    (case free_handler (ts_rpc s) (msg_type m) of
       None \<Rightarrow> (s, None)
     | Some r \<Rightarrow>
         (case thread_turn getNode s [([(r, Some m)], [])] of
            Inl e \<Rightarrow> (s, None)
          | Inr s' \<Rightarrow> (s', Option.bind (rs_handlers (ts_rpc s') r) hd_reply)))"

text \<open>The loop of \<open>getEvent\<close> can take the next request; and nothing else is going on.\<close>

definition polling :: "tserver \<Rightarrow> bool" where
  "polling s \<longleftrightarrow> rpc_inv (ts_rpc s) \<and> rs_request_queue (ts_rpc s) = []
     \<and> q_queue (ts_queue s) = [] \<and> \<not> ts_tid_locked s \<and> \<not> ts_tid_write_locked s \<and> ts_nodes s = [0]"

definition idle :: "tserver \<Rightarrow> bool" where
  "idle s \<longleftrightarrow> server_inv s \<and> polling s \<and> registered (ts_locks s) = {}"

lemma pollingD:
  assumes "polling s"
  shows "rpc_inv (ts_rpc s)" "rs_request_queue (ts_rpc s) = []" "q_queue (ts_queue s) = []"
    "\<not> ts_tid_locked s" "\<not> ts_tid_write_locked s" "ts_nodes s = [0]"
  using assms by (simp_all add: polling_def)

lemma idle_polling: "idle s \<Longrightarrow> polling s"
  by (simp add: idle_def)

lemma idleD:
  assumes "idle s"
  shows "server_inv s" "rpc_inv (ts_rpc s)" "rs_request_queue (ts_rpc s) = []" "q_queue (ts_queue s) = []"
    "\<not> ts_tid_locked s" "\<not> ts_tid_write_locked s" "ts_nodes s = [0]" "registered (ts_locks s) = {}"
  using assms by (simp_all add: idle_def polling_def)

lemma find_first: "\<exists>x\<in>set xs. P x \<Longrightarrow> \<exists>x. find P xs = Some x \<and> P x \<and> x \<in> set xs"
  by (induction xs) auto

lemma free_handler_ok:
  assumes "rpc_inv rs"
  shows "\<exists>r. free_handler rs req = Some r \<and> listening rs r req"
proof -
  from rpc_inv_listening [OF assms] obtain r where r: "listening rs r req" by blast
  with assms have "r < rs_next rs" by (auto simp: rpc_inv_def listening_def)
  with r have "\<exists>r\<in>set [0..<rs_next rs]. rs_handlers rs r = Some (new_handler req) \<and> r \<notin> set (rs_request_queue rs)"
    by (auto simp: listening_def)
  from find_first [OF this] show ?thesis by (auto simp: free_handler_def listening_def)
qed

lemma rpc_inv_served:
  assumes "rpc_inv rs" "listening rs r req" "rs_request_queue rs' = []" "rs_next rs' = Suc (rs_next rs)"
    and "\<forall>r'. r' \<noteq> r \<longrightarrow> rs_handlers rs' r' = ((rs_handlers rs)(rs_next rs \<mapsto> new_handler req)) r'"
  shows "rpc_inv rs'"
proof -
  have r: "0 < r" "r < rs_next rs" "rs_handlers rs r = Some (new_handler req)"
    using assms(1,2) by (auto simp: rpc_inv_def listening_def)
  have new: "listening rs' (rs_next rs) req" using assms(3,5) r(2) by (simp add: listening_def)
  have l: "\<exists>r. listening rs' r req'" for req'
  proof (cases "req' = req")
    case True
    with new show ?thesis by blast
  next
    case False
    from assms(1) obtain r' where r': "listening rs r' req'" using rpc_inv_listening by blast
    have "new_handler req' \<noteq> new_handler req" using False by (cases req; cases req') (simp_all add: new_handler_defs)
    with r' r(3) have "r' \<noteq> r" by (auto simp: listening_def)
    moreover have "r' \<noteq> rs_next rs" using r' assms(1) by (auto simp: listening_def rpc_inv_def)
    ultimately have "listening rs' r' req'" using r' assms(3,5) by (simp add: listening_def)
    then show ?thesis by blast
  qed
  have "0 < r' \<and> r' < rs_next rs'" if "rs_handlers rs' r' \<noteq> None" for r'
  proof (cases "r' = r")
    case True
    with r assms(4) show ?thesis by simp
  next
    case False
    with that assms(5) have "r' = rs_next rs \<or> rs_handlers rs r' \<noteq> None" by (auto split: if_splits)
    with assms(1,4) r(1,2) show ?thesis by (auto simp: rpc_inv_def less_Suc_eq)
  qed
  with assms(3,4) l show ?thesis by (simp add: rpc_inv_def)
qed

section \<open>What the event of a call leaves alone\<close>

definition rest :: "tserver \<Rightarrow> tserver \<Rightarrow> rid \<Rightarrow> bool" where
  "rest s s' r \<longleftrightarrow> ts_nodes s' = ts_nodes s \<and> ts_queue s' = ts_queue s
     \<and> ts_tid_locked s' = ts_tid_locked s \<and> ts_tid_to_nodes s' = ts_tid_to_nodes s
     \<and> ts_tid_write_locked s' = ts_tid_write_locked s \<and> ts_tid_to_write_nodes s' = ts_tid_to_write_nodes s
     \<and> rs_next (ts_rpc s') = rs_next (ts_rpc s) \<and> rs_request_queue (ts_rpc s') = rs_request_queue (ts_rpc s)
     \<and> (\<forall>r'. r' \<noteq> r \<longrightarrow> rs_handlers (ts_rpc s') r' = rs_handlers (ts_rpc s) r')"

lemma rest_trans: "rest s s1 r \<Longrightarrow> rest s1 s2 r \<Longrightarrow> rest s s2 r"
  by (simp add: rest_def)

lemma rest_set_args: "rest s (set_args s r x) r"
  by (simp add: rest_def set_args_def split: option.split)

lemma rest_sendReply: "server_sendReply s r = Inr s' \<Longrightarrow> rest s s' r"
  by (auto simp: rest_def server_sendReply_def sendReply_def and_then_eq_Inr_iff)

lemma rest_set_phase: "rest s (set_phase s ev p) r"
  by (simp add: rest_def set_phase_def split: option.split)

lemma rest_locks: "rest s (s\<lparr>ts_locks := m\<rparr>) r"
  by (simp add: rest_def)

lemma rest_add: "rest s (add s tid key val) r"
  by (simp add: rest_def add_def Let_def)

lemma rest_prepare: "rest s (prepare s tid ts) r"
  by (simp add: rest_def prepare_def)

lemma rest_finalize: "rest s (finalize s tid vote) r"
proof -
  have "rest s (set_all s ts ws) r" for ts ws
  proof (induction s ts ws rule: set_all.induct)
    case (2 s ts key val ws)
    have "rest s (set_version s key ts val) r" by (simp add: rest_def set_version_def Let_def)
    with 2 show ?case using rest_trans by simp
  qed (simp add: rest_def)
  then show ?thesis by (simp add: rest_def finalize_def Let_def split: option.split)
qed

lemmas rest_steps = rest_set_args rest_set_phase rest_locks rest_add rest_prepare rest_finalize

lemma rest_write:
  assumes "run_write s ev e a = Inr s'"
  shows "rest s s' (se_rid e) \<and> ts_locks s' = ts_locks s"
proof -
  let ?s = "add (set_phase s ev 1) (wa_tid (rw_args a)) (wa_key (rw_args a)) (wa_value (rw_args a))"
  from assms have r: "server_sendReply ?s (se_rid e) = Inr s'"
    by (simp add: run_write_def Let_def split: if_splits)
  have "rest s ?s (se_rid e)" by (rule rest_trans [OF rest_set_phase rest_add])
  moreover have "ts_locks ?s = ts_locks s" by (simp add: add_def set_phase_def Let_def split: option.split)
  moreover have "ts_locks s' = ts_locks ?s" using same_data_sendReply [OF r] by (simp add: same_data_def)
  ultimately show ?thesis using rest_trans rest_sendReply [OF r] by metis
qed

lemma rest_read:
  assumes "run_read s ev e a = Inr s'"
  shows "rest s s' (se_rid e)"
proof -
  have set_event: "rest s (set_args s r x) r" "rest s (set_phase s ev p) r" for s r x p
    by (simp_all add: rest_set_args rest_set_phase)
  have phase_1: "rest s s' (se_rid e)" if "read_phase_1 s ev e a = Inr s'" for s a
  proof -
    from that obtain v where r: "server_sendReply (set_args (set_phase s ev 2) (se_rid e) (ARead (a\<lparr>rr_value := v\<rparr>))) (se_rid e) = Inr s'"
      by (auto simp: read_phase_1_def Let_def and_then_eq_Inr_iff)
    show ?thesis by (rule rest_trans [OF rest_trans [OF set_event(2,1)] rest_sendReply [OF r]])
  qed
  show ?thesis
  proof (cases "se_phase e = 0")
    case True
    with assms obtain m start a1 b where "s' = set_args (s\<lparr>ts_locks := m\<rparr>) (se_rid e) (ARead a1)
        \<or> read_phase_1 (set_phase (set_args (s\<lparr>ts_locks := m\<rparr>) (se_rid e) (ARead a1)) ev 1) ev e a1 = Inr s'"
      by (auto simp: run_read_def Let_def and_then_eq_Inr_iff split: if_splits prod.splits)
    then show ?thesis
    proof
      assume "s' = set_args (s\<lparr>ts_locks := m\<rparr>) (se_rid e) (ARead a1)"
      then show ?thesis using rest_trans [OF rest_locks set_event(1)] by simp
    next
      assume "read_phase_1 (set_phase (set_args (s\<lparr>ts_locks := m\<rparr>) (se_rid e) (ARead a1)) ev 1) ev e a1 = Inr s'"
      from rest_trans [OF rest_trans [OF rest_trans [OF rest_locks set_event(1)] set_event(2)] phase_1 [OF this]]
      show ?thesis .
    qed
  next
    case False
    with assms phase_1 show ?thesis by (auto simp: run_read_def split: if_splits)
  qed
qed

lemma rest_p1c:
  assumes "run_p1c s ev e a = Inr s'"
  shows "rest s s' (se_rid e)"
proof -
  from assms obtain m a1 where
    r: "server_sendReply (prepare (set_args ((set_phase s ev 1)\<lparr>ts_locks := m\<rparr>) (se_rid e) (AP1C a1))
      (p1_tid (rp1_args a)) (p1_commit_ts (rp1_args a))) (se_rid e) = Inr s'"
    by (auto simp: run_p1c_def Let_def and_then_eq_Inr_iff split: if_splits)
  show ?thesis
    by (rule rest_trans [OF rest_trans [OF rest_trans [OF rest_trans [OF rest_set_phase rest_locks] rest_set_args]
          rest_prepare] rest_sendReply [OF r]])
qed

text \<open>The second phase forgets its transaction and no other.\<close>

definition forgotten :: "tserver \<Rightarrow> tserver \<Rightarrow> u64 \<Rightarrow> bool" where
  "forgotten s s' tid \<longleftrightarrow> ts_rdy_to_commit s' = (ts_rdy_to_commit s)(tid := None)
     \<and> (ts_rdy_to_commit s tid \<noteq> None \<longrightarrow> ts_pend_writes s' = (ts_pend_writes s)(tid := None))"

lemma set_all_tables:
  "ts_pend_writes (set_all s ts ws) = ts_pend_writes s \<and> ts_rdy_to_commit (set_all s ts ws) = ts_rdy_to_commit s"
  by (induction s ts ws rule: set_all.induct) (simp_all add: set_version_def Let_def)

lemma forgotten_finalize: "forgotten s (finalize s tid vote) tid"
  using set_all_tables by (auto simp: forgotten_def finalize_def Let_def fun_eq_iff split: option.split)

lemma forgotten_cong:
  "forgotten s s1 tid \<Longrightarrow> ts_pend_writes s0 = ts_pend_writes s \<Longrightarrow> ts_rdy_to_commit s0 = ts_rdy_to_commit s \<Longrightarrow>
   ts_pend_writes s' = ts_pend_writes s1 \<Longrightarrow> ts_rdy_to_commit s' = ts_rdy_to_commit s1 \<Longrightarrow> forgotten s0 s' tid"
  by (simp add: forgotten_def)

lemma rest_p2c:
  assumes "run_p2c run s ev e a = Inr s'" "registered (ts_locks s) = {}" "se_phase e = 0"
  shows "rest s s' (se_rid e) \<and> registered (ts_locks s') = {} \<and> forgotten s s' (p2_tid (rp2_args a))"
proof -
  let ?tid = "p2_tid (rp2_args a)" and ?vote = "p2_vote (rp2_args a)"
  from assms(1,3) obtain m events s1 where
    l: "(if ?vote then freeze (ts_locks s) ?tid else unlock (ts_locks s) ?tid) = Some (m, events)"
    and run: "run_list run ((set_phase s ev 1)\<lparr>ts_locks := m\<rparr>) events = Inr s1"
    and r: "server_sendReply (finalize s1 ?tid ?vote) (se_rid e) = Inr s'"
    by (auto simp: run_p2c_def Let_def and_then_eq_Inr_iff need_def split: option.splits cong: if_cong)
  from l freeze_events unlock_events assms(2) have e: "events = []" "registered m = {}"
    by (fastforce split: if_splits)+
  with run have s1: "s1 = (set_phase s ev 1)\<lparr>ts_locks := m\<rparr>" by simp
  have "ts_locks s' = m" using same_data_sendReply [OF r] s1 by (simp add: same_data_def)
  moreover have "forgotten s s' ?tid"
    by (rule forgotten_cong [OF forgotten_finalize [of s1 ?tid ?vote]])
      (use same_data_sendReply [OF r] s1 in \<open>simp_all add: same_data_def set_phase_def split: option.split\<close>)
  ultimately show ?thesis using e(2)
    using rest_trans [OF rest_trans [OF rest_trans [OF rest_set_phase rest_locks] rest_finalize]
        rest_sendReply [OF r [unfolded s1]]] by blast
qed

section \<open>Arrivals\<close>

text \<open>What an arrival changes beside the tables of nodes.\<close>

definition arrived :: "tserver \<Rightarrow> tserver \<Rightarrow> rid \<Rightarrow> request_t \<Rightarrow> bool" where
  "arrived s s1 r req \<longleftrightarrow> same_data s s1 \<and> ts_nodes s1 = ts_nodes s \<and> ts_queue s1 = ts_queue s
     \<and> \<not> ts_tid_locked s1 \<and> \<not> ts_tid_write_locked s1
     \<and> ts_next_event s1 = Suc (ts_next_event s) \<and> (\<forall>ev. ev \<noteq> ts_next_event s \<longrightarrow> ts_events s1 ev = ts_events s ev)
     \<and> rs_next (ts_rpc s1) = Suc (rs_next (ts_rpc s)) \<and> rs_request_queue (ts_rpc s1) = []
     \<and> (\<forall>r'. r' \<noteq> r \<longrightarrow> rs_handlers (ts_rpc s1) r' = ((rs_handlers (ts_rpc s))(rs_next (ts_rpc s) \<mapsto> new_handler req)) r')"

lemma idle_again:
  assumes "idle s" "listening (ts_rpc s) r req" "arrived s s1 r req" "rest s1 s' r" "server_inv s'"
    and "registered (ts_locks s') = {}"
  shows "idle s'"
proof -
  have "rpc_inv (ts_rpc s')"
    by (rule rpc_inv_served [OF idleD(2) [OF assms(1)] assms(2)])
      (use assms(3,4) in \<open>auto simp: arrived_def rest_def\<close>)
  with assms idleD [OF assms(1)] show ?thesis by (simp add: idle_def polling_def arrived_def rest_def)
qed

lemma next_request:
  assumes "polling s" "listening (ts_rpc s) r (msg_type m)"
    and "getArgs ((new_handler (msg_type m))\<lparr>hd_request := Some m\<rparr>) = Inr h"
  shows "asyncNextRequest (ts_rpc s) [(r, Some m)] =
    Inr ((ts_rpc s)\<lparr>rs_handlers := (rs_handlers (ts_rpc s))(r \<mapsto> h, rs_next (ts_rpc s) \<mapsto> new_handler (msg_type m)),
           rs_next := Suc (rs_next (ts_rpc s))\<rparr>, Some (r, msg_type m))"
proof -
  have l: "rs_handlers (ts_rpc s) r = Some (new_handler (msg_type m))" using assms(2) by (simp add: listening_def)
  have n: "r \<noteq> rs_next (ts_rpc s)" using l pollingD(1) [OF assms(1)] by (auto simp: rpc_inv_def)
  have g: "getRequest ((new_handler (msg_type m))\<lparr>hd_request := Some m\<rparr>) = Inr (msg_type m)"
    using getRequest_new [of "msg_type m" "Some m"] by (simp add: receive_def)
  show ?thesis
    using l n g assms(3) pollingD(2) [OF assms(1)]
    by (simp add: asyncNextRequest_def process_tag_def receive_def prepareNextRequest_def take_request_def fun_upd_twist)
qed

lemma arrive_dispatch:
  assumes "polling s" "listening (ts_rpc s) r (msg_type m)"
    and "getArgs ((new_handler (msg_type m))\<lparr>hd_request := Some m\<rparr>) = Inr h"
  shows "arrive s (r, Some m) = dispatch getNode (s\<lparr>ts_rpc := (ts_rpc s)\<lparr>
      rs_handlers := (rs_handlers (ts_rpc s))(r \<mapsto> h, rs_next (ts_rpc s) \<mapsto> new_handler (msg_type m)),
      rs_next := Suc (rs_next (ts_rpc s))\<rparr>\<rparr>) (msg_type m) r"
  using next_request [OF assms] pollingD(3) [OF assms(1)]
  by (simp add: arrive_def getEvent_round_def tryDequeue_def)

lemma listening_fresh: "polling s \<Longrightarrow> listening (ts_rpc s) r req \<Longrightarrow> r \<noteq> rs_next (ts_rpc s)"
  using pollingD(1) [of s] by (auto simp: rpc_inv_def listening_def)

lemmas arrival_defs =
  args_of_def set_args_def note_tid_def lock_tid_def note_write_tid_def lock_tid_write_def
  take_nodes_def take_write_nodes_def make_event_def new_event_def dispatch_def arrived_def
  same_data_def ready_def request_of_def getNode_def

lemma arrive_write:
  assumes i: "polling s" and l: "listening (ts_rpc s) r TWRITE"
  shows "\<exists>s1 e. arrive s (r, Some (MWrite q)) = Inr (s1, Some (ts_next_event s))
    \<and> ready s1 (ts_next_event s) e (AWrite \<lparr>rw_args = \<lparr>wa_tid = wq_tid q, wa_key = wq_key q, wa_value = wq_value q\<rparr>,
        rw_status = Some True\<rparr>)
    \<and> se_rid e = r \<and> arrived s s1 r TWRITE
    \<and> ts_tid_to_nodes s1 = note_node (ts_tid_to_nodes s) (wq_tid q) 0
    \<and> ts_tid_to_write_nodes s1 = note_node (ts_tid_to_write_nodes s) (wq_tid q) 0"
proof -
  let ?h = "(new_handler TWRITE)\<lparr>hd_request := Some (MWrite q),
      hd_args := AWrite \<lparr>rw_args = \<lparr>wa_tid = wq_tid q, wa_key = wq_key q, wa_value = wq_value q\<rparr>, rw_status = None\<rparr>\<rparr>"
  have "getArgs ((new_handler (msg_type (MWrite q)))\<lparr>hd_request := Some (MWrite q)\<rparr>) = Inr ?h"
    by (simp add: getArgs_defs new_handler_defs)
  from arrive_dispatch [OF i _ this] l listening_fresh [OF i l] pollingD(2-6) [OF i] show ?thesis
    by (simp add: dispatch_write_def arrival_defs Let_def)
qed

lemma arrive_read_call:
  assumes i: "polling s" and l: "listening (ts_rpc s) r TREAD"
  shows "\<exists>s1 e. arrive s (r, Some (MRead q)) = Inr (s1, Some (ts_next_event s))
    \<and> ready s1 (ts_next_event s) e (ARead \<lparr>rr_args = \<lparr>ra_tid = rq_tid q, ra_start_ts = rq_start_ts q, ra_key = rq_key q\<rparr>,
        rr_value = None, rr_status = Some True\<rparr>)
    \<and> se_rid e = r \<and> arrived s s1 r TREAD
    \<and> ts_tid_to_nodes s1 = note_node (ts_tid_to_nodes s) (rq_tid q) 0
    \<and> ts_tid_to_write_nodes s1 = ts_tid_to_write_nodes s"
proof -
  let ?h = "(new_handler TREAD)\<lparr>hd_request := Some (MRead q),
      hd_args := ARead \<lparr>rr_args = \<lparr>ra_tid = rq_tid q, ra_start_ts = rq_start_ts q, ra_key = rq_key q\<rparr>,
        rr_value = None, rr_status = None\<rparr>\<rparr>"
  have "getArgs ((new_handler (msg_type (MRead q)))\<lparr>hd_request := Some (MRead q)\<rparr>) = Inr ?h"
    by (simp add: getArgs_defs new_handler_defs)
  from arrive_dispatch [OF i _ this] l listening_fresh [OF i l] pollingD(2-6) [OF i] show ?thesis
    by (simp add: dispatch_read_def arrival_defs Let_def)
qed

lemma arrive_p1c:
  assumes i: "polling s" and l: "listening (ts_rpc s) r TP1C" and n: "ts_tid_to_write_nodes s (p1q_tid q) = Some nodes"
  shows "\<exists>s1 e. arrive s (r, Some (MP1C q)) = Inr (s1, Some (ts_next_event s))
    \<and> ready s1 (ts_next_event s) e (AP1C \<lparr>rp1_args = \<lparr>p1_tid = p1q_tid q, p1_start_ts = p1q_start_ts q,
        p1_commit_ts = p1q_commit_ts q, p1_read_nodes = insert_all (p1q_read_node q) [],
        p1_write_nodes = insert_all (p1q_write_node q) []\<rparr>, rp1_nodes = nodes, rp1_vote = None\<rparr>)
    \<and> se_rid e = r \<and> arrived s s1 r TP1C
    \<and> ts_tid_to_nodes s1 = ts_tid_to_nodes s
    \<and> ts_tid_to_write_nodes s1 = (ts_tid_to_write_nodes s)(p1q_tid q := None)"
proof -
  let ?h = "(new_handler TP1C)\<lparr>hd_request := Some (MP1C q),
      hd_args := AP1C \<lparr>rp1_args = \<lparr>p1_tid = p1q_tid q, p1_start_ts = p1q_start_ts q,
        p1_commit_ts = p1q_commit_ts q, p1_read_nodes = insert_all (p1q_read_node q) [],
        p1_write_nodes = insert_all (p1q_write_node q) []\<rparr>, rp1_nodes = [], rp1_vote = None\<rparr>\<rparr>"
  have "getArgs ((new_handler (msg_type (MP1C q)))\<lparr>hd_request := Some (MP1C q)\<rparr>) = Inr ?h"
    by (simp add: getArgs_defs new_handler_defs)
  from arrive_dispatch [OF i _ this] l n listening_fresh [OF i l] pollingD(2-6) [OF i] show ?thesis
    by (simp add: dispatch_p1c_def arrival_defs)
qed

lemma arrive_p2c:
  assumes i: "polling s" and l: "listening (ts_rpc s) r TP2C" and n: "ts_tid_to_nodes s (p2q_tid q) = Some nodes"
  shows "\<exists>s1 e. arrive s (r, Some (MP2C q)) = Inr (s1, Some (ts_next_event s))
    \<and> ready s1 (ts_next_event s) e (AP2C \<lparr>rp2_args = \<lparr>p2_tid = p2q_tid q, p2_vote = p2q_vote q\<rparr>, rp2_nodes = nodes\<rparr>)
    \<and> se_rid e = r \<and> arrived s s1 r TP2C
    \<and> ts_tid_to_nodes s1 = (ts_tid_to_nodes s)(p2q_tid q := None)
    \<and> ts_tid_to_write_nodes s1 = ts_tid_to_write_nodes s"
proof -
  let ?h = "(new_handler TP2C)\<lparr>hd_request := Some (MP2C q),
      hd_args := AP2C \<lparr>rp2_args = \<lparr>p2_tid = p2q_tid q, p2_vote = p2q_vote q\<rparr>, rp2_nodes = []\<rparr>\<rparr>"
  have "getArgs ((new_handler (msg_type (MP2C q)))\<lparr>hd_request := Some (MP2C q)\<rparr>) = Inr ?h"
    by (simp add: getArgs_defs new_handler_defs)
  from arrive_dispatch [OF i _ this] l n listening_fresh [OF i l] pollingD(2-6) [OF i] show ?thesis
    by (simp add: dispatch_p2c_def arrival_defs)
qed

section \<open>Calls to an idle server\<close>

lemma deliver_run:
  assumes "free_handler (ts_rpc s) (msg_type m) = Some r" "arrive s (r, Some m) = Inr (s1, Some ev)"
    and "run_event 2 s1 ev = Inr s'" "replied s' r reply"
  shows "deliver s m = (s', Some reply)"
proof -
  have "thread_turn getNode s [([(r, Some m)], [])] = Inr s'"
    using assms(2,3) by (simp add: thread_turn_def arrive_def del: run_event.simps)
  with assms(1,4) show ?thesis by (auto simp: deliver_def replied_def split: option.splits)
qed

lemma write_event_ok:
  assumes "server_inv s" "ready s ev e (AWrite a)" "rw_status a = Some st"
  shows "\<exists>s'. run_event 2 s ev = Inr s' \<and> server_inv s' \<and> replied s' (se_rid e) (RWrite \<lparr>wp_status = st\<rparr>)
    \<and> same_data (add s (wa_tid (rw_args a)) (wa_key (rw_args a)) (wa_value (rw_args a))) s'
    \<and> rest s s' (se_rid e)"
proof -
  let ?s = "add (set_phase s ev 1) (wa_tid (rw_args a)) (wa_key (rw_args a)) (wa_value (rw_args a))"
  have rpc: "ts_rpc ?s = ts_rpc s" by (simp add: add_def Let_def)
  have "processing ?s (se_rid e) (AWrite a)"
    using ready_processing [OF assms(2)] processing_cong [OF rpc] by simp
  from sendReply_complete [OF this, of "RWrite \<lparr>wp_status = st\<rparr>"] assms(3) obtain s' where
    s': "server_sendReply ?s (se_rid e) = Inr s'" "replied s' (se_rid e) (RWrite \<lparr>wp_status = st\<rparr>)" "same_data ?s s'"
    by auto
  have "run_event 2 s ev = run_write s ev e a"
    using run_event_ready [OF assms(2), of "Suc 0"] by (simp add: numeral_2_eq_2)
  with s'(1) ready_phase [OF assms(2)] have run: "run_write s ev e a = Inr s'" "run_event 2 s ev = Inr s'"
    by (simp_all add: run_write_def Let_def)
  have "event_allowed s ev" using ready_allowed [OF assms(2)] by (simp add: args_allowed_def)
  from run_event_safe [OF run(2) assms(1) this] have "server_inv s'" by (simp add: safe_step_def)
  moreover have "same_data (add s (wa_tid (rw_args a)) (wa_key (rw_args a)) (wa_value (rw_args a))) ?s"
    by (simp add: same_data_def add_def set_phase_def Let_def split: option.split)
  ultimately show ?thesis using run s'(2) same_data_trans [OF _ s'(3)] rest_write [OF run(1)] by blast
qed

lemma call_write:
  assumes "idle s"
  shows "\<exists>s'. deliver s (MWrite q) = (s', Some (RWrite \<lparr>wp_status = True\<rparr>)) \<and> idle s'
    \<and> same_data (add s (wq_tid q) (wq_key q) (wq_value q)) s'
    \<and> ts_tid_to_nodes s' = note_node (ts_tid_to_nodes s) (wq_tid q) 0
    \<and> ts_tid_to_write_nodes s' = note_node (ts_tid_to_write_nodes s) (wq_tid q) 0"
proof -
  from free_handler_ok [OF idleD(2) [OF assms], of TWRITE] obtain r where
    r: "free_handler (ts_rpc s) (msg_type (MWrite q)) = Some r" "listening (ts_rpc s) r TWRITE" by auto
  from arrive_write [OF idle_polling [OF assms] r(2), of q] obtain s1 e where
    a: "arrive s (r, Some (MWrite q)) = Inr (s1, Some (ts_next_event s))"
    "ready s1 (ts_next_event s) e (AWrite \<lparr>rw_args = \<lparr>wa_tid = wq_tid q, wa_key = wq_key q, wa_value = wq_value q\<rparr>,
        rw_status = Some True\<rparr>)" "se_rid e = r" "arrived s s1 r TWRITE"
    "ts_tid_to_nodes s1 = note_node (ts_tid_to_nodes s) (wq_tid q) 0"
    "ts_tid_to_write_nodes s1 = note_node (ts_tid_to_write_nodes s) (wq_tid q) 0" by blast
  have inv1: "server_inv s1" by (rule arrive_inv [OF a(1) _ idleD(1) [OF assms]]) (simp add: arrival_ok_def)
  from write_event_ok [OF inv1 a(2)] a(3) obtain s' where
    s': "run_event 2 s1 (ts_next_event s) = Inr s'" "server_inv s'" "replied s' r (RWrite \<lparr>wp_status = True\<rparr>)"
    "same_data (add s1 (wq_tid q) (wq_key q) (wq_value q)) s'" "rest s1 s' r"
    by (auto simp del: run_event.simps)
  have sd: "same_data (add s (wq_tid q) (wq_key q) (wq_value q)) s'"
    using a(4) s'(4) by (simp add: arrived_def same_data_def add_def Let_def)
  moreover have "registered (ts_locks s') = {}"
    using sd idleD(8) [OF assms] by (simp add: same_data_def)
  ultimately have "idle s'" using idle_again [OF assms r(2) a(4) s'(5,2)] by simp
  with deliver_run [OF r(1) a(1) s'(1,3)] sd a(5,6) s'(5) show ?thesis by (simp add: rest_def)
qed

text \<open>A read at a time after 0, when the latest write before it is a committed version.\<close>

lemma call_read:
  assumes "idle s" "latest_write s (rq_key q) (rq_start_ts q) stop" "committed s (rq_key q) stop"
  shows "\<exists>s' v. deliver s (MRead q) = (s', Some (RRead \<lparr>rp_value = v, rp_status = True\<rparr>)) \<and> idle s'
    \<and> get s (rq_key q) stop = Some v \<and> get s' = get s
    \<and> (\<forall>k t. lock_at (ts_locks s') k t = (if k = rq_key q \<and> stop < t \<and> t < rq_start_ts q
          then acquire True (rq_tid q) (lock_at (ts_locks s) k t) else lock_at (ts_locks s) k t))
    \<and> ts_tid_to_nodes s' = note_node (ts_tid_to_nodes s) (rq_tid q) 0
    \<and> ts_tid_to_write_nodes s' = ts_tid_to_write_nodes s
    \<and> ts_pend_writes s' = ts_pend_writes s \<and> ts_rdy_to_commit s' = ts_rdy_to_commit s"
proof -
  from free_handler_ok [OF idleD(2) [OF assms(1)], of TREAD] obtain r where
    r: "free_handler (ts_rpc s) (msg_type (MRead q)) = Some r" "listening (ts_rpc s) r TREAD" by auto
  let ?a = "\<lparr>rr_args = \<lparr>ra_tid = rq_tid q, ra_start_ts = rq_start_ts q, ra_key = rq_key q\<rparr>,
        rr_value = None, rr_status = Some True\<rparr>"
  from arrive_read_call [OF idle_polling [OF assms(1)] r(2), of q] obtain s1 e where
    a: "arrive s (r, Some (MRead q)) = Inr (s1, Some (ts_next_event s))" "ready s1 (ts_next_event s) e (ARead ?a)"
    "se_rid e = r" "arrived s s1 r TREAD"
    "ts_tid_to_nodes s1 = note_node (ts_tid_to_nodes s) (rq_tid q) 0"
    "ts_tid_to_write_nodes s1 = ts_tid_to_write_nodes s" by blast
  have pos: "rq_start_ts q \<noteq> 0" using assms(2) by (auto simp: latest_write_def)
  have inv1: "server_inv s1"
    by (rule arrive_inv [OF a(1) _ idleD(1) [OF assms(1)]]) (simp add: arrival_ok_def pos)
  have sd1: "same_data s s1" using a(4) by (simp add: arrived_def)
  have l1: "ts_locks s1 = ts_locks s" "get s1 = get s"
    using sd1 same_data_get [OF sd1] by (simp_all add: same_data_def)
  have lw: "latest_write s1 (ra_key (rr_args ?a)) (ra_start_ts (rr_args ?a)) stop"
    "committed s1 (ra_key (rr_args ?a)) stop"
    using assms(2,3) l1 by (simp_all add: latest_write_def committed_def)
  from read_event_ok [OF inv1 a(2) _ lw, of True] obtain s' v where
    s': "run_event 2 s1 (ts_next_event s) = Inr s'" "get s (rq_key q) stop = Some v"
    "replied s' r (RRead \<lparr>rp_value = v, rp_status = True\<rparr>)" "server_inv s'" "get s' = get s"
    "same_data (s1\<lparr>ts_locks := ts_locks s'\<rparr>) s'" "registered (ts_locks s') = registered (ts_locks s)"
    "\<forall>k t. lock_at (ts_locks s') k t = (if k = rq_key q \<and> stop < t \<and> t < rq_start_ts q
          then acquire True (rq_tid q) (lock_at (ts_locks s) k t) else lock_at (ts_locks s) k t)"
    unfolding a(3) l1 by (auto simp del: run_event.simps)
  have "run_event 2 s1 (ts_next_event s) = run_read s1 (ts_next_event s) e ?a"
    using run_event_ready [OF a(2), of "Suc 0"] by (simp add: numeral_2_eq_2)
  with s'(1) rest_read a(3) have rest: "rest s1 s' r" by metis
  have "registered (ts_locks s') = {}" using s'(7) idleD(8) [OF assms(1)] by simp
  then have "idle s'" by (rule idle_again [OF assms(1) r(2) a(4) rest s'(4)])
  moreover have "ts_pend_writes s' = ts_pend_writes s" "ts_rdy_to_commit s' = ts_rdy_to_commit s"
    using s'(6) sd1 by (simp_all add: same_data_def)
  moreover have "ts_tid_to_nodes s' = note_node (ts_tid_to_nodes s) (rq_tid q) 0"
    "ts_tid_to_write_nodes s' = ts_tid_to_write_nodes s"
    using rest a(5,6) by (simp_all add: rest_def)
  ultimately show ?thesis using deliver_run [OF r(1) a(1) s'(1,3)] s'(2,5,8) by blast
qed

lemma preparable_same: "same_data s s1 \<Longrightarrow> preparable s1 tid ts = preparable s tid ts"
  by (simp add: same_data_def preparable_def)

lemma call_p1c:
  assumes "idle s" "ts_tid_to_write_nodes s (p1q_tid q) = Some nodes" "p1q_start_ts q = ts" "p1q_commit_ts q = ts"
    and "preparable s (p1q_tid q) ts"
  shows "\<exists>s' vote m'. deliver s (MP1C q) = (s', Some (RP1C \<lparr>p1p_node = insert_all (insert_all (p1q_write_node q) [])
          (insert_all (insert_all (p1q_read_node q) []) nodes), p1p_vote = vote\<rparr>)) \<and> idle s'
    \<and> (vote \<longleftrightarrow> distinct (getKeys s (p1q_tid q)) \<and> (\<forall>k\<in>set (getKeys s (p1q_tid q)). fst (lock_at (ts_locks s) k ts) = FREE))
    \<and> (vote \<longrightarrow> fully_locked s' (p1q_tid q)) \<and> ts_tid_to_nodes s' = ts_tid_to_nodes s
    \<and> ts_tid_to_write_nodes s' = (ts_tid_to_write_nodes s)(p1q_tid q := None)
    \<and> same_data (prepare (s\<lparr>ts_locks := m'\<rparr>) (p1q_tid q) ts) s'
    \<and> lock_keys (ts_locks s) (p1q_tid q) ts ts (getKeys s (p1q_tid q)) = Some (m', vote)"
proof -
  let ?tid = "p1q_tid q"
  from free_handler_ok [OF idleD(2) [OF assms(1)], of TP1C] obtain r where
    r: "free_handler (ts_rpc s) (msg_type (MP1C q)) = Some r" "listening (ts_rpc s) r TP1C" by auto
  let ?a = "\<lparr>rp1_args = \<lparr>p1_tid = ?tid, p1_start_ts = p1q_start_ts q, p1_commit_ts = p1q_commit_ts q,
        p1_read_nodes = insert_all (p1q_read_node q) [], p1_write_nodes = insert_all (p1q_write_node q) []\<rparr>,
        rp1_nodes = nodes, rp1_vote = None\<rparr>"
  from arrive_p1c [OF idle_polling [OF assms(1)] r(2) assms(2)] obtain s1 e where
    a: "arrive s (r, Some (MP1C q)) = Inr (s1, Some (ts_next_event s))" "ready s1 (ts_next_event s) e (AP1C ?a)"
    "se_rid e = r" "arrived s s1 r TP1C" "ts_tid_to_nodes s1 = ts_tid_to_nodes s"
    "ts_tid_to_write_nodes s1 = (ts_tid_to_write_nodes s)(?tid := None)" by blast
  have inv1: "server_inv s1" by (rule arrive_inv [OF a(1) _ idleD(1) [OF assms(1)]]) (simp add: arrival_ok_def)
  have sd1: "same_data s s1" using a(4) by (simp add: arrived_def)
  have k1: "getKeys s1 = getKeys s" "ts_locks s1 = ts_locks s"
    using same_data_getKeys [OF sd1] sd1 by (simp_all add: same_data_def)
  have p1: "preparable s1 ?tid ts" using preparable_same [OF sd1] assms(5) by simp
  from prepare_event_ok [OF inv1 a(2) _ _ _ p1] assms(3,4) a(3) k1 obtain s' vote m' where
    s': "run_event 2 s1 (ts_next_event s) = Inr s'" "server_inv s'"
    "replied s' r (RP1C \<lparr>p1p_node = insert_all (insert_all (p1q_write_node q) [])
          (insert_all (insert_all (p1q_read_node q) []) nodes), p1p_vote = vote\<rparr>)"
    "vote \<longleftrightarrow> distinct (getKeys s ?tid) \<and> (\<forall>k\<in>set (getKeys s ?tid). fst (lock_at (ts_locks s) k ts) = FREE)"
    "vote \<longrightarrow> fully_locked s' ?tid" "same_data (prepare (s1\<lparr>ts_locks := m'\<rparr>) ?tid ts) s'"
    "lock_keys (ts_locks s) ?tid ts ts (getKeys s ?tid) = Some (m', vote)"
    by (auto simp del: run_event.simps)
  have "run_event 2 s1 (ts_next_event s) = run_p1c s1 (ts_next_event s) e ?a"
    using run_event_ready [OF a(2), of "Suc 0"] by (simp add: numeral_2_eq_2)
  with s'(1) rest_p1c a(3) have rest: "rest s1 s' r" by metis
  have sd: "same_data (prepare (s\<lparr>ts_locks := m'\<rparr>) ?tid ts) s'"
    using sd1 s'(6) by (simp add: same_data_def prepare_def)
  have "registered (ts_locks s') = {}"
    using sd lock_keys_events [OF s'(7)] idleD(8) [OF assms(1)] by (simp add: same_data_def)
  then have "idle s'" by (rule idle_again [OF assms(1) r(2) a(4) rest s'(2)])
  with deliver_run [OF r(1) a(1) s'(1,3)] s'(4,5,7) sd rest a(5,6) show ?thesis
    by (intro exI conjI) (simp_all add: rest_def)
qed

lemma idle_unawaited: "idle s \<Longrightarrow> unawaited s tid"
  using idleD(8) [of s] freeze_events [of "ts_locks s" tid]
  by (auto simp: unawaited_def split: option.split)

text \<open>The second phase, for either vote: the event, and the idle server after it.\<close>

definition call_forgotten :: "tserver \<Rightarrow> tserver \<Rightarrow> u64 \<Rightarrow> bool" where
  "call_forgotten s s' tid \<longleftrightarrow> forgotten s s' tid \<and> ts_tid_to_nodes s' = (ts_tid_to_nodes s)(tid := None)
     \<and> ts_tid_to_write_nodes s' = ts_tid_to_write_nodes s"

lemma call_p2c:
  assumes "idle s" "ts_tid_to_nodes s (p2q_tid q) = Some nodes"
    and "\<And>s1 ev e. server_inv s1 \<Longrightarrow> same_data s s1 \<Longrightarrow>
      ready s1 ev e (AP2C \<lparr>rp2_args = \<lparr>p2_tid = p2q_tid q, p2_vote = p2q_vote q\<rparr>, rp2_nodes = nodes\<rparr>) \<Longrightarrow>
      \<exists>s'. run_event 2 s1 ev = Inr s' \<and> server_inv s' \<and> replied s' (se_rid e) (RP2C \<lparr>p2p_node = nodes\<rparr>) \<and> P s'"
  shows "\<exists>s'. deliver s (MP2C q) = (s', Some (RP2C \<lparr>p2p_node = nodes\<rparr>)) \<and> idle s'
    \<and> call_forgotten s s' (p2q_tid q) \<and> P s'"
proof -
  from free_handler_ok [OF idleD(2) [OF assms(1)], of TP2C] obtain r where
    r: "free_handler (ts_rpc s) (msg_type (MP2C q)) = Some r" "listening (ts_rpc s) r TP2C" by auto
  let ?a = "\<lparr>rp2_args = \<lparr>p2_tid = p2q_tid q, p2_vote = p2q_vote q\<rparr>, rp2_nodes = nodes\<rparr>"
  from arrive_p2c [OF idle_polling [OF assms(1)] r(2) assms(2)] obtain s1 e where
    a: "arrive s (r, Some (MP2C q)) = Inr (s1, Some (ts_next_event s))" "ready s1 (ts_next_event s) e (AP2C ?a)"
    "se_rid e = r" "arrived s s1 r TP2C" "ts_tid_to_nodes s1 = (ts_tid_to_nodes s)(p2q_tid q := None)"
    "ts_tid_to_write_nodes s1 = ts_tid_to_write_nodes s" by blast
  have inv1: "server_inv s1" by (rule arrive_inv [OF a(1) _ idleD(1) [OF assms(1)]]) (simp add: arrival_ok_def)
  have sd1: "same_data s s1" using a(4) by (simp add: arrived_def)
  from assms(3) [OF inv1 sd1 a(2)] a(3) obtain s' where
    s': "run_event 2 s1 (ts_next_event s) = Inr s'" "server_inv s'" "replied s' r (RP2C \<lparr>p2p_node = nodes\<rparr>)" "P s'"
    by blast
  have "run_event 2 s1 (ts_next_event s) = run_p2c (run_event (Suc 0)) s1 (ts_next_event s) e ?a"
    using run_event_ready [OF a(2), of "Suc 0"] by (simp add: numeral_2_eq_2)
  moreover have "registered (ts_locks s1) = {}" using sd1 idleD(8) [OF assms(1)] by (simp add: same_data_def)
  ultimately have rest: "rest s1 s' r \<and> registered (ts_locks s') = {} \<and> forgotten s1 s' (p2_tid (rp2_args ?a))"
    using s'(1) rest_p2c ready_phase [OF a(2)] a(3) by metis
  then have "idle s'" using idle_again [OF assms(1) r(2) a(4) _ s'(2)] by blast
  moreover have "call_forgotten s s' (p2q_tid q)"
    using rest sd1 a(5,6) by (simp add: call_forgotten_def forgotten_def same_data_def rest_def)
  ultimately show ?thesis using deliver_run [OF r(1) a(1) s'(1,3)] s'(4) by blast
qed

lemma fully_locked_same: "same_data s s1 \<Longrightarrow> fully_locked s1 tid = fully_locked s tid"
  using same_data_getKeys [of s s1] by (simp add: fully_locked_def same_data_def cong: option.case_cong)

lemma unawaited_same: "same_data s s1 \<Longrightarrow> unawaited s1 tid = unawaited s tid"
  by (simp add: unawaited_def same_data_def)

lemma call_commit:
  assumes "idle s" "ts_tid_to_nodes s tid = Some nodes" "ts_rdy_to_commit s tid = Some ts" "fully_locked s tid"
  shows "\<exists>s'. deliver s (MP2C \<lparr>p2q_tid = tid, p2q_vote = True\<rparr>) = (s', Some (RP2C \<lparr>p2p_node = nodes\<rparr>)) \<and> idle s'
    \<and> call_forgotten s s' tid \<and> (\<forall>k t. lock_at (ts_locks s') k t = freeze_cell tid (lock_at (ts_locks s) k t))
    \<and> (\<forall>k t. get s' k t = (if t = ts \<and> t \<noteq> 0 \<and> k \<in> set (getKeys s tid)
          then map_of (rev (the (ts_pend_writes s tid))) k else get s k t))
    \<and> (\<forall>k\<in>set (getKeys s tid). committed s' k ts)"
proof -
  have step: "\<exists>s'. run_event 2 s1 ev = Inr s' \<and> server_inv s' \<and> replied s' (se_rid e) (RP2C \<lparr>p2p_node = nodes\<rparr>)
    \<and> (\<forall>k t. lock_at (ts_locks s') k t = freeze_cell tid (lock_at (ts_locks s) k t))
    \<and> (\<forall>k t. get s' k t = (if t = ts \<and> t \<noteq> 0 \<and> k \<in> set (getKeys s tid)
          then map_of (rev (the (ts_pend_writes s tid))) k else get s k t))
    \<and> (\<forall>k\<in>set (getKeys s tid). committed s' k ts)"
    if "server_inv s1" "same_data s s1"
      "ready s1 ev e (AP2C \<lparr>rp2_args = \<lparr>p2_tid = tid, p2_vote = True\<rparr>, rp2_nodes = nodes\<rparr>)" for s1 ev e
  proof -
    note sd = that(2)
    have "fully_locked s1 tid" "unawaited s1 tid" "ts_rdy_to_commit s1 tid = Some ts"
      using fully_locked_same [OF sd] unawaited_same [OF sd] idle_unawaited [OF assms(1)] assms(3,4) sd
      by (simp_all add: same_data_def)
    with commit_event_ok [OF that(1,3) _ _ this(3,1,2)] same_data_getKeys [OF sd] same_data_get [OF sd] sd
    show ?thesis by (fastforce simp: same_data_def simp del: run_event.simps)
  qed
  from call_p2c [OF assms(1), of "\<lparr>p2q_tid = tid, p2q_vote = True\<rparr>" nodes] assms(2) step show ?thesis
    by simp
qed

lemma call_abort:
  assumes "idle s" "ts_tid_to_nodes s tid = Some nodes" "\<not> shares_reads (ts_locks s) tid"
  shows "\<exists>s'. deliver s (MP2C \<lparr>p2q_tid = tid, p2q_vote = False\<rparr>) = (s', Some (RP2C \<lparr>p2p_node = nodes\<rparr>)) \<and> idle s'
    \<and> call_forgotten s s' tid \<and> get s' = get s \<and> (\<forall>k t. lock_at (ts_locks s') k t =
          (if tid \<in> snd (lock_at (ts_locks s) k t) then (FREE, {}) else lock_at (ts_locks s) k t))"
proof -
  have step: "\<exists>s'. run_event 2 s1 ev = Inr s' \<and> server_inv s' \<and> replied s' (se_rid e) (RP2C \<lparr>p2p_node = nodes\<rparr>)
    \<and> get s' = get s \<and> (\<forall>k t. lock_at (ts_locks s') k t =
          (if tid \<in> snd (lock_at (ts_locks s) k t) then (FREE, {}) else lock_at (ts_locks s) k t))"
    if "server_inv s1" "same_data s s1"
      "ready s1 ev e (AP2C \<lparr>rp2_args = \<lparr>p2_tid = tid, p2_vote = False\<rparr>, rp2_nodes = nodes\<rparr>)" for s1 ev e
  proof -
    have l: "ts_locks s1 = ts_locks s" using that(2) by (simp add: same_data_def)
    from abort_event_ok [OF that(1,3)] assms(3) idleD(8) [OF assms(1)] same_data_get [OF that(2)] show ?thesis
      unfolding l by (auto simp del: run_event.simps)
  qed
  from call_p2c [OF assms(1), of "\<lparr>p2q_tid = tid, p2q_vote = False\<rparr>" nodes] assms(2) step show ?thesis
    by simp
qed

end
