(* ===== verification/Transactions.thy ===== *)
theory Transactions
  imports Server_Calls Client_Theorems
begin

text \<open>
  Client and server together: a coordinator over the resolution client and the RPC client,
  with the calls carried to the server one at a time.
\<close>

section \<open>The network\<close>

text \<open>One server answers at every address.\<close>

definition server_net :: "tserver \<Rightarrow> string \<Rightarrow> request_msg \<Rightarrow> tserver \<times> reply_msg option" where
  "server_net s addr m = deliver s m"

text \<open>A coordinator carries out a list of writes.\<close>

fun write_all ::
    "'s resolution \<Rightarrow> (u64 \<Rightarrow> u64) \<Rightarrow> 's \<times> coordinator \<Rightarrow> (u64 \<times> string) list \<Rightarrow> ('s \<times> coordinator) run" where
  "write_all req mapper sc [] = Some (Inr sc)"
| "write_all req mapper sc ((key, val) # ws) =
     and_run (coord_write req mapper sc key val) (\<lambda>sc. write_all req mapper sc ws)"

definition pending :: "tserver \<Rightarrow> u64 \<Rightarrow> (u64 \<times> string) list" where
  "pending s tid = (case ts_pend_writes s tid of None \<Rightarrow> [] | Some ws \<Rightarrow> ws)"

lemma getKeys_pending: "getKeys s tid = map fst (pending s tid)"
  by (simp add: getKeys_def pending_def split: option.split)

lemma pending_add: "pending (add s tid key val) tid = pending s tid @ [(key, val)]"
  by (simp add: pending_def add_def Let_def split: option.split)

lemma pending_same: "same_data s s' \<Longrightarrow> pending s' tid = pending s tid"
  by (simp add: pending_def same_data_def)

text \<open>The tables of the server that have entries for transactions.\<close>

definition others :: "tserver \<Rightarrow> tserver \<Rightarrow> u64 \<Rightarrow> bool" where
  "others s s' tid \<longleftrightarrow> (\<forall>tid'. tid' \<noteq> tid \<longrightarrow>
     ts_tid_to_nodes s' tid' = ts_tid_to_nodes s tid' \<and> ts_tid_to_write_nodes s' tid' = ts_tid_to_write_nodes s tid'
     \<and> ts_pend_writes s' tid' = ts_pend_writes s tid' \<and> ts_rdy_to_commit s' tid' = ts_rdy_to_commit s tid')"

lemma others_trans: "others s s1 tid \<Longrightarrow> others s1 s2 tid \<Longrightarrow> others s s2 tid"
  by (simp add: others_def)

lemma others_refl [simp]: "others s s tid"
  by (simp add: others_def)

definition unknown :: "tserver \<Rightarrow> u64 \<Rightarrow> bool" where
  "unknown s tid \<longleftrightarrow> ts_tid_to_nodes s tid = None \<and> ts_tid_to_write_nodes s tid = None
     \<and> ts_pend_writes s tid = None \<and> ts_rdy_to_commit s tid = None"

lemma unknown_others: "others s s' tid \<Longrightarrow> tid' \<noteq> tid \<Longrightarrow> unknown s' tid' = unknown s tid'"
  by (simp add: others_def unknown_def)

lemma others_write:
  assumes "same_data (add s tid key val) s'" "ts_tid_to_nodes s' = note_node (ts_tid_to_nodes s) tid 0"
    and "ts_tid_to_write_nodes s' = note_node (ts_tid_to_write_nodes s) tid 0"
  shows "others s s' tid"
  using assms by (simp add: others_def same_data_def add_def note_node_def Let_def)

section \<open>The writes of a transaction\<close>

text \<open>The tables of nodes have the one node, or nothing, for the transaction.\<close>

definition zero_node :: "u64 list option \<Rightarrow> bool" where
  "zero_node ns \<longleftrightarrow> ns = None \<or> ns = Some [0]"

lemma note_zero: "zero_node (m tid) \<Longrightarrow> note_node m tid 0 tid = Some [0]"
  by (auto simp: zero_node_def note_node_def set_insert_def insort_insert_key_def)

lemma insert_zero: "ns = [] \<or> ns = [0] \<Longrightarrow> set_insert 0 ns = [0]"
  by (auto simp: set_insert_def insort_insert_key_def)

lemma coord_write_server:
  assumes "idle s" "default_only rl" "zero_node (ts_tid_to_nodes s (co_tid co))"
    and "zero_node (ts_tid_to_write_nodes s (co_tid co))" "co_write_nodes co = [] \<or> co_write_nodes co = [0]"
  shows "\<exists>rl' s' co'. coord_write (request server_net) getNode ((rl, s), co) key val = Some (Inr ((rl', s'), co'))
    \<and> default_only rl' \<and> rl_tag rl' = rl_tag rl \<and> idle s'
    \<and> same_data (add s (co_tid co) key val) s' \<and> others s s' (co_tid co)
    \<and> ts_tid_to_nodes s' (co_tid co) = Some [0] \<and> ts_tid_to_write_nodes s' (co_tid co) = Some [0]
    \<and> co_write_nodes co' = [0] \<and> co_tid co' = co_tid co \<and> co_start_ts co' = co_start_ts co
    \<and> co_read_nodes co' = co_read_nodes co"
proof -
  let ?a = "\<lparr>rsl_write_args = \<lparr>wa_tid = co_tid co, wa_key = key, wa_value = val\<rparr>\<rparr>"
  from call_write [OF assms(1), of "\<lparr>wq_tid = co_tid co, wq_key = key, wq_value = val\<rparr>"] obtain s' where
    s': "deliver s (MWrite (makeWriteRequest (rsl_write_args ?a))) = (s', Some (RWrite \<lparr>wp_status = True\<rparr>))"
    "idle s'" "same_data (add s (co_tid co) key val) s'"
    "ts_tid_to_nodes s' = note_node (ts_tid_to_nodes s) (co_tid co) 0"
    "ts_tid_to_write_nodes s' = note_node (ts_tid_to_write_nodes s) (co_tid co) 0"
    by (auto simp: makeWriteRequest_def)
  from write_once [OF assms(2), of server_net s ?a s' _ 0] s'(1) obtain rl' where
    "request server_net (rl, s) [0] (RslWrite ?a) = Some (Inr ((rl', s'), RslWrite ?a))"
    "default_only rl'" "rl_tag rl' = rl_tag rl"
    by (auto simp: server_net_def)
  moreover have "others s s' (co_tid co)" using others_write s'(3-5) by auto
  ultimately show ?thesis using s'(2-5) assms(3-5)
    by (simp add: coord_write_def getNode_def insert_zero note_zero Let_def)
qed

lemma write_all_server:
  assumes "idle s" "default_only rl" "zero_node (ts_tid_to_nodes s (co_tid co))"
    and "zero_node (ts_tid_to_write_nodes s (co_tid co))" "co_write_nodes co = [] \<or> co_write_nodes co = [0]"
  shows "\<exists>rl' s' co'. write_all (request server_net) getNode ((rl, s), co) ws = Some (Inr ((rl', s'), co'))
    \<and> default_only rl' \<and> rl_tag rl' = rl_tag rl \<and> idle s'
    \<and> ts_locks s' = ts_locks s \<and> ts_rdy_to_commit s' = ts_rdy_to_commit s \<and> get s' = get s
    \<and> others s s' (co_tid co) \<and> pending s' (co_tid co) = pending s (co_tid co) @ ws
    \<and> (ws \<noteq> [] \<longrightarrow> ts_tid_to_nodes s' (co_tid co) = Some [0] \<and> ts_tid_to_write_nodes s' (co_tid co) = Some [0]
         \<and> co_write_nodes co' = [0])
    \<and> co_tid co' = co_tid co \<and> co_start_ts co' = co_start_ts co \<and> co_read_nodes co' = co_read_nodes co"
  using assms
proof (induction ws arbitrary: rl s co)
  case (Cons w ws)
  obtain key val where w: "w = (key, val)" by (cases w)
  from coord_write_server [OF Cons.prems, of key val] obtain rl1 s1 co1 where
    c: "coord_write (request server_net) getNode ((rl, s), co) key val = Some (Inr ((rl1, s1), co1))"
    "default_only rl1" "rl_tag rl1 = rl_tag rl" "idle s1" "same_data (add s (co_tid co) key val) s1"
    "ts_tid_to_nodes s1 (co_tid co) = Some [0]" "ts_tid_to_write_nodes s1 (co_tid co) = Some [0]"
    "co_write_nodes co1 = [0]" "co_tid co1 = co_tid co" "co_start_ts co1 = co_start_ts co"
    "co_read_nodes co1 = co_read_nodes co" "others s s1 (co_tid co)" by blast
  have z: "zero_node (ts_tid_to_nodes s1 (co_tid co1))" "zero_node (ts_tid_to_write_nodes s1 (co_tid co1))"
    using c(6,7,9) by (simp_all add: zero_node_def)
  have o: "others s1 s' (co_tid co) \<Longrightarrow> others s s' (co_tid co)" for s'
    by (rule others_trans [OF c(12)])
  have d: "ts_locks s1 = ts_locks s" "ts_rdy_to_commit s1 = ts_rdy_to_commit s" "get s1 = get s"
    "pending s1 (co_tid co) = pending s (co_tid co) @ [(key, val)]"
    using c(5) same_data_get [OF c(5)] pending_same [OF c(5)]
    by (simp_all add: same_data_def pending_add)
  show ?case
  proof (cases ws)
    case Nil
    with c d w show ?thesis by simp
  next
    case (Cons w' ws')
    with Cons.IH [OF c(4,2) z disjI2 [OF c(8)]] c d w o show ?thesis by (auto simp del: write_all.simps simp add: write_all.simps(2) [of _ _ _ key val])
  qed
qed simp

section \<open>A transaction from its first write to its end\<close>

lemma map_of_rev_distinct:
  assumes "distinct (map fst ws)"
  shows "map_of (rev ws) = map_of ws"
proof (rule ext)
  fix k
  have "distinct (map fst (rev ws))" using assms by (simp add: rev_map [symmetric])
  then have "map_of (rev ws) k = Some v \<longleftrightarrow> map_of ws k = Some v" for v
    using assms by (simp add: map_of_eq_Some_iff)
  then show "map_of (rev ws) k = map_of ws k" by (metis not_Some_eq)
qed

text \<open>What the locks of the first phase are after either end of the transaction.\<close>

lemma lock_keys_ends:
  assumes "lm_inv m" "lock_keys m tid ts ts keys = Some (m', vote)" "\<And>k t. tid \<notin> snd (lock_at m k t)"
  shows "\<not> shares_reads m' tid"
    and "vote \<Longrightarrow> freeze_cell tid (lock_at m' k t) = (if t = ts \<and> k \<in> set keys then (FREEZE_WRITE_LOCK, {}) else lock_at m k t)"
    and "(if tid \<in> snd (lock_at m' k t) then (FREE, {}) else lock_at m' k t) = lock_at m k t"
proof -
  from lock_keys_ok [OF assms(1), of tid ts keys] assms(2) obtain L where L:
    "\<forall>k. k \<in> L \<longrightarrow> fst (lock_at m k ts) = FREE" "vote \<longrightarrow> L = set keys"
    "\<forall>k t. lock_at m' k t = (if k \<in> L \<and> t = ts then (WRITE_LOCK, {tid}) else lock_at m k t)" by auto
  from L(3) assms(3) show "\<not> shares_reads m' tid" by (auto simp: shares_reads_def split: if_splits)
  from L(2,3) assms(3) show "freeze_cell tid (lock_at m' k t) = (if t = ts \<and> k \<in> set keys then (FREEZE_WRITE_LOCK, {}) else lock_at m k t)" if vote
    using that by (simp add: freeze_cell_def)
  have "snd (lock_at m k ts) = {}" if "k \<in> L"
    using lm_inv_wf [OF assms(1), of k ts] L(1) that by (simp add: cell_wf_def)
  then have "lock_at m k ts = (FREE, {})" if "k \<in> L" using L(1) that by (simp add: prod_eq_iff)
  with L(3) assms(3) show "(if tid \<in> snd (lock_at m' k t) then (FREE, {}) else lock_at m' k t) = lock_at m k t"
    by simp
qed

lemma insert_zeros: "insert_all (insert_all [0] []) (insert_all (insert_all [] []) [0]) = [0]"
  by (simp add: insert_all_def insert_zero)

text \<open>The two calls of a commit.\<close>

lemma commit_calls:
  assumes "idle s" "ts_tid_to_nodes s tid = Some [0]" "ts_tid_to_write_nodes s tid = Some [0]"
    and "ts_rdy_to_commit s tid = None" "\<And>k t. tid \<notin> snd (lock_at (ts_locks s) k t)" "ts \<noteq> 0"
  shows "\<exists>s1 s2 vote. deliver s (MP1C \<lparr>p1q_tid = tid, p1q_start_ts = ts, p1q_commit_ts = ts,
          p1q_read_node = [], p1q_write_node = [0]\<rparr>) = (s1, Some (RP1C \<lparr>p1p_node = [0], p1p_vote = vote\<rparr>))
    \<and> deliver s1 (MP2C \<lparr>p2q_tid = tid, p2q_vote = vote\<rparr>) = (s2, Some (RP2C \<lparr>p2p_node = [0]\<rparr>)) \<and> idle s2
    \<and> (vote \<longleftrightarrow> distinct (getKeys s tid) \<and> (\<forall>k\<in>set (getKeys s tid). fst (lock_at (ts_locks s) k ts) = FREE))
    \<and> (\<forall>k t. get s2 k t = (if vote \<and> t = ts \<and> k \<in> set (getKeys s tid)
          then map_of (rev (pending s tid)) k else get s k t))
    \<and> (\<forall>k t. lock_at (ts_locks s2) k t =
          (if vote \<and> t = ts \<and> k \<in> set (getKeys s tid) then (FREEZE_WRITE_LOCK, {}) else lock_at (ts_locks s) k t))
    \<and> others s s2 tid \<and> unknown s2 tid"
proof -
  let ?q = "\<lparr>p1q_tid = tid, p1q_start_ts = ts, p1q_commit_ts = ts, p1q_read_node = [], p1q_write_node = [0]\<rparr>"
  have q: "ts_tid_to_write_nodes s (p1q_tid ?q) = Some [0]" "p1q_start_ts ?q = ts" "p1q_commit_ts ?q = ts"
    "preparable s (p1q_tid ?q) ts" using assms(3,4) by (simp_all add: preparable_def)
  from call_p1c [OF assms(1) q, unfolded PhaseOneCommitRequest.simps insert_zeros] obtain s1 vote m' where
    s1: "deliver s (MP1C ?q) = (s1, Some (RP1C \<lparr>p1p_node = [0], p1p_vote = vote\<rparr>))" "idle s1"
    "vote \<longleftrightarrow> distinct (getKeys s tid) \<and> (\<forall>k\<in>set (getKeys s tid). fst (lock_at (ts_locks s) k ts) = FREE)"
    "vote \<longrightarrow> fully_locked s1 tid" "ts_tid_to_nodes s1 = ts_tid_to_nodes s"
    "ts_tid_to_write_nodes s1 = (ts_tid_to_write_nodes s)(tid := None)"
    "same_data (prepare (s\<lparr>ts_locks := m'\<rparr>) tid ts) s1"
    "lock_keys (ts_locks s) tid ts ts (getKeys s tid) = Some (m', vote)" by (elim exE conjE)
  have n1: "ts_tid_to_nodes s1 tid = Some [0]" using s1(5) assms(2) by simp
  have d: "ts_locks s1 = m'" "ts_rdy_to_commit s1 = (ts_rdy_to_commit s)(tid \<mapsto> ts)" "get s1 = get s" "getKeys s1 = getKeys s"
    "ts_pend_writes s1 = ts_pend_writes s"
    using s1(7) same_data_get [OF s1(7)] by (simp_all add: same_data_def prepare_def getKeys_def fun_eq_iff)
  have r1: "ts_rdy_to_commit s1 tid = Some ts" using d(2) by simp
  have end2: "others s s2 tid \<and> unknown s2 tid" if "call_forgotten s1 s2 tid" for s2
    using that s1(5,6) d(2,5) by (simp add: others_def unknown_def call_forgotten_def forgotten_def)
  note locks = lock_keys_ends [OF data_inv_locks [OF server_inv_data [OF idleD(1) [OF assms(1)]]] s1(8) assms(5)]
  show ?thesis
  proof (cases vote)
    case True
    have p: "k \<in> set (getKeys s tid) \<Longrightarrow> the (ts_pend_writes s tid) = pending s tid" for k
      by (auto simp: getKeys_def pending_def split: option.splits)
    from call_commit [OF s1(2) n1 r1] s1(4) True obtain s2 where
      s2: "deliver s1 (MP2C \<lparr>p2q_tid = tid, p2q_vote = True\<rparr>) = (s2, Some (RP2C \<lparr>p2p_node = [0]\<rparr>))" "idle s2"
      "call_forgotten s1 s2 tid" "\<forall>k t. lock_at (ts_locks s2) k t = freeze_cell tid (lock_at m' k t)"
      "\<forall>k t. get s2 k t = (if t = ts \<and> t \<noteq> 0 \<and> k \<in> set (getKeys s tid)
          then map_of (rev (the (ts_pend_writes s tid))) k else get s k t)"
      unfolding d by blast
    have "get s2 k t = (if t = ts \<and> k \<in> set (getKeys s tid) then map_of (rev (pending s tid)) k else get s k t)" for k t
      using s2(5) p [of k] assms(6) by simp
    moreover have "lock_at (ts_locks s2) k t =
        (if t = ts \<and> k \<in> set (getKeys s tid) then (FREEZE_WRITE_LOCK, {}) else lock_at (ts_locks s) k t)" for k t
      using s2(4) locks(2) [OF True] by simp
    ultimately show ?thesis using s1(1,3) s2(1,2) end2 [OF s2(3)] True
      by (intro exI [of _ s1] exI [of _ s2] exI [of _ True]) simp
  next
    case False
    from call_abort [OF s1(2) n1] locks(1) d(1,3) obtain s2 where
      s2: "deliver s1 (MP2C \<lparr>p2q_tid = tid, p2q_vote = False\<rparr>) = (s2, Some (RP2C \<lparr>p2p_node = [0]\<rparr>))" "idle s2"
      "call_forgotten s1 s2 tid" "get s2 = get s"
      "\<forall>k t. lock_at (ts_locks s2) k t = (if tid \<in> snd (lock_at m' k t) then (FREE, {}) else lock_at m' k t)"
      by auto
    then have "lock_at (ts_locks s2) k t = lock_at (ts_locks s) k t" for k t using locks(3) by simp
    then show ?thesis using s1(1,3) s2(1,2,4) end2 [OF s2(3)] False
      by (intro exI [of _ s1] exI [of _ s2] exI [of _ False]) simp
  qed
qed

text \<open>A transaction of a new coordinator, and what it leaves behind.\<close>

lemma transaction_effect:
  assumes "idle s" "default_only rl" "small_tag (rl_tag rl)" "small_tag (rl_tag rl + 1)"
    and "co = \<lparr>co_tid = tid, co_start_ts = ts, co_read_nodes = [], co_write_nodes = [], co_pend_writes = Map.empty\<rparr>"
    and "unknown s tid" "\<And>k t. tid \<notin> snd (lock_at (ts_locks s) k t)" "ts \<noteq> 0" "ws \<noteq> []"
  shows "\<exists>rl1 s1 co1 rl2 s2 vote. write_all (request server_net) getNode ((rl, s), co) ws = Some (Inr ((rl1, s1), co1))
    \<and> commit (request server_net) ((rl1, s1), co1) = Some (Inr (((rl2, s2), co1), vote)) \<and> idle s2
    \<and> (vote \<longleftrightarrow> distinct (map fst ws) \<and> (\<forall>k\<in>fst ` set ws. fst (lock_at (ts_locks s) k ts) = FREE))
    \<and> (\<forall>k t. get s2 k t = (if vote \<and> t = ts \<and> k \<in> fst ` set ws then map_of ws k else get s k t))
    \<and> (\<forall>k t. lock_at (ts_locks s2) k t =
          (if vote \<and> t = ts \<and> k \<in> fst ` set ws then (FREEZE_WRITE_LOCK, {}) else lock_at (ts_locks s) k t))
    \<and> others s s2 tid \<and> unknown s2 tid \<and> default_only rl2 \<and> rl_tag rl2 = rl_tag rl + 2"
proof -
  have co: "co_tid co = tid" "co_start_ts co = ts" "co_read_nodes co = []" "co_write_nodes co = []"
    by (simp_all add: assms(5))
  have u: "ts_tid_to_nodes s tid = None" "ts_tid_to_write_nodes s tid = None" "ts_pend_writes s tid = None"
    "ts_rdy_to_commit s tid = None" using assms(6) by (simp_all add: unknown_def)
  then have "zero_node (ts_tid_to_nodes s (co_tid co))" "zero_node (ts_tid_to_write_nodes s (co_tid co))"
    using co(1) by (simp_all add: zero_node_def)
  from write_all_server [OF assms(1,2) this disjI1 [OF co(4)], of ws] co u(3) assms(9) obtain rl1 s1 co1 where
    w: "write_all (request server_net) getNode ((rl, s), co) ws = Some (Inr ((rl1, s1), co1))"
    "default_only rl1" "rl_tag rl1 = rl_tag rl" "idle s1" "ts_locks s1 = ts_locks s"
    "ts_rdy_to_commit s1 = ts_rdy_to_commit s" "get s1 = get s" "pending s1 tid = ws"
    "ts_tid_to_nodes s1 tid = Some [0]" "ts_tid_to_write_nodes s1 tid = Some [0]"
    "co_write_nodes co1 = [0]" "co_tid co1 = tid" "co_start_ts co1 = ts" "co_read_nodes co1 = []" "others s s1 tid"
    by (auto simp: pending_def)
  have keys: "getKeys s1 tid = map fst ws" using w(8) by (simp add: getKeys_pending)
  from commit_calls [OF w(4,9,10) _ _ assms(8), unfolded keys w(5-8)] u(4) assms(7) obtain s2 s3 vote where
    c: "deliver s1 (MP1C \<lparr>p1q_tid = tid, p1q_start_ts = ts, p1q_commit_ts = ts,
          p1q_read_node = [], p1q_write_node = [0]\<rparr>) = (s2, Some (RP1C \<lparr>p1p_node = [0], p1p_vote = vote\<rparr>))"
    "deliver s2 (MP2C \<lparr>p2q_tid = tid, p2q_vote = vote\<rparr>) = (s3, Some (RP2C \<lparr>p2p_node = [0]\<rparr>))" "idle s3"
    and vote: "vote \<longleftrightarrow> distinct (map fst ws) \<and> (\<forall>k\<in>set (map fst ws). fst (lock_at (ts_locks s) k ts) = FREE)"
    and get: "\<forall>k t. get s3 k t = (if vote \<and> t = ts \<and> k \<in> set (map fst ws) then map_of (rev ws) k else get s k t)"
    and locks: "\<forall>k t. lock_at (ts_locks s3) k t =
      (if vote \<and> t = ts \<and> k \<in> set (map fst ws) then (FREEZE_WRITE_LOCK, {}) else lock_at (ts_locks s) k t)"
    and tables: "others s1 s3 tid" "unknown s3 tid"
    by blast
  obtain rl2 where commit: "commit (request server_net) ((rl1, s1), co1) = Some (Inr (((rl2, s3), co1), vote))"
    "default_only rl2" "rl_tag rl2 = rl_tag rl + 2"
    using commit_answered [of rl1 co1 server_net s1 s2 "\<lparr>p1p_node = [0], p1p_vote = vote\<rparr>" s3 "\<lparr>p2p_node = [0]\<rparr>"]
      w(2,3,11-14) assms(3,4) c(1,2)
    by (auto simp add: server_net_def p1c_arguments_def makePhaseOneCommitRequest_def makePhaseTwoCommitRequest_def)
  have "get s3 k t = (if vote \<and> t = ts \<and> k \<in> fst ` set ws then map_of ws k else get s k t)" for k t
    using vote get map_of_rev_distinct [of ws] by (cases vote) simp_all
  then have "\<forall>k t. get s3 k t = (if vote \<and> t = ts \<and> k \<in> fst ` set ws then map_of ws k else get s k t)"
    by blast
  with w(1) commit c(3) vote locks others_trans [OF w(15) tables(1)] tables(2) show ?thesis
    unfolding set_map by blast
qed

text \<open>
  C1: a transaction is atomic, from the coordinator to the store: on an idle server, a new
  coordinator that carries out any writes and then commits comes to an end; it is committed
  exactly when the keys are different and none of them is locked or read at its time; then
  every one of its values is stored and committed at that time and nothing else has changed,
  and otherwise nothing at all has changed in the store; in both cases the server is idle
  again.
\<close>
theorem transaction_is_atomic:
  assumes "idle s" "default_only rl" "small_tag (rl_tag rl)" "small_tag (rl_tag rl + 1)"
    and "co = \<lparr>co_tid = tid, co_start_ts = ts, co_read_nodes = [], co_write_nodes = [], co_pend_writes = Map.empty\<rparr>"
    and "unknown s tid" "\<And>k t. tid \<notin> snd (lock_at (ts_locks s) k t)" "ts \<noteq> 0" "ws \<noteq> []"
  shows "\<exists>rl1 s1 co1 rl2 s2 vote. write_all (request server_net) getNode ((rl, s), co) ws = Some (Inr ((rl1, s1), co1))
    \<and> commit (request server_net) ((rl1, s1), co1) = Some (Inr (((rl2, s2), co1), vote)) \<and> idle s2
    \<and> (vote \<longleftrightarrow> distinct (map fst ws) \<and> (\<forall>k\<in>fst ` set ws. fst (lock_at (ts_locks s) k ts) = FREE))
    \<and> (\<forall>k t. get s2 k t = (if vote \<and> t = ts \<and> k \<in> fst ` set ws then map_of ws k else get s k t))
    \<and> (vote \<longrightarrow> (\<forall>k\<in>fst ` set ws. committed s2 k ts))"
proof -
  from transaction_effect [OF assms] obtain rl1 s1 co1 rl2 s2 vote where
    t: "write_all (request server_net) getNode ((rl, s), co) ws = Some (Inr ((rl1, s1), co1))"
    "commit (request server_net) ((rl1, s1), co1) = Some (Inr (((rl2, s2), co1), vote))" "idle s2"
    "vote \<longleftrightarrow> distinct (map fst ws) \<and> (\<forall>k\<in>fst ` set ws. fst (lock_at (ts_locks s) k ts) = FREE)"
    "\<forall>k t. get s2 k t = (if vote \<and> t = ts \<and> k \<in> fst ` set ws then map_of ws k else get s k t)"
    "\<forall>k t. lock_at (ts_locks s2) k t =
          (if vote \<and> t = ts \<and> k \<in> fst ` set ws then (FREEZE_WRITE_LOCK, {}) else lock_at (ts_locks s) k t)" by blast
  moreover have "vote \<longrightarrow> (\<forall>k\<in>fst ` set ws. committed s2 k ts)" using t(6) by (simp add: committed_def)
  ultimately show ?thesis by blast
qed

lemma idle_main: "idle main_server"
  using start_inv rpc_inv_new
  by (simp add: idle_def polling_def main_server_def new_tserver_def new_queue_def set_insert_def insort_insert_key_def registered_init)
    (simp add: new_rpc_server_def prepareNextRequest_def)

lemma unknown_start: "unknown main_server tid"
  by (simp add: unknown_def main_server_def new_tserver_def)

lemma get_start: "get main_server k t = (if t = 0 then Some ''0'' else None)"
  by (simp add: get_def main_server_def new_tserver_def)

lemma locks_start: "lock_at (ts_locks main_server) k t = initial_cell t"
  by (rule start_locks) simp

theorem transaction_is_atomic_witness:
  "\<exists>s1 s2. write_all (request server_net) getNode ((new_rsl_client new_rpc_client, main_server),
        fst (new_coordinator \<lparr>ig_cur_id = 1\<rparr> 3)) [(5, ''7''), (6, ''8'')] = Some (Inr s1)
    \<and> commit (request server_net) s1 = Some (Inr (s2, True))
    \<and> get (snd (fst s2)) 5 3 = Some ''7'' \<and> get (snd (fst s2)) 6 3 = Some ''8''"
proof -
  let ?co = "\<lparr>co_tid = 1, co_start_ts = 3, co_read_nodes = [], co_write_nodes = [], co_pend_writes = Map.empty\<rparr>"
  have co: "fst (new_coordinator \<lparr>ig_cur_id = 1\<rparr> 3) = ?co"
    by (simp add: new_coordinator_def genTransactionID_def genStartTimestamp_def getCurrentTime_def)
  have tags: "small_tag (rl_tag (new_rsl_client new_rpc_client))" "small_tag (rl_tag (new_rsl_client new_rpc_client) + 1)"
    by (simp_all add: small_tag_def new_rsl_client_def)
  have "1 \<notin> snd (lock_at (ts_locks main_server) k t)" for k t by (simp add: locks_start initial_cell_def)
  from transaction_is_atomic [OF idle_main default_only_new tags refl unknown_start this, of 3 "[(5, ''7''), (6, ''8'')]"] co
  show ?thesis by (fastforce simp: locks_start initial_cell_def simp del: write_all.simps)
qed

end
