(* ===== verification/Versioned_Store.thy ===== *)
theory Versioned_Store
  imports Transactions Generators
begin

text \<open>
  A process that commits transactions and reads keys one after the other, against the abstract
  specification of the whole system: a store with versions ordered by time in which a read
  protects the times between the version it has seen and its own.
\<close>

section \<open>The specification\<close>

text \<open>
  The versions are triples of key, time and value; a read is noted with its key, the time of
  the version that it returned, and its own time.
\<close>

record mv_store =
  mv_versions :: "(u64 \<times> u64 \<times> string) list"
  mv_reads :: "(u64 \<times> u64 \<times> u64) list"

definition mv_empty :: mv_store where
  "mv_empty = \<lparr>mv_versions = [], mv_reads = []\<rparr>"

text \<open>The latest version of a key before a time; every key has the value 0 from the start.\<close>

definition later_version :: "u64 \<Rightarrow> u64 \<Rightarrow> u64 \<times> u64 \<times> string \<Rightarrow> u64 \<times> string \<Rightarrow> u64 \<times> string" where
  "later_version key ts w best = (case w of (k, t, v) \<Rightarrow> if k = key \<and> t < ts \<and> fst best < t then (t, v) else best)"

definition mv_latest :: "mv_store \<Rightarrow> u64 \<Rightarrow> u64 \<Rightarrow> u64 \<times> string" where
  "mv_latest st key ts = fold (later_version key ts) (mv_versions st) (0, ''0'')"

definition guarded :: "mv_store \<Rightarrow> u64 \<Rightarrow> u64 \<Rightarrow> bool" where
  "guarded st key t \<longleftrightarrow> list_ex (\<lambda>(k, a, b). k = key \<and> a < t \<and> t < b) (mv_reads st)"

definition writable :: "mv_store \<Rightarrow> u64 \<Rightarrow> u64 \<Rightarrow> bool" where
  "writable st key ts \<longleftrightarrow> \<not> list_ex (\<lambda>(k, t, v). k = key \<and> t = ts) (mv_versions st) \<and> \<not> guarded st key ts"

text \<open>
  What a client asks for, with the clock when it does: to commit writes, or to read a key.  A
  transaction is applied when its keys are different and can all be written at its time.
\<close>

datatype client_op = Commit int "(u64 \<times> string) list" | Query int u64

datatype outcome = Voted bool | Value string

fun mv_step :: "mv_store \<Rightarrow> client_op \<Rightarrow> mv_store \<times> outcome" where
  "mv_step st (Commit timev ws) =
    (let ts = genStartTimestamp timev;
         vote = distinct (map fst ws) \<and> list_all (\<lambda>k. writable st k ts) (map fst ws)
     in (if vote then st\<lparr>mv_versions := map (\<lambda>(k, v). (k, ts, v)) ws @ mv_versions st\<rparr> else st, Voted vote))"
| "mv_step st (Query timev key) =
    (let ts = genStartTimestamp timev; (t, v) = mv_latest st key ts
     in (st\<lparr>mv_reads := (key, t, ts) # mv_reads st\<rparr>, Value v))"

fun mv_run :: "mv_store \<Rightarrow> client_op list \<Rightarrow> mv_store \<times> outcome list" where
  "mv_run st [] = (st, [])"
| "mv_run st (c # cs) = (let (st, out) = mv_step st c; (st, outs) = mv_run st cs in (st, out # outs))"

lemma fold_later:
  assumes "fst best < ts" "fold (later_version key ts) ws best = (t, v)"
  shows "t < ts \<and> ((t, v) = best \<or> (key, t, v) \<in> set ws) \<and> fst best \<le> t
    \<and> (\<forall>t' v'. (key, t', v') \<in> set ws \<and> t' < ts \<longrightarrow> t' \<le> t)"
  using assms
proof (induction ws arbitrary: best)
  case (Cons w ws)
  obtain k0 t0 v0 where w: "w = (k0, t0, v0)" by (cases w)
  let ?best = "later_version key ts w best"
  have b: "fst ?best < ts" "?best = best \<or> ?best = (t0, v0) \<and> k0 = key" "fst best \<le> fst ?best"
    "k0 = key \<and> t0 < ts \<longrightarrow> t0 \<le> fst ?best"
    using Cons.prems(1) by (auto simp: later_version_def w not_less)
  from Cons.prems(2) have "fold (later_version key ts) ws ?best = (t, v)" by simp
  from Cons.IH [OF b(1) this] have ih: "t < ts" "(t, v) = ?best \<or> (key, t, v) \<in> set ws" "fst ?best \<le> t"
    "\<forall>t' v'. (key, t', v') \<in> set ws \<and> t' < ts \<longrightarrow> t' \<le> t" by blast+
  have "(t, v) = best \<or> (key, t, v) \<in> set (w # ws)" using ih(2) b(2) w by auto
  moreover have "fst best \<le> t" using b(3) ih(3) by (rule order.trans)
  moreover have "t' \<le> t" if "(key, t', v') \<in> set (w # ws)" "t' < ts" for t' v'
    using that ih(3,4) b(4) w by (auto intro: order.trans)
  ultimately show ?case using ih(1) by blast
qed auto

lemma mv_latest_ok:
  assumes "ts \<noteq> 0" "mv_latest st key ts = (t, v)"
  shows "t < ts" "t = 0 \<and> v = ''0'' \<or> (key, t, v) \<in> set (mv_versions st)"
    "(key, t', v') \<in> set (mv_versions st) \<Longrightarrow> t' < ts \<Longrightarrow> t' \<le> t"
proof -
  have "(0 :: u64) < ts" using assms(1) by (simp add: word_neq_0_conv)
  with fold_later [of "(0, ''0'')" ts key "mv_versions st" t v] assms(2)
  show "t < ts" "t = 0 \<and> v = ''0'' \<or> (key, t, v) \<in> set (mv_versions st)"
    "(key, t', v') \<in> set (mv_versions st) \<Longrightarrow> t' < ts \<Longrightarrow> t' \<le> t"
    by (auto simp: mv_latest_def)
qed

section \<open>The process\<close>

text \<open>
  Every transaction has its own coordinator.  A read is a synchronous call of the RPC client
  that, unlike the one of the resolution client, has a string for the value.  Each operation
  draws a number from the one generator.
\<close>

type_synonym 'w process = "(rsl_client \<times> 'w) \<times> id_generator"

definition run_commit ::
    "'w network \<Rightarrow> (u64 \<Rightarrow> u64) \<Rightarrow> 'w process \<Rightarrow> int \<Rightarrow> (u64 \<times> string) list \<Rightarrow> ('w process \<times> outcome) run" where
  "run_commit net mapper p timev ws =
    (let (cw, gen) = p; (co, gen) = new_coordinator gen timev
     in and_run (write_all (request net) mapper (cw, co) ws) (\<lambda>sc.
        and_run (commit (request net) sc) (\<lambda>((cw, _), vote). Some (Inr ((cw, gen), Voted vote)))))"

definition run_query ::
    "'w network \<Rightarrow> 'w process \<Rightarrow> int \<Rightarrow> u64 \<Rightarrow> ('w process \<times> outcome) res" where
  "run_query net p timev key =
    (let ((rl, w), gen) = p; (tid, gen) = genTransactionID gen;
         args = \<lparr>ra_tid = tid, ra_start_ts = genStartTimestamp timev, ra_key = key\<rparr>
     in and_then (syncRPC net (rl_rpc rl, w) default_address (ARead \<lparr>rr_args = args, rr_value = Some '''', rr_status = None\<rparr>))
          (\<lambda>((rpc, w), ok, args). case args of
             ARead a \<Rightarrow> and_then (need NullPointer (rr_value a)) (\<lambda>v. Inr (((rl\<lparr>rl_rpc := rpc\<rparr>, w), gen), Value v))
           | _ \<Rightarrow> Inl Uninitialised))"

fun run_op :: "'w network \<Rightarrow> (u64 \<Rightarrow> u64) \<Rightarrow> 'w process \<Rightarrow> client_op \<Rightarrow> ('w process \<times> outcome) run" where
  "run_op net mapper p (Commit timev ws) = run_commit net mapper p timev ws"
| "run_op net mapper p (Query timev key) = Some (run_query net p timev key)"

fun run_ops :: "'w network \<Rightarrow> (u64 \<Rightarrow> u64) \<Rightarrow> 'w process \<Rightarrow> client_op list \<Rightarrow> ('w process \<times> outcome list) run" where
  "run_ops net mapper p [] = Some (Inr (p, []))"
| "run_ops net mapper p (c # cs) =
     and_run (run_op net mapper p c) (\<lambda>(p, out).
       and_run (run_ops net mapper p cs) (\<lambda>(p, outs). Some (Inr (p, out # outs))))"

section \<open>Between two operations\<close>

text \<open>
  The server is idle and knows no transaction with a number from \<open>n\<close> on.  Its versions are
  those of the specification; a time is committed when it has a version, locked for reading
  when a read protects it, and free otherwise.
\<close>

definition agrees :: "tserver \<Rightarrow> nat \<Rightarrow> mv_store \<Rightarrow> bool" where
  "agrees s n st \<longleftrightarrow> idle s \<and> (\<forall>tid. n \<le> unat tid \<longrightarrow> unknown s tid)
     \<and> (\<forall>k t v. (k, t, v) \<in> set (mv_versions st) \<longleftrightarrow> t \<noteq> 0 \<and> get s k t = Some v)
     \<and> (\<forall>k t. fst (lock_at (ts_locks s) k t) =
           (if get s k t \<noteq> None then FREEZE_WRITE_LOCK else if guarded st k t then READ_LOCK else FREE))
     \<and> (\<forall>k t tid. tid \<in> snd (lock_at (ts_locks s) k t) \<longrightarrow> unat tid < n)"

lemma agreesD:
  assumes "agrees s n st"
  shows "idle s" "n \<le> unat tid \<Longrightarrow> unknown s tid"
    "(k, t, v) \<in> set (mv_versions st) \<longleftrightarrow> t \<noteq> 0 \<and> get s k t = Some v"
    "fst (lock_at (ts_locks s) k t) =
       (if get s k t \<noteq> None then FREEZE_WRITE_LOCK else if guarded st k t then READ_LOCK else FREE)"
    "n \<le> unat tid \<Longrightarrow> tid \<notin> snd (lock_at (ts_locks s) k t)"
  using assms unfolding agrees_def by (simp, blast, blast, blast, force)

lemma get_0: "get s k 0 = Some ''0''"
  by (simp add: get_def)

lemma agrees_start: "agrees main_server 0 mv_empty"
  using idle_main
  by (auto simp: agrees_def mv_empty_def guarded_def initial_cell_def unknown_start get_0 get_start locks_start)

text \<open>The numbers and tags of the \<open>n\<close>-th transaction are small enough to be told apart.\<close>

lemma small_tag_less:
  assumes "unat tag < 2147483648"
  shows "small_tag tag"
proof -
  have "int (unat tag) < 2147483648" using assms by linarith
  then have u: "uint tag < 2147483648" by (simp only: uint_nat)
  have "sint (ucast tag :: 32 word) = signed_take_bit 31 (uint tag)"
    unfolding ucast_eq by (subst sint_sbintrunc') simp
  also have "\<dots> = uint tag"
  proof (rule signed_take_bit_int_eq_self)
    show "- (2 ^ 31) \<le> uint tag" by (rule order_trans [of _ 0]) simp_all
    show "uint tag < 2 ^ 31" using u by simp
  qed
  finally show ?thesis by (simp add: small_tag_def scast_eq)
qed

lemma tag_of_nat:
  assumes "n < 1000000000"
  shows "unat (135643 + 2 * of_nat n :: u64) < 2147483648" "unat (135643 + 2 * of_nat n + 1 :: u64) < 2147483648"
proof -
  have "(135643 + 2 * of_nat n :: u64) = of_nat (135643 + 2 * n)" "(135643 + 2 * of_nat n + 1 :: u64) = of_nat (135644 + 2 * n)"
    by simp_all
  then show "unat (135643 + 2 * of_nat n :: u64) < 2147483648" "unat (135643 + 2 * of_nat n + 1 :: u64) < 2147483648"
    using assms by (simp_all only: unat_of_nat) (simp_all add: take_bit_nat_eq_self)
qed

section \<open>The operations\<close>

lemma genStart_new: "new_coordinator \<lparr>ig_cur_id = i\<rparr> timev =
    (\<lparr>co_tid = i, co_start_ts = genStartTimestamp timev, co_read_nodes = [], co_write_nodes = [],
       co_pend_writes = Map.empty\<rparr>, \<lparr>ig_cur_id = i + 1\<rparr>)"
  by (simp add: new_coordinator_def genTransactionID_def)

lemma writable_free:
  assumes "agrees s n st" "ts \<noteq> 0"
  shows "fst (lock_at (ts_locks s) k ts) = FREE \<longleftrightarrow> writable st k ts"
proof -
  have "list_ex (\<lambda>(k', t, v). k' = k \<and> t = ts) (mv_versions st) \<longleftrightarrow> (\<exists>v. (k, ts, v) \<in> set (mv_versions st))"
    by (auto simp: list_ex_iff)
  also have "\<dots> \<longleftrightarrow> get s k ts \<noteq> None" using agreesD(3) [OF assms(1)] assms(2) by auto
  finally show ?thesis using agreesD(4) [OF assms(1), of k ts] by (simp add: writable_def)
qed

lemma commit_step:
  assumes "agrees s n st" "default_only rl" "rl_tag rl = 135643 + 2 * of_nat c" "c \<le> n" "n < 1000000000"
    and "genStartTimestamp timev \<noteq> 0" "ws \<noteq> []"
  shows "\<exists>rl' s' vote. run_commit server_net getNode ((rl, s), \<lparr>ig_cur_id = of_nat n\<rparr>) timev ws =
      Some (Inr (((rl', s'), \<lparr>ig_cur_id = of_nat (Suc n)\<rparr>), snd (mv_step st (Commit timev ws))))
    \<and> agrees s' (Suc n) (fst (mv_step st (Commit timev ws)))
    \<and> default_only rl' \<and> rl_tag rl' = 135643 + 2 * of_nat (Suc c)"
proof -
  let ?tid = "of_nat n :: u64" and ?ts = "genStartTimestamp timev" and ?st = "fst (mv_step st (Commit timev ws))"
  have tid: "unat ?tid = n" using assms(5) by (simp add: unat_of_nat take_bit_nat_eq_self)
  have tags: "small_tag (rl_tag rl)" "small_tag (rl_tag rl + 1)"
    using tag_of_nat [of c] assms(3-5) by (simp_all add: small_tag_less)
  have held: "?tid \<notin> snd (lock_at (ts_locks s) k t)" for k t by (rule agreesD(5) [OF assms(1)]) (simp add: tid)
  have "unknown s ?tid" using agreesD(2) [OF assms(1)] tid by simp
  from transaction_effect [OF agreesD(1) [OF assms(1)] assms(2) tags refl this held assms(6,7)]
  obtain rl1 s1 co1 rl2 s2 vote where
    w: "write_all (request server_net) getNode ((rl, s), \<lparr>co_tid = ?tid, co_start_ts = ?ts, co_read_nodes = [],
        co_write_nodes = [], co_pend_writes = Map.empty\<rparr>) ws = Some (Inr ((rl1, s1), co1))"
    "commit (request server_net) ((rl1, s1), co1) = Some (Inr (((rl2, s2), co1), vote))"
    and s2: "idle s2" "vote \<longleftrightarrow> distinct (map fst ws) \<and> (\<forall>k\<in>fst ` set ws. fst (lock_at (ts_locks s) k ?ts) = FREE)"
    "\<forall>k t. get s2 k t = (if vote \<and> t = ?ts \<and> k \<in> fst ` set ws then map_of ws k else get s k t)"
    "\<forall>k t. lock_at (ts_locks s2) k t =
        (if vote \<and> t = ?ts \<and> k \<in> fst ` set ws then (FREEZE_WRITE_LOCK, {}) else lock_at (ts_locks s) k t)"
    "others s s2 ?tid" "unknown s2 ?tid" "default_only rl2" "rl_tag rl2 = rl_tag rl + 2"
    by (elim exE conjE)
  have vote: "vote \<longleftrightarrow> distinct (map fst ws) \<and> list_all (\<lambda>k. writable st k ?ts) (map fst ws)"
    using s2(2) writable_free [OF assms(1,6)] by (auto simp: list_all_iff)
  have st: "?st = (if vote then st\<lparr>mv_versions := map (\<lambda>(k, v). (k, ?ts, v)) ws @ mv_versions st\<rparr> else st)"
    "snd (mv_step st (Commit timev ws)) = Voted vote"
    unfolding mv_step.simps Let_def vote by simp_all
  have run: "run_commit server_net getNode ((rl, s), \<lparr>ig_cur_id = of_nat n\<rparr>) timev ws =
      Some (Inr (((rl2, s2), \<lparr>ig_cur_id = of_nat (Suc n)\<rparr>), Voted vote))"
    using w by (simp add: run_commit_def genStart_new ac_simps)
  have unk: "unknown s2 tid" if "Suc n \<le> unat tid" for tid
    using unknown_others [OF s2(5), of tid] s2(6) agreesD(2) [OF assms(1), of tid] that tid by (cases "tid = ?tid") auto
  have stored: "map_of ws k = Some v \<longleftrightarrow> (k, v) \<in> set ws" if vote for k v
    using that vote by (simp add: map_of_eq_Some_iff)
  have fresh: "get s k ?ts = None" if vote "k \<in> fst ` set ws" for k
    using that s2(2) agreesD(4) [OF assms(1), of k ?ts] by (auto split: if_splits)
  have versions: "(k, t, v) \<in> set (mv_versions ?st) \<longleftrightarrow> t \<noteq> 0 \<and> get s2 k t = Some v" for k t v
  proof (cases "vote \<and> t = ?ts \<and> k \<in> fst ` set ws")
    case True
    then have "(k, t, v) \<notin> set (mv_versions st)" using agreesD(3) [OF assms(1)] fresh by auto
    then have "(k, t, v) \<in> set (mv_versions ?st) \<longleftrightarrow> (k, v) \<in> set ws" using True by (auto simp: st simp del: mv_step.simps)
    with True stored s2(3) assms(6) show ?thesis by simp
  next
    case False
    then have "(k, t, v) \<in> set (mv_versions ?st) \<longleftrightarrow> (k, t, v) \<in> set (mv_versions st)"
      by (force simp: st simp del: mv_step.simps)
    moreover have "get s2 k t = get s k t" using False s2(3) by auto
    ultimately show ?thesis using agreesD(3) [OF assms(1)] by simp
  qed
  have guard: "guarded ?st k t = guarded st k t" for k t by (simp add: guarded_def st del: mv_step.simps)
  have locks: "fst (lock_at (ts_locks s2) k t) =
      (if get s2 k t \<noteq> None then FREEZE_WRITE_LOCK else if guarded ?st k t then READ_LOCK else FREE)" for k t
    unfolding guard using s2(3,4) agreesD(4) [OF assms(1), of k t]
    by (cases "vote \<and> t = ?ts \<and> k \<in> fst ` set ws") (auto simp: map_of_eq_None_iff)
  have tids: "unat tid < Suc n" if "tid \<in> snd (lock_at (ts_locks s2) k t)" for k t tid
    using that s2(4) agreesD(5) [OF assms(1), of tid k t] by (force split: if_splits)
  have "agrees s2 (Suc n) ?st"
    unfolding agrees_def using s2(1) unk versions locks tids by blast
  with run s2(7,8) assms(3) st(2) show ?thesis by auto
qed

lemma query_step:
  assumes "agrees s n st" "default_only rl" "n < 1000000000" "genStartTimestamp timev \<noteq> 0"
  shows "\<exists>rl' s'. run_query server_net ((rl, s), \<lparr>ig_cur_id = of_nat n\<rparr>) timev key =
      Inr (((rl', s'), \<lparr>ig_cur_id = of_nat (Suc n)\<rparr>), snd (mv_step st (Query timev key)))
    \<and> agrees s' (Suc n) (fst (mv_step st (Query timev key)))
    \<and> default_only rl' \<and> rl_tag rl' = rl_tag rl"
proof -
  let ?tid = "of_nat n :: u64" and ?ts = "genStartTimestamp timev"
  let ?q = "\<lparr>rq_tid = ?tid, rq_start_ts = ?ts, rq_key = key\<rparr>"
  have tid: "unat ?tid = n" using assms(3) by (simp add: unat_of_nat take_bit_nat_eq_self)
  obtain stop v where l: "mv_latest st key ?ts = (stop, v)" by (cases "mv_latest st key ?ts")
  note latest = mv_latest_ok [OF assms(4) l]
  have got: "get s key stop = Some v" using latest(2) agreesD(3) [OF assms(1)] by (auto simp: get_0)
  have between: "get s key t = None" if "stop < t" "t < ?ts" for t
  proof (rule ccontr)
    assume "get s key t \<noteq> None"
    then obtain v' where "get s key t = Some v'" by blast
    moreover have "t \<noteq> 0" using that(1) by auto
    ultimately have "(key, t, v') \<in> set (mv_versions st)" using agreesD(3) [OF assms(1)] by simp
    from latest(3) [OF this that(2)] that(1) show False by simp
  qed
  have c: "committed s key stop" using agreesD(4) [OF assms(1), of key stop] got by (simp add: committed_def)
  have "passes True (fst (lock_at (ts_locks s) key t))" if "stop < t" "t < ?ts" for t
    using agreesD(4) [OF assms(1), of key t] between [OF that] by (simp add: passes_def)
  then have lw: "latest_write s key ?ts stop" using latest(1) c by (simp add: latest_write_def committed_def)
  from call_read [OF agreesD(1) [OF assms(1)], of ?q stop] lw c got obtain s' where
    s': "deliver s (MRead ?q) = (s', Some (RRead \<lparr>rp_value = v, rp_status = True\<rparr>))" "idle s'" "get s' = get s"
    "\<forall>k t. lock_at (ts_locks s') k t = (if k = key \<and> stop < t \<and> t < ?ts
          then acquire True ?tid (lock_at (ts_locks s) k t) else lock_at (ts_locks s) k t)"
    "ts_tid_to_nodes s' = note_node (ts_tid_to_nodes s) ?tid 0" "ts_tid_to_write_nodes s' = ts_tid_to_write_nodes s"
    "ts_pend_writes s' = ts_pend_writes s" "ts_rdy_to_commit s' = ts_rdy_to_commit s" by auto
  let ?st = "st\<lparr>mv_reads := (key, stop, ?ts) # mv_reads st\<rparr>"
  have st: "mv_step st (Query timev key) = (?st, Value v)" by (simp add: l)
  have "others s s' ?tid" using s'(5-8) by (simp add: others_def note_node_def)
  from unknown_others [OF this] agreesD(2) [OF assms(1)] tid
  have unk: "unknown s' t" if "Suc n \<le> unat t" for t using that by (cases "t = ?tid") auto
  have guard: "guarded ?st k t \<longleftrightarrow> k = key \<and> stop < t \<and> t < ?ts \<or> guarded st k t" for k t
    by (auto simp: guarded_def)
  have locks: "fst (lock_at (ts_locks s') k t) =
      (if get s' k t \<noteq> None then FREEZE_WRITE_LOCK else if guarded ?st k t then READ_LOCK else FREE)" for k t
    unfolding guard s'(3) using s'(4) agreesD(4) [OF assms(1), of k t] between [of t]
    by (cases "k = key \<and> stop < t \<and> t < ?ts") (auto simp: acquire_def)
  have tids: "unat t' < Suc n" if "t' \<in> snd (lock_at (ts_locks s') k t)" for k t t'
  proof (cases "t' = ?tid")
    case False
    with that s'(4) have "t' \<in> snd (lock_at (ts_locks s) k t)"
      by (auto simp: acquire_def split: if_splits lock_status.splits)
    with agreesD(5) [OF assms(1), of t'] show ?thesis by force
  qed (simp add: tid)
  have "agrees s' (Suc n) ?st"
    unfolding agrees_def using s'(2,3) unk agreesD(3) [OF assms(1)] locks tids by simp
  moreover have "run_query server_net ((rl, s), \<lparr>ig_cur_id = of_nat n\<rparr>) timev key =
      Inr (((rl\<lparr>rl_rpc := makeStub (rl_rpc rl) default_address\<rparr>, s'), \<lparr>ig_cur_id = of_nat (Suc n)\<rparr>), Value v)"
    using s'(1) by (simp add: run_query_def genTransactionID_def syncRPC_def make_request_def makeReadRequest_def
        server_net_def ac_simps)
  ultimately show ?thesis using assms(2) unfolding st by auto
qed

lemma ops_run:
  assumes "agrees s n st" "default_only rl" "rl_tag rl = 135643 + 2 * of_nat c" "c \<le> n" "n + length ops \<le> 1000000000"
    and "\<forall>op\<in>set ops. case op of Commit timev ws \<Rightarrow> genStartTimestamp timev \<noteq> 0 \<and> ws \<noteq> []
          | Query timev key \<Rightarrow> genStartTimestamp timev \<noteq> 0"
  shows "\<exists>rl' s' gen'. run_ops server_net getNode ((rl, s), \<lparr>ig_cur_id = of_nat n\<rparr>) ops =
      Some (Inr (((rl', s'), gen'), snd (mv_run st ops)))
    \<and> agrees s' (n + length ops) (fst (mv_run st ops))"
  using assms
proof (induction ops arbitrary: s n rl st c)
  case Nil
  then show ?case by auto
next
  case (Cons op ops)
  have n: "n < 1000000000" using Cons.prems(5) by simp
  obtain rl1 s1 c1 where t: "run_op server_net getNode ((rl, s), \<lparr>ig_cur_id = of_nat n\<rparr>) op =
      Some (Inr (((rl1, s1), \<lparr>ig_cur_id = of_nat (Suc n)\<rparr>), snd (mv_step st op)))"
    "agrees s1 (Suc n) (fst (mv_step st op))" "default_only rl1" "rl_tag rl1 = 135643 + 2 * of_nat c1" "c1 \<le> Suc n"
  proof (cases op)
    case (Commit timev ws)
    with commit_step [OF Cons.prems(1-4) n, of timev ws] Cons.prems(4,6) that [of _ _ "Suc c"] show ?thesis
      by (auto simp del: mv_step.simps of_nat_Suc)
  next
    case (Query timev key)
    with query_step [OF Cons.prems(1,2) n, of timev key] Cons.prems(3,4,6) that [of _ _ c] show ?thesis
      by (auto simp del: mv_step.simps of_nat_Suc)
  qed
  have "Suc n + length ops \<le> 1000000000" "\<forall>op\<in>set ops. case op of Commit timev ws \<Rightarrow> genStartTimestamp timev \<noteq> 0 \<and> ws \<noteq> []
          | Query timev key \<Rightarrow> genStartTimestamp timev \<noteq> 0" using Cons.prems(5,6) by simp_all
  from Cons.IH [OF t(2-5) this] obtain rl2 s2 gen2 where
    "run_ops server_net getNode ((rl1, s1), \<lparr>ig_cur_id = of_nat (Suc n)\<rparr>) ops =
      Some (Inr (((rl2, s2), gen2), snd (mv_run (fst (mv_step st op)) ops)))"
    "agrees s2 (Suc n + length ops) (fst (mv_run (fst (mv_step st op)) ops))" by blast
  with t(1) show ?case by (auto simp add: case_prod_unfold Let_def simp del: mv_step.simps of_nat_Suc run_op.simps)
qed

text \<open>
  C2: the system refines a store with versions: a process that starts with an empty server and
  carries out any sequence of up to \<open>10\<^sup>9\<close> commits and reads, at times other than 0, comes
  to an end; every vote and every value read is the one of the specification, which carries
  out each operation in one step, and so are the versions in the store.
\<close>
theorem system_refines_versioned_store:
  assumes "length ops \<le> 1000000000"
    and "\<forall>op\<in>set ops. case op of Commit timev ws \<Rightarrow> genStartTimestamp timev \<noteq> 0 \<and> ws \<noteq> []
          | Query timev key \<Rightarrow> genStartTimestamp timev \<noteq> 0"
  shows "\<exists>rl s gen. run_ops server_net getNode ((new_rsl_client new_rpc_client, main_server), new_id_generator) ops =
      Some (Inr (((rl, s), gen), snd (mv_run mv_empty ops)))
    \<and> (\<forall>k t v. t \<noteq> 0 \<longrightarrow> (get s k t = Some v \<longleftrightarrow> (k, t, v) \<in> set (mv_versions (fst (mv_run mv_empty ops)))))"
proof -
  have g: "new_id_generator = \<lparr>ig_cur_id = of_nat 0\<rparr>" "rl_tag (new_rsl_client new_rpc_client) = 135643 + 2 * of_nat 0"
    by (simp_all add: new_id_generator_def new_rsl_client_def)
  from ops_run [OF agrees_start default_only_new g(2) _ _ assms(2)] assms(1) obtain rl s gen where
    "run_ops server_net getNode ((new_rsl_client new_rpc_client, main_server), \<lparr>ig_cur_id = of_nat 0\<rparr>) ops =
      Some (Inr (((rl, s), gen), snd (mv_run mv_empty ops)))"
    "agrees s (0 + length ops) (fst (mv_run mv_empty ops))" by auto
  with agreesD(3) [OF this(2)] show ?thesis unfolding g(1) by blast
qed

text \<open>
  Two transactions, a read between their times, and a third transaction that comes too late
  for it.
\<close>

theorem system_refines_versioned_store_witness:
  "\<exists>rl s gen. run_ops server_net getNode ((new_rsl_client new_rpc_client, main_server), new_id_generator)
        [Commit 3 [(5, ''7''), (6, ''8'')], Query 9 5, Commit 6 [(5, ''1'')], Commit 9 [(5, ''2'')], Query 3 5] =
      Some (Inr (((rl, s), gen), [Voted True, Value ''7'', Voted False, Voted True, Value ''0'']))
    \<and> get s 5 3 = Some ''7'' \<and> get s 5 9 = Some ''2''"
proof -
  let ?ops = "[Commit 3 [(5, ''7''), (6, ''8'')], Query 9 5, Commit 6 [(5, ''1'')], Commit 9 [(5, ''2'')], Query 3 5]"
  have out: "snd (mv_run mv_empty ?ops) = [Voted True, Value ''7'', Voted False, Voted True, Value ''0'']"
    and vs: "mv_versions (fst (mv_run mv_empty ?ops)) = [(5, 9, ''2''), (5, 3, ''7''), (6, 3, ''8'')]"
    by code_simp+
  have "length ?ops \<le> 1000000000" "\<forall>op\<in>set ?ops. case op of Commit timev ws \<Rightarrow> genStartTimestamp timev \<noteq> 0 \<and> ws \<noteq> []
      | Query timev key \<Rightarrow> genStartTimestamp timev \<noteq> 0"
    by (simp_all add: genStartTimestamp_def getCurrentTime_def)
  from system_refines_versioned_store [OF this, unfolded out vs] obtain rl s gen where
    "run_ops server_net getNode ((new_rsl_client new_rpc_client, main_server), new_id_generator) ?ops =
      Some (Inr (((rl, s), gen), [Voted True, Value ''7'', Voted False, Voted True, Value ''0'']))"
    and get: "\<And>k t v. t \<noteq> 0 \<Longrightarrow> get s k t = Some v \<longleftrightarrow> (k, t, v) \<in> set [(5, 9, ''2''), (5, 3, ''7''), (6, 3, ''8'')]"
    by blast
  moreover have "get s 5 3 = Some ''7''" "get s 5 9 = Some ''2''" by (simp_all add: get)
  ultimately show ?thesis by blast
qed

end
