(* ===== verification/Concurrent_Transactions.thy ===== *)
theory Concurrent_Transactions
  imports Transactions
begin

text \<open>
  Many coordinators at once: their requests reach the server in any order, one at a time.
  Transactions of writes stay isolated from each other.
\<close>

section \<open>Clients\<close>

text \<open>
  A client has a coordinator and the writes of its transaction.  It has sent some of the
  writes, or got the vote of the first phase, or the answer to the second.
\<close>

datatype phase = Writing nat | Prepared bool | Decided bool

record client =
  cl_coord :: coordinator
  cl_writes :: "(u64 \<times> string) list"
  cl_phase :: phase

text \<open>The next request: those of \<open>Coordinator::write\<close> and of the two phases of \<open>commit\<close>.\<close>

definition client_msg :: "client \<Rightarrow> request_msg option" where
  "client_msg c =
    (let co = cl_coord c
     in case cl_phase c of
       Writing n \<Rightarrow>
         if n < length (cl_writes c) then
           let (key, val) = cl_writes c ! n
           in Some (MWrite (makeWriteRequest \<lparr>wa_tid = co_tid co, wa_key = key, wa_value = val\<rparr>))
         else Some (MP1C (makePhaseOneCommitRequest (rsl_p1c_args (p1c_arguments co))))
     | Prepared vote \<Rightarrow> Some (MP2C (makePhaseTwoCommitRequest (rsl_p2c_args (p2c_arguments co vote))))
     | Decided vote \<Rightarrow> None)"

text \<open>The client after the reply to that request.\<close>

definition client_reply :: "(u64 \<Rightarrow> u64) \<Rightarrow> client \<Rightarrow> reply_msg \<Rightarrow> client" where
  "client_reply mapper c reply =
    (case cl_phase c of
       Writing n \<Rightarrow>
         (case reply of
            RP1C m \<Rightarrow> c\<lparr>cl_phase := Prepared (p1p_vote m)\<rparr>
          | _ \<Rightarrow>
              (let (key, val) = cl_writes c ! n; co = cl_coord c
               in c\<lparr>cl_phase := Writing (Suc n),
                    cl_coord := co\<lparr>co_pend_writes := (co_pend_writes co)(key \<mapsto> val),
                                   co_write_nodes := set_insert (mapper key) (co_write_nodes co)\<rparr>\<rparr>))
     | Prepared vote \<Rightarrow> c\<lparr>cl_phase := Decided vote\<rparr>
     | Decided vote \<Rightarrow> c)"

definition new_client :: "u64 \<Rightarrow> u64 \<Rightarrow> (u64 \<times> string) list \<Rightarrow> client" where
  "new_client tid ts ws =
     \<lparr>cl_coord = \<lparr>co_tid = tid, co_start_ts = ts, co_read_nodes = [], co_write_nodes = [], co_pend_writes = Map.empty\<rparr>,
      cl_writes = ws, cl_phase = Writing 0\<rparr>"

text \<open>
  The next request of the client with the given transaction; a client that is done, or does not
  exist, does nothing.  There is no next state when the server does not answer.
\<close>

definition client_step :: "tserver \<times> (u64 \<rightharpoonup> client) \<Rightarrow> u64 \<Rightarrow> (tserver \<times> (u64 \<rightharpoonup> client)) option" where
  "client_step sc tid =
    (let (s, cs) = sc
     in case cs tid of
       None \<Rightarrow> Some (s, cs)
     | Some c \<Rightarrow>
         (case client_msg c of
            None \<Rightarrow> Some (s, cs)
          | Some m \<Rightarrow>
              (case deliver s m of
                 (s', None) \<Rightarrow> None
               | (s', Some reply) \<Rightarrow> Some (s', cs(tid \<mapsto> client_reply getNode c reply)))))"

fun client_steps :: "tserver \<times> (u64 \<rightharpoonup> client) \<Rightarrow> u64 list \<Rightarrow> (tserver \<times> (u64 \<rightharpoonup> client)) option" where
  "client_steps sc [] = Some sc"
| "client_steps sc (tid # tids) = Option.bind (client_step sc tid) (\<lambda>sc. client_steps sc tids)"

text \<open>
  These are the requests of the coordinator: a step that writes is a call of \<open>Coordinator::write\<close>,
  and the two steps after the writes are a call of \<open>Coordinator::commit\<close>.
\<close>

lemma write_is_coord_write:
  assumes "default_only rl" "cl_phase c = Writing n" "n < length (cl_writes c)" "cl_writes c ! n = (key, val)"
    and "client_msg c = Some m" "deliver s m = (s', Some (RWrite r))"
  shows "\<exists>rl'. coord_write (request server_net) getNode ((rl, s), cl_coord c) key val =
      Some (Inr ((rl', s'), cl_coord (client_reply getNode c (RWrite r)))) \<and> default_only rl' \<and> rl_tag rl' = rl_tag rl"
proof -
  let ?a = "\<lparr>rsl_write_args = \<lparr>wa_tid = co_tid (cl_coord c), wa_key = key, wa_value = val\<rparr>\<rparr>"
  have "deliver s (MWrite (makeWriteRequest (rsl_write_args ?a))) = (s', Some (RWrite r))"
    using assms(2-6) by (simp add: client_msg_def Let_def)
  with write_once [OF assms(1), of server_net s ?a s' _ 0] obtain rl' where
    "request server_net (rl, s) [0] (RslWrite ?a) = Some (Inr ((rl', s'), RslWrite ?a))"
    "default_only rl'" "rl_tag rl' = rl_tag rl" by (auto simp: server_net_def)
  with assms(2,4) show ?thesis by (simp add: coord_write_def getNode_def client_reply_def Let_def insert_zero)
qed

lemma phases_are_commit:
  assumes "default_only rl" "small_tag (rl_tag rl)" "small_tag (rl_tag rl + 1)" "co_write_nodes (cl_coord c) \<noteq> []"
    and "cl_phase c = Writing (length (cl_writes c))" "client_msg c = Some m1" "deliver s m1 = (s1, Some (RP1C r1))"
    and "client_msg (client_reply getNode c (RP1C r1)) = Some m2" "deliver s1 m2 = (s2, Some (RP2C r2))"
    and "set (co_write_nodes (cl_coord c)) \<subseteq> set (p1p_node r1)"
    and "set (co_read_nodes (cl_coord c)) \<union> set (co_write_nodes (cl_coord c)) \<subseteq> set (p2p_node r2)"
  shows "\<exists>rl'. commit (request server_net) ((rl, s), cl_coord c) = Some (Inr (((rl', s2), cl_coord c), p1p_vote r1))
    \<and> cl_phase (client_reply getNode (client_reply getNode c (RP1C r1)) (RP2C r2)) = Decided (p1p_vote r1)"
  using commit_answered [OF assms(1-4), of server_net s s1 r1 s2 r2] assms(5-11)
  by (auto simp: server_net_def client_msg_def client_reply_def p2c_arguments_def)

section \<open>The invariant\<close>

definition keys_of :: "client \<Rightarrow> u64 set" where
  "keys_of c = fst ` set (cl_writes c)"

lemma keys_of_phase [simp]: "keys_of (c\<lparr>cl_phase := p\<rparr>) = keys_of c"
  by (simp add: keys_of_def)

abbreviation time_of :: "client \<Rightarrow> u64" where
  "time_of c \<equiv> co_start_ts (cl_coord c)"

text \<open>What a client and the server know of its transaction in each phase.\<close>

definition client_ok :: "tserver \<Rightarrow> u64 \<Rightarrow> client \<Rightarrow> bool" where
  "client_ok s tid c \<longleftrightarrow> co_tid (cl_coord c) = tid \<and> time_of c \<noteq> 0 \<and> cl_writes c \<noteq> []
     \<and> co_read_nodes (cl_coord c) = []
     \<and> (case cl_phase c of
          Writing n \<Rightarrow> n \<le> length (cl_writes c) \<and> pending s tid = take n (cl_writes c)
            \<and> ts_rdy_to_commit s tid = None
            \<and> (if n = 0 then ts_tid_to_nodes s tid = None \<and> ts_tid_to_write_nodes s tid = None \<and> co_write_nodes (cl_coord c) = []
               else ts_tid_to_nodes s tid = Some [0] \<and> ts_tid_to_write_nodes s tid = Some [0] \<and> co_write_nodes (cl_coord c) = [0])
        | Prepared vote \<Rightarrow> pending s tid = cl_writes c \<and> ts_rdy_to_commit s tid = Some (time_of c)
            \<and> ts_tid_to_nodes s tid = Some [0] \<and> ts_tid_to_write_nodes s tid = None \<and> co_write_nodes (cl_coord c) = [0]
            \<and> (vote \<longrightarrow> distinct (map fst (cl_writes c))
                 \<and> (\<forall>k\<in>keys_of c. lock_at (ts_locks s) k (time_of c) = (WRITE_LOCK, {tid})))
        | Decided vote \<Rightarrow> unknown s tid \<and> (vote \<longrightarrow> distinct (map fst (cl_writes c))))"

text \<open>
  The clients of which a transaction may hold a cell, has written a version, or competes with
  another one for a key.
\<close>

definition holder :: "client \<Rightarrow> u64 \<Rightarrow> u64 \<Rightarrow> bool" where
  "holder c k t \<longleftrightarrow> (\<exists>vote. cl_phase c = Prepared vote) \<and> time_of c = t \<and> k \<in> keys_of c"

definition author :: "client \<Rightarrow> u64 \<Rightarrow> u64 \<Rightarrow> string \<Rightarrow> bool" where
  "author c k t v \<longleftrightarrow> cl_phase c = Decided True \<and> time_of c = t \<and> (k, v) \<in> set (cl_writes c)"

definition rival :: "client \<Rightarrow> client \<Rightarrow> bool" where
  "rival c c' \<longleftrightarrow> time_of c' = time_of c \<and> keys_of c' \<inter> keys_of c \<noteq> {}"

text \<open>A client with the given transaction that has a property.\<close>

definition one_with :: "(u64 \<rightharpoonup> 'a) \<Rightarrow> u64 \<Rightarrow> ('a \<Rightarrow> bool) \<Rightarrow> bool" where
  "one_with cs tid P \<longleftrightarrow> (case cs tid of None \<Rightarrow> False | Some c \<Rightarrow> P c)"

lemma one_with_upd [simp]: "one_with (cs(tid \<mapsto> c)) tid' P = (if tid' = tid then P c else one_with cs tid' P)"
  by (simp add: one_with_def)

text \<open>
  A cell is free, or held for writing by the one prepared client whose transaction writes it,
  or committed when it has a version.
\<close>

definition cell_ok :: "(u64 \<rightharpoonup> client) \<Rightarrow> tserver \<Rightarrow> u64 \<Rightarrow> u64 \<Rightarrow> bool" where
  "cell_ok cs s k t \<longleftrightarrow>
     (if get s k t \<noteq> None then lock_at (ts_locks s) k t = (FREEZE_WRITE_LOCK, {})
      else lock_at (ts_locks s) k t = (FREE, {})
        \<or> (\<exists>tid. lock_at (ts_locks s) k t = (WRITE_LOCK, {tid}) \<and> one_with cs tid (\<lambda>c. holder c k t)))"

text \<open>The versions are those of the clients that have committed.\<close>

definition versions_ok :: "(u64 \<rightharpoonup> client) \<Rightarrow> tserver \<Rightarrow> bool" where
  "versions_ok cs s \<longleftrightarrow> (\<forall>k t v. t \<noteq> 0 \<longrightarrow>
     (get s k t = Some v \<longleftrightarrow> (\<exists>tid. one_with cs tid (\<lambda>c. author c k t v))))"

text \<open>A client is refused only because of a key that it writes twice or that another one writes at its time.\<close>

definition conflicts :: "(u64 \<rightharpoonup> client) \<Rightarrow> u64 \<Rightarrow> client \<Rightarrow> bool" where
  "conflicts cs tid c \<longleftrightarrow> \<not> distinct (map fst (cl_writes c))
     \<or> (\<exists>tid'. tid' \<noteq> tid \<and> one_with cs tid' (rival c))"

text \<open>No two committed clients write the same key at the same time.\<close>

definition winners_ok :: "(u64 \<rightharpoonup> client) \<Rightarrow> bool" where
  "winners_ok cs \<longleftrightarrow> (\<forall>tid tid' c c'. tid \<noteq> tid' \<longrightarrow> cs tid = Some c \<longrightarrow> cs tid' = Some c' \<longrightarrow>
     cl_phase c = Decided True \<longrightarrow> cl_phase c' = Decided True \<longrightarrow> \<not> rival c c')"

definition refused :: "client \<Rightarrow> bool" where
  "refused c \<longleftrightarrow> cl_phase c = Prepared False \<or> cl_phase c = Decided False"

definition clients_inv :: "(u64 \<rightharpoonup> client) \<Rightarrow> tserver \<Rightarrow> bool" where
  "clients_inv cs s \<longleftrightarrow> idle s
     \<and> (\<forall>tid c. cs tid = Some c \<longrightarrow> client_ok s tid c \<and> (refused c \<longrightarrow> conflicts cs tid c))
     \<and> (\<forall>k t. cell_ok cs s k t) \<and> versions_ok cs s \<and> winners_ok cs"


section \<open>What a step leaves alone\<close>

definition same_work :: "client \<Rightarrow> client \<Rightarrow> bool" where
  "same_work c c' \<longleftrightarrow> cl_writes c' = cl_writes c \<and> time_of c' = time_of c"

lemma same_work_keys: "same_work c c' \<Longrightarrow> keys_of c' = keys_of c"
  by (simp add: same_work_def keys_of_def)

lemma one_with_same:
  assumes "cs tid0 = Some c0" "P c0' = P c0"
  shows "one_with (cs(tid0 \<mapsto> c0')) tid P = one_with cs tid P"
  using assms by (simp add: one_with_def)

lemma conflicts_step:
  assumes "cs tid0 = Some c0" "same_work c0 c0'"
  shows "conflicts (cs(tid0 \<mapsto> c0')) tid c = conflicts cs tid c"
proof -
  have "rival c c0' = rival c c0" using assms(2) same_work_keys [OF assms(2)] by (simp add: rival_def same_work_def)
  then have "one_with (cs(tid0 \<mapsto> c0')) tid' (rival c) = one_with cs tid' (rival c)" for tid'
    using assms(1) by (intro one_with_same)
  then show ?thesis by (simp add: conflicts_def del: one_with_upd)
qed

lemma conflicts_same: "same_work c c' \<Longrightarrow> conflicts cs tid c' = conflicts cs tid c"
  by (simp add: conflicts_def same_work_def keys_of_def rival_def [abs_def])

lemma client_ok_others:
  assumes "client_ok s tid' c" "others s s' tid" "tid' \<noteq> tid"
    and "\<And>k t. lock_at (ts_locks s) k t = (WRITE_LOCK, {tid'}) \<Longrightarrow> lock_at (ts_locks s') k t = (WRITE_LOCK, {tid'})"
  shows "client_ok s' tid' c"
proof -
  have "pending s' tid' = pending s tid'" "unknown s' tid' = unknown s tid'"
    using assms(2,3) unknown_others by (simp_all add: others_def pending_def)
  with assms show ?thesis by (auto simp: client_ok_def others_def split: phase.splits)
qed

lemma inv_step:
  assumes "clients_inv cs s" "cs tid = Some c" "idle s'" "others s s' tid" "same_work c c'" "client_ok s' tid c'"
    and "refused c' \<longrightarrow> conflicts cs tid c" "\<And>k t. cell_ok (cs(tid \<mapsto> c')) s' k t" "versions_ok (cs(tid \<mapsto> c')) s'"
    and "winners_ok (cs(tid \<mapsto> c'))" "\<And>tid' k t. tid' \<noteq> tid \<Longrightarrow> lock_at (ts_locks s) k t = (WRITE_LOCK, {tid'}) \<Longrightarrow>
      lock_at (ts_locks s') k t = (WRITE_LOCK, {tid'})"
  shows "clients_inv (cs(tid \<mapsto> c')) s'"
proof -
  have "client_ok s' tid' d \<and> (refused d \<longrightarrow> conflicts (cs(tid \<mapsto> c')) tid' d)" if d: "(cs(tid \<mapsto> c')) tid' = Some d" for tid' d
  proof (cases "tid' = tid")
    case True
    with d assms(2,5-7) show ?thesis by (simp add: conflicts_step conflicts_same)
  next
    case False
    with d assms(1) have "client_ok s tid' d" "refused d \<longrightarrow> conflicts cs tid' d" by (simp_all add: clients_inv_def)
    with client_ok_others [OF _ assms(4) False] assms(11) False conflicts_step [of cs tid c c' tid' d, OF assms(2,5)] show ?thesis by blast
  qed
  with assms(3,8-10) show ?thesis by (simp add: clients_inv_def)
qed

lemma clients_invD:
  assumes "clients_inv cs s"
  shows "idle s" "cs tid = Some c \<Longrightarrow> client_ok s tid c" "cs tid = Some c \<Longrightarrow> refused c \<Longrightarrow> conflicts cs tid c"
    "cell_ok cs s k t" "versions_ok cs s" "winners_ok cs"
  using assms by (simp_all add: clients_inv_def)

text \<open>A client holds locks only between the phases.\<close>

lemma holds_locks:
  assumes "\<And>k t. cell_ok cs s k t" "cs tid = Some c" "tid \<in> snd (lock_at (ts_locks s) k t)"
  shows "lock_at (ts_locks s) k t = (WRITE_LOCK, {tid}) \<and> t = time_of c \<and> k \<in> keys_of c \<and> get s k t = None
    \<and> (\<exists>vote. cl_phase c = Prepared vote)"
  using assms(1) [of k t] assms(2,3) by (auto simp: cell_ok_def one_with_def holder_def split: if_splits)

text \<open>A step of a client that is not prepared before or after it, and is not committed by it.\<close>

lemma cell_ok_same:
  assumes "cell_ok cs s k t" "lock_at (ts_locks s') k t = lock_at (ts_locks s) k t" "get s' k t = get s k t"
    and "cs tid = Some c" "holder c k t \<longrightarrow> holder c' k t"
  shows "cell_ok (cs(tid \<mapsto> c')) s' k t"
proof -
  have "one_with cs tid' (\<lambda>c. holder c k t) \<longrightarrow> one_with (cs(tid \<mapsto> c')) tid' (\<lambda>c. holder c k t)" for tid'
    using assms(4,5) by (simp add: one_with_def)
  with assms(1) show ?thesis unfolding cell_ok_def assms(2,3) by (auto simp del: one_with_upd)
qed

lemma versions_ok_same:
  assumes "versions_ok cs s" "get s' = get s" "cs tid = Some c" "cl_phase c \<noteq> Decided True" "cl_phase c' \<noteq> Decided True"
  shows "versions_ok (cs(tid \<mapsto> c')) s'"
proof -
  have "one_with (cs(tid \<mapsto> c')) tid' (\<lambda>c. author c k t v) = one_with cs tid' (\<lambda>c. author c k t v)" for tid' k t v
    using assms(3-5) by (intro one_with_same [of cs tid c]) (simp_all add: author_def)
  with assms(1,2) show ?thesis by (simp add: versions_ok_def del: one_with_upd)
qed

lemma winners_ok_same:
  assumes "winners_ok cs" "cl_phase c' \<noteq> Decided True"
  shows "winners_ok (cs(tid \<mapsto> c'))"
  using assms unfolding winners_ok_def by (metis fun_upd_apply option.inject)

section \<open>The steps of a client\<close>

text \<open>The number of requests that a client has made.\<close>

definition progress :: "client \<Rightarrow> nat" where
  "progress c = (case cl_phase c of
     Writing n \<Rightarrow> n | Prepared vote \<Rightarrow> Suc (length (cl_writes c)) | Decided vote \<Rightarrow> Suc (Suc (length (cl_writes c))))"

text \<open>The next step of a client is answered and keeps the invariant.\<close>

definition step_ok :: "(u64 \<rightharpoonup> client) \<Rightarrow> tserver \<Rightarrow> u64 \<Rightarrow> client \<Rightarrow> request_msg \<Rightarrow> bool" where
  "step_ok cs s tid c m \<longleftrightarrow> (\<exists>s' reply. deliver s m = (s', Some reply)
     \<and> clients_inv (cs(tid \<mapsto> client_reply getNode c reply)) s'
     \<and> same_work c (client_reply getNode c reply) \<and> progress (client_reply getNode c reply) = Suc (progress c))"

lemma step_okI:
  assumes "clients_inv cs s" "cs tid = Some c" "deliver s m = (s', Some reply)" "idle s'" "others s s' tid"
    and "same_work c (client_reply getNode c reply)" "client_ok s' tid (client_reply getNode c reply)"
    and "progress (client_reply getNode c reply) = Suc (progress c)"
    and "refused (client_reply getNode c reply) \<longrightarrow> conflicts cs tid c"
    and "\<And>k t. cell_ok (cs(tid \<mapsto> client_reply getNode c reply)) s' k t"
    and "versions_ok (cs(tid \<mapsto> client_reply getNode c reply)) s'" "winners_ok (cs(tid \<mapsto> client_reply getNode c reply))"
    and "\<And>tid' k t. tid' \<noteq> tid \<Longrightarrow> lock_at (ts_locks s) k t = (WRITE_LOCK, {tid'}) \<Longrightarrow>
      lock_at (ts_locks s') k t = (WRITE_LOCK, {tid'})"
  shows "step_ok cs s tid c m"
  using inv_step [OF assms(1,2,4-7,9-13)] assms(3,6,8) by (simp add: step_ok_def)

lemma write_step:
  assumes "clients_inv cs s" "cs tid = Some c" "cl_phase c = Writing n" "n < length (cl_writes c)" "client_msg c = Some m"
  shows "step_ok cs s tid c m"
proof -
  obtain key val where w: "cl_writes c ! n = (key, val)" by (cases "cl_writes c ! n")
  note ok = clients_invD(2) [OF assms(1,2)]
  have c: "co_tid (cl_coord c) = tid" "time_of c \<noteq> 0" "pending s tid = take n (cl_writes c)" "cl_writes c \<noteq> []"
    "ts_rdy_to_commit s tid = None" "co_read_nodes (cl_coord c) = []"
    using ok assms(3) by (simp_all add: client_ok_def)
  have z: "zero_node (ts_tid_to_nodes s tid)" "zero_node (ts_tid_to_write_nodes s tid)"
    "co_write_nodes (cl_coord c) = [] \<or> co_write_nodes (cl_coord c) = [0]"
    using ok assms(3) by (simp_all add: client_ok_def zero_node_def split: if_splits)
  have m: "m = MWrite \<lparr>wq_tid = tid, wq_key = key, wq_value = val\<rparr>"
    using assms(3-5) w c(1) by (simp add: client_msg_def Let_def makeWriteRequest_def)
  from call_write [OF clients_invD(1) [OF assms(1)], of "\<lparr>wq_tid = tid, wq_key = key, wq_value = val\<rparr>"] obtain s' where
    s': "deliver s m = (s', Some (RWrite \<lparr>wp_status = True\<rparr>))" "idle s'" "same_data (add s tid key val) s'"
    "ts_tid_to_nodes s' = note_node (ts_tid_to_nodes s) tid 0"
    "ts_tid_to_write_nodes s' = note_node (ts_tid_to_write_nodes s) tid 0"
    unfolding m by auto
  let ?c = "client_reply getNode c (RWrite \<lparr>wp_status = True\<rparr>)"
  have c': "cl_phase ?c = Writing (Suc n)" "cl_writes ?c = cl_writes c" "co_write_nodes (cl_coord ?c) = [0]"
    "co_tid (cl_coord ?c) = tid" "time_of ?c = time_of c" "co_read_nodes (cl_coord ?c) = []"
    using w assms(3) z(3) c(1,6) by (simp_all add: client_reply_def getNode_def insert_zero Let_def)
  have d: "ts_locks s' = ts_locks s" "get s' = get s" "ts_rdy_to_commit s' tid = None"
    "pending s' tid = take (Suc n) (cl_writes c)"
    using s'(3) same_data_get [OF s'(3)] pending_same [OF s'(3)] c(3,5) w assms(4)
    by (simp_all add: same_data_def pending_add take_Suc_conv_app_nth)
  have ok': "client_ok s' tid ?c"
    using c' d c(2,4) assms(4) z(1,2) s'(4,5) by (simp add: client_ok_def note_zero)
  show ?thesis
  proof (rule step_okI [OF assms(1,2) s'(1,2) others_write [OF s'(3-5)] _ ok'])
    show "cell_ok (cs(tid \<mapsto> ?c)) s' k t" for k t
      by (rule cell_ok_same [OF clients_invD(4) [OF assms(1)] _ _ assms(2)])
        (use d assms(3) in \<open>simp_all add: holder_def\<close>)
    show "versions_ok (cs(tid \<mapsto> ?c)) s'"
      by (rule versions_ok_same [OF clients_invD(5) [OF assms(1)] d(2) assms(2)]) (use assms(3) c'(1) in simp_all)
    show "winners_ok (cs(tid \<mapsto> ?c))"
      by (rule winners_ok_same [OF clients_invD(6) [OF assms(1)]]) (simp add: c'(1))
  qed (use c' d(1) assms(3) in \<open>simp_all add: same_work_def refused_def progress_def\<close>)
qed

text \<open>The first phase locks free cells only, and refuses because of a key that is not free.\<close>

lemma lock_rest:
  assumes "lm_inv m" "lock_keys m tid ts ts keys = Some (m', vote)" "\<And>k t. tid \<notin> snd (lock_at m k t)"
  shows "\<exists>L\<subseteq>set keys. (\<forall>k\<in>L. fst (lock_at m k ts) = FREE) \<and> (vote \<longrightarrow> L = set keys)
    \<and> (\<forall>k t. lock_at m' k t = (if k \<in> L \<and> t = ts then (WRITE_LOCK, {tid}) else lock_at m k t))"
proof -
  from lock_keys_ok [OF assms(1), of tid ts keys, unfolded assms(2) option.inject prod.inject] obtain L where
    "L \<subseteq> set keys" "\<forall>k. k \<in> L \<longrightarrow> fst (lock_at m k ts) = FREE" "vote \<longrightarrow> L = set keys"
    "\<forall>k t. lock_at m' k t = (if k \<in> L \<and> t = ts then (WRITE_LOCK, {tid}) else lock_at m k t)" by blast
  then show ?thesis by blast
qed

lemma not_free_conflicts:
  assumes "clients_inv cs s" "cs tid = Some c" "cl_phase c = Writing n" "time_of c \<noteq> 0" "k \<in> keys_of c"
    and "fst (lock_at (ts_locks s) k (time_of c)) \<noteq> FREE"
  shows "conflicts cs tid c"
proof -
  have "\<exists>tid'. one_with cs tid' (rival c) \<and> tid' \<noteq> tid"
  proof (cases "get s k (time_of c)")
    case None
    with clients_invD(4) [OF assms(1), of k "time_of c"] assms(6) obtain tid' where
      "one_with cs tid' (\<lambda>c'. holder c' k (time_of c))" by (auto simp: cell_ok_def)
    with assms(2,3,5) show ?thesis
      by (intro exI [of _ tid']) (auto simp: one_with_def holder_def rival_def split: option.splits)
  next
    case (Some v)
    with clients_invD(5) [OF assms(1)] assms(4) obtain tid' where
      "one_with cs tid' (\<lambda>c'. author c' k (time_of c) v)" by (auto simp: versions_ok_def)
    moreover have "(k, v) \<in> set (cl_writes d) \<Longrightarrow> k \<in> keys_of d" for d by (force simp: keys_of_def)
    ultimately show ?thesis using assms(2,3,5)
      by (intro exI [of _ tid']) (auto simp: one_with_def author_def rival_def split: option.splits)
  qed
  then show ?thesis by (auto simp: conflicts_def)
qed

lemma prepare_call:
  assumes "clients_inv cs s" "cs tid = Some c" "cl_phase c = Writing (length (cl_writes c))" "client_msg c = Some m"
  shows "\<exists>s' vote L. deliver s m = (s', Some (RP1C \<lparr>p1p_node = [0], p1p_vote = vote\<rparr>)) \<and> idle s' \<and> others s s' tid
    \<and> client_ok s' tid (c\<lparr>cl_phase := Prepared vote\<rparr>) \<and> get s' = get s
    \<and> (vote \<longleftrightarrow> distinct (map fst (cl_writes c)) \<and> (\<forall>k\<in>keys_of c. fst (lock_at (ts_locks s) k (time_of c)) = FREE))
    \<and> L \<subseteq> keys_of c \<and> (\<forall>k\<in>L. fst (lock_at (ts_locks s) k (time_of c)) = FREE)
    \<and> (\<forall>k t. lock_at (ts_locks s') k t = (if k \<in> L \<and> t = time_of c then (WRITE_LOCK, {tid}) else lock_at (ts_locks s) k t))"
proof -
  let ?q = "\<lparr>p1q_tid = tid, p1q_start_ts = time_of c, p1q_commit_ts = time_of c, p1q_read_node = [], p1q_write_node = [0]\<rparr>"
  have c: "co_tid (cl_coord c) = tid" "time_of c \<noteq> 0" "pending s tid = cl_writes c" "cl_writes c \<noteq> []"
    "ts_rdy_to_commit s tid = None" "co_read_nodes (cl_coord c) = []" "co_write_nodes (cl_coord c) = [0]"
    "ts_tid_to_nodes s tid = Some [0]" "ts_tid_to_write_nodes s tid = Some [0]"
    using clients_invD(2) [OF assms(1,2)] assms(3) by (simp_all add: client_ok_def)
  have m: "m = MP1C ?q"
    using assms(3,4) c by (simp add: client_msg_def Let_def makePhaseOneCommitRequest_def p1c_arguments_def)
  have q: "ts_tid_to_write_nodes s (p1q_tid ?q) = Some [0]" "p1q_start_ts ?q = time_of c" "p1q_commit_ts ?q = time_of c"
    "preparable s (p1q_tid ?q) (time_of c)" using c by (simp_all add: preparable_def)
  have keys: "getKeys s tid = map fst (cl_writes c)" using c(3) by (simp add: getKeys_pending)
  from call_p1c [OF clients_invD(1) [OF assms(1)] q, unfolded PhaseOneCommitRequest.simps insert_zeros keys]
  obtain s' vote l where
    s': "deliver s m = (s', Some (RP1C \<lparr>p1p_node = [0], p1p_vote = vote\<rparr>))" "idle s'"
    "vote \<longleftrightarrow> distinct (map fst (cl_writes c)) \<and> (\<forall>k\<in>set (map fst (cl_writes c)). fst (lock_at (ts_locks s) k (time_of c)) = FREE)"
    "ts_tid_to_nodes s' = ts_tid_to_nodes s" "ts_tid_to_write_nodes s' = (ts_tid_to_write_nodes s)(tid := None)"
    "same_data (prepare (s\<lparr>ts_locks := l\<rparr>) tid (time_of c)) s'"
    "lock_keys (ts_locks s) tid (time_of c) (time_of c) (map fst (cl_writes c)) = Some (l, vote)"
    unfolding m by (elim exE conjE)
  have d: "ts_locks s' = l" "get s' = get s" "ts_rdy_to_commit s' = (ts_rdy_to_commit s)(tid \<mapsto> time_of c)"
    "ts_pend_writes s' = ts_pend_writes s"
    using s'(6) same_data_get [OF s'(6)] by (simp_all add: same_data_def prepare_def fun_eq_iff)
  have "tid \<notin> snd (lock_at (ts_locks s) k t)" for k t
    using holds_locks [OF clients_invD(4) [OF assms(1)] assms(2), of k t] assms(3) by auto
  from lock_rest [OF _ s'(7) this] data_inv_locks [OF server_inv_data [OF idleD(1) [OF clients_invD(1) [OF assms(1)]]]]
  obtain L where L: "L \<subseteq> keys_of c" "\<forall>k\<in>L. fst (lock_at (ts_locks s) k (time_of c)) = FREE" "vote \<longrightarrow> L = keys_of c"
    "\<forall>k t. lock_at (ts_locks s') k t = (if k \<in> L \<and> t = time_of c then (WRITE_LOCK, {tid}) else lock_at (ts_locks s) k t)"
    unfolding d(1) keys_of_def by auto
  have dist: "vote \<longrightarrow> distinct (map fst (cl_writes c))" using s'(3) by blast
  have "client_ok s' tid (c\<lparr>cl_phase := Prepared vote\<rparr>)"
    unfolding client_ok_def using c s'(4,5) d(3,4) L(3,4) dist by (simp add: pending_def)
  moreover have "others s s' tid" using s'(4,5) d(3,4) by (simp add: others_def)
  ultimately show ?thesis using s'(1-3) L(1,2,4) d(2) unfolding keys_of_def set_map
    by (intro exI [of _ s'] exI [of _ vote] exI [of _ L] conjI) assumption+
qed

lemma prepare_step:
  assumes "clients_inv cs s" "cs tid = Some c" "cl_phase c = Writing n" "\<not> n < length (cl_writes c)" "client_msg c = Some m"
  shows "step_ok cs s tid c m"
proof -
  have n: "n = length (cl_writes c)" and nz: "time_of c \<noteq> 0"
    using clients_invD(2) [OF assms(1,2)] assms(3,4) by (auto simp: client_ok_def)
  from prepare_call [OF assms(1,2) assms(3) [unfolded n] assms(5)] obtain s' vote L where
    s': "deliver s m = (s', Some (RP1C \<lparr>p1p_node = [0], p1p_vote = vote\<rparr>))" "idle s'" "others s s' tid"
    "client_ok s' tid (c\<lparr>cl_phase := Prepared vote\<rparr>)" and get: "get s' = get s"
    and vote: "vote \<longleftrightarrow> distinct (map fst (cl_writes c)) \<and> (\<forall>k\<in>keys_of c. fst (lock_at (ts_locks s) k (time_of c)) = FREE)"
    and L: "L \<subseteq> keys_of c" "\<forall>k\<in>L. fst (lock_at (ts_locks s) k (time_of c)) = FREE"
    "\<forall>k t. lock_at (ts_locks s') k t = (if k \<in> L \<and> t = time_of c then (WRITE_LOCK, {tid}) else lock_at (ts_locks s) k t)"
    by (elim exE conjE)
  let ?c = "client_reply getNode c (RP1C \<lparr>p1p_node = [0], p1p_vote = vote\<rparr>)"
  have c': "?c = c\<lparr>cl_phase := Prepared vote\<rparr>" using assms(3) by (simp add: client_reply_def)
  show ?thesis
  proof (rule step_okI [OF assms(1,2) s'(1-3)])
    show "cell_ok (cs(tid \<mapsto> ?c)) s' k t" for k t
    proof (cases "k \<in> L \<and> t = time_of c")
      case True
      with L(1,2) clients_invD(4) [OF assms(1), of k t] have "holder ?c k t" "get s k t = None"
        by (auto simp: holder_def c' cell_ok_def split: if_splits)
      with True L(3) get show ?thesis by (auto simp: cell_ok_def)
    next
      case False
      with L(3) get show ?thesis
        by (intro cell_ok_same [OF clients_invD(4) [OF assms(1)] _ _ assms(2)]) (auto simp: holder_def assms(3))
    qed
    show "versions_ok (cs(tid \<mapsto> ?c)) s'"
      by (rule versions_ok_same [OF clients_invD(5) [OF assms(1)] get assms(2)]) (use assms(3) c' in simp_all)
    show "winners_ok (cs(tid \<mapsto> ?c))"
      by (rule winners_ok_same [OF clients_invD(6) [OF assms(1)]]) (simp add: c')
    show "refused ?c \<longrightarrow> conflicts cs tid c"
      using vote not_free_conflicts [OF assms(1-3) nz] unfolding c' refused_def conflicts_def by auto
    show "lock_at (ts_locks s') k t = (WRITE_LOCK, {tid'})"
      if "tid' \<noteq> tid" "lock_at (ts_locks s) k t = (WRITE_LOCK, {tid'})" for tid' k t
      using that L(2,3) by auto
  qed (use s'(4) assms(3) n in \<open>simp_all add: c' same_work_def progress_def\<close>)
qed

text \<open>The two ends of a transaction, from what the client and the server know after its first phase.\<close>

lemma versions_ok_commit:
  assumes "clients_inv cs s" "cs tid = Some c" "cl_phase c = Prepared True" "distinct (map fst (cl_writes c))"
    and "\<And>k. k \<in> keys_of c \<Longrightarrow> lock_at (ts_locks s) k (time_of c) = (WRITE_LOCK, {tid})"
    and "\<And>k t. get s' k t = (if t = time_of c \<and> k \<in> keys_of c then map_of (cl_writes c) k else get s k t)"
  shows "versions_ok (cs(tid \<mapsto> c\<lparr>cl_phase := Decided True\<rparr>)) s'"
  unfolding versions_ok_def
proof (intro allI impI)
  fix k t v
  assume t: "t \<noteq> (0 :: u64)"
  let ?c = "c\<lparr>cl_phase := Decided True\<rparr>"
  have old: "(get s k t = Some v) = (\<exists>tid'. one_with cs tid' (\<lambda>c. author c k t v))"
    using clients_invD(5) [OF assms(1)] t by (simp add: versions_ok_def)
  have new: "(\<exists>tid'. one_with (cs(tid \<mapsto> ?c)) tid' (\<lambda>c. author c k t v)) \<longleftrightarrow> author ?c k t v \<or> get s k t = Some v"
  proof -
    have "\<not> one_with cs tid (\<lambda>c. author c k t v)" using assms(2,3) by (simp add: one_with_def author_def)
    then show ?thesis unfolding old by auto
  qed
  have author: "author ?c k t v \<longleftrightarrow> t = time_of c \<and> map_of (cl_writes c) k = Some v"
    using assms(4) by (auto simp: author_def)
  show "(get s' k t = Some v) = (\<exists>tid'. one_with (cs(tid \<mapsto> ?c)) tid' (\<lambda>c. author c k t v))"
  proof (cases "t = time_of c \<and> k \<in> keys_of c")
    case True
    with assms(5) clients_invD(4) [OF assms(1), of k t] have "get s k t = None" by (auto simp: cell_ok_def split: if_splits)
    with True show ?thesis unfolding new author assms(6) by simp
  next
    case False
    then have "\<not> author ?c k t v" unfolding author by (force simp: keys_of_def dest: map_of_SomeD)
    with False show ?thesis unfolding new assms(6) by auto
  qed
qed

lemma winners_ok_commit:
  assumes "clients_inv cs s" "cs tid = Some c" "time_of c \<noteq> 0"
    and "\<And>k. k \<in> keys_of c \<Longrightarrow> lock_at (ts_locks s) k (time_of c) = (WRITE_LOCK, {tid})"
  shows "winners_ok (cs(tid \<mapsto> c\<lparr>cl_phase := Decided True\<rparr>))"
proof -
  have no: "\<not> (time_of d = time_of c \<and> keys_of d \<inter> keys_of c \<noteq> {})"
    if d: "cs tid' = Some d" "cl_phase d = Decided True" for tid' d
  proof (rule notI, elim conjE)
    assume "time_of d = time_of c" "keys_of d \<inter> keys_of c \<noteq> {}"
    then obtain k v where k: "(k, v) \<in> set (cl_writes d)" "k \<in> keys_of c" by (force simp: keys_of_def)
    have "one_with cs tid' (\<lambda>c'. author c' k (time_of c) v)"
      using d k(1) \<open>time_of d = time_of c\<close> by (simp add: one_with_def author_def)
    then have "get s k (time_of c) = Some v" using clients_invD(5) [OF assms(1)] assms(3) by (auto simp: versions_ok_def)
    with clients_invD(4) [OF assms(1), of k "time_of c"] assms(4) [OF k(2)] show False by (simp add: cell_ok_def)
  qed
  show ?thesis
    unfolding winners_ok_def
  proof (intro allI impI)
    fix tid1 tid2 c1 c2
    let ?cs = "cs(tid \<mapsto> c\<lparr>cl_phase := Decided True\<rparr>)"
    assume a: "tid1 \<noteq> tid2" "?cs tid1 = Some c1" "?cs tid2 = Some c2" "cl_phase c1 = Decided True" "cl_phase c2 = Decided True"
    show "\<not> rival c1 c2"
    proof (cases "tid1 = tid \<or> tid2 = tid")
      case True
      with a no [of tid1] no [of tid2] show ?thesis by (auto simp: rival_def split: if_splits)
    next
      case False
      with a clients_invD(6) [OF assms(1)] show ?thesis by (auto simp: winners_ok_def)
    qed
  qed
qed

lemma commit_call:
  assumes "clients_inv cs s" "cs tid = Some c" "cl_phase c = Prepared True" "client_msg c = Some m"
  shows "\<exists>s'. deliver s m = (s', Some (RP2C \<lparr>p2p_node = [0]\<rparr>)) \<and> idle s' \<and> others s s' tid
    \<and> client_ok s' tid (c\<lparr>cl_phase := Decided True\<rparr>)
    \<and> (\<forall>k t. get s' k t = (if t = time_of c \<and> k \<in> keys_of c then map_of (cl_writes c) k else get s k t))
    \<and> (\<forall>k t. lock_at (ts_locks s') k t =
          (if t = time_of c \<and> k \<in> keys_of c then (FREEZE_WRITE_LOCK, {}) else lock_at (ts_locks s) k t))"
proof -
  note ok = clients_invD(2) [OF assms(1,2)]
  have c: "co_tid (cl_coord c) = tid" "time_of c \<noteq> 0" "pending s tid = cl_writes c" "cl_writes c \<noteq> []"
    "ts_rdy_to_commit s tid = Some (time_of c)" "ts_tid_to_nodes s tid = Some [0]" "ts_tid_to_write_nodes s tid = None"
    "distinct (map fst (cl_writes c))" "\<forall>k\<in>keys_of c. lock_at (ts_locks s) k (time_of c) = (WRITE_LOCK, {tid})"
    "co_read_nodes (cl_coord c) = []"
    using ok assms(3) by (simp_all add: client_ok_def)
  have m: "m = MP2C \<lparr>p2q_tid = tid, p2q_vote = True\<rparr>"
    using assms(3,4) c(1) by (simp add: client_msg_def Let_def makePhaseTwoCommitRequest_def p2c_arguments_def)
  have keys: "set (getKeys s tid) = keys_of c" using c(3) by (simp add: getKeys_pending keys_of_def)
  have p: "the (ts_pend_writes s tid) = cl_writes c" using c(3,4) by (auto simp: pending_def split: option.splits)
  have "fully_locked s tid" using c(5,9) keys by (simp add: fully_locked_def list_all_iff)
  from call_commit [OF clients_invD(1) [OF assms(1)] c(6,5) this, unfolded keys p] obtain s' where
    s': "deliver s m = (s', Some (RP2C \<lparr>p2p_node = [0]\<rparr>))" "idle s'" "call_forgotten s s' tid"
    "\<forall>k t. lock_at (ts_locks s') k t = freeze_cell tid (lock_at (ts_locks s) k t)"
    "\<forall>k t. get s' k t = (if t = time_of c \<and> t \<noteq> 0 \<and> k \<in> keys_of c then map_of (rev (cl_writes c)) k else get s k t)"
    unfolding m by blast
  have held: "tid \<in> snd (lock_at (ts_locks s) k t) \<Longrightarrow>
    lock_at (ts_locks s) k t = (WRITE_LOCK, {tid}) \<and> t = time_of c \<and> k \<in> keys_of c" for k t
    using holds_locks [OF clients_invD(4) [OF assms(1)] assms(2), of k t] by blast
  have "lock_at (ts_locks s') k t = (if t = time_of c \<and> k \<in> keys_of c then (FREEZE_WRITE_LOCK, {}) else lock_at (ts_locks s) k t)" for k t
  proof (cases "t = time_of c \<and> k \<in> keys_of c")
    case True
    then have "lock_at (ts_locks s) k t = (WRITE_LOCK, {tid})" using c(9) by blast
    with True s'(4) show ?thesis by (simp add: freeze_cell_def)
  next
    case False
    with held [of k t] have "tid \<notin> snd (lock_at (ts_locks s) k t)" by blast
    with False s'(4) show ?thesis by (auto simp: freeze_cell_def)
  qed
  moreover have "others s s' tid" "unknown s' tid"
    using s'(3) c(5,7) by (simp_all add: others_def unknown_def call_forgotten_def forgotten_def)
  moreover from this(2) have "client_ok s' tid (c\<lparr>cl_phase := Decided True\<rparr>)" using c by (simp add: client_ok_def)
  ultimately show ?thesis using s'(1,2,5) c(2) map_of_rev_distinct [OF c(8)] by simp
qed

lemma decided_commit_step:
  assumes "clients_inv cs s" "cs tid = Some c" "cl_phase c = Prepared True" "client_msg c = Some m"
  shows "step_ok cs s tid c m"
proof -
  from commit_call [OF assms] obtain s' where
    s': "deliver s m = (s', Some (RP2C \<lparr>p2p_node = [0]\<rparr>))" "idle s'" "others s s' tid"
    "client_ok s' tid (c\<lparr>cl_phase := Decided True\<rparr>)"
    and get: "\<And>k t. get s' k t = (if t = time_of c \<and> k \<in> keys_of c then map_of (cl_writes c) k else get s k t)"
    and locks: "\<And>k t. lock_at (ts_locks s') k t =
      (if t = time_of c \<and> k \<in> keys_of c then (FREEZE_WRITE_LOCK, {}) else lock_at (ts_locks s) k t)" by blast
  have c: "time_of c \<noteq> 0" "distinct (map fst (cl_writes c))"
    and held: "\<And>k. k \<in> keys_of c \<Longrightarrow> lock_at (ts_locks s) k (time_of c) = (WRITE_LOCK, {tid})"
    using clients_invD(2) [OF assms(1,2)] assms(3) by (simp_all add: client_ok_def)
  let ?c = "client_reply getNode c (RP2C \<lparr>p2p_node = [0]\<rparr>)"
  have c': "?c = c\<lparr>cl_phase := Decided True\<rparr>" using assms(3) by (simp add: client_reply_def)
  have stored: "k \<in> keys_of c \<Longrightarrow> map_of (cl_writes c) k \<noteq> None" for k by (simp add: keys_of_def map_of_eq_None_iff)
  show ?thesis
  proof (rule step_okI [OF assms(1,2) s'(1-3)])
    show "cell_ok (cs(tid \<mapsto> ?c)) s' k t" for k t
    proof (cases "t = time_of c \<and> k \<in> keys_of c")
      case True
      with locks [of k t] get [of k t] stored show ?thesis by (simp add: cell_ok_def)
    next
      case False
      with locks [of k t] get [of k t] show ?thesis
        by (intro cell_ok_same [OF clients_invD(4) [OF assms(1)] _ _ assms(2)]) (auto simp: holder_def)
    qed
    show "versions_ok (cs(tid \<mapsto> ?c)) s'"
      unfolding c' by (rule versions_ok_commit [OF assms(1-3) c(2) held get])
    show "winners_ok (cs(tid \<mapsto> ?c))"
      unfolding c' by (rule winners_ok_commit [OF assms(1,2) c(1) held])
    show "lock_at (ts_locks s') k t = (WRITE_LOCK, {tid'})"
      if "tid' \<noteq> tid" "lock_at (ts_locks s) k t = (WRITE_LOCK, {tid'})" for tid' k t
      using that locks [of k t] held by auto
  qed (use s'(4) assms(3) in \<open>simp_all add: c' same_work_def progress_def refused_def\<close>)
qed

lemma abort_step:
  assumes "clients_inv cs s" "cs tid = Some c" "cl_phase c = Prepared False" "client_msg c = Some m"
  shows "step_ok cs s tid c m"
proof -
  note ok = clients_invD(2) [OF assms(1,2)]
  have c: "co_tid (cl_coord c) = tid" "time_of c \<noteq> 0" "cl_writes c \<noteq> []" "co_read_nodes (cl_coord c) = []"
    "ts_rdy_to_commit s tid = Some (time_of c)" "ts_tid_to_nodes s tid = Some [0]" "ts_tid_to_write_nodes s tid = None"
    using ok assms(3) by (simp_all add: client_ok_def)
  have m: "m = MP2C \<lparr>p2q_tid = tid, p2q_vote = False\<rparr>"
    using assms(3,4) c(1) by (simp add: client_msg_def Let_def makePhaseTwoCommitRequest_def p2c_arguments_def)
  have held: "tid \<in> snd (lock_at (ts_locks s) k t) \<Longrightarrow>
    lock_at (ts_locks s) k t = (WRITE_LOCK, {tid}) \<and> t = time_of c \<and> k \<in> keys_of c \<and> get s k t = None" for k t
    using holds_locks [OF clients_invD(4) [OF assms(1)] assms(2), of k t] by blast
  have "\<not> shares_reads (ts_locks s) tid" using held by (fastforce simp: shares_reads_def)
  from call_abort [OF clients_invD(1) [OF assms(1)] c(6) this] obtain s' where
    s': "deliver s m = (s', Some (RP2C \<lparr>p2p_node = [0]\<rparr>))" "idle s'" "call_forgotten s s' tid" "get s' = get s"
    "\<forall>k t. lock_at (ts_locks s') k t =
          (if tid \<in> snd (lock_at (ts_locks s) k t) then (FREE, {}) else lock_at (ts_locks s) k t)"
    unfolding m by blast
  let ?c = "client_reply getNode c (RP2C \<lparr>p2p_node = [0]\<rparr>)"
  have c': "?c = c\<lparr>cl_phase := Decided False\<rparr>" using assms(3) by (simp add: client_reply_def)
  have tables: "others s s' tid" "unknown s' tid"
    using s'(3) c(5,7) by (simp_all add: others_def unknown_def call_forgotten_def forgotten_def)
  show ?thesis
  proof (rule step_okI [OF assms(1,2) s'(1,2) tables(1)])
    show "cell_ok (cs(tid \<mapsto> ?c)) s' k t" for k t
    proof (cases "tid \<in> snd (lock_at (ts_locks s) k t)")
      case True
      from held [OF True] have "get s' k t = None" using s'(4) by auto
      with True s'(5) show ?thesis by (simp add: cell_ok_def)
    next
      case False
      with s'(5) have "lock_at (ts_locks s') k t = lock_at (ts_locks s) k t" by simp
      moreover have "one_with (cs(tid \<mapsto> ?c)) tid' P" if "one_with cs tid' P" "tid' \<noteq> tid" for tid' P
        using that by simp
      ultimately show ?thesis using False clients_invD(4) [OF assms(1), of k t] s'(4)
        by (auto simp: cell_ok_def simp del: one_with_upd)
    qed
    show "versions_ok (cs(tid \<mapsto> ?c)) s'"
      by (rule versions_ok_same [OF clients_invD(5) [OF assms(1)] s'(4) assms(2)]) (use assms(3) c' in simp_all)
    show "winners_ok (cs(tid \<mapsto> ?c))"
      by (rule winners_ok_same [OF clients_invD(6) [OF assms(1)]]) (simp add: c')
    show "client_ok s' tid ?c" unfolding client_ok_def c' using c tables(2) by simp
    show "refused ?c \<longrightarrow> conflicts cs tid c"
      using clients_invD(3) [OF assms(1,2)] assms(3) by (simp add: refused_def)
  qed (use s'(5) assms(3) in \<open>simp_all add: c' same_work_def progress_def\<close>)
qed

section \<open>Any order of steps\<close>

definition advanced :: "nat \<Rightarrow> client \<Rightarrow> client \<Rightarrow> bool" where
  "advanced n c c' \<longleftrightarrow> same_work c c' \<and> progress c' = min (Suc (Suc (length (cl_writes c)))) (progress c + n)"

lemma progress_bound: "client_ok s tid c \<Longrightarrow> progress c \<le> Suc (Suc (length (cl_writes c)))"
  by (auto simp: client_ok_def progress_def split: phase.splits)

lemma advanced_zero: "client_ok s tid c \<Longrightarrow> advanced 0 c c"
  using progress_bound [of s tid c] by (simp add: advanced_def same_work_def)

lemma advanced_trans: "advanced m c c1 \<Longrightarrow> advanced n c1 c2 \<Longrightarrow> advanced (m + n) c c2"
  by (auto simp: advanced_def same_work_def)

lemma any_step:
  assumes "clients_inv cs s" "cs tid = Some c" "client_msg c = Some m"
  shows "step_ok cs s tid c m"
proof (cases "cl_phase c")
  case (Writing n)
  with write_step [OF assms(1,2) _ _ assms(3)] prepare_step [OF assms(1,2) _ _ assms(3)] show ?thesis by blast
next
  case (Prepared vote)
  with decided_commit_step [OF assms(1,2) _ assms(3)] abort_step [OF assms(1,2) _ assms(3)] show ?thesis by (cases vote) auto
next
  case (Decided vote)
  with assms(3) show ?thesis by (simp add: client_msg_def)
qed

lemma client_step_ok:
  assumes "clients_inv cs s"
  shows "\<exists>s' cs'. client_step (s, cs) tid = Some (s', cs') \<and> clients_inv cs' s'
    \<and> (\<forall>tid'. rel_option (advanced (if tid' = tid then 1 else 0)) (cs tid') (cs' tid'))"
proof -
  have zero: "rel_option (advanced 0) (cs tid') (cs tid')" for tid'
    using clients_invD(2) [OF assms, of tid'] advanced_zero by (cases "cs tid'") auto
  show ?thesis
  proof (cases "cs tid")
    case None
    with assms zero show ?thesis by (auto simp: client_step_def)
  next
    case (Some c)
    show ?thesis
    proof (cases "client_msg c")
      case None
      then have "\<exists>vote. cl_phase c = Decided vote"
        by (auto simp: client_msg_def Let_def split: phase.splits if_splits prod.splits)
      then have "advanced 1 c c" by (auto simp: advanced_def same_work_def progress_def)
      with None Some assms zero show ?thesis by (auto simp: client_step_def)
    next
      case (Some m)
      from any_step [OF assms \<open>cs tid = Some c\<close> Some] obtain s' reply where r:
        "deliver s m = (s', Some reply)" "clients_inv (cs(tid \<mapsto> client_reply getNode c reply)) s'"
        "same_work c (client_reply getNode c reply)" "progress (client_reply getNode c reply) = Suc (progress c)"
        by (auto simp: step_ok_def)
      have "progress (client_reply getNode c reply) \<le> Suc (Suc (length (cl_writes c)))"
        using progress_bound [OF clients_invD(2) [OF r(2), of tid]] r(3) by (simp add: same_work_def)
      with r(3,4) have "advanced 1 c (client_reply getNode c reply)" by (simp add: advanced_def)
      with r(1,2) Some \<open>cs tid = Some c\<close> zero show ?thesis by (auto simp: client_step_def)
    qed
  qed
qed

lemma client_steps_ok:
  assumes "clients_inv cs s"
  shows "\<exists>s' cs'. client_steps (s, cs) tids = Some (s', cs') \<and> clients_inv cs' s'
    \<and> (\<forall>tid. rel_option (advanced (count_list tids tid)) (cs tid) (cs' tid))"
  using assms
proof (induction tids arbitrary: s cs)
  case Nil
  have "rel_option (advanced 0) (cs tid) (cs tid)" for tid
    using clients_invD(2) [OF Nil, of tid] advanced_zero by (cases "cs tid") auto
  with Nil show ?case by simp
next
  case (Cons a tids)
  from client_step_ok [OF Cons.prems, of a] obtain s1 cs1 where
    one: "client_step (s, cs) a = Some (s1, cs1)" "clients_inv cs1 s1"
    "\<forall>tid'. rel_option (advanced (if tid' = a then 1 else 0)) (cs tid') (cs1 tid')" by blast
  from Cons.IH [OF one(2)] obtain s2 cs2 where
    rest: "client_steps (s1, cs1) tids = Some (s2, cs2)" "clients_inv cs2 s2"
    "\<forall>tid. rel_option (advanced (count_list tids tid)) (cs1 tid) (cs2 tid)" by blast
  have "rel_option (advanced (count_list (a # tids) tid)) (cs tid) (cs2 tid)" for tid
  proof (cases "cs tid")
    case None
    with one(3) rest(3) show ?thesis by (metis rel_option_None1)
  next
    case (Some c)
    with one(3) [rule_format, of tid] obtain c1 where
      "cs1 tid = Some c1" "advanced (if tid = a then 1 else 0) c c1" by (auto simp: option_rel_Some1)
    with Some rest(3) [rule_format, of tid] show ?thesis
      by (auto simp: option_rel_Some1 dest: advanced_trans)
  qed
  with one(1) rest(1,2) show ?case by auto
qed

lemma clients_start:
  assumes "\<And>tid c. cs tid = Some c \<Longrightarrow> \<exists>ts ws. c = new_client tid ts ws \<and> ts \<noteq> 0 \<and> ws \<noteq> []"
  shows "clients_inv cs main_server"
proof -
  have "client_ok main_server tid c \<and> \<not> refused c" if "cs tid = Some c" for tid c
    using assms [OF that] unknown_start [of tid]
    by (auto simp: client_ok_def new_client_def refused_def unknown_def pending_def)
  moreover have "cell_ok cs main_server k t" for k t by (simp add: cell_ok_def get_start locks_start initial_cell_def)
  moreover have phase: "cl_phase c \<noteq> Decided True" if "cs tid = Some c" for tid c
    using assms [OF that] by (auto simp: new_client_def)
  then have "winners_ok cs" by (simp add: winners_ok_def)
  moreover have "versions_ok cs main_server"
    using phase by (auto simp: versions_ok_def get_start one_with_def author_def split: option.splits)
  ultimately show ?thesis using idle_main by (simp add: clients_inv_def)
qed

lemma conflicts_back:
  assumes "\<And>tid. rel_option (advanced (n tid)) (cs tid) (cs' tid)" "same_work c c'"
  shows "conflicts cs' tid c' = conflicts cs tid c"
proof -
  have "one_with cs' tid' (rival c) = one_with cs tid' (rival c)" for tid'
  proof (cases "cs tid'")
    case None
    with assms(1) [of tid'] show ?thesis by (simp add: one_with_def)
  next
    case (Some d)
    with assms(1) [of tid'] obtain d' where d': "cs' tid' = Some d'" "same_work d d'"
      by (auto simp: option_rel_Some1 advanced_def)
    then have "rival c d' = rival c d" using same_work_keys [OF d'(2)] by (simp add: rival_def same_work_def)
    with Some d'(1) show ?thesis by (simp add: one_with_def)
  qed
  then have "conflicts cs' tid c = conflicts cs tid c" by (simp add: conflicts_def)
  then show ?thesis by (simp add: conflicts_same [OF assms(2)])
qed

text \<open>
  C4: transactions are isolated: any number of coordinators, each with its own transaction number,
  send their writes and the two phases of their commits to an empty server, in any order of
  requests.  Every request is answered; a client that has got enough turns has its decision; the
  versions in the store are exactly the writes of the committed clients, and they are frozen; no
  two committed clients have written the same key at the same time; and a client is refused only
  when it writes a key twice or another one writes a key of it at its time.
\<close>
theorem concurrent_transactions_isolated:
  assumes "\<And>tid c. cs tid = Some c \<Longrightarrow> \<exists>ts ws. c = new_client tid ts ws \<and> ts \<noteq> 0 \<and> ws \<noteq> []"
  shows "\<exists>s cs'. client_steps (main_server, cs) tids = Some (s, cs') \<and> idle s \<and> dom cs' = dom cs
    \<and> (\<forall>tid c. cs tid = Some c \<longrightarrow> (\<exists>c'. cs' tid = Some c' \<and> same_work c c'
         \<and> (length (cl_writes c) + 2 \<le> count_list tids tid \<longrightarrow> (\<exists>vote. cl_phase c' = Decided vote))
         \<and> (refused c' \<longrightarrow> conflicts cs tid c)))
    \<and> (\<forall>k t v. t \<noteq> 0 \<longrightarrow> (get s k t = Some v \<longleftrightarrow> (\<exists>tid. one_with cs' tid (\<lambda>c. author c k t v))))
    \<and> (\<forall>k t. committed s k t \<longleftrightarrow> get s k t \<noteq> None) \<and> winners_ok cs'"
proof -
  from client_steps_ok [OF clients_start [OF assms], where tids = tids] obtain s cs' where
    run: "client_steps (main_server, cs) tids = Some (s, cs')" "clients_inv cs' s"
    "\<And>tid. rel_option (advanced (count_list tids tid)) (cs tid) (cs' tid)" by blast
  have each: "\<exists>c'. cs' tid = Some c' \<and> same_work c c'
       \<and> (length (cl_writes c) + 2 \<le> count_list tids tid \<longrightarrow> (\<exists>vote. cl_phase c' = Decided vote))
       \<and> (refused c' \<longrightarrow> conflicts cs tid c)" if c: "cs tid = Some c" for tid c
  proof -
    from run(3) [of tid] c obtain c' where c': "cs' tid = Some c'" "advanced (count_list tids tid) c c'"
      by (auto simp: option_rel_Some1)
    then have w: "same_work c c'" by (simp add: advanced_def)
    have "\<exists>vote. cl_phase c' = Decided vote" if "length (cl_writes c) + 2 \<le> count_list tids tid"
      using c'(2) that clients_invD(2) [OF run(2) c'(1)]
      by (auto simp: advanced_def progress_def client_ok_def same_work_def split: phase.splits)
    with c'(1) w clients_invD(3) [OF run(2) c'(1)] conflicts_back [of "count_list tids" cs cs', OF run(3) w] show ?thesis by blast
  qed
  moreover have "dom cs' = dom cs"
  proof -
    have "cs' tid = None \<longleftrightarrow> cs tid = None" for tid using run(3) [of tid] by (cases "cs tid"; cases "cs' tid") auto
    then show ?thesis by (auto simp: dom_def)
  qed
  moreover have "committed s k t \<longleftrightarrow> get s k t \<noteq> None" for k t
    using clients_invD(4) [OF run(2), of k t] by (auto simp: committed_def cell_ok_def split: if_splits)
  ultimately show ?thesis using run(1,2) by (intro exI [of _ s] exI [of _ cs']) (simp add: clients_inv_def versions_ok_def)
qed

theorem concurrent_transactions_isolated_witness:
  "\<exists>s cs' c1 c2 vote1 vote2.
      client_steps (main_server, [1 \<mapsto> new_client 1 3 [(5, ''7'')], 2 \<mapsto> new_client 2 3 [(5, ''8''), (6, ''9'')]])
        [1, 2, 2, 1, 2, 2, 1] = Some (s, cs')
    \<and> cs' 1 = Some c1 \<and> cs' 2 = Some c2 \<and> cl_phase c1 = Decided vote1 \<and> cl_phase c2 = Decided vote2
    \<and> \<not> (vote1 \<and> vote2) \<and> (vote1 \<longrightarrow> get s 5 3 = Some ''7'') \<and> (vote2 \<longrightarrow> get s 6 3 = Some ''9'')"
proof -
  let ?cs = "[1 \<mapsto> new_client 1 3 [(5, ''7'')], 2 \<mapsto> new_client 2 3 [(5, ''8''), (6, ''9'')]] :: u64 \<rightharpoonup> client"
  let ?tids = "[1, 2, 2, 1, 2, 2, 1] :: u64 list"
  have "\<exists>ts ws. c = new_client tid ts ws \<and> ts \<noteq> 0 \<and> ws \<noteq> []" if "?cs tid = Some c" for tid c
    using that by (cases "tid = 1"; cases "tid = 2") fastforce+
  from concurrent_transactions_isolated [of ?cs, OF this, of ?tids] obtain s cs' where
    r: "client_steps (main_server, ?cs) ?tids = Some (s, cs')"
    "\<forall>tid c. ?cs tid = Some c \<longrightarrow> (\<exists>c'. cs' tid = Some c' \<and> same_work c c'
         \<and> (length (cl_writes c) + 2 \<le> count_list ?tids tid \<longrightarrow> (\<exists>vote. cl_phase c' = Decided vote))
         \<and> (refused c' \<longrightarrow> conflicts ?cs tid c))"
    "\<forall>k t v. t \<noteq> 0 \<longrightarrow> (get s k t = Some v \<longleftrightarrow> (\<exists>tid. one_with cs' tid (\<lambda>c. author c k t v)))" "winners_ok cs'"
    by blast
  from r(2) [rule_format, of 1] obtain c1 vote1 where c1: "cs' 1 = Some c1" "cl_phase c1 = Decided vote1"
    "same_work (new_client 1 3 [(5, ''7'')]) c1" by (auto simp: new_client_def)
  from r(2) [rule_format, of 2] obtain c2 vote2 where c2: "cs' 2 = Some c2" "cl_phase c2 = Decided vote2"
    "same_work (new_client 2 3 [(5, ''8''), (6, ''9'')]) c2" by (auto simp: new_client_def)
  have w: "cl_writes c1 = [(5, ''7'')]" "cl_writes c2 = [(5, ''8''), (6, ''9'')]" "time_of c1 = 3" "time_of c2 = 3"
    using c1(3) c2(3) by (simp_all add: same_work_def new_client_def)
  then have "rival c1 c2" by (simp add: rival_def keys_of_def)
  moreover have "\<not> rival c1 c2" if "vote1" "vote2"
    using r(4) [unfolded winners_ok_def, rule_format, of 1 2 c1 c2] c1(1,2) c2(1,2) that by simp
  ultimately have "\<not> (vote1 \<and> vote2)" by blast
  moreover have three: "(3 :: u64) \<noteq> 0" by simp
  moreover have "vote1 \<longrightarrow> get s 5 3 = Some ''7''"
  proof
    assume "vote1"
    with c1(1,2) w have "one_with cs' 1 (\<lambda>c. author c 5 3 ''7'')" by (simp add: one_with_def author_def)
    with r(3) [rule_format, OF three, of 5 "''7''"] show "get s 5 3 = Some ''7''" by blast
  qed
  moreover have "vote2 \<longrightarrow> get s 6 3 = Some ''9''"
  proof
    assume "vote2"
    with c2(1,2) w have "one_with cs' 2 (\<lambda>c. author c 6 3 ''9'')" by (simp add: one_with_def author_def)
    with r(3) [rule_format, OF three, of 6 "''9''"] show "get s 6 3 = Some ''9''" by blast
  qed
  ultimately show ?thesis using r(1) c1(1,2) c2(1,2) by blast
qed

end
