(* ===== verification/Server_Threads.thy ===== *)
theory Server_Threads
  imports Server_Calls
begin

text \<open>
  The threads of the server at a finer grain: \<open>run\<close> of an event is a sequence of tasks, each of
  which is one access to what the threads share (the lock manager, the pending writes, the
  store, a handler), so that threads can take turns inside an event.
\<close>

section \<open>Tasks\<close>

text \<open>
  What a thread still has to do, innermost call first: the call of \<open>run\<close> of an event, the rest
  of the loop of \<open>P1CEvent::run\<close> and what follows it, the call of \<open>finalize\<close>, the reply.
\<close>

datatype task =
  Run event_id
| Lock_keys rid rpc_p1c_args_t "u64 list"
| Vote rid rpc_p1c_args_t bool
| Finalize u64 bool
| Reply rid

text \<open>The first phase of a read calls \<open>run\<close> again when the lock is granted.\<close>

definition read_task :: "tserver \<Rightarrow> event_id \<Rightarrow> server_event \<Rightarrow> rpc_read_args_t \<Rightarrow> (tserver \<times> task list) res" where
  "read_task s ev e a =
    (if se_phase e = 0 then
       and_then (need LockFailure
         (tryBackwardLock (ts_locks s) (ra_key (rr_args a)) (ra_tid (rr_args a))
            (ra_start_ts (rr_args a) - 1) True ev (ra_start_ts (rr_args a))))
         (\<lambda>(locks, granted, start).
            let a = a\<lparr>rr_args := (rr_args a)\<lparr>ra_start_ts := start\<rparr>\<rparr>;
                s = set_args (s\<lparr>ts_locks := locks\<rparr>) (se_rid e) (ARead a)
            in Inr (if granted then (set_phase s ev 1, [Run ev]) else (s, [])))
     else if se_phase e = 1 then
       let s = set_phase s ev 2;
           val = get s (ra_key (rr_args a)) (ra_start_ts (rr_args a) - 1);
           s = set_args s (se_rid e) (ARead (a\<lparr>rr_value := val\<rparr>))
       in and_then (need NullPointer val) (\<lambda>_. Inr (s, [Reply (se_rid e)]))
     else Inl BadPhase)"

definition write_task :: "tserver \<Rightarrow> event_id \<Rightarrow> server_event \<Rightarrow> rpc_write_args_t \<Rightarrow> (tserver \<times> task list) res" where
  "write_task s ev e a =
    (if se_phase e = 0 then
       Inr (add (set_phase s ev 1) (wa_tid (rw_args a)) (wa_key (rw_args a)) (wa_value (rw_args a)), [Reply (se_rid e)])
     else Inl BadPhase)"

definition p1c_task :: "tserver \<Rightarrow> event_id \<Rightarrow> server_event \<Rightarrow> rpc_p1c_args_t \<Rightarrow> (tserver \<times> task list) res" where
  "p1c_task s ev e a =
    (if se_phase e = 0 then
       Inr (set_phase s ev 1, [Lock_keys (se_rid e) a (getKeys s (p1_tid (rp1_args a)))])
     else Inl BadPhase)"

text \<open>\<open>freeze\<close> and \<open>unlock\<close> run the events that they have collected before they return.\<close>

definition p2c_task :: "tserver \<Rightarrow> event_id \<Rightarrow> server_event \<Rightarrow> rpc_p2c_args_t \<Rightarrow> (tserver \<times> task list) res" where
  "p2c_task s ev e a =
    (if se_phase e = 0 then
       let tid = p2_tid (rp2_args a);
           vote = p2_vote (rp2_args a)
       in and_then (need LockFailure (if vote then freeze (ts_locks s) tid else unlock (ts_locks s) tid))
            (\<lambda>(locks, events). Inr ((set_phase s ev 1)\<lparr>ts_locks := locks\<rparr>,
               map Run events @ [Finalize tid vote, Reply (se_rid e)]))
     else if se_phase e = 1 then Inl BadPhase
     else Inr (s, []))"

definition task_step :: "tserver \<Rightarrow> task \<Rightarrow> (tserver \<times> task list) res" where
  "task_step s t =
    (case t of
       Run ev \<Rightarrow>
         and_then (need NullPointer (ts_events s ev)) (\<lambda>e.
         and_then (args_of s (se_rid e)) (\<lambda>args.
           case (se_kind e, args) of
             (TREAD, ARead a) \<Rightarrow> read_task s ev e a
           | (TWRITE, AWrite a) \<Rightarrow> write_task s ev e a
           | (TP1C, AP1C a) \<Rightarrow> p1c_task s ev e a
           | (TP2C, AP2C a) \<Rightarrow> p2c_task s ev e a
           | _ \<Rightarrow> Inl BadCast))
     | Lock_keys r a [] \<Rightarrow> Inr (s, [Vote r a True])
     | Lock_keys r a (key # keys) \<Rightarrow>
         and_then (need LockFailure (tryLock (ts_locks s) key (p1_tid (rp1_args a))
             (p1_start_ts (rp1_args a)) (p1_commit_ts (rp1_args a)) False))
           (\<lambda>(locks, granted). Inr (s\<lparr>ts_locks := locks\<rparr>,
              [if granted then Lock_keys r a keys else Vote r a False]))
     | Vote r a res \<Rightarrow>
         let nodes = insert_all (p1_read_nodes (rp1_args a)) (rp1_nodes a);
             nodes = insert_all (p1_write_nodes (rp1_args a)) nodes;
             s = set_args s r (AP1C (a\<lparr>rp1_nodes := nodes, rp1_vote := Some res\<rparr>))
         in Inr (prepare s (p1_tid (rp1_args a)) (p1_commit_ts (rp1_args a)), [Reply r])
     | Finalize tid vote \<Rightarrow> Inr (finalize s tid vote, [])
     | Reply r \<Rightarrow> and_then (server_sendReply s r) (\<lambda>s. Inr (s, [])))"

section \<open>A thread that is alone\<close>

fun alone :: "nat \<Rightarrow> tserver \<Rightarrow> task list \<Rightarrow> (tserver \<times> task list) res" where
  "alone 0 s ts = Inr (s, ts)"
| "alone (Suc n) s [] = Inr (s, [])"
| "alone (Suc n) s (t # ts) = and_then (task_step s t) (\<lambda>(s, new). alone n s (new @ ts))"

text \<open>The tasks are all done, or the process ends, whatever comes after them.\<close>

definition leads :: "tserver \<Rightarrow> task list \<Rightarrow> tserver res \<Rightarrow> bool" where
  "leads s ts res \<longleftrightarrow> (\<exists>n. \<forall>m rest. alone (n + m) s (ts @ rest) =
     (case res of Inl f \<Rightarrow> Inl f | Inr s' \<Rightarrow> alone m s' rest))"

lemma leads_Nil: "leads s [] (Inr s)"
  unfolding leads_def by (rule exI [of _ 0]) simp

lemma leads_step:
  assumes "task_step s t = Inr (s1, new)" "leads s1 (new @ ts) res"
  shows "leads s (t # ts) res"
proof -
  from assms(2) obtain n where "\<forall>m rest. alone (n + m) s1 ((new @ ts) @ rest) =
    (case res of Inl f \<Rightarrow> Inl f | Inr s' \<Rightarrow> alone m s' rest)" unfolding leads_def by blast
  with assms(1) show ?thesis unfolding leads_def by (intro exI [of _ "Suc n"]) simp
qed

lemma leads_fail: "task_step s t = Inl f \<Longrightarrow> leads s (t # ts) (Inl f)"
  unfolding leads_def by (rule exI [of _ 1]) simp

lemma leads_append:
  assumes "leads s ts (Inr s1)" "leads s1 us res"
  shows "leads s (ts @ us) res"
proof -
  from assms obtain n n' where
    "\<forall>m rest. alone (n + m) s (ts @ rest) = alone m s1 rest"
    "\<forall>m rest. alone (n' + m) s1 (us @ rest) = (case res of Inl f \<Rightarrow> Inl f | Inr s' \<Rightarrow> alone m s' rest)"
    unfolding leads_def by auto
  then show ?thesis unfolding leads_def by (intro exI [of _ "n + n'"]) (simp add: add.assoc)
qed

lemma leads_append_fail:
  assumes "leads s ts (Inl f)"
  shows "leads s (ts @ us) (Inl f)"
  using assms unfolding leads_def by auto

text \<open>The events agree with their tasks, one class after the other.\<close>

lemma reply_leads: "leads s [Reply r] (server_sendReply s r)"
proof (cases "server_sendReply s r")
  case (Inl f)
  then show ?thesis by (simp add: leads_fail task_step_def)
next
  case (Inr s')
  then have "task_step s (Reply r) = Inr (s', [])" by (simp add: task_step_def)
  from leads_step [OF this, of "[]"] Inr show ?thesis by (simp add: leads_Nil)
qed

lemma lock_keys_leads:
  "case lock_keys (ts_locks s) (p1_tid (rp1_args a)) (p1_start_ts (rp1_args a)) (p1_commit_ts (rp1_args a)) keys of
     None \<Rightarrow> leads s (Lock_keys r a keys # ts) (Inl LockFailure)
   | Some (m, res) \<Rightarrow> \<forall>out. leads (s\<lparr>ts_locks := m\<rparr>) (Vote r a res # ts) out \<longrightarrow> leads s (Lock_keys r a keys # ts) out"
proof (induction keys arbitrary: s)
  case Nil
  have "task_step s (Lock_keys r a []) = Inr (s, [Vote r a True])" by (simp add: task_step_def)
  from leads_step [OF this] show ?case by simp
next
  case (Cons key keys)
  let ?lock = "tryLock (ts_locks s) key (p1_tid (rp1_args a)) (p1_start_ts (rp1_args a)) (p1_commit_ts (rp1_args a)) False"
  show ?case
  proof (cases ?lock)
    case None
    then show ?thesis by (simp add: task_step_def leads_fail)
  next
    case (Some mb)
    obtain m granted where mb: "mb = (m, granted)" by (cases mb)
    with Some have "task_step s (Lock_keys r a (key # keys)) =
      Inr (s\<lparr>ts_locks := m\<rparr>, [if granted then Lock_keys r a keys else Vote r a False])"
      by (simp add: task_step_def)
    note step = leads_step [OF this]
    show ?thesis
    proof (cases granted)
      case True
      with Some mb Cons.IH [of "s\<lparr>ts_locks := m\<rparr>"] step show ?thesis by (auto split: option.splits)
    next
      case False
      with Some mb step show ?thesis by simp
    qed
  qed
qed

text \<open>An event with its arguments, as \<open>run\<close> finds them.\<close>

definition called :: "tserver \<Rightarrow> event_id \<Rightarrow> server_event \<Rightarrow> handler_args \<Rightarrow> bool" where
  "called s ev e args \<longleftrightarrow> ts_events s ev = Some e \<and> args_of s (se_rid e) = Inr args"

lemma called_step:
  assumes "called s ev e args"
  shows "task_step s (Run ev) =
    (case (se_kind e, args) of
       (TREAD, ARead a) \<Rightarrow> read_task s ev e a
     | (TWRITE, AWrite a) \<Rightarrow> write_task s ev e a
     | (TP1C, AP1C a) \<Rightarrow> p1c_task s ev e a
     | (TP2C, AP2C a) \<Rightarrow> p2c_task s ev e a
     | _ \<Rightarrow> Inl BadCast)"
  using assms by (simp add: called_def task_step_def)

lemma value_leads:
  assumes "called s ev e (ARead a)" "se_kind e = TREAD" "se_phase e = 1"
  shows "leads s [Run ev] (read_phase_1 s ev e a)"
proof -
  let ?val = "get (set_phase s ev 2) (ra_key (rr_args a)) (ra_start_ts (rr_args a) - 1)"
  let ?s = "set_args (set_phase s ev 2) (se_rid e) (ARead (a\<lparr>rr_value := ?val\<rparr>))"
  have step: "task_step s (Run ev) = and_then (need NullPointer ?val) (\<lambda>_. Inr (?s, [Reply (se_rid e)]))"
    using called_step [OF assms(1)] assms(2,3) by (simp add: read_task_def Let_def)
  show ?thesis
  proof (cases ?val)
    case None
    with step show ?thesis by (simp add: read_phase_1_def Let_def leads_fail)
  next
    case (Some v)
    with step have "task_step s (Run ev) = Inr (?s, [Reply (se_rid e)])" by simp
    from leads_step [OF this, of "[]"] reply_leads [of ?s] Some show ?thesis by (simp add: read_phase_1_def Let_def)
  qed
qed

lemma called_granted:
  assumes "called s ev e args"
  shows "called (set_phase (set_args (s\<lparr>ts_locks := m\<rparr>) (se_rid e) args') ev p) ev (e\<lparr>se_phase := p\<rparr>) args'"
  using assms by (auto simp: called_def args_of_def set_phase_def set_args_def need_def split: option.splits)

lemma read_leads:
  assumes "called s ev e (ARead a)" "se_kind e = TREAD"
  shows "leads s [Run ev] (run_read s ev e a)"
proof -
  note step = called_step [OF assms(1)]
  let ?lock = "tryBackwardLock (ts_locks s) (ra_key (rr_args a)) (ra_tid (rr_args a))
    (ra_start_ts (rr_args a) - 1) True ev (ra_start_ts (rr_args a))"
  consider "se_phase e = 0" | "se_phase e = 1" | "se_phase e \<noteq> 0" "se_phase e \<noteq> 1" by blast
  then show ?thesis
  proof cases
    case 1
    show ?thesis
    proof (cases ?lock)
      case None
      with 1 step assms(2) show ?thesis by (simp add: read_task_def run_read_def leads_fail)
    next
      case (Some x)
      obtain m granted start where x: "x = (m, granted, start)" by (cases x)
      let ?a = "a\<lparr>rr_args := (rr_args a)\<lparr>ra_start_ts := start\<rparr>\<rparr>"
      let ?s = "set_args (s\<lparr>ts_locks := m\<rparr>) (se_rid e) (ARead ?a)"
      have "task_step s (Run ev) = Inr (if granted then (set_phase ?s ev 1, [Run ev]) else (?s, []))"
        using 1 step assms(2) Some x by (simp add: read_task_def Let_def)
      moreover have "leads (set_phase ?s ev 1) [Run ev] (read_phase_1 (set_phase ?s ev 1) ev (e\<lparr>se_phase := 1\<rparr>) ?a)"
        by (rule value_leads [OF called_granted [OF assms(1)]]) (simp_all add: assms(2))
      ultimately show ?thesis using 1 Some x leads_step [of s "Run ev" _ _ "[]"] leads_Nil [of ?s]
        by (simp add: run_read_def read_phase_1_def Let_def split: if_splits)
    qed
  next
    case 2
    with value_leads [OF assms] show ?thesis by (simp add: run_read_def)
  next
    case 3
    with step assms(2) show ?thesis by (simp add: read_task_def run_read_def leads_fail)
  qed
qed

lemma write_leads:
  assumes "called s ev e (AWrite a)" "se_kind e = TWRITE"
  shows "leads s [Run ev] (run_write s ev e a)"
proof (cases "se_phase e = 0")
  case True
  let ?s = "add (set_phase s ev 1) (wa_tid (rw_args a)) (wa_key (rw_args a)) (wa_value (rw_args a))"
  have "task_step s (Run ev) = Inr (?s, [Reply (se_rid e)])"
    using called_step [OF assms(1)] assms(2) True by (simp add: write_task_def)
  from leads_step [OF this, of "[]"] reply_leads [of ?s] True show ?thesis by (simp add: run_write_def Let_def)
next
  case False
  with called_step [OF assms(1)] assms(2) show ?thesis by (simp add: write_task_def run_write_def leads_fail)
qed

lemma p1c_leads:
  assumes "called s ev e (AP1C a)" "se_kind e = TP1C"
  shows "leads s [Run ev] (run_p1c s ev e a)"
proof (cases "se_phase e = 0")
  case True
  let ?tid = "p1_tid (rp1_args a)" and ?s = "set_phase s ev 1"
  have "task_step s (Run ev) = Inr (?s, [Lock_keys (se_rid e) a (getKeys s ?tid)])"
    using called_step [OF assms(1)] assms(2) True by (simp add: p1c_task_def)
  note step = leads_step [OF this, of "[]", simplified]
  have l: "ts_locks ?s = ts_locks s" by (simp add: set_phase_def split: option.split)
  note keys = lock_keys_leads [where s = ?s and a = a and keys = "getKeys s ?tid" and r = "se_rid e" and ts = "[]", unfolded l]
  show ?thesis
  proof (cases "lock_keys (ts_locks s) ?tid (p1_start_ts (rp1_args a)) (p1_commit_ts (rp1_args a)) (getKeys s ?tid)")
    case None
    with keys step True show ?thesis by (simp add: run_p1c_def Let_def l)
  next
    case (Some x)
    obtain m res where x: "x = (m, res)" by (cases x)
    have "leads (?s\<lparr>ts_locks := m\<rparr>) [Vote (se_rid e) a res] (run_p1c s ev e a)"
      by (rule leads_step [where ts = "[]", simplified]) (use Some x True reply_leads in \<open>simp_all add: task_step_def run_p1c_def Let_def l\<close>)
    with keys step Some x show ?thesis by simp
  qed
next
  case False
  with called_step [OF assms(1)] assms(2) show ?thesis by (simp add: p1c_task_def run_p1c_def leads_fail)
qed

lemma events_lead:
  assumes "\<And>s ev. run s ev \<noteq> Inl OutOfFuel \<Longrightarrow> leads s [Run ev] (run s ev)"
  shows "run_list run s evs \<noteq> Inl OutOfFuel \<Longrightarrow> leads s (map Run evs) (run_list run s evs)"
proof (induction evs arbitrary: s)
  case Nil
  then show ?case by (simp add: leads_Nil)
next
  case (Cons ev evs)
  show ?case
  proof (cases "run s ev")
    case (Inl f)
    with Cons.prems assms [of s ev] leads_append_fail [of s "[Run ev]" f "map Run evs"] show ?thesis by simp
  next
    case (Inr s1)
    with Cons.prems Cons.IH [of s1] assms [of s ev] leads_append [of s "[Run ev]" s1 "map Run evs"] show ?thesis by simp
  qed
qed

lemma p2c_leads:
  assumes "called s ev e (AP2C a)" "se_kind e = TP2C" "run_p2c run s ev e a \<noteq> Inl OutOfFuel"
    and "\<And>s ev. run s ev \<noteq> Inl OutOfFuel \<Longrightarrow> leads s [Run ev] (run s ev)"
  shows "leads s [Run ev] (run_p2c run s ev e a)"
proof (cases "se_phase e = 0")
  case True
  let ?tid = "p2_tid (rp2_args a)" and ?vote = "p2_vote (rp2_args a)" and ?s = "set_phase s ev 1"
  have l: "ts_locks ?s = ts_locks s" by (simp add: set_phase_def split: option.split)
  note step = called_step [OF assms(1)]
  show ?thesis
  proof (cases "if ?vote then freeze (ts_locks s) ?tid else unlock (ts_locks s) ?tid")
    case None
    with step assms(2) True show ?thesis by (simp add: p2c_task_def run_p2c_def Let_def l leads_fail cong: if_cong)
  next
    case (Some x)
    obtain m events where x: "x = (m, events)" by (cases x)
    let ?s1 = "?s\<lparr>ts_locks := m\<rparr>"
    have "task_step s (Run ev) = Inr (?s1, map Run events @ [Finalize ?tid ?vote, Reply (se_rid e)])"
      using step assms(2) True Some x by (simp add: p2c_task_def Let_def cong: if_cong)
    note step1 = leads_step [OF this, of "[]", simplified]
    have run: "run_p2c run s ev e a = and_then (run_list run ?s1 events) (\<lambda>s. server_sendReply (finalize s ?tid ?vote) (se_rid e))"
      using True Some x by (simp add: run_p2c_def Let_def l cong: if_cong)
    with assms(3) have "run_list run ?s1 events \<noteq> Inl OutOfFuel" by auto
    from events_lead [OF assms(4) this] have evs: "leads ?s1 (map Run events) (run_list run ?s1 events)" .
    show ?thesis
    proof (cases "run_list run ?s1 events")
      case (Inl f)
      with evs run step1 leads_append_fail show ?thesis by simp
    next
      case (Inr s2)
      have "task_step s2 (Finalize ?tid ?vote) = Inr (finalize s2 ?tid ?vote, [])" by (simp add: task_step_def)
      from leads_step [OF this, of "[Reply (se_rid e)]"] reply_leads
      have "leads s2 [Finalize ?tid ?vote, Reply (se_rid e)] (server_sendReply (finalize s2 ?tid ?vote) (se_rid e))" by simp
      with Inr evs run step1 leads_append show ?thesis by simp
    qed
  qed
next
  case False
  with called_step [OF assms(1)] assms(2) leads_Nil [of s] leads_step [of s "Run ev" s "[]" "[]"] show ?thesis
    by (simp add: p2c_task_def run_p2c_def leads_fail)
qed

lemma run_leads: "run_event d s ev \<noteq> Inl OutOfFuel \<Longrightarrow> leads s [Run ev] (run_event d s ev)"
proof (induction d arbitrary: s ev)
  case (Suc d)
  show ?case
  proof (cases "ts_events s ev")
    case None
    then show ?thesis by (simp add: task_step_def leads_fail)
  next
    case (Some e)
    show ?thesis
    proof (cases "args_of s (se_rid e)")
      case (Inl f)
      with Some show ?thesis by (simp add: task_step_def leads_fail)
    next
      case (Inr args)
      with Some have c: "called s ev e args" by (simp add: called_def)
      have p2c: "leads s [Run ev] (run_p2c (run_event d) s ev e a)" if "args = AP2C a" "se_kind e = TP2C" for a
        by (rule p2c_leads [OF c [unfolded that(1)] that(2) _ Suc.IH]) (use Suc.prems Some Inr that in simp_all)
      show ?thesis
        using Some Inr read_leads [of s ev e] write_leads [of s ev e] p1c_leads [of s ev e] p2c c called_step [OF c]
        by (cases args; cases "se_kind e") (simp_all add: leads_fail)
    qed
  qed
qed simp

text \<open>
  C17: a thread that carries out an event task by task, undisturbed, does what the model of
  whole events says: it comes to the same state with nothing left to do, or ends the process
  with the same failure.
\<close>
theorem tasks_run_event:
  assumes "run_event d s ev \<noteq> Inl OutOfFuel"
  shows "\<exists>n. \<forall>m\<ge>n. alone m s [Run ev] =
    (case run_event d s ev of Inl f \<Rightarrow> Inl f | Inr s' \<Rightarrow> Inr (s', []))"
proof -
  from run_leads [OF assms] obtain n where
    n: "\<And>m. alone (n + m) s [Run ev] = (case run_event d s ev of Inl f \<Rightarrow> Inl f | Inr s' \<Rightarrow> alone m s' [])"
    unfolding leads_def by (metis append_Nil2)
  have "alone m s' [] = Inr (s', [])" for m s' by (cases m) simp_all
  then have "alone (n + m) s [Run ev] = (case run_event d s ev of Inl f \<Rightarrow> Inl f | Inr s' \<Rightarrow> Inr (s', []))" for m
    by (simp add: n split: sum.split)
  then show ?thesis by (metis le_Suc_ex)
qed

theorem tasks_run_event_witness:
  "\<exists>s s' n. alone n s [Run 2] = Inr (s', []) \<and> get s 5 3 = None \<and> get s' 5 3 = Some ''7''"
proof -
  from contended [of True] obtain s e where s: "server_inv s" "prepared_state s" "ready s 2 e (AP2C (decide_args True))"
    by blast
  note p = prepared_stateD [OF s(2)]
  from commit_event_ok [OF s(1,3) _ _ p(1-3)] obtain s' where
    r: "run_event 2 s 2 = Inr s'" "get s' 5 3 = map_of (rev (the (ts_pend_writes s 1))) 5"
    using p(4) by (auto simp del: run_event.simps)
  from tasks_run_event [of 2 s 2] r(1) obtain n where "alone n s [Run 2] = Inr (s', [])"
    by (auto simp del: run_event.simps)
  with r(2) p(5) s(2) show ?thesis by (auto simp: prepared_state_def)
qed

section \<open>A read in the middle of a commit\<close>

lemma freeze_cell_passes: "passes True (fst (freeze_cell tid c)) \<longleftrightarrow> passes True (fst c) \<and> \<not> (tid \<in> snd c \<and> fst c = WRITE_LOCK)"
  by (auto simp: freeze_cell_def passes_def)

lemma freeze_task:
  assumes "ready s ev e (AP2C b)" "p2_vote (rp2_args b)" "p2_tid (rp2_args b) = tid"
    and "freeze (ts_locks s) tid = Some (m, [])"
  shows "task_step s (Run ev) = Inr ((set_phase s ev 1)\<lparr>ts_locks := m\<rparr>, [Finalize tid True, Reply (se_rid e)])"
proof -
  have "called s ev e (AP2C b)" "se_kind e = TP2C" "se_phase e = 0"
    using assms(1) by (auto simp: ready_def called_def args_of_def request_of_def split: option.splits)
  with called_step [of s ev e "AP2C b"] assms(2-4) show ?thesis by (simp add: p2c_task_def Let_def cong: if_cong)
qed

text \<open>
  C16: two threads break a commit that nobody waits for: when another thread runs a read of a
  written key after the thread that commits has frozen the locks and before it has stored the
  versions, the read gets its locks and then dereferences a null pointer; the same read after
  the whole commit is answered with the version.
\<close>
theorem commit_race_crashes:
  assumes "lm_inv (ts_locks s)" "registered (ts_locks s) = {}"
    and "ready s ev e (ARead a)" "latest_write s (ra_key (rr_args a)) (ra_start_ts (rr_args a)) stop"
    and "lock_at (ts_locks s) (ra_key (rr_args a)) stop = (WRITE_LOCK, {tid})"
    and "get s (ra_key (rr_args a)) stop = None"
    and "ready s ev2 e2 (AP2C b)" "p2_vote (rp2_args b)" "p2_tid (rp2_args b) = tid"
  shows "\<exists>s1 s2. task_step s (Run ev2) = Inr (s1, [Finalize tid True, Reply (se_rid e2)])
    \<and> task_step s1 (Run ev) = Inr (s2, [Run ev]) \<and> task_step s2 (Run ev) = Inl NullPointer"
proof -
  let ?key = "ra_key (rr_args a)" and ?ts = "ra_start_ts (rr_args a)"
  from freeze_ok [OF assms(1), of tid] obtain m events where
    f: "freeze (ts_locks s) tid = Some (m, events)" "lm_inv m" "\<forall>k t. lock_at m k t = freeze_cell tid (lock_at (ts_locks s) k t)"
    by blast
  with freeze_events [OF f(1)] assms(2) have f0: "freeze (ts_locks s) tid = Some (m, [])" by simp
  let ?s1 = "(set_phase s ev2 1)\<lparr>ts_locks := m\<rparr>"
  have ne: "ev2 \<noteq> ev" using assms(3,7) by (auto simp: ready_def request_of_def split: option.splits)
  have rd: "ready ?s1 ev e (ARead a)" using assms(3) ne by (auto simp: ready_def set_phase_def split: option.splits)
  then have c: "called ?s1 ev e (ARead a)" "se_kind e = TREAD" "se_phase e = 0"
    by (auto simp: ready_def called_def args_of_def request_of_def split: option.splits)
  have lw: "stop < ?ts" "\<forall>t. stop < t \<and> t < ?ts \<longrightarrow> passes True (fst (lock_at (ts_locks s) ?key t))"
    using assms(4) by (auto simp: latest_write_def)
  then have nz: "?ts - 1 \<noteq> - 1" by auto
  have pred: "t \<le> ?ts - 1 \<longleftrightarrow> t < ?ts" for t using lw(1) by (intro le_pred_iff) auto
  have fz: "fst (lock_at m ?key stop) = FREEZE_WRITE_LOCK" using f(3) assms(5) by (simp add: freeze_cell_def)
  from avl.backward_law [OF f(2) nz, of ?key "ra_tid (rr_args a)" True ev ?ts] obtain m' stop' where
    t: "tryBackwardLock m ?key (ra_tid (rr_args a)) (?ts - 1) True ev ?ts
      = Some (m', \<not> waits True (fst (lock_at m ?key stop')), stop' + 1)" "stop' \<le> ?ts - 1"
    "\<not> passes True (fst (lock_at m ?key stop'))" "\<forall>t. stop' < t \<and> t \<le> ?ts - 1 \<longrightarrow> passes True (fst (lock_at m ?key t))"
    by blast
  have "stop' = stop"
  proof (rule ccontr)
    assume "stop' \<noteq> stop"
    then consider "stop' < stop" | "stop < stop'" by fastforce
    then show False
    proof cases
      case 1
      with t(4) lw(1) pred fz show False by (auto simp: passes_def)
    next
      case 2
      with lw(2) t(2) pred have "passes True (fst (lock_at (ts_locks s) ?key stop'))" by blast
      moreover from this have "fst (lock_at (ts_locks s) ?key stop') \<noteq> WRITE_LOCK" by (auto simp: passes_def)
      ultimately show False using t(3) f(3) freeze_cell_passes [of tid] by simp
    qed
  qed
  let ?a = "a\<lparr>rr_args := (rr_args a)\<lparr>ra_start_ts := stop + 1\<rparr>\<rparr>"
  let ?s2 = "set_phase (set_args (?s1\<lparr>ts_locks := m'\<rparr>) (se_rid e) (ARead ?a)) ev 1"
  have "task_step ?s1 (Run ev) = Inr (?s2, [Run ev])"
    using called_step [OF c(1)] c(2,3) t(1) \<open>stop' = stop\<close> fz by (simp add: read_task_def Let_def waits_def)
  moreover have "task_step ?s2 (Run ev) = Inl NullPointer"
  proof -
    have "called ?s2 ev (e\<lparr>se_phase := 1\<rparr>) (ARead ?a)" by (rule called_granted [OF c(1)])
    moreover have "same_data (?s1\<lparr>ts_locks := m'\<rparr>) (set_phase ?s2 ev 2)"
      by (rule same_data_trans [OF same_data_trans [OF same_data_set_args same_data_set_phase] same_data_set_phase])
    then have "get (set_phase ?s2 ev 2) = get s"
      using same_data_get [of "?s1\<lparr>ts_locks := m'\<rparr>"] same_data_get [of s "set_phase s ev2 1"] by simp
    ultimately show ?thesis using called_step [of ?s2 ev "e\<lparr>se_phase := 1\<rparr>" "ARead ?a"] c(2) assms(6)
      by (simp add: read_task_def Let_def)
  qed
  ultimately show ?thesis using freeze_task [OF assms(7-9) f0] by blast
qed

theorem commit_race_crashes_witness:
  "\<exists>s s1 s2 r. server_inv s \<and> task_step s (Run 2) = Inr (s1, [Finalize 1 True, Reply r])
    \<and> task_step s1 (Run 3) = Inr (s2, [Run 3]) \<and> task_step s2 (Run 3) = Inl NullPointer"
proof -
  from contended [of True] obtain s e e2 where s: "server_inv s" "registered (ts_locks s) = {}" "prepared_state s"
    "ready s 2 e (AP2C (decide_args True))" "ready s 3 e2 (ARead (read_args 5))" by blast
  have a: "ra_key (rr_args (read_args 5)) = 5" "ra_start_ts (rr_args (read_args 5)) = 5" by (simp_all add: read_args_def)
  have "lm_inv (ts_locks s)" using data_inv_locks [OF server_inv_data [OF s(1)]] .
  from commit_race_crashes [OF this s(2,5) _ _ _ s(4), of 3 1] contended_latest [OF s(3)] s(1,3) a show ?thesis
    by (auto simp: prepared_state_def)
qed

end
