(* ===== verification/Sessions.thy ===== *)
theory Sessions
  imports Server_Threads Concurrent_Transactions
begin

text \<open>
  Many coordinators at once against the threads of the server: every request is served by a
  thread of its own, and the threads take turns after every task.  Transactions of writes stay
  isolated even so.
\<close>

section \<open>Sessions\<close>

text \<open>A client, the handler of its request, and what the thread that serves it has to do.\<close>

record session =
  ss_client :: client
  ss_rid :: rid
  ss_tasks :: "task list"

definition new_session :: "client \<Rightarrow> session" where
  "new_session c = \<lparr>ss_client = c, ss_rid = 0, ss_tasks = []\<rparr>"

text \<open>
  A turn of a session: without a request under way, the client sends the next one and an idle
  thread makes it an event; otherwise the thread carries out its next task, and after the last
  one the client gets the reply.  There is no next state when the process ends or does not
  answer.
\<close>

definition send_request :: "tserver \<Rightarrow> session \<Rightarrow> request_msg \<Rightarrow> (tserver \<times> session) option" where
  "send_request s se m =
    (case free_handler (ts_rpc s) (msg_type m) of
       None \<Rightarrow> None
     | Some r \<Rightarrow>
         (case arrive s (r, Some m) of
            Inr (s', Some ev) \<Rightarrow> Some (s', se\<lparr>ss_rid := r, ss_tasks := [Run ev]\<rparr>)
          | _ \<Rightarrow> None))"

definition serve :: "tserver \<Rightarrow> session \<Rightarrow> task \<Rightarrow> task list \<Rightarrow> (tserver \<times> session) option" where
  "serve s se t ts =
    (case task_step s t of
       Inl f \<Rightarrow> None
     | Inr (s', new) \<Rightarrow>
         if new @ ts \<noteq> [] then Some (s', se\<lparr>ss_tasks := new @ ts\<rparr>)
         else
           (case Option.bind (rs_handlers (ts_rpc s') (ss_rid se)) hd_reply of
              None \<Rightarrow> None
            | Some reply \<Rightarrow> Some (s', se\<lparr>ss_client := client_reply getNode (ss_client se) reply, ss_tasks := []\<rparr>)))"

definition session_turn :: "tserver \<Rightarrow> session \<Rightarrow> (tserver \<times> session) option" where
  "session_turn s se =
    (case ss_tasks se of
       [] \<Rightarrow> (case client_msg (ss_client se) of None \<Rightarrow> Some (s, se) | Some m \<Rightarrow> send_request s se m)
     | t # ts \<Rightarrow> serve s se t ts)"

fun session_turns :: "tserver \<times> (u64 \<rightharpoonup> session) \<Rightarrow> u64 list \<Rightarrow> (tserver \<times> (u64 \<rightharpoonup> session)) option" where
  "session_turns (s, ss) [] = Some (s, ss)"
| "session_turns (s, ss) (tid # tids) =
    (case ss tid of
       None \<Rightarrow> session_turns (s, ss) tids
     | Some se \<Rightarrow> Option.bind (session_turn s se) (\<lambda>(s, se). session_turns (s, ss(tid \<mapsto> se)) tids))"

section \<open>What threads leave alone\<close>

text \<open>A request that a handler serves for a transaction, and one whose event has not run yet.\<close>

definition args_tid :: "handler_args \<Rightarrow> u64" where
  "args_tid args = (case args of ARead a \<Rightarrow> ra_tid (rr_args a) | AWrite a \<Rightarrow> wa_tid (rw_args a)
     | AP1C a \<Rightarrow> p1_tid (rp1_args a) | AP2C a \<Rightarrow> p2_tid (rp2_args a))"

definition accepted :: "handler_args \<Rightarrow> bool" where
  "accepted args = (case args of ARead a \<Rightarrow> rr_status a \<noteq> None | AWrite a \<Rightarrow> rw_status a \<noteq> None
     | AP1C a \<Rightarrow> rp1_nodes a \<noteq> [] | AP2C a \<Rightarrow> rp2_nodes a \<noteq> [])"

definition in_service :: "tserver \<Rightarrow> rid \<Rightarrow> u64 \<Rightarrow> handler_args \<Rightarrow> bool" where
  "in_service s r tid args \<longleftrightarrow> processing s r args \<and> args_tid args = tid \<and> accepted args"

definition started :: "tserver \<Rightarrow> event_id \<Rightarrow> rid \<Rightarrow> u64 \<Rightarrow> handler_args \<Rightarrow> bool" where
  "started s ev r tid args \<longleftrightarrow> (\<exists>e. ready s ev e args \<and> se_rid e = r) \<and> in_service s r tid args"

lemma in_service_other:
  "in_service s r tid args \<Longrightarrow> in_service s r' tid' args' \<Longrightarrow> tid' \<noteq> tid \<Longrightarrow> r' \<noteq> r"
  by (auto simp: in_service_def processing_def split: option.splits)

lemma new_handler_not_accepted: "\<not> accepted (hd_args (new_handler req))"
  by (cases req) (simp_all add: accepted_def new_handler_defs)

lemma in_service_not_listening: "in_service s r tid args \<Longrightarrow> \<not> listening (ts_rpc s) r req"
  using new_handler_not_accepted by (auto simp: in_service_def processing_def listening_def)

text \<open>A step that only touches the handler \<open>r\<close> and the events that belong to it.\<close>

definition aside :: "tserver \<Rightarrow> tserver \<Rightarrow> rid \<Rightarrow> bool" where
  "aside s s' r \<longleftrightarrow> rest s s' r \<and> ts_next_event s' = ts_next_event s
     \<and> (\<forall>ev e. ts_events s ev = Some e \<longrightarrow> se_rid e \<noteq> r \<longrightarrow> ts_events s' ev = Some e)
     \<and> (\<forall>ev. ts_events s' ev \<noteq> None \<longrightarrow> ts_events s ev \<noteq> None)"

lemma aside_trans: "aside s s1 r \<Longrightarrow> aside s1 s2 r \<Longrightarrow> aside s s2 r"
  using rest_trans [of s s1 r s2] by (simp add: aside_def)

lemma asideI: "rest s s' r \<Longrightarrow> ts_next_event s' = ts_next_event s \<Longrightarrow> ts_events s' = ts_events s \<Longrightarrow> aside s s' r"
  by (simp add: aside_def)

lemma aside_set_phase:
  "ts_events s ev = Some e \<Longrightarrow> se_rid e = r \<Longrightarrow> aside s (set_phase s ev p) r"
  by (auto simp: aside_def rest_set_phase) (auto simp: set_phase_def split: if_splits)

lemma aside_set_args: "aside s (set_args s r x) r"
  by (rule asideI [OF rest_set_args]) (simp_all add: set_args_def split: option.split)

lemma aside_locks: "aside s (s\<lparr>ts_locks := m\<rparr>) r"
  by (rule asideI [OF rest_locks]) simp_all

lemma aside_add: "aside s (add s tid key val) r"
  by (rule asideI [OF rest_add]) (simp_all add: add_def Let_def)

lemma aside_prepare: "aside s (prepare s tid ts) r"
  by (rule asideI [OF rest_prepare]) (simp_all add: prepare_def)

lemma set_all_next_event: "ts_next_event (set_all s ts ws) = ts_next_event s"
  by (induction s ts ws rule: set_all.induct) (simp_all add: set_version_def Let_def)

lemma aside_finalize: "aside s (finalize s tid vote) r"
  by (rule asideI [OF rest_finalize]) (simp_all add: finalize_def Let_def set_all_next_event split: option.split)

lemma aside_sendReply: "server_sendReply s r = Inr s' \<Longrightarrow> aside s s' r"
  by (rule asideI [OF rest_sendReply]) (auto simp: server_sendReply_def and_then_eq_Inr_iff)

lemma polling_aside:
  assumes "polling s" "aside s s' r" "in_service s r tid args"
  shows "polling s'"
proof -
  have q: "ts_nodes s' = ts_nodes s" "ts_queue s' = ts_queue s" "ts_tid_locked s' = ts_tid_locked s"
    "ts_tid_write_locked s' = ts_tid_write_locked s" "rs_next (ts_rpc s') = rs_next (ts_rpc s)"
    "rs_request_queue (ts_rpc s') = rs_request_queue (ts_rpc s)"
    and h: "\<And>r'. r' \<noteq> r \<Longrightarrow> rs_handlers (ts_rpc s') r' = rs_handlers (ts_rpc s) r'"
    using assms(2) by (simp_all add: aside_def rest_def)
  note i = pollingD(1) [OF assms(1)]
  have r: "0 < r \<and> r < rs_next (ts_rpc s)"
    using i assms(3) by (auto simp: rpc_inv_def in_service_def processing_def split: option.splits)
  have "\<exists>r'. listening (ts_rpc s') r' req" for req
  proof -
    from rpc_inv_listening [OF i] obtain r' where r': "listening (ts_rpc s) r' req" by blast
    with in_service_not_listening [OF assms(3)] have "r' \<noteq> r" by auto
    with r' h q have "listening (ts_rpc s') r' req" by (simp add: listening_def)
    then show ?thesis by blast
  qed
  moreover have "0 < r' \<and> r' < rs_next (ts_rpc s')" if "rs_handlers (ts_rpc s') r' \<noteq> None" for r'
    using that i r q(5) h [of r'] by (cases "r' = r") (auto simp: rpc_inv_def)
  ultimately show ?thesis using assms(1) i q by (simp add: polling_def rpc_inv_def)
qed

text \<open>What the threads of other transactions rely on.\<close>

definition undisturbed :: "tserver \<Rightarrow> tserver \<Rightarrow> u64 \<Rightarrow> bool" where
  "undisturbed s s' tid \<longleftrightarrow> others s s' tid
     \<and> (\<forall>tid' r args. tid' \<noteq> tid \<longrightarrow> in_service s r tid' args \<longrightarrow> in_service s' r tid' args)
     \<and> (\<forall>tid' ev r args. tid' \<noteq> tid \<longrightarrow> started s ev r tid' args \<longrightarrow> started s' ev r tid' args)
     \<and> (\<forall>tid' k t. tid' \<noteq> tid \<longrightarrow> lock_at (ts_locks s) k t = (WRITE_LOCK, {tid'}) \<longrightarrow>
          lock_at (ts_locks s') k t = (WRITE_LOCK, {tid'}))
     \<and> (\<forall>k t. lock_at (ts_locks s) k t = (FREEZE_WRITE_LOCK, {}) \<longrightarrow> lock_at (ts_locks s') k t = (FREEZE_WRITE_LOCK, {}))"

lemma undisturbed_aside:
  assumes "aside s s' r" "in_service s r tid args" "others s s' tid"
    and "\<And>tid' k t. tid' \<noteq> tid \<Longrightarrow> lock_at (ts_locks s) k t = (WRITE_LOCK, {tid'}) \<Longrightarrow>
      lock_at (ts_locks s') k t = (WRITE_LOCK, {tid'})"
    and "\<And>k t. lock_at (ts_locks s) k t = (FREEZE_WRITE_LOCK, {}) \<Longrightarrow> lock_at (ts_locks s') k t = (FREEZE_WRITE_LOCK, {})"
  shows "undisturbed s s' tid"
proof -
  have served: "in_service s' r' tid' args' \<and> r' \<noteq> r" if "in_service s r' tid' args'" "tid' \<noteq> tid" for tid' r' args'
    using in_service_other [OF assms(2) that] that(1) assms(1)
    by (simp add: in_service_def processing_def aside_def rest_def)
  have "started s' ev r' tid' args'" if st: "started s ev r' tid' args'" "tid' \<noteq> tid" for ev tid' r' args'
  proof -
    from st(1) obtain e where e: "ready s ev e args'" "se_rid e = r'" and i: "in_service s r' tid' args'"
      by (auto simp: started_def)
    from served [OF i st(2)] have i': "in_service s' r' tid' args'" "r' \<noteq> r" by simp_all
    with e assms(1) have "ready s' ev e args'" by (simp add: ready_def aside_def rest_def)
    with e(2) i' show ?thesis by (auto simp: started_def)
  qed
  with served assms(3-5) show ?thesis by (simp add: undisturbed_def)
qed

lemma undisturbed_arrived:
  assumes "polling s" "listening (ts_rpc s) r req" "arrived s s1 r req" "others s s1 tid"
    and "\<forall>ev e. ts_events s ev = Some e \<longrightarrow> ev < ts_next_event s"
  shows "undisturbed s s1 tid"
proof -
  have l: "ts_locks s1 = ts_locks s" using assms(3) by (simp add: arrived_def same_data_def)
  have served: "in_service s1 r' tid' args' \<and> r' \<noteq> r" if "in_service s r' tid' args'" for tid' r' args'
  proof -
    have "r' \<noteq> r" using in_service_not_listening [OF that] assms(2) by auto
    moreover have "r' \<noteq> rs_next (ts_rpc s)" using that pollingD(1) [OF assms(1)]
      by (auto simp: in_service_def processing_def rpc_inv_def split: option.splits)
    ultimately show ?thesis using that assms(3) by (simp add: in_service_def processing_def arrived_def)
  qed
  have "started s1 ev r' tid' args'" if "started s ev r' tid' args'" for ev tid' r' args'
  proof -
    from that obtain e where e: "ready s ev e args'" "se_rid e = r'" and i: "in_service s r' tid' args'"
      by (auto simp: started_def)
    then have "ev \<noteq> ts_next_event s" using assms(5) by (auto simp: ready_def)
    then have "ts_events s1 ev = Some e" using e(1) assms(3) by (simp add: ready_def arrived_def)
    moreover have "processing s1 r' args'" using served [OF i] by (simp add: in_service_def)
    ultimately have "ready s1 ev e args'" using e by (simp add: ready_def processing_def)
    with e(2) served [OF i] show ?thesis by (auto simp: started_def)
  qed
  with served assms(4) l show ?thesis by (simp add: undisturbed_def)
qed

section \<open>What holds at each point of a session\<close>

definition tables :: "tserver \<Rightarrow> u64 \<Rightarrow> u64 list option \<Rightarrow> u64 list option \<Rightarrow> (u64 \<times> string) list \<Rightarrow> u64 option \<Rightarrow> bool" where
  "tables s tid ns wns ws rdy \<longleftrightarrow> ts_tid_to_nodes s tid = ns \<and> ts_tid_to_write_nodes s tid = wns
     \<and> pending s tid = ws \<and> ts_rdy_to_commit s tid = rdy"

definition owns :: "tserver \<Rightarrow> u64 \<Rightarrow> u64 \<Rightarrow> u64 set \<Rightarrow> bool" where
  "owns s tid t ks \<longleftrightarrow> (\<forall>k\<in>ks. lock_at (ts_locks s) k t = (WRITE_LOCK, {tid}))"

definition write_params :: "client \<Rightarrow> nat \<Rightarrow> handler_args" where
  "write_params c n = AWrite \<lparr>rw_args = \<lparr>wa_tid = co_tid (cl_coord c), wa_key = fst (cl_writes c ! n),
     wa_value = snd (cl_writes c ! n)\<rparr>, rw_status = Some True\<rparr>"

definition prepare_params :: "client \<Rightarrow> rpc_p1c_args_t" where
  "prepare_params c = \<lparr>rp1_args = \<lparr>p1_tid = co_tid (cl_coord c), p1_start_ts = time_of c, p1_commit_ts = time_of c,
     p1_read_nodes = [], p1_write_nodes = [0]\<rparr>, rp1_nodes = [0], rp1_vote = None\<rparr>"

definition decide_params :: "client \<Rightarrow> bool \<Rightarrow> rpc_p2c_args_t" where
  "decide_params c vote = \<lparr>rp2_args = \<lparr>p2_tid = co_tid (cl_coord c), p2_vote = vote\<rparr>, rp2_nodes = [0]\<rparr>"

text \<open>While the request of a write or of the first phase is served.\<close>

definition writing_ok :: "tserver \<Rightarrow> u64 \<Rightarrow> client \<Rightarrow> nat \<Rightarrow> bool" where
  "writing_ok s tid c m \<longleftrightarrow> tables s tid (Some [0]) (Some [0]) (take m (cl_writes c)) None
     \<and> (co_write_nodes (cl_coord c) = [] \<or> co_write_nodes (cl_coord c) = [0])"

definition preparing_ok :: "tserver \<Rightarrow> u64 \<Rightarrow> client \<Rightarrow> u64 option \<Rightarrow> bool" where
  "preparing_ok s tid c rdy \<longleftrightarrow> cl_phase c = Writing (length (cl_writes c)) \<and> co_write_nodes (cl_coord c) = [0]
     \<and> tables s tid (Some [0]) None (cl_writes c) rdy"

definition locked_all :: "tserver \<Rightarrow> u64 \<Rightarrow> client \<Rightarrow> bool" where
  "locked_all s tid c \<longleftrightarrow> distinct (map fst (cl_writes c)) \<and> owns s tid (time_of c) (keys_of c)"

definition frozen_all :: "tserver \<Rightarrow> client \<Rightarrow> bool" where
  "frozen_all s c \<longleftrightarrow> distinct (map fst (cl_writes c))
     \<and> (\<forall>k\<in>keys_of c. lock_at (ts_locks s) k (time_of c) = (FREEZE_WRITE_LOCK, {}))"

definition voted_ok :: "tserver \<Rightarrow> u64 \<Rightarrow> client \<Rightarrow> rid \<Rightarrow> bool" where
  "voted_ok s tid c r \<longleftrightarrow> (\<exists>vote. in_service s r tid (AP1C ((prepare_params c)\<lparr>rp1_vote := Some vote\<rparr>))
     \<and> (vote \<longrightarrow> locked_all s tid c))"

definition task_ok :: "tserver \<Rightarrow> u64 \<Rightarrow> session \<Rightarrow> task \<Rightarrow> task list \<Rightarrow> bool" where
  "task_ok s tid se t ts \<longleftrightarrow>
    (let c = ss_client se; r = ss_rid se
     in case t of
       Run ev \<Rightarrow> ts = []
         \<and> (case cl_phase c of
              Writing n \<Rightarrow>
                if n < length (cl_writes c) then started s ev r tid (write_params c n) \<and> writing_ok s tid c n
                else started s ev r tid (AP1C (prepare_params c)) \<and> preparing_ok s tid c None
            | Prepared vote \<Rightarrow> started s ev r tid (AP2C (decide_params c vote))
                \<and> tables s tid None None (cl_writes c) (Some (time_of c)) \<and> (vote \<longrightarrow> locked_all s tid c)
            | Decided vote \<Rightarrow> False)
     | Lock_keys r' a ks \<Rightarrow> ts = [] \<and> r' = r \<and> a = prepare_params c \<and> in_service s r tid (AP1C a) \<and> preparing_ok s tid c None
         \<and> (\<exists>done. map fst (cl_writes c) = done @ ks \<and> distinct done \<and> owns s tid (time_of c) (set done))
     | Vote r' a vote \<Rightarrow> ts = [] \<and> r' = r \<and> a = prepare_params c \<and> in_service s r tid (AP1C a) \<and> preparing_ok s tid c None
         \<and> (vote \<longrightarrow> locked_all s tid c)
     | Finalize tid' vote \<Rightarrow> ts = [Reply r] \<and> tid' = tid \<and> cl_phase c = Prepared vote
         \<and> in_service s r tid (AP2C (decide_params c vote))
         \<and> tables s tid None None (cl_writes c) (Some (time_of c)) \<and> (vote \<longrightarrow> frozen_all s c)
     | Reply r' \<Rightarrow> ts = [] \<and> r' = r
         \<and> (case cl_phase c of
              Writing n \<Rightarrow>
                if n < length (cl_writes c) then in_service s r tid (write_params c n) \<and> writing_ok s tid c (Suc n)
                else preparing_ok s tid c (Some (time_of c)) \<and> voted_ok s tid c r
            | Prepared vote \<Rightarrow> in_service s r tid (AP2C (decide_params c vote)) \<and> unknown s tid
                \<and> (vote \<longrightarrow> frozen_all s c)
            | Decided vote \<Rightarrow> False))"

definition session_ok :: "tserver \<Rightarrow> u64 \<Rightarrow> session \<Rightarrow> bool" where
  "session_ok s tid se \<longleftrightarrow> co_tid (cl_coord (ss_client se)) = tid \<and> time_of (ss_client se) \<noteq> 0
     \<and> cl_writes (ss_client se) \<noteq> [] \<and> co_read_nodes (cl_coord (ss_client se)) = []
     \<and> (case ss_tasks se of [] \<Rightarrow> client_ok s tid (ss_client se) | t # ts \<Rightarrow> task_ok s tid se t ts)"

text \<open>What other sessions see of a session: the cells that it locks or freezes, and its versions.\<close>

definition may_hold :: "session \<Rightarrow> u64 \<Rightarrow> bool" where
  "may_hold se k \<longleftrightarrow>
    (case ss_tasks se of
       [] \<Rightarrow> (\<exists>vote. cl_phase (ss_client se) = Prepared vote)
     | Run ev # _ \<Rightarrow> (\<exists>vote. cl_phase (ss_client se) = Prepared vote)
     | Lock_keys _ _ ks # _ \<Rightarrow> (let ws = cl_writes (ss_client se) in k \<in> fst ` set (take (length ws - length ks) ws))
     | Vote _ _ _ # _ \<Rightarrow> True
     | Finalize _ _ # _ \<Rightarrow> False
     | Reply _ # _ \<Rightarrow> cl_phase (ss_client se) = Writing (length (cl_writes (ss_client se))))"

definition freezing :: "session \<Rightarrow> bool" where
  "freezing se \<longleftrightarrow> (\<exists>tid ts. ss_tasks se = Finalize tid True # ts)"

definition stored :: "session \<Rightarrow> bool" where
  "stored se \<longleftrightarrow> cl_phase (ss_client se) = Decided True
     \<or> cl_phase (ss_client se) = Prepared True \<and> (\<exists>r. ss_tasks se = [Reply r])"

definition touches :: "session \<Rightarrow> u64 \<Rightarrow> u64 \<Rightarrow> bool" where
  "touches se k t \<longleftrightarrow> time_of (ss_client se) = t \<and> k \<in> keys_of (ss_client se)"

definition wrote :: "session \<Rightarrow> u64 \<Rightarrow> u64 \<Rightarrow> string \<Rightarrow> bool" where
  "wrote se k t v \<longleftrightarrow> time_of (ss_client se) = t \<and> (k, v) \<in> set (cl_writes (ss_client se))"

definition cell_inv :: "(u64 \<rightharpoonup> session) \<Rightarrow> tserver \<Rightarrow> u64 \<Rightarrow> u64 \<Rightarrow> bool" where
  "cell_inv ss s k t \<longleftrightarrow>
     (if get s k t \<noteq> None then lock_at (ts_locks s) k t = (FREEZE_WRITE_LOCK, {})
      else lock_at (ts_locks s) k t = (FREE, {})
        \<or> (\<exists>tid. lock_at (ts_locks s) k t = (WRITE_LOCK, {tid}) \<and> one_with ss tid (\<lambda>se. may_hold se k \<and> touches se k t))
        \<or> lock_at (ts_locks s) k t = (FREEZE_WRITE_LOCK, {}) \<and> (\<exists>tid. one_with ss tid (\<lambda>se. freezing se \<and> touches se k t)))"

definition versions_inv :: "(u64 \<rightharpoonup> session) \<Rightarrow> tserver \<Rightarrow> bool" where
  "versions_inv ss s \<longleftrightarrow> (\<forall>k t v. t \<noteq> 0 \<longrightarrow>
     (get s k t = Some v \<longleftrightarrow> (\<exists>tid. one_with ss tid (\<lambda>se. stored se \<and> wrote se k t v))))"

definition winners_inv :: "(u64 \<rightharpoonup> session) \<Rightarrow> bool" where
  "winners_inv ss \<longleftrightarrow> (\<forall>tid tid' se se'. tid \<noteq> tid' \<longrightarrow> ss tid = Some se \<longrightarrow> ss tid' = Some se' \<longrightarrow>
     freezing se \<or> stored se \<longrightarrow> freezing se' \<or> stored se' \<longrightarrow> \<not> rival (ss_client se) (ss_client se'))"

text \<open>A session that is refused, or will be.\<close>

definition denied :: "tserver \<Rightarrow> session \<Rightarrow> bool" where
  "denied s se \<longleftrightarrow> refused (ss_client se)
     \<or> (\<exists>r a ts. ss_tasks se = Vote r a False # ts)
     \<or> (\<exists>r. ss_tasks se = [Reply r] \<and> processing s r (AP1C ((prepare_params (ss_client se))\<lparr>rp1_vote := Some False\<rparr>)))"

definition sessions_inv :: "(u64 \<rightharpoonup> client) \<Rightarrow> (u64 \<rightharpoonup> session) \<Rightarrow> tserver \<Rightarrow> bool" where
  "sessions_inv cs ss s \<longleftrightarrow> polling s \<and> lm_inv (ts_locks s) \<and> registered (ts_locks s) = {}
     \<and> (\<forall>ev e. ts_events s ev = Some e \<longrightarrow> ev < ts_next_event s)
     \<and> (\<forall>tid. rel_option (\<lambda>c se. same_work c (ss_client se)) (cs tid) (ss tid))
     \<and> (\<forall>tid se. ss tid = Some se \<longrightarrow> session_ok s tid se \<and> (denied s se \<longrightarrow> conflicts cs tid (ss_client se)))
     \<and> (\<forall>k t. cell_inv ss s k t) \<and> versions_inv ss s \<and> winners_inv ss"

lemma sessions_invD:
  assumes "sessions_inv cs ss s"
  shows "polling s" "lm_inv (ts_locks s)" "registered (ts_locks s) = {}"
    "\<forall>ev e. ts_events s ev = Some e \<longrightarrow> ev < ts_next_event s"
    "rel_option (\<lambda>c se. same_work c (ss_client se)) (cs tid) (ss tid)"
    "ss tid = Some se \<Longrightarrow> session_ok s tid se" "ss tid = Some se \<Longrightarrow> denied s se \<Longrightarrow> conflicts cs tid (ss_client se)"
    "cell_inv ss s k t" "versions_inv ss s" "winners_inv ss"
  using assms by (simp_all add: sessions_inv_def)

section \<open>A turn leaves the other sessions alone\<close>

lemma undisturbed_facts:
  assumes "undisturbed s s' tid" "tid' \<noteq> tid"
  shows "in_service s r tid' args \<Longrightarrow> in_service s' r tid' args" "started s ev r tid' args \<Longrightarrow> started s' ev r tid' args"
    "tables s tid' ns wns ws rdy \<Longrightarrow> tables s' tid' ns wns ws rdy" "owns s tid' t ks \<Longrightarrow> owns s' tid' t ks"
    "unknown s tid' \<Longrightarrow> unknown s' tid'" "frozen_all s c \<Longrightarrow> frozen_all s' c"
  using assms by (simp_all add: undisturbed_def tables_def owns_def frozen_all_def others_def unknown_def pending_def)

lemma client_ok_undisturbed:
  assumes "client_ok s tid' c" "undisturbed s s' tid" "tid' \<noteq> tid"
  shows "client_ok s' tid' c"
  using client_ok_others [OF assms(1) _ assms(3), of s'] assms(2,3) by (simp add: undisturbed_def)

lemma task_ok_undisturbed:
  assumes "task_ok s tid' se t ts" "undisturbed s s' tid" "tid' \<noteq> tid"
  shows "task_ok s' tid' se t ts"
proof -
  note f = undisturbed_facts [OF assms(2,3)]
  have w: "writing_ok s tid' c m \<Longrightarrow> writing_ok s' tid' c m" and p: "preparing_ok s tid' c rdy \<Longrightarrow> preparing_ok s' tid' c rdy"
    and l: "locked_all s tid' c \<Longrightarrow> locked_all s' tid' c" for c m rdy
    using f(3,4) by (auto simp: writing_ok_def preparing_ok_def locked_all_def)
  have v: "voted_ok s tid' c r \<Longrightarrow> voted_ok s' tid' c r" for c r
    using f(1) l [of c] unfolding voted_ok_def by blast
  show ?thesis
  proof (cases t)
    case (Run ev)
    with assms(1) f(2,3) w p l show ?thesis by (simp add: task_ok_def Let_def split: phase.splits if_splits)
  next
    case (Lock_keys r a ks)
    with assms(1) f(1,4) p show ?thesis by (simp add: task_ok_def Let_def) blast
  next
    case (Vote r a vote)
    with assms(1) f(1) p l show ?thesis by (auto simp: task_ok_def Let_def)
  next
    case (Finalize tid1 vote)
    with assms(1) f(1,3,6) show ?thesis by (simp add: task_ok_def Let_def)
  next
    case (Reply r)
    with assms(1) f(1,5,6) w p v show ?thesis by (simp add: task_ok_def Let_def split: phase.splits if_splits)
  qed
qed

lemma session_ok_undisturbed:
  assumes "session_ok s tid' se" "undisturbed s s' tid" "tid' \<noteq> tid"
  shows "session_ok s' tid' se"
  using assms(1) client_ok_undisturbed [OF _ assms(2,3)] task_ok_undisturbed [OF _ assms(2,3)]
  by (auto simp: session_ok_def split: list.splits)

lemma reply_in_service: "task_ok s tid se (Reply r) ts \<Longrightarrow> \<exists>args. in_service s r tid args"
  by (auto simp: task_ok_def Let_def voted_ok_def split: phase.splits if_splits)

lemma processing_unique: "processing s r args \<Longrightarrow> processing s r args' \<Longrightarrow> args' = args"
  by (auto simp: processing_def split: option.splits)

lemma denied_undisturbed:
  assumes "session_ok s tid' se" "undisturbed s s' tid" "tid' \<noteq> tid" "denied s' se"
  shows "denied s se"
proof -
  have "processing s r args" if r: "ss_tasks se = [Reply r]" "processing s' r args" for r args
  proof -
    from assms(1) r(1) have "task_ok s tid' se (Reply r) []" by (simp add: session_ok_def)
    from reply_in_service [OF this] obtain args' where a: "in_service s r tid' args'" by blast
    with undisturbed_facts(1) [OF assms(2,3)] have "processing s' r args'" by (simp add: in_service_def)
    with processing_unique [OF r(2)] a show ?thesis by (simp add: in_service_def)
  qed
  with assms(4) show ?thesis unfolding denied_def by blast
qed

text \<open>One session moves on; the rest of the invariant is kept.\<close>

lemma sessions_step:
  assumes inv: "sessions_inv cs ss s" and se: "ss tid = Some se"
    and u: "undisturbed s s' tid" and p: "polling s'" "lm_inv (ts_locks s')" "registered (ts_locks s') = {}"
    and e: "\<forall>ev e. ts_events s' ev = Some e \<longrightarrow> ev < ts_next_event s'"
    and w: "same_work (ss_client se) (ss_client se')" and ok: "session_ok s' tid se'"
    and d: "denied s' se' \<longrightarrow> conflicts cs tid (ss_client se)"
    and g: "\<And>k t. cell_inv (ss(tid \<mapsto> se')) s' k t" "versions_inv (ss(tid \<mapsto> se')) s'" "winners_inv (ss(tid \<mapsto> se'))"
  shows "sessions_inv cs (ss(tid \<mapsto> se')) s'"
proof -
  have rel: "rel_option (\<lambda>c se. same_work c (ss_client se)) (cs tid') ((ss(tid \<mapsto> se')) tid')" for tid'
    using sessions_invD(5) [OF inv, of tid'] se w by (auto simp: option_rel_Some2 same_work_def)
  have "session_ok s' tid' d \<and> (denied s' d \<longrightarrow> conflicts cs tid' (ss_client d))"
    if x: "(ss(tid \<mapsto> se')) tid' = Some d" for tid' d
  proof (cases "tid' = tid")
    case True
    with x ok assms(10) conflicts_same [OF w] show ?thesis by simp
  next
    case False
    with x have y: "ss tid' = Some d" by simp
    note k = sessions_invD(6,7) [OF inv y]
    from session_ok_undisturbed [OF k(1) u False] denied_undisturbed [OF k(1) u False] k(2) show ?thesis by blast
  qed
  with p e rel g show ?thesis by (simp add: sessions_inv_def)
qed

lemma cell_inv_same:
  assumes "cell_inv ss s k t" "lock_at (ts_locks s') k t = lock_at (ts_locks s) k t" "get s' k t = get s k t"
    and "ss tid = Some se" "same_work (ss_client se) (ss_client se')"
    and "may_hold se k \<and> touches se k t \<longrightarrow> may_hold se' k" "freezing se \<and> touches se k t \<longrightarrow> freezing se'"
  shows "cell_inv (ss(tid \<mapsto> se')) s' k t"
proof -
  have "touches se' k t = touches se k t"
    using assms(5) same_work_keys [OF assms(5)] by (simp add: touches_def same_work_def)
  with assms(4,6,7) have
    "one_with ss tid' (\<lambda>se. may_hold se k \<and> touches se k t) \<longrightarrow> one_with (ss(tid \<mapsto> se')) tid' (\<lambda>se. may_hold se k \<and> touches se k t)"
    "one_with ss tid' (\<lambda>se. freezing se \<and> touches se k t) \<longrightarrow> one_with (ss(tid \<mapsto> se')) tid' (\<lambda>se. freezing se \<and> touches se k t)" for tid'
    by (simp_all add: one_with_def)
  with assms(1) show ?thesis unfolding cell_inv_def assms(2,3)
    by (auto simp del: one_with_upd) blast
qed

lemma versions_inv_same:
  assumes "versions_inv ss s" "get s' = get s" "ss tid = Some se" "same_work (ss_client se) (ss_client se')"
    and "stored se' = stored se"
  shows "versions_inv (ss(tid \<mapsto> se')) s'"
proof -
  have "one_with (ss(tid \<mapsto> se')) tid' (\<lambda>se. stored se \<and> wrote se k t v) = one_with ss tid' (\<lambda>se. stored se \<and> wrote se k t v)" for tid' k t v
    using assms(3-5) by (simp add: one_with_def wrote_def same_work_def)
  with assms(1,2) show ?thesis by (simp add: versions_inv_def del: one_with_upd)
qed

lemma rival_same: "same_work c c' \<Longrightarrow> rival c' d = rival c d" "same_work c c' \<Longrightarrow> rival d c' = rival d c"
  using same_work_keys [of c c'] by (auto simp: rival_def same_work_def)

lemma winners_inv_same:
  assumes "winners_inv ss" "ss tid = Some se" "same_work (ss_client se) (ss_client se')"
    and "freezing se' \<or> stored se' \<longrightarrow> freezing se \<or> stored se"
  shows "winners_inv (ss(tid \<mapsto> se'))"
  unfolding winners_inv_def
proof (intro allI impI)
  fix a b x y
  assume h: "a \<noteq> b" "(ss(tid \<mapsto> se')) a = Some x" "(ss(tid \<mapsto> se')) b = Some y"
    "freezing x \<or> stored x" "freezing y \<or> stored y"
  note w = assms(1) [unfolded winners_inv_def, rule_format]
  consider "a = tid" "b \<noteq> tid" | "b = tid" "a \<noteq> tid" | "a \<noteq> tid" "b \<noteq> tid" using h(1) by blast
  then show "\<not> rival (ss_client x) (ss_client y)"
  proof cases
    case 1
    with h(2) have x: "x = se'" by simp
    show ?thesis unfolding x rival_same(1) [OF assms(3)]
      using 1 h(3-5) x assms(2,4) by (intro w [OF h(1)]) simp_all
  next
    case 2
    with h(3) have y: "y = se'" by simp
    show ?thesis unfolding y rival_same(2) [OF assms(3)]
      using 2 h(2,4,5) y assms(2,4) by (intro w [OF h(1)]) simp_all
  next
    case 3
    with h w [OF h(1), of x y] show ?thesis by simp
  qed
qed

lemma quiet_turn:
  assumes inv: "sessions_inv cs ss s" and se: "ss tid = Some se"
    and u: "undisturbed s s' tid" and p: "polling s'" and e: "\<forall>ev e. ts_events s' ev = Some e \<longrightarrow> ev < ts_next_event s'"
    and l: "ts_locks s' = ts_locks s" "get s' = get s"
    and w: "same_work (ss_client se) (ss_client se')" and ok: "session_ok s' tid se'"
    and d: "denied s' se' \<longrightarrow> conflicts cs tid (ss_client se)"
    and st: "\<And>k. may_hold se k \<Longrightarrow> may_hold se' k" "freezing se' = freezing se" "stored se' = stored se"
  shows "sessions_inv cs (ss(tid \<mapsto> se')) s'"
proof -
  note i = sessions_invD [OF inv]
  show ?thesis
  proof (rule sessions_step [OF inv se u p _ _ e w ok d])
    show "lm_inv (ts_locks s')" "registered (ts_locks s') = {}" using i(2,3) l(1) by simp_all
    show "cell_inv (ss(tid \<mapsto> se')) s' k t" for k t
      by (rule cell_inv_same [OF i(8) _ _ se w]) (use l st in simp_all)
    show "versions_inv (ss(tid \<mapsto> se')) s'" by (rule versions_inv_same [OF i(9) l(2) se w st(3)])
    show "winners_inv (ss(tid \<mapsto> se'))" by (rule winners_inv_same [OF i(10) se w]) (use st in simp)
  qed
qed

text \<open>The turns that a session needs at most until it has its decision.\<close>

definition left_turns :: "session \<Rightarrow> nat" where
  "left_turns se =
    (let L = length (cl_writes (ss_client se)); phase = cl_phase (ss_client se)
     in case ss_tasks se of
       [] \<Rightarrow> (case phase of Writing n \<Rightarrow> 3 * (L - n) + L + 9 | Prepared vote \<Rightarrow> 4 | Decided vote \<Rightarrow> 0)
     | Run ev # _ \<Rightarrow> (case phase of Writing n \<Rightarrow> 3 * (L - n) + L + 8 | _ \<Rightarrow> 3)
     | Lock_keys r a ks # _ \<Rightarrow> length ks + 7
     | Vote r a vote # _ \<Rightarrow> 6
     | Finalize tid vote # _ \<Rightarrow> 2
     | Reply r # _ \<Rightarrow> (case phase of Writing n \<Rightarrow> (if n < L then 3 * (L - n) + L + 7 else 5) | _ \<Rightarrow> 1))"

definition turn_ok :: "(u64 \<rightharpoonup> client) \<Rightarrow> (u64 \<rightharpoonup> session) \<Rightarrow> tserver \<Rightarrow> u64 \<Rightarrow> session \<Rightarrow> bool" where
  "turn_ok cs ss s tid se \<longleftrightarrow> (\<exists>s' se'. session_turn s se = Some (s', se') \<and> sessions_inv cs (ss(tid \<mapsto> se')) s'
     \<and> left_turns se' \<le> left_turns se - 1)"

section \<open>Sending a request\<close>

lemma send_ok:
  assumes inv: "sessions_inv cs ss s" and se: "ss tid = Some se" "ss_tasks se = []" "client_msg (ss_client se) = Some m"
    and l: "free_handler (ts_rpc s) (msg_type m) = Some r" "listening (ts_rpc s) r (msg_type m)"
    and a: "arrive s (r, Some m) = Inr (s1, Some ev)" "arrived s s1 r (msg_type m)" "others s s1 tid"
    and ok: "session_ok s1 tid (se\<lparr>ss_rid := r, ss_tasks := [Run ev]\<rparr>)"
  shows "turn_ok cs ss s tid se"
proof -
  let ?se = "se\<lparr>ss_rid := r, ss_tasks := [Run ev]\<rparr>"
  note i = sessions_invD [OF inv]
  have turn: "session_turn s se = Some (s1, ?se)" using se(2,3) l(1) a(1) by (simp add: session_turn_def send_request_def)
  have nd: "cl_phase (ss_client se) \<noteq> Decided vote" for vote using se(3) by (auto simp: client_msg_def)
  have sd: "same_data s s1" using a(2) by (simp add: arrived_def)
  have "sessions_inv cs (ss(tid \<mapsto> ?se)) s1"
  proof (rule quiet_turn [OF inv se(1) _ _ _ _ _ _ ok])
    show "undisturbed s s1 tid" by (rule undisturbed_arrived [OF i(1) l(2) a(2,3) i(4)])
    have "rpc_inv (ts_rpc s1)"
      by (rule rpc_inv_served [OF pollingD(1) [OF i(1)] l(2)]) (use a(2) in \<open>simp_all add: arrived_def\<close>)
    then show "polling s1" using i(1) a(2) by (simp add: polling_def arrived_def)
    show "\<forall>ev e. ts_events s1 ev = Some e \<longrightarrow> ev < ts_next_event s1"
      using i(4) a(2) unfolding arrived_def by (metis less_Suc_eq)
    show "ts_locks s1 = ts_locks s" "get s1 = get s"
      using sd same_data_get [OF sd] by (simp_all add: same_data_def)
    show "denied s1 ?se \<longrightarrow> conflicts cs tid (ss_client se)"
      using i(7) [OF se(1)] se(2) by (auto simp: denied_def)
  qed (use se(2) nd in \<open>auto simp: same_work_def may_hold_def freezing_def stored_def\<close>)
  moreover have "left_turns ?se \<le> left_turns se - 1"
    using nd se(2) by (auto simp: left_turns_def Let_def split: phase.splits)
  ultimately show ?thesis using turn by (auto simp: turn_ok_def)
qed

end
