(* ===== verification/Session_Turns.thy ===== *)
theory Session_Turns
  imports Sessions
begin

text \<open>
  The turns of a session up to the end of its first phase: a request is sent, a write is noted,
  keys are locked one by one, a vote is given, a reply reaches the client.  Each of them keeps the
  invariant of the sessions.
\<close>

section \<open>Requests\<close>

text \<open>A session without a request under way.\<close>

lemma resting:
  assumes "sessions_inv cs ss s" "ss tid = Some se" "ss_tasks se = []"
  shows "client_ok s tid (ss_client se)"
  using sessions_invD(6) [OF assms(1,2)] assms(3) by (simp add: session_ok_def)

lemma startedI:
  assumes "ready s ev e args" "se_rid e = r" "args_tid args = tid" "accepted args"
  shows "started s ev r tid args"
  using assms ready_processing [OF assms(1)] by (auto simp: started_def in_service_def)

lemma send_write:
  assumes inv: "sessions_inv cs ss s" and se: "ss tid = Some se" "ss_tasks se = []"
    and ph: "cl_phase (ss_client se) = Writing n" "n < length (cl_writes (ss_client se))"
  shows "turn_ok cs ss s tid se"
proof -
  let ?c = "ss_client se"
  obtain key val where w: "cl_writes ?c ! n = (key, val)" by (cases "cl_writes ?c ! n")
  note ok = resting [OF inv se]
  have c: "co_tid (cl_coord ?c) = tid" "time_of ?c \<noteq> 0" "pending s tid = take n (cl_writes ?c)" "cl_writes ?c \<noteq> []"
    "ts_rdy_to_commit s tid = None" "co_read_nodes (cl_coord ?c) = []"
    using ok ph(1) by (simp_all add: client_ok_def)
  have z: "zero_node (ts_tid_to_nodes s tid)" "zero_node (ts_tid_to_write_nodes s tid)"
    "co_write_nodes (cl_coord ?c) = [] \<or> co_write_nodes (cl_coord ?c) = [0]"
    using ok ph(1) by (simp_all add: client_ok_def zero_node_def split: if_splits)
  let ?m = "MWrite \<lparr>wq_tid = tid, wq_key = key, wq_value = val\<rparr>"
  have m: "client_msg ?c = Some ?m"
    using ph w c(1) by (simp add: client_msg_def Let_def makeWriteRequest_def)
  note i = sessions_invD(1) [OF inv]
  from free_handler_ok [OF pollingD(1) [OF i]] obtain r where
    r: "free_handler (ts_rpc s) (msg_type ?m) = Some r" "listening (ts_rpc s) r (msg_type ?m)" by blast
  from arrive_write [OF i, of r "\<lparr>wq_tid = tid, wq_key = key, wq_value = val\<rparr>"] r(2) obtain s1 e where
    a: "arrive s (r, Some ?m) = Inr (s1, Some (ts_next_event s))" "ready s1 (ts_next_event s) e (write_params ?c n)"
    "se_rid e = r" "arrived s s1 r (msg_type ?m)"
    "ts_tid_to_nodes s1 = note_node (ts_tid_to_nodes s) tid 0"
    "ts_tid_to_write_nodes s1 = note_node (ts_tid_to_write_nodes s) tid 0"
    by (auto simp: write_params_def w c(1))
  have "started s1 (ts_next_event s) r tid (write_params ?c n)"
    by (rule startedI [OF a(2,3)]) (simp_all add: write_params_def args_tid_def accepted_def c(1))
  moreover have "others s s1 tid"
    using a(4-6) by (simp add: others_def arrived_def same_data_def note_node_def)
  moreover have "tables s1 tid (Some [0]) (Some [0]) (take n (cl_writes ?c)) None"
    using a(4-6) c(3,5) z(1,2) pending_same [of s s1] by (simp add: arrived_def same_data_def tables_def note_zero)
  ultimately show ?thesis
    using send_ok [OF inv se m r a(1,4)] c ph z(3) by (simp add: session_ok_def task_ok_def writing_ok_def Let_def)
qed

lemma send_p1c:
  assumes inv: "sessions_inv cs ss s" and se: "ss tid = Some se" "ss_tasks se = []"
    and ph: "cl_phase (ss_client se) = Writing n" "\<not> n < length (cl_writes (ss_client se))"
  shows "turn_ok cs ss s tid se"
proof -
  let ?c = "ss_client se"
  note ok = resting [OF inv se]
  have n: "n = length (cl_writes ?c)" using ok ph by (simp add: client_ok_def)
  have c: "co_tid (cl_coord ?c) = tid" "time_of ?c \<noteq> 0" "cl_writes ?c \<noteq> []" "co_read_nodes (cl_coord ?c) = []"
    "co_write_nodes (cl_coord ?c) = [0]" and t: "tables s tid (Some [0]) (Some [0]) (cl_writes ?c) None"
    using ok ph(1) n by (simp_all add: client_ok_def tables_def)
  let ?q = "\<lparr>p1q_tid = tid, p1q_start_ts = time_of ?c, p1q_commit_ts = time_of ?c, p1q_read_node = [], p1q_write_node = [0]\<rparr>"
  have m: "client_msg ?c = Some (MP1C ?q)"
    using ph c n by (simp add: client_msg_def Let_def makePhaseOneCommitRequest_def p1c_arguments_def)
  note i = sessions_invD(1) [OF inv]
  from free_handler_ok [OF pollingD(1) [OF i]] obtain r where
    r: "free_handler (ts_rpc s) (msg_type (MP1C ?q)) = Some r" "listening (ts_rpc s) r (msg_type (MP1C ?q))" by blast
  from arrive_p1c [OF i, of r ?q "[0]"] r(2) t obtain s1 e where
    a: "arrive s (r, Some (MP1C ?q)) = Inr (s1, Some (ts_next_event s))"
    "ready s1 (ts_next_event s) e (AP1C (prepare_params ?c))" "se_rid e = r" "arrived s s1 r (msg_type (MP1C ?q))"
    "ts_tid_to_nodes s1 = ts_tid_to_nodes s" "ts_tid_to_write_nodes s1 = (ts_tid_to_write_nodes s)(tid := None)"
    by (auto simp: prepare_params_def c(1) tables_def insert_all_def insert_zero)
  have "started s1 (ts_next_event s) r tid (AP1C (prepare_params ?c))"
    by (rule startedI [OF a(2,3)]) (simp_all add: prepare_params_def args_tid_def accepted_def c(1))
  moreover have "others s s1 tid" using a(4-6) by (simp add: others_def arrived_def same_data_def)
  moreover have "tables s1 tid (Some [0]) None (cl_writes ?c) None"
    using a(4-6) t pending_same [of s s1] by (simp add: arrived_def same_data_def tables_def)
  ultimately show ?thesis
    using send_ok [OF inv se m r a(1,4)] c ph n by (simp add: session_ok_def task_ok_def preparing_ok_def Let_def)
qed

lemma send_p2c:
  assumes inv: "sessions_inv cs ss s" and se: "ss tid = Some se" "ss_tasks se = []"
    and ph: "cl_phase (ss_client se) = Prepared vote"
  shows "turn_ok cs ss s tid se"
proof -
  let ?c = "ss_client se" and ?q = "\<lparr>p2q_tid = tid, p2q_vote = vote\<rparr>"
  note ok = resting [OF inv se]
  have c: "co_tid (cl_coord ?c) = tid" "time_of ?c \<noteq> 0" "cl_writes ?c \<noteq> []" "co_read_nodes (cl_coord ?c) = []"
    and t: "tables s tid (Some [0]) None (cl_writes ?c) (Some (time_of ?c))" and l: "vote \<longrightarrow> locked_all s tid ?c"
    using ok ph by (simp_all add: client_ok_def tables_def locked_all_def owns_def)
  have m: "client_msg ?c = Some (MP2C ?q)"
    using ph c(1) by (simp add: client_msg_def Let_def makePhaseTwoCommitRequest_def p2c_arguments_def)
  note i = sessions_invD(1) [OF inv]
  from free_handler_ok [OF pollingD(1) [OF i]] obtain r where
    r: "free_handler (ts_rpc s) (msg_type (MP2C ?q)) = Some r" "listening (ts_rpc s) r (msg_type (MP2C ?q))" by blast
  from arrive_p2c [OF i, of r ?q "[0]"] r(2) t obtain s1 e where
    a: "arrive s (r, Some (MP2C ?q)) = Inr (s1, Some (ts_next_event s))"
    "ready s1 (ts_next_event s) e (AP2C (decide_params ?c vote))" "se_rid e = r" "arrived s s1 r (msg_type (MP2C ?q))"
    "ts_tid_to_nodes s1 = (ts_tid_to_nodes s)(tid := None)" "ts_tid_to_write_nodes s1 = ts_tid_to_write_nodes s"
    by (auto simp: decide_params_def c(1) tables_def)
  have "started s1 (ts_next_event s) r tid (AP2C (decide_params ?c vote))"
    by (rule startedI [OF a(2,3)]) (simp_all add: decide_params_def args_tid_def accepted_def c(1))
  moreover have "others s s1 tid" using a(4-6) by (simp add: others_def arrived_def same_data_def)
  moreover have "tables s1 tid None None (cl_writes ?c) (Some (time_of ?c))" "vote \<longrightarrow> locked_all s1 tid ?c"
    using a(4-6) t l pending_same [of s s1] by (simp_all add: arrived_def same_data_def tables_def locked_all_def owns_def)
  ultimately show ?thesis
    using send_ok [OF inv se m r a(1,4)] c ph by (simp add: session_ok_def task_ok_def Let_def)
qed

section \<open>Tasks\<close>

text \<open>What the step of a task of one session keeps, and what is left to show of it.\<close>

lemma moved_ok:
  assumes inv: "sessions_inv cs ss s" and se: "ss tid = Some se" and sv: "in_service s r tid args"
    and q: "aside s s1 r" and o: "others s s1 tid" and lm: "lm_inv (ts_locks s1)" "registered (ts_locks s1) = {}"
    and keep: "\<And>tid' k t. tid' \<noteq> tid \<Longrightarrow> lock_at (ts_locks s) k t = (WRITE_LOCK, {tid'}) \<Longrightarrow>
      lock_at (ts_locks s1) k t = (WRITE_LOCK, {tid'})"
      "\<And>k t. lock_at (ts_locks s) k t = (FREEZE_WRITE_LOCK, {}) \<Longrightarrow> lock_at (ts_locks s1) k t = (FREEZE_WRITE_LOCK, {})"
    and w: "same_work (ss_client se) (ss_client se1)" and ok: "session_ok s1 tid se1"
    and d: "denied s1 se1 \<longrightarrow> conflicts cs tid (ss_client se)"
    and g: "\<And>k t. cell_inv (ss(tid \<mapsto> se1)) s1 k t" "versions_inv (ss(tid \<mapsto> se1)) s1" "winners_inv (ss(tid \<mapsto> se1))"
    and turn: "session_turn s se = Some (s1, se1)" "left_turns se1 \<le> left_turns se - 1"
  shows "turn_ok cs ss s tid se"
proof -
  note i = sessions_invD [OF inv]
  have e: "\<forall>ev e. ts_events s1 ev = Some e \<longrightarrow> ev < ts_next_event s1"
    using q i(4) unfolding aside_def by (metis option.distinct(1) option.exhaust)
  show ?thesis
    using sessions_step [OF inv se undisturbed_aside [OF q sv o keep] polling_aside [OF i(1) q sv] lm e w ok d g] turn
    by (auto simp: turn_ok_def)
qed

lemma moved_quiet:
  assumes inv: "sessions_inv cs ss s" and se: "ss tid = Some se" and sv: "in_service s r tid args"
    and q: "aside s s1 r" and o: "others s s1 tid" and l: "ts_locks s1 = ts_locks s" "get s1 = get s"
    and w: "same_work (ss_client se) (ss_client se1)" and ok: "session_ok s1 tid se1"
    and d: "denied s1 se1 \<longrightarrow> conflicts cs tid (ss_client se)"
    and st: "\<And>k. may_hold se k \<Longrightarrow> may_hold se1 k" "freezing se1 = freezing se" "stored se1 = stored se"
    and turn: "session_turn s se = Some (s1, se1)" "left_turns se1 \<le> left_turns se - 1"
  shows "turn_ok cs ss s tid se"
proof -
  note i = sessions_invD [OF inv]
  show ?thesis
  proof (rule moved_ok [OF inv se sv q o _ _ _ _ w ok d _ _ _ turn])
    show "cell_inv (ss(tid \<mapsto> se1)) s1 k t" for k t
      by (rule cell_inv_same [OF i(8) _ _ se w]) (use l st in simp_all)
    show "versions_inv (ss(tid \<mapsto> se1)) s1" by (rule versions_inv_same [OF i(9) l(2) se w st(3)])
    show "winners_inv (ss(tid \<mapsto> se1))" by (rule winners_inv_same [OF i(10) se w]) (use st in simp)
  qed (use i(2,3) l(1) in simp_all)
qed

lemma task_turn:
  assumes "ss_tasks se = t # ts" "task_step s t = Inr (s1, new)" "new @ ts \<noteq> []"
  shows "session_turn s se = Some (s1, se\<lparr>ss_tasks := new @ ts\<rparr>)"
  using assms by (simp add: session_turn_def serve_def)

lemma reply_turn:
  assumes "ss_tasks se = [Reply (ss_rid se)]" "server_sendReply s (ss_rid se) = Inr s1" "replied s1 (ss_rid se) m"
  shows "session_turn s se = Some (s1, se\<lparr>ss_client := client_reply getNode (ss_client se) m, ss_tasks := []\<rparr>)"
  using assms by (auto simp: session_turn_def serve_def task_step_def replied_def split: option.splits)

lemma running:
  assumes "sessions_inv cs ss s" "ss tid = Some se" "ss_tasks se = t # ts"
  shows "task_ok s tid se t ts" "co_tid (cl_coord (ss_client se)) = tid" "time_of (ss_client se) \<noteq> 0"
    "cl_writes (ss_client se) \<noteq> []" "co_read_nodes (cl_coord (ss_client se)) = []"
  using sessions_invD(6) [OF assms(1,2)] assms(3) by (simp_all add: session_ok_def)

lemma same_data_tables:
  "same_data s s1 \<Longrightarrow> rest s s1 r \<Longrightarrow> others s s1 tid"
  "same_data s s1 \<Longrightarrow> rest s s1 r \<Longrightarrow> tables s1 tid = tables s tid"
  "same_data s s1 \<Longrightarrow> rest s s1 r \<Longrightarrow> unknown s1 tid = unknown s tid"
  "same_data s s1 \<Longrightarrow> owns s1 tid t ks = owns s tid t ks"
  "same_data s s1 \<Longrightarrow> frozen_all s1 c = frozen_all s c"
  by (simp_all add: others_def same_data_def rest_def tables_def fun_eq_iff pending_def unknown_def owns_def frozen_all_def)

text \<open>The reply of a request.\<close>

lemma reply_ok:
  assumes inv: "sessions_inv cs ss s" and se: "ss tid = Some se" "ss_tasks se = [Reply (ss_rid se)]"
    and sv: "in_service s (ss_rid se) tid args" "reply_for args = Some m"
    and w: "same_work (ss_client se) (client_reply getNode (ss_client se) m)"
    and ok: "\<And>s1. same_data s s1 \<Longrightarrow> rest s s1 (ss_rid se) \<Longrightarrow>
      session_ok s1 tid (se\<lparr>ss_client := client_reply getNode (ss_client se) m, ss_tasks := []\<rparr>)"
    and d: "refused (client_reply getNode (ss_client se) m) \<longrightarrow> denied s se"
    and st: "\<And>k. may_hold se k \<Longrightarrow> (\<exists>vote. cl_phase (client_reply getNode (ss_client se) m) = Prepared vote)"
      "stored se \<longleftrightarrow> cl_phase (client_reply getNode (ss_client se) m) = Decided True"
    and left: "left_turns (se\<lparr>ss_client := client_reply getNode (ss_client se) m, ss_tasks := []\<rparr>) \<le> left_turns se - 1"
  shows "turn_ok cs ss s tid se"
proof -
  let ?r = "ss_rid se" and ?se = "se\<lparr>ss_client := client_reply getNode (ss_client se) m, ss_tasks := []\<rparr>"
  from sendReply_complete [of s ?r args m] sv obtain s1 where
    s1: "server_sendReply s ?r = Inr s1" "replied s1 ?r m" "same_data s s1" by (auto simp: in_service_def)
  note rest = rest_sendReply [OF s1(1)]
  show ?thesis
  proof (rule moved_quiet [OF inv se(1) sv(1) aside_sendReply [OF s1(1)] same_data_tables(1) [OF s1(3) rest]])
    show "ts_locks s1 = ts_locks s" "get s1 = get s" using s1(3) same_data_get [OF s1(3)] by (simp_all add: same_data_def)
    show "session_turn s se = Some (s1, ?se)" by (rule reply_turn [OF se(2) s1(1,2)])
    show "session_ok s1 tid ?se" by (rule ok [OF s1(3) rest])
    show "denied s1 ?se \<longrightarrow> conflicts cs tid (ss_client se)"
      using d sessions_invD(7) [OF inv se(1)] by (auto simp: denied_def)
  qed (use w st left se(2) in \<open>auto simp: may_hold_def freezing_def stored_def\<close>)
qed

lemma reply_write:
  assumes inv: "sessions_inv cs ss s" and se: "ss tid = Some se" "ss_tasks se = [Reply r]"
    and ph: "cl_phase (ss_client se) = Writing n" "n < length (cl_writes (ss_client se))"
  shows "turn_ok cs ss s tid se"
proof -
  let ?c = "ss_client se" and ?m = "RWrite \<lparr>wp_status = True\<rparr>"
  obtain key val where w: "cl_writes ?c ! n = (key, val)" by (cases "cl_writes ?c ! n")
  note k = running [OF inv se]
  have t: "r = ss_rid se" "in_service s (ss_rid se) tid (write_params ?c n)" "writing_ok s tid ?c (Suc n)"
    using k(1) ph by (simp_all add: task_ok_def Let_def)
  have c': "cl_phase (client_reply getNode ?c ?m) = Writing (Suc n)" "cl_writes (client_reply getNode ?c ?m) = cl_writes ?c"
    "co_write_nodes (cl_coord (client_reply getNode ?c ?m)) = [0]" "co_tid (cl_coord (client_reply getNode ?c ?m)) = tid"
    "time_of (client_reply getNode ?c ?m) = time_of ?c" "co_read_nodes (cl_coord (client_reply getNode ?c ?m)) = []"
    using w ph(1) t(3) k(2,5) by (simp_all add: client_reply_def getNode_def insert_zero Let_def writing_ok_def)
  show ?thesis
  proof (rule reply_ok [OF inv se(1) se(2) [unfolded t(1)] t(2), of ?m])
    show "reply_for (write_params ?c n) = Some ?m" by (simp add: write_params_def)
    show "same_work ?c (client_reply getNode ?c ?m)" using c' by (simp add: same_work_def)
    show "session_ok s1 tid (se\<lparr>ss_client := client_reply getNode ?c ?m, ss_tasks := []\<rparr>)"
      if "same_data s s1" "rest s s1 (ss_rid se)" for s1
    proof -
      have "tables s1 tid (Some [0]) (Some [0]) (take (Suc n) (cl_writes ?c)) None"
        using t(3) same_data_tables(2) [OF that] by (simp add: writing_ok_def)
      then show ?thesis using k(3,4) c' ph(2) by (simp add: session_ok_def client_ok_def tables_def)
    qed
    show "left_turns (se\<lparr>ss_client := client_reply getNode ?c ?m, ss_tasks := []\<rparr>) \<le> left_turns se - 1"
      using ph c'(1,2) se(2) by (simp add: left_turns_def Let_def)
  qed (use ph c'(1) se(2) in \<open>auto simp: refused_def may_hold_def stored_def\<close>)
qed

lemma reply_p1c:
  assumes inv: "sessions_inv cs ss s" and se: "ss tid = Some se" "ss_tasks se = [Reply r]"
    and ph: "cl_phase (ss_client se) = Writing n" "\<not> n < length (cl_writes (ss_client se))"
  shows "turn_ok cs ss s tid se"
proof -
  let ?c = "ss_client se"
  note k = running [OF inv se]
  have t: "r = ss_rid se" "preparing_ok s tid ?c (Some (time_of ?c))" "voted_ok s tid ?c r"
    using k(1) ph by (simp_all add: task_ok_def Let_def)
  from t(1,3) obtain vote where
    v: "in_service s (ss_rid se) tid (AP1C ((prepare_params ?c)\<lparr>rp1_vote := Some vote\<rparr>))" "vote \<longrightarrow> locked_all s tid ?c"
    by (auto simp: voted_ok_def)
  let ?m = "RP1C \<lparr>p1p_node = [0], p1p_vote = vote\<rparr>"
  have c': "client_reply getNode ?c ?m = ?c\<lparr>cl_phase := Prepared vote\<rparr>" using ph by (simp add: client_reply_def)
  show ?thesis
  proof (rule reply_ok [OF inv se(1) se(2) [unfolded t(1)] v(1), of ?m])
    show "reply_for (AP1C ((prepare_params ?c)\<lparr>rp1_vote := Some vote\<rparr>)) = Some ?m" by (simp add: prepare_params_def)
    show "session_ok s1 tid (se\<lparr>ss_client := client_reply getNode ?c ?m, ss_tasks := []\<rparr>)"
      if "same_data s s1" "rest s s1 (ss_rid se)" for s1
    proof -
      have "tables s1 tid (Some [0]) None (cl_writes ?c) (Some (time_of ?c))" "co_write_nodes (cl_coord ?c) = [0]"
        "vote \<longrightarrow> distinct (map fst (cl_writes ?c)) \<and> owns s1 tid (time_of ?c) (keys_of ?c)"
        using t(2) v(2) same_data_tables(2) [OF that] same_data_tables(4) [OF that(1)]
        by (simp_all add: preparing_ok_def locked_all_def)
      then show ?thesis using k by (simp add: session_ok_def client_ok_def c' tables_def owns_def)
    qed
    show "refused (client_reply getNode ?c ?m) \<longrightarrow> denied s se"
      using v(1) se(2) t(1) by (auto simp: c' refused_def denied_def in_service_def)
  qed (use ph se(2) in \<open>auto simp: c' same_work_def may_hold_def stored_def left_turns_def Let_def\<close>)
qed

lemma reply_p2c:
  assumes inv: "sessions_inv cs ss s" and se: "ss tid = Some se" "ss_tasks se = [Reply r]"
    and ph: "cl_phase (ss_client se) = Prepared vote"
  shows "turn_ok cs ss s tid se"
proof -
  let ?c = "ss_client se" and ?m = "RP2C \<lparr>p2p_node = [0]\<rparr>"
  note k = running [OF inv se]
  have t: "r = ss_rid se" "in_service s (ss_rid se) tid (AP2C (decide_params ?c vote))" "unknown s tid"
    "vote \<longrightarrow> frozen_all s ?c" using k(1) ph by (simp_all add: task_ok_def Let_def)
  have c': "client_reply getNode ?c ?m = ?c\<lparr>cl_phase := Decided vote\<rparr>" using ph by (simp add: client_reply_def)
  show ?thesis
  proof (rule reply_ok [OF inv se(1) se(2) [unfolded t(1)] t(2), of ?m])
    show "reply_for (AP2C (decide_params ?c vote)) = Some ?m" by (simp add: decide_params_def)
    show "session_ok s1 tid (se\<lparr>ss_client := client_reply getNode ?c ?m, ss_tasks := []\<rparr>)"
      if "same_data s s1" "rest s s1 (ss_rid se)" for s1
      using t(3,4) k same_data_tables(3) [OF that, of tid]
      by (simp add: session_ok_def client_ok_def c' frozen_all_def)
  qed (use ph se(2) in \<open>auto simp: c' same_work_def may_hold_def stored_def left_turns_def Let_def refused_def denied_def\<close>)
qed

text \<open>Events that start.\<close>

lemma started_called:
  assumes "started s ev r tid args"
  shows "\<exists>e. called s ev e args \<and> ts_events s ev = Some e \<and> se_kind e = request_of args \<and> se_phase e = 0 \<and> se_rid e = r
    \<and> in_service s r tid args"
  using assms by (auto simp: started_def ready_def called_def args_of_def split: option.splits)

lemma in_service_cong: "ts_rpc s1 = ts_rpc s \<Longrightarrow> in_service s1 r tid args = in_service s r tid args"
  using processing_cong [of s1 s r args] by (simp add: in_service_def)

lemma set_phase_parts [simp]:
  "ts_locks (set_phase s ev p) = ts_locks s" "ts_pend_writes (set_phase s ev p) = ts_pend_writes s"
  "ts_rdy_to_commit (set_phase s ev p) = ts_rdy_to_commit s" "ts_tid_to_nodes (set_phase s ev p) = ts_tid_to_nodes s"
  "ts_tid_to_write_nodes (set_phase s ev p) = ts_tid_to_write_nodes s" "get (set_phase s ev p) = get s"
  using same_data_set_phase [of s ev p] same_data_get [OF same_data_set_phase [of s ev p]]
  by (simp_all only: same_data_def) (simp_all add: set_phase_def split: option.split)

lemma tables_parts:
  assumes "ts_tid_to_nodes s1 = ts_tid_to_nodes s" "ts_tid_to_write_nodes s1 = ts_tid_to_write_nodes s"
    and "ts_pend_writes s1 = ts_pend_writes s" "ts_rdy_to_commit s1 = ts_rdy_to_commit s"
  shows "tables s1 tid = tables s tid" "others s s1 tid"
  using assms by (simp_all add: tables_def pending_def others_def fun_eq_iff)

lemma turn_write:
  assumes inv: "sessions_inv cs ss s" and se: "ss tid = Some se" "ss_tasks se = Run ev # ts"
    and ph: "cl_phase (ss_client se) = Writing n" "n < length (cl_writes (ss_client se))"
  shows "turn_ok cs ss s tid se"
proof -
  let ?c = "ss_client se" and ?r = "ss_rid se"
  obtain key val where w: "cl_writes ?c ! n = (key, val)" by (cases "cl_writes ?c ! n")
  note k = running [OF inv se]
  have t: "ts = []" "started s ev ?r tid (write_params ?c n)" "writing_ok s tid ?c n"
    using k(1) ph by (simp_all add: task_ok_def Let_def)
  from started_called [OF t(2)] obtain e where e: "called s ev e (write_params ?c n)" "ts_events s ev = Some e"
    "se_kind e = TWRITE" "se_phase e = 0" "se_rid e = ?r" "in_service s ?r tid (write_params ?c n)"
    by (auto simp: write_params_def request_of_def)
  let ?s = "add (set_phase s ev 1) tid key val" and ?se = "se\<lparr>ss_tasks := [Reply ?r]\<rparr>"
  have step: "task_step s (Run ev) = Inr (?s, [Reply ?r])"
    using called_step [OF e(1)] e(3-5) w k(2) by (simp add: write_params_def write_task_def)
  have parts: "ts_rpc ?s = ts_rpc s" "ts_locks ?s = ts_locks s" "ts_rdy_to_commit ?s = ts_rdy_to_commit s"
    "ts_tid_to_nodes ?s = ts_tid_to_nodes s" "ts_tid_to_write_nodes ?s = ts_tid_to_write_nodes s"
    by (simp_all add: add_def Let_def)
  have pend: "pending (set_phase s ev 1) tid = pending s tid" by (simp add: pending_def)
  have "writing_ok ?s tid ?c (Suc n)"
    using t(3) ph(2) w parts pend by (simp add: writing_ok_def tables_def pending_add take_Suc_conv_app_nth)
  then have ok: "session_ok ?s tid ?se"
    using k(2-5) ph e(6) in_service_cong [OF parts(1)] by (simp add: session_ok_def task_ok_def Let_def)
  show ?thesis
  proof (rule moved_quiet [OF inv se(1) e(6) aside_trans [OF aside_set_phase [OF e(2,5)] aside_add] _ parts(2) _ _ ok])
    show "others s ?s tid" by (simp add: others_def add_def Let_def)
    show "get ?s = get s" by (simp add: add_def Let_def)
    show "session_turn s se = Some (?s, ?se)" using task_turn [OF se(2) step] t(1) by simp
    have "processing ?s ?r (write_params ?c n)" using e(6) processing_cong [OF parts(1)] by (simp add: in_service_def)
    from processing_unique [OF this] have "\<not> denied ?s ?se" using ph(1) by (auto simp: denied_def refused_def write_params_def)
    then show "denied ?s ?se \<longrightarrow> conflicts cs tid ?c" by blast
  qed (use ph se(2) in \<open>auto simp: same_work_def may_hold_def freezing_def stored_def left_turns_def Let_def\<close>)
qed

lemma turn_p1c:
  assumes inv: "sessions_inv cs ss s" and se: "ss tid = Some se" "ss_tasks se = Run ev # ts"
    and ph: "cl_phase (ss_client se) = Writing n" "\<not> n < length (cl_writes (ss_client se))"
  shows "turn_ok cs ss s tid se"
proof -
  let ?c = "ss_client se" and ?r = "ss_rid se"
  note k = running [OF inv se]
  have t: "ts = []" "started s ev ?r tid (AP1C (prepare_params ?c))" "preparing_ok s tid ?c None"
    using k(1) ph by (simp_all add: task_ok_def Let_def)
  from started_called [OF t(2)] obtain e where e: "called s ev e (AP1C (prepare_params ?c))" "ts_events s ev = Some e"
    "se_kind e = TP1C" "se_phase e = 0" "se_rid e = ?r" "in_service s ?r tid (AP1C (prepare_params ?c))"
    by (auto simp: request_of_def)
  let ?s = "set_phase s ev 1" and ?ts = "[Lock_keys ?r (prepare_params ?c) (map fst (cl_writes ?c))]"
  let ?se = "se\<lparr>ss_tasks := ?ts\<rparr>"
  have "getKeys s tid = map fst (cl_writes ?c)" using t(3) by (simp add: getKeys_pending preparing_ok_def tables_def)
  then have step: "task_step s (Run ev) = Inr (?s, ?ts)"
    using called_step [OF e(1)] e(3-5) k(2) by (simp add: prepare_params_def p1c_task_def)
  note tb = tables_parts [of ?s s tid, OF set_phase_parts(4,5,2,3)]
  have ok: "session_ok ?s tid ?se"
    using k(2-5) t(3) e(6) tb(1) in_service_cong [of ?s s]
    by (simp add: session_ok_def task_ok_def Let_def preparing_ok_def owns_def)
  show ?thesis
  proof (rule moved_quiet [OF inv se(1) e(6) aside_set_phase [OF e(2,5)] tb(2) _ _ _ ok])
    show "session_turn s se = Some (?s, ?se)" using task_turn [OF se(2) step] t(1) by simp
  qed (use ph se(2) t(3) in \<open>auto simp: same_work_def may_hold_def freezing_def stored_def left_turns_def Let_def
        denied_def refused_def preparing_ok_def\<close>)
qed

text \<open>The loop of the first phase.  A key that is taken belongs to the session, or to one that competes with it.\<close>

lemma rival_conflicts:
  assumes inv: "sessions_inv cs ss s" and se: "ss tid' = Some se'" "tid' \<noteq> tid" "rival c (ss_client se')"
  shows "conflicts cs tid c"
proof -
  from sessions_invD(5) [OF inv, of tid'] se(1) obtain d where
    d: "cs tid' = Some d" "same_work d (ss_client se')" by (auto simp: option_rel_Some2)
  with se(3) have "one_with cs tid' (rival c)" by (simp add: one_with_def rival_same(2))
  with se(2) show ?thesis by (auto simp: conflicts_def)
qed

lemma taken_conflicts:
  assumes inv: "sessions_inv cs ss s" and se: "ss tid = Some se" "\<not> freezing se" "\<not> stored se"
    and k: "touches se k (time_of (ss_client se))" "time_of (ss_client se) \<noteq> 0"
    and l: "fst (lock_at (ts_locks s) k (time_of (ss_client se))) \<noteq> FREE"
    and own: "may_hold se k \<longrightarrow> \<not> distinct (map fst (cl_writes (ss_client se)))"
  shows "conflicts cs tid (ss_client se)"
proof -
  let ?t = "time_of (ss_client se)"
  have "\<exists>tid'. one_with ss tid' (\<lambda>d. touches d k ?t \<and> (tid' = tid \<longrightarrow> may_hold d k))"
  proof (cases "get s k ?t")
    case None
    with sessions_invD(8) [OF inv, of k ?t] l obtain tid' where
      "one_with ss tid' (\<lambda>d. may_hold d k \<and> touches d k ?t) \<or> one_with ss tid' (\<lambda>d. freezing d \<and> touches d k ?t)"
      by (auto simp: cell_inv_def)
    with se show ?thesis by (intro exI [of _ tid']) (auto simp: one_with_def split: option.splits)
  next
    case (Some v)
    with sessions_invD(9) [OF inv] k(2) obtain tid' where "one_with ss tid' (\<lambda>d. stored d \<and> wrote d k ?t v)"
      by (auto simp: versions_inv_def)
    with se show ?thesis
      by (intro exI [of _ tid']) (force simp: one_with_def wrote_def touches_def keys_of_def split: option.splits)
  qed
  then obtain tid' d where d: "ss tid' = Some d" "touches d k ?t" "tid' = tid \<longrightarrow> may_hold d k"
    by (auto simp: one_with_def split: option.splits)
  show ?thesis
  proof (cases "tid' = tid")
    case True
    with d se(1) own show ?thesis by (simp add: conflicts_def)
  next
    case False
    from d(2) k(1) have "rival (ss_client se) (ss_client d)" by (auto simp: rival_def touches_def)
    with rival_conflicts [OF inv d(1) False] show ?thesis by blast
  qed
qed

lemma turn_locked:
  assumes inv: "sessions_inv cs ss s" and se: "ss tid = Some se" "ss_tasks se = Lock_keys r a [] # ts"
  shows "turn_ok cs ss s tid se"
proof -
  let ?c = "ss_client se" and ?r = "ss_rid se"
  note k = running [OF inv se]
  have keys: "keys_of ?c = set (map fst (cl_writes ?c))" by (simp add: keys_of_def)
  from k(1) have t: "ts = []" "r = ?r" "a = prepare_params ?c" "in_service s ?r tid (AP1C a)" "preparing_ok s tid ?c None"
    "locked_all s tid ?c"
    unfolding locked_all_def keys by (auto simp: task_ok_def Let_def simp del: set_map)
  let ?se = "se\<lparr>ss_tasks := [Vote r a True]\<rparr>"
  have step: "task_step s (Lock_keys r a []) = Inr (s, [Vote r a True])" by (simp add: task_step_def)
  have ok: "session_ok s tid ?se" using k(2-5) t by (simp add: session_ok_def task_ok_def Let_def)
  show ?thesis
  proof (rule moved_quiet [OF inv se(1) t(4) asideI _ _ _ _ ok])
    show "rest s s ?r" by (simp add: rest_def)
    show "session_turn s se = Some (s, ?se)" using task_turn [OF se(2) step] t(1) by simp
  qed (use se(2) t in \<open>auto simp: same_work_def may_hold_def freezing_def stored_def left_turns_def Let_def
        denied_def refused_def preparing_ok_def\<close>)
qed

lemma held_prefix:
  assumes "map fst ws = ds @ ks"
  shows "fst ` set (take (length ws - length ks) ws) = set ds"
proof -
  have "length ws = length ds + length ks" using arg_cong [OF assms, of length] by simp
  then have "take (length ws - length ks) (map fst ws) = ds" unfolding assms by simp
  then show ?thesis by (metis set_map take_map)
qed

text \<open>A lock that is granted, and one that is refused.\<close>

lemma turn_granted:
  assumes inv: "sessions_inv cs ss s" and se: "ss tid = Some se" "ss_tasks se = Lock_keys r a (key # ks) # ts"
    and m: "tryLock (ts_locks s) key tid (time_of (ss_client se)) (time_of (ss_client se)) False = Some (m, True)"
      "lm_inv m" "fst (lock_at (ts_locks s) key (time_of (ss_client se))) = FREE"
      "\<forall>k t. lock_at m k t = (if k = key \<and> t = time_of (ss_client se)
         then acquire False tid (lock_at (ts_locks s) k t) else lock_at (ts_locks s) k t)"
  shows "turn_ok cs ss s tid se"
proof -
  let ?c = "ss_client se" and ?r = "ss_rid se" and ?s = "s\<lparr>ts_locks := m\<rparr>"
  let ?t = "time_of ?c" and ?se = "se\<lparr>ss_tasks := [Lock_keys r a ks]\<rparr>"
  note k = running [OF inv se] and i = sessions_invD [OF inv]
  from k(1) obtain ds where t: "ts = []" "r = ?r" "a = prepare_params ?c" "in_service s ?r tid (AP1C a)"
    "preparing_ok s tid ?c None" "map fst (cl_writes ?c) = ds @ key # ks" "distinct ds" "owns s tid ?t (set ds)"
    by (auto simp: task_ok_def Let_def)
  have free: "lock_at (ts_locks s) key ?t = (FREE, {})" "get s key ?t = None"
    using i(8) [of key ?t] m(3) by (auto simp: cell_inv_def split: if_splits)
  then have locks: "lock_at m k t = (if k = key \<and> t = ?t then (WRITE_LOCK, {tid}) else lock_at (ts_locks s) k t)" for k t
    using m(4) by (simp add: acquire_def)
  have new: "key \<notin> set ds" using t(8) free(1) by (auto simp: owns_def)
  have held: "fst ` set (take (length (cl_writes ?c) - length ks) (cl_writes ?c)) = set (ds @ [key])"
    "fst ` set (take (length (cl_writes ?c) - length (key # ks)) (cl_writes ?c)) = set ds"
    using held_prefix [of "cl_writes ?c" "ds @ [key]" ks] held_prefix [of "cl_writes ?c" "ds" "key # ks"] t(6) by simp_all
  have step: "task_step s (Lock_keys r a (key # ks)) = Inr (?s, [Lock_keys r a ks])"
    using m(1) k(2) t(3) by (simp add: task_step_def prepare_params_def)
  note tb = tables_parts [of ?s s tid, simplified]
  have "owns ?s tid ?t (set (ds @ [key]))" using t(8) locks by (auto simp: owns_def)
  moreover have "preparing_ok ?s tid ?c None" using t(5) tb(1) by (simp add: preparing_ok_def)
  moreover have "in_service ?s ?r tid (AP1C a)" using t(4) in_service_cong [of ?s s] by simp
  ultimately have ok: "session_ok ?s tid ?se" using k(2-5) t(2,3,6,7) new
    by (simp add: session_ok_def task_ok_def Let_def)
  have w: "same_work ?c (ss_client ?se)" by (simp add: same_work_def)
  have st: "\<not> freezing se" "\<not> freezing ?se" "\<not> stored se" "\<not> stored ?se"
    using se(2) t(5) by (simp_all add: freezing_def stored_def preparing_ok_def)
  show ?thesis
  proof (rule moved_ok [OF inv se(1) t(4) aside_locks tb(2) _ _ _ _ w ok])
    show "registered (ts_locks ?s) = {}" using tryLock_events [OF m(1)] i(3) by simp
    show "cell_inv (ss(tid \<mapsto> ?se)) ?s k t" for k t
    proof (cases "k = key \<and> t = ?t")
      case True
      have "may_hold ?se key" using held(1) by (simp add: may_hold_def Let_def)
      moreover have "touches ?se key ?t" using t(6) by (simp add: touches_def keys_of_def flip: set_map)
      ultimately show ?thesis using True locks [of k t] free(2) by (auto simp: cell_inv_def)
    next
      case False
      then have l: "lock_at (ts_locks ?s) k t = lock_at (ts_locks s) k t" using locks [of k t] by auto
      have "may_hold se k \<longrightarrow> may_hold ?se k" using held se(2) by (simp add: may_hold_def Let_def)
      with st show ?thesis by (intro cell_inv_same [OF i(8) l _ se(1) w]) simp_all
    qed
    show "versions_inv (ss(tid \<mapsto> ?se)) ?s" by (rule versions_inv_same [OF i(9) _ se(1) w]) (use st in simp_all)
    show "winners_inv (ss(tid \<mapsto> ?se))" by (rule winners_inv_same [OF i(10) se(1) w]) (use st in simp)
    show "session_turn s se = Some (?s, ?se)" using task_turn [OF se(2) step] t(1) by simp
  qed (use m(2) locks free(1) se(2) t(5) in \<open>auto simp: left_turns_def Let_def denied_def refused_def preparing_ok_def\<close>)
qed

lemma turn_refused:
  assumes inv: "sessions_inv cs ss s" and se: "ss tid = Some se" "ss_tasks se = Lock_keys r a (key # ks) # ts"
    and m: "tryLock (ts_locks s) key tid (time_of (ss_client se)) (time_of (ss_client se)) False = Some (m, False)"
      "lm_inv m" "fst (lock_at (ts_locks s) key (time_of (ss_client se))) \<noteq> FREE"
      "\<forall>k t. lock_at m k t = lock_at (ts_locks s) k t"
  shows "turn_ok cs ss s tid se"
proof -
  let ?c = "ss_client se" and ?r = "ss_rid se" and ?s = "s\<lparr>ts_locks := m\<rparr>"
  let ?t = "time_of ?c" and ?se = "se\<lparr>ss_tasks := [Vote r a False]\<rparr>"
  note k = running [OF inv se] and i = sessions_invD [OF inv]
  from k(1) obtain ds where t: "ts = []" "r = ?r" "a = prepare_params ?c" "in_service s ?r tid (AP1C a)"
    "preparing_ok s tid ?c None" "map fst (cl_writes ?c) = ds @ key # ks"
    by (auto simp: task_ok_def Let_def)
  have step: "task_step s (Lock_keys r a (key # ks)) = Inr (?s, [Vote r a False])"
    using m(1) k(2) t(3) by (simp add: task_step_def prepare_params_def)
  note tb = tables_parts [of ?s s tid, simplified]
  have "preparing_ok ?s tid ?c None" using t(5) tb(1) by (simp add: preparing_ok_def)
  moreover have "in_service ?s ?r tid (AP1C a)" using t(4) in_service_cong [of ?s s] by simp
  ultimately have ok: "session_ok ?s tid ?se" using k(2-5) t(2,3) by (simp add: session_ok_def task_ok_def Let_def)
  have w: "same_work ?c (ss_client ?se)" by (simp add: same_work_def)
  have st: "\<not> freezing se" "\<not> freezing ?se" "\<not> stored se" "\<not> stored ?se"
    using se(2) t(5) by (simp_all add: freezing_def stored_def preparing_ok_def)
  have own: "may_hold se key \<longrightarrow> \<not> distinct (map fst (cl_writes ?c))"
    using held_prefix [of "cl_writes ?c" "ds" "key # ks"] t(6) se(2) by (auto simp: may_hold_def Let_def)
  have touch: "touches se key ?t" using t(6) by (simp add: touches_def keys_of_def flip: set_map)
  show ?thesis
  proof (rule moved_ok [OF inv se(1) t(4) aside_locks tb(2) _ _ _ _ w ok])
    show "registered (ts_locks ?s) = {}" using tryLock_events [OF m(1)] i(3) by simp
    show "cell_inv (ss(tid \<mapsto> ?se)) ?s k t" for k t
      by (rule cell_inv_same [OF i(8) _ _ se(1) w]) (use m(4) st in \<open>simp_all add: may_hold_def\<close>)
    show "versions_inv (ss(tid \<mapsto> ?se)) ?s" by (rule versions_inv_same [OF i(9) _ se(1) w]) (use st in simp_all)
    show "winners_inv (ss(tid \<mapsto> ?se))" by (rule winners_inv_same [OF i(10) se(1) w]) (use st in simp)
    show "session_turn s se = Some (?s, ?se)" using task_turn [OF se(2) step] t(1) by simp
    show "denied ?s ?se \<longrightarrow> conflicts cs tid ?c"
      using taken_conflicts [OF inv se(1) st(1,3) touch k(3) m(3) own] by blast
  qed (use m(2,4) se(2) in \<open>simp_all add: left_turns_def Let_def\<close>)
qed

lemma turn_lock:
  assumes inv: "sessions_inv cs ss s" and se: "ss tid = Some se" "ss_tasks se = Lock_keys r a (key # ks) # ts"
  shows "turn_ok cs ss s tid se"
proof -
  let ?t = "time_of (ss_client se)"
  from avl.point_law [OF sessions_invD(2) [OF inv], of key tid ?t False] obtain m where
    m: "tryLock (ts_locks s) key tid ?t ?t False = Some (m, fst (lock_at (ts_locks s) key ?t) = FREE)" "lm_inv m"
    "\<forall>k t. lock_at m k t = (if fst (lock_at (ts_locks s) key ?t) = FREE \<and> k = key \<and> t = ?t
       then acquire False tid (lock_at (ts_locks s) k t) else lock_at (ts_locks s) k t)"
    by (auto simp: passes_def)
  show ?thesis
  proof (cases "fst (lock_at (ts_locks s) key ?t) = FREE")
    case True
    with turn_granted [OF inv se _ m(2)] m(1,3) show ?thesis by simp
  next
    case False
    with turn_refused [OF inv se _ m(2)] m(1,3) show ?thesis by simp
  qed
qed

text \<open>The vote.\<close>

lemma set_args_parts [simp]:
  "ts_locks (set_args s r x) = ts_locks s" "ts_pend_writes (set_args s r x) = ts_pend_writes s"
  "ts_rdy_to_commit (set_args s r x) = ts_rdy_to_commit s" "ts_tid_to_nodes (set_args s r x) = ts_tid_to_nodes s"
  "ts_tid_to_write_nodes (set_args s r x) = ts_tid_to_write_nodes s"
  by (simp_all add: set_args_def split: option.split)

lemma turn_vote:
  assumes inv: "sessions_inv cs ss s" and se: "ss tid = Some se" "ss_tasks se = Vote r a vote # ts"
  shows "turn_ok cs ss s tid se"
proof -
  let ?c = "ss_client se" and ?r = "ss_rid se"
  note k = running [OF inv se]
  from k(1) have t: "ts = []" "r = ?r" "a = prepare_params ?c" "in_service s ?r tid (AP1C a)" "preparing_ok s tid ?c None"
    "vote \<longrightarrow> locked_all s tid ?c" by (auto simp: task_ok_def Let_def)
  let ?a = "AP1C ((prepare_params ?c)\<lparr>rp1_vote := Some vote\<rparr>)"
  let ?s = "prepare (set_args s ?r ?a) tid (time_of ?c)" and ?se = "se\<lparr>ss_tasks := [Reply ?r]\<rparr>"
  have a: "(prepare_params ?c)\<lparr>rp1_nodes := insert_all (p1_write_nodes (rp1_args a)) (insert_all (p1_read_nodes (rp1_args a)) (rp1_nodes a)),
      rp1_vote := Some vote\<rparr> = (prepare_params ?c)\<lparr>rp1_vote := Some vote\<rparr>"
    unfolding t(3) by (simp add: prepare_params_def insert_all_def insert_zero)
  have step: "task_step s (Vote r a vote) = Inr (?s, [Reply ?r])"
    using a k(2) unfolding t(2,3) by (simp add: task_step_def Let_def) (simp add: prepare_params_def)
  have proc: "processing ?s ?r ?a"
    using processing_set_args [of s ?r "AP1C a" ?a] t(4) processing_cong [of ?s "set_args s ?r ?a" ?r ?a]
    by (simp add: in_service_def prepare_def)
  then have sv: "in_service ?s ?r tid ?a" using k(2) by (simp add: in_service_def args_tid_def accepted_def prepare_params_def)
  have "preparing_ok ?s tid ?c (Some (time_of ?c))"
    using t(5) by (simp add: preparing_ok_def tables_def prepare_def pending_def)
  moreover have "voted_ok ?s tid ?c ?r" using sv t(6)
    by (auto simp: voted_ok_def locked_all_def owns_def prepare_def)
  ultimately have ok: "session_ok ?s tid ?se" using k(2-5)
    by (simp add: session_ok_def task_ok_def Let_def preparing_ok_def)
  have no: "\<not> vote" if "processing ?s ?r (AP1C ((prepare_params ?c)\<lparr>rp1_vote := Some False\<rparr>))"
    using processing_unique [OF proc that] by (simp add: prepare_params_def)
  show ?thesis
  proof (rule moved_quiet [OF inv se(1) t(4) aside_trans [OF aside_set_args aside_prepare] _ _ _ _ ok])
    show "others s ?s tid" by (simp add: others_def prepare_def)
    show "ts_locks ?s = ts_locks s" by (simp add: prepare_def)
    show "get ?s = get s" using same_data_get [OF same_data_set_args] by (simp add: prepare_def)
    show "session_turn s se = Some (?s, ?se)" using task_turn [OF se(2) step] t(1) by simp
    have "denied ?s ?se \<longrightarrow> denied s se"
      using no se(2) t(5) by (auto simp: denied_def refused_def preparing_ok_def)
    then show "denied ?s ?se \<longrightarrow> conflicts cs tid ?c" using sessions_invD(7) [OF inv se(1)] by blast
  qed (use se(2) t(5) in \<open>auto simp: same_work_def may_hold_def freezing_def stored_def left_turns_def Let_def preparing_ok_def\<close>)
qed

end
