(* ===== verification/Interleaved_Transactions.thy ===== *)
theory Interleaved_Transactions
  imports Session_Turns
begin

text \<open>
  Transactions of writes stay isolated when the threads of the server take turns inside events:
  the turns of the second phase keep the invariant of the sessions, and so does any sequence of
  turns.
\<close>

section \<open>The second phase\<close>

lemma rival_sym: "rival c d \<Longrightarrow> rival d c"
  by (auto simp: rival_def)

lemma winners_inv_add:
  assumes "winners_inv ss"
    and "\<And>tid' d. tid' \<noteq> tid \<Longrightarrow> ss tid' = Some d \<Longrightarrow> freezing d \<or> stored d \<Longrightarrow> \<not> rival (ss_client se) (ss_client d)"
  shows "winners_inv (ss(tid \<mapsto> se))"
  unfolding winners_inv_def
proof (intro allI impI)
  fix a b x y
  assume h: "a \<noteq> b" "(ss(tid \<mapsto> se)) a = Some x" "(ss(tid \<mapsto> se)) b = Some y" "freezing x \<or> stored x" "freezing y \<or> stored y"
  consider "a = tid" "b \<noteq> tid" | "b = tid" "a \<noteq> tid" | "a \<noteq> tid" "b \<noteq> tid" using h(1) by blast
  then show "\<not> rival (ss_client x) (ss_client y)"
  proof cases
    case 1
    with h assms(2) [of b y] show ?thesis by simp
  next
    case 2
    with h assms(2) [of a x] rival_sym show ?thesis by auto
  next
    case 3
    with h assms(1) [unfolded winners_inv_def, rule_format, of a b x y] show ?thesis by simp
  qed
qed

text \<open>A session that is to freeze or free its locks.\<close>

lemma deciding:
  assumes "sessions_inv cs ss s" "ss tid = Some se" "ss_tasks se = Run ev # ts" "cl_phase (ss_client se) = Prepared vote"
  shows "ts = []" "started s ev (ss_rid se) tid (AP2C (decide_params (ss_client se) vote))"
    "tables s tid None None (cl_writes (ss_client se)) (Some (time_of (ss_client se)))"
    "vote \<longrightarrow> locked_all s tid (ss_client se)"
  using running(1) [OF assms(1-3)] assms(4) by (simp_all add: task_ok_def Let_def)

lemma holds_cells:
  assumes "sessions_inv cs ss s" "ss tid = Some se" "tid \<in> snd (lock_at (ts_locks s) k t)"
  shows "lock_at (ts_locks s) k t = (WRITE_LOCK, {tid})" "touches se k t" "get s k t = None"
  using sessions_invD(8) [OF assms(1), of k t] assms(2,3) by (auto simp: cell_inv_def one_with_def split: if_splits)

lemma winner_locked:
  assumes inv: "sessions_inv cs ss s" and se: "ss tid = Some se" "time_of (ss_client se) \<noteq> 0" "locked_all s tid (ss_client se)"
    and d: "ss tid' = Some d" "freezing d \<or> stored d"
  shows "\<not> rival (ss_client se) (ss_client d)"
proof
  let ?t = "time_of (ss_client se)"
  assume r: "rival (ss_client se) (ss_client d)"
  then obtain k v where k: "(k, v) \<in> set (cl_writes (ss_client d))" "k \<in> keys_of (ss_client se)" "time_of (ss_client d) = ?t"
    by (force simp: rival_def keys_of_def)
  have "lock_at (ts_locks s) k ?t = (WRITE_LOCK, {tid})" using se(3) k(2) by (simp add: locked_all_def owns_def)
  moreover have "lock_at (ts_locks s) k ?t = (FREEZE_WRITE_LOCK, {})"
  proof (cases "stored d")
    case True
    with d(1) k have "one_with ss tid' (\<lambda>d. stored d \<and> wrote d k ?t v)" by (simp add: one_with_def wrote_def)
    with sessions_invD(9) [OF inv] se(2) have "get s k ?t = Some v" by (auto simp: versions_inv_def)
    with sessions_invD(8) [OF inv, of k ?t] show ?thesis by (simp add: cell_inv_def)
  next
    case False
    with d(2) obtain ts where f: "ss_tasks d = Finalize tid' True # ts"
      using sessions_invD(6) [OF inv d(1)] by (auto simp: freezing_def session_ok_def task_ok_def Let_def)
    from running(1) [OF inv d(1) f] have "frozen_all s (ss_client d)" by (simp add: task_ok_def Let_def)
    moreover have "k \<in> keys_of (ss_client d)" using k(1) by (force simp: keys_of_def)
    ultimately show ?thesis using k(3) by (simp add: frozen_all_def)
  qed
  ultimately show False by simp
qed

lemma turn_freeze:
  assumes inv: "sessions_inv cs ss s" and se: "ss tid = Some se" "ss_tasks se = Run ev # ts"
    and ph: "cl_phase (ss_client se) = Prepared True"
  shows "turn_ok cs ss s tid se"
proof -
  let ?c = "ss_client se" and ?r = "ss_rid se"
  let ?t = "time_of ?c" and ?se = "se\<lparr>ss_tasks := [Finalize tid True, Reply ?r]\<rparr>"
  note k = running [OF inv se] and i = sessions_invD [OF inv] and t = deciding [OF inv se ph]
  from t(2) obtain e where e: "ready s ev e (AP2C (decide_params ?c True))" "se_rid e = ?r"
    and sv: "in_service s ?r tid (AP2C (decide_params ?c True))" by (auto simp: started_def)
  from freeze_ok [OF i(2), of tid] obtain m events where
    f: "freeze (ts_locks s) tid = Some (m, events)" "lm_inv m" "\<forall>k t. lock_at m k t = freeze_cell tid (lock_at (ts_locks s) k t)"
    by blast
  with freeze_events [OF f(1)] i(3) have m: "freeze (ts_locks s) tid = Some (m, [])" "registered m = {}" by auto
  let ?s = "(set_phase s ev 1)\<lparr>ts_locks := m\<rparr>"
  have step: "task_step s (Run ev) = Inr (?s, [Finalize tid True, Reply ?r])"
    using freeze_task [OF e(1) _ _ m(1)] k(2) e(2) by (simp add: decide_params_def)
  have locked: "locked_all s tid ?c" using t(4) by simp
  have locks: "lock_at m k t = (if touches se k t then (FREEZE_WRITE_LOCK, {}) else lock_at (ts_locks s) k t)" for k t
  proof (cases "touches se k t")
    case True
    with locked have "lock_at (ts_locks s) k t = (WRITE_LOCK, {tid})" by (auto simp: locked_all_def owns_def touches_def)
    with True f(3) show ?thesis by (simp add: freeze_cell_def)
  next
    case False
    with holds_cells(2) [OF inv se(1), of k t] have "tid \<notin> snd (lock_at (ts_locks s) k t)" by blast
    with False f(3) show ?thesis by (auto simp: freeze_cell_def)
  qed
  have mine: "lock_at (ts_locks s) k t = (WRITE_LOCK, {tid}) \<and> get s k t = None" if "touches se k t" for k t
    using that locked holds_cells(3) [OF inv se(1), of k t] by (auto simp: locked_all_def owns_def touches_def)
  have tb: "tables ?s tid = tables s tid" "others s ?s tid" by (rule tables_parts; simp)+
  have "frozen_all ?s ?c" using locked locks by (auto simp: frozen_all_def locked_all_def touches_def)
  moreover have "in_service ?s ?r tid (AP2C (decide_params ?c True))" using sv in_service_cong [of ?s s] by simp
  ultimately have ok: "session_ok ?s tid ?se" using k(2-5) ph t(3) tb(1) by (simp add: session_ok_def task_ok_def Let_def)
  have w: "same_work ?c (ss_client ?se)" by (simp add: same_work_def)
  have st: "freezing ?se" "\<not> stored ?se" "\<not> freezing se" "\<not> stored se"
    using se(2) ph by (simp_all add: freezing_def stored_def)
  have q: "aside s ?s ?r" using e aside_trans [OF aside_set_phase aside_locks] by (simp add: ready_def)
  show ?thesis
  proof (rule moved_ok [OF inv se(1) sv q tb(2) _ _ _ _ w ok])
    show "cell_inv (ss(tid \<mapsto> ?se)) ?s k t" for k t
    proof (cases "touches se k t")
      case True
      with st(1) have "one_with (ss(tid \<mapsto> ?se)) tid (\<lambda>d. freezing d \<and> touches d k t)" by (simp add: touches_def)
      with True locks [of k t] mine show ?thesis by (auto simp: cell_inv_def)
    next
      case False
      with locks [of k t] show ?thesis by (intro cell_inv_same [OF i(8) _ _ se(1) w]) simp_all
    qed
    show "versions_inv (ss(tid \<mapsto> ?se)) ?s" by (rule versions_inv_same [OF i(9) _ se(1) w]) (use st in simp_all)
    show "winners_inv (ss(tid \<mapsto> ?se))"
      by (rule winners_inv_add [OF i(10)]) (use winner_locked [OF inv se(1) k(3) locked] in simp)
    show "session_turn s se = Some (?s, ?se)" using task_turn [OF se(2) step] t(1) by simp
    show "lock_at (ts_locks ?s) k t = (WRITE_LOCK, {tid'})"
      if "tid' \<noteq> tid" "lock_at (ts_locks s) k t = (WRITE_LOCK, {tid'})" for tid' k t
      using that locks [of k t] mine [of k t] by (auto split: if_splits)
    show "denied ?s ?se \<longrightarrow> conflicts cs tid ?c" using ph by (simp add: denied_def refused_def)
  qed (use f(2) m(2) locks se(2) ph in \<open>simp_all add: left_turns_def Let_def\<close>)
qed

lemma cell_inv_not_held:
  assumes "cell_inv ss s k t" "lock_at (ts_locks s1) k t = lock_at (ts_locks s) k t" "get s1 k t = get s k t"
    and "tid \<notin> snd (lock_at (ts_locks s) k t)" "ss tid = Some se" "\<not> freezing se"
  shows "cell_inv (ss(tid \<mapsto> se')) s1 k t"
proof -
  consider "get s k t \<noteq> None" "lock_at (ts_locks s) k t = (FREEZE_WRITE_LOCK, {})"
    | "get s k t = None" "lock_at (ts_locks s) k t = (FREE, {})"
    | tid' where "get s k t = None" "lock_at (ts_locks s) k t = (WRITE_LOCK, {tid'})"
      "one_with ss tid' (\<lambda>se. may_hold se k \<and> touches se k t)"
    | tid' where "get s k t = None" "lock_at (ts_locks s) k t = (FREEZE_WRITE_LOCK, {})"
      "one_with ss tid' (\<lambda>se. freezing se \<and> touches se k t)"
    using assms(1) by (auto simp: cell_inv_def split: if_splits)
  then show ?thesis
  proof cases
    case 3
    with assms(4) have "tid' \<noteq> tid" by auto
    with 3 have "one_with (ss(tid \<mapsto> se')) tid' (\<lambda>se. may_hold se k \<and> touches se k t)" by simp
    with 3 assms(2,3) show ?thesis unfolding cell_inv_def by auto
  next
    case 4
    with assms(5,6) have "tid' \<noteq> tid" by (auto simp: one_with_def)
    with 4 have "one_with (ss(tid \<mapsto> se')) tid' (\<lambda>se. freezing se \<and> touches se k t)" by simp
    with 4 assms(2,3) show ?thesis unfolding cell_inv_def by (auto simp del: one_with_upd)
  qed (use assms(2,3) in \<open>simp_all add: cell_inv_def\<close>)
qed

lemma turn_unlock:
  assumes inv: "sessions_inv cs ss s" and se: "ss tid = Some se" "ss_tasks se = Run ev # ts"
    and ph: "cl_phase (ss_client se) = Prepared False"
  shows "turn_ok cs ss s tid se"
proof -
  let ?c = "ss_client se" and ?r = "ss_rid se"
  let ?se = "se\<lparr>ss_tasks := [Finalize tid False, Reply ?r]\<rparr>"
  note k = running [OF inv se] and i = sessions_invD [OF inv] and t = deciding [OF inv se ph]
  from started_called [OF t(2)] obtain e where e: "called s ev e (AP2C (decide_params ?c False))" "ts_events s ev = Some e"
    "se_kind e = TP2C" "se_phase e = 0" "se_rid e = ?r" and sv: "in_service s ?r tid (AP2C (decide_params ?c False))"
    by (auto simp: request_of_def)
  have "\<not> shares_reads (ts_locks s) tid" using holds_cells(1) [OF inv se(1)] by (fastforce simp: shares_reads_def)
  from unlock_ok [OF i(2) this] obtain m events where
    f: "unlock (ts_locks s) tid = Some (m, events)" "lm_inv m"
    "\<forall>k t. lock_at m k t = (if tid \<in> snd (lock_at (ts_locks s) k t) then (FREE, {}) else lock_at (ts_locks s) k t)"
    by blast
  with unlock_events [OF f(1)] i(3) have m: "unlock (ts_locks s) tid = Some (m, [])" "registered m = {}" by auto
  let ?s = "(set_phase s ev 1)\<lparr>ts_locks := m\<rparr>"
  have step: "task_step s (Run ev) = Inr (?s, [Finalize tid False, Reply ?r])"
    using called_step [OF e(1)] e(3-5) k(2) m(1) by (simp add: decide_params_def p2c_task_def Let_def)
  have tb: "tables ?s tid = tables s tid" "others s ?s tid" by (rule tables_parts; simp)+
  have "in_service ?s ?r tid (AP2C (decide_params ?c False))" using sv in_service_cong [of ?s s] by simp
  then have ok: "session_ok ?s tid ?se" using k(2-5) ph t(3) tb(1) by (simp add: session_ok_def task_ok_def Let_def)
  have w: "same_work ?c (ss_client ?se)" by (simp add: same_work_def)
  have st: "\<not> freezing ?se" "\<not> stored ?se" "\<not> freezing se" "\<not> stored se"
    using se(2) ph by (simp_all add: freezing_def stored_def)
  show ?thesis
  proof (rule moved_ok [OF inv se(1) sv aside_trans [OF aside_set_phase [OF e(2,5)] aside_locks] tb(2) _ _ _ _ w ok])
    show "cell_inv (ss(tid \<mapsto> ?se)) ?s k t" for k t
    proof (cases "tid \<in> snd (lock_at (ts_locks s) k t)")
      case True
      with holds_cells(3) [OF inv se(1)] f(3) show ?thesis by (simp add: cell_inv_def)
    next
      case False
      then have same: "lock_at (ts_locks ?s) k t = lock_at (ts_locks s) k t" "get ?s k t = get s k t" using f(3) by simp_all
      show ?thesis by (rule cell_inv_not_held [OF i(8) same False se(1) st(3)])
    qed
    show "versions_inv (ss(tid \<mapsto> ?se)) ?s" by (rule versions_inv_same [OF i(9) _ se(1) w]) (use st in simp_all)
    show "winners_inv (ss(tid \<mapsto> ?se))" by (rule winners_inv_same [OF i(10) se(1) w]) (use st in simp)
    show "session_turn s se = Some (?s, ?se)" using task_turn [OF se(2) step] t(1) by simp
    show "denied ?s ?se \<longrightarrow> conflicts cs tid ?c" using i(7) [OF se(1)] ph by (simp add: denied_def refused_def)
  qed (use f(2,3) m(2) se(2) ph in \<open>simp_all add: left_turns_def Let_def\<close>)
qed

text \<open>The end of a transaction at the server.\<close>

lemma versions_inv_commit:
  assumes inv: "sessions_inv cs ss s" and se: "ss tid = Some se" "freezing se" "\<not> stored se"
    and se': "stored se'" "\<And>k t v. wrote se' k t v \<longleftrightarrow> touches se k t \<and> map_of ws k = Some v"
    and get: "\<And>k t. get s1 k t = (if touches se k t then map_of ws k else get s k t)"
  shows "versions_inv (ss(tid \<mapsto> se')) s1"
  unfolding versions_inv_def
proof (intro allI impI)
  fix k t v
  assume t: "t \<noteq> (0 :: u64)"
  have old: "(get s k t = Some v) = (\<exists>tid'. one_with ss tid' (\<lambda>se. stored se \<and> wrote se k t v))"
    using sessions_invD(9) [OF inv] t by (simp add: versions_inv_def)
  have "\<not> one_with ss tid (\<lambda>se. stored se \<and> wrote se k t v)" using se by (simp add: one_with_def)
  then have new: "(\<exists>tid'. one_with (ss(tid \<mapsto> se')) tid' (\<lambda>se. stored se \<and> wrote se k t v)) \<longleftrightarrow> wrote se' k t v \<or> get s k t = Some v"
    using se'(1) unfolding old by auto
  have none: "get s k t \<noteq> Some v" if touch: "touches se k t"
  proof
    assume "get s k t = Some v"
    then obtain tid' d where d: "ss tid' = Some d" "stored d" "wrote d k t v"
      unfolding old by (auto simp: one_with_def split: option.splits)
    then have "tid' \<noteq> tid" using se by auto
    moreover have "rival (ss_client se) (ss_client d)" using touch d(3) by (force simp: rival_def touches_def wrote_def keys_of_def)
    ultimately show False
      using sessions_invD(10) [OF inv, unfolded winners_inv_def, rule_format, of tid tid' se d] se(1,2) d(1,2) by blast
  qed
  show "(get s1 k t = Some v) = (\<exists>tid'. one_with (ss(tid \<mapsto> se')) tid' (\<lambda>se. stored se \<and> wrote se k t v))"
    unfolding new se'(2) get using none by auto
qed

lemma turn_finalize:
  assumes inv: "sessions_inv cs ss s" and se: "ss tid = Some se" "ss_tasks se = Finalize tid' vote # ts"
  shows "turn_ok cs ss s tid se"
proof -
  let ?c = "ss_client se" and ?r = "ss_rid se"
  let ?t = "time_of ?c" and ?s = "finalize s tid vote" and ?se = "se\<lparr>ss_tasks := [Reply ?r]\<rparr>"
  note k = running [OF inv se] and i = sessions_invD [OF inv]
  from k(1) have t: "ts = [Reply ?r]" "tid' = tid" "cl_phase ?c = Prepared vote"
    "tables s tid None None (cl_writes ?c) (Some ?t)" "vote \<longrightarrow> frozen_all s ?c"
    and sv: "in_service s ?r tid (AP2C (decide_params ?c vote))" by (simp_all add: task_ok_def Let_def)
  have step: "task_step s (Finalize tid' vote) = Inr (?s, [])" by (simp add: task_step_def t(2))
  have f: "forgotten s ?s tid" "rest s ?s ?r" by (rule forgotten_finalize, rule rest_finalize)
  have o: "others s ?s tid" "unknown ?s tid"
    using f t(4) by (simp_all add: others_def unknown_def forgotten_def rest_def tables_def)
  have "frozen_all (finalize s tid v) ?c = frozen_all s ?c" for v by (simp add: frozen_all_def)
  moreover have "in_service ?s ?r tid args = in_service s ?r tid args" for args
    by (rule in_service_cong) simp
  ultimately have ok: "session_ok ?s tid ?se" using k(2-5) t(3,5) sv o(2) by (simp add: session_ok_def task_ok_def Let_def)
  have w: "same_work ?c (ss_client ?se)" by (simp add: same_work_def)
  have st: "freezing se = vote" "\<not> stored se" "\<not> freezing ?se" "stored ?se = vote" "\<not> may_hold se k" for k
    using se(2) t(3) by (auto simp: freezing_def stored_def may_hold_def)
  have keys: "set (getKeys s tid) = keys_of ?c" and p: "the (ts_pend_writes s tid) = cl_writes ?c"
    using t(4) k(4) by (auto simp: getKeys_pending keys_of_def tables_def pending_def split: option.splits)
  have get: "get ?s k t = (if vote \<and> touches se k t then map_of (cl_writes ?c) k else get s k t)" for k t
  proof (cases vote)
    case True
    with t(5) have "map_of (rev (cl_writes ?c)) = map_of (cl_writes ?c)"
      by (intro map_of_rev_distinct) (simp add: frozen_all_def)
    with True t(4) k(3) show ?thesis using get_finalize_commit [of s tid k t] keys p
      by (auto simp: tables_def touches_def)
  qed (simp add: get_finalize_abort)
  have wrote: "wrote ?se k t v \<longleftrightarrow> touches se k t \<and> map_of (cl_writes ?c) k = Some v" if vote for k t v
    using t(5) that by (force simp: wrote_def touches_def frozen_all_def keys_of_def)
  show ?thesis
  proof (rule moved_ok [OF inv se(1) sv aside_finalize o(1) _ _ _ _ w ok])
    show "cell_inv (ss(tid \<mapsto> ?se)) ?s k t" for k t
    proof (cases "vote \<and> touches se k t")
      case True
      then have "map_of (cl_writes ?c) k \<noteq> None" by (simp add: touches_def keys_of_def map_of_eq_None_iff)
      with True t(5) get [of k t] show ?thesis by (auto simp: cell_inv_def frozen_all_def touches_def)
    next
      case False
      with get [of k t] st show ?thesis by (intro cell_inv_same [OF i(8) _ _ se(1) w]) auto
    qed
    show "versions_inv (ss(tid \<mapsto> ?se)) ?s"
    proof (cases vote)
      case True
      show ?thesis by (rule versions_inv_commit [OF inv se(1) _ st(2)]) (use get wrote st True in simp_all)
    next
      case False
      with get have "get ?s = get s" by (simp add: fun_eq_iff)
      then show ?thesis by (rule versions_inv_same [OF i(9) _ se(1) w]) (use st False in simp)
    qed
    show "winners_inv (ss(tid \<mapsto> ?se))" by (rule winners_inv_same [OF i(10) se(1) w]) (use st in simp)
    show "session_turn s se = Some (?s, ?se)" using task_turn [OF se(2) step] t(1) by simp
    show "denied ?s ?se \<longrightarrow> conflicts cs tid ?c" 
      using sv i(7) [OF se(1)] by (auto simp: denied_def in_service_def decide_params_def dest: processing_unique)
  qed (use i(2,3) se(2) t(3) in \<open>simp_all add: left_turns_def Let_def\<close>)
qed

section \<open>Any order of turns\<close>

lemma turn_tasks:
  assumes inv: "sessions_inv cs ss s" and se: "ss tid = Some se" "ss_tasks se = t # ts"
  shows "turn_ok cs ss s tid se"
proof -
  note k = running(1) [OF inv se]
  show ?thesis
  proof (cases t)
    case (Run ev)
    note r = se(2) [unfolded Run]
    show ?thesis
    proof (cases "cl_phase (ss_client se)")
      case (Writing n)
      with turn_write [OF inv se(1) r] turn_p1c [OF inv se(1) r] show ?thesis by blast
    next
      case (Prepared vote)
      with turn_freeze [OF inv se(1) r] turn_unlock [OF inv se(1) r] show ?thesis by (cases vote) auto
    qed (use k Run in \<open>simp add: task_ok_def Let_def\<close>)
  next
    case (Lock_keys r a ks)
    with se turn_locked [OF inv se(1)] turn_lock [OF inv se(1)] show ?thesis by (cases ks) auto
  next
    case (Vote r a vote)
    with se turn_vote [OF inv se(1)] show ?thesis by simp
  next
    case (Finalize tid' vote)
    with se turn_finalize [OF inv se(1)] show ?thesis by simp
  next
    case (Reply r)
    with k se have r: "ss_tasks se = [Reply r]" by (simp add: task_ok_def Let_def)
    show ?thesis
    proof (cases "cl_phase (ss_client se)")
      case (Writing n)
      with reply_write [OF inv se(1) r] reply_p1c [OF inv se(1) r] show ?thesis by blast
    next
      case (Prepared vote)
      with reply_p2c [OF inv se(1) r] show ?thesis by blast
    qed (use k Reply in \<open>simp add: task_ok_def Let_def\<close>)
  qed
qed

lemma any_turn:
  assumes inv: "sessions_inv cs ss s" and se: "ss tid = Some se"
  shows "turn_ok cs ss s tid se"
proof (cases "ss_tasks se")
  case Nil
  show ?thesis
  proof (cases "cl_phase (ss_client se)")
    case (Writing n)
    with send_write [OF inv se Nil] send_p1c [OF inv se Nil] show ?thesis by blast
  next
    case (Prepared vote)
    with send_p2c [OF inv se Nil] show ?thesis by blast
  next
    case (Decided vote)
    with Nil have "session_turn s se = Some (s, se)" "left_turns se = 0"
      by (simp_all add: session_turn_def client_msg_def left_turns_def Let_def)
    moreover have "ss(tid \<mapsto> se) = ss" using se by (simp add: fun_upd_idem)
    ultimately show ?thesis using inv by (simp add: turn_ok_def)
  qed
next
  case (Cons t ts)
  with turn_tasks [OF inv se] show ?thesis by blast
qed

lemma session_turns_ok:
  assumes "sessions_inv cs ss s"
  shows "\<exists>s' ss'. session_turns (s, ss) tids = Some (s', ss') \<and> sessions_inv cs ss' s'
    \<and> (\<forall>tid. rel_option (\<lambda>se se'. left_turns se' \<le> left_turns se - count_list tids tid) (ss tid) (ss' tid))"
  using assms
proof (induction tids arbitrary: s ss)
  case Nil
  have "rel_option (\<lambda>se se'. left_turns se' \<le> left_turns se) (ss tid) (ss tid)" for tid by (cases "ss tid") auto
  with Nil show ?case by simp
next
  case (Cons a tids)
  show ?case
  proof (cases "ss a")
    case None
    from Cons.IH [OF Cons.prems] obtain s' ss' where
      r: "session_turns (s, ss) tids = Some (s', ss')" "sessions_inv cs ss' s'"
      "\<forall>tid. rel_option (\<lambda>se se'. left_turns se' \<le> left_turns se - count_list tids tid) (ss tid) (ss' tid)" by blast
    have "rel_option (\<lambda>se se'. left_turns se' \<le> left_turns se - count_list (a # tids) tid) (ss tid) (ss' tid)" for tid
      using r(3) [rule_format, of tid] None by (cases "ss tid") (auto simp: option_rel_Some1)
    with r(1,2) None show ?thesis by simp
  next
    case (Some se)
    from any_turn [OF Cons.prems Some] obtain s1 se1 where
      one: "session_turn s se = Some (s1, se1)" "sessions_inv cs (ss(a \<mapsto> se1)) s1" "left_turns se1 \<le> left_turns se - 1"
      by (auto simp: turn_ok_def)
    from Cons.IH [OF one(2)] obtain s' ss' where
      r: "session_turns (s1, ss(a \<mapsto> se1)) tids = Some (s', ss')" "sessions_inv cs ss' s'"
      "\<forall>tid. rel_option (\<lambda>se se'. left_turns se' \<le> left_turns se - count_list tids tid) ((ss(a \<mapsto> se1)) tid) (ss' tid)"
      by blast
    have "rel_option (\<lambda>se se'. left_turns se' \<le> left_turns se - count_list (a # tids) tid) (ss tid) (ss' tid)" for tid
      using r(3) [rule_format, of tid] one(3) Some by (cases "tid = a"; cases "ss tid") (auto simp: option_rel_Some1)
    with r(1,2) one(1) Some show ?thesis by simp
  qed
qed

lemma no_turns_left: "left_turns se = 0 \<Longrightarrow> ss_tasks se = [] \<and> (\<exists>vote. cl_phase (ss_client se) = Decided vote)"
  by (auto simp: left_turns_def Let_def split: list.splits task.splits phase.splits if_splits)

lemma sessions_start:
  assumes "\<And>tid c. cs tid = Some c \<Longrightarrow> \<exists>ts ws. c = new_client tid ts ws \<and> ts \<noteq> 0 \<and> ws \<noteq> []"
  shows "sessions_inv cs (map_option new_session \<circ> cs) main_server"
proof -
  let ?ss = "map_option new_session \<circ> cs"
  have se: "session_ok main_server tid se \<and> \<not> denied main_server se \<and> \<not> freezing se \<and> \<not> stored se" if s: "?ss tid = Some se" for tid se
  proof -
    from s assms obtain ts ws where "se = new_session (new_client tid ts ws)" "ts \<noteq> 0" "ws \<noteq> []" by fastforce
    then show ?thesis using unknown_start [of tid]
      by (auto simp: session_ok_def new_session_def client_ok_def new_client_def refused_def unknown_def pending_def
          denied_def freezing_def stored_def)
  qed
  then have "winners_inv ?ss" unfolding winners_inv_def by blast
  moreover have "versions_inv ?ss main_server"
    using se by (auto simp: versions_inv_def get_start one_with_def split: option.splits)
  moreover have "cell_inv ?ss main_server k t" for k t by (simp add: cell_inv_def get_start locks_start initial_cell_def)
  moreover have "rel_option (\<lambda>c se. same_work c (ss_client se)) (cs tid) (?ss tid)" for tid
    by (cases "cs tid") (simp_all add: same_work_def new_session_def)
  moreover have "\<forall>ev e. ts_events main_server ev = Some e \<longrightarrow> ev < ts_next_event main_server"
    by (simp add: main_server_def new_tserver_def)
  moreover note idleD(1,8) [OF idle_main] idle_polling [OF idle_main] data_inv_locks [OF server_inv_data [OF idleD(1) [OF idle_main]]]
  ultimately show ?thesis using se unfolding sessions_inv_def by blast
qed

text \<open>
  C3: transactions are isolated even when the threads of the server take turns inside events:
  any number of coordinators, each with its own transaction number, send their writes and the
  two phases of their commits to an empty server, a thread serves each request, and the threads
  take turns after every lock, every access to a table and every reply, in any order.  The
  process never ends, and a client that has got enough turns has its decision; the versions in
  the store are exactly the writes of the transactions that have been stored, and they are frozen; no
  two stored transactions have written the same key at the same time; and a client is refused
  only when it writes a key twice or another one writes a key of it at its time.
\<close>
theorem interleaved_transactions_isolated:
  assumes "\<And>tid c. cs tid = Some c \<Longrightarrow> \<exists>ts ws. c = new_client tid ts ws \<and> ts \<noteq> 0 \<and> ws \<noteq> []"
  shows "\<exists>s ss. session_turns (main_server, map_option new_session \<circ> cs) tids = Some (s, ss) \<and> dom ss = dom cs
    \<and> (\<forall>tid c. cs tid = Some c \<longrightarrow> (\<exists>se. ss tid = Some se \<and> same_work c (ss_client se)
         \<and> (4 * length (cl_writes c) + 9 \<le> count_list tids tid \<longrightarrow>
              ss_tasks se = [] \<and> (\<exists>vote. cl_phase (ss_client se) = Decided vote))
         \<and> (refused (ss_client se) \<longrightarrow> conflicts cs tid c)))
    \<and> (\<forall>k t v. t \<noteq> 0 \<longrightarrow> (get s k t = Some v \<longleftrightarrow> (\<exists>tid. one_with ss tid (\<lambda>se. stored se \<and> wrote se k t v))))
    \<and> (\<forall>k t. get s k t \<noteq> None \<longrightarrow> committed s k t)
    \<and> (\<forall>tid tid' se se'. tid \<noteq> tid' \<longrightarrow> ss tid = Some se \<longrightarrow> ss tid' = Some se' \<longrightarrow> stored se \<longrightarrow> stored se' \<longrightarrow>
         \<not> rival (ss_client se) (ss_client se'))"
proof -
  let ?ss = "map_option new_session \<circ> cs"
  from session_turns_ok [OF sessions_start [OF assms], where tids = tids] obtain s ss where
    run: "session_turns (main_server, ?ss) tids = Some (s, ss)" "sessions_inv cs ss s"
    "\<And>tid. rel_option (\<lambda>se se'. left_turns se' \<le> left_turns se - count_list tids tid) (?ss tid) (ss tid)" by blast
  note i = sessions_invD [OF run(2)]
  have each: "\<exists>se. ss tid = Some se \<and> same_work c (ss_client se)
       \<and> (4 * length (cl_writes c) + 9 \<le> count_list tids tid \<longrightarrow>
            ss_tasks se = [] \<and> (\<exists>vote. cl_phase (ss_client se) = Decided vote))
       \<and> (refused (ss_client se) \<longrightarrow> conflicts cs tid c)" if c: "cs tid = Some c" for tid c
  proof -
    from i(5) [of tid] c obtain se where se: "ss tid = Some se" "same_work c (ss_client se)"
      by (auto simp: option_rel_Some1)
    from assms [OF c] have "left_turns (new_session c) = 4 * length (cl_writes c) + 9"
      by (auto simp: left_turns_def new_session_def new_client_def)
    with run(3) [of tid] c se(1) no_turns_left [of se] have
      "4 * length (cl_writes c) + 9 \<le> count_list tids tid \<longrightarrow>
         ss_tasks se = [] \<and> (\<exists>vote. cl_phase (ss_client se) = Decided vote)" by auto
    with se i(7) [OF se(1)] conflicts_same [OF se(2)] show ?thesis by (auto simp: denied_def)
  qed
  have "ss tid = None \<longleftrightarrow> cs tid = None" for tid using i(5) [of tid] by (cases "cs tid"; cases "ss tid") auto
  then have "dom ss = dom cs" by (auto simp: dom_def)
  moreover have "committed s k t" if "get s k t \<noteq> None" for k t
    using i(8) [of k t] that by (simp add: committed_def cell_inv_def)
  ultimately show ?thesis using run(1) each i(9,10) unfolding versions_inv_def winners_inv_def
    by (intro exI [of _ s] exI [of _ ss] conjI) blast+
qed

text \<open>Two threads that take turns after every task serve two transactions that compete for a key.\<close>

lemma turn_by_turn:
  "count_list (concat (replicate n [1, 2 :: u64])) 1 = n" "count_list (concat (replicate n [1, 2 :: u64])) 2 = n"
  by (induction n) simp_all

theorem interleaved_transactions_isolated_witness:
  "\<exists>s ss se1 se2 vote1 vote2.
      session_turns (main_server, map_option new_session \<circ>
        [1 \<mapsto> new_client 1 3 [(5, ''7'')], 2 \<mapsto> new_client 2 3 [(5, ''8''), (6, ''9'')]])
        (concat (replicate 17 [1, 2])) = Some (s, ss)
    \<and> ss 1 = Some se1 \<and> ss 2 = Some se2
    \<and> cl_phase (ss_client se1) = Decided vote1 \<and> cl_phase (ss_client se2) = Decided vote2
    \<and> \<not> (vote1 \<and> vote2) \<and> (vote1 \<longrightarrow> get s 5 3 = Some ''7'') \<and> (vote2 \<longrightarrow> get s 6 3 = Some ''9'')"
proof -
  let ?cs = "[1 \<mapsto> new_client 1 3 [(5, ''7'')], 2 \<mapsto> new_client 2 3 [(5, ''8''), (6, ''9'')]] :: u64 \<rightharpoonup> client"
  let ?tids = "concat (replicate 17 [1, 2]) :: u64 list"
  have "\<exists>ts ws. c = new_client tid ts ws \<and> ts \<noteq> 0 \<and> ws \<noteq> []" if "?cs tid = Some c" for tid c
    using that by (cases "tid = 1"; cases "tid = 2") fastforce+
  from interleaved_transactions_isolated [of ?cs, OF this, of ?tids] obtain s ss where
    r: "session_turns (main_server, map_option new_session \<circ> ?cs) ?tids = Some (s, ss)"
    "\<forall>tid c. ?cs tid = Some c \<longrightarrow> (\<exists>se. ss tid = Some se \<and> same_work c (ss_client se)
         \<and> (4 * length (cl_writes c) + 9 \<le> count_list ?tids tid \<longrightarrow>
              ss_tasks se = [] \<and> (\<exists>vote. cl_phase (ss_client se) = Decided vote))
         \<and> (refused (ss_client se) \<longrightarrow> conflicts ?cs tid c))"
    "\<forall>k t v. t \<noteq> 0 \<longrightarrow> (get s k t = Some v \<longleftrightarrow> (\<exists>tid. one_with ss tid (\<lambda>se. stored se \<and> wrote se k t v)))"
    "\<forall>tid tid' se se'. tid \<noteq> tid' \<longrightarrow> ss tid = Some se \<longrightarrow> ss tid' = Some se' \<longrightarrow> stored se \<longrightarrow> stored se' \<longrightarrow>
         \<not> rival (ss_client se) (ss_client se')"
    by blast
  from r(2) [rule_format, of 1] obtain se1 vote1 where c1: "ss 1 = Some se1" "cl_phase (ss_client se1) = Decided vote1"
    "same_work (new_client 1 3 [(5, ''7'')]) (ss_client se1)" by (auto simp: new_client_def turn_by_turn)
  from r(2) [rule_format, of 2] obtain se2 vote2 where c2: "ss 2 = Some se2" "cl_phase (ss_client se2) = Decided vote2"
    "same_work (new_client 2 3 [(5, ''8''), (6, ''9'')]) (ss_client se2)" by (auto simp: new_client_def turn_by_turn)
  have w: "cl_writes (ss_client se1) = [(5, ''7'')]" "cl_writes (ss_client se2) = [(5, ''8''), (6, ''9'')]"
    "time_of (ss_client se1) = 3" "time_of (ss_client se2) = 3"
    using c1(3) c2(3) by (simp_all add: same_work_def new_client_def)
  then have "rival (ss_client se1) (ss_client se2)" by (simp add: rival_def keys_of_def)
  moreover have "\<not> rival (ss_client se1) (ss_client se2)" if "vote1" "vote2"
    using r(4) [rule_format, of 1 2 se1 se2] c1(1,2) c2(1,2) that by (simp add: stored_def)
  ultimately have "\<not> (vote1 \<and> vote2)" by blast
  moreover have three: "(3 :: u64) \<noteq> 0" by simp
  have "get s 5 3 = Some ''7''" if "vote1"
    using c1(1,2) w that by (subst r(3) [rule_format, OF three]) (intro exI [of _ 1], simp add: one_with_def stored_def wrote_def)
  moreover have "get s 6 3 = Some ''9''" if "vote2"
    using c2(1,2) w that by (subst r(3) [rule_format, OF three]) (intro exI [of _ 2], simp add: one_with_def stored_def wrote_def)
  ultimately show ?thesis using r(1) c1(1,2) c2(1,2) by blast
qed

end
