(* ===== verification/Lock_Threads.thy ===== *)
theory Lock_Threads
  imports Lock_Interface Request
begin

text \<open>
  The threads inside the lock manager: the reader-writer locks of its two maps and the mutexes
  of keys and transactions.  An operation is a sequence of tasks, each of which takes or gives
  back one of these guards or works on what it protects; threads take turns between tasks.
\<close>

section \<open>Guards\<close>

text \<open>\<open>_key_map_lock\<close>, \<open>_transaction_map_lock\<close>, and the mutexes of \<open>KeyInfo\<close> and \<open>TransactionInfo\<close>.\<close>

datatype guard = Key_map | Trans_map | Key_mutex u64 | Trans_mutex u64

datatype mode = Shared | Exclusive

definition clashes :: "guard \<times> mode \<Rightarrow> guard \<times> mode \<Rightarrow> bool" where
  "clashes x y \<longleftrightarrow> fst x = fst y \<and> (snd x = Exclusive \<or> snd y = Exclusive)"

section \<open>Tasks\<close>

text \<open>What an operation returns: whether the lock is granted and from when, or the events to run.\<close>

datatype outcome = Granted bool | Granted_from bool u64 | To_run "event_id list"

text \<open>
  The tasks, in the order of the code.  \<open>Release_keys\<close> is the loop of \<open>freeze\<close> and \<open>unlock\<close>
  over the keys of a transaction; its flag tells them apart.
\<close>

datatype lock_task =
  Take guard mode
| Give guard mode
| Check_key u64
| Create_key u64
| Lock_nodes u64 u64 u64 u64 bool
| Lock_nodes_back u64 u64 u64 bool event_id u64
| Check_trans u64
| Create_trans u64
| Note_lock u64 u64 u64 u64
| Store_root u64 addr
| Find_trans bool u64
| Read_intervals bool u64
| Release_keys bool u64 transaction_info "event_id list"
| Find_key bool u64 u64 u64 u64 transaction_info "event_id list"
| Release_nodes bool u64 u64 u64 u64 transaction_info "event_id list"
| Clear_intervals u64
| Delete_trans u64
| Return outcome

text \<open>The body of \<open>tryLock\<close> on the tree of a key: the new root, and whether the lock is granted.\<close>

definition lock_nodes :: "lock_manager \<Rightarrow> u64 \<Rightarrow> u64 \<Rightarrow> u64 \<Rightarrow> u64 \<Rightarrow> bool \<Rightarrow> (lock_manager \<times> addr \<times> bool) option" where
  "lock_nodes m key tid ts_start ts_end is_read = do {
     ki \<leftarrow> lm_keys m key;
     let root = ki_root ki;
     locks \<leftarrow> node_find (lm_heap m) root [] ts_end;
     pend \<leftarrow> check_loop (lm_heap m) ts_start is_read locks [];
     (case pend of
        None \<Rightarrow> Some (m, root, False)
      | Some pend \<Rightarrow> do {
          ((h, next), root) \<leftarrow>
            lock_pendings tid ts_start ts_end is_read ((lm_heap m, lm_next m), root) pend;
          Some (m\<lparr>lm_heap := h, lm_next := next\<rparr>, root, True)
        })
   }"

text \<open>
  The loop of \<open>tryBackwardLock\<close> up to the call of \<open>addTransactionLock\<close>.  A round of it goes on
  or comes to an end; the last component says whether it ends with that call.
\<close>

type_synonym back_end = "lock_manager \<times> u64 \<times> bool \<times> bool \<times> bool"

definition back_round ::
    "u64 \<Rightarrow> u64 \<Rightarrow> bool \<Rightarrow> event_id \<Rightarrow> lock_manager \<Rightarrow> addr list \<Rightarrow> u64 \<Rightarrow>
     (lock_manager \<times> addr list \<times> u64 + back_end) option" where
  "back_round key tid is_read event m locks cur_ts =
    (if locks = [] then Some (Inr (m, cur_ts, True, False, False))
     else do {
       (a, locks) \<leftarrow> pop_back locks;
       n \<leftarrow> lm_heap m a;
       (if cur_ts < n_start n \<or> cur_ts > n_end n then Some (Inr (m, cur_ts, False, True, False))
        else do {
          let (n', cur_ts, blocked) = backward_visit is_read tid cur_ts n;
          let m = m\<lparr>lm_heap := (lm_heap m)(a \<mapsto> n')\<rparr>;
          let m = (if blocked then addEvent m key (n_end n) event else m);
          (if cur_ts \<noteq> n_start n - 1 then Some (Inr (m, cur_ts, \<not> blocked, False, True))
           else do {
             locks \<leftarrow> node_find (lm_heap m) a locks cur_ts;
             Some (Inl (m, locks, cur_ts))
           })
        })
     })"

partial_function (option) backward_scan ::
    "u64 \<Rightarrow> u64 \<Rightarrow> bool \<Rightarrow> event_id \<Rightarrow> lock_manager \<Rightarrow> addr list \<Rightarrow> u64 \<Rightarrow> back_end option" where
  "backward_scan key tid is_read event m locks cur_ts = do {
     s \<leftarrow> back_round key tid is_read event m locks cur_ts;
     (case s of
        Inl (m, locks, cur_ts) \<Rightarrow> backward_scan key tid is_read event m locks cur_ts
      | Inr r \<Rightarrow> Some r)
   }"

declare backward_scan.simps [code]

definition lock_nodes_back ::
    "lock_manager \<Rightarrow> u64 \<Rightarrow> u64 \<Rightarrow> u64 \<Rightarrow> bool \<Rightarrow> event_id \<Rightarrow>
     (lock_manager \<times> addr \<times> u64 \<times> bool \<times> bool \<times> bool) option" where
  "lock_nodes_back m key tid ts_end is_read event = do {
     ki \<leftarrow> lm_keys m key;
     (h, next, root, locks) \<leftarrow> backward_start (lm_heap m) (lm_next m) (ki_root ki) ts_end is_read;
     (m, cur_ts, res, failed, call) \<leftarrow>
       backward_scan key tid is_read event (m\<lparr>lm_heap := h, lm_next := next\<rparr>) locks ts_end;
     Some (m, root, cur_ts, res, failed, call)
   }"

text \<open>One interval of \<open>freeze\<close> or \<open>unlock\<close>.\<close>

definition release_nodes ::
    "bool \<Rightarrow> lock_manager \<Rightarrow> u64 \<Rightarrow> u64 \<Rightarrow> u64 \<Rightarrow> u64 \<Rightarrow> event_id list \<Rightarrow> (lock_manager \<times> event_id list) option" where
  "release_nodes frz m tid key ts_start ts_end events = do {
     ki \<leftarrow> lm_keys m key;
     locks \<leftarrow> node_find (lm_heap m) (ki_root ki) [] ts_end;
     (h, events) \<leftarrow>
       interval_loop ((if frz then freeze_visit tid else unlock_visit tid) (ki_events ki)) ts_start
         (lm_heap m) locks ts_end events;
     Some (m\<lparr>lm_heap := h\<rparr>, events)
   }"

text \<open>Giving back what an operation on a key holds; \<open>addTransactionLock\<close> as tasks.\<close>

definition leave_key :: "u64 \<Rightarrow> outcome \<Rightarrow> lock_task list" where
  "leave_key key res = [Give (Key_mutex key) Exclusive, Give Key_map Shared, Return res]"

definition note_tasks :: "u64 \<Rightarrow> u64 \<Rightarrow> u64 \<Rightarrow> u64 \<Rightarrow> lock_task list" where
  "note_tasks tid key start end_ts =
     [Take Trans_map Shared, Check_trans tid, Take (Trans_mutex tid) Exclusive, Note_lock tid key start end_ts,
      Give (Trans_mutex tid) Exclusive, Give Trans_map Shared]"

text \<open>What a task that takes or gives back no guard does, and the tasks that it leads to.\<close>

definition lock_task_step :: "lock_manager \<Rightarrow> lock_task \<Rightarrow> (lock_manager \<times> lock_task list) option" where
  "lock_task_step m t =
    (case t of
       Check_key key \<Rightarrow> Some (m,
         if lm_keys m key = None
         then [Give Key_map Shared, Take Key_map Exclusive, Create_key key, Give Key_map Exclusive, Take Key_map Shared]
         else [])
     | Create_key key \<Rightarrow> do { m \<leftarrow> createKeyInfo m key; Some (m, []) }
     | Lock_nodes key tid ts_start ts_end is_read \<Rightarrow> do {
         (m, root, granted) \<leftarrow> lock_nodes m key tid ts_start ts_end is_read;
         Some (m, (if granted then note_tasks tid key ts_start ts_end else [])
           @ Store_root key root # leave_key key (Granted granted))
       }
     | Lock_nodes_back key tid ts_end is_read event ts_start \<Rightarrow> do {
         (m, root, cur_ts, res, failed, call) \<leftarrow> lock_nodes_back m key tid ts_end is_read event;
         Some (m, if failed then leave_key key (Granted_from False ts_start)
           else (if call then note_tasks tid key (cur_ts + 1) ts_end else [])
             @ Store_root key root # leave_key key (Granted_from res (cur_ts + 1)))
       }
     | Check_trans tid \<Rightarrow> Some (m,
         if lm_trans m tid = None
         then [Give Trans_map Shared, Take Trans_map Exclusive, Create_trans tid, Give Trans_map Exclusive,
               Take Trans_map Shared]
         else [])
     | Create_trans tid \<Rightarrow> Some (createTransactionInfo m tid, [])
     | Note_lock tid key start end_ts \<Rightarrow>
         if lm_trans m tid = None then None else Some (addTransactionLock m tid key start end_ts, [])
     | Store_root key root \<Rightarrow> do { m \<leftarrow> set_root m key root; Some (m, []) }
     | Find_trans frz tid \<Rightarrow> Some (m,
         if lm_trans m tid = None then [Give Trans_map Shared, Return (To_run [])]
         else [Take (Trans_mutex tid) Exclusive, Read_intervals frz tid])
     | Read_intervals frz tid \<Rightarrow> do { ivs \<leftarrow> lm_trans m tid; Some (m, [Release_keys frz tid ivs []]) }
     | Release_keys frz tid [] events \<Rightarrow> Some (m,
         [Clear_intervals tid, Give (Trans_mutex tid) Exclusive, Give Trans_map Shared,
          Take Trans_map Exclusive, Delete_trans tid, Give Trans_map Exclusive, Return (To_run events)])
     | Release_keys frz tid ((key, (ts_start, ts_end)) # ivs) events \<Rightarrow> Some (m,
         [Take Key_map Shared, Find_key frz tid key ts_start ts_end ivs events])
     | Find_key frz tid key ts_start ts_end ivs events \<Rightarrow> Some (m,
         if lm_keys m key = None then [Give Key_map Shared, Release_keys frz tid ivs events]
         else [Take (Key_mutex key) Exclusive, Release_nodes frz tid key ts_start ts_end ivs events])
     | Release_nodes frz tid key ts_start ts_end ivs events \<Rightarrow> do {
         (m, events) \<leftarrow> release_nodes frz m tid key ts_start ts_end events;
         Some (m, [Give (Key_mutex key) Exclusive, Give Key_map Shared, Release_keys frz tid ivs events])
       }
     | Clear_intervals tid \<Rightarrow>
         if lm_trans m tid = None then None else Some (m\<lparr>lm_trans := (lm_trans m)(tid \<mapsto> [])\<rparr>, [])
     | Delete_trans tid \<Rightarrow> Some (deleteTransactionInfo m tid, [])
     | _ \<Rightarrow> Some (m, []))"

section \<open>Threads\<close>

record lock_thread =
  lt_held :: "(guard \<times> mode) set"
  lt_todo :: "lock_task list"
  lt_out :: "outcome list"

text \<open>The operations, as the tasks they begin with.\<close>

datatype sync_op =
  Try_lock u64 u64 u64 u64 bool
| Try_backward u64 u64 u64 bool event_id u64
| Freeze_all u64
| Unlock_all u64

fun op_tasks :: "sync_op \<Rightarrow> lock_task list" where
  "op_tasks (Try_lock key tid ts_start ts_end is_read) =
     [Take Key_map Shared, Check_key key, Take (Key_mutex key) Exclusive, Lock_nodes key tid ts_start ts_end is_read]"
| "op_tasks (Try_backward key tid ts_end is_read event ts_start) =
     [Take Key_map Shared, Check_key key, Take (Key_mutex key) Exclusive,
      Lock_nodes_back key tid ts_end is_read event ts_start]"
| "op_tasks (Freeze_all tid) = [Take Trans_map Shared, Find_trans True tid]"
| "op_tasks (Unlock_all tid) = [Take Trans_map Shared, Find_trans False tid]"

text \<open>A thread that is to carry out some operations.\<close>

definition new_thread :: "sync_op list \<Rightarrow> lock_thread" where
  "new_thread ops = \<lparr>lt_held = {}, lt_todo = concat (map op_tasks ops), lt_out = []\<rparr>"

text \<open>A guard can be taken when no thread holds it in a way that clashes.\<close>

definition may_take :: "lock_thread list \<Rightarrow> guard \<times> mode \<Rightarrow> bool" where
  "may_take ths x \<longleftrightarrow> (\<forall>th\<in>set ths. \<forall>y\<in>lt_held th. \<not> clashes x y)"

definition thread_step :: "lock_manager \<Rightarrow> lock_thread list \<Rightarrow> lock_thread \<Rightarrow> (lock_manager \<times> lock_thread) res" where
  "thread_step m ths th =
    (case lt_todo th of
       [] \<Rightarrow> Inr (m, th)
     | Take g md # ts \<Rightarrow>
         if may_take ths (g, md) then Inr (m, th\<lparr>lt_held := insert (g, md) (lt_held th), lt_todo := ts\<rparr>)
         else Inl Blocked
     | Give g md # ts \<Rightarrow> Inr (m, th\<lparr>lt_held := lt_held th - {(g, md)}, lt_todo := ts\<rparr>)
     | Return res # ts \<Rightarrow> Inr (m, th\<lparr>lt_todo := ts, lt_out := lt_out th @ [res]\<rparr>)
     | t # ts \<Rightarrow>
         (case lock_task_step m t of
            None \<Rightarrow> Inl LockFailure
          | Some (m', new) \<Rightarrow> Inr (m', th\<lparr>lt_todo := new @ ts\<rparr>)))"

text \<open>The turn of a thread, and a sequence of turns.\<close>

type_synonym sync = "lock_manager \<times> lock_thread list"

definition sync_step :: "sync \<Rightarrow> nat \<Rightarrow> sync res" where
  "sync_step s i =
    (if i < length (snd s)
     then and_then (thread_step (fst s) (snd s) (snd s ! i)) (\<lambda>(m, th). Inr (m, (snd s)[i := th]))
     else Inr s)"

fun sync_run :: "sync \<Rightarrow> nat list \<Rightarrow> sync res" where
  "sync_run s [] = Inr s"
| "sync_run s (i # is) = and_then (sync_step s i) (\<lambda>s. sync_run s is)"

lemma sync_run_append: "sync_run s (is @ js) = and_then (sync_run s is) (\<lambda>s. sync_run s js)"
proof (induction "is" arbitrary: s)
  case (Cons i "is")
  then show ?case by (cases "sync_step s i") simp_all
qed simp

section \<open>A thread that is alone\<close>

text \<open>The operations of a thread, one after the other, each as a whole.\<close>

fun op_result :: "lock_manager \<Rightarrow> sync_op \<Rightarrow> (lock_manager \<times> outcome) option" where
  "op_result m (Try_lock key tid ts_start ts_end is_read) =
     map_option (\<lambda>(m, granted). (m, Granted granted)) (tryLock m key tid ts_start ts_end is_read)"
| "op_result m (Try_backward key tid ts_end is_read event ts_start) =
     map_option (\<lambda>(m, granted, start). (m, Granted_from granted start))
       (tryBackwardLock m key tid ts_end is_read event ts_start)"
| "op_result m (Freeze_all tid) = map_option (\<lambda>(m, events). (m, To_run events)) (freeze m tid)"
| "op_result m (Unlock_all tid) = map_option (\<lambda>(m, events). (m, To_run events)) (unlock m tid)"

fun op_results :: "lock_manager \<Rightarrow> sync_op list \<Rightarrow> (lock_manager \<times> outcome list) option" where
  "op_results m [] = Some (m, [])"
| "op_results m (op # ops) = do {
     (m, out) \<leftarrow> op_result m op;
     (m, outs) \<leftarrow> op_results m ops;
     Some (m, out # outs)
   }"

definition comes_to :: "lock_manager \<Rightarrow> lock_thread \<Rightarrow> sync res \<Rightarrow> bool" where
  "comes_to m th r \<longleftrightarrow> (\<exists>n. sync_run (m, [th]) (replicate n 0) = r)"

lemma comes_refl: "comes_to m th (Inr (m, [th]))"
  unfolding comes_to_def by (rule exI [of _ 0]) simp

lemma comes_step:
  assumes "thread_step m [th] th = Inr (m1, th1)" "comes_to m1 th1 r"
  shows "comes_to m th r"
proof -
  from assms(2) obtain n where "sync_run (m1, [th1]) (replicate n 0) = r" by (auto simp: comes_to_def)
  with assms(1) have "sync_run (m, [th]) (replicate (Suc n) 0) = r" by (simp add: sync_step_def)
  then show ?thesis unfolding comes_to_def by blast
qed

lemma comes_fail: "thread_step m [th] th = Inl f \<Longrightarrow> comes_to m th (Inl f)"
  unfolding comes_to_def by (rule exI [of _ 1]) (simp add: sync_step_def)

abbreviation at :: "(guard \<times> mode) set \<Rightarrow> lock_task list \<Rightarrow> outcome list \<Rightarrow> lock_thread" where
  "at H ts out \<equiv> \<lparr>lt_held = H, lt_todo = ts, lt_out = out\<rparr>"

lemma comes_take:
  assumes "\<forall>y\<in>H. \<not> clashes (g, md) y" "comes_to m (at (insert (g, md) H) ts out) r"
  shows "comes_to m (at H (Take g md # ts) out) r"
  by (rule comes_step [OF _ assms(2)]) (use assms(1) in \<open>simp add: thread_step_def may_take_def\<close>)

lemma comes_give: "comes_to m (at (H - {(g, md)}) ts out) r \<Longrightarrow> comes_to m (at H (Give g md # ts) out) r"
  by (rule comes_step) (simp_all add: thread_step_def)

lemma comes_return: "comes_to m (at H ts (out @ [res])) r \<Longrightarrow> comes_to m (at H (Return res # ts) out) r"
  by (rule comes_step) (simp_all add: thread_step_def)

text \<open>A task that is about no guard.\<close>

definition plain :: "lock_task \<Rightarrow> bool" where
  "plain t \<longleftrightarrow> (case t of Take g md \<Rightarrow> False | Give g md \<Rightarrow> False | Return res \<Rightarrow> False | _ \<Rightarrow> True)"

lemma thread_step_plain:
  "plain t \<Longrightarrow> thread_step m ths (at H (t # ts) out) =
    (case lock_task_step m t of None \<Rightarrow> Inl LockFailure | Some (m', new) \<Rightarrow> Inr (m', at H (new @ ts) out))"
  by (cases t) (simp_all add: plain_def thread_step_def split: option.split)

lemma comes_task:
  assumes "plain t" "case lock_task_step m t of None \<Rightarrow> r = Inl LockFailure | Some (m1, new) \<Rightarrow> comes_to m1 (at H (new @ ts) out) r"
  shows "comes_to m (at H (t # ts) out) r"
proof (cases "lock_task_step m t")
  case None
  with assms comes_fail [of m "at H (t # ts) out" LockFailure] show ?thesis by (simp add: thread_step_plain)
next
  case (Some x)
  obtain m1 new where x: "x = (m1, new)" by (cases x)
  with Some assms comes_step [of m "at H (t # ts) out" m1 "at H (new @ ts) out" r] show ?thesis by (simp add: thread_step_plain)
qed

lemmas task_defs = lock_task_step_def plain_def


text \<open>The sections of an operation on a key: its guards, the note for the transaction, the way out.\<close>

lemma comes_enter:
  assumes "case createKeyInfo m key of
    None \<Rightarrow> r = Inl LockFailure
  | Some m1 \<Rightarrow> comes_to m1 (at {(Key_map, Shared), (Key_mutex key, Exclusive)} ts out) r"
  shows "comes_to m (at {} (Take Key_map Shared # Check_key key # Take (Key_mutex key) Exclusive # ts) out) r"
proof (rule comes_take)
  have locked: "comes_to m1 (at {(Key_map, Shared)} (Take (Key_mutex key) Exclusive # ts) out) r"
    if "createKeyInfo m key = Some m1" for m1
    by (rule comes_take) (use that assms in \<open>simp_all add: clashes_def insert_commute\<close>)
  show "comes_to m (at {(Key_map, Shared)} (Check_key key # Take (Key_mutex key) Exclusive # ts) out) r"
  proof (cases "lm_keys m key")
    case None
    have "comes_to m1 (at {(Key_map, Exclusive)} (Give Key_map Exclusive # Take Key_map Shared
        # Take (Key_mutex key) Exclusive # ts) out) r" if "createKeyInfo m key = Some m1" for m1
      by (intro comes_give comes_take [where g = Key_map]) (use locked [OF that] in simp_all)
    then have "comes_to m (at {(Key_map, Exclusive)} (Create_key key # Give Key_map Exclusive # Take Key_map Shared
        # Take (Key_mutex key) Exclusive # ts) out) r"
      by (intro comes_task) (use assms in \<open>simp_all add: task_defs split: option.splits\<close>)
    then have "comes_to m (at {(Key_map, Shared)} (Give Key_map Shared # Take Key_map Exclusive # Create_key key
        # Give Key_map Exclusive # Take Key_map Shared # Take (Key_mutex key) Exclusive # ts) out) r"
      by (intro comes_give comes_take [where g = Key_map]) simp_all
    with None show ?thesis by (intro comes_task) (simp_all add: task_defs)
  next
    case (Some ki)
    then have "createKeyInfo m key = Some m" by (simp add: createKeyInfo_def)
    from locked [OF this] Some show ?thesis by (intro comes_task) (simp_all add: task_defs)
  qed
qed simp

lemma addTransactionLock_created:
  "addTransactionLock (createTransactionInfo m tid) tid key start end_ts = addTransactionLock m tid key start end_ts"
  by (simp add: addTransactionLock_def createTransactionInfo_def split: option.split)

lemma createTransactionInfo_some: "lm_trans (createTransactionInfo m tid) tid \<noteq> None"
  by (simp add: createTransactionInfo_def split: option.split)

lemma comes_note:
  assumes H: "H = {(Key_map, Shared), (Key_mutex key, Exclusive)}"
    and r: "comes_to (addTransactionLock m tid key start end_ts) (at H ts out) r"
  shows "comes_to m (at H (note_tasks tid key start end_ts @ ts) out) r"
proof -
  let ?note = "Note_lock tid key start end_ts # Give (Trans_mutex tid) Exclusive # Give Trans_map Shared # ts"
  let ?mutex = "Take (Trans_mutex tid) Exclusive # ?note"
  let ?H = "insert (Trans_map, Shared) H" and ?m = "createTransactionInfo m tid"
  have free: "(Trans_map, md) \<notin> H" "(Trans_mutex tid, md) \<notin> H" "\<forall>y\<in>H. \<not> clashes (Trans_map, md) y"
    "\<forall>y\<in>H. \<not> clashes (Trans_mutex tid, md) y" for md
    using H by (simp_all add: clashes_def)
  have noted: "comes_to m' (at ?H ?mutex out) r"
    if "lm_trans m' tid \<noteq> None" "addTransactionLock m' tid key start end_ts = addTransactionLock m tid key start end_ts" for m'
  proof (rule comes_take)
    have "comes_to (addTransactionLock m tid key start end_ts) (at (insert (Trans_mutex tid, Exclusive) ?H)
        (Give (Trans_mutex tid) Exclusive # Give Trans_map Shared # ts) out) r"
      by (intro comes_give) (use r free in \<open>simp add: insert_Diff_if\<close>)
    then show "comes_to m' (at (insert (Trans_mutex tid, Exclusive) ?H) ?note out) r"
      by (intro comes_task) (use that in \<open>auto simp: task_defs\<close>)
  qed (use H in \<open>simp add: clashes_def\<close>)
  have "comes_to m (at ?H (Check_trans tid # ?mutex) out) r"
  proof (cases "lm_trans m tid")
    case None
    have "comes_to ?m (at (insert (Trans_map, Exclusive) H) (Give Trans_map Exclusive # Take Trans_map Shared # ?mutex) out) r"
      by (intro comes_give comes_take [where g = Trans_map])
        (use noted [OF createTransactionInfo_some addTransactionLock_created] free in simp_all)
    then have "comes_to m (at (insert (Trans_map, Exclusive) H) (Create_trans tid # Give Trans_map Exclusive
        # Take Trans_map Shared # ?mutex) out) r"
      by (intro comes_task) (simp_all add: task_defs)
    then have "comes_to m (at ?H (Give Trans_map Shared # Take Trans_map Exclusive # Create_trans tid
        # Give Trans_map Exclusive # Take Trans_map Shared # ?mutex) out) r"
      by (intro comes_give comes_take [where g = Trans_map]) (use free in simp_all)
    with None show ?thesis by (intro comes_task) (simp_all add: task_defs)
  next
    case (Some x)
    with noted [of m] show ?thesis by (intro comes_task) (simp_all add: task_defs)
  qed
  with free show ?thesis unfolding note_tasks_def by (simp add: comes_take)
qed

lemma comes_out:
  assumes "comes_to m (at {} ts (out @ [res])) r"
  shows "comes_to m (at {(Key_map, Shared), (Key_mutex key, Exclusive)} (leave_key key res @ ts) out) r"
  unfolding leave_key_def append_Cons append_Nil
  by (intro comes_give comes_return) (use assms in \<open>simp add: insert_Diff_if\<close>)

lemma comes_leave:
  assumes "case set_root m key root of
    None \<Rightarrow> r = Inl LockFailure
  | Some m1 \<Rightarrow> comes_to m1 (at {} ts (out @ [res])) r"
  shows "comes_to m (at {(Key_map, Shared), (Key_mutex key, Exclusive)} (Store_root key root # leave_key key res @ ts) out) r"
proof (rule comes_task)
  show "case lock_task_step m (Store_root key root) of None \<Rightarrow> r = Inl LockFailure
    | Some (m1, new) \<Rightarrow> comes_to m1 (at {(Key_map, Shared), (Key_mutex key, Exclusive)} (new @ leave_key key res @ ts) out) r"
    using assms comes_out by (simp add: task_defs split: option.splits)
qed (simp add: plain_def)

text \<open>The operations of the lock manager in terms of the tasks' work.\<close>

lemma tryLock_nodes:
  "tryLock m key tid ts_start ts_end is_read = do {
     m \<leftarrow> createKeyInfo m key;
     (m, root, granted) \<leftarrow> lock_nodes m key tid ts_start ts_end is_read;
     m \<leftarrow> set_root (if granted then addTransactionLock m tid key ts_start ts_end else m) key root;
     Some (m, granted)
   }"
proof (cases "createKeyInfo m key")
  case None
  then show ?thesis by (simp add: tryLock_def)
next
  case (Some m1)
  then show ?thesis
    by (cases "lm_keys m1 key")
      (auto simp: tryLock_def lock_nodes_def Let_def bind_assoc intro!: bind_option_cong split: option.split prod.split)
qed

definition end_round :: "u64 \<Rightarrow> u64 \<Rightarrow> u64 \<Rightarrow> back_end \<Rightarrow> lock_manager \<times> u64 \<times> bool \<times> bool" where
  "end_round key tid ts_end r =
    (case r of (m, ts, res, failed, call) \<Rightarrow>
       (if call then addTransactionLock m tid key (ts + 1) ts_end else m, ts, res, failed))"

lemma loop_body:
  fixes loop :: "lock_manager \<Rightarrow> addr list \<Rightarrow> u64 \<Rightarrow> (lock_manager \<times> u64 \<times> bool \<times> bool) option"
  shows "(if locks = [] then Some (m, cur_ts, True, False)
     else do {
       (a, locks) \<leftarrow> pop_back locks;
       n \<leftarrow> lm_heap m a;
       (if cur_ts < n_start n \<or> cur_ts > n_end n then Some (m, cur_ts, False, True)
        else do {
          let (n', cur_ts, blocked) = backward_visit is_read tid cur_ts n;
          let m = m\<lparr>lm_heap := (lm_heap m)(a \<mapsto> n')\<rparr>;
          let m = (if blocked then addEvent m key (n_end n) event else m);
          (if cur_ts \<noteq> n_start n - 1
           then Some (addTransactionLock m tid key (cur_ts + 1) ts_end, cur_ts, \<not> blocked, False)
           else do {
             locks \<leftarrow> node_find (lm_heap m) a locks cur_ts;
             loop m locks cur_ts
           })
        })
     }) = do {
     s \<leftarrow> back_round key tid is_read event m locks cur_ts;
     (case s of Inl (m, locks, cur_ts) \<Rightarrow> loop m locks cur_ts | Inr r \<Rightarrow> Some (end_round key tid ts_end r))
   }"
  unfolding back_round_def
  by (cases "locks = []") (auto simp: end_round_def Let_def bind_assoc intro!: bind_option_cong split: prod.split)

lemma scan_loop:
  assumes "backward_scan key tid is_read event m locks cur_ts = Some r"
  shows "backward_loop key tid ts_end is_read event m locks cur_ts = Some (end_round key tid ts_end r)"
proof -
  let ?P = "\<lambda>key tid is_read event m locks cur_ts r.
    backward_loop key tid ts_end is_read event m locks cur_ts = Some (end_round key tid ts_end r)"
  have "?P key tid is_read event m locks cur_ts r"
  proof (rule backward_scan.raw_induct [where P = ?P, OF _ assms])
    fix scan key tid is_read event m locks cur_ts r
    assume IH: "\<And>key tid is_read event m locks cur_ts r. scan key tid is_read event m locks cur_ts = Some r \<Longrightarrow>
        ?P key tid is_read event m locks cur_ts r"
      and body: "do {
          s \<leftarrow> back_round key tid is_read event m locks cur_ts;
          (case s of Inl (m, locks, cur_ts) \<Rightarrow> scan key tid is_read event m locks cur_ts | Inr r \<Rightarrow> Some r)
        } = Some r"
    from body obtain s where s: "back_round key tid is_read event m locks cur_ts = Some s"
      by (auto simp: bind_eq_Some_conv)
    have loop: "backward_loop key tid ts_end is_read event m locks cur_ts =
        (case s of Inl (m, locks, cur_ts) \<Rightarrow> backward_loop key tid ts_end is_read event m locks cur_ts
         | Inr r \<Rightarrow> Some (end_round key tid ts_end r))"
      unfolding backward_loop.simps [of key tid ts_end is_read event m locks cur_ts] loop_body s by simp
    show "?P key tid is_read event m locks cur_ts r"
    proof (cases s)
      case (Inl x)
      obtain m1 l1 t1 where x: "x = (m1, l1, t1)" by (cases x)
      with body s Inl have "scan key tid is_read event m1 l1 t1 = Some r" by simp
      from IH [OF this] loop Inl x show ?thesis by simp
    next
      case (Inr r1)
      with body s loop show ?thesis by simp
    qed
  qed
  then show ?thesis .
qed

lemma loop_scan:
  assumes "backward_loop key tid ts_end is_read event m locks cur_ts = Some y"
  shows "backward_scan key tid is_read event m locks cur_ts \<noteq> None"
proof (rule backward_loop.raw_induct [where
    P = "\<lambda>key tid ts_end is_read event m locks cur_ts y. backward_scan key tid is_read event m locks cur_ts \<noteq> None",
    OF _ assms])
  fix loop key tid ts_end is_read event m locks cur_ts and y :: "lock_manager \<times> u64 \<times> bool \<times> bool"
  assume IH: "\<And>key tid ts_end is_read event m locks cur_ts y. loop key tid ts_end is_read event m locks cur_ts = Some y \<Longrightarrow>
      backward_scan key tid is_read event m locks cur_ts \<noteq> None"
    and "(if locks = [] then Some (m, cur_ts, True, False)
      else pop_back locks \<bind> (\<lambda>(a, locks). lm_heap m a \<bind> (\<lambda>n.
        if cur_ts < n_start n \<or> cur_ts > n_end n then Some (m, cur_ts, False, True)
        else let (n', cur_ts, blocked) = backward_visit is_read tid cur_ts n;
          m = m\<lparr>lm_heap := (lm_heap m)(a \<mapsto> n')\<rparr>;
          m = (if blocked then addEvent m key (n_end n) event else m)
          in if cur_ts \<noteq> n_start n - 1
           then Some (addTransactionLock m tid key (cur_ts + 1) ts_end, cur_ts, \<not> blocked, False)
           else node_find (lm_heap m) a locks cur_ts \<bind> (\<lambda>locks.
             loop key tid ts_end is_read event m locks cur_ts)))) = Some y"
  note body = this(2) [unfolded loop_body]
  then obtain s where s: "back_round key tid is_read event m locks cur_ts = Some s"
    by (auto simp: bind_eq_Some_conv)
  note scan = backward_scan.simps [of key tid is_read event m locks cur_ts, unfolded s, simplified]
  show "backward_scan key tid is_read event m locks cur_ts \<noteq> None"
  proof (cases s)
    case (Inl x)
    obtain m1 l1 t1 where x: "x = (m1, l1, t1)" by (cases x)
    with body s Inl have "loop key tid ts_end is_read event m1 l1 t1 = Some y" by simp
    from IH [OF this] scan Inl x show ?thesis by simp
  next
    case (Inr r1)
    with scan show ?thesis by simp
  qed
qed

lemma backward_loop_scan:
  "backward_loop key tid ts_end is_read event m locks cur_ts =
     map_option (end_round key tid ts_end) (backward_scan key tid is_read event m locks cur_ts)"
proof (cases "backward_scan key tid is_read event m locks cur_ts")
  case None
  then have "backward_loop key tid ts_end is_read event m locks cur_ts = None" by (metis loop_scan option.exhaust)
  with None show ?thesis by simp
next
  case (Some r)
  with scan_loop show ?thesis by simp
qed

lemma tryBackwardLock_nodes:
  "tryBackwardLock m key tid ts_end is_read event ts_start = do {
     m \<leftarrow> createKeyInfo m key;
     (m, root, cur_ts, res, failed, call) \<leftarrow> lock_nodes_back m key tid ts_end is_read event;
     (if failed then Some (if call then addTransactionLock m tid key (cur_ts + 1) ts_end else m, False, ts_start)
      else do {
        m \<leftarrow> set_root (if call then addTransactionLock m tid key (cur_ts + 1) ts_end else m) key root;
        Some (m, res, cur_ts + 1)
      })
   }"
  unfolding tryBackwardLock_def lock_nodes_back_def backward_loop_scan
  by (auto simp: end_round_def bind_assoc map_option_case intro!: bind_option_cong split: option.split prod.split)

lemma scan_failed:
  assumes "backward_scan key tid is_read event m locks cur_ts = Some r"
  shows "case r of (m, ts, res, failed, call) \<Rightarrow> failed \<longrightarrow> \<not> call"
proof (rule backward_scan.raw_induct [where
    P = "\<lambda>key tid is_read event m locks cur_ts r. case r of (m, ts, res, failed, call) \<Rightarrow> failed \<longrightarrow> \<not> call", OF _ assms])
  fix scan key tid is_read event m locks cur_ts and r :: back_end
  assume IH: "\<And>key tid is_read event m locks cur_ts r. scan key tid is_read event m locks cur_ts = Some r \<Longrightarrow>
      case r of (m, ts, res, failed, call) \<Rightarrow> failed \<longrightarrow> \<not> call"
    and body: "do {
        s \<leftarrow> back_round key tid is_read event m locks cur_ts;
        (case s of Inl (m, locks, cur_ts) \<Rightarrow> scan key tid is_read event m locks cur_ts | Inr r \<Rightarrow> Some r)
      } = Some r"
  from body obtain s where s: "back_round key tid is_read event m locks cur_ts = Some s"
    by (auto simp: bind_eq_Some_conv)
  show "case r of (m, ts, res, failed, call) \<Rightarrow> failed \<longrightarrow> \<not> call"
  proof (cases s)
    case (Inl x)
    obtain m1 l1 t1 where x: "x = (m1, l1, t1)" by (cases x)
    with body s Inl have "scan key tid is_read event m1 l1 t1 = Some r" by simp
    then show ?thesis by (rule IH)
  next
    case (Inr r1)
    with body s have "back_round key tid is_read event m locks cur_ts = Some (Inr r)" by simp
    then show ?thesis
      by (auto simp: back_round_def bind_eq_Some_conv Let_def split: if_splits prod.splits)
  qed
qed

text \<open>An operation of a thread that is alone.\<close>

lemma comes_lock:
  assumes "case tryLock m key tid ts_start ts_end is_read of
      None \<Rightarrow> r = Inl LockFailure
    | Some (m1, granted) \<Rightarrow> comes_to m1 (at {} ts (out @ [Granted granted])) r"
  shows "comes_to m (at {} (op_tasks (Try_lock key tid ts_start ts_end is_read) @ ts) out) r"
proof -
  let ?H = "{(Key_map, Shared), (Key_mutex key, Exclusive)}" and ?m = "\<lambda>m granted. if granted then addTransactionLock m tid key ts_start ts_end else m"
  have "comes_to m1 (at ?H (Lock_nodes key tid ts_start ts_end is_read # ts) out) r" if m1: "createKeyInfo m key = Some m1" for m1
  proof (rule comes_task)
    have "comes_to m2 (at ?H ((if granted then note_tasks tid key ts_start ts_end else [])
        @ Store_root key root # leave_key key (Granted granted) @ ts) out) r"
      if m2: "lock_nodes m1 key tid ts_start ts_end is_read = Some (m2, root, granted)" for m2 root granted
    proof -
      have "comes_to (?m m2 granted) (at ?H (Store_root key root # leave_key key (Granted granted) @ ts) out) r"
        by (rule comes_leave, cases "set_root (?m m2 granted) key root")
          (use assms m1 m2 in \<open>simp_all add: tryLock_nodes\<close>)
      then show ?thesis using comes_note [OF refl] by (cases granted) simp_all
    qed
    then show "case lock_task_step m1 (Lock_nodes key tid ts_start ts_end is_read) of None \<Rightarrow> r = Inl LockFailure
      | Some (m2, new) \<Rightarrow> comes_to m2 (at ?H (new @ ts) out) r"
      using assms m1 by (cases "lock_nodes m1 key tid ts_start ts_end is_read") (auto simp: lock_task_step_def tryLock_nodes)
  qed (simp add: plain_def)
  with assms show ?thesis unfolding op_tasks.simps append_Cons append_Nil
    by (intro comes_enter, cases "createKeyInfo m key") (simp_all add: tryLock_nodes)
qed

lemma comes_backward:
  assumes "case tryBackwardLock m key tid ts_end is_read event ts_start of
      None \<Rightarrow> r = Inl LockFailure
    | Some (m1, granted, start) \<Rightarrow> comes_to m1 (at {} ts (out @ [Granted_from granted start])) r"
  shows "comes_to m (at {} (op_tasks (Try_backward key tid ts_end is_read event ts_start) @ ts) out) r"
proof -
  let ?H = "{(Key_map, Shared), (Key_mutex key, Exclusive)}"
  let ?m = "\<lambda>m call ts. if call then addTransactionLock m tid key (ts + 1) ts_end else m"
  have "comes_to m1 (at ?H (Lock_nodes_back key tid ts_end is_read event ts_start # ts) out) r"
    if m1: "createKeyInfo m key = Some m1" for m1
  proof (rule comes_task)
    have "comes_to m2 (at ?H ((if failed then leave_key key (Granted_from False ts_start)
          else (if call then note_tasks tid key (cur_ts + 1) ts_end else [])
            @ Store_root key root # leave_key key (Granted_from res (cur_ts + 1))) @ ts) out) r"
      if m2: "lock_nodes_back m1 key tid ts_end is_read event = Some (m2, root, cur_ts, res, failed, call)"
      for m2 root cur_ts res failed call
    proof (cases failed)
      case True
      from m2 have "failed \<longrightarrow> \<not> call" using scan_failed by (fastforce simp: lock_nodes_back_def bind_eq_Some_conv)
      with True assms m1 m2 show ?thesis by (simp add: tryBackwardLock_nodes comes_out)
    next
      case False
      have "comes_to (?m m2 call cur_ts) (at ?H (Store_root key root # leave_key key (Granted_from res (cur_ts + 1)) @ ts) out) r"
        by (rule comes_leave, cases "set_root (?m m2 call cur_ts) key root")
          (use assms m1 m2 False in \<open>simp_all add: tryBackwardLock_nodes\<close>)
      with False show ?thesis using comes_note [OF refl] by (cases call) simp_all
    qed
    then show "case lock_task_step m1 (Lock_nodes_back key tid ts_end is_read event ts_start) of None \<Rightarrow> r = Inl LockFailure
      | Some (m2, new) \<Rightarrow> comes_to m2 (at ?H (new @ ts) out) r"
      using assms m1 by (cases "lock_nodes_back m1 key tid ts_end is_read event")
        (auto simp: lock_task_step_def tryBackwardLock_nodes)
  qed (simp add: plain_def)
  with assms show ?thesis unfolding op_tasks.simps append_Cons append_Nil
    by (intro comes_enter, cases "createKeyInfo m key") (simp_all add: tryBackwardLock_nodes)
qed

lemma release_intervals_trans: "release_intervals visit m ivs events = Some (m1, events1) \<Longrightarrow> lm_trans m1 = lm_trans m"
  by (induction visit m ivs events rule: release_intervals.induct) (auto simp: bind_eq_Some_conv split: option.splits)

text \<open>The loop over the keys.\<close>

lemma comes_release:
  assumes "case release_intervals (if frz then freeze_visit tid else unlock_visit tid) m ivs events of
      None \<Rightarrow> r = Inl LockFailure
    | Some (m1, events1) \<Rightarrow> comes_to m1 (at H (Release_keys frz tid [] events1 # ts) out) r"
    and H: "H = {(Trans_map, Shared), (Trans_mutex tid, Exclusive)}"
  shows "comes_to m (at H (Release_keys frz tid ivs events # ts) out) r"
  using assms(1)
proof (induction ivs arbitrary: m events)
  case Nil
  then show ?case by simp
next
  case (Cons iv ivs)
  let ?visit = "if frz then freeze_visit tid else unlock_visit tid"
  obtain key ts_start ts_end where iv: "iv = (key, (ts_start, ts_end))" by (cases iv) auto
  have free: "(Key_map, md) \<notin> H" "(Key_mutex key, md) \<notin> H" "\<forall>y\<in>H. \<not> clashes (Key_map, md) y"
    "\<forall>y\<in>H. \<not> clashes (Key_mutex key, md) y" for md
    using H by (simp_all add: clashes_def)
  have "comes_to m (at (insert (Key_map, Shared) H) (Find_key frz tid key ts_start ts_end ivs events # ts) out) r"
  proof (cases "lm_keys m key")
    case None
    with Cons.prems iv have "comes_to m (at H (Release_keys frz tid ivs events # ts) out) r" by (intro Cons.IH) simp
    then have "comes_to m (at (insert (Key_map, Shared) H) (Give Key_map Shared # Release_keys frz tid ivs events # ts) out) r"
      by (intro comes_give) (use free in simp)
    with None show ?thesis by (intro comes_task) (simp_all add: task_defs)
  next
    case (Some ki)
    let ?H = "insert (Key_mutex key, Exclusive) (insert (Key_map, Shared) H)"
    have rest: "release_intervals ?visit m (iv # ivs) events =
        release_nodes frz m tid key ts_start ts_end events \<bind> (\<lambda>(m, events). release_intervals ?visit m ivs events)"
      using Some iv by (auto simp: release_nodes_def bind_assoc intro!: bind_option_cong split: prod.split)
    have "comes_to m (at ?H (Release_nodes frz tid key ts_start ts_end ivs events # ts) out) r"
    proof (rule comes_task)
      have "comes_to m1 (at ?H (Give (Key_mutex key) Exclusive # Give Key_map Shared # Release_keys frz tid ivs events1 # ts) out) r"
        if "release_nodes frz m tid key ts_start ts_end events = Some (m1, events1)" for m1 events1
      proof -
        from that Cons.prems have "comes_to m1 (at H (Release_keys frz tid ivs events1 # ts) out) r"
          unfolding rest by (intro Cons.IH) simp
        then show ?thesis by (intro comes_give) (use free in \<open>simp add: insert_Diff_if\<close>)
      qed
      moreover have "r = Inl LockFailure" if "release_nodes frz m tid key ts_start ts_end events = None"
        using that Cons.prems unfolding rest by simp
      ultimately show "case lock_task_step m (Release_nodes frz tid key ts_start ts_end ivs events) of None \<Rightarrow> r = Inl LockFailure
        | Some (m1, new) \<Rightarrow> comes_to m1 (at ?H (new @ ts) out) r"
        by (cases "release_nodes frz m tid key ts_start ts_end events") (auto simp: lock_task_step_def)
    qed (simp add: plain_def)
    then have "comes_to m (at (insert (Key_map, Shared) H)
        (Take (Key_mutex key) Exclusive # Release_nodes frz tid key ts_start ts_end ivs events # ts) out) r"
      by (intro comes_take) (use H in \<open>simp_all add: clashes_def\<close>)
    with Some show ?thesis by (intro comes_task) (simp_all add: task_defs)
  qed
  then have "comes_to m (at H (Take Key_map Shared # Find_key frz tid key ts_start ts_end ivs events # ts) out) r"
    by (intro comes_take) (use free in simp_all)
  then show ?case unfolding iv by (intro comes_task) (simp_all add: task_defs)
qed

lemma comes_free_all:
  assumes "case (if frz then freeze m tid else unlock m tid) of
      None \<Rightarrow> r = Inl LockFailure
    | Some (m1, events) \<Rightarrow> comes_to m1 (at {} ts (out @ [To_run events])) r"
  shows "comes_to m (at {} (Take Trans_map Shared # Find_trans frz tid # ts) out) r"
proof (rule comes_take)
  let ?visit = "if frz then freeze_visit tid else unlock_visit tid" and ?T = "{(Trans_map, Shared)}"
  let ?H = "{(Trans_map, Shared), (Trans_mutex tid, Exclusive)}"
  have free: "(if frz then freeze m tid else unlock m tid) = (case lm_trans m tid of
      None \<Rightarrow> Some (m, [])
    | Some ivs \<Rightarrow> release_intervals ?visit m ivs [] \<bind>
        (\<lambda>(m, events). Some (deleteTransactionInfo (m\<lparr>lm_trans := (lm_trans m)(tid \<mapsto> [])\<rparr>) tid, events)))"
    by (simp add: freeze_def unlock_def Let_def split: option.split)
  show "comes_to m (at ?T (Find_trans frz tid # ts) out) r"
  proof (cases "lm_trans m tid")
    case None
    with assms free have "comes_to m (at ?T (Give Trans_map Shared # Return (To_run []) # ts) out) r"
      by (intro comes_give comes_return) simp
    with None show ?thesis by (intro comes_task) (simp_all add: task_defs)
  next
    case (Some ivs)
    have "comes_to m1 (at ?H (Release_keys frz tid [] events # ts) out) r"
      if m1: "release_intervals ?visit m ivs [] = Some (m1, events)" for m1 events
    proof (rule comes_task)
      let ?m = "m1\<lparr>lm_trans := (lm_trans m1)(tid \<mapsto> [])\<rparr>"
      have "comes_to ?m (at {(Trans_map, Exclusive)} (Delete_trans tid # Give Trans_map Exclusive
          # Return (To_run events) # ts) out) r"
      proof (rule comes_task)
        have "comes_to (deleteTransactionInfo ?m tid) (at {(Trans_map, Exclusive)}
            (Give Trans_map Exclusive # Return (To_run events) # ts) out) r"
          using assms m1 Some unfolding free by (intro comes_give comes_return) simp
        then show "case lock_task_step ?m (Delete_trans tid) of None \<Rightarrow> r = Inl LockFailure
          | Some (m2, new) \<Rightarrow> comes_to m2 (at {(Trans_map, Exclusive)}
              (new @ Give Trans_map Exclusive # Return (To_run events) # ts) out) r"
          by (simp add: lock_task_step_def)
      qed (simp add: plain_def)
      then have "comes_to ?m (at ?H (Give (Trans_mutex tid) Exclusive # Give Trans_map Shared # Take Trans_map Exclusive
          # Delete_trans tid # Give Trans_map Exclusive # Return (To_run events) # ts) out) r"
        by (intro comes_give comes_take [where g = Trans_map]) (simp_all add: insert_Diff_if)
      moreover have "lm_trans m1 tid \<noteq> None" using release_intervals_trans [OF m1] Some by simp
      ultimately have "comes_to m1 (at ?H (Clear_intervals tid # Give (Trans_mutex tid) Exclusive # Give Trans_map Shared
          # Take Trans_map Exclusive # Delete_trans tid # Give Trans_map Exclusive # Return (To_run events) # ts) out) r"
        by (intro comes_task) (auto simp: task_defs)
      then show "case lock_task_step m1 (Release_keys frz tid [] events) of None \<Rightarrow> r = Inl LockFailure
        | Some (m2, new) \<Rightarrow> comes_to m2 (at ?H (new @ ts) out) r"
        by (simp add: lock_task_step_def)
    qed (simp add: plain_def)
    then have "comes_to m (at ?H (Release_keys frz tid ivs [] # ts) out) r"
      using assms Some unfolding free by (intro comes_release, cases "release_intervals ?visit m ivs []") auto
    then have "comes_to m (at ?H (Read_intervals frz tid # ts) out) r"
      by (intro comes_task) (use Some in \<open>simp_all add: task_defs\<close>)
    then have "comes_to m (at ?T (Take (Trans_mutex tid) Exclusive # Read_intervals frz tid # ts) out) r"
      by (intro comes_take) (simp_all add: clashes_def insert_commute)
    with Some show ?thesis by (intro comes_task) (simp_all add: task_defs)
  qed
qed simp

lemma comes_op:
  assumes "case op_result m op of
      None \<Rightarrow> r = Inl LockFailure
    | Some (m1, res) \<Rightarrow> comes_to m1 (at {} ts (out @ [res])) r"
  shows "comes_to m (at {} (op_tasks op @ ts) out) r"
proof (cases op)
  case (Try_lock key tid ts_start ts_end is_read)
  show ?thesis unfolding Try_lock
    by (rule comes_lock, cases "tryLock m key tid ts_start ts_end is_read") (use assms Try_lock in auto)
next
  case (Try_backward key tid ts_end is_read event ts_start)
  show ?thesis unfolding Try_backward
    by (rule comes_backward, cases "tryBackwardLock m key tid ts_end is_read event ts_start") (use assms Try_backward in auto)
next
  case (Freeze_all tid)
  show ?thesis unfolding Freeze_all op_tasks.simps append_Cons append_Nil
    by (rule comes_free_all, cases "freeze m tid") (use assms Freeze_all in auto)
next
  case (Unlock_all tid)
  show ?thesis unfolding Unlock_all op_tasks.simps append_Cons append_Nil
    by (rule comes_free_all, cases "unlock m tid") (use assms Unlock_all in auto)
qed

lemma comes_ops:
  "comes_to m (at {} (concat (map op_tasks ops)) out)
     (case op_results m ops of None \<Rightarrow> Inl LockFailure | Some (m1, outs) \<Rightarrow> Inr (m1, [at {} [] (out @ outs)]))"
proof (induction ops arbitrary: m out)
  case Nil
  show ?case using comes_refl [of m "at {} [] out"] by simp
next
  case (Cons op ops)
  show ?case
  proof (cases "op_result m op")
    case None
    then show ?thesis using comes_op [where m = m and op = op and r = "Inl LockFailure"] by simp
  next
    case (Some x)
    obtain m1 res where x: "x = (m1, res)" by (cases x)
    with Some Cons.IH [of m1 "out @ [res]"] show ?thesis
      by (simp, intro comes_op) (auto split: option.splits)
  qed
qed

text \<open>
  C21: a thread that is alone in the lock manager does, guard by guard and access by access,
  what its operations do as a whole: it comes to the state and the results of one after the
  other, with all guards given back, or fails where one of them fails; it never waits for a
  guard of its own.
\<close>
theorem thread_alone_is_atomic:
  "\<exists>n. sync_run (m, [new_thread ops]) (replicate n 0) =
    (case op_results m ops of
       None \<Rightarrow> Inl LockFailure
     | Some (m1, outs) \<Rightarrow> Inr (m1, [\<lparr>lt_held = {}, lt_todo = [], lt_out = outs\<rparr>]))"
  using comes_ops [of m ops "[]"] unfolding comes_to_def new_thread_def append_Nil .

end
