(* ===== verification/Lock_Guards.thy ===== *)
theory Lock_Guards
  imports Lock_Threads
begin

text \<open>
  What the guards of the lock manager achieve: a thread holds what its next task needs, two
  threads hold no guards that clash, so no two of them are about to race for the same data.
\<close>

section \<open>The guards of a task\<close>

text \<open>What a task needs to hold, and what a thread with some tasks left holds.\<close>

definition key_guards :: "u64 \<Rightarrow> (guard \<times> mode) set" where
  "key_guards key = {(Key_map, Shared), (Key_mutex key, Exclusive)}"

definition trans_guards :: "u64 \<Rightarrow> (guard \<times> mode) set" where
  "trans_guards tid = {(Trans_map, Shared), (Trans_mutex tid, Exclusive)}"

lemmas guard_defs = key_guards_def trans_guards_def

definition needs :: "lock_task \<Rightarrow> (guard \<times> mode) set" where
  "needs t =
    (case t of
       Check_key key \<Rightarrow> {(Key_map, Shared)}
     | Create_key key \<Rightarrow> {(Key_map, Exclusive)}
     | Lock_nodes key tid ts_start ts_end is_read \<Rightarrow> key_guards key
     | Lock_nodes_back key tid ts_end is_read event ts_start \<Rightarrow> key_guards key
     | Check_trans tid \<Rightarrow> {(Trans_map, Shared)}
     | Create_trans tid \<Rightarrow> {(Trans_map, Exclusive)}
     | Note_lock tid key start end_ts \<Rightarrow> trans_guards tid
     | Store_root key root \<Rightarrow> key_guards key
     | Find_trans frz tid \<Rightarrow> {(Trans_map, Shared)}
     | Read_intervals frz tid \<Rightarrow> trans_guards tid
     | Release_keys frz tid ivs events \<Rightarrow> trans_guards tid
     | Find_key frz tid key ts_start ts_end ivs events \<Rightarrow> insert (Key_map, Shared) (trans_guards tid)
     | Release_nodes frz tid key ts_start ts_end ivs events \<Rightarrow> key_guards key \<union> trans_guards tid
     | Clear_intervals tid \<Rightarrow> trans_guards tid
     | Delete_trans tid \<Rightarrow> {(Trans_map, Exclusive)}
     | _ \<Rightarrow> {})"

text \<open>The tasks that an operation, or its part with a transaction at hand, ends with.\<close>

definition final_task :: "lock_task \<Rightarrow> bool" where
  "final_task t \<longleftrightarrow>
    (case t of
       Lock_nodes key tid ts_start ts_end is_read \<Rightarrow> True
     | Lock_nodes_back key tid ts_end is_read event ts_start \<Rightarrow> True
     | Find_trans frz tid \<Rightarrow> True
     | Read_intervals frz tid \<Rightarrow> True
     | Release_keys frz tid ivs events \<Rightarrow> True
     | Find_key frz tid key ts_start ts_end ivs events \<Rightarrow> True
     | Release_nodes frz tid key ts_start ts_end ivs events \<Rightarrow> True
     | _ \<Rightarrow> False)"

fun held_at :: "lock_task list \<Rightarrow> (guard \<times> mode) set" where
  "held_at [] = {}"
| "held_at (Take g md # ts) = held_at ts - {(g, md)}"
| "held_at (Give g md # ts) = insert (g, md) (held_at ts)"
| "held_at (t # ts) = (if final_task t then needs t else held_at ts)"

lemma held_at_plain: "plain t \<Longrightarrow> held_at (t # ts) = (if final_task t then needs t else held_at ts)"
  by (cases t) (simp_all add: plain_def)

text \<open>Tasks that hold what they need and give back what they have taken.\<close>

definition one_mode :: "(guard \<times> mode) set \<Rightarrow> bool" where
  "one_mode H \<longleftrightarrow>
    \<not> ((Key_map, Shared) \<in> H \<and> (Key_map, Exclusive) \<in> H) \<and> \<not> ((Trans_map, Shared) \<in> H \<and> (Trans_map, Exclusive) \<in> H)"

fun balanced :: "lock_task list \<Rightarrow> bool" where
  "balanced [] = True"
| "balanced (Take g md # ts) \<longleftrightarrow> (g, md) \<in> held_at ts \<and> balanced ts"
| "balanced (Give g md # ts) \<longleftrightarrow> (g, md) \<notin> held_at ts \<and> balanced ts"
| "balanced (t # ts) \<longleftrightarrow> (if final_task t then held_at ts = {} else needs t \<subseteq> held_at ts \<and> one_mode (held_at ts)) \<and> balanced ts"

lemma balanced_plain:
  "plain t \<Longrightarrow> balanced (t # ts) \<longleftrightarrow> (if final_task t then held_at ts = {} else needs t \<subseteq> held_at ts \<and> one_mode (held_at ts)) \<and> balanced ts"
  by (cases t) (simp_all add: plain_def)

text \<open>A task leads to tasks that hold the same.\<close>

lemma note_balanced:
  assumes "balanced ts" "\<And>md. (Trans_map, md) \<notin> held_at ts" "\<And>md. (Trans_mutex tid, md) \<notin> held_at ts"
    "one_mode (held_at ts)"
  shows "balanced (note_tasks tid key start end_ts @ ts)" "held_at (note_tasks tid key start end_ts @ ts) = held_at ts"
  using assms by (auto simp: note_tasks_def needs_def final_task_def guard_defs one_mode_def)

lemma leave_balanced:
  assumes "balanced ts" "held_at ts = {}"
  shows "balanced (Store_root key root # leave_key key res @ ts)" "held_at (Store_root key root # leave_key key res @ ts) = key_guards key"
    "balanced (leave_key key res @ ts)" "held_at (leave_key key res @ ts) = key_guards key"
  using assms by (auto simp: leave_key_def needs_def final_task_def guard_defs one_mode_def)

lemma leave_noted_balanced:
  assumes "balanced ts" "held_at ts = {}"
  shows "balanced ((if b then note_tasks tid key start end_ts else []) @ Store_root key root # leave_key key res @ ts)
    \<and> held_at ((if b then note_tasks tid key start end_ts else []) @ Store_root key root # leave_key key res @ ts) = key_guards key"
proof -
  note l = leave_balanced [OF assms, of key]
  have "(Trans_map, md) \<notin> key_guards key" "(Trans_mutex tid, md) \<notin> key_guards key" "one_mode (key_guards key)" for md
    by (simp_all add: guard_defs one_mode_def)
  with note_balanced [OF l(1), where tid = tid] have
    "balanced (note_tasks tid key start end_ts @ Store_root key root # leave_key key res @ ts)
      \<and> held_at (note_tasks tid key start end_ts @ Store_root key root # leave_key key res @ ts) = key_guards key"
    unfolding l(2) by blast
  then show ?thesis using l(1,2) by (cases b) (simp_all del: held_at.simps balanced.simps)
qed

lemma task_balanced:
  assumes "plain t" "lock_task_step m t = Some (m1, new)" "balanced (t # ts)"
  shows "balanced (new @ ts) \<and> held_at (new @ ts) = held_at (t # ts)"
proof (cases t)
  case (Lock_nodes key tid ts_start ts_end is_read)
  with assms have b: "balanced ts" "held_at ts = {}" by (simp_all add: final_task_def)
  from assms(2) Lock_nodes obtain root granted where
    new: "new = (if granted then note_tasks tid key ts_start ts_end else []) @ Store_root key root # leave_key key (Granted granted)"
    by (auto simp: lock_task_step_def bind_eq_Some_conv)
  show ?thesis
    using leave_noted_balanced [OF b, of granted tid key ts_start ts_end root "Granted granted"]
    by (simp add: Lock_nodes new needs_def final_task_def del: if_split)
next
  case (Lock_nodes_back key tid ts_end is_read event ts_start)
  with assms have b: "balanced ts" "held_at ts = {}" by (simp_all add: final_task_def)
  from assms(2) Lock_nodes_back obtain root cur_ts res failed call where
    new: "new = (if failed then leave_key key (Granted_from False ts_start)
      else (if call then note_tasks tid key (cur_ts + 1) ts_end else [])
        @ Store_root key root # leave_key key (Granted_from res (cur_ts + 1)))"
    by (auto simp: lock_task_step_def bind_eq_Some_conv)
  show ?thesis
    using leave_noted_balanced [OF b, of call tid key "cur_ts + 1" ts_end root "Granted_from res (cur_ts + 1)"]
      leave_balanced(3,4) [OF b, of key "Granted_from False ts_start"]
    by (cases failed) (simp_all add: Lock_nodes_back new needs_def final_task_def del: if_split)
next
  case (Release_keys frz tid ivs events)
  with assms show ?thesis
    by (cases ivs) (auto simp: lock_task_step_def needs_def final_task_def guard_defs one_mode_def)
qed (use assms in \<open>auto simp: plain_def lock_task_step_def needs_def final_task_def guard_defs one_mode_def bind_eq_Some_conv split: if_splits\<close>)


lemma op_balanced:
  assumes "balanced ts" "held_at ts = {}"
  shows "balanced (op_tasks op @ ts) \<and> held_at (op_tasks op @ ts) = {}"
  using assms by (cases op) (auto simp: needs_def final_task_def guard_defs one_mode_def)

section \<open>The guards that threads hold\<close>

definition keeps_guards :: "lock_thread \<Rightarrow> bool" where
  "keeps_guards th \<longleftrightarrow> lt_held th = held_at (lt_todo th) \<and> balanced (lt_todo th)"

lemma new_keeps_guards: "keeps_guards (new_thread ops)"
proof -
  have "balanced (concat (map op_tasks ops)) \<and> held_at (concat (map op_tasks ops)) = {}"
    by (induction ops) (simp_all add: op_balanced)
  then show ?thesis by (simp add: keeps_guards_def new_thread_def)
qed

lemma thread_step_task:
  "plain t \<Longrightarrow> lt_todo th = t # ts \<Longrightarrow> thread_step m ths th =
    (case lock_task_step m t of None \<Rightarrow> Inl LockFailure | Some (m', new) \<Rightarrow> Inr (m', th\<lparr>lt_todo := new @ ts\<rparr>))"
  using thread_step_plain [of t m ths "lt_held th" ts "lt_out th"] by (cases th) (simp split: option.split)

lemma thread_step_cases:
  assumes "thread_step m ths th = Inr (m', th')"
  obtains (stop) "lt_todo th = []" "m' = m" "th' = th"
  | (take) g md ts where "lt_todo th = Take g md # ts" "may_take ths (g, md)" "m' = m"
      "th' = th\<lparr>lt_held := insert (g, md) (lt_held th), lt_todo := ts\<rparr>"
  | (give) g md ts where "lt_todo th = Give g md # ts" "m' = m" "th' = th\<lparr>lt_held := lt_held th - {(g, md)}, lt_todo := ts\<rparr>"
  | (ret) out ts where "lt_todo th = Return out # ts" "m' = m" "th' = th\<lparr>lt_todo := ts, lt_out := lt_out th @ [out]\<rparr>"
  | (task) t ts new where "lt_todo th = t # ts" "plain t" "lock_task_step m t = Some (m', new)" "th' = th\<lparr>lt_todo := new @ ts\<rparr>"
proof (cases "lt_todo th")
  case Nil
  with assms show ?thesis by (intro stop) (simp_all add: thread_step_def)
next
  case (Cons t ts)
  show ?thesis
  proof (cases "plain t")
    case True
    from assms thread_step_task [OF True Cons, of m ths] obtain new where "lock_task_step m t = Some (m', new)" "th' = th\<lparr>lt_todo := new @ ts\<rparr>"
      by (cases "lock_task_step m t") auto
    with Cons True show ?thesis by (rule task)
  next
    case False
    with Cons assms show ?thesis
      by (cases t) (auto simp: thread_step_def plain_def split: if_splits intro: take give ret)
  qed
qed

lemma step_keeps_guards:
  assumes "thread_step m ths th = Inr (m', th')" "keeps_guards th"
  shows "keeps_guards th'"
  using assms(1)
proof (cases rule: thread_step_cases)
  case stop
  with assms(2) show ?thesis by simp
next
  case (take g md ts)
  with assms(2) have "(g, md) \<in> held_at ts" "balanced ts" "lt_held th = held_at ts - {(g, md)}"
    by (simp_all add: keeps_guards_def)
  then show ?thesis by (simp add: take keeps_guards_def insert_absorb)
next
  case (give g md ts)
  with assms(2) have "(g, md) \<notin> held_at ts" "balanced ts" "lt_held th = insert (g, md) (held_at ts)"
    by (simp_all add: keeps_guards_def)
  then show ?thesis by (simp add: give keeps_guards_def)
next
  case (ret out ts)
  with assms(2) have "balanced ts" "lt_held th = held_at ts"
    by (simp_all add: keeps_guards_def final_task_def)
  then show ?thesis by (simp add: ret keeps_guards_def)
next
  case (task t ts new)
  with task_balanced [OF task(2,3)] assms(2) show ?thesis by (simp add: keeps_guards_def)
qed

text \<open>What a step of a thread may hold afterwards: what it held, and what could be taken.\<close>

lemma step_held:
  assumes "thread_step m ths th = Inr (m', th')" "x \<in> lt_held th'"
  shows "x \<in> lt_held th \<or> may_take ths x"
  using assms(1)
proof (cases rule: thread_step_cases)
qed (use assms(2) in auto)

definition apart :: "lock_thread list \<Rightarrow> bool" where
  "apart ths \<longleftrightarrow> (\<forall>i<length ths. \<forall>j<length ths. i \<noteq> j \<longrightarrow> (\<forall>x\<in>lt_held (ths ! i). \<forall>y\<in>lt_held (ths ! j). \<not> clashes x y))"

lemma clashes_sym: "clashes x y \<Longrightarrow> clashes y x"
  by (auto simp: clashes_def)

definition guarded :: "lock_thread list \<Rightarrow> bool" where
  "guarded ths \<longleftrightarrow> (\<forall>th\<in>set ths. keeps_guards th) \<and> apart ths"

lemma sync_step_guarded:
  assumes "sync_step s i = Inr s'" "guarded (snd s)"
  shows "guarded (snd s')"
proof (cases "i < length (snd s)")
  case True
  let ?ths = "snd s"
  from assms(1) True obtain m th where step: "thread_step (fst s) ?ths (?ths ! i) = Inr (m, th)" and s': "s' = (m, ?ths[i := th])"
    by (cases "thread_step (fst s) ?ths (?ths ! i)") (auto simp: sync_step_def)
  have "keeps_guards th" using step_keeps_guards [OF step] assms(2) True by (simp add: guarded_def)
  then have "\<forall>th\<in>set (?ths[i := th]). keeps_guards th" using assms(2) set_update_subset_insert by (fastforce simp: guarded_def)
  moreover have other: "\<not> clashes x y" if "x \<in> lt_held th" "j < length ?ths" "j \<noteq> i" "y \<in> lt_held (?ths ! j)" for x y j
    using step_held [OF step that(1)]
  proof
    assume "x \<in> lt_held (?ths ! i)"
    then show ?thesis using that assms(2) True by (auto simp: guarded_def apart_def)
  next
    assume "may_take ?ths x"
    then show ?thesis using that by (auto simp: may_take_def dest: clashes_sym)
  qed
  have "apart (?ths[i := th])"
    unfolding apart_def
  proof (intro allI impI ballI)
    fix j k x y
    assume jk: "j < length (?ths[i := th])" "k < length (?ths[i := th])" "j \<noteq> k"
      and x: "x \<in> lt_held (?ths[i := th] ! j)" and y: "y \<in> lt_held (?ths[i := th] ! k)"
    consider "j = i" | "k = i" | "j \<noteq> i" "k \<noteq> i" by blast
    then show "\<not> clashes x y"
    proof cases
      case 1
      with jk x y other [of x k y] show ?thesis by simp
    next
      case 2
      with jk x y other [of y j x] show ?thesis by (auto dest: clashes_sym)
    next
      case 3
      with jk x y assms(2) show ?thesis by (auto simp: guarded_def apart_def)
    qed
  qed
  ultimately show ?thesis unfolding s' guarded_def by simp
qed (use assms in \<open>simp add: sync_step_def\<close>)

lemma sync_run_induct:
  assumes "sync_run s is = Inr s'" "P s" "\<And>s i s'. sync_step s i = Inr s' \<Longrightarrow> P s \<Longrightarrow> P s'"
  shows "P s'"
  using assms(1,2)
proof (induction "is" arbitrary: s)
  case (Cons i "is")
  then show ?case using assms(3) by (cases "sync_step s i") simp_all
qed simp

lemma new_guarded: "guarded (map new_thread opss)"
proof -
  have "lt_held (new_thread ops) = {}" for ops by (simp add: new_thread_def)
  then show ?thesis by (auto simp: guarded_def new_keeps_guards apart_def)
qed

lemma sync_run_guarded:
  assumes "sync_run (m, map new_thread opss) is = Inr s"
  shows "guarded (snd s)"
  by (rule sync_run_induct [OF assms, where P = "\<lambda>s. guarded (snd s)"]) (simp_all add: new_guarded sync_step_guarded)


section \<open>Data races\<close>

text \<open>
  The shared data: the map of keys, what belongs to a key (its tree and events), the map of
  transactions, and the intervals of a transaction.  A task reads it, or may write it (\<open>True\<close>).
\<close>

datatype place = Keys | Key_data u64 | Transactions | Intervals u64

definition accesses :: "lock_task \<Rightarrow> (place \<times> bool) set" where
  "accesses t =
    (case t of
       Check_key key \<Rightarrow> {(Keys, False)}
     | Create_key key \<Rightarrow> {(Keys, True), (Key_data key, True)}
     | Lock_nodes key tid ts_start ts_end is_read \<Rightarrow> {(Keys, False), (Key_data key, True)}
     | Lock_nodes_back key tid ts_end is_read event ts_start \<Rightarrow> {(Keys, False), (Key_data key, True)}
     | Check_trans tid \<Rightarrow> {(Transactions, False)}
     | Create_trans tid \<Rightarrow> {(Transactions, True), (Intervals tid, True)}
     | Note_lock tid key start end_ts \<Rightarrow> {(Transactions, False), (Intervals tid, True)}
     | Store_root key root \<Rightarrow> {(Keys, False), (Key_data key, True)}
     | Find_trans frz tid \<Rightarrow> {(Transactions, False)}
     | Read_intervals frz tid \<Rightarrow> {(Transactions, False), (Intervals tid, False)}
     | Release_keys frz tid ivs events \<Rightarrow> {(Intervals tid, False)}
     | Find_key frz tid key ts_start ts_end ivs events \<Rightarrow> {(Keys, False)}
     | Release_nodes frz tid key ts_start ts_end ivs events \<Rightarrow>
         {(Keys, False), (Key_data key, True), (Intervals tid, True)}
     | Clear_intervals tid \<Rightarrow> {(Transactions, False), (Intervals tid, True)}
     | Delete_trans tid \<Rightarrow> {(Transactions, True), (Intervals tid, True)}
     | _ \<Rightarrow> {})"

definition race :: "lock_task \<Rightarrow> lock_task \<Rightarrow> bool" where
  "race t u \<longleftrightarrow> (\<exists>p w v. (p, w) \<in> accesses t \<and> (p, v) \<in> accesses u \<and> (w \<or> v))"

text \<open>The guards that an access rests on: those of the map for its entries too.\<close>

definition protects :: "guard \<times> mode \<Rightarrow> place \<times> bool \<Rightarrow> bool" where
  "protects x a \<longleftrightarrow>
    (case a of
       (Keys, w) \<Rightarrow> fst x = Key_map \<and> (w \<longrightarrow> snd x = Exclusive)
     | (Key_data key, w) \<Rightarrow> x = (Key_mutex key, Exclusive) \<or> x = (Key_map, Exclusive)
     | (Transactions, w) \<Rightarrow> fst x = Trans_map \<and> (w \<longrightarrow> snd x = Exclusive)
     | (Intervals tid, w) \<Rightarrow> x = (Trans_mutex tid, Exclusive) \<or> x = (Trans_map, Exclusive))"

lemma needs_protects: "a \<in> accesses t \<Longrightarrow> \<exists>x\<in>needs t. protects x a"
  by (cases t) (auto simp: accesses_def needs_def guard_defs protects_def)

text \<open>With the data of a key or a transaction at hand, its map is held at least shared.\<close>

lemma needs_map:
  assumes "(p, w) \<in> accesses t"
  shows "p = Key_data key \<Longrightarrow> \<exists>md. (Key_map, md) \<in> needs t" "p = Intervals tid \<Longrightarrow> \<exists>md. (Trans_map, md) \<in> needs t"
  using assms by (cases t; auto simp: accesses_def needs_def guard_defs)+

lemma exclusive_clashes:
  assumes "(g, md) \<in> H" "(g, md') \<in> K" "md = Exclusive \<or> md' = Exclusive"
  shows "\<exists>x\<in>H. \<exists>y\<in>K. clashes x y"
proof -
  have "clashes (g, md) (g, md')" using assms(3) by (auto simp: clashes_def)
  with assms(1,2) show ?thesis by blast
qed

lemma race_clashes:
  assumes "race t u"
  shows "\<exists>x\<in>needs t. \<exists>y\<in>needs u. clashes x y"
proof -
  from assms obtain p w v where a: "(p, w) \<in> accesses t" "(p, v) \<in> accesses u" and wv: "w \<or> v" by (auto simp: race_def)
  obtain x y where x: "x \<in> needs t" "protects x (p, w)" and y: "y \<in> needs u" "protects y (p, v)"
    using needs_protects [OF a(1)] needs_protects [OF a(2)] by blast
  show ?thesis
  proof (cases "fst x = fst y")
    case True
    with x y wv have "clashes x y" by (cases p) (auto simp: protects_def clashes_def)
    with x y show ?thesis by blast
  next
    case False
    with x y consider "x = (Key_map, Exclusive) \<or> y = (Key_map, Exclusive)" "\<exists>key. p = Key_data key"
      | "x = (Trans_map, Exclusive) \<or> y = (Trans_map, Exclusive)" "\<exists>tid. p = Intervals tid"
      by (cases p) (auto simp: protects_def)
    then show ?thesis
    proof cases
      case 1
      then obtain md md' where "(Key_map, md) \<in> needs t" "(Key_map, md') \<in> needs u"
        using needs_map(1) [OF a(1)] needs_map(1) [OF a(2)] by blast
      with 1(1) x(1) y(1) show ?thesis
        using exclusive_clashes [of Key_map _ "needs t" _ "needs u"] by blast
    next
      case 2
      then obtain md md' where "(Trans_map, md) \<in> needs t" "(Trans_map, md') \<in> needs u"
        using needs_map(2) [OF a(1)] needs_map(2) [OF a(2)] by blast
      with 2(1) x(1) y(1) show ?thesis
        using exclusive_clashes [of Trans_map _ "needs t" _ "needs u"] by blast
    qed
  qed
qed

lemma held_needs: "keeps_guards th \<Longrightarrow> lt_todo th = t # ts \<Longrightarrow> needs t \<subseteq> lt_held th"
  by (cases t) (auto simp: keeps_guards_def needs_def final_task_def)

lemma guarded_no_race:
  assumes "guarded ths" "i < length ths" "j < length ths" "i \<noteq> j" "lt_todo (ths ! i) = t # ts" "lt_todo (ths ! j) = u # us"
  shows "\<not> race t u"
proof
  assume "race t u"
  then obtain x y where xy: "x \<in> needs t" "y \<in> needs u" "clashes x y" using race_clashes by blast
  moreover have "needs t \<subseteq> lt_held (ths ! i)" "needs u \<subseteq> lt_held (ths ! j)"
    using assms held_needs [of "ths ! i" t ts] held_needs [of "ths ! j" u us] by (simp_all add: guarded_def)
  moreover have "\<forall>x\<in>lt_held (ths ! i). \<forall>y\<in>lt_held (ths ! j). \<not> clashes x y"
    using assms by (simp add: guarded_def apart_def)
  ultimately show False by blast
qed


text \<open>A task changes nothing but what it says that it may write.\<close>

definition same_but :: "u64 \<Rightarrow> lock_manager \<Rightarrow> lock_manager \<Rightarrow> bool" where
  "same_but key m m1 \<longleftrightarrow>
    lm_trans m1 = lm_trans m \<and> (\<forall>k. k \<noteq> key \<longrightarrow> lm_keys m1 k = lm_keys m k) \<and> (\<forall>k. lm_keys m1 k = None \<longleftrightarrow> lm_keys m k = None)"

lemma back_round_frame:
  assumes "back_round key tid is_read event m locks cur_ts = Some s"
  shows "same_but key m (case s of Inl (m1, ls, ts) \<Rightarrow> m1 | Inr (m1, r) \<Rightarrow> m1)"
  using assms
  by (auto simp: back_round_def same_but_def Let_def addEvent_def bind_eq_Some_conv split: if_splits prod.splits option.splits)

lemma backward_scan_frame:
  assumes "backward_scan key tid is_read event m locks cur_ts = Some r"
  shows "same_but key m (fst r)"
proof -
  let ?P = "\<lambda>key tid is_read event m locks cur_ts r. same_but key m (fst r)"
  have "?P key tid is_read event m locks cur_ts r"
  proof (rule backward_scan.raw_induct [where P = ?P, OF _ assms])
    fix scan key tid is_read event m locks cur_ts and r :: back_end
    assume IH: "\<And>key tid is_read event m locks cur_ts r. scan key tid is_read event m locks cur_ts = Some r \<Longrightarrow> ?P key tid is_read event m locks cur_ts r"
      and body: "do {
          s \<leftarrow> back_round key tid is_read event m locks cur_ts;
          (case s of Inl (m, locks, cur_ts) \<Rightarrow> scan key tid is_read event m locks cur_ts | Inr r \<Rightarrow> Some r)
        } = Some r"
    from body obtain s where s: "back_round key tid is_read event m locks cur_ts = Some s"
      by (auto simp: bind_eq_Some_conv)
    show "?P key tid is_read event m locks cur_ts r"
    proof (cases s)
      case (Inl x)
      obtain m1 l1 t1 where x: "x = (m1, l1, t1)" by (cases x)
      with body s Inl have "scan key tid is_read event m1 l1 t1 = Some r" by simp
      from IH [OF this] back_round_frame [OF s] Inl x show ?thesis by (simp add: same_but_def)
    next
      case (Inr r1)
      with body s back_round_frame [OF s] show ?thesis by (auto simp: case_prod_beta)
    qed
  qed
  then show ?thesis .
qed

lemma lock_nodes_back_frame: "lock_nodes_back m key tid ts_end is_read event = Some (m1, r) \<Longrightarrow> same_but key m m1"
  using backward_scan_frame by (fastforce simp: lock_nodes_back_def same_but_def bind_eq_Some_conv)

lemma lock_nodes_frame: "lock_nodes m key tid ts_start ts_end is_read = Some (m1, r) \<Longrightarrow> same_but key m m1"
  by (auto simp: lock_nodes_def same_but_def Let_def bind_eq_Some_conv split: option.splits)

lemma release_nodes_frame: "release_nodes frz m tid key ts_start ts_end events = Some (m1, r) \<Longrightarrow> same_but key m m1"
  by (auto simp: release_nodes_def same_but_def bind_eq_Some_conv)

lemma set_root_frame: "set_root m key root = Some m1 \<Longrightarrow> same_but key m m1"
  by (auto simp: set_root_def same_but_def bind_eq_Some_conv split: if_splits)

lemma createKeyInfo_frame:
  "createKeyInfo m key = Some m1 \<Longrightarrow> lm_trans m1 = lm_trans m \<and> (\<forall>k. k \<noteq> key \<longrightarrow> lm_keys m1 k = lm_keys m k)"
  by (auto simp: createKeyInfo_def Let_def bind_eq_Some_conv split: option.splits if_splits prod.splits)

lemmas access_frames = lock_nodes_back_frame lock_nodes_frame release_nodes_frame set_root_frame createKeyInfo_frame

lemma addTransactionLock_frame:
  assumes "lm_trans m tid \<noteq> None"
  shows "lm_keys (addTransactionLock m tid key start end_ts) = lm_keys m"
    "lm_trans (addTransactionLock m tid key start end_ts) k = None \<longleftrightarrow> lm_trans m k = None"
proof -
  obtain ivs where "lm_trans m tid = Some ivs" using assms by blast
  then show "lm_keys (addTransactionLock m tid key start end_ts) = lm_keys m"
    "lm_trans (addTransactionLock m tid key start end_ts) k = None \<longleftrightarrow> lm_trans m k = None"
    by (simp_all add: addTransactionLock_def Let_def)
qed

lemma step_frame:
  assumes "lock_task_step m t = Some (m1, new)"
  shows "(Key_data key, True) \<notin> accesses t \<Longrightarrow> lm_keys m1 key = lm_keys m key"
    "(Intervals tid, True) \<notin> accesses t \<Longrightarrow> lm_trans m1 tid = lm_trans m tid"
  using assms
  by (cases t; auto simp: lock_task_step_def accesses_def same_but_def createTransactionInfo_def deleteTransactionInfo_def
        addTransactionLock_def Let_def bind_eq_Some_conv dest!: access_frames split: if_splits list.splits option.splits)+

lemma step_frame_maps:
  assumes "lock_task_step m t = Some (m1, new)"
  shows "((Keys, True) \<notin> accesses t \<longrightarrow> (\<forall>k. lm_keys m1 k = None \<longleftrightarrow> lm_keys m k = None)) \<and>
    ((Transactions, True) \<notin> accesses t \<longrightarrow> (\<forall>k. lm_trans m1 k = None \<longleftrightarrow> lm_trans m k = None))"
proof (cases t)
  case (Release_keys frz tid ivs events)
  with assms show ?thesis by (cases ivs) (auto simp: lock_task_step_def)
next
  case (Note_lock tid key start end_ts)
  with assms have "lm_trans m tid \<noteq> None" "m1 = addTransactionLock m tid key start end_ts"
    by (simp_all add: lock_task_step_def split: if_splits)
  then show ?thesis using addTransactionLock_frame by simp
qed (use assms in \<open>auto simp: lock_task_step_def accesses_def same_but_def createTransactionInfo_def deleteTransactionInfo_def
      bind_eq_Some_conv dest!: access_frames simp del: not_None_eq split: if_splits option.splits\<close>)

end
