(* ===== verification/Lock_Deadlock.thy ===== *)
theory Lock_Deadlock
  imports Lock_Guards
begin

text \<open>
  Waiting for guards.  Requests for locks take their guards in one order, and so do \<open>freeze\<close> and
  \<open>unlock\<close>, in another: threads that do only the one, or only the other, never wait for each other
  in a circle, and can all come to an end.  A commit and a request for a lock together can.
\<close>

section \<open>An order of the guards\<close>

text \<open>The place of a guard in the order of requests (\<open>True\<close>), or of releases.\<close>

fun rank :: "bool \<Rightarrow> guard \<Rightarrow> nat" where
  "rank acq Key_map = (if acq then 0 else 2)"
| "rank acq (Key_mutex key) = (if acq then 1 else 3)"
| "rank acq Trans_map = (if acq then 2 else 0)"
| "rank acq (Trans_mutex tid) = (if acq then 3 else 1)"

text \<open>The tasks of requests, and of releases; the guard that a task takes, now or again.\<close>

definition of_side :: "bool \<Rightarrow> lock_task \<Rightarrow> bool" where
  "of_side acq t \<longleftrightarrow>
    (case t of
       Take g md \<Rightarrow> True
     | Give g md \<Rightarrow> True
     | Return out \<Rightarrow> True
     | Find_trans frz tid \<Rightarrow> \<not> acq
     | Read_intervals frz tid \<Rightarrow> \<not> acq
     | Release_keys frz tid ivs events \<Rightarrow> \<not> acq
     | Find_key frz tid key ts_start ts_end ivs events \<Rightarrow> \<not> acq
     | Release_nodes frz tid key ts_start ts_end ivs events \<Rightarrow> \<not> acq
     | Clear_intervals tid \<Rightarrow> \<not> acq
     | Delete_trans tid \<Rightarrow> \<not> acq
     | _ \<Rightarrow> acq)"

definition takes :: "lock_task \<Rightarrow> (guard \<times> mode) set" where
  "takes t =
    (case t of
       Take g md \<Rightarrow> {(g, md)}
     | Check_key key \<Rightarrow> {(Key_map, Shared)}
     | Check_trans tid \<Rightarrow> {(Trans_map, Shared)}
     | _ \<Rightarrow> {})"

text \<open>Whatever is taken comes after all that is held.\<close>

fun climbs :: "bool \<Rightarrow> lock_task list \<Rightarrow> bool" where
  "climbs acq [] = True"
| "climbs acq (t # ts) \<longleftrightarrow>
    of_side acq t \<and> (\<forall>x\<in>takes t. \<forall>y\<in>held_at ts - takes t. rank acq (fst y) < rank acq (fst x)) \<and> climbs acq ts"

lemmas climb_defs = of_side_def takes_def needs_def final_task_def guard_defs

lemma leave_climbs:
  assumes "climbs True ts" "held_at ts = {}"
  shows "climbs True (leave_key key out @ ts)" "climbs True (Store_root key root # leave_key key out @ ts)"
    "climbs True (note_tasks tid key start end_ts @ Store_root key root # leave_key key out @ ts)"
  using assms by (auto simp: leave_key_def note_tasks_def climb_defs)

lemma task_climbs:
  assumes "plain t" "lock_task_step m t = Some (m1, new)" "balanced (t # ts)" "climbs acq (t # ts)"
  shows "climbs acq (new @ ts)"
proof (cases t)
  case (Lock_nodes key tid ts_start ts_end is_read)
  with assms have b: "climbs True ts" "held_at ts = {}" "acq" by (cases acq; simp add: final_task_def of_side_def)+
  from assms(2) Lock_nodes leave_climbs [OF b(1,2)] b(3) show ?thesis
    by (auto simp: lock_task_step_def bind_eq_Some_conv simp del: climbs.simps)
next
  case (Lock_nodes_back key tid ts_end is_read event ts_start)
  with assms have b: "climbs True ts" "held_at ts = {}" "acq" by (cases acq; simp add: final_task_def of_side_def)+
  from assms(2) Lock_nodes_back leave_climbs [OF b(1,2)] b(3) show ?thesis
    by (auto simp: lock_task_step_def bind_eq_Some_conv simp del: climbs.simps split: if_splits)
next
  case (Release_keys frz tid ivs events)
  with assms show ?thesis
    by (cases ivs) (auto simp: lock_task_step_def climb_defs)
qed (use assms in \<open>auto simp: plain_def lock_task_step_def climb_defs bind_eq_Some_conv split: if_splits\<close>)

text \<open>The operations of each side.\<close>

fun requests :: "sync_op \<Rightarrow> bool" where
  "requests (Try_lock key tid ts_start ts_end is_read) = True"
| "requests (Try_backward key tid ts_end is_read event ts_start) = True"
| "requests (Freeze_all tid) = False"
| "requests (Unlock_all tid) = False"

lemma op_climbs:
  assumes "climbs (requests op) ts" "held_at ts = {}"
  shows "climbs (requests op) (op_tasks op @ ts)"
  using assms by (cases op) (auto simp: climb_defs)
section \<open>Threads that never wait in a circle\<close>

text \<open>Somebody is not finished, and whoever is not waits for a guard.\<close>

definition deadlocked :: "sync \<Rightarrow> bool" where
  "deadlocked s \<longleftrightarrow> (\<exists>th\<in>set (snd s). lt_todo th \<noteq> []) \<and>
    (\<forall>i<length (snd s). lt_todo (snd s ! i) \<noteq> [] \<longrightarrow> sync_step s i = Inl Blocked)"

definition climbing :: "bool \<Rightarrow> lock_thread list \<Rightarrow> bool" where
  "climbing acq ths \<longleftrightarrow> (\<forall>th\<in>set ths. keeps_guards th \<and> climbs acq (lt_todo th))"

lemma new_climbing:
  assumes "\<forall>ops\<in>set opss. \<forall>op\<in>set ops. requests op = acq"
  shows "climbing acq (map new_thread opss)"
proof -
  have "climbs acq (concat (map op_tasks ops)) \<and> held_at (concat (map op_tasks ops)) = {} \<and> balanced (concat (map op_tasks ops))"
    if "\<forall>op\<in>set ops. requests op = acq" for ops
    using that
  proof (induction ops)
    case (Cons op ops)
    then show ?case using op_climbs [of op] op_balanced by simp
  qed simp
  with assms show ?thesis by (auto simp: climbing_def keeps_guards_def new_thread_def)
qed

lemma step_climbs:
  assumes "thread_step m ths th = Inr (m', th')" "keeps_guards th" "climbs acq (lt_todo th)"
  shows "climbs acq (lt_todo th')"
  using assms(1)
proof (cases rule: thread_step_cases)
  case (task t ts new)
  with task_climbs [OF task(2,3)] assms(2,3) show ?thesis by (simp add: keeps_guards_def)
qed (use assms(3) in simp_all)

lemma sync_step_thread:
  assumes "sync_step s i = Inr s'" "i < length (snd s)"
  obtains m th where "thread_step (fst s) (snd s) (snd s ! i) = Inr (m, th)" "s' = (m, (snd s)[i := th])"
  using assms by (cases "thread_step (fst s) (snd s) (snd s ! i)") (auto simp: sync_step_def)

lemma sync_step_climbing:
  assumes "sync_step s i = Inr s'" "climbing acq (snd s)"
  shows "climbing acq (snd s')"
proof (cases "i < length (snd s)")
  case True
  with assms(1) obtain m th where step: "thread_step (fst s) (snd s) (snd s ! i) = Inr (m, th)" and s': "s' = (m, (snd s)[i := th])"
    by (rule sync_step_thread)
  have old: "keeps_guards (snd s ! i)" "climbs acq (lt_todo (snd s ! i))" using assms(2) True by (simp_all add: climbing_def)
  have "keeps_guards th \<and> climbs acq (lt_todo th)"
    using step_keeps_guards [OF step old(1)] step_climbs [OF step old] by blast
  with assms(2) show ?thesis unfolding s' climbing_def by (auto dest!: subsetD [OF set_update_subset_insert])
qed (use assms in \<open>simp add: sync_step_def\<close>)

lemma sync_run_climbing:
  assumes "sync_run s is = Inr s'" "climbing acq (snd s)"
  shows "climbing acq (snd s')"
  by (rule sync_run_induct [OF assms(1), where P = "\<lambda>s. climbing acq (snd s)"]) (use assms(2) sync_step_climbing in blast)+

text \<open>A thread only waits for a guard that it is about to take.\<close>

definition waiting_in :: "lock_thread list \<Rightarrow> lock_thread \<Rightarrow> bool" where
  "waiting_in ths th \<longleftrightarrow> (\<exists>g md ts. lt_todo th = Take g md # ts \<and> \<not> may_take ths (g, md))"

lemma step_fails:
  assumes "thread_step m ths th = Inl f"
  shows "f = LockFailure \<or> f = Blocked \<and> waiting_in ths th"
proof (cases "lt_todo th")
  case (Cons t ts)
  show ?thesis
  proof (cases "plain t")
    case True
    with assms thread_step_task [OF True Cons, of m ths] show ?thesis by (auto split: option.splits)
  next
    case False
    with assms Cons show ?thesis
      by (cases t) (simp_all add: thread_step_def plain_def waiting_in_def split: if_splits)
  qed
qed (use assms in \<open>simp add: thread_step_def\<close>)

text \<open>Who holds what a waiting thread is about to take, and waits too, waits for a later guard.\<close>

definition next_rank :: "bool \<Rightarrow> lock_thread \<Rightarrow> nat" where
  "next_rank acq th = (case lt_todo th of Take g md # ts \<Rightarrow> rank acq g | _ \<Rightarrow> 0)"

lemma waiting_for_later:
  assumes "climbing acq ths" "th \<in> set ths" "waiting_in ths th"
    and all: "\<forall>th\<in>set ths. lt_todo th \<noteq> [] \<longrightarrow> waiting_in ths th"
  shows "\<exists>th'\<in>set ths. lt_todo th' \<noteq> [] \<and> next_rank acq th < next_rank acq th'"
proof -
  from assms(3) obtain g md ts where th: "lt_todo th = Take g md # ts" "\<not> may_take ths (g, md)"
    by (auto simp: waiting_in_def)
  then obtain th' y where th': "th' \<in> set ths" "y \<in> lt_held th'" "clashes (g, md) y" by (auto simp: may_take_def)
  then have k: "lt_held th' = held_at (lt_todo th')" "climbs acq (lt_todo th')"
    using assms(1) by (simp_all add: climbing_def keeps_guards_def)
  with th' have "lt_todo th' \<noteq> []" by auto
  with all th'(1) obtain g' md' ts' where u: "lt_todo th' = Take g' md' # ts'" unfolding waiting_in_def by blast
  with k th'(2) have "rank acq (fst y) < rank acq g'" by (simp add: takes_def)
  moreover from th'(3) have "fst y = g" by (auto simp: clashes_def)
  ultimately have "lt_todo th' \<noteq> [] \<and> next_rank acq th < next_rank acq th'" by (simp add: next_rank_def th(1) u)
  with th'(1) show ?thesis by blast
qed

lemma climbing_not_stuck:
  assumes "climbing acq ths" "th \<in> set ths" "lt_todo th \<noteq> []"
  shows "\<exists>th\<in>set ths. lt_todo th \<noteq> [] \<and> \<not> waiting_in ths th"
proof (rule ccontr)
  assume "\<not> ?thesis"
  then have all: "\<forall>th\<in>set ths. lt_todo th \<noteq> [] \<longrightarrow> waiting_in ths th" by blast
  let ?U = "{th \<in> set ths. lt_todo th \<noteq> []}"
  let ?r = "Max (next_rank acq ` ?U)"
  have fin: "finite (next_rank acq ` ?U)" "next_rank acq ` ?U \<noteq> {}" using assms(2,3) by auto
  then have "?r \<in> next_rank acq ` ?U" by (rule Max_in)
  then obtain th where "th \<in> ?U" "next_rank acq th = ?r" by auto
  with waiting_for_later [OF assms(1), of th] all obtain th' where "th' \<in> ?U" "?r < next_rank acq th'" by auto
  moreover from this(1) have "next_rank acq th' \<le> ?r" using fin by (intro Max_ge) auto
  ultimately show False by simp
qed

section \<open>Threads that come to an end\<close>

text \<open>
  How many tasks are still to come: those that look up the intervals of a transaction, whose
  number is open until then, and those after them.
\<close>

definition lookups :: "lock_task \<Rightarrow> nat" where
  "lookups t = (case t of Find_trans frz tid \<Rightarrow> 1 | Read_intervals frz tid \<Rightarrow> 1 | _ \<Rightarrow> 0)"

definition weight :: "lock_task \<Rightarrow> nat" where
  "weight t =
    (case t of
       Check_key key \<Rightarrow> 6
     | Check_trans tid \<Rightarrow> 6
     | Lock_nodes key tid ts_start ts_end is_read \<Rightarrow> 16
     | Lock_nodes_back key tid ts_end is_read event ts_start \<Rightarrow> 16
     | Find_trans frz tid \<Rightarrow> 3
     | Release_keys frz tid ivs events \<Rightarrow> 7 * length ivs + 8
     | Find_key frz tid key ts_start ts_end ivs events \<Rightarrow> 7 * length ivs + 13
     | Release_nodes frz tid key ts_start ts_end ivs events \<Rightarrow> 7 * length ivs + 11
     | _ \<Rightarrow> 1)"

definition less_work :: "((nat \<times> nat) \<times> (nat \<times> nat)) set" where
  "less_work = less_than <*lex*> less_than"

lemma less_work_iff: "((a, b), (c, d)) \<in> less_work \<longleftrightarrow> a < c \<or> a = c \<and> b < d"
  by (simp add: less_work_def)

lemma wf_less_work: "wf less_work"
  by (simp add: less_work_def wf_lex_prod)

definition work :: "lock_task list \<Rightarrow> nat \<times> nat" where
  "work ts = (sum_list (map lookups ts), sum_list (map weight ts))"

lemmas work_defs = work_def lookups_def weight_def less_work_iff

lemma task_work:
  assumes "plain t" "lock_task_step m t = Some (m1, new)"
  shows "(work new, work [t]) \<in> less_work"
proof (cases t)
  case (Release_keys frz tid ivs events)
  with assms show ?thesis by (cases ivs) (auto simp: lock_task_step_def work_defs)
qed (use assms in \<open>auto simp: plain_def lock_task_step_def note_tasks_def leave_key_def work_defs bind_eq_Some_conv split: if_splits\<close>)

lemma step_work:
  assumes "thread_step m ths th = Inr (m', th')" "lt_todo th \<noteq> []"
  shows "(work (lt_todo th'), work (lt_todo th)) \<in> less_work"
  using assms(1)
proof (cases rule: thread_step_cases)
  case (task t ts new)
  from task_work [OF task(2,3)] task(1,4) show ?thesis by (simp add: work_def less_work_iff)
qed (use assms(2) in \<open>simp_all add: work_defs\<close>)

definition all_work :: "lock_thread list \<Rightarrow> nat \<times> nat" where
  "all_work ths = (sum_list (map (\<lambda>th. fst (work (lt_todo th))) ths), sum_list (map (\<lambda>th. snd (work (lt_todo th))) ths))"

lemma sum_list_part: "i < length xs \<Longrightarrow> sum_list (map f xs) = f (xs ! i) + sum_list (map f (take i xs @ drop (Suc i) xs))"
  for f :: "'a \<Rightarrow> nat"
  by (subst id_take_nth_drop [of i xs], assumption) simp

lemma all_work_update:
  assumes "i < length ths" "(work (lt_todo th), work (lt_todo (ths ! i))) \<in> less_work"
  shows "(all_work (ths[i := th]), all_work ths) \<in> less_work"
proof -
  have p: "sum_list (map f (ths[i := th])) = f th + sum_list (map f (take i ths @ drop (Suc i) ths))"
      "sum_list (map f ths) = f (ths ! i) + sum_list (map f (take i ths @ drop (Suc i) ths))" for f :: "lock_thread \<Rightarrow> nat"
    using sum_list_part [of i "ths[i := th]" f] sum_list_part [of i ths f] assms(1) by simp_all
  from assms(2) show ?thesis
    unfolding all_work_def p by (cases "work (lt_todo th)"; cases "work (lt_todo (ths ! i))") (simp add: less_work_iff)
qed

definition all_finished :: "lock_thread list \<Rightarrow> bool" where
  "all_finished ths \<longleftrightarrow> (\<forall>th\<in>set ths. lt_todo th = [] \<and> lt_held th = {})"

lemma climbing_ends:
  assumes "climbing acq (snd s)"
  shows "\<exists>js. case sync_run s js of Inl f \<Rightarrow> f = LockFailure | Inr s' \<Rightarrow> all_finished (snd s')"
  using assms
proof (induction s rule: wf_induct_rule [OF wf_inv_image [OF wf_less_work, of "\<lambda>s. all_work (snd s)"]])
  case (1 s)
  show ?case
  proof (cases "\<exists>th\<in>set (snd s). lt_todo th \<noteq> []")
    case False
    with 1(2) have "all_finished (snd s)" by (auto simp: all_finished_def climbing_def keeps_guards_def)
    then show ?thesis by (intro exI [of _ "[]"]) simp
  next
    case True
    with climbing_not_stuck [OF 1(2)] obtain i where
      i: "i < length (snd s)" "lt_todo (snd s ! i) \<noteq> []" "\<not> waiting_in (snd s) (snd s ! i)"
      by (metis in_set_conv_nth)
    show ?thesis
    proof (cases "sync_step s i")
      case (Inl f)
      then have "thread_step (fst s) (snd s) (snd s ! i) = Inl f"
        using i(1) by (cases "thread_step (fst s) (snd s) (snd s ! i)") (auto simp: sync_step_def)
      with i(3) step_fails have "f = LockFailure" by blast
      with Inl show ?thesis by (intro exI [of _ "[i]"]) simp
    next
      case (Inr s1)
      from sync_step_thread [OF Inr i(1)] obtain m th where
        step: "thread_step (fst s) (snd s) (snd s ! i) = Inr (m, th)" "s1 = (m, (snd s)[i := th])" .
      have "(all_work (snd s1), all_work (snd s)) \<in> less_work"
        using all_work_update [OF i(1) step_work [OF step(1) i(2)]] step(2) by simp
      then obtain js where "case sync_run s1 js of Inl f \<Rightarrow> f = LockFailure | Inr s' \<Rightarrow> all_finished (snd s')"
        using 1(1) [of s1] sync_step_climbing [OF Inr 1(2)] by (auto simp: inv_image_def)
      with Inr show ?thesis by (intro exI [of _ "i # js"]) simp
    qed
  qed
qed

text \<open>
  C20: threads that only request locks, or only freeze and unlock, never wait for each other in
  a circle.  Wherever they have come to, when one of them is not finished, some unfinished one can
  go on; and there are turns with which all of them finish and have given back their guards,
  unless an access fails.
\<close>
theorem same_side_finishes:
  assumes "\<forall>ops\<in>set opss. \<forall>op\<in>set ops. requests op = acq" "sync_run (m, map new_thread opss) is = Inr s"
  shows "\<not> deadlocked s \<and>
    (\<exists>js. case sync_run s js of Inl f \<Rightarrow> f = LockFailure | Inr s' \<Rightarrow> all_finished (snd s'))"
proof -
  have c: "climbing acq (snd s)" using sync_run_climbing [OF assms(2)] new_climbing [OF assms(1)] by simp
  have "\<not> deadlocked s"
  proof
    assume d: "deadlocked s"
    then obtain th where "th \<in> set (snd s)" "lt_todo th \<noteq> []" by (auto simp: deadlocked_def)
    from climbing_not_stuck [OF c this] obtain i where
      i: "i < length (snd s)" "lt_todo (snd s ! i) \<noteq> []" "\<not> waiting_in (snd s) (snd s ! i)"
      by (metis in_set_conv_nth)
    then have "thread_step (fst s) (snd s) (snd s ! i) \<noteq> Inl Blocked" using step_fails by blast
    with i(1) have "sync_step s i \<noteq> Inl Blocked"
      by (cases "thread_step (fst s) (snd s) (snd s ! i)") (auto simp: sync_step_def)
    with d i(1,2) show False by (simp add: deadlocked_def)
  qed
  then show ?thesis using climbing_ends [OF c] by blast
qed

text \<open>Two transactions that request the same lock, when the first has its turn.\<close>

theorem same_side_finishes_witness:
  "\<exists>s. sync_run (lm_init, map new_thread [[Try_lock 5 1 3 3 False], [Try_lock 5 2 3 3 False]]) [0] = Inr s \<and> \<not> deadlocked s"
proof -
  let ?opss = "[[Try_lock 5 1 3 3 False], [Try_lock 5 2 3 3 False]]"
  obtain s where "sync_run (lm_init, map new_thread ?opss) [0] = Inr s"
    by (simp add: sync_step_def thread_step_def may_take_def new_thread_def)
  with same_side_finishes [of ?opss True lm_init "[0]" s] show ?thesis by simp
qed

section \<open>A commit and a request\<close>

lemma granted_nodes:
  assumes "tryLock m key tid ts_start ts_end is_read = Some (m1, True)" "lm_keys m key \<noteq> None"
  shows "\<exists>m2 root. lock_nodes m key tid ts_start ts_end is_read = Some (m2, root, True) \<and> same_but key m m2"
proof -
  have "createKeyInfo m key = Some m" using assms(2) by (auto simp: createKeyInfo_def)
  with assms(1) obtain m2 root where "lock_nodes m key tid ts_start ts_end is_read = Some (m2, root, True)"
    by (auto simp: tryLock_nodes bind_eq_Some_conv)
  then show ?thesis using lock_nodes_frame by blast
qed

lemmas turn_defs = sync_step_def thread_step_def may_take_def clashes_def lock_task_step_def

text \<open>The thread of the request, up to where it has locked the nodes; the thread of the commit.\<close>

lemma request_locks:
  assumes "lock_nodes m key tid ts_start ts_end is_read = Some (m2, root, True)" "lm_keys m key \<noteq> None"
  shows "sync_run (m, [at {} ts out, new_thread [Try_lock key tid ts_start ts_end is_read]]) [1, 1, 1, 1] =
    Inr (m2, [at {} ts out, at (key_guards key)
      (note_tasks tid key ts_start ts_end @ Store_root key root # leave_key key (Granted True)) []])"
  using assms by (auto simp: turn_defs new_thread_def guard_defs)

lemma commit_reads:
  assumes "lm_trans m tid = Some ((key, (s, e)) # ivs)" "lm_keys m key \<noteq> None"
  shows "sync_run (m, [new_thread [Freeze_all tid], at (key_guards key) ts out]) [0, 0, 0, 0, 0, 0, 0] =
    Inr (m, [at (insert (Key_map, Shared) (trans_guards tid))
      [Take (Key_mutex key) Exclusive, Release_nodes True tid key s e ivs []] [], at (key_guards key) ts out])"
  using assms by (auto simp: turn_defs new_thread_def guard_defs)
lemma request_notes:
  assumes "lm_trans m tid' = None"
  shows "sync_run (m, [at (insert (Key_map, Shared) (trans_guards tid)) us [],
      at (key_guards key) (note_tasks tid' key ts_start ts_end @ ts) []]) [1, 1, 1] =
    Inr (m, [at (insert (Key_map, Shared) (trans_guards tid)) us [],
      at (key_guards key) (Take Trans_map Exclusive # Create_trans tid' # Give Trans_map Exclusive # Take Trans_map Shared
        # Take (Trans_mutex tid') Exclusive # Note_lock tid' key ts_start ts_end # Give (Trans_mutex tid') Exclusive
        # Give Trans_map Shared # ts) []])"
  using assms by (auto simp: turn_defs guard_defs note_tasks_def)

text \<open>
  C19: a commit and a request for a lock can wait for each other for ever.  The transaction of the
  commit has locked the key; another, which has no lock at this server yet, requests one on the
  same key that is free.  When \<open>freeze\<close> holds the map of transactions, shared, and \<open>tryLock\<close>
  the mutex of the key, \<open>freeze\<close> waits for the mutex and \<open>createTransactionInfo\<close>, to add the
  other transaction to the map, for the map.
\<close>
theorem commit_and_lock_deadlock:
  assumes "lm_trans m tid = Some ((key, (s, e)) # ivs)" "lm_keys m key \<noteq> None" "lm_trans m tid' = None"
    and "tryLock m key tid' ts_start ts_end is_read = Some (m1, True)"
  shows "\<exists>s. sync_run (m, map new_thread [[Freeze_all tid], [Try_lock key tid' ts_start ts_end is_read]])
      ([1, 1, 1, 1] @ [0, 0, 0, 0, 0, 0, 0] @ [1, 1, 1]) = Inr s \<and> deadlocked s"
proof -
  from granted_nodes [OF assms(4,2)] obtain m2 root where
    l: "lock_nodes m key tid' ts_start ts_end is_read = Some (m2, root, True)" and "same_but key m m2" by blast
  then have m2: "lm_trans m2 tid = Some ((key, (s, e)) # ivs)" "lm_keys m2 key \<noteq> None" "lm_trans m2 tid' = None"
    using assms(1-3) by (simp_all add: same_but_def)
  have t: "new_thread [Freeze_all tid] = at {} [Take Trans_map Shared, Find_trans True tid] []"
    by (simp add: new_thread_def)
  note r = request_locks [OF l assms(2), of "[Take Trans_map Shared, Find_trans True tid]" "[]", folded t]
    commit_reads [OF m2(1,2)] request_notes [OF m2(3)]
  show ?thesis
    unfolding sync_run_append list.map r and_then_Inr
    by (auto simp: deadlocked_def turn_defs guard_defs less_Suc_eq)
qed

text \<open>Transaction 1 has locked time 3 of key 5 and commits; transaction 2 requests time 7.\<close>

theorem commit_and_lock_deadlock_witness:
  "\<exists>m s. tryLock lm_init 5 1 3 3 False = Some (m, True)
    \<and> sync_run (m, map new_thread [[Freeze_all 1], [Try_lock 5 2 7 7 False]])
      ([1, 1, 1, 1] @ [0, 0, 0, 0, 0, 0, 0] @ [1, 1, 1]) = Inr s \<and> deadlocked s"
proof -
  from tryLock_ok [OF lm_inv_init, of 3 3 5 1 False] obtain m where
    m: "tryLock lm_init 5 1 3 3 False = Some (m, True)" "lm_inv m"
      "lock_at m 5 7 = initial_cell 7" "lm_trans m = note_lock (lm_trans lm_init) 1 5 3 3"
    by (auto simp: lock_at_def lm_init_def initial_cell_def passes_def)
  from tryLock_ok [OF m(2), of 7 7 5 2 False] obtain m1 where "tryLock m 5 2 7 7 False = Some (m1, True)"
    by (auto simp: m(3) initial_cell_def passes_def)
  moreover have "lm_keys m 5 \<noteq> None"
    using m(1) by (auto simp: tryLock_nodes set_root_def bind_eq_Some_conv)
  moreover have "lm_trans m 1 = Some [(5, (3, 3))]" "lm_trans m 2 = None"
    by (simp_all add: m(4) lm_init_def note_lock_def hull_def)
  ultimately show ?thesis using m(1) commit_and_lock_deadlock [of m 1 5 3 3 "[]" 2 7 7 False m1] by blast
qed


end
