(* ===== verification/Lock_Settled.thy ===== *)
theory Lock_Settled
  imports Lock_Deadlock
begin

text \<open>
  What is left of a request when it has worked on the nodes of its key: to note the interval and
  to store the root.  Such work for different transactions and keys commutes with itself and
  with the work on the nodes of other keys.
\<close>

section \<open>Work that is still to be done\<close>

text \<open>What is left of the effect of a request.\<close>

definition settle :: "lock_task \<Rightarrow> lock_manager \<Rightarrow> lock_manager" where
  "settle t m =
    (case t of
       Note_lock tid key start end_ts \<Rightarrow> addTransactionLock m tid key start end_ts
     | Store_root key root \<Rightarrow> (case set_root m key root of None \<Rightarrow> m | Some m1 \<Rightarrow> m1)
     | _ \<Rightarrow> m)"

fun notes_for :: "lock_task \<Rightarrow> u64 set" where
  "notes_for (Note_lock tid key start end_ts) = {tid}"
| "notes_for t = {}"

fun stores_for :: "lock_task \<Rightarrow> u64 set" where
  "stores_for (Store_root key root) = {key}"
| "stores_for t = {}"

lemma settle_nothing: "notes_for t = {} \<Longrightarrow> stores_for t = {} \<Longrightarrow> settle t m = m"
  by (cases t) (simp_all add: settle_def)

text \<open>A note is a change of one entry of the map of transactions, a root one of the map of keys.\<close>

definition put_note :: "u64 \<Rightarrow> u64 \<Rightarrow> u64 \<Rightarrow> transaction_info option \<Rightarrow> transaction_info" where
  "put_note key start end_ts ivs =
    (let tr_info = (case ivs of None \<Rightarrow> [] | Some tr_info \<Rightarrow> tr_info);
         p = (case map_of tr_info key of
                None \<Rightarrow> (start, end_ts)
              | Some (s, e) \<Rightarrow> (if start < s then start else s, if end_ts > e then end_ts else e))
     in smap_put key p tr_info)"

lemma addTransactionLock_put:
  "addTransactionLock m tid key start end_ts = m\<lparr>lm_trans := (lm_trans m)(tid \<mapsto> put_note key start end_ts (lm_trans m tid))\<rparr>"
  by (simp add: addTransactionLock_def createTransactionInfo_def put_note_def Let_def split: option.split)

definition put_root :: "u64 \<Rightarrow> addr \<Rightarrow> (u64 \<rightharpoonup> key_info) \<Rightarrow> (u64 \<rightharpoonup> key_info)" where
  "put_root key root keys = (case keys key of None \<Rightarrow> keys | Some ki \<Rightarrow> keys(key \<mapsto> ki\<lparr>ki_root := root\<rparr>))"

lemma settle_root: "settle (Store_root key root) m = m\<lparr>lm_keys := put_root key root (lm_keys m)\<rparr>"
  by (cases "lm_keys m key") (simp_all add: settle_def set_root_def put_root_def)

lemma settle_note:
  "settle (Note_lock tid key start end_ts) m = m\<lparr>lm_trans := (lm_trans m)(tid \<mapsto> put_note key start end_ts (lm_trans m tid))\<rparr>"
  by (simp add: settle_def addTransactionLock_put)

text \<open>Work for other transactions and keys commutes.\<close>

lemma settle_commute:
  assumes "notes_for t \<inter> notes_for u = {}" "stores_for t \<inter> stores_for u = {}"
  shows "settle t (settle u m) = settle u (settle t m)"
proof (cases t)
  case t: (Note_lock tid key start end_ts)
  show ?thesis
  proof (cases u)
    case (Note_lock tid' key' start' end_ts')
    with assms t show ?thesis by (simp add: settle_note fun_upd_twist)
  next
    case (Store_root key' root)
    with t show ?thesis by (simp add: settle_note settle_root)
  qed (simp_all add: settle_nothing)
next
  case t: (Store_root key root)
  show ?thesis
  proof (cases u)
    case (Store_root key' root')
    with assms t have "key \<noteq> key'" by simp
    then have "put_root key root (put_root key' root' keys) = put_root key' root' (put_root key root keys)" for keys
      by (simp add: put_root_def fun_upd_twist split: option.split)
    with t Store_root show ?thesis by (simp add: settle_root)
  next
    case (Note_lock tid key start end_ts)
    with t show ?thesis by (simp add: settle_note settle_root)
  qed (simp_all add: settle_nothing)
qed (simp_all add: settle_nothing)

definition settle_all :: "lock_task list \<Rightarrow> lock_manager \<Rightarrow> lock_manager" where
  "settle_all ts = fold settle ts"

lemma settle_all_simps [simp]:
  "settle_all [] m = m" "settle_all (t # ts) m = settle_all ts (settle t m)"
  "settle_all (ts @ us) m = settle_all us (settle_all ts m)"
  by (simp_all add: settle_all_def)

definition apart_from :: "lock_task \<Rightarrow> lock_task list \<Rightarrow> bool" where
  "apart_from t us \<longleftrightarrow> (\<forall>u\<in>set us. notes_for t \<inter> notes_for u = {} \<and> stores_for t \<inter> stores_for u = {})"

lemma apart_from_simps [simp]:
  "apart_from t [] = True"
  "apart_from t (u # us) \<longleftrightarrow> notes_for t \<inter> notes_for u = {} \<and> stores_for t \<inter> stores_for u = {} \<and> apart_from t us"
  "apart_from t (us @ vs) \<longleftrightarrow> apart_from t us \<and> apart_from t vs"
  by (auto simp: apart_from_def)

lemma settle_all_commute: "apart_from t us \<Longrightarrow> settle_all us (settle t m) = settle t (settle_all us m)"
  by (induction us arbitrary: m) (simp_all add: settle_commute [of t, symmetric])

lemma settle_all_commutes: "\<forall>t\<in>set ts. apart_from t us \<Longrightarrow> settle_all us (settle_all ts m) = settle_all ts (settle_all us m)"
  by (induction ts arbitrary: m) (simp_all add: settle_all_commute)

section \<open>Work that does not concern a key\<close>

text \<open>A change of the state that leaves alone what a request works on at its key.\<close>

definition away :: "u64 \<Rightarrow> (lock_manager \<Rightarrow> lock_manager) \<Rightarrow> bool" where
  "away key g \<longleftrightarrow>
    (\<forall>m. lm_heap (g m) = lm_heap m \<and> lm_next (g m) = lm_next m \<and> lm_keys (g m) key = lm_keys m key)
    \<and> (\<forall>m h. g (m\<lparr>lm_heap := h\<rparr>) = (g m)\<lparr>lm_heap := h\<rparr>)
    \<and> (\<forall>m n. g (m\<lparr>lm_next := n\<rparr>) = (g m)\<lparr>lm_next := n\<rparr>)
    \<and> (\<forall>m k. g (m\<lparr>lm_keys := (lm_keys m)(key := k)\<rparr>) = (g m)\<lparr>lm_keys := (lm_keys (g m))(key := k)\<rparr>)"

lemma away_settle:
  assumes "key \<notin> stores_for t"
  shows "away key (settle t)"
proof (cases t)
  case (Note_lock tid k start end_ts)
  then show ?thesis by (simp add: away_def settle_note)
next
  case (Store_root k root)
  with assms have "k \<noteq> key" by auto
  then have "put_root k root (keys(key := x)) = (put_root k root keys)(key := x)" "put_root k root keys key = keys key" for keys x
    by (auto simp: put_root_def fun_upd_twist split: option.split)
  with Store_root show ?thesis by (simp add: away_def settle_root)
qed (simp_all add: away_def settle_def)

lemma away_settle_all:
  assumes "\<forall>t\<in>set ts. key \<notin> stores_for t"
  shows "away key (settle_all ts)"
  using assms
proof (induction ts)
  case (Cons t ts)
  then have "away key (settle t)" "away key (settle_all ts)" by (simp_all add: away_settle)
  moreover have "settle_all (t # ts) = (\<lambda>m. settle_all ts (settle t m))" by (rule ext) simp
  ultimately show ?case by (simp add: away_def)
qed (simp add: away_def)

lemma lock_nodes_away:
  assumes "away key g"
  shows "lock_nodes (g m) key tid ts_start ts_end is_read =
    map_option (\<lambda>(m1, r). (g m1, r)) (lock_nodes m key tid ts_start ts_end is_read)"
  using assms
  by (cases "lm_keys m key")
    (auto simp: away_def lock_nodes_def Let_def map_option_bind o_def intro!: bind_option_cong split: option.split)

lemma addEvent_away: "away key g \<Longrightarrow> addEvent (g m) key ts_end event = g (addEvent m key ts_end event)"
  by (auto simp: away_def addEvent_def Let_def split: option.split)

lemma back_round_away:
  assumes "away key g"
  shows "back_round key tid is_read event (g m) locks cur_ts =
    map_option (map_sum (\<lambda>(m1, r). (g m1, r)) (\<lambda>(m1, r). (g m1, r))) (back_round key tid is_read event m locks cur_ts)"
proof -
  have h: "lm_heap (g m) = lm_heap m" and u: "(g m)\<lparr>lm_heap := h\<rparr> = g (m\<lparr>lm_heap := h\<rparr>)" for h
    using assms by (simp_all add: away_def)
  have e: "lm_heap (g m1) = lm_heap m1" for m1 using assms by (simp add: away_def)
  show ?thesis
    unfolding back_round_def h u Let_def
    by (auto simp: map_option_bind o_def e addEvent_away [OF assms] split: prod.split intro!: bind_option_cong)
qed
text \<open>The scan, in both directions.\<close>

lemma scan_away:
  assumes "backward_scan key tid is_read event m locks cur_ts = Some r" "away key g"
  shows "backward_scan key tid is_read event (g m) locks cur_ts = Some (g (fst r), snd r)"
proof -
  let ?P = "\<lambda>key tid is_read event m locks cur_ts r. away key g \<longrightarrow>
    backward_scan key tid is_read event (g m) locks cur_ts = Some (g (fst r), snd r)"
  have "?P key tid is_read event m locks cur_ts r"
  proof (rule backward_scan.raw_induct [where P = ?P, OF _ assms(1)], rule impI)
    fix scan key tid is_read event m locks cur_ts and r :: back_end
    assume IH: "\<And>key tid is_read event m locks cur_ts r. scan key tid is_read event m locks cur_ts = Some r \<Longrightarrow> ?P key tid is_read event m locks cur_ts r"
      and body: "do {
          s \<leftarrow> back_round key tid is_read event m locks cur_ts;
          (case s of Inl (m, locks, cur_ts) \<Rightarrow> scan key tid is_read event m locks cur_ts | Inr r \<Rightarrow> Some r)
        } = Some r"
      and g: "away key g"
    from body obtain s where s: "back_round key tid is_read event m locks cur_ts = Some s"
      by (auto simp: bind_eq_Some_conv)
    note unfold = backward_scan.simps [of key tid is_read event "g m" locks cur_ts] back_round_away [OF g] s
    show "backward_scan key tid is_read event (g m) locks cur_ts = Some (g (fst r), snd r)"
    proof (cases s)
      case (Inl x)
      obtain m1 l1 t1 where x: "x = (m1, l1, t1)" by (cases x)
      with body s Inl have "scan key tid is_read event m1 l1 t1 = Some r" by simp
      from IH [OF this] g show ?thesis unfolding unfold by (simp add: Inl x)
    next
      case (Inr r1)
      with body s show ?thesis unfolding unfold by (cases r1) auto
    qed
  qed
  with assms(2) show ?thesis by simp
qed

lemma scan_from_away:
  assumes "backward_scan key tid is_read event (g m) locks cur_ts = Some r" "away key g"
  shows "backward_scan key tid is_read event m locks cur_ts \<noteq> None"
proof -
  let ?P = "\<lambda>key tid is_read event n locks cur_ts r. \<forall>m. n = g m \<longrightarrow> away key g \<longrightarrow>
    backward_scan key tid is_read event m locks cur_ts \<noteq> None"
  have "?P key tid is_read event (g m) locks cur_ts r"
  proof (rule backward_scan.raw_induct [where P = ?P, OF _ assms(1)], intro allI impI)
    fix scan key tid is_read event n locks cur_ts m and r :: back_end
    assume IH: "\<And>key tid is_read event n locks cur_ts r. scan key tid is_read event n locks cur_ts = Some r \<Longrightarrow> ?P key tid is_read event n locks cur_ts r"
      and body: "do {
          s \<leftarrow> back_round key tid is_read event n locks cur_ts;
          (case s of Inl (m, locks, cur_ts) \<Rightarrow> scan key tid is_read event m locks cur_ts | Inr r \<Rightarrow> Some r)
        } = Some r"
      and n: "n = g m" and g: "away key g"
    from body [unfolded n] obtain s where s: "back_round key tid is_read event m locks cur_ts = Some s"
      by (auto simp: bind_eq_Some_conv back_round_away [OF g])
    note unfold = backward_scan.simps [of key tid is_read event m locks cur_ts] s
    show "backward_scan key tid is_read event m locks cur_ts \<noteq> None"
    proof (cases s)
      case (Inl x)
      obtain m1 l1 t1 where x: "x = (m1, l1, t1)" by (cases x)
      with body s Inl n have "scan key tid is_read event (g m1) l1 t1 = Some r" by (simp add: back_round_away [OF g])
      from IH [OF this] g show ?thesis unfolding unfold by (simp add: Inl x)
    next
      case (Inr r1)
      then show ?thesis unfolding unfold by simp
    qed
  qed
  with assms(2) show ?thesis by simp
qed

lemma backward_scan_away:
  assumes "away key g"
  shows "backward_scan key tid is_read event (g m) locks cur_ts =
    map_option (\<lambda>(m1, r). (g m1, r)) (backward_scan key tid is_read event m locks cur_ts)"
proof (cases "backward_scan key tid is_read event m locks cur_ts")
  case None
  then show ?thesis using scan_from_away [OF _ assms] by (cases "backward_scan key tid is_read event (g m) locks cur_ts") auto
next
  case (Some r)
  from scan_away [OF Some assms] Some show ?thesis by (cases r) simp
qed

lemma lock_nodes_back_away:
  assumes "away key g"
  shows "lock_nodes_back (g m) key tid ts_end is_read event =
    map_option (\<lambda>(m1, r). (g m1, r)) (lock_nodes_back m key tid ts_end is_read event)"
proof -
  have h: "lm_heap (g m) = lm_heap m" "lm_next (g m) = lm_next m" "lm_keys (g m) key = lm_keys m key"
    and u: "(g m)\<lparr>lm_heap := h, lm_next := n\<rparr> = g (m\<lparr>lm_heap := h, lm_next := n\<rparr>)" for h n
    using assms by (simp_all add: away_def)
  show ?thesis
    unfolding lock_nodes_back_def h u backward_scan_away [OF assms]
    by (auto simp: map_option_bind o_def bind_map_option case_prod_beta intro!: bind_option_cong)
qed

text \<open>Notes do not concern the making of a key.\<close>

lemma createKeyInfo_notes:
  "createKeyInfo (m\<lparr>lm_trans := tr\<rparr>) key = map_option (\<lambda>m1. m1\<lparr>lm_trans := tr\<rparr>) (createKeyInfo m key)"
  by (auto simp: createKeyInfo_def Let_def map_option_bind o_def intro!: bind_option_cong split: option.split)

lemma settle_all_notes:
  assumes "\<forall>t\<in>set ts. stores_for t = {}"
  shows "\<exists>f. \<forall>m. settle_all ts m = m\<lparr>lm_trans := f (lm_trans m)\<rparr>"
  using assms
proof (induction ts)
  case Nil
  show ?case by (rule exI [of _ id]) simp
next
  case (Cons t ts)
  then obtain f where "settle_all ts m = m\<lparr>lm_trans := f (lm_trans m)\<rparr>" for m by auto
  moreover have "\<exists>f. \<forall>m. settle t m = m\<lparr>lm_trans := f (lm_trans m)\<rparr>"
  proof (cases t)
    case (Note_lock tid key start end_ts)
    then show ?thesis
      by (intro exI [of _ "\<lambda>tr. tr(tid \<mapsto> put_note key start end_ts (tr tid))"]) (simp add: settle_note)
  qed (use Cons in \<open>auto intro!: exI [of _ id] simp: settle_nothing\<close>)
  then obtain f' where "settle t m = m\<lparr>lm_trans := f' (lm_trans m)\<rparr>" for m by auto
  ultimately show ?case by (intro exI [of _ "f \<circ> f'"]) simp
qed

lemma createKeyInfo_settled:
  assumes "\<forall>t\<in>set ts. stores_for t = {}"
  shows "createKeyInfo (settle_all ts m) key = map_option (settle_all ts) (createKeyInfo m key)"
proof -
  from settle_all_notes [OF assms] obtain f where f: "settle_all ts m = m\<lparr>lm_trans := f (lm_trans m)\<rparr>" for m by auto
  have "lm_trans m1 = lm_trans m" if "createKeyInfo m key = Some m1" for m1
    using createKeyInfo_frame [OF that] by simp
  then show ?thesis unfolding f createKeyInfo_notes by (cases "createKeyInfo m key") auto
qed

end
