(* ===== verification/Lock_Order.thy ===== *)
theory Lock_Order
  imports Lock_Settled
begin

text \<open>
  Requests in some order.  When threads take turns inside requests for locks, every request takes
  effect when it works on the nodes of its key: what its thread still has to do, to note the
  interval and to store the root of the tree, concerns nobody else.  So the state in which
  all of that is carried out is one that whole requests lead to, in the order in which they take
  effect, and none of them fails.
\<close>

section \<open>The tasks that a request has left\<close>

fun op_of :: "lock_task \<Rightarrow> sync_op list" where
  "op_of (Lock_nodes key tid ts_start ts_end is_read) = [Try_lock key tid ts_start ts_end is_read]"
| "op_of (Lock_nodes_back key tid ts_end is_read event ts_start) = [Try_backward key tid ts_end is_read event ts_start]"
| "op_of t = []"

fun out_of :: "lock_task \<Rightarrow> outcome list" where
  "out_of (Return out) = [out]"
| "out_of t = []"

definition ops_left :: "lock_task list \<Rightarrow> sync_op list" where
  "ops_left ts = concat (map op_of ts)"

definition outs_left :: "lock_task list \<Rightarrow> outcome list" where
  "outs_left ts = concat (map out_of ts)"

fun sync_tid :: "sync_op \<Rightarrow> u64" where
  "sync_tid (Try_lock key tid ts_start ts_end is_read) = tid"
| "sync_tid (Try_backward key tid ts_end is_read event ts_start) = tid"
| "sync_tid (Freeze_all tid) = tid"
| "sync_tid (Unlock_all tid) = tid"

definition task_tids :: "lock_task \<Rightarrow> u64 set" where
  "task_tids t = notes_for t \<union> sync_tid ` set (op_of t)"

text \<open>
  A request begins with the tasks that open a key; when one of them is to come, nothing of an
  earlier request is left.  A transaction is made right before an interval is noted for it.
\<close>

definition opens :: "lock_task \<Rightarrow> bool" where
  "opens t \<longleftrightarrow>
    (case t of
       Take g md \<Rightarrow> (case g of Key_map \<Rightarrow> True | Key_mutex key \<Rightarrow> True | _ \<Rightarrow> False)
     | Check_key key \<Rightarrow> True
     | Create_key key \<Rightarrow> True
     | Lock_nodes key tid ts_start ts_end is_read \<Rightarrow> True
     | Lock_nodes_back key tid ts_end is_read event ts_start \<Rightarrow> True
     | _ \<Rightarrow> False)"

definition bare :: "lock_task \<Rightarrow> bool" where
  "bare t \<longleftrightarrow> notes_for t = {} \<and> stores_for t = {} \<and> out_of t = []"

fun next_note :: "u64 \<Rightarrow> lock_task list \<Rightarrow> bool" where
  "next_note tid (Take g md # ts) = next_note tid ts"
| "next_note tid (Give g md # ts) = next_note tid ts"
| "next_note tid (Create_trans tid' # ts) = next_note tid ts"
| "next_note tid (Note_lock tid' key start end_ts # ts) \<longleftrightarrow> tid' = tid"
| "next_note tid ts = False"

fun tidy :: "lock_task list \<Rightarrow> bool" where
  "tidy [] = True"
| "tidy (t # ts) \<longleftrightarrow> (opens t \<longrightarrow> (\<forall>u\<in>set ts. bare u))
    \<and> (\<forall>tid. t = Check_trans tid \<or> t = Create_trans tid \<longrightarrow> next_note tid ts) \<and> tidy ts"

text \<open>Keys and transactions are there when they are needed.\<close>

fun ready :: "u64 set \<Rightarrow> u64 set \<Rightarrow> lock_task list \<Rightarrow> bool" where
  "ready K T [] = True"
| "ready K T (t # ts) =
    (case t of
       Check_key key \<Rightarrow> ready (insert key K) T ts
     | Create_key key \<Rightarrow> ready (insert key K) T ts
     | Lock_nodes key tid ts_start ts_end is_read \<Rightarrow> key \<in> K \<and> ready K T ts
     | Lock_nodes_back key tid ts_end is_read event ts_start \<Rightarrow> key \<in> K \<and> ready K T ts
     | Store_root key root \<Rightarrow> key \<in> K \<and> ready K T ts
     | Check_trans tid \<Rightarrow> ready K (insert tid T) ts
     | Create_trans tid \<Rightarrow> ready K (insert tid T) ts
     | Note_lock tid key start end_ts \<Rightarrow> tid \<in> T \<and> ready K T ts
     | _ \<Rightarrow> ready K T ts)"

lemma ready_mono: "ready K T ts \<Longrightarrow> K \<subseteq> K' \<Longrightarrow> T \<subseteq> T' \<Longrightarrow> ready K' T' ts"
proof (induction ts arbitrary: K T K' T')
  case (Cons t ts)
  have later: "ready (insert x K) T ts \<Longrightarrow> ready (insert x K') T' ts" "ready K (insert x T) ts \<Longrightarrow> ready K' (insert x T') ts"
    "ready K T ts \<Longrightarrow> ready K' T' ts" for x
    using Cons.IH [OF _ insert_mono [OF Cons.prems(2)] Cons.prems(3)] Cons.IH [OF _ Cons.prems(2) insert_mono [OF Cons.prems(3)]]
      Cons.IH [OF _ Cons.prems(2,3)] by blast+
  from Cons.prems show ?case by (cases t) (simp_all add: later subsetD)
qed simp

lemmas task_parts = op_of.simps out_of.simps task_tids_def opens_def bare_def of_side_def

lemma task_tidy:
  assumes "plain t" "lock_task_step m t = Some (m1, new)" "of_side True t" "tidy (t # ts)"
  shows "tidy (new @ ts)"
  using assms
  by (cases t) (auto simp: lock_task_step_def task_parts note_tasks_def leave_key_def bind_eq_Some_conv split: if_splits)

lemma task_tids_new:
  assumes "plain t" "lock_task_step m t = Some (m1, new)" "of_side True t"
  shows "\<forall>u\<in>set new. task_tids u \<subseteq> task_tids t"
  using assms
  by (cases t) (auto simp: lock_task_step_def task_parts note_tasks_def leave_key_def bind_eq_Some_conv split: if_splits)

lemma climbs_side: "climbs acq ts \<Longrightarrow> t \<in> set ts \<Longrightarrow> of_side acq t"
  by (induction ts) auto

text \<open>A thread that has a root to store holds the mutex of the key.\<close>

lemma store_held:
  assumes "balanced ts" "tidy ts" "climbs True ts" "Store_root key root \<in> set ts"
  shows "key_guards key \<subseteq> held_at ts"
  using assms
proof (induction ts)
  case (Cons t ts)
  show ?case
  proof (cases "t = Store_root key root")
    case True
    with Cons.prems show ?thesis by (simp add: needs_def final_task_def)
  next
    case False
    with Cons.prems have "Store_root key root \<in> set ts" by simp
    moreover from this have "\<not> opens t" using Cons.prems by (auto simp: bare_def)
    moreover have "of_side True t" using Cons.prems by simp
    ultimately show ?thesis using Cons
      by (cases t) (auto simp: opens_def of_side_def final_task_def guard_defs split: guard.splits)
  qed
qed simp

text \<open>What the tasks to come do not depend on.\<close>

lemma settle_created: "tid \<notin> notes_for t \<Longrightarrow> settle t (createTransactionInfo m tid) = createTransactionInfo (settle t m) tid"
proof (cases t)
  case (Note_lock tid' key start end_ts)
  assume "tid \<notin> notes_for t"
  with Note_lock have "tid \<noteq> tid'" by simp
  then show ?thesis by (auto simp: Note_lock settle_note createTransactionInfo_def fun_upd_twist split: option.split)
next
  case (Store_root key root)
  then show ?thesis by (auto simp: settle_root createTransactionInfo_def split: option.split)
qed (simp_all add: settle_nothing)

lemma settle_all_created:
  "\<forall>t\<in>set ts. tid \<notin> notes_for t \<Longrightarrow> settle_all ts (createTransactionInfo m tid) = createTransactionInfo (settle_all ts m) tid"
  by (induction ts arbitrary: m) (simp_all add: settle_created)

lemma note_created:
  "settle (Note_lock tid key start end_ts) (createTransactionInfo m tid) = settle (Note_lock tid key start end_ts) m"
  by (cases "lm_trans m tid") (simp_all add: settle_note createTransactionInfo_def put_note_def)

lemma next_note_there: "next_note tid ts \<Longrightarrow> \<exists>u\<in>set ts. tid \<in> notes_for u"
  by (induction tid ts rule: next_note.induct) auto

lemma next_note_created: "next_note tid ts \<Longrightarrow> settle_all ts (createTransactionInfo m tid) = settle_all ts m"
  by (induction tid ts rule: next_note.induct) (simp_all add: settle_nothing note_created)

section \<open>Requests as a whole\<close>

text \<open>A request that was carried out by a thread, or a key that was made.\<close>

datatype entry = Carried nat sync_op outcome | Made u64

fun replay :: "lock_manager \<Rightarrow> entry list \<Rightarrow> lock_manager option" where
  "replay m [] = Some m"
| "replay m (Carried i op out # es) = do {
     (m, out') \<leftarrow> op_result m op;
     (if out' = out then replay m es else None)
   }"
| "replay m (Made key # es) = do { m \<leftarrow> createKeyInfo m key; replay m es }"

lemma replay_append: "replay m (es @ fs) = replay m es \<bind> (\<lambda>m. replay m fs)"
  by (induction m es rule: replay.induct) (auto simp: bind_assoc intro!: bind_option_cong)

fun carried_by :: "nat \<Rightarrow> entry \<Rightarrow> (sync_op \<times> outcome) list" where
  "carried_by i (Carried j op out) = (if j = i then [(op, out)] else [])"
| "carried_by i (Made key) = []"

definition carried :: "nat \<Rightarrow> entry list \<Rightarrow> (sync_op \<times> outcome) list" where
  "carried i es = concat (map (carried_by i) es)"

lemma carried_append [simp]: "carried i (es @ fs) = carried i es @ carried i fs"
  by (simp add: carried_def)

lemma createKeyInfo_there: "lm_keys m key \<noteq> None \<Longrightarrow> createKeyInfo m key = Some m"
  by (auto simp: createKeyInfo_def)

lemma same_but_keys: "same_but key m m1 \<Longrightarrow> lm_keys m1 k = None \<longleftrightarrow> lm_keys m k = None"
  by (simp add: same_but_def)

lemma set_root_settled: "lm_keys m key \<noteq> None \<Longrightarrow> set_root m key root = Some (settle (Store_root key root) m)"
  by (auto simp: settle_def set_root_def)

lemma settle_notes: "settle_all (note_tasks tid key start end_ts) m = addTransactionLock m tid key start end_ts"
  by (simp add: note_tasks_def settle_def)

lemma settle_leave: "settle_all (leave_key key out) m = m"
  by (simp add: leave_key_def settle_nothing)

lemma outs_left_simps [simp]:
  "outs_left [] = []" "outs_left (t # ts) = out_of t @ outs_left ts" "outs_left (ts @ us) = outs_left ts @ outs_left us"
  by (simp_all add: outs_left_def)

lemma outs_left_parts: "outs_left (note_tasks tid key start end_ts) = []" "outs_left (leave_key key out) = [out]"
  by (simp_all add: note_tasks_def leave_key_def)

text \<open>A request takes effect when it works on the nodes: with all that is left it is the whole request.\<close>

lemma Lock_nodes_whole:
  assumes "lock_task_step m (Lock_nodes key tid ts_start ts_end is_read) = Some (m1, new)"
    and "away key g" "\<And>m. lm_keys (g m) key = lm_keys m key"
  shows "\<exists>out. op_result (g m) (Try_lock key tid ts_start ts_end is_read) = Some (settle_all new (g m1), out) \<and> outs_left new = [out]"
proof -
  from assms(1) obtain root granted where
    l: "lock_nodes m key tid ts_start ts_end is_read = Some (m1, root, granted)"
    and new: "new = (if granted then note_tasks tid key ts_start ts_end else []) @ Store_root key root # leave_key key (Granted granted)"
    by (auto simp: lock_task_step_def bind_eq_Some_conv)
  from l have "lm_keys m key \<noteq> None" by (cases "lm_keys m key") (simp_all add: lock_nodes_def)
  then have k: "lm_keys (g m) key \<noteq> None" "lm_keys (g m1) key \<noteq> None"
    using same_but_keys [OF lock_nodes_frame [OF l]] by (simp_all add: assms(3))
  have "lm_keys (addTransactionLock (g m1) tid key ts_start ts_end) key \<noteq> None"
    using k(2) by (simp add: addTransactionLock_put)
  with k l have "op_result (g m) (Try_lock key tid ts_start ts_end is_read) = Some (settle_all new (g m1), Granted granted)"
    by (simp add: tryLock_nodes createKeyInfo_there lock_nodes_away [OF assms(2)] set_root_settled new settle_notes settle_leave)
  then show ?thesis by (cases granted) (simp_all add: new outs_left_parts)
qed

lemma Lock_nodes_back_whole:
  assumes "lock_task_step m (Lock_nodes_back key tid ts_end is_read event ts_start) = Some (m1, new)"
    and "away key g" "\<And>m. lm_keys (g m) key = lm_keys m key"
  shows "\<exists>out. op_result (g m) (Try_backward key tid ts_end is_read event ts_start) = Some (settle_all new (g m1), out) \<and> outs_left new = [out]"
proof -
  from assms(1) obtain root cur_ts res failed call where
    l: "lock_nodes_back m key tid ts_end is_read event = Some (m1, root, cur_ts, res, failed, call)"
    and new: "new = (if failed then leave_key key (Granted_from False ts_start)
      else (if call then note_tasks tid key (cur_ts + 1) ts_end else [])
        @ Store_root key root # leave_key key (Granted_from res (cur_ts + 1)))"
    by (auto simp: lock_task_step_def bind_eq_Some_conv)
  from l have "lm_keys m key \<noteq> None" by (cases "lm_keys m key") (simp_all add: lock_nodes_back_def)
  then have k: "lm_keys (g m) key \<noteq> None" "lm_keys (g m1) key \<noteq> None"
    using same_but_keys [OF lock_nodes_back_frame [OF l]] by (simp_all add: assms(3))
  have k': "lm_keys (addTransactionLock (g m1) tid key (cur_ts + 1) ts_end) key \<noteq> None"
    using k(2) by (simp add: addTransactionLock_put)
  have "failed \<Longrightarrow> \<not> call" using l scan_failed by (fastforce simp: lock_nodes_back_def bind_eq_Some_conv)
  with k k' l have "op_result (g m) (Try_backward key tid ts_end is_read event ts_start) =
      Some (settle_all new (g m1), if failed then Granted_from False ts_start else Granted_from res (cur_ts + 1))"
    by (cases failed; cases call) (simp_all add: tryBackwardLock_nodes createKeyInfo_there lock_nodes_back_away [OF assms(2)] set_root_settled new settle_notes settle_leave)
  then show ?thesis by (cases failed; cases call) (simp_all add: new outs_left_parts)
qed

section \<open>Threads that take turns\<close>

text \<open>All the tasks that threads have left, and those of the threads but one.\<close>

definition todos :: "lock_thread list \<Rightarrow> lock_task list" where
  "todos ths = concat (map lt_todo ths)"

definition before :: "nat \<Rightarrow> lock_thread list \<Rightarrow> lock_task list" where
  "before i ths = todos (take i ths)"

definition behind :: "nat \<Rightarrow> lock_thread list \<Rightarrow> lock_task list" where
  "behind i ths = todos (drop (Suc i) ths)"

lemma todos_split: "i < length ths \<Longrightarrow> todos ths = before i ths @ lt_todo (ths ! i) @ behind i ths"
  by (subst id_take_nth_drop [of i ths], assumption) (simp add: todos_def before_def behind_def)

lemma todos_update: "i < length ths \<Longrightarrow> todos (ths[i := th]) = before i ths @ lt_todo th @ behind i ths"
  by (subst todos_split [of i]) (simp_all add: before_def behind_def)

lemma others_todo:
  assumes "u \<in> set (before i ths @ behind i ths)"
  shows "\<exists>j<length ths. j \<noteq> i \<and> u \<in> set (lt_todo (ths ! j))"
proof -
  from assms consider th where "th \<in> set (take i ths)" "u \<in> set (lt_todo th)"
    | th where "th \<in> set (drop (Suc i) ths)" "u \<in> set (lt_todo th)"
    by (auto simp: before_def behind_def todos_def)
  then show ?thesis
  proof cases
    case 1
    then obtain k where "k < length (take i ths)" "take i ths ! k = th" unfolding in_set_conv_nth by blast
    with 1(2) have "k < i" "k < length ths" "u \<in> set (lt_todo (ths ! k))" by auto
    then show ?thesis by (intro exI [of _ k]) simp
  next
    case 2
    then obtain k where "k < length (drop (Suc i) ths)" "drop (Suc i) ths ! k = th" unfolding in_set_conv_nth by blast
    with 2(2) have "k < length ths - Suc i" "u \<in> set (lt_todo (ths ! (Suc i + k)))" by auto
    then show ?thesis by (intro exI [of _ "Suc i + k"]) simp
  qed
qed

text \<open>
  The invariant: threads keep to their guards and transactions, and the state with everything settled is
  one that the requests that have taken effect lead to.
\<close>

definition tids_of :: "sync_op list \<Rightarrow> u64 set" where
  "tids_of ops = sync_tid ` set ops"

definition in_turn :: "sync_op list list \<Rightarrow> sync \<Rightarrow> bool" where
  "in_turn opss s \<longleftrightarrow> length (snd s) = length opss \<and> climbing True (snd s) \<and> guarded (snd s) \<and>
    (\<forall>i<length opss. tidy (lt_todo (snd s ! i)) \<and> (\<forall>t\<in>set (lt_todo (snd s ! i)). task_tids t \<subseteq> tids_of (opss ! i))
      \<and> ready (dom (lm_keys (fst s))) (dom (lm_trans (fst s))) (lt_todo (snd s ! i)))"

definition in_order :: "lock_manager \<Rightarrow> sync_op list list \<Rightarrow> sync \<Rightarrow> bool" where
  "in_order m0 opss s \<longleftrightarrow>
    (\<exists>es. replay m0 es = Some (settle_all (todos (snd s)) (fst s)) \<and>
      (\<forall>i op out. Carried i op out \<in> set es \<longrightarrow> i < length opss) \<and>
      (\<forall>i<length opss. map fst (carried i es) @ ops_left (lt_todo (snd s ! i)) = opss ! i
        \<and> map snd (carried i es) = lt_out (snd s ! i) @ outs_left (lt_todo (snd s ! i))))"

definition own_tids :: "sync_op list list \<Rightarrow> bool" where
  "own_tids opss \<longleftrightarrow> (\<forall>i<length opss. \<forall>j<length opss. i \<noteq> j \<longrightarrow> tids_of (opss ! i) \<inter> tids_of (opss ! j) = {})"

lemma in_turn_thread:
  assumes "in_turn opss s" "i < length (snd s)"
  shows "i < length opss" "climbs True (lt_todo (snd s ! i))" "keeps_guards (snd s ! i)" "tidy (lt_todo (snd s ! i))"
    "\<forall>t\<in>set (lt_todo (snd s ! i)). task_tids t \<subseteq> tids_of (opss ! i)"
    "ready (dom (lm_keys (fst s))) (dom (lm_trans (fst s))) (lt_todo (snd s ! i))"
  using assms by (simp_all add: in_turn_def climbing_def)

lemma others_tids:
  assumes "in_turn opss s" "own_tids opss" "i < length opss" "tid \<in> tids_of (opss ! i)"
    and u: "u \<in> set (before i (snd s) @ behind i (snd s))"
  shows "tid \<notin> notes_for u"
proof
  assume "tid \<in> notes_for u"
  from others_todo [OF u] obtain j where j: "j < length (snd s)" "j \<noteq> i" "u \<in> set (lt_todo (snd s ! j))" by blast
  with assms(1) have "task_tids u \<subseteq> tids_of (opss ! j)" by (simp add: in_turn_def)
  with \<open>tid \<in> notes_for u\<close> have "tid \<in> tids_of (opss ! j)" by (auto simp: task_tids_def)
  with assms j show False by (auto simp: own_tids_def in_turn_def)
qed

lemma others_stores:
  assumes "in_turn opss s" "i < length opss" "x \<in> lt_held (snd s ! i)" "x = (Key_mutex key, Exclusive) \<or> x = (Key_map, Exclusive)"
    and u: "u \<in> set (before i (snd s) @ behind i (snd s))"
  shows "key \<notin> stores_for u"
proof
  assume "key \<in> stores_for u"
  then obtain root where root: "u = Store_root key root" by (cases u) auto
  from others_todo [OF u] obtain j where j: "j < length (snd s)" "j \<noteq> i" "u \<in> set (lt_todo (snd s ! j))" by blast
  with assms(1) have "climbs True (lt_todo (snd s ! j))" "keeps_guards (snd s ! j)" "tidy (lt_todo (snd s ! j))"
    by (auto simp: in_turn_def climbing_def)
  with store_held j(3) root have "key_guards key \<subseteq> lt_held (snd s ! j)" by (simp add: keeps_guards_def)
  then have "(Key_mutex key, Exclusive) \<in> lt_held (snd s ! j)" "(Key_map, Shared) \<in> lt_held (snd s ! j)"
    by (simp_all add: guard_defs)
  moreover have "\<not> clashes x y" if "y \<in> lt_held (snd s ! j)" for y
    using assms(1-3) j that by (auto simp: in_turn_def guarded_def apart_def)
  ultimately have "\<not> clashes x (Key_mutex key, Exclusive)" "\<not> clashes x (Key_map, Shared)" by blast+
  with assms(4) show False by (auto simp: clashes_def)
qed

text \<open>A step keeps the tasks of threads as they are to be.\<close>

lemma step_maps:
  assumes "thread_step m ths th = Inr (m1, th')" "climbs True (lt_todo th)"
  shows "dom (lm_keys m) \<subseteq> dom (lm_keys m1)" "dom (lm_trans m) \<subseteq> dom (lm_trans m1)"
proof -
  have "lm_keys m k \<noteq> None \<longrightarrow> lm_keys m1 k \<noteq> None" "lm_trans m k \<noteq> None \<longrightarrow> lm_trans m1 k \<noteq> None" for k
    using assms(1)
  proof (atomize (full), cases rule: thread_step_cases)
    case (task t ts new)
    show "(lm_keys m k \<noteq> None \<longrightarrow> lm_keys m1 k \<noteq> None) \<and> (lm_trans m k \<noteq> None \<longrightarrow> lm_trans m1 k \<noteq> None)"
    proof (cases "(Keys, True) \<in> accesses t \<or> (Transactions, True) \<in> accesses t")
      case True
      with assms(2) task(1) have "(\<exists>key. t = Create_key key) \<or> (\<exists>tid. t = Create_trans tid)"
        by (cases t) (simp_all add: accesses_def of_side_def)
      with task(3) show ?thesis
        by (auto simp: lock_task_step_def createTransactionInfo_def createKeyInfo_def Let_def bind_eq_Some_conv split: option.splits)
    next
      case False
      with step_frame_maps [OF task(3)] show ?thesis by simp
    qed
  qed simp_all
  then show "dom (lm_keys m) \<subseteq> dom (lm_keys m1)" "dom (lm_trans m) \<subseteq> dom (lm_trans m1)" by (auto simp: dom_def)
qed

lemma createKeyInfo_makes: "createKeyInfo m key = Some m1 \<Longrightarrow> lm_keys m1 key \<noteq> None"
  by (auto simp: createKeyInfo_def Let_def bind_eq_Some_conv split: option.splits)

lemma task_ready_sets:
  assumes "plain t" "lock_task_step m t = Some (m1, new)" "of_side True t" "ready K T (t # ts)"
    and sub: "K \<subseteq> K1" "T \<subseteq> T1"
    and "\<And>key. t = Create_key key \<Longrightarrow> key \<in> K1" "\<And>tid. t = Create_trans tid \<Longrightarrow> tid \<in> T1"
    and "\<And>key. t = Check_key key \<Longrightarrow> lm_keys m key \<noteq> None \<Longrightarrow> key \<in> K1"
    and "\<And>tid. t = Check_trans tid \<Longrightarrow> lm_trans m tid \<noteq> None \<Longrightarrow> tid \<in> T1"
  shows "ready K1 T1 (new @ ts)"
proof -
  have later: "ready K1 T1 ts" if "ready K T ts" using ready_mono [OF that sub] .
  have "ready (insert key K1) T1 ts" if "ready (insert key K) T ts" for key
    by (rule ready_mono [OF that]) (use sub in auto)
  moreover have "ready K1 (insert tid T1) ts" if "ready K (insert tid T) ts" for tid
    by (rule ready_mono [OF that]) (use sub in auto)
  moreover have "ready K1 (insert tid T1) ts" if "ready K T ts" for tid
    by (rule ready_mono [OF that]) (use sub in auto)
  moreover have "ready K1 T1 ts" if "key \<in> K1" "ready (insert key K) T ts" for key
    by (rule ready_mono [OF that(2)]) (use sub that(1) in auto)
  moreover have "ready K1 T1 ts" if "tid \<in> T1" "ready K (insert tid T) ts" for tid
    by (rule ready_mono [OF that(2)]) (use sub that(1) in auto)
  ultimately show ?thesis
    using assms(1-4,7-) later subsetD [OF sub(1)] subsetD [OF sub(2)]
    by (cases t) (auto simp: lock_task_step_def of_side_def note_tasks_def leave_key_def bind_eq_Some_conv
        split: if_splits)
qed

lemma task_ready:
  assumes "plain t" "lock_task_step m t = Some (m1, new)" "of_side True t"
    and "ready (dom (lm_keys m)) (dom (lm_trans m)) (t # ts)"
    and "dom (lm_keys m) \<subseteq> dom (lm_keys m1)" "dom (lm_trans m) \<subseteq> dom (lm_trans m1)"
  shows "ready (dom (lm_keys m1)) (dom (lm_trans m1)) (new @ ts)"
proof (rule task_ready_sets [OF assms])
  show "key \<in> dom (lm_keys m1)" if "t = Create_key key" for key
    using assms(2) that createKeyInfo_makes by (fastforce simp: lock_task_step_def bind_eq_Some_conv)
  show "tid \<in> dom (lm_trans m1)" if "t = Create_trans tid" for tid
    using assms(2) that createTransactionInfo_some [of m tid] by (auto simp: lock_task_step_def)
qed (use assms(5,6) in auto)
lemma tail_parts:
  assumes "tidy (t # ts)" "ready K T (t # ts)" "\<not> plain t" "\<forall>u\<in>set (t # ts). task_tids u \<subseteq> A"
  shows "tidy ts" "ready K T ts" "\<forall>u\<in>set ts. task_tids u \<subseteq> A"
  using assms by (cases t; simp add: plain_def)+

lemma step_in_turn:
  assumes "in_turn opss s" "sync_step s i = Inr s'"
  shows "in_turn opss s'"
proof (cases "i < length (snd s)")
  case True
  with assms(2) obtain m1 th where step: "thread_step (fst s) (snd s) (snd s ! i) = Inr (m1, th)" and s': "s' = (m1, (snd s)[i := th])"
    by (rule sync_step_thread)
  let ?th = "snd s ! i"
  have old: "climbs True (lt_todo ?th)" "tidy (lt_todo ?th)" "\<forall>t\<in>set (lt_todo ?th). task_tids t \<subseteq> tids_of (opss ! i)"
    "ready (dom (lm_keys (fst s))) (dom (lm_trans (fst s))) (lt_todo ?th)"
    using in_turn_thread [OF assms(1) True] by simp_all
  note maps = step_maps [OF step old(1)]
  have new: "tidy (lt_todo th) \<and> (\<forall>t\<in>set (lt_todo th). task_tids t \<subseteq> tids_of (opss ! i))
    \<and> ready (dom (lm_keys m1)) (dom (lm_trans m1)) (lt_todo th)"
    using step
  proof (cases rule: thread_step_cases)
    case stop
    with old show ?thesis by simp
  next
    case (take g md ts)
    have "\<not> plain (Take g md)" by (simp add: plain_def)
    from tail_parts [OF old(2,4) [unfolded take(1)] this old(3) [unfolded take(1)]] take show ?thesis by simp
  next
    case (give g md ts)
    have "\<not> plain (Give g md)" by (simp add: plain_def)
    from tail_parts [OF old(2,4) [unfolded give(1)] this old(3) [unfolded give(1)]] give show ?thesis by simp
  next
    case (ret out ts)
    have "\<not> plain (Return out)" by (simp add: plain_def)
    from tail_parts [OF old(2,4) [unfolded ret(1)] this old(3) [unfolded ret(1)]] ret show ?thesis by simp
  next
    case (task t ts new)
    with old have t: "of_side True t" "tidy (t # ts)" "task_tids t \<subseteq> tids_of (opss ! i)"
        "ready (dom (lm_keys (fst s))) (dom (lm_trans (fst s))) (t # ts)" by simp_all
    from task_tids_new [OF task(2,3) t(1)] t(3) have "\<forall>u\<in>set new. task_tids u \<subseteq> tids_of (opss ! i)" by blast
    with task old task_tidy [OF task(2,3) t(1,2)] task_ready [OF task(2,3) t(1,4) maps] show ?thesis by auto
  qed
  have "tidy (lt_todo ((snd s)[i := th] ! j)) \<and> (\<forall>t\<in>set (lt_todo ((snd s)[i := th] ! j)). task_tids t \<subseteq> tids_of (opss ! j))
      \<and> ready (dom (lm_keys m1)) (dom (lm_trans m1)) (lt_todo ((snd s)[i := th] ! j))" if "j < length opss" for j
  proof (cases "j = i")
    case True
    with new assms(1) \<open>i < length (snd s)\<close> show ?thesis by simp
  next
    case False
    with assms(1) that ready_mono [OF _ maps] show ?thesis by (simp add: in_turn_def)
  qed
  moreover have "climbing True (snd s')" "guarded (snd s')"
    using assms sync_step_climbing sync_step_guarded by (auto simp: in_turn_def)
  ultimately show ?thesis using assms(1) by (simp add: in_turn_def s')
qed (use assms in \<open>simp add: sync_step_def\<close>)

text \<open>What a step does to the state with everything settled.\<close>

lemma thread_ops:
  assumes "in_order m0 opss s" "i < length opss" "i < length (snd s)" "s' = (m1, (snd s)[i := th])"
    and "replay (settle_all (todos (snd s)) (fst s)) es = Some (settle_all (todos (snd s')) m1)"
    and "\<And>j op out. Carried j op out \<in> set es \<Longrightarrow> j = i"
    and "map fst (carried i es) @ ops_left (lt_todo th) = ops_left (lt_todo (snd s ! i))"
    and "lt_out (snd s ! i) @ outs_left (lt_todo (snd s ! i)) @ map snd (carried i es) = lt_out th @ outs_left (lt_todo th)"
  shows "in_order m0 opss s'"
proof -
  from assms(1) obtain fs where f: "replay m0 fs = Some (settle_all (todos (snd s)) (fst s))"
    "\<forall>i op out. Carried i op out \<in> set fs \<longrightarrow> i < length opss"
    "\<And>j. j < length opss \<Longrightarrow> map fst (carried j fs) @ ops_left (lt_todo (snd s ! j)) = opss ! j
        \<and> map snd (carried j fs) = lt_out (snd s ! j) @ outs_left (lt_todo (snd s ! j))"
    by (auto simp: in_order_def)
  from f(1) assms(5) have "replay m0 (fs @ es) = Some (settle_all (todos (snd s')) m1)" by (simp add: replay_append)
  moreover have "map fst (carried j (fs @ es)) @ ops_left (lt_todo (snd s' ! j)) = opss ! j
        \<and> map snd (carried j (fs @ es)) = lt_out (snd s' ! j) @ outs_left (lt_todo (snd s' ! j))" if j: "j < length opss" for j
  proof (cases "j = i")
    case True
    with f(3) [OF j] assms(3,4,7,8) show ?thesis by simp
  next
    case False
    have "carried_by j e = []" if "e \<in> set es" for e using assms(6) False that by (cases e) auto
    then have "carried j es = []" by (simp add: carried_def)
    with f(3) [OF j] assms(4) False show ?thesis by simp
  qed
  moreover have "\<forall>i op out. Carried i op out \<in> set (fs @ es) \<longrightarrow> i < length opss" using f(2) assms(2,6) by auto
  ultimately show ?thesis unfolding in_order_def using assms(4) by (intro exI [of _ "fs @ es"]) simp
qed

lemma ops_left_simps [simp]:
  "ops_left [] = []" "ops_left (t # ts) = op_of t @ ops_left ts" "ops_left (ts @ us) = ops_left ts @ ops_left us"
  by (simp_all add: ops_left_def)

lemma carried_simps [simp]: "carried j [] = []" "carried j (e # es) = carried_by j e @ carried j es"
  by (simp_all add: carried_def)

text \<open>A step that carries out what was left, or nothing of it.\<close>

lemma silent_in_order:
  assumes "in_order m0 opss s" "i < length opss" "i < length (snd s)" "s' = (m1, (snd s)[i := th])"
    and "settle_all (before i (snd s) @ lt_todo th @ behind i (snd s)) m1 =
      settle_all (before i (snd s) @ lt_todo (snd s ! i) @ behind i (snd s)) (fst s)"
    and "ops_left (lt_todo th) = ops_left (lt_todo (snd s ! i))"
    and "lt_out (snd s ! i) @ outs_left (lt_todo (snd s ! i)) = lt_out th @ outs_left (lt_todo th)"
  shows "in_order m0 opss s'"
proof (rule thread_ops [OF assms(1-4), of "[]"])
  show "replay (settle_all (todos (snd s)) (fst s)) [] = Some (settle_all (todos (snd s')) m1)"
    using assms(5) todos_split [OF assms(3)] todos_update [OF assms(3)] assms(4) by simp
qed (use assms(6,7) in simp_all)

lemma settle_first:
  assumes "apart_from t pre"
  shows "settle_all (pre @ (t # ts) @ post) m = settle_all (pre @ ts @ post) (settle t m)"
  using settle_all_commute [OF assms, of m] by simp

lemma settle_firsts:
  assumes "\<forall>t\<in>set new. apart_from t pre"
  shows "settle_all (pre @ (new @ ts) @ post) m = settle_all (pre @ ts @ post) (settle_all new m)"
  using settle_all_commutes [OF assms, of m] by simp

lemma carried_in_order:
  assumes "in_turn opss s" "own_tids opss" "in_order m0 opss s" "i < length (snd s)" "s' = (m1, (snd s)[i := th])"
    and t: "lt_todo (snd s ! i) = t # ts" "op_of t = [op]" "lock_task_step (fst s) t = Some (m1, new)" "plain t"
    and th: "lt_todo th = new @ ts" "lt_out th = lt_out (snd s ! i)"
    and key: "(Key_mutex key, Exclusive) \<in> lt_held (snd s ! i)" "\<forall>u\<in>set new. stores_for u \<subseteq> {key}"
    and none: "ops_left new = []" "\<forall>u\<in>set ts. bare u"
    and whole: "\<And>g. away key g \<Longrightarrow> \<exists>out. op_result (g (fst s)) op = Some (settle_all new (g m1), out) \<and> outs_left new = [out]"
  shows "in_order m0 opss s'"
proof -
  let ?pre = "before i (snd s)" and ?post = "behind i (snd s)"
  let ?P = "?pre @ ts @ ?post"
  have i: "i < length opss" using assms(1,4) by (simp add: in_turn_def)
  have other: "key \<notin> stores_for u" if "u \<in> set (?pre @ ?post)" for u
    using others_stores [OF assms(1) i key(1) _ that] by simp
  have bare: "stores_for u = {}" "notes_for u = {}" "out_of u = []" if "u \<in> set ts" for u using none(2) that by (simp_all add: bare_def)
  have "\<forall>u\<in>set ?P. key \<notin> stores_for u" using other bare(1) by auto
  then have g: "away key (settle_all ?P)" by (rule away_settle_all)
  have tids: "task_tids t \<subseteq> tids_of (opss ! i)" "of_side True t"
    using in_turn_thread(2,5) [OF assms(1,4)] t(1) by simp_all
  have "apart_from v ?P" if "v \<in> set new" for v
  proof -
    have "notes_for v \<subseteq> tids_of (opss ! i)"
      using task_tids_new [OF t(4,3) tids(2)] that tids(1) unfolding task_tids_def by blast
    then have "notes_for v \<inter> notes_for u = {}" if "u \<in> set (?pre @ ?post)" for u
      using others_tids [OF assms(1,2) i _ that] by blast
    moreover have "stores_for v \<inter> stores_for u = {}" if "u \<in> set (?pre @ ?post)" for u
      using key(2) \<open>v \<in> set new\<close> other [OF that] by blast
    ultimately show ?thesis using bare by (auto simp: apart_from_def)
  qed
  then have ap: "\<forall>v\<in>set new. apart_from v ?P" "\<forall>v\<in>set new. apart_from v ?pre" by simp_all
  from whole [OF g] obtain out where
    op: "op_result (settle_all ?P (fst s)) op = Some (settle_all new (settle_all ?P m1), out)" "outs_left new = [out]" by blast
  have "settle t (fst s) = fst s" using t(2) by (cases t) (simp_all add: settle_def)
  then have now: "settle_all (todos (snd s)) (fst s) = settle_all ?P (fst s)"
    using settle_first [of t ?pre ts ?post "fst s"] t(2) todos_split [OF assms(4)] t(1) by (cases t) (simp_all add: apart_from_def)
  have later: "settle_all (todos (snd s')) m1 = settle_all new (settle_all ?P m1)"
    using settle_firsts [OF ap(2), of ts ?post m1] settle_all_commutes [OF ap(1), of m1] todos_update [OF assms(4)] th(1) assms(5) by simp
  have outs: "outs_left ts = []" using bare(3) by (simp add: outs_left_def)
  have t0: "out_of t = []" using t(2) by (cases t) simp_all
  show ?thesis
  proof (rule thread_ops [OF assms(3) i assms(4,5), of "[Carried i op out]"])
    show "replay (settle_all (todos (snd s)) (fst s)) [Carried i op out] = Some (settle_all (todos (snd s')) m1)"
      unfolding now later using op(1) by simp
  qed (use th t op(2) none(1) outs t0 in simp_all)
qed

lemma step_in_order:
  assumes "in_turn opss s" "own_tids opss" "in_order m0 opss s" "sync_step s i = Inr s'"
  shows "in_order m0 opss s'"
proof (cases "i < length (snd s)")
  case True
  with assms(4) obtain m1 th where step: "thread_step (fst s) (snd s) (snd s ! i) = Inr (m1, th)" and s': "s' = (m1, (snd s)[i := th])"
    by (rule sync_step_thread)
  note thread = in_turn_thread [OF assms(1) True]
  note silent = silent_in_order [OF assms(3) thread(1) True s']
  let ?pre = "before i (snd s)" and ?post = "behind i (snd s)"
  from step show ?thesis
  proof (cases rule: thread_step_cases)
    case stop
    then show ?thesis by (intro silent) simp_all
  next
    case (take g md ts)
    then show ?thesis by (intro silent) (simp_all add: settle_nothing)
  next
    case (give g md ts)
    then show ?thesis by (intro silent) (simp_all add: settle_nothing)
  next
    case (ret out ts)
    then show ?thesis by (intro silent) (simp_all add: settle_nothing)
  next
    case (task t ts new)
    have side: "of_side True t" and tidy: "tidy (t # ts)" and tids: "task_tids t \<subseteq> tids_of (opss ! i)"
      using thread task(1) by simp_all
    have needs: "needs t \<subseteq> lt_held (snd s ! i)" using held_needs [OF thread(3) task(1)] .
    have todo: "lt_todo th = new @ ts" "lt_out th = lt_out (snd s ! i)" using task(4) by simp_all
    have same: ?thesis if "m1 = fst s" "\<forall>u\<in>set (t # new). bare u \<and> op_of u = []"
    proof (rule silent)
      have "settle_all new m = m" if "\<forall>u\<in>set new. bare u" for m
        using that by (induction new) (simp_all add: settle_nothing bare_def)
      with that show "settle_all (?pre @ lt_todo th @ ?post) m1 = settle_all (?pre @ lt_todo (snd s ! i) @ ?post) (fst s)"
        using task(1) todo by (simp add: settle_nothing bare_def)
      show "ops_left (lt_todo th) = ops_left (lt_todo (snd s ! i))"
        using that(2) task(1) todo by (simp add: ops_left_def)
      show "lt_out (snd s ! i) @ outs_left (lt_todo (snd s ! i)) = lt_out th @ outs_left (lt_todo th)"
        using that(2) task(1) todo by (simp add: outs_left_def bare_def)
    qed
    show ?thesis
    proof (cases t)
      case (Check_key key)
      with task(3) show ?thesis by (intro same) (auto simp: lock_task_step_def bare_def)
    next
      case (Check_trans tid)
      with task(3) show ?thesis by (intro same) (auto simp: lock_task_step_def bare_def)
    next
      case (Create_trans tid)
      then have m1: "m1 = createTransactionInfo (fst s) tid" and new: "new = []" using task(3) by (simp_all add: lock_task_step_def)
      from tidy Create_trans have nxt: "next_note tid ts" by simp
      then obtain u where "u \<in> set ts" "tid \<in> notes_for u" using next_note_there by blast
      with thread(5) task(1) have "tid \<in> tids_of (opss ! i)" by (auto simp: task_tids_def)
      then have "\<forall>u\<in>set ?pre. tid \<notin> notes_for u" using others_tids [OF assms(1,2) thread(1)] by simp
      then have "settle_all (?pre @ ts @ ?post) m1 = settle_all (?pre @ ts @ ?post) (fst s)"
        by (simp add: m1 settle_all_created next_note_created [OF nxt])
      with Create_trans show ?thesis using task(1) todo new by (intro silent) (simp_all add: settle_nothing)
    next
      case (Note_lock tid key start end_ts)
      then have m1: "m1 = settle t (fst s)" "new = []" using task(3) by (simp_all add: lock_task_step_def settle_def split: if_splits)
      have "tid \<in> tids_of (opss ! i)" using tids Note_lock by (simp add: task_tids_def)
      then have "apart_from t ?pre"
        using others_tids [OF assms(1,2) thread(1)] Note_lock by (simp add: apart_from_def)
      from settle_first [OF this, of ts ?post "fst s"] show ?thesis
        using task(1) todo m1 Note_lock by (intro silent) simp_all
    next
      case (Store_root key root)
      then have m1: "m1 = settle t (fst s)" "new = []" using task(3) by (auto simp: lock_task_step_def settle_def bind_eq_Some_conv)
      have "(Key_mutex key, Exclusive) \<in> lt_held (snd s ! i)" using needs Store_root by (simp add: needs_def guard_defs)
      then have "apart_from t ?pre"
        using others_stores [OF assms(1) thread(1), where key = key] Store_root by (simp add: apart_from_def)
      from settle_first [OF this, of ts ?post "fst s"] show ?thesis
        using task(1) todo m1 Store_root by (intro silent) simp_all
    next
      case (Create_key key)
      then have c: "createKeyInfo (fst s) key = Some m1" "new = []" using task(3) by (auto simp: lock_task_step_def bind_eq_Some_conv)
      have "(Key_map, Exclusive) \<in> lt_held (snd s ! i)" using needs Create_key by (simp add: needs_def)
      then have "k \<notin> stores_for u" if "u \<in> set (?pre @ ?post)" for u k
        using others_stores [OF assms(1) thread(1) _ _ that, where key = k] by simp
      moreover have "stores_for u = {}" if "u \<in> set ts" for u using tidy Create_key that by (simp add: opens_def bare_def)
      ultimately have "\<forall>u\<in>set (?pre @ ts @ ?post). stores_for u = {}" by auto
      from createKeyInfo_settled [OF this, of "fst s" key] c(1)
      have "createKeyInfo (settle_all (todos (snd s)) (fst s)) key = Some (settle_all (todos (snd s')) m1)"
        using todos_split [OF True] todos_update [OF True, of th] s' todo c(2) task(1) Create_key by (simp add: settle_nothing)
      then show ?thesis using todo c(2) task(1) Create_key
        by (intro thread_ops [OF assms(3) thread(1) True s', of "[Made key]"]) simp_all
    next
      case (Lock_nodes key tid ts_start ts_end is_read)
      have "(Key_mutex key, Exclusive) \<in> lt_held (snd s ! i)" using needs Lock_nodes by (simp add: needs_def guard_defs)
      moreover have "\<forall>u\<in>set new. stores_for u \<subseteq> {key}" "ops_left new = []"
        using task(3) Lock_nodes
        by (auto simp: lock_task_step_def bind_eq_Some_conv note_tasks_def leave_key_def split: if_splits)
      moreover have "\<forall>u\<in>set ts. bare u" using tidy Lock_nodes by (simp add: opens_def)
      moreover have "\<exists>out. op_result (g (fst s)) (Try_lock key tid ts_start ts_end is_read) = Some (settle_all new (g m1), out)
          \<and> outs_left new = [out]" if "away key g" for g
        by (rule Lock_nodes_whole [OF _ that]) (use task(3) Lock_nodes that in \<open>simp_all add: away_def\<close>)
      ultimately show ?thesis
        using carried_in_order [OF assms(1-3) True s' task(1) _ task(3,2) todo, of "Try_lock key tid ts_start ts_end is_read" key] Lock_nodes
        by simp
    next
      case (Lock_nodes_back key tid ts_end is_read event ts_start)
      have "(Key_mutex key, Exclusive) \<in> lt_held (snd s ! i)" using needs Lock_nodes_back by (simp add: needs_def guard_defs)
      moreover have "\<forall>u\<in>set new. stores_for u \<subseteq> {key}" "ops_left new = []"
        using task(3) Lock_nodes_back
        by (auto simp: lock_task_step_def bind_eq_Some_conv note_tasks_def leave_key_def split: if_splits)
      moreover have "\<forall>u\<in>set ts. bare u" using tidy Lock_nodes_back by (simp add: opens_def)
      moreover have "\<exists>out. op_result (g (fst s)) (Try_backward key tid ts_end is_read event ts_start) = Some (settle_all new (g m1), out)
          \<and> outs_left new = [out]" if "away key g" for g
        by (rule Lock_nodes_back_whole [OF _ that]) (use task(3) Lock_nodes_back that in \<open>simp_all add: away_def\<close>)
      ultimately show ?thesis
        using carried_in_order [OF assms(1-3) True s' task(1) _ task(3,2) todo, of "Try_backward key tid ts_end is_read event ts_start" key]
          Lock_nodes_back
        by simp
    qed (use side task(2) in \<open>simp_all add: of_side_def plain_def\<close>)
  qed
qed (use assms in \<open>simp add: sync_step_def\<close>)

text \<open>Threads that have not begun.\<close>

lemma op_left_requests: "requests op \<Longrightarrow> ops_left (op_tasks op) = [op] \<and> (\<forall>t\<in>set (op_tasks op). bare t)"
  by (cases op) (simp_all add: bare_def)

lemma bare_settled: "\<forall>t\<in>set ts. bare t \<Longrightarrow> settle_all ts m = m"
  by (induction ts) (simp_all add: settle_nothing bare_def)

lemma bare_outs: "\<forall>t\<in>set ts. bare t \<Longrightarrow> outs_left ts = []"
  by (induction ts) (simp_all add: bare_def)

lemma op_tidy: "requests op \<Longrightarrow> tidy ts \<Longrightarrow> \<forall>t\<in>set ts. bare t \<Longrightarrow> tidy (op_tasks op @ ts)"
  by (cases op) (simp_all add: bare_def)

lemma op_ready: "requests op \<Longrightarrow> ready K T ts \<Longrightarrow> ready K T (op_tasks op @ ts)"
  using ready_mono [of K T ts "insert key K" T for key] by (cases op) auto

lemma new_requests:
  assumes "\<forall>op\<in>set ops. requests op"
  shows "tidy (concat (map op_tasks ops)) \<and> ready K T (concat (map op_tasks ops)) \<and> ops_left (concat (map op_tasks ops)) = ops
    \<and> (\<forall>t\<in>set (concat (map op_tasks ops)). bare t \<and> task_tids t \<subseteq> tids_of ops)"
  using assms
proof (induction ops)
  case (Cons op ops)
  have "task_tids t \<subseteq> {sync_tid op}" if "t \<in> set (op_tasks op)" for t
    using that by (cases op) (auto simp: task_tids_def)
  with Cons op_left_requests [of op] op_tidy [of op] op_ready [of op K T] show ?case by (fastforce simp: tids_of_def)
qed simp

lemma new_in_order:
  assumes "\<forall>ops\<in>set opss. \<forall>op\<in>set ops. requests op"
  shows "in_turn opss (m, map new_thread opss)" "in_order m opss (m, map new_thread opss)"
proof -
  have ops: "\<forall>op\<in>set (opss ! i). requests op" if "i < length opss" for i using assms nth_mem [OF that] by blast
  have new: "lt_todo (new_thread ops) = concat (map op_tasks ops)" "lt_out (new_thread ops) = []" for ops
    by (simp_all add: new_thread_def)
  show "in_turn opss (m, map new_thread opss)"
    unfolding in_turn_def using new_climbing [of opss True] new_guarded assms new_requests [OF ops] new by simp
  have "\<forall>t\<in>set (todos (map new_thread opss)). bare t"
    using new_requests assms by (fastforce simp: todos_def new)
  then have "replay m [] = Some (settle_all (todos (map new_thread opss)) m)" by (simp add: bare_settled)
  moreover have "ops_left (lt_todo (new_thread (opss ! i))) = opss ! i" "outs_left (lt_todo (new_thread (opss ! i))) = []"
    if "i < length opss" for i
    using new_requests [OF ops [OF that]] bare_outs by (simp_all add: new)
  ultimately show "in_order m opss (m, map new_thread opss)"
    unfolding in_order_def using new by (intro exI [of _ "[]"]) simp
qed

section \<open>Requests do not fail\<close>

text \<open>Requests for a point in time, and for what is before a time that is not the last.\<close>

fun point_or_backward :: "sync_op \<Rightarrow> bool" where
  "point_or_backward (Try_lock key tid ts_start ts_end is_read) \<longleftrightarrow> ts_start = ts_end"
| "point_or_backward (Try_backward key tid ts_end is_read event ts_start) \<longleftrightarrow> ts_end \<noteq> - 1"
| "point_or_backward op = False"

lemma point_or_backward_requests: "point_or_backward op \<Longrightarrow> requests op"
  by (cases op) simp_all

lemma request_inv:
  assumes "lm_inv m" "point_or_backward op"
  shows "\<exists>m1 out. op_result m op = Some (m1, out) \<and> lm_inv m1"
proof (cases op)
  case (Try_lock key tid ts_start ts_end is_read)
  with avl.point_law [OF assms(1), of key tid ts_start is_read] assms(2) show ?thesis by auto
next
  case (Try_backward key tid ts_end is_read event ts_start)
  with avl.backward_law [OF assms(1), of ts_end key tid is_read event ts_start] assms(2) show ?thesis by auto
qed (use assms(2) in simp_all)

lemma createKeyInfo_inv:
  assumes "lm_inv m"
  shows "\<exists>m1. createKeyInfo m key = Some m1 \<and> lm_inv m1"
proof -
  from lm_inv_shape [OF assms] obtain F where "lm_shape m F" by blast
  from createKeyInfo_ok [OF this, of key] obtain m1 F1 where
    c: "createKeyInfo m key = Some m1" "lm_shape m1 F1" "lock_at m1 = lock_at m" "lm_trans m1 = lm_trans m" by blast
  then have "lm_inv m1"
    using lm_inv_trans [OF assms] lm_inv_wf [OF assms] lm_inv_noted [OF assms] by (intro lm_invI [OF c(2)]) simp_all
  with c(1) show ?thesis by blast
qed

lemma replay_inv:
  assumes "lm_inv m" "replay m es = Some m1" "\<forall>i op out. Carried i op out \<in> set es \<longrightarrow> point_or_backward op"
  shows "lm_inv m1"
  using assms
proof (induction m es rule: replay.induct)
  case (2 m i op out es)
  from request_inv [OF "2.prems"(1), of op] "2.prems"(3) obtain m2 out2 where r: "op_result m op = Some (m2, out2)" "lm_inv m2" by auto
  with "2.prems"(2) have "out2 = out" "replay m2 es = Some m1" by (auto split: if_splits)
  moreover have "\<forall>i op out. Carried i op out \<in> set es \<longrightarrow> point_or_backward op" using "2.prems"(3) by simp
  ultimately show ?case using "2.IH" [of "(m2, out)" m2 out] r by simp
next
  case (3 m key es)
  from createKeyInfo_inv [OF "3.prems"(1), of key] obtain m2 where "createKeyInfo m key = Some m2" "lm_inv m2" by blast
  with 3 show ?case by simp
qed simp

lemma in_carried: "Carried i op out \<in> set es \<Longrightarrow> (op, out) \<in> set (carried i es)"
  by (force simp: carried_def)

lemma in_order_replay:
  assumes "in_order m0 opss s" "\<forall>ops\<in>set opss. \<forall>op\<in>set ops. point_or_backward op" "lm_inv m0"
  shows "lm_inv (settle_all (todos (snd s)) (fst s))"
    "i < length opss \<Longrightarrow> \<forall>op\<in>set (ops_left (lt_todo (snd s ! i))). point_or_backward op"
proof -
  from assms(1) obtain es where es: "replay m0 es = Some (settle_all (todos (snd s)) (fst s))"
    "\<forall>i op out. Carried i op out \<in> set es \<longrightarrow> i < length opss"
    "\<forall>i<length opss. map fst (carried i es) @ ops_left (lt_todo (snd s ! i)) = opss ! i"
    by (auto simp: in_order_def)
  have sub: "set (map fst (carried i es)) \<union> set (ops_left (lt_todo (snd s ! i))) = set (opss ! i)" if "i < length opss" for i
    using es(3) that by (metis set_append)
  have "point_or_backward op" if "Carried i op out \<in> set es" for i op out
  proof -
    from that es(2) have i: "i < length opss" by blast
    from in_carried [OF that] have "op \<in> set (map fst (carried i es))" by force
    with sub [OF i] have "op \<in> set (opss ! i)" by blast
    with assms(2) nth_mem [OF i] show ?thesis by blast
  qed
  then show "lm_inv (settle_all (todos (snd s)) (fst s))" using replay_inv [OF assms(3) es(1)] by blast
  show "\<forall>op\<in>set (ops_left (lt_todo (snd s ! i))). point_or_backward op" if "i < length opss"
    using sub [OF that] assms(2) nth_mem [OF that] by blast
qed

lemma step_not_failing:
  assumes "in_turn opss s" "in_order m0 opss s" "\<forall>ops\<in>set opss. \<forall>op\<in>set ops. point_or_backward op" "lm_inv m0"
  shows "sync_step s i \<noteq> Inl LockFailure"
proof
  assume fails: "sync_step s i = Inl LockFailure"
  then have True: "i < length (snd s)" by (auto simp: sync_step_def split: if_splits)
  with fails have step: "thread_step (fst s) (snd s) (snd s ! i) = Inl LockFailure"
    by (cases "thread_step (fst s) (snd s) (snd s ! i)") (auto simp: sync_step_def)
  note thread = in_turn_thread [OF assms(1) True]
  from step obtain t ts where todo: "lt_todo (snd s ! i) = t # ts"
    by (cases "lt_todo (snd s ! i)") (auto simp: thread_step_def)
  have plain: "plain t"
    using step todo by (cases t) (auto simp: thread_step_def plain_def split: if_splits)
  with step thread_step_task [OF plain todo] have none: "lock_task_step (fst s) t = None" by (auto split: option.splits)
  have side: "of_side True t" and tidy: "tidy (t # ts)" and ready: "ready (dom (lm_keys (fst s))) (dom (lm_trans (fst s))) (t # ts)"
    using thread todo by simp_all
  have needs: "needs t \<subseteq> lt_held (snd s ! i)" using held_needs [OF thread(3) todo] .
  let ?all = "todos (snd s)" and ?pre = "before i (snd s)" and ?post = "behind i (snd s)"
  have all: "set ?all = set (?pre @ ?post) \<union> {t} \<union> set ts" using todos_split [OF True] todo by auto
  note inv = in_order_replay [OF assms(2-4)]
  have away: "away key (settle_all ?all)"
    if "(Key_mutex key, Exclusive) \<in> needs t" "\<forall>u\<in>set (t # ts). stores_for u = {}" for key
  proof (rule away_settle_all)
    have "key \<notin> stores_for u" if "u \<in> set (?pre @ ?post)" for u
      using others_stores [OF assms(1) thread(1) _ _ that, where key = key] needs \<open>(Key_mutex key, Exclusive) \<in> needs t\<close> by blast
    with that(2) show "\<forall>u\<in>set ?all. key \<notin> stores_for u" unfolding all by auto
  qed
  have key: "lm_keys (settle_all ?all (fst s)) key = lm_keys (fst s) key" if "away key (settle_all ?all)" for key
    using that by (simp add: away_def)
  show False
  proof (cases t)
    case (Create_key key)
    have "(Key_map, Exclusive) \<in> lt_held (snd s ! i)" using needs Create_key by (simp add: needs_def)
    then have "k \<notin> stores_for u" if "u \<in> set (?pre @ ?post)" for u k
      using others_stores [OF assms(1) thread(1) _ _ that, where key = k] by simp
    moreover have "stores_for u = {}" if "u \<in> set ts" for u using tidy Create_key that by (simp add: opens_def bare_def)
    ultimately have "\<forall>u\<in>set ?all. stores_for u = {}" unfolding all Create_key by auto
    from createKeyInfo_settled [OF this, of "fst s" key] createKeyInfo_inv [OF inv(1), of key] none Create_key
    show False by (auto simp: lock_task_step_def)
  next
    case (Lock_nodes key tid ts_start ts_end is_read)
    have a: "away key (settle_all ?all)"
      by (rule away) (use Lock_nodes tidy in \<open>simp_all add: needs_def guard_defs opens_def bare_def\<close>)
    have "lm_keys (settle_all ?all (fst s)) key \<noteq> None" using ready Lock_nodes key [OF a] by auto
    then have "createKeyInfo (settle_all ?all (fst s)) key = Some (settle_all ?all (fst s))" by (rule createKeyInfo_there)
    moreover have "point_or_backward (Try_lock key tid ts_start ts_end is_read)"
      using inv(2) [OF thread(1)] todo Lock_nodes by simp
    from request_inv [OF inv(1) this] have "tryLock (settle_all ?all (fst s)) key tid ts_start ts_end is_read \<noteq> None" by auto
    moreover have "lock_nodes (fst s) key tid ts_start ts_end is_read = None" using none Lock_nodes
      by (cases "lock_nodes (fst s) key tid ts_start ts_end is_read") (auto simp: lock_task_step_def)
    ultimately show False by (simp add: tryLock_nodes lock_nodes_away [OF a])
  next
    case (Lock_nodes_back key tid ts_end is_read event ts_start)
    have a: "away key (settle_all ?all)"
      by (rule away) (use Lock_nodes_back tidy in \<open>simp_all add: needs_def guard_defs opens_def bare_def\<close>)
    have "lm_keys (settle_all ?all (fst s)) key \<noteq> None" using ready Lock_nodes_back key [OF a] by auto
    then have "createKeyInfo (settle_all ?all (fst s)) key = Some (settle_all ?all (fst s))" by (rule createKeyInfo_there)
    moreover have "point_or_backward (Try_backward key tid ts_end is_read event ts_start)"
      using inv(2) [OF thread(1)] todo Lock_nodes_back by simp
    from request_inv [OF inv(1) this] have "tryBackwardLock (settle_all ?all (fst s)) key tid ts_end is_read event ts_start \<noteq> None" by auto
    moreover have "lock_nodes_back (fst s) key tid ts_end is_read event = None" using none Lock_nodes_back
      by (cases "lock_nodes_back (fst s) key tid ts_end is_read event") (auto simp: lock_task_step_def)
    ultimately show False by (simp add: tryBackwardLock_nodes lock_nodes_back_away [OF a])
  next
    case (Store_root key root)
    with none ready show False by (auto simp: lock_task_step_def set_root_def)
  next
    case (Note_lock tid key start end_ts)
    with none ready show False by (auto simp: lock_task_step_def split: if_splits)
  qed (use none side plain in \<open>simp_all add: lock_task_step_def of_side_def plain_def\<close>)
qed

lemma run_in_order:
  assumes "in_turn opss s" "own_tids opss" "in_order m0 opss s" "\<forall>ops\<in>set opss. \<forall>op\<in>set ops. point_or_backward op" "lm_inv m0"
  shows "case sync_run s is of Inl f \<Rightarrow> f = Blocked | Inr s' \<Rightarrow> in_turn opss s' \<and> in_order m0 opss s'"
  using assms(1,3)
proof (induction "is" arbitrary: s)
  case (Cons i "is")
  show ?case
  proof (cases "sync_step s i")
    case (Inl f)
    then have "thread_step (fst s) (snd s) (snd s ! i) = Inl f"
      by (cases "thread_step (fst s) (snd s) (snd s ! i)") (auto simp: sync_step_def split: if_splits)
    with step_fails step_not_failing [OF Cons.prems assms(4,5), of i] Inl have "f = Blocked" by blast
    with Inl show ?thesis by simp
  next
    case (Inr s1)
    with Cons.IH [of s1] step_in_turn [OF Cons.prems(1) Inr] step_in_order [OF Cons.prems(1) assms(2) Cons.prems(2) Inr]
    show ?thesis by simp
  qed
qed simp

lemma finished_settled:
  assumes "in_order m0 opss s" "all_finished (snd s)" "length (snd s) = length opss"
  shows "\<exists>es. replay m0 es = Some (fst s) \<and>
    (\<forall>i<length opss. map fst (carried i es) = opss ! i \<and> map snd (carried i es) = lt_out (snd s ! i))"
proof -
  have todo: "lt_todo (snd s ! i) = []" if "i < length opss" for i
    using assms(2,3) that by (simp add: all_finished_def)
  have "todos (snd s) = []" using assms(2) by (auto simp: todos_def all_finished_def)
  with assms(1) todo show ?thesis by (auto simp: in_order_def)
qed

text \<open>
  C5: requests for locks, for a point in time or for what is before one, can share the lock manager.
  When no two threads work for the same transaction, then however the threads take turns, between
  guards and accesses, no access fails; wherever they are, there are turns with which all
  finish; and when they have, the state and every result is what whole requests, one after
  the other in some order that keeps that of each thread, and creations of keys lead to.
\<close>
theorem requests_in_some_order:
  assumes "lm_inv m" "\<forall>ops\<in>set opss. \<forall>op\<in>set ops. point_or_backward op" "own_tids opss"
  shows "case sync_run (m, map new_thread opss) is of
      Inl f \<Rightarrow> f = Blocked
    | Inr s \<Rightarrow> (\<exists>js s'. sync_run s js = Inr s' \<and> all_finished (snd s'))
        \<and> (all_finished (snd s) \<longrightarrow>
          (\<exists>es. replay m es = Some (fst s) \<and>
            (\<forall>i<length opss. map fst (carried i es) = opss ! i \<and> map snd (carried i es) = lt_out (snd s ! i))))"
proof -
  have req: "\<forall>ops\<in>set opss. \<forall>op\<in>set ops. requests op" using assms(2) point_or_backward_requests by blast
  note run = run_in_order [OF _ assms(3) _ assms(2,1)]
  note start = run [OF new_in_order [OF req]]
  show ?thesis
  proof (cases "sync_run (m, map new_thread opss) is")
    case (Inl f)
    with start [of "is"] show ?thesis by simp
  next
    case (Inr s)
    with start [of "is"] have s: "in_turn opss s" "in_order m opss s" by simp_all
    from s(1) have "climbing True (snd s)" "length (snd s) = length opss" by (simp_all add: in_turn_def)
    with climbing_ends obtain js where "case sync_run s js of Inl f \<Rightarrow> f = LockFailure | Inr s' \<Rightarrow> all_finished (snd s')" by blast
    with run [OF s, of js] have "\<exists>js s'. sync_run s js = Inr s' \<and> all_finished (snd s')"
      by (cases "sync_run s js") (simp, fastforce)
    with Inr finished_settled [OF s(2)] \<open>length (snd s) = length opss\<close> show ?thesis by simp
  qed
qed

text \<open>Two transactions request the same lock: there are turns with which both finish.\<close>

theorem requests_in_some_order_witness:
  "\<exists>js s. sync_run (lm_init, map new_thread [[Try_lock 5 1 3 3 False], [Try_lock 5 2 3 3 False]]) js = Inr s \<and> all_finished (snd s)"
proof -
  let ?opss = "[[Try_lock 5 1 3 3 False], [Try_lock 5 2 3 3 False]]"
  have "own_tids ?opss" by (auto simp: own_tids_def tids_of_def less_Suc_eq)
  from requests_in_some_order [OF lm_inv_init _ this, of "[]"] show ?thesis by simp
qed


end
