(* ===== verification/Lock_Local.thy ===== *)
theory Lock_Local
  imports Lock_Threads
begin

text \<open>
  Which nodes the operations on a tree read and write.  A set of addresses that no pointer of its
  nodes leads out of is all that an operation started inside depends on, and all that it changes,
  new nodes aside.
\<close>

section \<open>Heaps in two parts\<close>

definition pointers :: "lock_node \<Rightarrow> addr set" where
  "pointers n = set_option (n_parent n) \<union> set_option (n_left n) \<union> set_option (n_right n)"

definition linked :: "heap \<Rightarrow> addr set \<Rightarrow> bool" where
  "linked h S \<longleftrightarrow> (\<forall>a\<in>S. \<forall>n. h a = Some n \<longrightarrow> pointers n \<subseteq> S)"

text \<open>The nodes of \<open>S\<close> from one heap, the others from another.\<close>

definition glue :: "addr set \<Rightarrow> heap \<Rightarrow> heap \<Rightarrow> heap" where
  "glue S h g = (\<lambda>a. if a \<in> S then h a else g a)"

lemma glue_in [simp]: "a \<in> S \<Longrightarrow> glue S h g a = h a"
  by (simp add: glue_def)

lemma glue_out: "a \<notin> S \<Longrightarrow> glue S h g a = g a"
  by (simp add: glue_def)

lemma glue_self [simp]: "glue S h h = h"
  by (auto simp: glue_def)

lemma glue_upd [simp]: "p \<in> S \<Longrightarrow> (glue S h g)(p \<mapsto> n) = glue S (h(p \<mapsto> n)) g"
  by (auto simp: glue_def)

lemma glue_insert: "(glue S h g)(p \<mapsto> n) = glue (insert p S) (h(p \<mapsto> n)) g"
  by (auto simp: glue_def)

lemma upd_glue: "upd h p f = Some h' \<Longrightarrow> p \<in> S \<Longrightarrow> upd (glue S h g) p f = Some (glue S h' g)"
  by (auto simp: upd_def split: option.splits)

lemma linked_pointer:
  assumes "linked h S" "a \<in> S" "h a = Some n"
  shows "n_parent n = Some p \<Longrightarrow> p \<in> S" "n_left n = Some p \<Longrightarrow> p \<in> S" "n_right n = Some p \<Longrightarrow> p \<in> S"
  using assms by (auto simp: linked_def pointers_def)

lemma linked_node: "linked h S \<Longrightarrow> pointers n \<subseteq> S \<Longrightarrow> linked (h(a \<mapsto> n)) S"
  by (auto simp: linked_def)

lemma linked_insert: "linked h S \<Longrightarrow> pointers n \<subseteq> insert a S \<Longrightarrow> linked (h(a \<mapsto> n)) (insert a S)"
  by (auto simp: linked_def)

lemma linked_other: "linked h S \<Longrightarrow> (\<And>a. a \<in> S \<Longrightarrow> h' a = h a) \<Longrightarrow> linked h' S"
  by (simp add: linked_def)

text \<open>The update of a field that is no pointer, and of one.\<close>

lemma linked_upd:
  assumes "linked h S" "upd h p f = Some h'" "p \<in> S" "\<And>n. pointers (f n) \<subseteq> pointers n \<union> S"
  shows "linked h' S"
proof -
  from assms(2) obtain n where n: "h p = Some n" "h' = h(p \<mapsto> f n)" by (auto simp: upd_def split: option.splits)
  have "pointers n \<subseteq> S" using assms(1,3) n(1) by (auto simp: linked_def)
  with assms(4) [of n] have "pointers (f n) \<subseteq> S" by blast
  with assms(1) n(2) show ?thesis by (simp add: linked_node)
qed

lemma pointers_fields [simp]:
  "pointers (n_left_height_update f n) = pointers n" "pointers (n_right_height_update f n) = pointers n"
  "pointers (n_start_update w n) = pointers n" "pointers (n_end_update w n) = pointers n"
  "pointers (n_status_update s n) = pointers n" "pointers (n_tids_update v n) = pointers n"
  "pointers (copy_node n) = {}" "pointers new_node = {}"
  by (simp_all add: pointers_def copy_node_def new_node_def)

lemma pointers_moved:
  "set_option c \<subseteq> S \<Longrightarrow> pointers (n_parent_update (\<lambda>_. c) n) \<subseteq> pointers n \<union> S"
  "set_option c \<subseteq> S \<Longrightarrow> pointers (n_left_update (\<lambda>_. c) n) \<subseteq> pointers n \<union> S"
  "set_option c \<subseteq> S \<Longrightarrow> pointers (n_right_update (\<lambda>_. c) n) \<subseteq> pointers n \<union> S"
  by (auto simp: pointers_def)

text \<open>What an operation on nodes of \<open>S\<close> comes to: \<open>S\<close> stays linked, and the rest of the heap does not matter.\<close>

definition local_to :: "addr set \<Rightarrow> (heap \<Rightarrow> heap option) \<Rightarrow> heap \<Rightarrow> heap \<Rightarrow> bool" where
  "local_to S F h h' \<longleftrightarrow> linked h' S \<and> (\<forall>g. F (glue S h g) = Some (glue S h' g))"

lemma local_linked: "local_to S F h h' \<Longrightarrow> linked h' S"
  by (simp add: local_to_def)

lemma local_glue: "local_to S F h h' \<Longrightarrow> F (glue S h g) = Some (glue S h' g)"
  by (simp add: local_to_def)

lemma local_outside:
  assumes "local_to S F h h'" "F h = Some h'" "a \<notin> S"
  shows "h' a = h a"
proof -
  from local_glue [OF assms(1), of h] assms(2) have "h' = glue S h' h" by simp
  with glue_out [OF assms(3), of h' h] show ?thesis by simp
qed

lemma upd_local:
  assumes "linked h S" "upd h p f = Some h'" "p \<in> S" "\<And>n. pointers (f n) \<subseteq> pointers n \<union> S"
  shows "local_to S (\<lambda>h. upd h p f) h h'"
  using linked_upd [OF assms] upd_glue [OF assms(2,3)] by (simp add: local_to_def)

section \<open>The operations on nodes\<close>

lemma getRoot_local:
  "getRoot h p = Some r \<Longrightarrow> linked h S \<Longrightarrow> p \<in> S \<Longrightarrow> getRoot (glue S h g) p = Some r \<and> r \<in> S"
proof (induction h p r rule: getRoot.raw_induct [rotated, consumes 1])
  case (1 getRoot' h p r)
  from 1(2) obtain n where n: "h p = Some n" by (auto simp: bind_eq_Some_conv)
  show ?case
  proof (cases "n_parent n")
    case None
    with 1(2,4) n show ?thesis by (simp add: getRoot.simps [of "glue S h g"])
  next
    case (Some q)
    with 1(2) n have "getRoot' h q = Some r" by simp
    from 1(1) [OF this 1(3) linked_pointer(1) [OF 1(3,4) n Some]] Some n 1(4) show ?thesis
      by (simp add: getRoot.simps [of "glue S h g" p])
  qed
qed

lemma node_find_local:
  "node_find h p locks ts = Some r \<Longrightarrow> linked h S \<Longrightarrow> p \<in> S \<Longrightarrow> set locks \<subseteq> S \<Longrightarrow>
   node_find (glue S h g) p locks ts = Some r \<and> set r \<subseteq> S"
proof (induction h p locks ts r rule: node_find.raw_induct [rotated, consumes 1])
  case (1 find h p locks ts r)
  from 1(2) obtain n where n: "h p = Some n" by (auto simp: bind_eq_Some_conv)
  have s: "set (locks @ [p]) \<subseteq> S" using 1(4,5) by simp
  note u = node_find.simps [of "glue S h g" p]
  consider (left) l where "ts < n_start n" "n_left n = Some l" | (right) q where "\<not> ts < n_start n" "ts > n_end n" "n_right n = Some q"
    | (here) "\<not> (ts < n_start n \<and> n_left n \<noteq> None)" "\<not> (\<not> ts < n_start n \<and> ts > n_end n \<and> n_right n \<noteq> None)" by blast
  then show ?case
  proof cases
    case (left l)
    with 1(2) n have "find h l locks ts = Some r" by simp
    from 1(1) [OF this 1(3) linked_pointer(2) [OF 1(3,4) n left(2)] 1(5)] left n 1(4) show ?thesis by (simp add: u)
  next
    case (right q)
    with 1(2) n have "find h q (locks @ [p]) ts = Some r" by simp
    from 1(1) [OF this 1(3) linked_pointer(3) [OF 1(3,4) n right(3)] s] right n 1(4) show ?thesis by (simp add: u)
  next
    case here
    with 1(2,4,5) n s show ?thesis by (auto simp: u split: if_splits option.splits)
  qed
qed

lemma child_height_local: "set_option c \<subseteq> S \<Longrightarrow> child_height (glue S h g) c = child_height h c"
  by (cases c) (simp_all add: child_height_def)

lemma updateHeight_local:
  assumes "updateHeight h p = Some h'" "linked h S" "p \<in> S"
  shows "local_to S (\<lambda>h. updateHeight h p) h h'"
proof -
  from assms(1) obtain n lh h1 rh where n: "h p = Some n" and l: "child_height h (n_left n) = Some lh"
    and h1: "upd h p (n_left_height_update (\<lambda>_. lh)) = Some h1" and r: "child_height h1 (n_right n) = Some rh"
    and h': "upd h1 p (n_right_height_update (\<lambda>_. rh)) = Some h'"
    by (auto simp: updateHeight_def bind_eq_Some_conv)
  have s: "set_option (n_left n) \<subseteq> S" "set_option (n_right n) \<subseteq> S"
    using assms(2,3) n by (auto simp: linked_def pointers_def)
  have "linked h1 S" by (rule linked_upd [OF assms(2) h1 assms(3)]) simp
  then have "linked h' S" by (rule linked_upd [OF _ h' assms(3)]) simp
  then show ?thesis
    using n l r assms(3) s upd_glue [OF h1 assms(3)] upd_glue [OF h' assms(3)]
    by (simp add: local_to_def updateHeight_def child_height_local)
qed

lemma replace_child_local:
  assumes "replace_child h p a c = Some h'" "linked h S" "p \<in> S" "set_option c \<subseteq> S"
  shows "local_to S (\<lambda>h. replace_child h p a c) h h'"
proof -
  from assms(1) obtain n where n: "h p = Some n" by (auto simp: replace_child_def bind_eq_Some_conv)
  show ?thesis
  proof (cases "n_left n = Some a")
    case True
    with assms(1) n have u: "upd h p (n_left_update (\<lambda>_. c)) = Some h'" by (simp add: replace_child_def)
    have "linked h' S" by (rule linked_upd [OF assms(2) u assms(3)]) (rule pointers_moved(2) [OF assms(4)])
    with True n assms(3) upd_glue [OF u assms(3)] show ?thesis by (simp add: local_to_def replace_child_def)
  next
    case False
    with assms(1) n have u: "upd h p (n_right_update (\<lambda>_. c)) = Some h'" by (simp add: replace_child_def)
    have "linked h' S" by (rule linked_upd [OF assms(2) u assms(3)]) (rule pointers_moved(3) [OF assms(4)])
    with False n assms(3) upd_glue [OF u assms(3)] show ?thesis by (simp add: local_to_def replace_child_def)
  qed
qed
text \<open>Operations in sequence.\<close>

lemma local_done: "linked h S \<Longrightarrow> local_to S Some h h"
  by (simp add: local_to_def)

lemma local_bind: "local_to S F h h1 \<Longrightarrow> local_to S G h1 h' \<Longrightarrow> local_to S (\<lambda>h. F h \<bind> G) h h'"
  by (simp add: local_to_def)

lemma local_read: "h p = Some n \<Longrightarrow> p \<in> S \<Longrightarrow> local_to S (G n) h h' \<Longrightarrow> local_to S (\<lambda>h. h p \<bind> (\<lambda>n. G n h)) h h'"
  by (simp add: local_to_def)

lemma local_swap_links:
  assumes "linked h S" "p \<in> S" "c \<in> S" "set_option x \<subseteq> S"
    and l: "\<And>n. pointers (f n) \<subseteq> pointers n \<union> S" "\<And>n. pointers (k n) \<subseteq> pointers n \<union> S"
    and h': "do {
        h \<leftarrow> upd h p f;
        h \<leftarrow> (case x of None \<Rightarrow> Some h | Some x \<Rightarrow> upd h x (n_parent_update (\<lambda>_. Some p)));
        upd h c k
      } = Some h'"
  shows "local_to S (\<lambda>h. do {
        h \<leftarrow> upd h p f;
        h \<leftarrow> (case x of None \<Rightarrow> Some h | Some x \<Rightarrow> upd h x (n_parent_update (\<lambda>_. Some p)));
        upd h c k
      }) h h'"
proof -
  from h' obtain h1 h2 where h1: "upd h p f = Some h1"
    and h2: "(case x of None \<Rightarrow> Some h1 | Some x \<Rightarrow> upd h1 x (n_parent_update (\<lambda>_. Some p))) = Some h2"
    and h3: "upd h2 c k = Some h'"
    by (auto simp: bind_eq_Some_conv)
  note l1 = upd_local [OF assms(1) h1 assms(2) l(1)]
  have l2: "local_to S (\<lambda>h. case x of None \<Rightarrow> Some h | Some x \<Rightarrow> upd h x (n_parent_update (\<lambda>_. Some p))) h1 h2"
  proof (cases x)
    case None
    with h2 local_done [OF local_linked [OF l1]] show ?thesis by simp
  next
    case (Some y)
    with assms(4) have y: "y \<in> S" by simp
    from h2 Some have u: "upd h1 y (n_parent_update (\<lambda>_. Some p)) = Some h2" by simp
    have "local_to S (\<lambda>h. upd h y (n_parent_update (\<lambda>_. Some p))) h1 h2"
      by (rule upd_local [OF local_linked [OF l1] u y pointers_moved(1)]) (simp add: assms(2))
    with Some show ?thesis by simp
  qed
  show ?thesis
    by (rule local_bind [OF l1 local_bind [OF l2 upd_local [OF local_linked [OF l2] h3 assms(3) l(2)]]])
qed

lemma node_swap_local:
  assumes "node_swap h p is_left = Some h'" "linked h S" "p \<in> S"
  shows "local_to S (\<lambda>h. node_swap h p is_left) h h'"
proof -
  from assms(1) obtain n where n: "h p = Some n" by (auto simp: node_swap_def bind_eq_Some_conv)
  show ?thesis
  proof (cases "if is_left then n_left n else n_right n")
    case None
    with assms(1) n have "h' = h" by (simp add: node_swap_def)
    then show ?thesis
      unfolding node_swap_def by (intro local_read [where h = h and p = p, OF n assms(3)]) (simp add: None local_done assms(2))
  next
    case (Some c)
    from Some linked_pointer [OF assms(2,3) n] have c: "c \<in> S" by (cases is_left) simp_all
    let ?up = "\<lambda>h. case n_parent n of None \<Rightarrow> Some h | Some q \<Rightarrow> replace_child h q p (Some c)"
    let ?turn = "\<lambda>cn h. if is_left then do {
          h \<leftarrow> upd h p (n_left_update (\<lambda>_. n_right cn));
          h \<leftarrow> (case n_right cn of None \<Rightarrow> Some h | Some x \<Rightarrow> upd h x (n_parent_update (\<lambda>_. Some p)));
          upd h c (n_right_update (\<lambda>_. Some p))
        } else do {
          h \<leftarrow> upd h p (n_right_update (\<lambda>_. n_left cn));
          h \<leftarrow> (case n_left cn of None \<Rightarrow> Some h | Some x \<Rightarrow> upd h x (n_parent_update (\<lambda>_. Some p)));
          upd h c (n_left_update (\<lambda>_. Some p))
        }"
    from assms(1) n Some obtain h1 h2 h3 cn h4 h5 where
      h1: "upd h c (n_parent_update (\<lambda>_. n_parent n)) = Some h1" and h2: "?up h1 = Some h2"
      and h3: "upd h2 p (n_parent_update (\<lambda>_. Some c)) = Some h3" and cn: "h3 c = Some cn"
      and h4: "?turn cn h3 = Some h4" and h5: "updateHeight h4 p = Some h5" and h6: "updateHeight h5 c = Some h'"
      by (auto simp: node_swap_def bind_eq_Some_conv)
    have l1: "local_to S (\<lambda>h. upd h c (n_parent_update (\<lambda>_. n_parent n))) h h1"
      by (rule upd_local [OF assms(2) h1 c pointers_moved(1)]) (use linked_pointer [OF assms(2,3) n] in auto)
    have l2: "local_to S ?up h1 h2"
      using h2 local_done [OF local_linked [OF l1]] linked_pointer(1) [OF assms(2,3) n] c
      by (cases "n_parent n") (simp_all add: replace_child_local [OF _ local_linked [OF l1]])
    have l3: "local_to S (\<lambda>h. upd h p (n_parent_update (\<lambda>_. Some c))) h2 h3"
      by (rule upd_local [OF local_linked [OF l2] h3 assms(3) pointers_moved(1)]) (simp add: c)
    note k = local_linked [OF l3]
    have s: "set_option (n_left cn) \<subseteq> S" "set_option (n_right cn) \<subseteq> S"
      using linked_pointer [OF k c cn] by auto
    have l4: "local_to S (?turn cn) h3 h4"
    proof (cases is_left)
      case True
      with local_swap_links [OF k assms(3) c s(2) pointers_moved(2) [OF s(2)] pointers_moved(3)] h4 assms(3)
      show ?thesis by simp
    next
      case False
      with local_swap_links [OF k assms(3) c s(1) pointers_moved(3) [OF s(1)] pointers_moved(2)] h4 assms(3)
      show ?thesis by simp
    qed
    note l5 = updateHeight_local [OF h5 local_linked [OF l4] assms(3)]
    note l6 = updateHeight_local [OF h6 local_linked [OF l5] c]
    have "local_to S (\<lambda>h. do { h \<leftarrow> upd h c (n_parent_update (\<lambda>_. n_parent n)); h \<leftarrow> ?up h;
        h \<leftarrow> upd h p (n_parent_update (\<lambda>_. Some c)); cn \<leftarrow> h c; h \<leftarrow> ?turn cn h; h \<leftarrow> updateHeight h p; updateHeight h c }) h h'"
      by (rule local_bind [OF l1], rule local_bind [OF l2], rule local_bind [OF l3],
          rule local_read [where h = h3 and p = c, OF cn c], rule local_bind [OF l4], rule local_bind [OF l5], rule l6)
    then show ?thesis
      unfolding node_swap_def by (intro local_read [where h = h and p = p, OF n assms(3)]) (simp add: Some)
  qed
qed

text \<open>One of the two sides of \<open>balance\<close>.\<close>

lemma lean_local:
  assumes "linked h S" "p \<in> S" "set_option c \<subseteq> S"
    and "do { l \<leftarrow> c; ln \<leftarrow> h l;
        (if A ln then do { h \<leftarrow> node_swap h l b1; h \<leftarrow> node_swap h p b2; Some (h, False) }
         else if B ln then Some (h, True)
         else do { h \<leftarrow> node_swap h p b2; Some (h, False) }) } = Some (h', b)"
  shows "linked h' S \<and> do { l \<leftarrow> c; ln \<leftarrow> glue S h g l;
        (if A ln then do { h \<leftarrow> node_swap (glue S h g) l b1; h \<leftarrow> node_swap h p b2; Some (h, False) }
         else if B ln then Some (glue S h g, True)
         else do { h \<leftarrow> node_swap (glue S h g) p b2; Some (h, False) }) } = Some (glue S h' g, b)"
proof -
  from assms(4) obtain l ln where l: "c = Some l" "h l = Some ln" by (auto simp: bind_eq_Some_conv)
  with assms(3) have s: "l \<in> S" by simp
  consider "A ln" | "\<not> A ln" "B ln" | "\<not> A ln" "\<not> B ln" by blast
  then show ?thesis
  proof cases
    case 1
    with assms(4) l obtain h1 where h1: "node_swap h l b1 = Some h1" "node_swap h1 p b2 = Some h'" "b = False"
      by (auto simp: bind_eq_Some_conv)
    note l1 = node_swap_local [OF h1(1) assms(1) s]
    note l2 = node_swap_local [OF h1(2) local_linked [OF l1] assms(2)]
    show ?thesis using 1 l s h1 local_linked [OF l2] local_glue [OF l1] local_glue [OF l2] by simp
  next
    case 2
    with assms l s show ?thesis by simp
  next
    case 3
    with assms(4) l have h1: "node_swap h p b2 = Some h'" "b = False" by (auto simp: bind_eq_Some_conv)
    note l1 = node_swap_local [OF h1(1) assms(1,2)]
    show ?thesis using 3 l s h1 local_linked [OF l1] local_glue [OF l1] by simp
  qed
qed

lemma balance_node_local:
  assumes "balance_node h p = Some (h', b)" "linked h S" "p \<in> S"
  shows "linked h' S \<and> balance_node (glue S h g) p = Some (glue S h' g, b)"
proof -
  from assms(1) obtain h1 n where h1: "updateHeight h p = Some h1" and n: "h1 p = Some n"
    by (auto simp: balance_node_def bind_eq_Some_conv)
  note l1 = updateHeight_local [OF h1 assms(2,3)]
  note k = local_linked [OF l1] and g = local_glue [OF l1, of g]
  have s: "set_option (n_left n) \<subseteq> S" "set_option (n_right n) \<subseteq> S"
    using linked_pointer [OF k assms(3) n] by auto
  note lean = lean_local [OF k assms(3) s(1), where g = g] lean_local [OF k assms(3) s(2), where g = g]
  consider (left) "n_right_height n - n_left_height n < - 1"
    | (right) "\<not> n_right_height n - n_left_height n < - 1" "n_right_height n - n_left_height n > 1"
    | (even) "\<not> n_right_height n - n_left_height n < - 1" "\<not> n_right_height n - n_left_height n > 1" by blast
  then show ?thesis
  proof cases
    case left
    with assms(1) h1 n have r: "do { l \<leftarrow> n_left n; ln \<leftarrow> h1 l;
        (if n_right_height ln - n_left_height ln = 1 then do { h \<leftarrow> node_swap h1 l False; h \<leftarrow> node_swap h p True; Some (h, False) }
         else if n_right_height ln - n_left_height ln < - 1 then Some (h1, True)
         else do { h \<leftarrow> node_swap h1 p True; Some (h, False) }) } = Some (h', b)"
      by (simp add: balance_node_def)
    from lean(1) [OF r] left g n assms(3) show ?thesis by (simp add: balance_node_def)
  next
    case right
    with assms(1) h1 n have r: "do { l \<leftarrow> n_right n; ln \<leftarrow> h1 l;
        (if n_right_height ln - n_left_height ln = - 1 then do { h \<leftarrow> node_swap h1 l True; h \<leftarrow> node_swap h p False; Some (h, False) }
         else if n_right_height ln - n_left_height ln > 1 then Some (h1, True)
         else do { h \<leftarrow> node_swap h1 p False; Some (h, False) }) } = Some (h', b)"
      by (simp add: balance_node_def)
    from lean(2) [OF r] right g n assms(3) show ?thesis by (simp add: balance_node_def)
  next
    case even
    with assms(1,3) h1 n k g show ?thesis by (simp add: balance_node_def)
  qed
qed

lemma balance_local:
  "balance h p = Some h' \<Longrightarrow> linked h S \<Longrightarrow> p \<in> S \<Longrightarrow> linked h' S \<and> balance (glue S h g) p = Some (glue S h' g)"
proof (induction h p h' rule: balance.raw_induct [rotated, consumes 1])
  case (1 balance' h p h')
  from 1(2) obtain n h1 failed where n: "h p = Some n" and b: "balance_node h p = Some (h1, failed)"
    and r: "(if failed then Some h1 else (case n_parent n of None \<Rightarrow> Some h1 | Some p \<Rightarrow> balance' h1 p)) = Some h'"
    by (auto simp: bind_eq_Some_conv)
  note l = balance_node_local [OF b 1(3,4), of g]
  note u = balance.simps [of "glue S h g" p]
  consider (stop) "failed \<or> n_parent n = None" | (up) q where "\<not> failed" "n_parent n = Some q" by (cases "n_parent n") auto
  then show ?case
  proof cases
    case stop
    with r l n 1(4) show ?thesis by (auto simp: u)
  next
    case (up q)
    with r have q: "balance' h1 q = Some h'" by simp
    from 1(1) [OF q _ linked_pointer(1) [OF 1(3,4) n up(2)]] l up n 1(4) show ?thesis by (simp add: u)
  qed
qed

text \<open>What both sides of \<open>insert\<close> do with a new node.\<close>

lemma attach_local:
  assumes "linked h S" "p \<in> S" "x \<in> S" "\<And>n. pointers (f n) \<subseteq> pointers n \<union> S"
    and "do {
        h \<leftarrow> upd h p f;
        h \<leftarrow> upd h x (n_parent_update (\<lambda>_. Some p));
        h \<leftarrow> balance h p;
        root \<leftarrow> getRoot h p;
        Some (h, root)
      } = Some (h', root)"
  shows "linked h' S \<and> root \<in> S \<and> do {
        h \<leftarrow> upd (glue S h g) p f;
        h \<leftarrow> upd h x (n_parent_update (\<lambda>_. Some p));
        h \<leftarrow> balance h p;
        root \<leftarrow> getRoot h p;
        Some (h, root)
      } = Some (glue S h' g, root)"
proof -
  from assms(5) obtain h1 h2 where h1: "upd h p f = Some h1" and h2: "upd h1 x (n_parent_update (\<lambda>_. Some p)) = Some h2"
    and h3: "balance h2 p = Some h'" "getRoot h' p = Some root"
    by (auto simp: bind_eq_Some_conv)
  have "linked h1 S" by (rule linked_upd [OF assms(1) h1 assms(2,4)])
  then have k: "linked h2 S" by (rule linked_upd [OF _ h2 assms(3) pointers_moved(1)]) (simp add: assms(2))
  note b = balance_local [OF h3(1) k assms(2), of g]
  with getRoot_local [OF h3(2) _ assms(2), where g = g] upd_glue [OF h1 assms(2)] upd_glue [OF h2 assms(3)]
  show ?thesis by simp
qed

lemma node_insert_local:
  "node_insert h p x = Some r \<Longrightarrow> linked h S \<Longrightarrow> p \<in> S \<Longrightarrow> x \<in> S \<Longrightarrow>
   linked (fst r) S \<and> snd r \<in> S \<and> node_insert (glue S h g) p x = Some (glue S (fst r) g, snd r)"
proof (induction h p x r rule: node_insert.raw_induct [rotated, consumes 1])
  case (1 insert' h p x r)
  from 1(2) obtain n m where n: "h p = Some n" and m: "h x = Some m" by (auto simp: bind_eq_Some_conv)
  note u = node_insert.simps [of "glue S h g" p]
  obtain h' root where r: "r = (h', root)" by (cases r)
  consider (left) l where "n_start m < n_start n" "n_left n = Some l"
    | (left_end) "n_start m < n_start n" "n_left n = None"
    | (right) l where "\<not> n_start m < n_start n" "n_right n = Some l"
    | (right_end) "\<not> n_start m < n_start n" "n_right n = None"
    by (cases "n_start m < n_start n"; cases "n_left n"; cases "n_right n") auto
  then show ?case
  proof cases
    case (left l)
    with 1(2) n m have "insert' h l x = Some r" by simp
    from 1(1) [OF this 1(3) linked_pointer(2) [OF 1(3,4) n left(2)] 1(5)] left n m 1(4,5) show ?thesis by (simp add: u)
  next
    case (right l)
    with 1(2) n m have "insert' h l x = Some r" by simp
    from 1(1) [OF this 1(3) linked_pointer(3) [OF 1(3,4) n right(2)] 1(5)] right n m 1(4,5) show ?thesis by (simp add: u)
  next
    case left_end
    have "pointers (n_left_update (\<lambda>_. Some x) n) \<subseteq> pointers n \<union> S" for n
      by (rule pointers_moved(2)) (simp add: 1(5))
    note a = attach_local [OF 1(3-5) this, where h' = h' and root = root and g = g]
    from left_end 1(2) n m r have "do {
        h \<leftarrow> upd h p (n_left_update (\<lambda>_. Some x));
        h \<leftarrow> upd h x (n_parent_update (\<lambda>_. Some p));
        h \<leftarrow> balance h p;
        root \<leftarrow> getRoot h p;
        Some (h, root)
      } = Some (h', root)" by simp
    from a [OF this] left_end n m r 1(4,5) show ?thesis by (simp add: u)
  next
    case right_end
    have "pointers (n_right_update (\<lambda>_. Some x) n) \<subseteq> pointers n \<union> S" for n
      by (rule pointers_moved(3)) (simp add: 1(5))
    note a = attach_local [OF 1(3-5) this, where h' = h' and root = root and g = g]
    from right_end 1(2) n m r have "do {
        h \<leftarrow> upd h p (n_right_update (\<lambda>_. Some x));
        h \<leftarrow> upd h x (n_parent_update (\<lambda>_. Some p));
        h \<leftarrow> balance h p;
        root \<leftarrow> getRoot h p;
        Some (h, root)
      } = Some (h', root)" by simp
    from a [OF this] right_end n m r 1(4,5) show ?thesis by (simp add: u)
  qed
qed

section \<open>New nodes\<close>

text \<open>The set of nodes with those that have been allocated since.\<close>

definition grow :: "addr set \<Rightarrow> addr \<Rightarrow> addr \<Rightarrow> addr set" where
  "grow S next next' = S \<union> {next..<next'}"

lemma grow_refl [simp]: "grow S next next = S"
  by (simp add: grow_def)

lemma grow_Suc: "grow S next (Suc next) = insert next S"
  by (auto simp: grow_def)

lemma grow_trans: "n \<le> n1 \<Longrightarrow> n1 \<le> n2 \<Longrightarrow> grow (grow S n n1) n1 n2 = grow S n n2"
  by (auto simp: grow_def)

lemma grow_mono: "S \<subseteq> grow S next next'"
  by (simp add: grow_def)

text \<open>A state of heap, allocation pointer and root: what an operation leads to from nodes of \<open>S\<close>.\<close>

type_synonym alloc = "(heap \<times> addr) \<times> addr"

definition grown :: "addr set \<Rightarrow> addr \<Rightarrow> alloc \<Rightarrow> bool" where
  "grown S next st \<longleftrightarrow> next \<le> snd (fst st) \<and> linked (fst (fst st)) (grow S next (snd (fst st)))
     \<and> snd st \<in> grow S next (snd (fst st))"

definition glue_st :: "addr set \<Rightarrow> addr \<Rightarrow> alloc \<Rightarrow> heap \<Rightarrow> alloc" where
  "glue_st S next st g = ((glue (grow S next (snd (fst st))) (fst (fst st)) g, snd (fst st)), snd st)"

lemma grown_start: "linked h S \<Longrightarrow> root \<in> S \<Longrightarrow> grown S next ((h, next), root)"
  by (simp add: grown_def)

lemma grown_trans:
  "grown S next ((h, n1), root) \<Longrightarrow> grown (grow S next n1) n1 st \<Longrightarrow> grown S next st"
  by (auto simp: grown_def grow_trans)

lemma glue_st_trans:
  "grown S next ((h, n1), root) \<Longrightarrow> grown (grow S next n1) n1 st \<Longrightarrow> glue_st (grow S next n1) n1 st g = glue_st S next st g"
  by (simp add: grown_def glue_st_def grow_trans)

lemma cut_insert:
  assumes "linked h S" "a \<in> S" "pointers n1 = {}" "\<And>n. pointers (f n) = pointers n"
    and "do { h \<leftarrow> upd (h(next \<mapsto> n1)) a f; (h, root) \<leftarrow> node_insert h a next; Some ((h, Suc next), root) } = Some st"
  shows "grown S next st \<and>
    do { h \<leftarrow> upd ((glue S h g)(next \<mapsto> n1)) a f; (h, root) \<leftarrow> node_insert h a next; Some ((h, Suc next), root) }
      = Some (glue_st S next st g)"
proof -
  from assms(5) obtain h1 h' root where h1: "upd (h(next \<mapsto> n1)) a f = Some h1"
    and h2: "node_insert h1 a next = Some (h', root)" and st: "st = ((h', Suc next), root)"
    by (auto simp: bind_eq_Some_conv)
  have "linked (h(next \<mapsto> n1)) (insert next S)" by (rule linked_insert [OF assms(1)]) (simp add: assms(3))
  then have k: "linked h1 (insert next S)" by (rule linked_upd [OF _ h1]) (use assms(2,4) in auto)
  have s: "a \<in> insert next S" "next \<in> insert next S" using assms(2) by auto
  from node_insert_local [OF h2 k s, where g = g] upd_glue [OF h1 s(1), where g = g] show ?thesis
    by (simp add: st grown_def glue_st_def grow_Suc glue_insert)
qed

lemma cut_after_local:
  assumes "cut_after (h, next) a ts = Some st" "linked h S" "a \<in> S"
  shows "grown S next st \<and> cut_after (glue S h g, next) a ts = Some (glue_st S next st g)"
proof -
  from assms(1) obtain n where n: "h a = Some n" by (auto simp: cut_after_def bind_eq_Some_conv)
  with assms(1) have "do { h \<leftarrow> upd (h(next \<mapsto> (copy_node n)\<lparr>n_start := ts + 1, n_end := n_end n\<rparr>)) a (n_end_update (\<lambda>_. ts));
      (h, root) \<leftarrow> node_insert h a next; Some ((h, Suc next), root) } = Some st"
    by (simp add: cut_after_def Let_def)
  from cut_insert [OF assms(2,3) _ _ this, of g] n assms(3) show ?thesis by (simp add: cut_after_def Let_def)
qed

lemma cut_before_local:
  assumes "cut_before (h, next) a ts = Some st" "linked h S" "a \<in> S"
  shows "grown S next st \<and> cut_before (glue S h g, next) a ts = Some (glue_st S next st g)"
proof -
  from assms(1) obtain n where n: "h a = Some n" by (auto simp: cut_before_def bind_eq_Some_conv)
  with assms(1) have "do { h \<leftarrow> upd (h(next \<mapsto> (copy_node n)\<lparr>n_end := ts - 1\<rparr>)) a (n_start_update (\<lambda>_. ts));
      (h, root) \<leftarrow> node_insert h a next; Some ((h, Suc next), root) } = Some st"
    by (simp add: cut_before_def Let_def)
  from cut_insert [OF assms(2,3) _ _ this, of g] n assms(3) show ?thesis by (simp add: cut_before_def Let_def)
qed

text \<open>The second loop of \<open>tryLock\<close>.\<close>

lemma grown_upd:
  assumes "grown S next ((h, n), root)" "upd h a f = Some h'" "a \<in> S" "\<And>n. pointers (f n) = pointers n"
  shows "grown S next ((h', n), root) \<and> upd (glue (grow S next n) h g) a f = Some (glue (grow S next n) h' g)"
proof -
  have a: "a \<in> grow S next n" using assms(3) grow_mono by blast
  have "linked h' (grow S next n)"
    by (rule linked_upd [OF _ assms(2) a]) (use assms(1,4) in \<open>auto simp: grown_def\<close>)
  with assms(1) upd_glue [OF assms(2) a] show ?thesis by (simp add: grown_def)
qed

lemma lock_pending_local:
  assumes "lock_pending tid ts_start ts_end is_read ((h, next), root) it = Some st" "linked h S" "root \<in> S" "it \<in> S"
  shows "grown S next st
    \<and> lock_pending tid ts_start ts_end is_read ((glue S h g, next), root) it = Some (glue_st S next st g)"
proof -
  from assms(1) obtain n h1 n1 r1 m h2 n2 r2 h3 where n: "h it = Some n"
    and c1: "(if n_start n < ts_start then cut_before (h, next) it ts_start else Some ((h, next), root)) = Some ((h1, n1), r1)"
    and m: "h1 it = Some m"
    and c2: "(if n_end m > ts_end then cut_after (h1, n1) it ts_end else Some ((h1, n1), r1)) = Some ((h2, n2), r2)"
    and u: "upd h2 it (\<lambda>n. n\<lparr>n_status := (if is_read then READ_LOCK else WRITE_LOCK), n_tids := insert tid (n_tids n)\<rparr>) = Some h3"
    and st: "st = ((h3, n2), r2)"
    by (auto simp: lock_pending_def Let_def bind_eq_Some_conv)
  have 1: "grown S next ((h1, n1), r1) \<and> (if n_start n < ts_start then cut_before (glue S h g, next) it ts_start
      else Some ((glue S h g, next), root)) = Some (glue_st S next ((h1, n1), r1) g)"
  proof (cases "n_start n < ts_start")
    case True
    with c1 cut_before_local [OF _ assms(2,4), where g = g] show ?thesis by simp
  next
    case False
    with c1 grown_start [OF assms(2,3), of "next"] show ?thesis by (auto simp: glue_st_def)
  qed
  let ?S = "grow S next n1"
  have k: "linked h1 ?S" "r1 \<in> ?S" "it \<in> ?S"
    using 1 assms(4) grow_mono [of S "next" n1] by (auto simp: grown_def)
  have 2: "grown ?S n1 ((h2, n2), r2) \<and> (if n_end m > ts_end then cut_after (glue ?S h1 g, n1) it ts_end
      else Some ((glue ?S h1 g, n1), r1)) = Some (glue_st ?S n1 ((h2, n2), r2) g)"
  proof (cases "n_end m > ts_end")
    case True
    with c2 cut_after_local [OF _ k(1,3), where g = g] show ?thesis by simp
  next
    case False
    with c2 grown_start [OF k(1,2), of n1] show ?thesis by (auto simp: glue_st_def)
  qed
  note g2 = grown_trans [OF conjunct1 [OF 1] conjunct1 [OF 2]]
  note s2 = glue_st_trans [OF conjunct1 [OF 1] conjunct1 [OF 2], where g = g]
  from grown_upd [OF g2 u assms(4), where g = g] have 3: "grown S next ((h3, n2), r2)"
    "upd (glue (grow S next n2) h2 g) it (\<lambda>n. n\<lparr>n_status := (if is_read then READ_LOCK else WRITE_LOCK),
        n_tids := insert tid (n_tids n)\<rparr>) = Some (glue (grow S next n2) h3 g)"
    by simp_all
  have c1': "(if n_start n < ts_start then cut_before (glue S h g, next) it ts_start
      else Some ((glue S h g, next), root)) = Some ((glue ?S h1 g, n1), r1)"
    using 1 by (simp add: glue_st_def)
  have c2': "(if n_end m > ts_end then cut_after (glue ?S h1 g, n1) it ts_end
      else Some ((glue ?S h1 g, n1), r1)) = Some ((glue (grow S next n2) h2 g, n2), r2)"
    using 2 s2 by (simp add: glue_st_def)
  have "lock_pending tid ts_start ts_end is_read ((glue S h g, next), root) it = Some ((glue (grow S next n2) h3 g, n2), r2)"
    using n m k(3) assms(4) 3(2) c1' c2'
    by (simp add: lock_pending_def del: if_split)
  with 3(1) show ?thesis by (simp add: st glue_st_def)
qed

lemma lock_pendings_local:
  "lock_pendings tid ts_start ts_end is_read ((h, next), root) pend = Some st \<Longrightarrow> linked h S \<Longrightarrow> root \<in> S \<Longrightarrow> set pend \<subseteq> S \<Longrightarrow>
   grown S next st
    \<and> lock_pendings tid ts_start ts_end is_read ((glue S h g, next), root) pend = Some (glue_st S next st g)"
proof (induction pend arbitrary: h "next" root S)
  case Nil
  then show ?case using grown_start [of h S root "next"] by (auto simp: glue_st_def)
next
  case (Cons it pend)
  from Cons.prems(1) obtain h1 n1 r1 where p: "lock_pending tid ts_start ts_end is_read ((h, next), root) it = Some ((h1, n1), r1)"
    and r: "lock_pendings tid ts_start ts_end is_read ((h1, n1), r1) pend = Some st"
    by (auto simp: bind_eq_Some_conv)
  have it: "it \<in> S" using Cons.prems(4) by simp
  note 1 = lock_pending_local [OF p Cons.prems(2,3) it, where g = g]
  let ?S = "grow S next n1"
  have k: "linked h1 ?S" "r1 \<in> ?S" "set pend \<subseteq> ?S"
    using 1 Cons.prems(4) grow_mono [of S "next" n1] by (auto simp: grown_def)
  note 2 = Cons.IH [OF r k]
  from grown_trans [OF conjunct1 [OF 1] conjunct1 [OF 2]] glue_st_trans [OF conjunct1 [OF 1] conjunct1 [OF 2], where g = g] 1 2
  show ?case by (simp add: glue_st_def)
qed

text \<open>The loops over a stack of nodes.\<close>

lemma pop_back_in: "pop_back locks = Some (a, rest) \<Longrightarrow> set locks \<subseteq> S \<Longrightarrow> a \<in> S \<and> set rest \<subseteq> S"
  by (auto simp: pop_back_def split: if_splits dest: in_set_butlastD)

lemma check_loop_local:
  "check_loop h ts_start is_read locks pend = Some r \<Longrightarrow> linked h S \<Longrightarrow> set locks \<subseteq> S \<Longrightarrow> set pend \<subseteq> S \<Longrightarrow>
   check_loop (glue S h g) ts_start is_read locks pend = Some r \<and> (\<forall>p. r = Some p \<longrightarrow> set p \<subseteq> S)"
proof (induction h ts_start is_read locks pend r rule: check_loop.raw_induct [rotated, consumes 1])
  case (1 loop h ts_start is_read locks pend r)
  note u = check_loop.simps [of "glue S h g" ts_start is_read locks pend]
  show ?case
  proof (cases "locks = []")
    case True
    with 1(2,5) show ?thesis unfolding u by auto
  next
    case False
    with 1(2) obtain a rest n where p: "pop_back locks = Some (a, rest)" and n: "h a = Some n"
      by (auto simp: bind_eq_Some_conv)
    note s = pop_back_in [OF p 1(4)]
    show ?thesis
    proof (cases "lock_check is_read (n_status n)")
      case None
      with 1(2) False p n s show ?thesis by (auto simp: u)
    next
      case (Some b)
      let ?pend = "if b then pend @ [a] else pend"
      have pend: "set ?pend \<subseteq> S" using s 1(5) by simp
      show ?thesis
      proof (cases "n_start n > ts_start")
        case True
        with 1(2) False p n Some obtain locks' where f: "node_find h a rest (ts_start - 1) = Some locks'"
          and l: "loop h ts_start is_read locks' ?pend = Some r"
          by (auto simp: Let_def bind_eq_Some_conv simp del: if_split)
        from node_find_local [OF f 1(3) conjunct1 [OF s] conjunct2 [OF s]] have f': "node_find (glue S h g) a rest (ts_start - 1) = Some locks'"
          "set locks' \<subseteq> S" by blast+
        from 1(1) [OF l 1(3) f'(2) pend] f' True False p n s Some show ?thesis by (simp add: u Let_def del: if_split)
      next
        case ge: False
        with 1(2) False p n s Some pend show ?thesis by (auto simp: u Let_def)
      qed
    qed
  qed
qed

lemma interval_loop_local:
  "interval_loop visit ts_start h locks ts_end events = Some r \<Longrightarrow> linked h S \<Longrightarrow> set locks \<subseteq> S \<Longrightarrow>
   (\<And>n. pointers (fst (visit n)) = pointers n) \<Longrightarrow>
   linked (fst r) S \<and> interval_loop visit ts_start (glue S h g) locks ts_end events = Some (glue S (fst r) g, snd r)"
proof (induction visit ts_start h locks ts_end events r rule: interval_loop.raw_induct [rotated, consumes 1])
  case (1 loop visit ts_start h locks ts_end events r)
  note u = interval_loop.simps [of visit ts_start "glue S h g" locks ts_end events]
  show ?case
  proof (cases "ts_end < ts_start")
    case True
    with 1(2,3) show ?thesis by (auto simp: u)
  next
    case False
    with 1(2) obtain a rest n locks' where p: "pop_back locks = Some (a, rest)" and n: "h a = Some n"
      and f: "node_find (h(a \<mapsto> fst (visit n))) a rest (n_start n - 1) = Some locks'"
      and l: "loop visit ts_start (h(a \<mapsto> fst (visit n))) locks' (n_start n - 1) (fold insort_insert (snd (visit n)) events) = Some r"
      by (auto simp: Let_def split_beta bind_eq_Some_conv)
    note s = pop_back_in [OF p 1(4)]
    have "pointers n \<subseteq> S" using 1(3) s n by (auto simp: linked_def)
    then have k: "linked (h(a \<mapsto> fst (visit n))) S" using 1(3,5) by (intro linked_node) simp_all
    from node_find_local [OF f k conjunct1 [OF s] conjunct2 [OF s], where g = g] 1(1) [OF l k _ 1(5)] False p n s show ?thesis
      by (simp add: u Let_def split_beta del: fun_upd_apply)
  qed
qed

lemma backward_start_local:
  assumes "backward_start h next root ts_end is_read = Some (h', n', root', locks)" "linked h S" "root \<in> S"
  shows "grown S next ((h', n'), root') \<and> set locks \<subseteq> grow S next n'
    \<and> backward_start (glue S h g) next root ts_end is_read = Some (glue (grow S next n') h' g, n', root', locks)"
proof -
  from assms(1) obtain ls a rest n where f: "node_find h root [] ts_end = Some ls" and p: "pop_back ls = Some (a, rest)"
    and n: "h a = Some n"
    by (auto simp: backward_start_def bind_eq_Some_conv)
  note f' = node_find_local [OF f assms(2,3), where g = g]
  then have a: "a \<in> S" using pop_back_in [OF p] by simp
  show ?thesis
  proof (cases "(n_status n = FREE \<or> n_status n = READ_LOCK \<and> is_read) \<and> ts_end < n_end n")
    case True
    with assms(1) f p n obtain h1 n1 where c: "cut_after (h, next) a ts_end = Some ((h', n'), root')"
      and f2: "node_find h' root' [] ts_end = Some locks"
      by (auto simp: backward_start_def bind_eq_Some_conv)
    note 1 = cut_after_local [OF c assms(2) a, where g = g]
    then have k: "linked h' (grow S next n')" "root' \<in> grow S next n'" by (simp_all add: grown_def)
    from node_find_local [OF f2 k, where g = g] 1 True f' p n a show ?thesis
      by (simp add: backward_start_def glue_st_def)
  next
    case False
    with assms(1) f p n have "h' = h" "n' = next" "root' = root" "locks = ls"
      by (auto simp: backward_start_def)
    with False assms(2,3) f' p n a grown_start [OF assms(2,3), of "next"] show ?thesis
      by (simp add: backward_start_def del: de_Morgan_conj)
  qed
qed

section \<open>The data of one key\<close>

text \<open>
  The state with the tree and the events of one key from \<open>m\<close> and everything else, but for the
  allocation pointer, from another state.
\<close>

definition glue_key :: "addr set \<Rightarrow> u64 \<Rightarrow> lock_manager \<Rightarrow> lock_manager \<Rightarrow> lock_manager" where
  "glue_key S key m m2 =
     m2\<lparr>lm_heap := glue S (lm_heap m) (lm_heap m2), lm_next := lm_next m,
       lm_keys := (lm_keys m2)(key := lm_keys m key)\<rparr>"

lemma glue_key_simps [simp]:
  "lm_heap (glue_key S key m m2) = glue S (lm_heap m) (lm_heap m2)" "lm_next (glue_key S key m m2) = lm_next m"
  "lm_keys (glue_key S key m m2) key = lm_keys m key" "lm_trans (glue_key S key m m2) = lm_trans m2"
  "k \<noteq> key \<Longrightarrow> lm_keys (glue_key S key m m2) k = lm_keys m2 k"
  by (simp_all add: glue_key_def)

lemma glue_key_eqI:
  "lm_heap m1 = glue S (lm_heap m) (lm_heap m2) \<Longrightarrow> lm_next m1 = lm_next m \<Longrightarrow> lm_keys m1 key = lm_keys m key \<Longrightarrow>
   (\<And>k. k \<noteq> key \<Longrightarrow> lm_keys m1 k = lm_keys m2 k) \<Longrightarrow> lm_trans m1 = lm_trans m2 \<Longrightarrow> m1 = glue_key S key m m2"
  by (rule lock_manager.equality) (auto simp: glue_key_def)

lemma glue_key_self [simp]: "glue_key S key m m = m"
  by (simp add: glue_key_def)

text \<open>What an operation on a key comes to, from a state whose tree for the key is in \<open>S\<close>.\<close>

definition key_local :: "addr set \<Rightarrow> u64 \<Rightarrow> (lock_manager \<Rightarrow> (lock_manager \<times> 'a) option) \<Rightarrow> lock_manager \<Rightarrow> lock_manager \<times> 'a \<Rightarrow> bool" where
  "key_local S key F m r \<longleftrightarrow> lm_next m \<le> lm_next (fst r) \<and> linked (lm_heap (fst r)) (grow S (lm_next m) (lm_next (fst r)))
     \<and> (\<forall>m2. F (glue_key S key m m2) = Some (glue_key (grow S (lm_next m) (lm_next (fst r))) key (fst r) m2, snd r))"

lemma glue_key_addEvent: "glue_key S key (addEvent m key ts ev) m2 = addEvent (glue_key S key m m2) key ts ev"
  by (rule glue_key_eqI [symmetric]) (simp_all add: addEvent_def Let_def split: option.split)

lemma addEvent_heap [simp]: "lm_heap (addEvent m key ts ev) = lm_heap m" "lm_next (addEvent m key ts ev) = lm_next m"
  by (simp_all add: addEvent_def Let_def split: option.split)

lemma glue_key_heap:
  "a \<in> S \<Longrightarrow> (glue_key S key m m2)\<lparr>lm_heap := (glue S (lm_heap m) (lm_heap m2))(a \<mapsto> n)\<rparr>
     = glue_key S key (m\<lparr>lm_heap := (lm_heap m)(a \<mapsto> n)\<rparr>) m2"
  by (rule glue_key_eqI) simp_all

lemma visit_pointers [simp]:
  "pointers (fst (backward_visit is_read tid cur_ts n)) = pointers n"
  "pointers (fst (freeze_visit tid es n)) = pointers n" "pointers (fst (unlock_visit tid es n)) = pointers n"
  by (simp_all add: backward_visit_def freeze_visit_def unlock_visit_def split: lock_status.split)

lemma back_round_local:
  assumes "back_round key tid is_read event m locks cur_ts = Some s" "linked (lm_heap m) S" "set locks \<subseteq> S"
  shows "case s of
      Inl (m1, ls, ts) \<Rightarrow> lm_next m1 = lm_next m \<and> linked (lm_heap m1) S \<and> set ls \<subseteq> S
        \<and> back_round key tid is_read event (glue_key S key m m2) locks cur_ts = Some (Inl (glue_key S key m1 m2, ls, ts))
    | Inr (m1, r) \<Rightarrow> lm_next m1 = lm_next m \<and> linked (lm_heap m1) S
        \<and> back_round key tid is_read event (glue_key S key m m2) locks cur_ts = Some (Inr (glue_key S key m1 m2, r))"
proof (cases "locks = []")
  case True
  with assms show ?thesis by (auto simp: back_round_def)
next
  case False
  with assms(1) obtain a rest n where p: "pop_back locks = Some (a, rest)" and n: "lm_heap m a = Some n"
    by (auto simp: back_round_def bind_eq_Some_conv)
  note s = pop_back_in [OF p assms(3)]
  show ?thesis
  proof (cases "cur_ts < n_start n \<or> cur_ts > n_end n")
    case True
    with assms(1,2) False p n s show ?thesis by (auto simp: back_round_def)
  next
    case in_node: False
    obtain n' ts blocked where v: "backward_visit is_read tid cur_ts n = (n', ts, blocked)" by (cases "backward_visit is_read tid cur_ts n")
    define m1 where "m1 = (let m1 = m\<lparr>lm_heap := (lm_heap m)(a \<mapsto> n')\<rparr> in if blocked then addEvent m1 key (n_end n) event else m1)"
    have "pointers n' = pointers n" using visit_pointers(1) [of is_read tid cur_ts n] v by simp
    then have "pointers n' \<subseteq> S" using assms(2) s n by (auto simp: linked_def)
    then have k: "linked (lm_heap m1) S" "lm_next m1 = lm_next m"
      using linked_node [OF assms(2)] by (simp_all add: m1_def Let_def)
    have g: "(let m1 = (glue_key S key m m2)\<lparr>lm_heap := (glue S (lm_heap m) (lm_heap m2))(a \<mapsto> n')\<rparr>
        in if blocked then addEvent m1 key (n_end n) event else m1) = glue_key S key m1 m2"
      using s by (simp add: m1_def Let_def glue_key_heap glue_key_addEvent del: glue_upd)
    note b = assms(1) [unfolded back_round_def]
    show ?thesis
    proof (cases "ts \<noteq> n_start n - 1")
      case True
      with b False p n in_node v have "s = Inr (m1, ts, \<not> blocked, False, True)"
        by (simp add: m1_def Let_def)
      with True False p n in_node v s k g show ?thesis by (simp add: back_round_def Let_def)
    next
      case go_on: False
      with b False p n in_node v obtain ls where f: "node_find (lm_heap m1) a rest ts = Some ls" and sl: "s = Inl (m1, ls, ts)"
        by (auto simp: m1_def Let_def bind_eq_Some_conv split: if_splits)
      from node_find_local [OF f k(1) conjunct1 [OF s] conjunct2 [OF s]] have
        f': "node_find (glue S (lm_heap m1) (lm_heap m2)) a rest ts = Some ls" "set ls \<subseteq> S" by blast+
      have "lm_heap (glue_key S key m1 m2) = glue S (lm_heap m1) (lm_heap m2)" by simp
      with go_on False p n in_node v s k g f' sl show ?thesis by (simp add: back_round_def Let_def)
    qed
  qed
qed

lemma backward_scan_local:
  "backward_scan key tid is_read event m locks cur_ts = Some r \<Longrightarrow> linked (lm_heap m) S \<Longrightarrow> set locks \<subseteq> S \<Longrightarrow>
   lm_next (fst r) = lm_next m \<and> linked (lm_heap (fst r)) S
   \<and> backward_scan key tid is_read event (glue_key S key m m2) locks cur_ts = Some (glue_key S key (fst r) m2, snd r)"
proof (induction key tid is_read event m locks cur_ts r rule: backward_scan.raw_induct [rotated, consumes 1])
  case (1 scan key tid is_read event m locks cur_ts r)
  from 1(2) obtain s where s: "back_round key tid is_read event m locks cur_ts = Some s"
    and c: "(case s of Inl (m, locks, cur_ts) \<Rightarrow> scan key tid is_read event m locks cur_ts | Inr r \<Rightarrow> Some r) = Some r"
    by (auto simp: bind_eq_Some_conv)
  note b = back_round_local [OF s 1(3,4), where ?m2.0 = m2]
  note u = backward_scan.simps [of key tid is_read event "glue_key S key m m2" locks cur_ts]
  show ?case
  proof (cases s)
    case (Inl x)
    obtain m1 ls ts where x: "x = (m1, ls, ts)" by (cases x)
    with c Inl have l: "scan key tid is_read event m1 ls ts = Some r" by simp
    from b Inl x have b': "lm_next m1 = lm_next m" "linked (lm_heap m1) S" "set ls \<subseteq> S"
      "back_round key tid is_read event (glue_key S key m m2) locks cur_ts = Some (Inl (glue_key S key m1 m2, ls, ts))" by simp_all
    from 1(1) [OF l b'(2,3)] b' show ?thesis by (simp add: u)
  next
    case (Inr x)
    with b c show ?thesis by (cases r) (simp add: u)
  qed
qed

lemma lock_nodes_back_local:
  assumes "lock_nodes_back m key tid ts_end is_read event = Some (m', root, res)" "lm_keys m key = Some ki"
    and "linked (lm_heap m) S" "ki_root ki \<in> S"
  shows "key_local S key (\<lambda>m. lock_nodes_back m key tid ts_end is_read event) m (m', root, res)
    \<and> root \<in> grow S (lm_next m) (lm_next m')"
proof -
  from assms(1,2) obtain h n locks cur_ts r where
    b: "backward_start (lm_heap m) (lm_next m) (ki_root ki) ts_end is_read = Some (h, n, root, locks)"
    and sc: "backward_scan key tid is_read event (m\<lparr>lm_heap := h, lm_next := n\<rparr>) locks ts_end = Some (m', r)"
    and res: "res = r"
    by (auto simp: lock_nodes_back_def bind_eq_Some_conv)
  let ?S = "grow S (lm_next m) n" and ?m1 = "m\<lparr>lm_heap := h, lm_next := n\<rparr>"
  note b' = backward_start_local [OF b assms(3,4)]
  then have g: "lm_next m \<le> n" "linked (lm_heap ?m1) ?S" "root \<in> ?S" "set locks \<subseteq> ?S" by (simp_all add: grown_def)
  note s' = backward_scan_local [OF sc g(2,4)]
  have "lock_nodes_back (glue_key S key m m2) key tid ts_end is_read event = Some (glue_key ?S key m' m2, root, res)" for m2
  proof -
    have "(glue_key S key m m2)\<lparr>lm_heap := glue ?S h (lm_heap m2), lm_next := n\<rparr> = glue_key ?S key ?m1 m2"
      by (rule glue_key_eqI) simp_all
    with assms(2) b' [of "lm_heap m2"] s' [of m2] show ?thesis by (simp add: lock_nodes_back_def res split_beta)
  qed
  with s' g show ?thesis by (simp add: key_local_def)
qed

lemma lock_nodes_local:
  assumes "lock_nodes m key tid ts_start ts_end is_read = Some (m', root, res)" "lm_keys m key = Some ki"
    and "linked (lm_heap m) S" "ki_root ki \<in> S"
  shows "key_local S key (\<lambda>m. lock_nodes m key tid ts_start ts_end is_read) m (m', root, res)
    \<and> root \<in> grow S (lm_next m) (lm_next m')"
proof -
  from assms(1,2) obtain locks pend where f: "node_find (lm_heap m) (ki_root ki) [] ts_end = Some locks"
    and c: "check_loop (lm_heap m) ts_start is_read locks [] = Some pend"
    and r: "(case pend of None \<Rightarrow> Some (m, ki_root ki, False)
      | Some pend \<Rightarrow> do { ((h, next), root) \<leftarrow> lock_pendings tid ts_start ts_end is_read ((lm_heap m, lm_next m), ki_root ki) pend;
          Some (m\<lparr>lm_heap := h, lm_next := next\<rparr>, root, True) }) = Some (m', root, res)"
    by (auto simp: lock_nodes_def Let_def bind_eq_Some_conv)
  have f': "node_find (glue S (lm_heap m) g) (ki_root ki) [] ts_end = Some locks \<and> set locks \<subseteq> S" for g
    by (rule node_find_local [OF f assms(3,4)]) simp
  have c': "check_loop (glue S (lm_heap m) g) ts_start is_read locks [] = Some pend \<and> (\<forall>p. pend = Some p \<longrightarrow> set p \<subseteq> S)" for g
    by (rule check_loop_local [OF c assms(3)]) (use f' in auto)
  show ?thesis
  proof (cases pend)
    case None
    with r f' c' assms(2-4) show ?thesis by (simp add: key_local_def lock_nodes_def Let_def)
  next
    case (Some p)
    with r obtain h n where l: "lock_pendings tid ts_start ts_end is_read ((lm_heap m, lm_next m), ki_root ki) p = Some ((h, n), root)"
      and m': "m' = m\<lparr>lm_heap := h, lm_next := n\<rparr>" "res = True"
      by (auto simp: bind_eq_Some_conv)
    have p: "set p \<subseteq> S" using c' Some by simp
    note l' = lock_pendings_local [OF l assms(3,4) p]
    let ?S = "grow S (lm_next m) n"
    have "lock_nodes (glue_key S key m m2) key tid ts_start ts_end is_read = Some (glue_key ?S key m' m2, root, res)" for m2
    proof -
      have "(glue_key S key m m2)\<lparr>lm_heap := glue ?S h (lm_heap m2), lm_next := n\<rparr> = glue_key ?S key m' m2"
        by (rule glue_key_eqI) (simp_all add: m')
      with assms(2) f' c' l' [of "lm_heap m2"] Some m'(2) show ?thesis by (simp add: lock_nodes_def glue_st_def Let_def)
    qed
    with l' show ?thesis by (simp add: key_local_def grown_def m')
  qed
qed

lemma release_nodes_local:
  assumes "release_nodes frz m tid key ts_start ts_end events = Some (m', events')" "lm_keys m key = Some ki"
    and "linked (lm_heap m) S" "ki_root ki \<in> S"
  shows "key_local S key (\<lambda>m. release_nodes frz m tid key ts_start ts_end events) m (m', events')"
proof -
  let ?visit = "(if frz then freeze_visit tid else unlock_visit tid) (ki_events ki)"
  from assms(1,2) obtain locks h where f: "node_find (lm_heap m) (ki_root ki) [] ts_end = Some locks"
    and l: "interval_loop ?visit ts_start (lm_heap m) locks ts_end events = Some (h, events')" and m': "m' = m\<lparr>lm_heap := h\<rparr>"
    by (auto simp: release_nodes_def bind_eq_Some_conv)
  have f': "node_find (glue S (lm_heap m) g) (ki_root ki) [] ts_end = Some locks \<and> set locks \<subseteq> S" for g
    by (rule node_find_local [OF f assms(3,4)]) simp
  have l': "linked h S \<and> interval_loop ?visit ts_start (glue S (lm_heap m) g) locks ts_end events = Some (glue S h g, events')" for g
    using interval_loop_local [OF l assms(3), of g] f' by simp
  have "release_nodes frz (glue_key S key m m2) tid key ts_start ts_end events = Some (glue_key S key m' m2, events')" for m2
  proof -
    have "(glue_key S key m m2)\<lparr>lm_heap := glue S h (lm_heap m2)\<rparr> = glue_key S key m' m2"
      by (rule glue_key_eqI) (simp_all add: m')
    with assms(2) f' l' [of "lm_heap m2"] show ?thesis by (simp add: release_nodes_def)
  qed
  with l' show ?thesis by (simp add: key_local_def m')
qed

text \<open>Storing a root, and creating a key, for which the nodes are all new.\<close>

lemma set_root_local:
  "set_root m key root = Some m' \<Longrightarrow> linked (lm_heap m) S \<Longrightarrow>
   key_local S key (\<lambda>m. map_option (\<lambda>m. (m, ())) (set_root m key root)) m (m', ())"
  by (auto simp: set_root_def key_local_def bind_eq_Some_conv intro!: glue_key_eqI)

lemma createKeyInfo_local:
  assumes "createKeyInfo m key = Some m'" "linked (lm_heap m) S" "\<And>ki. lm_keys m key = Some ki \<Longrightarrow> ki_root ki \<in> S"
  shows "key_local S key (\<lambda>m. map_option (\<lambda>m. (m, ())) (createKeyInfo m key)) m (m', ())
    \<and> (\<forall>ki. lm_keys m' key = Some ki \<longrightarrow> ki_root ki \<in> grow S (lm_next m) (lm_next m'))"
proof (cases "lm_keys m key")
  case None
  let ?n = "lm_next m"
  let ?h = "\<lambda>h. h(?n \<mapsto> new_node\<lparr>n_status := FREEZE_WRITE_LOCK, n_end := 0\<rparr>, Suc ?n \<mapsto> new_node\<lparr>n_start := 1\<rparr>)"
  let ?S = "grow S ?n (Suc (Suc ?n))"
  from assms(1) None obtain h root where i: "node_insert (?h (lm_heap m)) ?n (Suc ?n) = Some (h, root)"
    and m': "m' = m\<lparr>lm_heap := h, lm_next := Suc (Suc ?n), lm_keys := (lm_keys m)(key \<mapsto> \<lparr>ki_events = Map.empty, ki_root = root\<rparr>)\<rparr>"
    by (auto simp: createKeyInfo_def Let_def bind_eq_Some_conv)
  have S: "?S = insert (Suc ?n) (insert ?n S)" by (auto simp: grow_def)
  have "linked (?h (lm_heap m)) ?S"
    unfolding S by (intro linked_insert assms(2)) (simp_all add: pointers_def new_node_def)
  from node_insert_local [OF i this] have i': "linked h ?S \<and> root \<in> ?S
      \<and> node_insert (glue ?S (?h (lm_heap m)) g) ?n (Suc ?n) = Some (glue ?S h g, root)" for g
    by (simp add: S del: fun_upd_apply)
  have "createKeyInfo (glue_key S key m m2) key = Some (glue_key ?S key m' m2)" for m2
  proof -
    have "?h (glue S (lm_heap m) (lm_heap m2)) = glue ?S (?h (lm_heap m)) (lm_heap m2)"
      by (simp add: S glue_insert insert_commute del: fun_upd_apply)
    with i' [of "lm_heap m2"] have "node_insert (?h (glue S (lm_heap m) (lm_heap m2))) ?n (Suc ?n) = Some (glue ?S h (lm_heap m2), root)"
      by simp
    then show ?thesis
      using None by (auto simp: createKeyInfo_def Let_def m' intro!: glue_key_eqI)
  qed
  with i' show ?thesis by (simp add: key_local_def m')
next
  case (Some ki)
  with assms show ?thesis by (auto simp: createKeyInfo_def key_local_def)
qed


end
