(* ===== verification/Lock_Separate.thy ===== *)
theory Lock_Separate
  imports Lock_Guards Lock_Local
begin

text \<open>
  The nodes of the trees are shared data too.  Trees of different keys have no node in common,
  whatever the threads do, so the mutex of a key protects its tree; and the places that a task is
  said to access are all that it depends on and all that it changes.
\<close>

section \<open>The tree of a key\<close>

text \<open>The nodes that the pointers lead to from the root of a key.\<close>

inductive tree_node :: "lock_manager \<Rightarrow> u64 \<Rightarrow> addr \<Rightarrow> bool" for m key where
  tree_root: "lm_keys m key = Some ki \<Longrightarrow> tree_node m key (ki_root ki)"
| tree_link: "tree_node m key a \<Longrightarrow> lm_heap m a = Some n \<Longrightarrow> b \<in> pointers n \<Longrightarrow> tree_node m key b"

definition separate :: "lock_manager \<Rightarrow> bool" where
  "separate m \<longleftrightarrow> (\<forall>k k' a. tree_node m k a \<longrightarrow> a < lm_next m \<and> (tree_node m k' a \<longrightarrow> k' = k))"

lemma separate_init: "separate lm_init"
proof -
  have "\<not> tree_node lm_init k a" for k a
  proof
    assume "tree_node lm_init k a"
    then show False by induction (simp_all add: lm_init_def)
  qed
  then show ?thesis by (simp add: separate_def)
qed

lemma tree_linked: "linked (lm_heap m) {a. tree_node m key a}"
  by (auto simp: linked_def intro: tree_link)

text \<open>Sets of nodes for the keys that no pointer leads out of.\<close>

definition owns :: "(u64 \<Rightarrow> addr set) \<Rightarrow> lock_manager \<Rightarrow> bool" where
  "owns F m \<longleftrightarrow> (\<forall>k. linked (lm_heap m) (F k) \<and> F k \<subseteq> {..<lm_next m}) \<and> (\<forall>k k'. k \<noteq> k' \<longrightarrow> F k \<inter> F k' = {})
     \<and> (\<forall>k ki. lm_keys m k = Some ki \<longrightarrow> ki_root ki \<in> F k)"

lemma separate_owns: "separate m \<Longrightarrow> owns (\<lambda>k. {a. tree_node m k a}) m"
  by (auto simp: owns_def separate_def tree_linked intro: tree_root)

lemma owns_tree:
  assumes "owns F m"
  shows "tree_node m k a \<Longrightarrow> a \<in> F k"
proof (induction rule: tree_node.induct)
  case (tree_root ki)
  with assms show ?case by (simp add: owns_def)
next
  case (tree_link a n b)
  have "linked (lm_heap m) (F k)" using assms by (simp add: owns_def)
  with tree_link show ?case by (auto simp: linked_def)
qed

lemma owns_trans [simp]: "owns F (m\<lparr>lm_trans := tr\<rparr>) = owns F m"
  by (simp add: owns_def)

section \<open>Tasks stay in the tree of their key\<close>

text \<open>An operation on a key changes the nodes of the key and new ones.\<close>

lemma key_local_result:
  assumes "key_local S key f m (m', r)" "f m = Some (m', r)"
  shows "m' = glue_key (grow S (lm_next m) (lm_next m')) key m' m"
proof -
  from assms(1) have "f (glue_key S key m m) = Some (glue_key (grow S (lm_next m) (lm_next m')) key m' m, r)"
    unfolding key_local_def fst_conv snd_conv by blast
  with assms(2) show ?thesis by simp
qed

lemma owns_key_step:
  assumes "owns F m" "key_local (F key) key f m (m', r)" "f m = Some (m', r)"
    and root: "\<And>ki. lm_keys m' key = Some ki \<Longrightarrow> ki_root ki \<in> grow (F key) (lm_next m) (lm_next m')"
  shows "owns (F(key := grow (F key) (lm_next m) (lm_next m'))) m'"
    "k \<noteq> key \<Longrightarrow> a \<in> F k \<Longrightarrow> lm_heap m' a = lm_heap m a"
proof -
  let ?S = "grow (F key) (lm_next m) (lm_next m')"
  note e = key_local_result [OF assms(2,3)]
  have keys: "lm_keys m' k = lm_keys m k" if "k \<noteq> key" for k
    using arg_cong [OF e, of "\<lambda>m. lm_keys m k"] that by simp
  have apart: "a \<notin> ?S" if "k \<noteq> key" "a \<in> F k" for k a
  proof -
    have "a < lm_next m" "a \<notin> F key" using assms(1) that unfolding owns_def by (auto simp: disjoint_iff)
    then show ?thesis by (simp add: grow_def)
  qed
  show heap: "lm_heap m' a = lm_heap m a" if "k \<noteq> key" "a \<in> F k" for k a
  proof -
    have "lm_heap m' a = glue ?S (lm_heap m') (lm_heap m) a" using arg_cong [OF e, of "\<lambda>m. lm_heap m a"] by simp
    with glue_out [OF apart [OF that]] show ?thesis by simp
  qed
  have n: "lm_next m \<le> lm_next m'" "linked (lm_heap m') ?S" using assms(2) by (simp_all add: key_local_def)
  have F: "linked (lm_heap m) (F k)" "F k \<subseteq> {..<lm_next m}" for k using assms(1) by (simp_all add: owns_def)
  have linked: "linked (lm_heap m') ((F(key := ?S)) k)" for k
    using n(2) linked_other [OF F(1) heap [of k]] by (cases "k = key") simp_all
  have "F k \<subseteq> {..<lm_next m'}" for k using F(2) [of k] n(1) by auto
  then have below: "(F(key := ?S)) k \<subseteq> {..<lm_next m'}" for k by (auto simp: grow_def)
  have S: "?S \<inter> F k = {}" if "k \<noteq> key" for k using apart [OF that] by blast
  have "F k \<inter> F k' = {}" if "k \<noteq> k'" for k k' using assms(1) that by (simp add: owns_def)
  with S have disj: "(F(key := ?S)) k \<inter> (F(key := ?S)) k' = {}" if "k \<noteq> k'" for k k'
    using that by (cases "k = key"; cases "k' = key") (simp_all add: Int_commute)
  have "ki_root ki \<in> F k" if "k \<noteq> key" "lm_keys m' k = Some ki" for k ki
    using that keys [OF that(1)] assms(1) by (simp add: owns_def)
  then have "ki_root ki \<in> (F(key := ?S)) k" if "lm_keys m' k = Some ki" for k ki
    using root that by (cases "k = key") simp_all
  with linked below disj show "owns (F(key := ?S)) m'" unfolding owns_def by blast
qed

definition roots_in :: "(u64 \<Rightarrow> addr set) \<Rightarrow> lock_task list \<Rightarrow> bool" where
  "roots_in F ts \<longleftrightarrow> (\<forall>key root. Store_root key root \<in> set ts \<longrightarrow> root \<in> F key)"

lemma roots_in_mono: "roots_in F ts \<Longrightarrow> (\<And>k. F k \<subseteq> F' k) \<Longrightarrow> roots_in F' ts"
  by (auto simp: roots_in_def)

text \<open>What a task leads to: more nodes for its key, and the others left alone.\<close>

definition stays :: "(u64 \<Rightarrow> addr set) \<Rightarrow> lock_manager \<Rightarrow> lock_task \<Rightarrow> lock_manager \<Rightarrow> lock_task list \<Rightarrow> bool" where
  "stays F m t m1 new \<longleftrightarrow>
    (\<exists>F'. owns F' m1 \<and> (\<forall>k. F k \<subseteq> F' k) \<and> roots_in F' new)
    \<and> (\<forall>k. (Key_data k, True) \<notin> accesses t \<longrightarrow> (\<forall>a\<in>F k. lm_heap m1 a = lm_heap m a))"

lemma stays_key:
  assumes "owns F m" "key_local (F key) key f m (m1, r)" "f m = Some (m1, r)"
    and "\<And>ki. lm_keys m1 key = Some ki \<Longrightarrow> ki_root ki \<in> grow (F key) (lm_next m) (lm_next m1)"
    and "(Key_data key, True) \<in> accesses t" "roots_in (F(key := grow (F key) (lm_next m) (lm_next m1))) new"
  shows "stays F m t m1 new"
proof -
  have "(Key_data k, True) \<notin> accesses t \<longrightarrow> (\<forall>a\<in>F k. lm_heap m1 a = lm_heap m a)" for k
    using owns_key_step(2) [OF assms(1-4), of k] assms(5) by (cases "k = key") auto
  moreover have "F k \<subseteq> (F(key := grow (F key) (lm_next m) (lm_next m1))) k" for k
    using grow_mono by (simp add: fun_upd_def)
  ultimately show ?thesis
    unfolding stays_def using owns_key_step(1) [OF assms(1-4)] assms(6) by blast
qed

lemma stays_same:
  "owns F m \<Longrightarrow> lm_heap m1 = lm_heap m \<Longrightarrow> lm_next m1 = lm_next m \<Longrightarrow> lm_keys m1 = lm_keys m \<Longrightarrow> roots_in F new \<Longrightarrow>
   stays F m t m1 new"
  unfolding stays_def owns_def by auto

lemma roots_new [simp]:
  "roots_in F []" "roots_in F (leave_key key out)" "roots_in F (note_tasks tid key start end_ts)"
  "roots_in F (ts @ us) \<longleftrightarrow> roots_in F ts \<and> roots_in F us"
  by (auto simp: roots_in_def leave_key_def note_tasks_def)

lemma roots_Cons [simp]: "roots_in F (t # ts) \<longleftrightarrow> (\<forall>key root. t = Store_root key root \<longrightarrow> root \<in> F key) \<and> roots_in F ts"
  by (auto simp: roots_in_def)

text \<open>The scan of \<open>tryBackwardLock\<close> adds events, but leaves the root of the key.\<close>

definition key_root :: "lock_manager \<Rightarrow> u64 \<Rightarrow> addr option" where
  "key_root m key = map_option ki_root (lm_keys m key)"

lemma addEvent_root [simp]: "key_root (addEvent m key ts ev) k = key_root m k"
  by (simp add: key_root_def addEvent_def Let_def split: option.split)

lemma key_root_heap [simp]: "key_root (m\<lparr>lm_heap := h\<rparr>) k = key_root m k"
  by (simp add: key_root_def)

lemma back_round_root:
  "back_round key tid is_read event m locks cur_ts = Some s \<Longrightarrow>
   key_root (case s of Inl (m1, ls, ts) \<Rightarrow> m1 | Inr (m1, r) \<Rightarrow> m1) k = key_root m k"
  by (auto simp: back_round_def Let_def bind_eq_Some_conv split: if_splits prod.splits)

lemma backward_scan_root:
  "backward_scan key tid is_read event m locks cur_ts = Some r \<Longrightarrow> key_root (fst r) k = key_root m k"
proof (induction key tid is_read event m locks cur_ts r rule: backward_scan.raw_induct [rotated, consumes 1])
  case (1 scan key tid is_read event m locks cur_ts r)
  from 1(2) obtain s where s: "back_round key tid is_read event m locks cur_ts = Some s"
    and c: "(case s of Inl (m, locks, cur_ts) \<Rightarrow> scan key tid is_read event m locks cur_ts | Inr r \<Rightarrow> Some r) = Some r"
    by (auto simp: bind_eq_Some_conv)
  show ?case
  proof (cases s)
    case (Inl x)
    obtain m1 ls ts where x: "x = (m1, ls, ts)" by (cases x)
    with c Inl have "scan key tid is_read event m1 ls ts = Some r" by simp
    from 1(1) [OF this] back_round_root [OF s, of k] Inl x show ?thesis by simp
  next
    case (Inr x)
    with back_round_root [OF s, of k] c show ?thesis by (cases r) simp
  qed
qed

lemma key_ops_root:
  "lock_nodes_back m key tid ts_end is_read event = Some (m1, r) \<Longrightarrow> key_root m1 k = key_root m k"
  "lock_nodes m key tid ts_start ts_end is_read = Some (m1, q) \<Longrightarrow> key_root m1 k = key_root m k"
  "release_nodes frz m tid key ts_start ts_end events = Some (m1, es) \<Longrightarrow> key_root m1 k = key_root m k"
  by (fastforce simp: lock_nodes_back_def key_root_def bind_eq_Some_conv dest: backward_scan_root [where k = k])
    (auto simp: lock_nodes_def release_nodes_def key_root_def Let_def bind_eq_Some_conv split: option.splits)

lemma root_grown:
  assumes "owns F m" "key_root m1 key = key_root m key" "lm_keys m1 key = Some ki"
  shows "ki_root ki \<in> grow (F key) n n'"
proof -
  from assms(2,3) obtain ki0 where "lm_keys m key = Some ki0" "ki_root ki = ki_root ki0"
    by (cases "lm_keys m key") (simp_all add: key_root_def)
  with assms(1) have "ki_root ki \<in> F key" by (simp add: owns_def)
  then show ?thesis using grow_mono by blast
qed

lemma owns_key: "owns F m \<Longrightarrow> lm_keys m k = Some ki \<Longrightarrow> linked (lm_heap m) (F k) \<and> ki_root ki \<in> F k"
  by (simp add: owns_def)

lemma task_stays:
  assumes "owns F m" "lock_task_step m t = Some (m1, new)" "roots_in F [t]"
  shows "stays F m t m1 new"
proof (cases t)
  case (Create_key key)
  with assms(2) have c: "createKeyInfo m key = Some m1" "new = []" by (auto simp: lock_task_step_def bind_eq_Some_conv)
  have k: "linked (lm_heap m) (F key)" "\<And>ki. lm_keys m key = Some ki \<Longrightarrow> ki_root ki \<in> F key"
    using assms(1) by (simp_all add: owns_def)
  note o = createKeyInfo_local [OF c(1) k]
  show ?thesis
    by (rule stays_key [OF assms(1) conjunct1 [OF o]]) (use conjunct2 [OF o] in \<open>simp_all add: c Create_key accesses_def\<close>)
next
  case (Lock_nodes key tid ts_start ts_end is_read)
  with assms(2) obtain root granted where l: "lock_nodes m key tid ts_start ts_end is_read = Some (m1, root, granted)"
    and new: "new = (if granted then note_tasks tid key ts_start ts_end else []) @ Store_root key root # leave_key key (Granted granted)"
    by (auto simp: lock_task_step_def bind_eq_Some_conv)
  from l obtain ki where ki: "lm_keys m key = Some ki" by (auto simp: lock_nodes_def bind_eq_Some_conv)
  note o = lock_nodes_local [OF l ki conjunct1 [OF owns_key [OF assms(1) ki]] conjunct2 [OF owns_key [OF assms(1) ki]]]
  show ?thesis
    by (rule stays_key [OF assms(1) conjunct1 [OF o] l root_grown [OF assms(1) key_ops_root(2) [OF l]]])
      (use conjunct2 [OF o] in \<open>simp_all add: Lock_nodes accesses_def new\<close>)
next
  case (Lock_nodes_back key tid ts_end is_read event ts_start)
  with assms(2) obtain root cur_ts res failed call where
    l: "lock_nodes_back m key tid ts_end is_read event = Some (m1, root, cur_ts, res, failed, call)"
    and new: "new = (if failed then leave_key key (Granted_from False ts_start)
      else (if call then note_tasks tid key (cur_ts + 1) ts_end else [])
        @ Store_root key root # leave_key key (Granted_from res (cur_ts + 1)))"
    by (auto simp: lock_task_step_def bind_eq_Some_conv)
  from l obtain ki where ki: "lm_keys m key = Some ki" by (auto simp: lock_nodes_back_def bind_eq_Some_conv)
  note o = lock_nodes_back_local [OF l ki conjunct1 [OF owns_key [OF assms(1) ki]] conjunct2 [OF owns_key [OF assms(1) ki]]]
  show ?thesis
    by (rule stays_key [OF assms(1) conjunct1 [OF o] l root_grown [OF assms(1) key_ops_root(1) [OF l]]])
      (use conjunct2 [OF o] in \<open>simp_all add: Lock_nodes_back accesses_def new\<close>)
next
  case (Store_root key root)
  with assms(2) have c: "set_root m key root = Some m1" "new = []" by (auto simp: lock_task_step_def bind_eq_Some_conv)
  then have "lm_keys m1 key = Some ki \<Longrightarrow> ki_root ki = root" for ki by (auto simp: set_root_def bind_eq_Some_conv)
  moreover have "linked (lm_heap m) (F key)" using assms(1) by (simp add: owns_def)
  moreover have "root \<in> F key" using assms(3) Store_root by simp
  ultimately show ?thesis
    using grow_mono [of "F key" "lm_next m" "lm_next m1"]
    by (intro stays_key [OF assms(1) set_root_local [OF c(1)]]) (auto simp: c Store_root accesses_def)
next
  case (Release_nodes frz tid key ts_start ts_end ivs events)
  with assms(2) obtain events' where l: "release_nodes frz m tid key ts_start ts_end events = Some (m1, events')"
    and new: "new = [Give (Key_mutex key) Exclusive, Give Key_map Shared, Release_keys frz tid ivs events']"
    by (auto simp: lock_task_step_def bind_eq_Some_conv)
  from l obtain ki where ki: "lm_keys m key = Some ki" by (auto simp: release_nodes_def bind_eq_Some_conv)
  note o = release_nodes_local [OF l ki conjunct1 [OF owns_key [OF assms(1) ki]] conjunct2 [OF owns_key [OF assms(1) ki]]]
  show ?thesis
    by (rule stays_key [OF assms(1) o l root_grown [OF assms(1) key_ops_root(3) [OF l]]])
      (simp_all add: Release_nodes accesses_def new)
next
  case (Release_keys frz tid ivs events)
  with assms show ?thesis by (cases ivs) (auto simp: lock_task_step_def intro!: stays_same)
next
  case (Note_lock tid key start end_ts)
  with assms(2) have "m1 = addTransactionLock m tid key start end_ts" "new = []"
    by (simp_all add: lock_task_step_def split: if_splits)
  moreover have "lm_heap (addTransactionLock m tid key start end_ts) = lm_heap m \<and>
      lm_next (addTransactionLock m tid key start end_ts) = lm_next m \<and> lm_keys (addTransactionLock m tid key start end_ts) = lm_keys m"
    by (simp add: addTransactionLock_def createTransactionInfo_def Let_def split: option.split)
  ultimately show ?thesis using assms(1) by (intro stays_same) simp_all
qed (use assms in \<open>auto simp: lock_task_step_def createTransactionInfo_def deleteTransactionInfo_def bind_eq_Some_conv
      split: if_splits option.splits intro!: stays_same\<close>)
section \<open>What a task depends on\<close>

text \<open>
  A place in two states: the keys that are there; the tree, the events and the root of a key; the
  transactions that are there; the intervals of a transaction.
\<close>

definition same_place :: "place \<Rightarrow> lock_manager \<Rightarrow> lock_manager \<Rightarrow> bool" where
  "same_place p m m1 \<longleftrightarrow>
    (case p of
       Keys \<Rightarrow> (\<forall>k. lm_keys m1 k = None \<longleftrightarrow> lm_keys m k = None)
     | Key_data key \<Rightarrow> lm_keys m1 key = lm_keys m key \<and> (\<forall>a. tree_node m key a \<longrightarrow> lm_heap m1 a = lm_heap m a)
     | Transactions \<Rightarrow> (\<forall>k. lm_trans m1 k = None \<longleftrightarrow> lm_trans m k = None)
     | Intervals tid \<Rightarrow> lm_trans m1 tid = lm_trans m tid)"

definition same_for :: "lock_task \<Rightarrow> lock_manager \<Rightarrow> lock_manager \<Rightarrow> bool" where
  "same_for t m m1 \<longleftrightarrow> (\<forall>x\<in>accesses t. same_place (fst x) m m1)"

text \<open>What changes from \<open>m\<close> to \<open>m1\<close> is in \<open>m3\<close> as it is in \<open>m1\<close>.\<close>

definition same_changes :: "lock_manager \<Rightarrow> lock_manager \<Rightarrow> lock_manager \<Rightarrow> bool" where
  "same_changes m m1 m3 \<longleftrightarrow> (\<forall>a. lm_heap m1 a \<noteq> lm_heap m a \<longrightarrow> lm_heap m3 a = lm_heap m1 a)
     \<and> (\<forall>k. lm_keys m1 k \<noteq> lm_keys m k \<longrightarrow> lm_keys m3 k = lm_keys m1 k)
     \<and> (\<forall>k. lm_trans m1 k \<noteq> lm_trans m k \<longrightarrow> lm_trans m3 k = lm_trans m1 k)"

lemma same_changes_none [simp]: "same_changes m m m3"
  by (simp add: same_changes_def)

lemma key_depends:
  assumes "key_local {a. tree_node m key a} key f m (m1, r)" "f m = Some (m1, r)"
    and "same_place (Key_data key) m m2" "lm_next m2 = lm_next m"
  shows "\<exists>m3. f m2 = Some (m3, r) \<and> same_changes m m1 m3"
proof -
  let ?T = "{a. tree_node m key a}"
  let ?S = "grow ?T (lm_next m) (lm_next m1)"
  let ?m3 = "glue_key ?S key m1 m2"
  note e = key_local_result [OF assms(1,2)]
  have "m2 = glue_key ?T key m m2"
    by (rule glue_key_eqI) (use assms(3,4) in \<open>auto simp: same_place_def glue_def\<close>)
  moreover have "f (glue_key ?T key m m2) = Some (?m3, r)" using assms(1) unfolding key_local_def fst_conv snd_conv by blast
  ultimately have "f m2 = Some (?m3, r)" by simp
  moreover have "same_changes m m1 ?m3"
    unfolding same_changes_def
  proof (intro conjI allI impI)
    fix a assume "lm_heap m1 a \<noteq> lm_heap m a"
    moreover have "lm_heap m1 a = glue ?S (lm_heap m1) (lm_heap m) a" using arg_cong [OF e, of "\<lambda>m. lm_heap m a"] by simp
    ultimately have "a \<in> ?S" using glue_out by metis
    then show "lm_heap ?m3 a = lm_heap m1 a" by simp
  next
    fix k assume "lm_keys m1 k \<noteq> lm_keys m k"
    then have "k = key" using arg_cong [OF e, of "\<lambda>m. lm_keys m k"] by (cases "k = key") simp_all
    then show "lm_keys ?m3 k = lm_keys m1 k" by simp
  next
    fix k assume "lm_trans m1 k \<noteq> lm_trans m k"
    moreover have "lm_trans m1 k = lm_trans m k" using arg_cong [OF e, of "\<lambda>m. lm_trans m k"] by simp
    ultimately show "lm_trans ?m3 k = lm_trans m1 k" by simp
  qed
  ultimately show ?thesis by blast
qed

lemma own_tree: "lm_keys m key = Some ki \<Longrightarrow> ki_root ki \<in> {a. tree_node m key a}"
  by (simp add: tree_root)

lemma addTransactionLock_depends:
  assumes "lm_trans m tid \<noteq> None" "lm_trans m2 tid = lm_trans m tid"
  shows "same_changes m (addTransactionLock m tid key start end_ts) (addTransactionLock m2 tid key start end_ts)"
proof -
  obtain ivs where "lm_trans m tid = Some ivs" using assms(1) by blast
  with assms(2) show ?thesis by (simp add: addTransactionLock_def same_changes_def Let_def)
qed

lemma task_depends:
  assumes "lock_task_step m u = Some (m1, new)" "same_for u m m2" "lm_next m2 = lm_next m"
  shows "\<exists>m3. lock_task_step m2 u = Some (m3, new) \<and> same_changes m m1 m3"
proof (cases u)
  case (Create_key key)
  with assms(1) have c: "createKeyInfo m key = Some m1" "new = []" by (auto simp: lock_task_step_def bind_eq_Some_conv)
  have p: "same_place (Key_data key) m m2" using assms(2) Create_key by (auto simp: same_for_def accesses_def)
  have "\<exists>m3. map_option (\<lambda>m. (m, ())) (createKeyInfo m2 key) = Some (m3, ()) \<and> same_changes m m1 m3"
    by (rule key_depends [OF conjunct1 [OF createKeyInfo_local [OF c(1) tree_linked own_tree]] _ p assms(3)]) (simp_all add: c)
  then show ?thesis by (auto simp: Create_key lock_task_step_def c)
next
  case (Lock_nodes key tid ts_start ts_end is_read)
  with assms(1) obtain root granted where l: "lock_nodes m key tid ts_start ts_end is_read = Some (m1, root, granted)"
    and new: "new = (if granted then note_tasks tid key ts_start ts_end else []) @ Store_root key root # leave_key key (Granted granted)"
    by (auto simp: lock_task_step_def bind_eq_Some_conv)
  from l obtain ki where ki: "lm_keys m key = Some ki" by (auto simp: lock_nodes_def bind_eq_Some_conv)
  have p: "same_place (Key_data key) m m2" using assms(2) Lock_nodes by (auto simp: same_for_def accesses_def)
  from key_depends [OF conjunct1 [OF lock_nodes_local [OF l ki tree_linked own_tree [OF ki]]] l p assms(3)] show ?thesis
    by (auto simp: Lock_nodes lock_task_step_def new)
next
  case (Lock_nodes_back key tid ts_end is_read event ts_start)
  with assms(1) obtain root cur_ts res failed call where
    l: "lock_nodes_back m key tid ts_end is_read event = Some (m1, root, cur_ts, res, failed, call)"
    and new: "new = (if failed then leave_key key (Granted_from False ts_start)
      else (if call then note_tasks tid key (cur_ts + 1) ts_end else [])
        @ Store_root key root # leave_key key (Granted_from res (cur_ts + 1)))"
    by (auto simp: lock_task_step_def bind_eq_Some_conv)
  from l obtain ki where ki: "lm_keys m key = Some ki" by (auto simp: lock_nodes_back_def bind_eq_Some_conv)
  have p: "same_place (Key_data key) m m2" using assms(2) Lock_nodes_back by (auto simp: same_for_def accesses_def)
  from key_depends [OF conjunct1 [OF lock_nodes_back_local [OF l ki tree_linked own_tree [OF ki]]] l p assms(3)] show ?thesis
    by (auto simp: Lock_nodes_back lock_task_step_def new)
next
  case (Release_nodes frz tid key ts_start ts_end ivs events)
  with assms(1) obtain events' where l: "release_nodes frz m tid key ts_start ts_end events = Some (m1, events')"
    and new: "new = [Give (Key_mutex key) Exclusive, Give Key_map Shared, Release_keys frz tid ivs events']"
    by (auto simp: lock_task_step_def bind_eq_Some_conv)
  from l obtain ki where ki: "lm_keys m key = Some ki" by (auto simp: release_nodes_def bind_eq_Some_conv)
  have p: "same_place (Key_data key) m m2" using assms(2) Release_nodes by (auto simp: same_for_def accesses_def)
  from key_depends [OF release_nodes_local [OF l ki tree_linked own_tree [OF ki]] l p assms(3)] show ?thesis
    by (auto simp: Release_nodes lock_task_step_def new)
next
  case (Store_root key root)
  with assms show ?thesis
    by (auto simp: lock_task_step_def accesses_def same_for_def same_place_def set_root_def same_changes_def bind_eq_Some_conv)
next
  case (Release_keys frz tid ivs events)
  with assms(1) show ?thesis by (cases ivs) (auto simp: lock_task_step_def)
next
  case (Note_lock tid key start end_ts)
  with assms have "lm_trans m tid \<noteq> None" "m1 = addTransactionLock m tid key start end_ts" "new = []"
    "lm_trans m2 tid = lm_trans m tid"
    by (auto simp: lock_task_step_def accesses_def same_for_def same_place_def split: if_splits)
  then show ?thesis using addTransactionLock_depends by (simp add: Note_lock lock_task_step_def)
next
  case (Create_trans tid)
  with assms have "m1 = createTransactionInfo m tid" "new = []" "lm_trans m2 tid = lm_trans m tid"
    by (auto simp: lock_task_step_def accesses_def same_for_def same_place_def)
  then show ?thesis
    by (cases "lm_trans m tid") (simp_all add: Create_trans lock_task_step_def createTransactionInfo_def same_changes_def)
next
  case (Delete_trans tid)
  with assms have "m1 = deleteTransactionInfo m tid" "new = []" "lm_trans m2 tid = lm_trans m tid"
    by (auto simp: lock_task_step_def accesses_def same_for_def same_place_def)
  then show ?thesis
    by (cases "lm_trans m tid") (simp_all add: Delete_trans lock_task_step_def deleteTransactionInfo_def same_changes_def)
next
  case (Clear_intervals tid)
  with assms have "lm_trans m tid \<noteq> None" "m1 = m\<lparr>lm_trans := (lm_trans m)(tid \<mapsto> [])\<rparr>" "new = []"
    "lm_trans m2 tid = lm_trans m tid"
    by (auto simp: lock_task_step_def accesses_def same_for_def same_place_def split: if_splits)
  then show ?thesis by (simp add: Clear_intervals lock_task_step_def same_changes_def)
next
  case (Read_intervals frz tid)
  with assms have "lm_trans m2 tid = lm_trans m tid"
    by (auto simp: accesses_def same_for_def same_place_def)
  with assms(1) show ?thesis by (auto simp: Read_intervals lock_task_step_def bind_eq_Some_conv)
next
  case (Check_key key)
  with assms(2) have "lm_keys m2 key = None \<longleftrightarrow> lm_keys m key = None" by (simp add: accesses_def same_for_def same_place_def)
  with assms(1) show ?thesis by (auto simp: Check_key lock_task_step_def simp del: not_None_eq)
next
  case (Find_key frz tid key ts_start ts_end ivs events)
  with assms(2) have "lm_keys m2 key = None \<longleftrightarrow> lm_keys m key = None" by (simp add: accesses_def same_for_def same_place_def)
  with assms(1) show ?thesis by (auto simp: Find_key lock_task_step_def simp del: not_None_eq)
next
  case (Check_trans tid)
  with assms(2) have "lm_trans m2 tid = None \<longleftrightarrow> lm_trans m tid = None" by (simp add: accesses_def same_for_def same_place_def)
  with assms(1) show ?thesis by (auto simp: Check_trans lock_task_step_def simp del: not_None_eq)
next
  case (Find_trans frz tid)
  with assms(2) have "lm_trans m2 tid = None \<longleftrightarrow> lm_trans m tid = None" by (simp add: accesses_def same_for_def same_place_def)
  with assms(1) show ?thesis by (auto simp: Find_trans lock_task_step_def simp del: not_None_eq)
qed (use assms(1) in \<open>simp_all add: lock_task_step_def\<close>)

section \<open>Data races\<close>

text \<open>The threads together: their trees are apart, and so are the roots that are yet to be stored.\<close>

definition nodes_apart :: "sync \<Rightarrow> bool" where
  "nodes_apart s \<longleftrightarrow> (\<exists>F. owns F (fst s) \<and> (\<forall>th\<in>set (snd s). roots_in F (lt_todo th)))"

lemma sync_step_apart:
  assumes "sync_step s i = Inr s'" "nodes_apart s"
  shows "nodes_apart s'"
proof (cases "i < length (snd s)")
  case True
  obtain F where F: "owns F (fst s)" "\<And>th. th \<in> set (snd s) \<Longrightarrow> roots_in F (lt_todo th)"
    using assms(2) by (auto simp: nodes_apart_def)
  from assms(1) True obtain m th where step: "thread_step (fst s) (snd s) (snd s ! i) = Inr (m, th)" and s': "s' = (m, (snd s)[i := th])"
    by (cases "thread_step (fst s) (snd s) (snd s ! i)") (auto simp: sync_step_def)
  have at: "roots_in F (lt_todo (snd s ! i))" using F(2) True by simp
  have "\<exists>F'. owns F' m \<and> (\<forall>k. F k \<subseteq> F' k) \<and> roots_in F' (lt_todo th)"
    using step
  proof (cases rule: thread_step_cases)
    case (task t ts new)
    from task_stays [OF F(1) task(3)] at task(1) obtain F' where
      F': "owns F' m" "\<And>k. F k \<subseteq> F' k" "roots_in F' new" by (auto simp: stays_def)
    have "roots_in F ts" using at task(1) by simp
    from roots_in_mono [OF this F'(2)] F' show ?thesis by (auto simp: task(4))
  qed (use F(1) at in \<open>auto intro!: exI [of _ F]\<close>)
  then obtain F' where F': "owns F' m" "\<And>k. F k \<subseteq> F' k" "roots_in F' (lt_todo th)" by blast
  have "roots_in F' (lt_todo th')" if "th' \<in> set ((snd s)[i := th])" for th'
    using that set_update_subset_insert [of "snd s" i th] F'(3) roots_in_mono [OF F(2) F'(2)] by blast
  with F'(1) show ?thesis unfolding s' nodes_apart_def by auto
qed (use assms in \<open>simp add: sync_step_def\<close>)

lemma new_apart:
  assumes "separate m"
  shows "nodes_apart (m, map new_thread opss)"
proof -
  have "Store_root key root \<notin> set (op_tasks op)" for key root op by (cases op) simp_all
  then have "roots_in F (lt_todo (new_thread ops))" for F ops by (auto simp: roots_in_def new_thread_def)
  with separate_owns [OF assms] show ?thesis by (auto simp: nodes_apart_def)
qed

lemma sync_run_apart:
  assumes "separate m" "sync_run (m, map new_thread opss) is = Inr s"
  shows "nodes_apart s"
  by (rule sync_run_induct [OF assms(2), where P = nodes_apart]) (rule new_apart [OF assms(1)], rule sync_step_apart)

lemma owns_separate:
  assumes "owns F m"
  shows "separate m"
  unfolding separate_def
proof (intro allI impI conjI)
  fix k k' a assume a: "tree_node m k a"
  show "a < lm_next m" using owns_tree [OF assms a] assms unfolding owns_def by blast
  assume "tree_node m k' a"
  with owns_tree [OF assms a] owns_tree [OF assms this] assms show "k' = k" unfolding owns_def by blast
qed

lemma sync_run_separate: "separate m \<Longrightarrow> sync_run (m, map new_thread opss) is = Inr (m', ths) \<Longrightarrow> separate m'"
  using sync_run_apart by (force simp: nodes_apart_def intro: owns_separate)

lemma step_same_place:
  assumes "nodes_apart (m, ths)" "th \<in> set ths" "lt_todo th = t # ts" "lock_task_step m t = Some (m1, new)"
    and "(p, True) \<notin> accesses t"
  shows "same_place p m m1"
proof (cases p)
  case (Key_data key)
  obtain F where F: "owns F m" "roots_in F (lt_todo th)" using assms(1,2) by (auto simp: nodes_apart_def)
  then have "stays F m t m1 new" using task_stays [OF F(1) assms(4)] assms(3) by simp
  with assms(5) Key_data owns_tree [OF F(1)] step_frame(1) [OF assms(4)] show ?thesis
    by (auto simp: stays_def same_place_def)
qed (use step_frame [OF assms(4)] step_frame_maps [OF assms(4)] assms(5) in \<open>simp_all add: same_place_def\<close>)

text \<open>
  C18: threads of the lock manager do not race.  From a state in which the trees of different
  keys have no node in common, with whatever operations and however the threads take turns, the
  trees stay apart; and when two of them are about to do something, the task of one changes nothing that the task of the
  other accesses: not the entries of the maps, not the root, the events or a node of the
  tree of a key, not the intervals of a transaction.  And what a task is said to access is all
  that it depends on: in any other state with the same there, the addresses of new nodes
  included, it leads to the same tasks and makes the same changes.
\<close>
theorem threads_do_not_race:
  assumes "separate m" "sync_run (m, map new_thread opss) is = Inr (m', ths)"
    and "i < length ths" "j < length ths" "i \<noteq> j"
    and "lt_todo (ths ! i) = t # ts" "lt_todo (ths ! j) = u # us"
  shows "separate m' \<and> \<not> race t u
    \<and> (\<forall>m1 new. lock_task_step m' t = Some (m1, new) \<longrightarrow> same_for u m' m1)
    \<and> (\<forall>m1 new m2. lock_task_step m' u = Some (m1, new) \<longrightarrow> same_for u m' m2 \<longrightarrow> lm_next m2 = lm_next m' \<longrightarrow>
         (\<exists>m3. lock_task_step m2 u = Some (m3, new) \<and> same_changes m' m1 m3))"
proof -
  have "guarded ths" using sync_run_guarded [OF assms(2)] by simp
  then have no: "\<not> race t u" using guarded_no_race assms(3-7) by blast
  have "same_for u m' m1" if "lock_task_step m' t = Some (m1, new)" for m1 new
    using step_same_place [OF sync_run_apart [OF assms(1,2)] nth_mem [OF assms(3)] assms(6) that] no
    unfolding same_for_def race_def by (metis prod.collapse)
  with no task_depends sync_run_separate [OF assms(1,2)] show ?thesis by blast
qed

text \<open>Two writes of different keys, both about to work on the tree of their key.\<close>

theorem threads_do_not_race_witness:
  "\<exists>m1 m2 new. lock_task_step m1 (Lock_nodes 5 1 3 3 False) = Some (m2, new) \<and> length new > 4
    \<and> same_place (Key_data 6) m1 m2"
proof -
  let ?ops = "[[Try_lock 5 1 3 3 False], [Try_lock 6 2 3 3 False]]"
  let ?turns = "replicate 6 0 @ replicate 6 1 @ [0, 0, 1, 1]"
  have "case sync_run (lm_init, map new_thread ?ops) ?turns of
      Inr (m, ths) \<Rightarrow> map lt_todo ths = [[Lock_nodes 5 1 3 3 False], [Lock_nodes 6 2 3 3 False]]
        \<and> (case lock_task_step m (Lock_nodes 5 1 3 3 False) of None \<Rightarrow> False | Some (m2, new) \<Rightarrow> length new > 4)
    | Inl _ \<Rightarrow> False"
    by code_simp
  then obtain m ths m2 new where r: "sync_run (lm_init, map new_thread ?ops) ?turns = Inr (m, ths)"
    and ths: "map lt_todo ths = [[Lock_nodes 5 1 3 3 False], [Lock_nodes 6 2 3 3 False]]"
    and s: "lock_task_step m (Lock_nodes 5 1 3 3 False) = Some (m2, new)" "length new > 4"
    by (auto split: sum.splits option.splits simp del: sync_run.simps)
  from ths have i: "0 < length ths" "1 < length ths" "lt_todo (ths ! 0) = [Lock_nodes 5 1 3 3 False]"
    "lt_todo (ths ! 1) = [Lock_nodes 6 2 3 3 False]" by auto
  from threads_do_not_race [OF separate_init r i(1,2) _ i(3,4)] s(1) have "same_for (Lock_nodes 6 2 3 3 False) m m2" by simp
  then have "same_place (Key_data 6) m m2" by (auto simp: same_for_def accesses_def)
  with s show ?thesis by blast
qed


end
