(* ===== verification/Programs.thy ===== *)
theory Programs
  imports TServer Coordinator
begin

text \<open>
  The two programs: \<open>main\<close> of \<open>ServerMain.cc\<close> and of \<open>WithdrawCoordinatorMain.cc\<close> under
  \<open>src/src\<close>.  The command line is the list of its words; a turn of a thread is one step.
\<close>

text \<open>\<open>atoi\<close> of a word of the command line, an \<open>int\<close>.\<close>

definition int_arg :: "string \<Rightarrow> int" where
  "int_arg s = sint (word_of_int (atoi s) :: int32)"

section \<open>The server program\<close>

text \<open>The server and the number of its threads, each of which takes turns (\<^const>\<open>thread_turn\<close>).\<close>

definition server_main :: "string list \<Rightarrow> (tserver \<times> nat) option" where
  "server_main argv = (if length argv \<noteq> 3 then None else Some (main_server, nat (int_arg (argv ! 2))))"

section \<open>The client program\<close>

text \<open>The threads share the queue.  \<open>start\<close> is the time at which each of them starts.\<close>

record client_process =
  cp_queue :: "withdraw_coordinator safe_queue"
  cp_threads :: "worker list"

definition client_main :: "string list \<Rightarrow> int \<Rightarrow> (nat \<Rightarrow> int) \<Rightarrow> client_process option res" where
  "client_main argv timev start =
    (if length argv \<noteq> 3 then Inr None
     else let nr_threads = nat (int_arg (argv ! 1)); nr_repeats = nat (int_arg (argv ! 2))
       in and_then (fill_queue nr_repeats new_id_generator timev (new_queue 100000)) (\<lambda>(q, _).
            Inr (Some \<lparr>cp_queue = q,
              cp_threads = map (\<lambda>i. \<lparr>wk_old_time = start i, wk_count = 0, wk_out = []\<rparr>) [0..<nr_threads]\<rparr>)))"

text \<open>A turn of the \<open>i\<close>-th thread, at the end of which the clock shows \<open>t\<close>.\<close>

definition client_turn :: "'s \<times> client_process \<Rightarrow> nat \<times> int \<Rightarrow> ('s \<times> client_process) run" where
  "client_turn sp turn =
    (let (s, p) = sp; (i, t) = turn
     in and_run (worker_step s (cp_queue p) (cp_threads p ! i) t) (\<lambda>(s, _, q, wk).
          Some (Inr (s, \<lparr>cp_queue = q, cp_threads = (cp_threads p)[i := wk]\<rparr>))))"

fun client_turns :: "'s \<times> client_process \<Rightarrow> (nat \<times> int) list \<Rightarrow> ('s \<times> client_process) run" where
  "client_turns sp [] = Some (Inr sp)"
| "client_turns sp (turn # turns) = and_run (client_turn sp turn) (\<lambda>sp. client_turns sp turns)"

section \<open>What the client program does\<close>

text \<open>The queue is filled before the first thread starts.\<close>

lemma fill_queue_result:
  "length (q_queue q) \<le> q_max_size q \<Longrightarrow>
   (if length (q_queue q) + n \<le> q_max_size q
    then \<exists>q' id'. fill_queue n id_gen timev q = Inr (q', id') \<and> length (q_queue q') = length (q_queue q) + n
    else fill_queue n id_gen timev q = Inl Blocked)"
proof (induction n id_gen timev q rule: fill_queue.induct)
  case (2 n id_gen timev q)
  obtain co id1 where co: "new_withdraw_coordinator id_gen timev 10 = (co, id1)" by fastforce
  show ?case
  proof (cases "length (q_queue q) = q_max_size q")
    case True
    with co show ?thesis by (simp add: enqueue_def need_def)
  next
    case False
    then have q1: "enqueue q co = Some (q\<lparr>q_queue := q_queue q @ [co]\<rparr>)" by (simp add: enqueue_def)
    with 2(1) [OF co [symmetric] refl, of "q\<lparr>q_queue := q_queue q @ [co]\<rparr>"] 2(2) False co show ?thesis
      by (simp add: need_def split: if_splits)
  qed
qed simp

text \<open>The turns that a thread has counted: those printed, and those of the current second.\<close>

definition counted :: "worker \<Rightarrow> u64" where
  "counted wk = sum_list (map snd (wk_out wk)) + wk_count wk"

lemma report_counts:
  "report new_time old_time count out = (old', count', out') \<Longrightarrow>
   sum_list (map snd out') + count' = sum_list (map snd out) + count \<and> old' = max new_time old_time"
proof (induction new_time old_time count out rule: report.induct)
  case (1 new_time old_time count out)
  show ?case
  proof (cases "new_time > old_time")
    case True
    with 1(2) have "report new_time (old_time + 1) 0 (out @ [(old_time, count)]) = (old', count', out')"
      by (simp add: report.simps [of new_time old_time])
    from 1(1) [OF True this] True show ?thesis by simp
  next
    case False
    with 1(2) show ?thesis by (simp add: report.simps [of new_time old_time])
  qed
qed

definition all_counted :: "client_process \<Rightarrow> u64" where
  "all_counted p = sum_list (map counted (cp_threads p))"

lemma sum_list_update_word:
  "i < length xs \<Longrightarrow> sum_list (xs[i := (x :: 'a :: len word)]) = sum_list xs + x - xs ! i"
  by (induction xs arbitrary: i) (auto split: nat.splits)

lemma client_turn_result:
  assumes "i < length (cp_threads p)"
  shows "if q_queue (cp_queue p) = [] then client_turn (s, p) (i, t) = Some (Inl Blocked)
    else \<exists>p'. client_turn (s, p) (i, t) = Some (Inr (s, p')) \<and> length (cp_threads p') = length (cp_threads p)
      \<and> Suc (length (q_queue (cp_queue p'))) = length (q_queue (cp_queue p)) \<and> all_counted p' = all_counted p + 1"
proof (cases "q_queue (cp_queue p)")
  case Nil
  then show ?thesis by (simp add: client_turn_def worker_step_def dequeue_def)
next
  case (Cons co cos)
  let ?wk = "cp_threads p ! i"
  obtain old' count' out' where r: "report t (wk_old_time ?wk) (wk_count ?wk) (wk_out ?wk) = (old', count', out')"
    by (cases "report t (wk_old_time ?wk) (wk_count ?wk) (wk_out ?wk)")
  let ?wk' = "\<lparr>wk_old_time = old', wk_count = count' + 1, wk_out = out'\<rparr>"
  have "counted ?wk' = counted ?wk + 1" using report_counts [OF r] by (simp add: counted_def ac_simps)
  then have "sum_list (map counted ((cp_threads p)[i := ?wk'])) = sum_list (map counted (cp_threads p)) + 1"
    using assms by (simp add: map_update sum_list_update_word)
  with Cons r assms show ?thesis
    by (simp add: client_turn_def worker_step_def dequeue_def coordinator_run_def all_counted_def)
qed

lemma client_turns_result:
  assumes "\<forall>turn\<in>set turns. fst turn < length (cp_threads p)"
  shows "if length turns \<le> length (q_queue (cp_queue p))
    then \<exists>p'. client_turns (s, p) turns = Some (Inr (s, p'))
      \<and> length (q_queue (cp_queue p')) + length turns = length (q_queue (cp_queue p))
      \<and> all_counted p' = all_counted p + of_nat (length turns)
    else client_turns (s, p) turns = Some (Inl Blocked)"
  using assms
proof (induction turns arbitrary: p)
  case (Cons turn turns)
  obtain i t where turn: "turn = (i, t)" by (cases turn)
  with Cons.prems have i: "i < length (cp_threads p)" by simp
  show ?case
  proof (cases "q_queue (cp_queue p) = []")
    case True
    with client_turn_result [OF i, of s t] turn show ?thesis by simp
  next
    case False
    with client_turn_result [OF i, of s t] obtain p1 where p1: "client_turn (s, p) (i, t) = Some (Inr (s, p1))"
      "length (cp_threads p1) = length (cp_threads p)"
      "Suc (length (q_queue (cp_queue p1))) = length (q_queue (cp_queue p))" "all_counted p1 = all_counted p + 1" by auto
    with Cons.IH [of p1] Cons.prems turn show ?thesis by (auto simp: ac_simps)
  qed
qed simp

text \<open>
  The client program never sends a request: it blocks before its first thread starts when
  it is to run more than 100000 coordinators; otherwise the turns of its threads, in any order,
  take one coordinator each and leave the state of the layers below as it was, every turn is
  counted, and the thread that finds the queue empty waits forever.
\<close>
lemma client_program_sends_nothing:
  assumes "length argv = 3" "\<forall>turn\<in>set turns. fst turn < nat (int_arg (argv ! 1))"
  shows "if nat (int_arg (argv ! 2)) > 100000 then client_main argv timev start = Inl Blocked
    else \<exists>p. client_main argv timev start = Inr (Some p)
      \<and> (if length turns > nat (int_arg (argv ! 2)) then client_turns (s, p) turns = Some (Inl Blocked)
         else \<exists>p'. client_turns (s, p) turns = Some (Inr (s, p')) \<and> all_counted p' = of_nat (length turns)
           \<and> length (q_queue (cp_queue p')) = nat (int_arg (argv ! 2)) - length turns)"
proof (cases "nat (int_arg (argv ! 2)) > 100000")
  case True
  with fill_queue_result [of "new_queue 100000" "nat (int_arg (argv ! 2))" new_id_generator timev] assms(1)
  show ?thesis by (simp add: client_main_def Let_def new_queue_def)
next
  case False
  with fill_queue_result [of "new_queue 100000" "nat (int_arg (argv ! 2))" new_id_generator timev] obtain q id' where
    q: "fill_queue (nat (int_arg (argv ! 2))) new_id_generator timev (new_queue 100000) = Inr (q, id')"
    "length (q_queue q) = nat (int_arg (argv ! 2))" by (auto simp: new_queue_def)
  let ?p = "\<lparr>cp_queue = q, cp_threads =
    map (\<lambda>i. \<lparr>wk_old_time = start i, wk_count = 0, wk_out = []\<rparr>) [0..<nat (int_arg (argv ! 1))]\<rparr>"
  have p: "client_main argv timev start = Inr (Some ?p)" using assms(1) q(1) by (simp add: client_main_def Let_def)
  have "all_counted ?p = 0" by (simp add: all_counted_def counted_def o_def)
  with client_turns_result [of turns ?p s] assms(2) q(2) p False show ?thesis by auto
qed

lemma client_program_sends_nothing_witness:
  "\<exists>p p'. client_main [''./WithdrawCoordinator'', ''2'', ''3''] 7 (\<lambda>i. 7) = Inr (Some p)
    \<and> client_turns (main_server, p) [(0, 7), (1, 9), (0, 9)] = Some (Inr (main_server, p'))
    \<and> all_counted p' = 3 \<and> q_queue (cp_queue p') = []"
proof -
  have n: "int_arg ''2'' = 2" "int_arg ''3'' = 3" by code_simp+
  from client_program_sends_nothing [of "[''./WithdrawCoordinator'', ''2'', ''3'']" "[(0, 7), (1, 9), (0, 9)]" 7 "\<lambda>i. 7" main_server]
  show ?thesis by (auto simp: n)
qed

end
