(* ===== verification/Shell.thy ===== *)
theory Shell
  imports Transactions Generators
begin

text \<open>
  The command shell under \<open>src/src/shell\<close>: the scanner of \<open>shell.l\<close>, and the grammar of
  \<open>shell.y\<close> with its actions on a coordinator.
\<close>

section \<open>The scanner\<close>

datatype token =
    START | END | READ | WRITE | COMMIT | ABORT | EXIT | HELP | NEWLINE
  | NUMBER u64
  | STRING string

definition is_alnum :: "char \<Rightarrow> bool" where
  "is_alnum c \<longleftrightarrow> is_digit c \<or> 65 \<le> (of_char c :: nat) \<and> (of_char c :: nat) \<le> 90
     \<or> 97 \<le> (of_char c :: nat) \<and> (of_char c :: nat) \<le> 122"

text \<open>\<open>strtoul\<close> of digits stops at the largest number.\<close>

definition strtoul :: "string \<Rightarrow> u64" where
  "strtoul s = of_nat (min (parse_digits s) 18446744073709551615)"

text \<open>
  The rules for a word of letters and digits.  The longest match wins, which is always the
  whole word, and among the rules that match it the first one.
\<close>

definition reserved :: "(string \<times> token) list" where
  "reserved = [(''begin'', START), (''end'', END), (''read'', READ), (''write'', WRITE), (''commit'', COMMIT),
     (''abort'', ABORT), (''exit'', EXIT), (''help'', HELP)]"

definition token_of :: "string \<Rightarrow> token" where
  "token_of w =
    (case map_of reserved w of
       Some t \<Rightarrow> t
     | None \<Rightarrow> if list_all is_digit w then NUMBER (strtoul w) else STRING w)"

definition is_newline :: "char \<Rightarrow> bool" where
  "is_newline c \<longleftrightarrow> (of_char c :: nat) = 10"

function yylex :: "string \<Rightarrow> token list" where
  "yylex [] = []"
| "yylex (c # cs) =
     (if is_newline c then NEWLINE # yylex cs
      else if is_alnum c then token_of (takeWhile is_alnum (c # cs)) # yylex (dropWhile is_alnum cs)
      else yylex cs)"
  by pat_completeness auto
termination by (relation "measure length") (auto intro: le_imp_less_Suc length_dropWhile_le)

section \<open>The grammar\<close>

text \<open>What the actions do.\<close>

datatype action =
    New_coordinator
  | Read_key u64
  | Write_key u64 string
  | Commit_quietly
  | Commit_loudly
  | Abort_transaction
  | Delete_coordinator
  | Say string
  | Exit_shell

definition prompt :: string where
  "prompt = ''LegoShell>''"

definition line :: "string \<Rightarrow> string" where
  "line s = s @ [char_of (10 :: nat)]"

definition help_text :: string where
  "help_text = line ''READ: read <key>'' @ line ''WRITE: write <key> <value>''
    @ line (''TRX: begin <'' @ [char_of (92 :: nat)] @ ''n> ((READ | WRITE) <'' @ [char_of (92 :: nat)]
        @ ''n>)+ (commit | abort) <'' @ [char_of (92 :: nat)] @ ''n>'')
    @ line ''EXIT: exit''"

text \<open>
  The states of the parser, by what it has shifted: at the top level, inside \<open>begin\<close> and the
  line end after it, and inside a transaction with or without a command so far.
\<close>

datatype mode =
    Top | Top_read | Top_write | Top_write_to u64
  | Started | Inside bool | Inside_read | Inside_write | Inside_write_to u64
  | Command_done | Committing | Aborting

definition single :: "action list \<Rightarrow> action list" where
  "single acts = [New_coordinator] @ acts @ [Commit_quietly, Delete_coordinator]"

text \<open>
  Shifting a token, with the actions of the rules that are complete then.  There is no next
  state on a syntax error.
\<close>

definition shift :: "mode \<Rightarrow> token \<Rightarrow> (mode \<times> action list) option" where
  "shift mode tok =
    (case mode of
       Top \<Rightarrow>
         (case tok of
            START \<Rightarrow> Some (Started, [])
          | READ \<Rightarrow> Some (Top_read, [])
          | WRITE \<Rightarrow> Some (Top_write, [])
          | EXIT \<Rightarrow> Some (Top, [Exit_shell])
          | HELP \<Rightarrow> Some (Top, [Say help_text])
          | NEWLINE \<Rightarrow> Some (Top, [Say prompt])
          | _ \<Rightarrow> None)
     | Top_read \<Rightarrow> (case tok of NUMBER k \<Rightarrow> Some (Top, single [Read_key k]) | _ \<Rightarrow> None)
     | Top_write \<Rightarrow> (case tok of NUMBER k \<Rightarrow> Some (Top_write_to k, []) | _ \<Rightarrow> None)
     | Top_write_to k \<Rightarrow>
         (case tok of
            STRING v \<Rightarrow> Some (Top, single [Write_key k v])
          | NUMBER n \<Rightarrow> Some (Top, single [Write_key k (show_nat (unat n))])
          | _ \<Rightarrow> None)
     | Started \<Rightarrow> (case tok of NEWLINE \<Rightarrow> Some (Inside False, [Say (prompt @ ''>''), New_coordinator]) | _ \<Rightarrow> None)
     | Inside some \<Rightarrow>
         (case tok of
            READ \<Rightarrow> Some (Inside_read, [])
          | WRITE \<Rightarrow> Some (Inside_write, [])
          | COMMIT \<Rightarrow> if some then Some (Committing, []) else None
          | ABORT \<Rightarrow> if some then Some (Aborting, []) else None
          | _ \<Rightarrow> None)
     | Inside_read \<Rightarrow> (case tok of NUMBER k \<Rightarrow> Some (Command_done, [Read_key k]) | _ \<Rightarrow> None)
     | Inside_write \<Rightarrow> (case tok of NUMBER k \<Rightarrow> Some (Inside_write_to k, []) | _ \<Rightarrow> None)
     | Inside_write_to k \<Rightarrow>
         (case tok of
            STRING v \<Rightarrow> Some (Command_done, [Write_key k v])
          | NUMBER n \<Rightarrow> Some (Command_done, [Write_key k (show_nat (unat n))])
          | _ \<Rightarrow> None)
     | Command_done \<Rightarrow> (case tok of NEWLINE \<Rightarrow> Some (Inside True, [Say (prompt @ ''>'')]) | _ \<Rightarrow> None)
     | Committing \<Rightarrow>
         (case tok of NEWLINE \<Rightarrow> Some (Top, [Commit_loudly, Say prompt, Delete_coordinator]) | _ \<Rightarrow> None)
     | Aborting \<Rightarrow>
         (case tok of NEWLINE \<Rightarrow> Some (Top, [Abort_transaction, Say prompt, Delete_coordinator]) | _ \<Rightarrow> None))"

section \<open>The shell\<close>

text \<open>
  The state of the system below the coordinator, the generator, the coordinator that \<open>coord\<close>
  points to, the parser with its error status, and what has been printed.
\<close>

record 's shell =
  sh_system :: 's
  sh_id_gen :: id_generator
  sh_coord :: "coordinator option"
  sh_mode :: mode
  sh_errors :: nat
  sh_out :: string
  sh_done :: bool

definition new_shell :: "'s \<Rightarrow> 's shell" where
  "new_shell s = \<lparr>sh_system = s, sh_id_gen = new_id_generator, sh_coord = None, sh_mode = Top,
     sh_errors = 0, sh_out = prompt, sh_done = False\<rparr>"

definition say :: "string \<Rightarrow> 's shell \<Rightarrow> 's shell" where
  "say text sh = sh\<lparr>sh_out := sh_out sh @ text\<rparr>"

definition set_coord :: "'s \<times> coordinator \<Rightarrow> 's shell \<Rightarrow> 's shell" where
  "set_coord sc sh = sh\<lparr>sh_system := fst sc, sh_coord := Some (snd sc)\<rparr>"

text \<open>The clock is read when a coordinator is created.\<close>

definition with_coord :: "'s shell \<Rightarrow> ('s \<times> coordinator \<Rightarrow> 'b run) \<Rightarrow> 'b run" where
  "with_coord sh f = and_run (Some (need NullPointer (sh_coord sh))) (\<lambda>co. f (sh_system sh, co))"

fun act :: "'s resolution \<Rightarrow> (u64 \<Rightarrow> u64) \<Rightarrow> int \<Rightarrow> action \<Rightarrow> 's shell \<Rightarrow> 's shell run" where
  "act req mapper timev New_coordinator sh =
     (let (co, gen) = new_coordinator (sh_id_gen sh) timev
      in Some (Inr (sh\<lparr>sh_coord := Some co, sh_id_gen := gen\<rparr>)))"
| "act req mapper timev (Read_key k) sh =
     and_run (with_coord sh (\<lambda>sc. coord_read req mapper sc k)) (\<lambda>(sc, v).
     and_run (Some (need NullPointer v)) (\<lambda>v. Some (Inr (say (line v) (set_coord sc sh)))))"
| "act req mapper timev (Write_key k v) sh =
     and_run (with_coord sh (\<lambda>sc. coord_write req mapper sc k v)) (\<lambda>sc. Some (Inr (set_coord sc sh)))"
| "act req mapper timev Commit_quietly sh =
     and_run (with_coord sh (commit req)) (\<lambda>(sc, vote). Some (Inr (set_coord sc sh)))"
| "act req mapper timev Commit_loudly sh =
     and_run (with_coord sh (commit req)) (\<lambda>(sc, vote).
       Some (Inr (say (line (if vote then ''Committed'' else ''Aborted'')) (set_coord sc sh))))"
| "act req mapper timev Abort_transaction sh =
     and_run (with_coord sh (abort req)) (\<lambda>sc. Some (Inr (set_coord sc sh)))"
| "act req mapper timev Delete_coordinator sh = Some (Inr (sh\<lparr>sh_coord := None\<rparr>))"
| "act req mapper timev (Say text) sh = Some (Inr (say text sh))"
| "act req mapper timev Exit_shell sh = Some (Inr (sh\<lparr>sh_done := True\<rparr>))"

fun act_all :: "'s resolution \<Rightarrow> (u64 \<Rightarrow> u64) \<Rightarrow> int \<Rightarrow> action list \<Rightarrow> 's shell \<Rightarrow> 's shell run" where
  "act_all req mapper timev [] sh = Some (Inr sh)"
| "act_all req mapper timev (a # as) sh = and_run (act req mapper timev a sh) (act_all req mapper timev as)"

text \<open>
  A token.  On a syntax error the parser reports it unless it is still recovering from the last
  one, goes back to the top level (\<open>transaction : error\<close>), and tries the token there; it drops a
  token that does not fit there.  It has recovered after three tokens.
\<close>

definition syntax_error :: "'s shell \<Rightarrow> 's shell" where
  "syntax_error sh =
    (let sh = (if sh_errors sh = 0 then say (line ''Parse error: syntax error'' @ help_text) sh else sh)
     in sh\<lparr>sh_mode := Top, sh_errors := 3\<rparr>)"

definition feed :: "'s resolution \<Rightarrow> (u64 \<Rightarrow> u64) \<Rightarrow> int \<Rightarrow> 's shell \<Rightarrow> token \<Rightarrow> 's shell run" where
  "feed req mapper timev sh tok =
    (let shifted = (\<lambda>sh (mode, acts). act_all req mapper timev acts (sh\<lparr>sh_mode := mode, sh_errors := sh_errors sh - 1\<rparr>))
     in if sh_done sh then Some (Inr sh)
        else case shift (sh_mode sh) tok of
          Some next \<Rightarrow> shifted sh next
        | None \<Rightarrow>
            (case (if sh_errors sh = 3 then None else shift Top tok) of
               Some next \<Rightarrow> shifted (syntax_error sh) next
             | None \<Rightarrow> Some (Inr (syntax_error sh))))"

fun feed_all :: "'s resolution \<Rightarrow> (u64 \<Rightarrow> u64) \<Rightarrow> int \<Rightarrow> 's shell \<Rightarrow> token list \<Rightarrow> 's shell run" where
  "feed_all req mapper timev sh [] = Some (Inr sh)"
| "feed_all req mapper timev sh (tok # toks) =
     and_run (feed req mapper timev sh tok) (\<lambda>sh. feed_all req mapper timev sh toks)"

text \<open>The input that is there at a time; \<open>main\<close> without the end of the input.\<close>

definition shell_input :: "'s resolution \<Rightarrow> (u64 \<Rightarrow> u64) \<Rightarrow> int \<Rightarrow> 's shell \<Rightarrow> string \<Rightarrow> 's shell run" where
  "shell_input req mapper timev sh text = feed_all req mapper timev sh (yylex text)"

section \<open>Printing and scanning\<close>

fun show_token :: "token \<Rightarrow> string" where
  "show_token START = ''begin''"
| "show_token END = ''end''"
| "show_token READ = ''read''"
| "show_token WRITE = ''write''"
| "show_token COMMIT = ''commit''"
| "show_token ABORT = ''abort''"
| "show_token EXIT = ''exit''"
| "show_token HELP = ''help''"
| "show_token NEWLINE = [char_of (10 :: nat)]"
| "show_token (NUMBER n) = show_nat (unat n)"
| "show_token (STRING s) = s"

text \<open>The strings that the scanner can return.\<close>

definition is_word :: "string \<Rightarrow> bool" where
  "is_word s \<longleftrightarrow> s \<noteq> [] \<and> list_all is_alnum s \<and> map_of reserved s = None \<and> \<not> list_all is_digit s"

definition scannable :: "token \<Rightarrow> bool" where
  "scannable t \<longleftrightarrow> (case t of STRING s \<Rightarrow> is_word s | _ \<Rightarrow> True)"

text \<open>Tokens with a space after each.\<close>

definition show_tokens :: "token list \<Rightarrow> string" where
  "show_tokens ts = concat (map (\<lambda>t. show_token t @ '' '') ts)"

lemma digit_alnum: "is_digit c \<Longrightarrow> is_alnum c"
  by (simp add: is_alnum_def)

lemma alnum_not_newline: "is_alnum c \<Longrightarrow> \<not> is_newline c"
  by (auto simp: is_alnum_def is_digit_def is_newline_def)

lemma space_skipped: "yylex (CHR '' '' # s) = yylex s"
  by (simp add: is_newline_def is_alnum_def is_digit_def)

lemma reserved_words: "map_of reserved w = Some t \<Longrightarrow> list_all is_alnum w \<and> \<not> list_all is_digit w"
  by (auto simp: reserved_def is_alnum_def is_digit_def split: if_splits)

lemma yylex_word:
  assumes "w \<noteq> []" "list_all is_alnum w"
  shows "yylex (w @ CHR '' '' # s) = token_of w # yylex s"
proof -
  obtain c cs where w: "w = c # cs" using assms(1) by (cases w) auto
  have sp: "\<not> is_alnum CHR '' ''" by (simp add: is_alnum_def is_digit_def)
  have c: "is_alnum c" "\<not> is_newline c" "list_all is_alnum cs" using assms(2) w alnum_not_newline by auto
  have "takeWhile is_alnum (cs @ CHR '' '' # s) = cs" "dropWhile is_alnum (cs @ CHR '' '' # s) = CHR '' '' # s"
    using c(3) sp by (simp_all add: list_all_iff)
  then have "yylex (w @ CHR '' '' # s) = token_of w # yylex (CHR '' '' # s)" using c w by (simp del: yylex.simps add: yylex.simps(2) [of c])
  then show ?thesis by (simp only: space_skipped)
qed

lemma token_of_show:
  assumes "scannable t" "t \<noteq> NEWLINE"
  shows "token_of (show_token t) = t \<and> show_token t \<noteq> [] \<and> list_all is_alnum (show_token t)"
proof (cases t)
  case (NUMBER n)
  have d: "list_all is_digit (show_nat (unat n))" "show_nat (unat n) \<noteq> []" using digits_show_nat by auto
  have "map_of reserved (show_nat (unat n)) = None"
    using reserved_words d(1) by (cases "map_of reserved (show_nat (unat n))") auto
  moreover have "strtoul (show_nat (unat n)) = n"
  proof -
    have "unat n < 18446744073709551616" by (rule unat_less_64)
    then have "unat n \<le> 18446744073709551615" by linarith
    then have "min (unat n) 18446744073709551615 = unat n" by (rule min_absorb1)
    then show ?thesis by (simp add: strtoul_def)
  qed
  moreover have "list_all is_alnum (show_nat (unat n))" using d(1) digit_alnum by (auto simp: list_all_iff)
  ultimately show ?thesis using d NUMBER by (simp add: token_of_def)
next
  case (STRING s)
  with assms show ?thesis by (simp add: scannable_def is_word_def token_of_def)
qed (use assms in \<open>simp_all add: token_of_def reserved_def is_alnum_def is_digit_def\<close>)

lemma yylex_show_tokens: "list_all scannable ts \<Longrightarrow> yylex (show_tokens ts) = ts"
proof (induction ts)
  case (Cons t ts)
  have s: "show_tokens (t # ts) = show_token t @ CHR '' '' # show_tokens ts" by (simp add: show_tokens_def)
  show ?case
  proof (cases "t = NEWLINE")
    case True
    then have "show_tokens (t # ts) = char_of (10 :: nat) # CHR '' '' # show_tokens ts" using s by simp
    moreover have "is_newline (char_of (10 :: nat))" by (simp add: is_newline_def)
    ultimately have "yylex (show_tokens (t # ts)) = NEWLINE # yylex (CHR '' '' # show_tokens ts)" by simp
    with Cons True space_skipped show ?thesis by simp
  next
    case False
    with token_of_show [of t] yylex_word [of "show_token t" "show_tokens ts"] Cons show ?thesis by (simp add: s)
  qed
qed (simp add: show_tokens_def)

section \<open>Scripts\<close>

text \<open>The value of a \<open>write\<close> command, and the commands of a transaction.\<close>

definition value_token :: "token \<Rightarrow> string option" where
  "value_token t = (case t of STRING v \<Rightarrow> Some v | NUMBER n \<Rightarrow> Some (show_nat (unat n)) | _ \<Rightarrow> None)"

definition write_tokens :: "u64 \<times> token \<Rightarrow> token list" where
  "write_tokens w = [WRITE, NUMBER (fst w), snd w, NEWLINE]"

definition script :: "(u64 \<times> token) list \<Rightarrow> token list" where
  "script ws = [START, NEWLINE] @ concat (map write_tokens ws) @ [COMMIT, NEWLINE]"

definition written :: "(u64 \<times> token) list \<Rightarrow> (u64 \<times> string) list" where
  "written ws = map (\<lambda>(k, t). (k, the (value_token t))) ws"

lemma feed_all_append:
  "feed_all req mapper timev sh (ts @ us) =
   and_run (feed_all req mapper timev sh ts) (\<lambda>sh. feed_all req mapper timev sh us)"
proof (induction ts arbitrary: sh)
  case (Cons t ts)
  then show ?case
    by (cases "feed req mapper timev sh t") (auto simp: and_run_def split: sum.split option.split)
qed simp

text \<open>A shell inside a transaction that has had no error.\<close>

definition inside :: "'s \<Rightarrow> id_generator \<Rightarrow> coordinator \<Rightarrow> bool \<Rightarrow> string \<Rightarrow> 's shell" where
  "inside s gen co some out = \<lparr>sh_system = s, sh_id_gen = gen, sh_coord = Some co, sh_mode = Inside some,
     sh_errors = 0, sh_out = out, sh_done = False\<rparr>"

lemmas feed_defs = feed_def shift_def syntax_error_def say_def set_coord_def with_coord_def single_def

lemma feed_write:
  assumes "value_token t = Some v"
  shows "feed_all req mapper timev (inside s gen co some out) (write_tokens (k, t)) =
    and_run (coord_write req mapper (s, co) k v)
      (\<lambda>(s, co). Some (Inr (inside s gen co True (out @ prompt @ ''>''))))"
proof (cases t)
  case (STRING v')
  with assms have "v' = v" by (simp add: value_token_def)
  with STRING show ?thesis
    by (cases "coord_write req mapper (s, co) k v")
      (auto simp: write_tokens_def inside_def feed_defs and_run_def split: sum.split)
next
  case (NUMBER n)
  with assms have "show_nat (unat n) = v" by (simp add: value_token_def)
  with NUMBER show ?thesis
    by (cases "coord_write req mapper (s, co) k v")
      (auto simp: write_tokens_def inside_def feed_defs and_run_def split: sum.split)
qed (use assms in \<open>simp_all add: value_token_def\<close>)

fun prompts :: "nat \<Rightarrow> string" where
  "prompts 0 = []"
| "prompts (Suc n) = (prompt @ ''>'') @ prompts n"

lemma feed_writes:
  assumes "\<forall>w\<in>set ws. value_token (snd w) \<noteq> None"
  shows "feed_all req mapper timev (inside s gen co some out) (concat (map write_tokens ws)) =
    and_run (write_all req mapper (s, co) (written ws))
      (\<lambda>(s, co). Some (Inr (inside s gen co (some \<or> ws \<noteq> []) (out @ prompts (length ws)))))"
  using assms
proof (induction ws arbitrary: s co some out)
  case (Cons w ws)
  obtain k t v where w: "w = (k, t)" "value_token t = Some v" using Cons.prems by (cases w) auto
  have "feed_all req mapper timev (inside s gen co some out) (concat (map write_tokens (w # ws))) =
      and_run (coord_write req mapper (s, co) k v) (\<lambda>(s, co).
        feed_all req mapper timev (inside s gen co True (out @ prompt @ ''>'')) (concat (map write_tokens ws)))"
    using feed_write [OF w(2), of req mapper timev s gen co some out k]
    by (cases "coord_write req mapper (s, co) k v")
      (auto simp: feed_all_append w and_run_def split: sum.split prod.split)
  also have "\<dots> = and_run (coord_write req mapper (s, co) k v) (\<lambda>(s, co).
      and_run (write_all req mapper (s, co) (written ws))
        (\<lambda>(s, co). Some (Inr (inside s gen co True (out @ prompts (length (w # ws)))))))"
    using Cons by simp
  also have "\<dots> = and_run (write_all req mapper (s, co) (written (w # ws)))
        (\<lambda>(s, co). Some (Inr (inside s gen co (some \<or> w # ws \<noteq> []) (out @ prompts (length (w # ws))))))"
    using w by (cases "coord_write req mapper (s, co) k v")
      (auto simp: written_def and_run_def split: sum.split prod.split)
  finally show ?case .
qed (simp add: written_def inside_def)

text \<open>A whole script, from the top level to the top level.\<close>

lemma script_run:
  assumes "\<forall>w\<in>set ws. value_token (snd w) \<noteq> None" "ws \<noteq> []"
    and "sh_mode sh = Top" "sh_errors sh = 0" "\<not> sh_done sh"
    and "new_coordinator (sh_id_gen sh) timev = (co, gen)"
  shows "feed_all req mapper timev sh (script ws) =
    and_run (write_all req mapper (sh_system sh, co) (written ws)) (\<lambda>sc.
    and_run (commit req sc) (\<lambda>((s, _), vote).
      Some (Inr (sh\<lparr>sh_system := s, sh_id_gen := gen, sh_coord := None,
        sh_out := sh_out sh @ prompt @ ''>'' @ prompts (length ws)
          @ line (if vote then ''Committed'' else ''Aborted'') @ prompt\<rparr>))))"
proof -
  let ?out = "sh_out sh @ prompt @ ''>''"
  have start: "feed_all req mapper timev sh [START, NEWLINE] = Some (Inr (inside (sh_system sh) gen co False ?out))"
    using assms(3-6) by (cases sh) (simp add: feed_defs inside_def)
  have finish: "feed_all req mapper timev (inside s gen co' True (?out @ prompts (length ws))) [COMMIT, NEWLINE] =
    and_run (commit req (s, co')) (\<lambda>((s, _), vote).
      Some (Inr (sh\<lparr>sh_system := s, sh_id_gen := gen, sh_coord := None,
        sh_out := sh_out sh @ prompt @ ''>'' @ prompts (length ws)
          @ line (if vote then ''Committed'' else ''Aborted'') @ prompt\<rparr>)))" for s co'
    using assms(3-5) by (cases sh; cases "commit req (s, co')")
      (auto simp: feed_defs inside_def and_run_def split: sum.split prod.split)
  show ?thesis
    unfolding script_def feed_all_append start and_run_simps feed_writes [OF assms(1)]
    using assms(2) finish
    by (cases "write_all req mapper (sh_system sh, co) (written ws)")
      (auto simp: and_run_def [of _ "\<lambda>x. case x of (s, co) \<Rightarrow> _ s co"] and_run_def [of "Some _"] simp del: feed_all.simps split: sum.split prod.split)
qed

section \<open>The shell over the server\<close>

lemma script_scannable:
  assumes "\<forall>w\<in>set ws. scannable (snd w)"
  shows "list_all scannable (script ws)"
  using assms by (auto simp: script_def write_tokens_def scannable_def list_all_iff)

lemma script_stores:
  assumes "ws \<noteq> []" "\<forall>w\<in>set ws. scannable (snd w) \<and> value_token (snd w) \<noteq> None" "genStartTimestamp timev \<noteq> 0"
  shows "\<exists>sh rl s. shell_input (request server_net) getNode timev
        (new_shell (new_rsl_client new_rpc_client, main_server)) (show_tokens (script ws)) = Some (Inr sh)
    \<and> sh_system sh = (rl, s) \<and> idle s \<and> sh_mode sh = Top
    \<and> sh_out sh = prompt @ prompt @ ''>'' @ prompts (length ws)
        @ line (if distinct (map fst ws) then ''Committed'' else ''Aborted'') @ prompt
    \<and> (\<forall>k t. get s k t = (if distinct (map fst ws) \<and> t = genStartTimestamp timev \<and> k \<in> fst ` set ws
          then map_of (written ws) k else get main_server k t))"
proof -
  let ?sh = "new_shell (new_rsl_client new_rpc_client, main_server)"
  let ?ts = "genStartTimestamp timev" and ?vs = "written ws"
  let ?co = "\<lparr>co_tid = 0, co_start_ts = ?ts, co_read_nodes = [], co_write_nodes = [], co_pend_writes = Map.empty\<rparr>"
  have top: "sh_mode ?sh = Top" "sh_errors ?sh = 0" "\<not> sh_done ?sh" by (simp_all add: new_shell_def)
  have co: "new_coordinator (sh_id_gen ?sh) timev = (?co, \<lparr>ig_cur_id = 1\<rparr>)"
    by (simp add: new_shell_def new_coordinator_def genTransactionID_def new_id_generator_def)
  have keys: "map fst ?vs = map fst ws" by (simp add: written_def case_prod_unfold)
  then have keys': "fst ` set ?vs = fst ` set ws" by (metis list.set_map)
  have "?vs \<noteq> []" using assms(1) by (simp add: written_def)
  have tags: "small_tag (rl_tag (new_rsl_client new_rpc_client))" "small_tag (rl_tag (new_rsl_client new_rpc_client) + 1)"
    by (simp_all add: small_tag_def new_rsl_client_def)
  have fresh: "unknown main_server 0" by (simp add: unknown_def main_server_def new_tserver_def)
  have l: "lock_at (ts_locks main_server) k t = initial_cell t" for k t by (rule start_locks) simp
  have held: "0 \<notin> snd (lock_at (ts_locks main_server) k t)" for k t by (simp add: l initial_cell_def)
  from transaction_effect [OF idle_main default_only_new tags refl fresh held assms(3) \<open>?vs \<noteq> []\<close>]
  obtain rl1 s1 co1 rl2 s2 vote where
    t: "write_all (request server_net) getNode ((new_rsl_client new_rpc_client, main_server), ?co) ?vs = Some (Inr ((rl1, s1), co1))"
    "commit (request server_net) ((rl1, s1), co1) = Some (Inr (((rl2, s2), co1), vote))" "idle s2"
    and vote: "vote \<longleftrightarrow> distinct (map fst ?vs) \<and> (\<forall>k\<in>fst ` set ?vs. fst (lock_at (ts_locks main_server) k ?ts) = FREE)"
    and get: "\<forall>k t. get s2 k t = (if vote \<and> t = ?ts \<and> k \<in> fst ` set ?vs then map_of ?vs k else get main_server k t)"
    by (elim exE conjE)
  have v: "vote = distinct (map fst ws)" using vote assms(3) by (simp add: l initial_cell_def keys)
  have toks: "yylex (show_tokens (script ws)) = script ws"
    using script_scannable [of ws] assms(2) yylex_show_tokens by blast
  have vals: "\<forall>w\<in>set ws. value_token (snd w) \<noteq> None" using assms(2) by blast
  have sys: "sh_system ?sh = (new_rsl_client new_rpc_client, main_server)" "sh_out ?sh = prompt"
    by (simp_all add: new_shell_def)
  let ?r = "?sh\<lparr>sh_system := (rl2, s2), sh_id_gen := \<lparr>ig_cur_id = 1\<rparr>, sh_coord := None,
      sh_out := prompt @ prompt @ ''>'' @ prompts (length ws)
        @ line (if vote then ''Committed'' else ''Aborted'') @ prompt\<rparr>"
  have "shell_input (request server_net) getNode timev ?sh (show_tokens (script ws)) = Some (Inr ?r)"
    unfolding shell_input_def toks script_run [OF vals assms(1) top co] sys t(1) and_run_simps t(2) prod.case
    by simp
  then show ?thesis using t(3) get v top(1)
    by (intro exI [of _ ?r] exI [of _ rl2] exI [of _ s2]) (simp add: keys')
qed

text \<open>
  C6: the shell carries out a transaction that is typed: for any transaction of at least one
  \<open>write\<close>, printed as text, the scanner and the parser of a new shell over a new server get
  the same commands back and run them as a transaction; the shell prints whether it was
  committed, which it is exactly when the keys are different, and returns to its prompt; the
  store then has exactly the values that were typed, at the time of the transaction.
\<close>
theorem shell_stores_script:
  assumes "ws \<noteq> []" "\<forall>w\<in>set ws. scannable (snd w) \<and> value_token (snd w) \<noteq> None" "genStartTimestamp timev \<noteq> 0"
  shows "\<exists>sh rl s. shell_input (request server_net) getNode timev
        (new_shell (new_rsl_client new_rpc_client, main_server)) (show_tokens (script ws)) = Some (Inr sh)
    \<and> sh_system sh = (rl, s) \<and> idle s \<and> sh_mode sh = Top
    \<and> sh_out sh = prompt @ prompt @ ''>'' @ prompts (length ws)
        @ line (if distinct (map fst ws) then ''Committed'' else ''Aborted'') @ prompt
    \<and> (\<forall>k t. get s k t = (if distinct (map fst ws) \<and> t = genStartTimestamp timev \<and> k \<in> fst ` set ws
          then map_of (written ws) k else get main_server k t))"
  by (rule script_stores [OF assms])

theorem shell_stores_script_witness:
  "\<exists>sh. shell_input (request server_net) getNode 9 (new_shell (new_rsl_client new_rpc_client, main_server))
        (show_tokens [START, NEWLINE, WRITE, NUMBER 5, STRING ''abc'', NEWLINE, WRITE, NUMBER 6, NUMBER 42, NEWLINE,
          COMMIT, NEWLINE]) = Some (Inr sh)
    \<and> get (snd (sh_system sh)) 5 9 = Some ''abc'' \<and> get (snd (sh_system sh)) 6 9 = Some ''42''"
proof -
  let ?ws = "[(5, STRING ''abc''), (6, NUMBER 42)] :: (u64 \<times> token) list"
  have w: "is_word ''abc''" by code_simp
  have ws: "\<forall>w\<in>set ?ws. scannable (snd w) \<and> value_token (snd w) \<noteq> None"
    by (simp add: scannable_def w value_token_def)
  have ts: "genStartTimestamp 9 \<noteq> 0" by (simp add: genStartTimestamp_def getCurrentTime_def)
  have s: "script ?ws = [START, NEWLINE, WRITE, NUMBER 5, STRING ''abc'', NEWLINE, WRITE, NUMBER 6, NUMBER 42, NEWLINE,
          COMMIT, NEWLINE]" by (simp add: script_def write_tokens_def)
  have "show_nat 42 = ''42''" by code_simp
  then have v: "written ?ws = [(5, ''abc''), (6, ''42'')]" by (simp add: written_def value_token_def)
  have t: "genStartTimestamp 9 = 9" by (simp add: genStartTimestamp_def getCurrentTime_def)
  from shell_stores_script [of ?ws 9] ws ts obtain sh rl st where
    "shell_input (request server_net) getNode 9 (new_shell (new_rsl_client new_rpc_client, main_server))
      (show_tokens (script ?ws)) = Some (Inr sh)" "sh_system sh = (rl, st)"
    and "\<forall>k t. get st k t = (if distinct (map fst ?ws) \<and> t = genStartTimestamp 9 \<and> k \<in> fst ` set ?ws
          then map_of (written ?ws) k else get main_server k t)" by auto
  then show ?thesis unfolding s t v by (intro exI [of _ sh]) simp
qed

text \<open>
  A \<open>read\<close> that is typed brings the shell down, whatever the network and the server do.
\<close>
lemma shell_read_crashes:
  assumes "default_only rl"
  shows "shell_input (request net) mapper timev (new_shell (rl, w)) (show_tokens [READ, NUMBER k])
    = Some (Inl NullPointer)"
proof -
  have toks: "yylex (show_tokens [READ, NUMBER k]) = [READ, NUMBER k]"
    by (rule yylex_show_tokens) (simp add: scannable_def)
  obtain co gen where co: "new_coordinator new_id_generator timev = (co, gen)" "co_pend_writes co k = None"
    by (simp add: new_coordinator_def genTransactionID_def)
  from coord_read_fails [OF assms co(2), of net mapper w] co(1) show ?thesis
    unfolding shell_input_def toks
    by (auto simp: feed_defs new_shell_def)
qed

lemma shell_read_crashes_witness:
  "shell_input (request server_net) getNode 9 (new_shell (new_rsl_client new_rpc_client, main_server))
    (show_tokens [READ, NUMBER 5]) = Some (Inl NullPointer)"
  by (rule shell_read_crashes) simp

end
