(* ===== verification/Tests.thy ===== *)
theory Tests
  imports Server_Calls Client_Theorems
begin

text \<open>
  The test programs under \<open>src/src\<close>: \<open>LockManagerTest.cc\<close>, \<open>RPCTest.cc\<close>,
  \<open>ResolutionClientTest.cc\<close>, \<open>CoordinatorTest.cc\<close> and \<open>RunTests.cc\<close>, and what comes out when they
  are run on the model.
\<close>

definition assert_that :: "bool \<Rightarrow> 'a \<Rightarrow> 'a res" where
  "assert_that b x = (if b then Inr x else Inl AssertFailed)"

lemma assert_that_simps [simp]: "assert_that True x = Inr x" "assert_that False x = Inl AssertFailed"
  by (simp_all add: assert_that_def)

text \<open>How a program ends: with a failure, or not.\<close>

definition failed_with :: "'a res \<Rightarrow> failure option" where
  "failed_with r = (case r of Inl e \<Rightarrow> Some e | Inr _ \<Rightarrow> None)"

lemma failed_with_Inl: "failed_with r = Some e \<longleftrightarrow> r = Inl e"
  by (simp add: failed_with_def split: sum.split)

lemma failed_with_Inr: "failed_with r = None \<longleftrightarrow> (\<exists>x. r = Inr x)"
  by (simp add: failed_with_def split: sum.split)

section \<open>The test of the lock manager\<close>

text \<open>
  A call with the result that is asserted, and for a backward lock the start that is asserted,
  if any.  The events of the test do nothing when they are run.
\<close>

datatype lock_call =
    Backward u64 u64 u64 bool event_id bool "u64 option"
  | Lock u64 u64 u64 u64 bool bool
  | Freeze_all u64
  | Unlock_all u64

definition test_event_run :: "'s \<Rightarrow> event_id \<Rightarrow> 's" where
  "test_event_run s ev = s"

fun run_lock_call :: "lock_manager \<times> u64 \<Rightarrow> lock_call \<Rightarrow> (lock_manager \<times> u64) res" where
  "run_lock_call (m, ts) (Backward key tid ts_end is_read ev granted start) =
     and_then (need LockFailure (tryBackwardLock m key tid ts_end is_read ev ts)) (\<lambda>(m, res, ts).
       assert_that (res = granted \<and> (case start of None \<Rightarrow> True | Some t \<Rightarrow> ts = t)) (m, ts))"
| "run_lock_call (m, ts) (Lock key tid ts_start ts_end is_read granted) =
     and_then (need LockFailure (tryLock m key tid ts_start ts_end is_read)) (\<lambda>(m, res).
       assert_that (res = granted) (m, ts))"
| "run_lock_call (m, ts) (Freeze_all tid) =
     and_then (need LockFailure (freeze m tid)) (\<lambda>(m, events). Inr (foldl test_event_run (m, ts) events))"
| "run_lock_call (m, ts) (Unlock_all tid) =
     and_then (need LockFailure (unlock m tid)) (\<lambda>(m, events). Inr (foldl test_event_run (m, ts) events))"

fun run_lock_calls :: "lock_manager \<times> u64 \<Rightarrow> lock_call list \<Rightarrow> (lock_manager \<times> u64) res" where
  "run_lock_calls ml [] = Inr ml"
| "run_lock_calls ml (c # cs) = and_then (run_lock_call ml c) (\<lambda>ml. run_lock_calls ml cs)"

text \<open>The calls of \<open>LockManagerTest::run\<close>; the result is their assertions.\<close>

definition lock_manager_test :: "lock_call list" where
  "lock_manager_test =
    [Backward 0 0 3 False 1 True (Some 0),
     Backward 0 1 4 True 2 False (Some 3),
     Lock 1 0 5 15 False True,
     Lock 1 1 1 5 True False,
     Freeze_all 0,
     Backward 0 1 3 True 3 True (Some 3),
     Unlock_all 1,
     Backward 0 2 5 False 4 True (Some 3),
     Unlock_all 2,
     Backward 2 3 15 True 5 True (Some 0),
     Backward 2 4 30 True 6 True (Some 0),
     Lock 2 4 31 35 False True,
     Lock 2 5 5 5 False False,
     Backward 2 6 40 True 7 False (Some 35),
     Freeze_all 3,
     Freeze_all 4,
     Backward 2 6 35 True 8 True (Some 35),
     Backward 2 7 50 True 9 True None,
     Lock 2 7 51 55 False True,
     Backward 2 8 70 True 10 False (Some 55),
     Unlock_all 6,
     Unlock_all 7,
     Backward 2 8 55 True 11 True (Some 35),
     Freeze_all 8]"

text \<open>
  The header of the lock manager says that the start is part of the lock; the test asserts
  the time before it.
\<close>

fun inclusive :: "lock_call \<Rightarrow> lock_call" where
  "inclusive (Backward key tid ts_end is_read ev granted start) =
     Backward key tid ts_end is_read ev granted (map_option (\<lambda>t. t + 1) start)"
| "inclusive c = c"

text \<open>
  The header's reading is the one of the code: with it the whole test passes.  As it is
  written the test stops at the assertion after its first call.
\<close>

lemma first_start: "failed_with (run_lock_call (lm_init, 1) (Backward 0 0 3 False 1 True (Some 0))) = Some AssertFailed"
  by code_simp

lemma inclusive_passes: "failed_with (run_lock_calls (lm_init, 1) (map inclusive lock_manager_test)) = None"
  by code_simp

section \<open>The server side of the tests\<close>

text \<open>
  One round of the loops that answer requests: the next request, the body of the test with
  its assertions and results, the reply, its completion, and the garbage collection.
\<close>

definition serve_request ::
    "('q \<Rightarrow> handler_args \<Rightarrow> ('q \<times> handler_args) res) \<Rightarrow> rpc_server \<times> 'q \<Rightarrow> request_msg \<Rightarrow>
     ((rpc_server \<times> 'q) \<times> reply_msg) res" where
  "serve_request body sq m =
    (let (rs, q) = sq
     in and_then (need Blocked (free_handler rs (msg_type m))) (\<lambda>r.
        and_then (asyncNextRequest rs [(r, Some m)]) (\<lambda>(rs, req).
        and_then (need Blocked req) (\<lambda>(rid1, request).
        and_then (need NullPointer (rs_handlers rs rid1)) (\<lambda>h.
        and_then (body q (hd_args h)) (\<lambda>(q, args).
        and_then (sendReply (rs\<lparr>rs_handlers := (rs_handlers rs)(rid1 \<mapsto> h\<lparr>hd_args := args\<rparr>)\<rparr>) rid1) (\<lambda>rs.
        and_then (need NullPointer (Option.bind (rs_handlers rs rid1) hd_reply)) (\<lambda>reply.
        and_then (asyncNextCompletedReply rs [(rid1, None)]) (\<lambda>(rs, rid2).
        and_then (assert_that (rid2 = Some rid1) ()) (\<lambda>_.
        and_then (deleteRequest rs rid1) (\<lambda>rs. Inr ((rs, q), reply))))))))))))"

text \<open>A failure of the server thread ends the process: the calls after it get no reply.\<close>

type_synonym 'q test_world = "(rpc_server \<times> 'q) res"

definition test_net ::
    "('q \<Rightarrow> handler_args \<Rightarrow> ('q \<times> handler_args) res) \<Rightarrow> 'q test_world network" where
  "test_net body w addr m =
    (case and_then w (\<lambda>sq. serve_request body sq m) of
       Inl e \<Rightarrow> (Inl e, None)
     | Inr (sq, reply) \<Rightarrow> (Inr sq, Some reply))"

section \<open>The test of the RPC layer\<close>

text \<open>The server, which counts its requests.\<close>

definition rpc_test_body :: "nat \<Rightarrow> handler_args \<Rightarrow> (nat \<times> handler_args) res" where
  "rpc_test_body q args =
    (case args of
       ARead a \<Rightarrow> assert_that (q = 0 \<and> rr_args a = \<lparr>ra_tid = 0, ra_start_ts = 254, ra_key = 135\<rparr>)
         (Suc q, ARead (a\<lparr>rr_status := Some True, rr_value := Some ''0''\<rparr>))
     | AWrite a \<Rightarrow> assert_that (q = 1 \<and> rw_args a = \<lparr>wa_tid = 0, wa_key = 1, wa_value = ''1''\<rparr>)
         (Suc q, AWrite (a\<lparr>rw_status := Some True\<rparr>))
     | AP1C a \<Rightarrow> assert_that (q = 2 \<and> rp1_args a = \<lparr>p1_tid = 0, p1_start_ts = 2, p1_commit_ts = 2,
           p1_read_nodes = [0], p1_write_nodes = [1]\<rparr>)
         (Suc q, AP1C (a\<lparr>rp1_nodes := [2], rp1_vote := Some True\<rparr>))
     | AP2C a \<Rightarrow> assert_that (q = 3 \<and> rp2_args a = \<lparr>p2_tid = 0, p2_vote = True\<rparr>)
         (Suc q, AP2C (a\<lparr>rp2_nodes := [3]\<rparr>)))"

text \<open>The client: four asynchronous calls, each with assertions on what comes back.\<close>

definition rpc_test_call ::
    "'w network \<Rightarrow> rpc_client \<times> 'w \<Rightarrow> u64 \<Rightarrow> handler_args \<Rightarrow> (handler_args \<Rightarrow> bool) \<Rightarrow> (rpc_client \<times> 'w) res" where
  "rpc_test_call net cw tag args ok =
     and_then (asyncRPC net cw default_address tag args) (\<lambda>(rc, w).
     and_then (waitAsyncReply rc tag) (\<lambda>(rc, res, args). assert_that (res \<and> ok args) (rc, w)))"

definition rpc_test_client :: "'w network \<Rightarrow> rpc_client \<times> 'w \<Rightarrow> (rpc_client \<times> 'w) res" where
  "rpc_test_client net cw =
     and_then (rpc_test_call net cw 1
       (ARead \<lparr>rr_args = \<lparr>ra_tid = 0, ra_start_ts = 254, ra_key = 135\<rparr>, rr_value = None, rr_status = None\<rparr>)
       (\<lambda>args. case args of ARead a \<Rightarrow> rr_status a = Some True \<and> rr_value a = Some ''0'' | _ \<Rightarrow> False)) (\<lambda>cw.
     and_then (rpc_test_call net cw 2
       (AWrite \<lparr>rw_args = \<lparr>wa_tid = 0, wa_key = 1, wa_value = ''1''\<rparr>, rw_status = None\<rparr>)
       (\<lambda>args. case args of AWrite a \<Rightarrow> rw_status a = Some True | _ \<Rightarrow> False)) (\<lambda>cw.
     and_then (rpc_test_call net cw 3
       (AP1C \<lparr>rp1_args = \<lparr>p1_tid = 0, p1_start_ts = 2, p1_commit_ts = 2, p1_read_nodes = [0], p1_write_nodes = [1]\<rparr>,
              rp1_nodes = [], rp1_vote = None\<rparr>)
       (\<lambda>args. case args of AP1C a \<Rightarrow> rp1_nodes a = [2] \<and> rp1_vote a = Some True | _ \<Rightarrow> False)) (\<lambda>cw.
     rpc_test_call net cw 4
       (AP2C \<lparr>rp2_args = \<lparr>p2_tid = 0, p2_vote = True\<rparr>, rp2_nodes = []\<rparr>)
       (\<lambda>args. case args of AP2C a \<Rightarrow> rp2_nodes a = [3] | _ \<Rightarrow> False))))"

text \<open>Both threads: the test is over when the server has answered four requests.\<close>

definition rpc_test :: "rpc_client \<Rightarrow> rpc_server \<Rightarrow> (rpc_client \<times> rpc_server) res" where
  "rpc_test rc rs =
     and_then (rpc_test_client (test_net rpc_test_body) (rc, Inr (rs, 0))) (\<lambda>(rc, w).
     and_then w (\<lambda>(rs, q). if q < 4 then Inl Blocked else Inr (rc, rs)))"

lemma rpc_test_passes: "failed_with (rpc_test new_rpc_client new_rpc_server) = None"
  by code_simp

section \<open>The test of the resolution client\<close>

definition rsl_test_body :: "nat \<Rightarrow> handler_args \<Rightarrow> (nat \<times> handler_args) res" where
  "rsl_test_body q args =
    (case args of
       ARead a \<Rightarrow> assert_that (rr_args a = \<lparr>ra_tid = 0, ra_start_ts = 30, ra_key = 4\<rparr>)
         (Suc q, ARead (a\<lparr>rr_value := Some ''0'', rr_status := Some True\<rparr>))
     | AWrite a \<Rightarrow> assert_that (rw_args a = \<lparr>wa_tid = 0, wa_key = 13, wa_value = ''100''\<rparr>)
         (Suc q, AWrite (a\<lparr>rw_status := Some True\<rparr>))
     | AP1C a \<Rightarrow> assert_that (rp1_args a = \<lparr>p1_tid = 0, p1_start_ts = 4, p1_commit_ts = 4,
           p1_read_nodes = [0], p1_write_nodes = [1]\<rparr>)
         (Suc q, AP1C (a\<lparr>rp1_nodes := [1], rp1_vote := Some True\<rparr>))
     | AP2C a \<Rightarrow> assert_that (rp2_args a = \<lparr>p2_tid = 0, p2_vote = True\<rparr>)
         (Suc q, AP2C (a\<lparr>rp2_nodes := [0]\<rparr>)))"

text \<open>The client: a read, and then the three other requests.\<close>

definition rsl_test_read :: "'s resolution \<Rightarrow> 's \<Rightarrow> 's run" where
  "rsl_test_read req s =
     and_run (req s [0] (RslRead \<lparr>rsl_read_args = \<lparr>ra_tid = 0, ra_start_ts = 30, ra_key = 4\<rparr>, rsl_value = Some ''''\<rparr>))
       (\<lambda>(s, args). Some (assert_that (case args of RslRead a \<Rightarrow> rsl_value a = Some ''0'' | _ \<Rightarrow> False) s))"

definition rsl_test_updates :: "'s resolution \<Rightarrow> 's \<Rightarrow> 's run" where
  "rsl_test_updates req s =
     and_run (req s [1] (RslWrite \<lparr>rsl_write_args = \<lparr>wa_tid = 0, wa_key = 13, wa_value = ''100''\<rparr>\<rparr>)) (\<lambda>(s, _).
     and_run (req s [1] (RslP1C \<lparr>rsl_p1c_args = \<lparr>p1_tid = 0, p1_start_ts = 4, p1_commit_ts = 4,
                p1_read_nodes = [0], p1_write_nodes = [1]\<rparr>, rsl_vote = None\<rparr>)) (\<lambda>(s, args).
     and_run (Some (assert_that (case args of RslP1C a \<Rightarrow> rsl_vote a = Some True | _ \<Rightarrow> False) s)) (\<lambda>s.
     and_run (req s [0] (RslP2C \<lparr>rsl_p2c_args = \<lparr>p2_tid = 0, p2_vote = True\<rparr>\<rparr>)) (\<lambda>(s, _). Some (Inr s)))))"

text \<open>Both threads; the server answers four requests.\<close>

definition resolution_client_test :: "rsl_client \<Rightarrow> rpc_server \<Rightarrow> (rsl_client \<times> rpc_server) run" where
  "resolution_client_test rl rs =
    (let req = request (test_net rsl_test_body)
     in and_run (rsl_test_read req (rl, Inr (rs, 0))) (\<lambda>s.
        and_run (rsl_test_updates req s) (\<lambda>(rl, w).
        Some (and_then w (\<lambda>(rs, q). if q < 4 then Inl Blocked else Inr (rl, rs))))))"

section \<open>The test of the coordinator\<close>

text \<open>
  The server keeps what it has seen of the transaction; there is one server, so that its maps
  from servers to nodes are sets.
\<close>

record coord_test =
  ct_start :: "u64 option"
  ct_commit :: "u64 option"
  ct_tid :: "u64 option"
  ct_read_nodes :: "u64 list"
  ct_write_nodes :: "u64 list"
  ct_nodes :: "u64 list"
  ct_finished :: bool

definition new_coord_test :: coord_test where
  "new_coord_test = \<lparr>ct_start = None, ct_commit = None, ct_tid = None, ct_read_nodes = [],
     ct_write_nodes = [], ct_nodes = [], ct_finished = False\<rparr>"

text \<open>A time is set by the first request that has it, and is the same in the later ones.\<close>

definition same_time :: "u64 option \<Rightarrow> u64 \<Rightarrow> bool" where
  "same_time t ts \<longleftrightarrow> (case t of None \<Rightarrow> True | Some t \<Rightarrow> ts = t)"

definition same_nodes :: "u64 list \<Rightarrow> u64 list \<Rightarrow> bool" where
  "same_nodes ns seen \<longleftrightarrow> length ns = length seen \<and> list_all (\<lambda>n. n \<in> set seen) ns"

definition coord_test_body ::
    "(u64 \<Rightarrow> u64) \<Rightarrow> coord_test \<Rightarrow> handler_args \<Rightarrow> (coord_test \<times> handler_args) res" where
  "coord_test_body mapper q args =
    (case args of
       ARead a \<Rightarrow>
         let node = mapper (ra_key (rr_args a)); start = ra_start_ts (rr_args a)
         in assert_that (same_time (ct_start q) start)
              (q\<lparr>ct_tid := Some (ra_tid (rr_args a)), ct_read_nodes := set_insert node (ct_read_nodes q),
                 ct_nodes := set_insert node (ct_nodes q), ct_start := Some start\<rparr>,
               ARead (a\<lparr>rr_value := Some ''100'', rr_status := Some True\<rparr>))
     | AWrite a \<Rightarrow>
         and_then (need Uninitialised (ct_tid q)) (\<lambda>tid.
         let node = mapper (wa_key (rw_args a))
         in assert_that (wa_tid (rw_args a) = tid)
              (q\<lparr>ct_write_nodes := set_insert node (ct_write_nodes q), ct_nodes := set_insert node (ct_nodes q)\<rparr>,
               AWrite (a\<lparr>rw_status := Some True\<rparr>)))
     | AP1C a \<Rightarrow>
         and_then (need Uninitialised (ct_tid q)) (\<lambda>tid.
         let start = p1_start_ts (rp1_args a); cts = p1_commit_ts (rp1_args a)
         in assert_that (p1_tid (rp1_args a) = tid \<and> same_time (ct_start q) start
                \<and> (case ct_commit q of None \<Rightarrow> start \<le> cts | Some t \<Rightarrow> cts = t)
                \<and> same_nodes (p1_read_nodes (rp1_args a)) (ct_read_nodes q)
                \<and> same_nodes (p1_write_nodes (rp1_args a)) (ct_write_nodes q))
              (q\<lparr>ct_start := Some start, ct_commit := Some cts\<rparr>,
               AP1C (a\<lparr>rp1_nodes := ct_nodes q, rp1_vote := Some True\<rparr>)))
     | AP2C a \<Rightarrow>
         and_then (need Uninitialised (ct_tid q)) (\<lambda>tid.
         assert_that (p2_tid (rp2_args a) = tid \<and> p2_vote (rp2_args a))
           (q\<lparr>ct_nodes := [], ct_finished := True\<rparr>, AP2C (a\<lparr>rp2_nodes := ct_nodes q\<rparr>))))"

text \<open>The test calls \<open>run\<close> on a \<open>Coordinator\<close>, and then waits for the server thread.\<close>

definition coordinator_test ::
    "rsl_client \<Rightarrow> rpc_server \<Rightarrow> 'm coordinator_scheme \<Rightarrow> (rsl_client \<times> rpc_server) run" where
  "coordinator_test rl rs co =
     and_run (coordinator_run ((rl, Inr (rs, new_coord_test) :: coord_test test_world), co)) (\<lambda>(((rl, w), _), _).
     Some (and_then w (\<lambda>(rs, q). if \<not> ct_finished q then Inl Blocked else Inr (rl, rs))))"

section \<open>All tests\<close>

definition run_tests :: "int \<Rightarrow> (rsl_client \<times> rpc_server) run" where
  "run_tests timev =
    (let (co, id_gen) = new_withdraw_coordinator new_id_generator timev 100
     in and_run (Some (run_lock_calls (lm_init, 1) lock_manager_test)) (\<lambda>_.
        and_run (Some (rpc_test new_rpc_client new_rpc_server)) (\<lambda>(rc, rs).
        and_run (resolution_client_test (new_rsl_client rc) rs) (\<lambda>(rl, rs).
        coordinator_test rl rs co))))"

text \<open>The requests of a withdrawal, one after the other, at the server of the coordinator test.\<close>

fun serve_all ::
    "('q \<Rightarrow> handler_args \<Rightarrow> ('q \<times> handler_args) res) \<Rightarrow> rpc_server \<times> 'q \<Rightarrow> request_msg list \<Rightarrow>
     ((rpc_server \<times> 'q) \<times> reply_msg list) res" where
  "serve_all body sq [] = Inr (sq, [])"
| "serve_all body sq (m # ms) =
     and_then (serve_request body sq m) (\<lambda>(sq, reply).
     and_then (serve_all body sq ms) (\<lambda>(sq, replies). Inr (sq, reply # replies)))"

definition withdrawal_requests :: "request_msg list" where
  "withdrawal_requests =
    [MRead \<lparr>rq_tid = 0, rq_start_ts = 9, rq_key = 1\<rparr>, MRead \<lparr>rq_tid = 0, rq_start_ts = 9, rq_key = 2\<rparr>,
     MWrite \<lparr>wq_tid = 0, wq_key = 1, wq_value = ''0''\<rparr>,
     MP1C \<lparr>p1q_tid = 0, p1q_start_ts = 9, p1q_commit_ts = 9, p1q_read_node = [0], p1q_write_node = [0]\<rparr>,
     MP2C \<lparr>p2q_tid = 0, p2q_vote = True\<rparr>]"

lemma withdrawal_served:
  "case serve_all (coord_test_body getNode) (new_rpc_server, new_coord_test) withdrawal_requests of
     Inl _ \<Rightarrow> False
   | Inr ((_, q), replies) \<Rightarrow> ct_finished q \<and> replies =
       [RRead \<lparr>rp_value = ''100'', rp_status = True\<rparr>, RRead \<lparr>rp_value = ''100'', rp_status = True\<rparr>,
        RWrite \<lparr>wp_status = True\<rparr>, RP1C \<lparr>p1p_node = [0], p1p_vote = True\<rparr>, RP2C \<lparr>p2p_node = [0]\<rparr>]"
  by code_simp

lemma resolution_read_fails:
  "map_option failed_with (and_run (Some (rpc_test new_rpc_client new_rpc_server)) (\<lambda>(rc, rs).
     rsl_test_read (request (test_net rsl_test_body)) (new_rsl_client rc, Inr (rs, 0)))) = Some (Some NullPointer)"
  by code_simp

text \<open>How many requests the server of a test that has come to its end has answered.\<close>

definition answered :: "('a \<times> nat test_world) run \<Rightarrow> nat option" where
  "answered r = (case r of Some (Inr (_, Inr (_, q))) \<Rightarrow> Some q | _ \<Rightarrow> None)"

lemma answered_Some: "answered r = Some q \<longleftrightarrow> (\<exists>a rs. r = Some (Inr (a, Inr (rs, q))))"
  by (auto simp: answered_def split: option.splits sum.splits prod.splits)

lemma resolution_updates_pass:
  "answered (rsl_test_updates (request (test_net rsl_test_body)) (new_rsl_client new_rpc_client, Inr (new_rpc_server, 1)))
   = Some 4"
  by code_simp

text \<open>
  The program's own tests on the model.  The lock manager test stops at the assertion
  after its first call, because it takes the start of a backward lock to be exclusive; with
  inclusive starts, as the header of the lock manager has them, all of its 24 calls return
  what it asserts.  So \<open>RunTests\<close> stops there.  The RPC test passes.  The test of the resolution
  client dies in its first request, a read, and its other requests pass; the test of the
  coordinator waits for its server thread forever, because \<open>run\<close> is not virtual.
\<close>
lemma tests_outcome:
  "run_lock_calls (lm_init, 1) lock_manager_test = Inl AssertFailed
   \<and> (\<exists>ml. run_lock_calls (lm_init, 1) (map inclusive lock_manager_test) = Inr ml)
   \<and> run_tests timev = Some (Inl AssertFailed)
   \<and> (\<exists>rc rs. rpc_test new_rpc_client new_rpc_server = Inr (rc, rs)
        \<and> resolution_client_test (new_rsl_client rc) rs = Some (Inl NullPointer))
   \<and> (\<exists>rl rs. rsl_test_updates (request (test_net rsl_test_body)) (new_rsl_client new_rpc_client, Inr (new_rpc_server, 1))
        = Some (Inr (rl, Inr (rs, 4))))
   \<and> coordinator_test rl rs co = Some (Inl Blocked)"
proof -
  have lock: "run_lock_calls (lm_init, 1) lock_manager_test = Inl AssertFailed"
    using first_start unfolding failed_with_Inl by (simp add: lock_manager_test_def del: run_lock_call.simps)
  moreover have "\<exists>ml. run_lock_calls (lm_init, 1) (map inclusive lock_manager_test) = Inr ml"
    using inclusive_passes unfolding failed_with_Inr .
  moreover have "run_tests timev = Some (Inl AssertFailed)"
    by (simp add: run_tests_def lock case_prod_unfold Let_def)
  moreover obtain rc rs' where r: "rpc_test new_rpc_client new_rpc_server = Inr (rc, rs')"
    using rpc_test_passes unfolding failed_with_Inr by auto
  moreover have "resolution_client_test (new_rsl_client rc) rs' = Some (Inl NullPointer)"
  proof -
    from resolution_read_fails r
    have "rsl_test_read (request (test_net rsl_test_body)) (new_rsl_client rc, Inr (rs', 0)) = Some (Inl NullPointer)"
      by (simp add: failed_with_Inl)
    then show ?thesis by (simp add: resolution_client_test_def)
  qed
  moreover have "\<exists>rl rs. rsl_test_updates (request (test_net rsl_test_body))
      (new_rsl_client new_rpc_client, Inr (new_rpc_server, 1)) = Some (Inr (rl, Inr (rs, 4)))"
    using resolution_updates_pass unfolding answered_Some .
  moreover have "coordinator_test rl rs co = Some (Inl Blocked)"
    by (simp add: coordinator_test_def coordinator_run_def new_coord_test_def)
  ultimately show ?thesis by blast
qed

end
