(* ===== verification/Spec2Isabelle.thy ===== *)
theory Spec2Isabelle
  imports Lock_Theorems Server_Theorems Server_Types Client_Theorems Versioned_Store
    Concurrent_Transactions Interleaved_Transactions Lock_Order Lock_Separate Programs Shell Tests
begin

text \<open>
  mvtx is a transactional key-value store with multiple versions per key.  A client runs
  transactions through coordinators; a server keeps the versions and locks points in time.  A
  transaction reads the latest version before its start time, buffers its writes at the server,
  and commits in two phases: the first locks the commit time of every written key, the second
  makes the locks permanent and stores the versions, or drops both.  This development models
  the program under \<open>src/src\<close> and proves what makes it correct; where the code does something
  else than it means to, a theorem says so.

  Parts, from the bottom up, with the theories that hold them:

  \<^item> Interval locks of one key.  \<open>Lock_Node\<close> is the balanced tree of \<open>AVLTreeLockNode.cc\<close> on an
    explicit heap of nodes: every operation with its pointer updates.  \<open>Lock_Tree\<close>, \<open>Lock_Balance\<close>
    and \<open>Lock_Insert\<close> relate the heap to trees, \<open>Lock_Intervals\<close> and \<open>Lock_Table\<close> to the
    partition of the time line into intervals with a status and holders.

  \<^item> The lock manager.  \<open>Lock_Manager\<close> is \<open>AVLTreeLockManager.cc\<close>: a tree per key, the events
    that wait for an interval, the locks of a transaction.  \<open>Lock_Backward\<close>, \<open>Lock_State\<close>,
    \<open>Lock_Acquire\<close>, \<open>Lock_Release\<close> and \<open>Lock_Grant\<close> prove each operation against
    \<open>Lock_Spec\<close>, a table of locks for every key and time.  \<open>Lock_Interface\<close> states what users of a
    lock manager rely on as locales, with an interpretation on the model, and derives the safety
    of reads from them; \<open>Lock_Events\<close> bounds which events an operation may hand over.
    \<open>Lock_Threads\<close> cuts the operations into tasks that take a mutex or a reader-writer lock, give
    it back, or work on what it protects, so that threads can take turns inside them: a thread
    alone does what the operations do as a whole.  \<open>Lock_Guards\<close> proves that no two threads hold
    guards that clash; \<open>Lock_Local\<close> proves of every operation on nodes that a set of nodes without
    a pointer out of it is all that the operation reads and writes; with both, \<open>Lock_Separate\<close>
    proves that the trees of different keys stay apart and that threads do not race.
    \<open>Lock_Deadlock\<close> that requests do not wait for each other in a circle, nor do commits and
    aborts, and that a commit and a request can.  \<open>Lock_Settled\<close> and \<open>Lock_Order\<close> prove that
    requests of different transactions take effect as a whole, in some order, and do not fail.

  \<^item> Requests.  \<open>Request\<close> has the argument structures of \<open>Request.h\<close>, the messages of
    \<open>MvtkvsService.proto\<close> and the failures.  \<open>RPC_Server\<close> is \<open>GRPCServer.cc\<close>: request handlers with
    their life cycle and the two queues.  \<open>RPC_Client\<close> is \<open>GRPCClient.cc\<close>.  \<open>RPC_Theorems\<close> has the
    round trips of requests and replies, the equivalence of the two ways to call, and the
    invariant that a handler of each type always listens.

  \<^item> The server.  \<open>Safe_Queue\<close> is \<open>SafeQueue.cc\<close>.  \<open>TServer\<close> is \<open>SimpleTServer.cc\<close> with the
    events of \<open>ServerEvent.cc\<close> and the threads of \<open>ServerMain.cc\<close>: the event loop, the store, the
    pending writes.  \<open>Server_Data\<close> and \<open>Server_Handlers\<close> say which operations touch which part of
    the state.  \<open>Server_Spec\<close> is the abstract specification: committed versions, the invariant that
    ties locks to stored versions and prepared transactions, and the steps that keep it.
    \<open>Server_Events\<close> proves that every event is such a step, \<open>Server_Runs\<close> that every run is,
    \<open>Server_Types\<close> that no cast of \<open>getEvent\<close> or of an event goes wrong (a \<open>switch\<close> on the type of a
    request that meets other arguments is the failure \<open>BadCast\<close>), \<open>Server_Scenario\<close> plays concrete
    transactions, and \<open>Server_Theorems\<close> has the properties.  \<open>Server_Calls\<close> follows whole calls
    to a server that has nothing else to do, from the message to the reply.  \<open>Server_Threads\<close>
    cuts events into tasks, each with one access to what the threads share, so that threads can
    take turns inside an event: a thread alone does what the whole event does, and a read in
    the middle of a commit breaks the server.

  \<^item> The client.  \<open>Generators\<close> has key mapper, transaction IDs and timestamps; \<open>Resolution\<close> is
    \<open>SimpleResolutionClient.cc\<close>; \<open>Coordinator\<close> is \<open>Coordinator.cc\<close> with the withdrawals of
    \<open>WithdrawCoordinator.cc\<close> and the loops of \<open>WithdrawCoordinatorMain.cc\<close>.  \<open>Client_Theorems\<close> states
    what a coordinator relies on as a locale, interpreted on the resolution client, and has the
    properties.

  \<^item> The system.  \<open>Transactions\<close> puts the coordinator, the resolution client and the RPC client on
    top of the server: the network carries one call at a time to the server and the reply back,
    and a whole transaction is all or nothing.  \<open>Versioned_Store\<close> is the abstract specification of
    the system, versions ordered by time with protected reads, and the proof that a process that
    commits and reads refines it.  \<open>Concurrent_Transactions\<close> lets the requests of any number of
    coordinators reach the server in any order: every one is answered, and transactions of writes
    stay isolated.  \<open>Sessions\<close>, \<open>Session_Turns\<close> and \<open>Interleaved_Transactions\<close> let the threads
    of the server take turns inside these requests, after every lock, every access to a table
    and every reply: an invariant says what a session may rely on between its tasks, every task
    of one session leaves that of the others true, and transactions of writes stay isolated
    still.  A client of \<open>L\<close> writes needs at most \<open>4 * L + 9\<close> turns: three for each write, one for
    each key to lock, nine for the rest of the two phases.

  \<^item> The programs.  \<open>Programs\<close> has \<open>main\<close> of \<open>ServerMain.cc\<close> and \<open>WithdrawCoordinatorMain.cc\<close>, with
    the threads of the client program and what becomes of their coordinators.

  \<^item> The shell.  \<open>Shell\<close> is the scanner and the grammar of \<open>shell/shell.l\<close> and \<open>shell/shell.y\<close>: a
    state machine over tokens with the actions on a coordinator and the recovery from syntax
    errors.  Printing and scanning are inverse, and a typed transaction of writes reaches the
    store.

  \<^item> The tests.  \<open>Tests\<close> is \<open>LockManagerTest.cc\<close>, \<open>RPCTest.cc\<close>, \<open>ResolutionClientTest.cc\<close>,
    \<open>CoordinatorTest.cc\<close> and \<open>RunTests.cc\<close>, run on the models of the parts that they test.

  Conventions.  State is a record, passed explicitly; \<open>uint64_t\<close> is \<open>u64\<close>, a word of 64 bits
  that wraps around.  A pointer that may be null and a field that may be read before it is set
  are options.  Lock operations return \<^const>\<open>None\<close> where the code dereferences null, takes the
  back of an empty vector or does not return; server and client operations return a \<open>failure\<close> on
  the left of a sum.  An event is identified by its address; a request ID is the address of its
  handler, and addresses are not used twice.  \<open>std::set\<close> is the ascending list of its elements.

  Bounds.  \<open>run_event\<close> takes the depth to which events run events: 2, since the second commit
  phase runs waiting reads, which run nothing.  \<open>wait_reply\<close> is given 2 turns, since the second wait
  for a call can only block.  Loops over pointers and the retry loops of the commit phases are
  partial functions without a bound.  \<open>getEvent\<close> takes the arrivals at its polls.

  Parameters.  The gRPC runtime is not part of the program: at the server it delivers tags and
  messages, at the client it is a function from the state of the world, an address and a
  message to the next state and a reply.  The clock is an argument.

  Assumptions of the server properties.  Runs interleave whole events; the theories of sessions
  interleave the tasks inside them, with one access to shared state as an atomic step: an
  operation of the lock manager, an access to the store or to a table, a round of \<open>getEvent\<close>, a
  reply.  An allowed event (\<open>event_allowed\<close>) starts and commits at the same time, prepares
  with fresh locks, commits only when all its writes are locked and no read waits for them, and
  aborts only when it shares no read lock; \<open>awaited_commit_crashes\<close>,
  \<open>unlock_drops_shared_read_lock\<close> and \<open>tryLock_skips_held_interval\<close> show that the code breaks
  without these.  Reads start after time 0.  That an operation of the lock manager is one step
  is right for requests (\<open>requests_in_some_order\<close>).  It leaves aside the circle of
  \<open>commit_and_lock_deadlock\<close>, and that \<open>freeze\<close> and \<open>unlock\<close> go from key to key: another thread may
  find one key of a transaction frozen and the next not yet.

  Not modelled: the interleaving of threads inside an access to the store or a table and inside
  one task of the lock manager, the mutexes of the server (but for the two that \<open>getEvent\<close> fails
  to unlock), destructors other than the status check of a handler,
  console output other than the counts of the client program, and the generated protocol buffer
  classes.
\<close>

end
